(* ===== verification/Prelude.thy ===== *)
theory Prelude
  imports Main "HOL-Library.Word"
begin

text \<open>
  Shared material of the development: the named fact collections, the type
  abbreviations for the machine integers of the engine (64-bit build), and the
  generic lemmas on words, filtered index ranges and association lists that the
  component theories rest on.
\<close>

unbundle bit_operations_syntax

named_theorems ht_defs "unfolding rules for the small accessors of the hash table"
named_theorems ht_frame "fields an operation of the hash table leaves alone"

type_synonym u32 = "32 word"
type_synonym zend_ulong = "64 word"

text \<open>What a fallible engine routine can report: \<open>zend_error_noreturn(E_ERROR, ...)\<close>.\<close>

datatype zend_error = E_ALLOC_OVERFLOW nat | E_NESTING_LEVEL

text \<open>
  Ordered association lists, the abstract view of a PHP array: an update keeps the
  position of an existing key and appends a new one.
\<close>

fun alist_put :: "'k \<Rightarrow> 'v \<Rightarrow> ('k \<times> 'v) list \<Rightarrow> ('k \<times> 'v) list" where
  "alist_put k v [] = [(k, v)]"
| "alist_put k v ((k', v') # xs) = (if k = k' then (k, v) # xs else (k', v') # alist_put k v xs)"

definition alist_del :: "'k \<Rightarrow> ('k \<times> 'v) list \<Rightarrow> ('k \<times> 'v) list" where
  "alist_del k xs = filter (\<lambda>p. fst p \<noteq> k) xs"

section \<open>Words\<close>

lemma uint_mask32: "n \<le> 32 \<Longrightarrow> uint (mask n :: u32) = 2 ^ n - 1"
  using uint_mask_eq[where 'a=32, of n]
  by (simp add: min_def mask_eq_exp_minus_1 split: if_splits)

lemma take_bit_uint32: "take_bit 32 (uint (w::u32)) = uint w"
  using uint_lt2p[of w] by (simp add: take_bit_int_eq_self_iff)

lemma uint_not32: "uint (NOT w :: u32) = 2 ^ 32 - 1 - uint w"
  by (simp add: unsigned_not_eq take_bit_not_eq_mask_diff mask_eq_exp_minus_1 take_bit_uint32)

lemma minus_power_eq_not_mask: "- (2 ^ n :: 'a::len word) = NOT (mask n)"
  by (simp add: mask_eq_exp_minus_1 not_eq_complement)

lemma uint_minus_power32: "n \<le> 32 \<Longrightarrow> uint (- (2 ^ n) :: u32) = 2 ^ 32 - 2 ^ n"
  by (simp add: minus_power_eq_not_mask uint_not32 uint_mask32)

lemma bit_uint_31: "bit (uint (w::u32)) 31 \<longleftrightarrow> 2 ^ 31 \<le> uint w"
proof -
  have "uint w < 2 ^ 32" using uint_lt2p[of w] by simp
  then have "uint w div 2 ^ 31 < 2" by (simp add: div_less_iff_less_mult)
  moreover have "uint w div 2 ^ 31 \<ge> 0" by (simp add: pos_imp_zdiv_nonneg_iff)
  ultimately have "uint w div 2 ^ 31 = 0 \<or> uint w div 2 ^ 31 = 1" by linarith
  then show ?thesis unfolding bit_iff_odd
    by (auto simp: zdiv_eq_0_iff dest: div_less_iff_less_mult[THEN iffD1])
qed

lemma sint_high32: "2 ^ 31 \<le> uint (w::u32) \<Longrightarrow> sint w = uint w - 2 ^ 32"
  by (simp add: sint_uint signed_take_bit_eq_take_bit_minus bit_uint_31 take_bit_uint32)

text \<open>
  A word whose high bits are all set (the table masks are negated powers of two) reads,
  as a signed number, as an offset in \<open>[-2^n, -1]\<close>.
\<close>

lemma sint_or_minus_power:
  assumes "n \<le> 31"
  shows "- (2 ^ n) \<le> sint (w OR - (2 ^ n) :: u32)" and "sint (w OR - (2 ^ n) :: u32) < 0"
proof -
  let ?v = "w OR - (2 ^ n) :: u32"
  have "- (2 ^ n) \<le> ?v" by (rule le_word_or1)
  with assms have ge: "2 ^ 32 - 2 ^ n \<le> uint ?v"
    by (simp add: uint_minus_power32 word_le_def)
  have "(2::int) ^ n \<le> 2 ^ 31" using assms by (intro power_increasing) auto
  with ge have "2 ^ 31 \<le> uint ?v" by simp
  then have s: "sint ?v = uint ?v - 2 ^ 32" by (rule sint_high32)
  show "- (2 ^ n) \<le> sint ?v" using ge s by linarith
  show "sint ?v < 0" using uint_lt2p[of ?v] s by simp
qed

lemma unat_of_nat_less_power: "n < 2 ^ LENGTH('a) \<Longrightarrow> unat (of_nat n :: 'a::len word) = n"
  by (simp add: unsigned_of_nat take_bit_nat_eq_self)

lemma of_nat_64_inj:
  assumes "(of_nat i :: 64 word) = of_nat j" and "i < 2 ^ 32" and "j < 2 ^ 32"
  shows "i = j"
  using arg_cong[OF assms(1), of unat] assms(2,3) by (simp add: unat_of_nat_less_power)

lemma unat_power32: "n < 32 \<Longrightarrow> unat (2 ^ n :: u32) = 2 ^ n"
proof -
  assume "n < 32"
  then have "(2::nat) ^ n < 2 ^ 32" by (intro power_strict_increasing) auto
  then show ?thesis using unat_of_nat_less_power[where 'a=32, of "2 ^ n"] by simp
qed

section \<open>Index ranges and filters\<close>

lemma filter_upt_Suc: "filter P [0..<Suc n] = filter P [0..<n] @ (if P n then [n] else [])"
  by simp

lemma filter_upt_cong: "(\<And>i. i < n \<Longrightarrow> P i = Q i) \<Longrightarrow> filter P [0..<n] = filter Q [0..<n]"
  by (intro filter_cong) auto

lemma filter_upt_le:
  assumes "m \<le> n" and "\<And>i. m \<le> i \<Longrightarrow> i < n \<Longrightarrow> \<not> P i"
  shows "filter P [0..<n] = filter P [0..<m]"
proof -
  have "[0..<n] = [0..<m] @ [m..<n]" using assms(1) by (metis le0 le_add_diff_inverse upt_add_eq_append)
  moreover have "filter P [m..<n] = []" using assms(2) by (auto simp: filter_empty_conv)
  ultimately show ?thesis by simp
qed

lemma length_filter_upt_le: "length (filter P [0..<n]) \<le> n"
  using length_filter_le[of P "[0..<n]"] by simp

lemma nth_update_cases: "xs[i := x] ! j = (if i = j \<and> i < length xs then x else xs ! j)"
  by (cases "i < length xs") (auto simp: nth_list_update list_update_beyond)

lemma find_SomeD: "List.find P xs = Some x \<Longrightarrow> x \<in> set xs \<and> P x"
  by (auto simp: find_Some_iff)

section \<open>Ordered association lists\<close>

lemma alist_put_fresh: "k \<notin> fst ` set xs \<Longrightarrow> alist_put k v xs = xs @ [(k, v)]"
  by (induction xs) auto

lemma map_of_alist_put [simp]: "map_of (alist_put k v xs) = (map_of xs)(k \<mapsto> v)"
  by (induction k v xs rule: alist_put.induct) (auto simp: fun_eq_iff)

lemma map_of_alist_del [simp]: "map_of (alist_del k xs) = (map_of xs)(k := None)"
  by (induction xs) (auto simp: alist_del_def)

lemma keys_alist_put: "fst ` set (alist_put k v xs) = insert k (fst ` set xs)"
  by (induction k v xs rule: alist_put.induct) (simp_all add: insert_commute)

lemma distinct_alist_put: "distinct (map fst xs) \<Longrightarrow> distinct (map fst (alist_put k v xs))"
proof (induction xs)
  case (Cons x xs)
  then show ?case using keys_alist_put[of k v xs] by (cases x) auto
qed simp

lemma distinct_alist_del: "distinct (map fst xs) \<Longrightarrow> distinct (map fst (alist_del k xs))"
  by (simp add: alist_del_def distinct_map_filter)

lemma alist_put_at:
  assumes "distinct (map fst xs)" and "i < length xs" and "fst (xs ! i) = k"
  shows "alist_put k v xs = xs[i := (k, v)]"
  using assms
proof (induction xs arbitrary: i)
  case (Cons x xs)
  show ?case
  proof (cases i)
    case 0
    with Cons.prems show ?thesis by (cases x) auto
  next
    case (Suc j)
    with Cons.prems have "j < length xs" "fst (xs ! j) = k" "fst x \<noteq> k"
      by (auto simp: image_iff dest!: nth_mem)
    with Cons Suc show ?thesis by (cases x) auto
  qed
qed simp

end
