(* ===== verification/ZendSort.thy ===== *)
theory ZendSort
  imports Prelude "HOL-Library.Multiset"
begin

text \<open>
  The engine's hybrid sort (zend_sort.c): insertion sort for up to 16 elements, with fixed
  comparison networks for up to five, and a quicksort with median-of-three or
  median-of-five pivot above. An array is a list, an address is an index, and \<open>swp x y\<close>
  gives the new contents of two cells that held \<open>x\<close> and \<open>y\<close> (the callers pass functions
  that swap only part of a record). \<open>cmp\<close> is the comparison function.
\<close>

section \<open>Definitions\<close>

type_synonym 'a compare_func = "'a \<Rightarrow> 'a \<Rightarrow> int"
type_synonym 'a swap_func = "'a \<Rightarrow> 'a \<Rightarrow> 'a \<times> 'a"

definition swap_at :: "'a swap_func \<Rightarrow> nat \<Rightarrow> nat \<Rightarrow> 'a list \<Rightarrow> 'a list" where
  "swap_at swp i j xs = (let (x, y) = swp (xs ! i) (xs ! j) in xs[i := x, j := y])"

definition gt_at :: "'a compare_func \<Rightarrow> 'a list \<Rightarrow> nat \<Rightarrow> nat \<Rightarrow> bool" where
  "gt_at cmp xs i j \<longleftrightarrow> cmp (xs ! i) (xs ! j) > 0"

definition zend_sort_2 :: "'a compare_func \<Rightarrow> 'a swap_func \<Rightarrow> nat \<Rightarrow> nat \<Rightarrow> 'a list \<Rightarrow> 'a list" where
  "zend_sort_2 cmp swp a b xs = (if gt_at cmp xs a b then swap_at swp a b xs else xs)"

definition zend_sort_3 :: "'a compare_func \<Rightarrow> 'a swap_func \<Rightarrow> nat \<Rightarrow> nat \<Rightarrow> nat \<Rightarrow> 'a list \<Rightarrow> 'a list" where
  "zend_sort_3 cmp swp a b c xs =
     (if \<not> gt_at cmp xs a b then
        (if \<not> gt_at cmp xs b c then xs
         else let xs1 = swap_at swp b c xs in if gt_at cmp xs1 a b then swap_at swp a b xs1 else xs1)
      else if \<not> gt_at cmp xs c b then swap_at swp a c xs
      else let xs1 = swap_at swp a b xs in if gt_at cmp xs1 b c then swap_at swp b c xs1 else xs1)"

definition zend_sort_4 :: "'a compare_func \<Rightarrow> 'a swap_func \<Rightarrow> nat \<Rightarrow> nat \<Rightarrow> nat \<Rightarrow> nat \<Rightarrow> 'a list \<Rightarrow> 'a list" where
  "zend_sort_4 cmp swp a b c d xs =
     (let xs1 = zend_sort_3 cmp swp a b c xs
      in if gt_at cmp xs1 c d then
           let xs2 = swap_at swp c d xs1
           in if gt_at cmp xs2 b c then
                let xs3 = swap_at swp b c xs2
                in if gt_at cmp xs3 a b then swap_at swp a b xs3 else xs3
              else xs2
         else xs1)"

definition zend_sort_5 ::
  "'a compare_func \<Rightarrow> 'a swap_func \<Rightarrow> nat \<Rightarrow> nat \<Rightarrow> nat \<Rightarrow> nat \<Rightarrow> nat \<Rightarrow> 'a list \<Rightarrow> 'a list" where
  "zend_sort_5 cmp swp a b c d e xs =
     (let xs1 = zend_sort_4 cmp swp a b c d xs
      in if gt_at cmp xs1 d e then
           let xs2 = swap_at swp d e xs1
           in if gt_at cmp xs2 c d then
                let xs3 = swap_at swp c d xs2
                in if gt_at cmp xs3 b c then
                     let xs4 = swap_at swp b c xs3
                     in if gt_at cmp xs4 a b then swap_at swp a b xs4 else xs4
                   else xs3
              else xs2
         else xs1)"

text \<open>\<open>for (k = i; k > j; k -= siz) swp(k, k - siz)\<close>\<close>

fun swap_down :: "'a swap_func \<Rightarrow> nat \<Rightarrow> nat \<Rightarrow> 'a list \<Rightarrow> 'a list" where
  "swap_down swp 0 j xs = xs"
| "swap_down swp (Suc k) j xs = (if j < Suc k then swap_down swp k j (swap_at swp (Suc k) k xs) else xs)"

text \<open>The insertion point of element \<open>i\<close> by a linear scan, for the first six elements.\<close>

fun scan_down :: "'a compare_func \<Rightarrow> 'a list \<Rightarrow> nat \<Rightarrow> nat \<Rightarrow> nat \<Rightarrow> nat" where
  "scan_down cmp xs start i 0 = 0"
| "scan_down cmp xs start i (Suc j) =
     (if Suc j = start then Suc j
      else if \<not> gt_at cmp xs j i then Suc j else scan_down cmp xs start i j)"

text \<open>
  The scan in steps of two. It is entered with \<open>j = i - 1\<close>, at least five cells above
  \<open>start\<close>; below \<open>start + 2\<close> the code would leave the array, which the exits exclude.
\<close>

function scan_down2 :: "'a compare_func \<Rightarrow> 'a list \<Rightarrow> nat \<Rightarrow> nat \<Rightarrow> nat \<Rightarrow> nat" where
  "scan_down2 cmp xs start i j0 =
     (if j0 < start + 2 then j0
      else let j = j0 - 2 in
        if \<not> gt_at cmp xs j i then
          (if \<not> gt_at cmp xs (j + 1) i then j + 2 else j + 1)
        else if j = start then j
        else if j = start + 1 then (if gt_at cmp xs i start then start + 1 else start)
        else scan_down2 cmp xs start i j)"
  by pat_completeness auto
termination
  by (relation "measure (\<lambda>(cmp, xs, start, i, j). j)") auto

declare scan_down2.simps [simp del]

definition insert_point :: "'a compare_func \<Rightarrow> 'a list \<Rightarrow> nat \<Rightarrow> nat \<Rightarrow> nat" where
  "insert_point cmp xs start i =
     (if i < start + 6 then scan_down cmp xs start i (i - 1) else scan_down2 cmp xs start i (i - 1))"

definition insert_one :: "'a compare_func \<Rightarrow> 'a swap_func \<Rightarrow> nat \<Rightarrow> nat \<Rightarrow> 'a list \<Rightarrow> 'a list" where
  "insert_one cmp swp start i xs =
     (if \<not> gt_at cmp xs (i - 1) i then xs else swap_down swp i (insert_point cmp xs start i) xs)"

definition insert_loop :: "'a compare_func \<Rightarrow> 'a swap_func \<Rightarrow> nat \<Rightarrow> nat \<Rightarrow> 'a list \<Rightarrow> 'a list" where
  "insert_loop cmp swp start nmemb xs = fold (insert_one cmp swp start) [start + 1..<start + nmemb] xs"

definition zend_insert_sort :: "'a compare_func \<Rightarrow> 'a swap_func \<Rightarrow> nat \<Rightarrow> nat \<Rightarrow> 'a list \<Rightarrow> 'a list" where
  "zend_insert_sort cmp swp base nmemb xs =
     (if nmemb \<le> 1 then xs
      else if nmemb = 2 then zend_sort_2 cmp swp base (base + 1) xs
      else if nmemb = 3 then zend_sort_3 cmp swp base (base + 1) (base + 2) xs
      else if nmemb = 4 then zend_sort_4 cmp swp base (base + 1) (base + 2) (base + 3) xs
      else if nmemb = 5 then zend_sort_5 cmp swp base (base + 1) (base + 2) (base + 3) (base + 4) xs
      else insert_loop cmp swp base nmemb xs)"

text \<open>
  The partition loop, as its two alternating scans: \<open>up\<close> looks for an element not below
  the pivot, the other for one not above it. \<open>i < j\<close> holds throughout; the guard only
  makes the function total.
\<close>

function partition_loop :: "'a compare_func \<Rightarrow> 'a swap_func \<Rightarrow> nat \<Rightarrow> bool \<Rightarrow> nat \<Rightarrow> nat \<Rightarrow> 'a list \<Rightarrow> 'a list \<times> nat" where
  "partition_loop cmp swp pivot up i j xs =
     (if \<not> i < j then (xs, i)
      else if up then
        (if gt_at cmp xs pivot i then
           (if i + 1 = j then (xs, i + 1) else partition_loop cmp swp pivot True (i + 1) j xs)
         else if j - 1 = i then (xs, i) else partition_loop cmp swp pivot False i (j - 1) xs)
      else
        (if gt_at cmp xs j pivot then
           (if j - 1 = i then (xs, i) else partition_loop cmp swp pivot False i (j - 1) xs)
         else
           let xs1 = swap_at swp i j xs
           in if i + 1 = j then (xs1, i + 1) else partition_loop cmp swp pivot True (i + 1) j xs1))"
  by pat_completeness auto
termination
  by (relation "measure (\<lambda>(cmp, swp, pivot, up, i, j, xs). j - i)") auto

declare partition_loop.simps [simp del]

text \<open>One step of the loop: it ends, or goes on with a smaller distance.\<close>

lemma partition_loop_cases:
  assumes "i < j"
  obtains (hit) "up" "gt_at cmp xs pivot i" "i + 1 = j" "partition_loop cmp swp pivot up i j xs = (xs, i + 1)"
  | (up_next) "up" "gt_at cmp xs pivot i" "i + 1 < j"
      "partition_loop cmp swp pivot up i j xs = partition_loop cmp swp pivot True (i + 1) j xs"
  | (meet) "up" "\<not> gt_at cmp xs pivot i" "j - 1 = i" "partition_loop cmp swp pivot up i j xs = (xs, i)"
  | (turn) "up" "\<not> gt_at cmp xs pivot i" "i < j - 1"
      "partition_loop cmp swp pivot up i j xs = partition_loop cmp swp pivot False i (j - 1) xs"
  | (hit2) "\<not> up" "gt_at cmp xs j pivot" "j - 1 = i" "partition_loop cmp swp pivot up i j xs = (xs, i)"
  | (down_next) "\<not> up" "gt_at cmp xs j pivot" "i < j - 1"
      "partition_loop cmp swp pivot up i j xs = partition_loop cmp swp pivot False i (j - 1) xs"
  | (swap_end) "\<not> up" "\<not> gt_at cmp xs j pivot" "i + 1 = j"
      "partition_loop cmp swp pivot up i j xs = (swap_at swp i j xs, i + 1)"
  | (swap_next) "\<not> up" "\<not> gt_at cmp xs j pivot" "i + 1 < j"
      "partition_loop cmp swp pivot up i j xs = partition_loop cmp swp pivot True (i + 1) j (swap_at swp i j xs)"
proof -
  note e = partition_loop.simps[of cmp swp pivot up i j xs]
  have j: "j - 1 = i \<or> i < j - 1" "i + 1 = j \<or> i + 1 < j" using assms by auto
  show thesis
  proof (cases up)
    case True
    show thesis
    proof (cases "gt_at cmp xs pivot i")
      case g: True
      show thesis using that(1,2)[OF True g] j(2) e assms True g by auto
    next
      case g: False
      show thesis using that(3,4)[OF True g] j(1) e assms True g by auto
    qed
  next
    case False
    show thesis
    proof (cases "gt_at cmp xs j pivot")
      case g: True
      show thesis using that(5,6)[OF False g] j(1) e assms False g by auto
    next
      case g: False
      show thesis using that(7,8)[OF False g] j(2) e assms False g by (auto simp: Let_def)
    qed
  qed
qed

lemma partition_loop_bounds:
  "i < j \<Longrightarrow> partition_loop cmp swp pivot up i j xs = (ys, k) \<Longrightarrow> i \<le> k \<and> k \<le> j"
proof (induction "j - i" arbitrary: up i j xs rule: less_induct)
  case less
  from less.prems(1) show ?case
  proof (cases rule: partition_loop_cases[where cmp=cmp and swp=swp and pivot=pivot and up=up and xs=xs])
    case up_next then show ?thesis using less.hyps[of j "i + 1" True xs] less.prems by fastforce
  next
    case turn then show ?thesis using less.hyps[of "j - 1" i False xs] less.prems by fastforce
  next
    case down_next then show ?thesis using less.hyps[of "j - 1" i False xs] less.prems by fastforce
  next
    case swap_next then show ?thesis using less.hyps[of j "i + 1" True "swap_at swp i j xs"] less.prems by fastforce
  qed (use less.prems in auto)
qed

text \<open>Choosing the pivot and partitioning: the array and the final \<open>i\<close>.\<close>

definition choose_pivot :: "'a compare_func \<Rightarrow> 'a swap_func \<Rightarrow> nat \<Rightarrow> nat \<Rightarrow> 'a list \<Rightarrow> 'a list" where
  "choose_pivot cmp swp start nmemb xs =
     (let offset = nmemb div 2; pivot = start + offset; end = start + nmemb;
          xs1 = (if nmemb div 1024 \<noteq> 0 then
                   let delta = offset div 2
                   in zend_sort_5 cmp swp start (start + delta) pivot (pivot + delta) (end - 1) xs
                 else zend_sort_3 cmp swp start pivot (end - 1) xs)
      in swap_at swp (start + 1) pivot xs1)"

definition zend_sort_partition :: "'a compare_func \<Rightarrow> 'a swap_func \<Rightarrow> nat \<Rightarrow> nat \<Rightarrow> 'a list \<Rightarrow> 'a list \<times> nat" where
  "zend_sort_partition cmp swp start nmemb xs =
     (let (xs1, i) = partition_loop cmp swp (start + 1) True (start + 2) (start + nmemb - 1)
                       (choose_pivot cmp swp start nmemb xs)
      in (swap_at swp (start + 1) (i - 1) xs1, i))"

lemma partition_bounds:
  assumes "16 < nmemb" "zend_sort_partition cmp swp start nmemb xs = (ys, i)"
  shows "start + 2 \<le> i \<and> i < start + nmemb"
proof -
  obtain xs1 where "partition_loop cmp swp (start + 1) True (start + 2) (start + nmemb - 1)
      (choose_pivot cmp swp start nmemb xs) = (xs1, i)"
    using assms(2) by (auto simp: zend_sort_partition_def split: prod.splits)
  then have "start + 2 \<le> i \<and> i \<le> start + nmemb - 1" using assms(1) by (intro partition_loop_bounds) auto
  then show ?thesis using assms(1) by auto
qed

text \<open>The smaller part is sorted by the recursive call, the larger by the next round of the loop.\<close>

function zend_sort :: "'a compare_func \<Rightarrow> 'a swap_func \<Rightarrow> nat \<Rightarrow> nat \<Rightarrow> 'a list \<Rightarrow> 'a list" where
  "zend_sort cmp swp start nmemb xs =
     (if nmemb \<le> 16 then zend_insert_sort cmp swp start nmemb xs
      else case zend_sort_partition cmp swp start nmemb xs of (xs1, i) \<Rightarrow>
        if i - 1 - start < start + nmemb - i then
          zend_sort cmp swp i (start + nmemb - i) (zend_sort cmp swp start (i - start - 1) xs1)
        else
          zend_sort cmp swp start (i - start - 1) (zend_sort cmp swp i (start + nmemb - i) xs1))"
  by pat_completeness auto
termination
proof (relation "measure (\<lambda>(cmp, swp, start, nmemb, xs). nmemb)", goal_cases)
  case (2 cmp swp start nmemb xs x i)
  then show ?case using partition_bounds[of nmemb cmp swp start xs x i] by auto
next
  case (3 cmp swp start nmemb xs x i)
  then show ?case using partition_bounds[of nmemb cmp swp start xs x i] by auto
next
  case (4 cmp swp start nmemb xs x i)
  then show ?case using partition_bounds[of nmemb cmp swp start xs x i] by auto
next
  case (5 cmp swp start nmemb xs x i)
  then show ?case using partition_bounds[of nmemb cmp swp start xs x i] by auto
qed auto

declare zend_sort.simps [simp del]

section \<open>Rearrangements of a segment\<close>

definition xswap :: "'a swap_func" where "xswap x y = (y, x)"

definition rearr :: "nat \<Rightarrow> nat \<Rightarrow> 'a list \<Rightarrow> 'a list \<Rightarrow> bool" where
  "rearr lo hi xs ys \<longleftrightarrow> length ys = length xs \<and> mset ys = mset xs
     \<and> (\<forall>k. k < lo \<or> hi \<le> k \<longrightarrow> ys ! k = xs ! k)"

lemma rearr_refl [simp]: "rearr lo hi xs xs"
  by (simp add: rearr_def)

lemma rearr_trans: "rearr lo hi xs ys \<Longrightarrow> rearr lo hi ys zs \<Longrightarrow> rearr lo hi xs zs"
  by (simp add: rearr_def)

lemma rearr_weaken: "rearr lo hi xs ys \<Longrightarrow> lo' \<le> lo \<Longrightarrow> hi \<le> hi' \<Longrightarrow> rearr lo' hi' xs ys"
  by (auto simp: rearr_def)

lemma rearr_length: "rearr lo hi xs ys \<Longrightarrow> length ys = length xs"
  by (simp add: rearr_def)

lemma swap_at_xswap: "swap_at xswap i j xs = xs[i := xs ! j, j := xs ! i]"
  by (simp add: swap_at_def xswap_def)

lemma nth_swap_at:
  assumes "i < length xs" "j < length xs"
  shows "swap_at xswap i j xs ! k = (if k = j then xs ! i else if k = i then xs ! j else xs ! k)"
  using assms by (auto simp: swap_at_xswap nth_list_update)

lemma length_swap_at [simp]: "length (swap_at xswap i j xs) = length xs"
  by (simp add: swap_at_xswap)

lemma rearr_swap_at:
  assumes "lo \<le> i" "i < hi" "lo \<le> j" "j < hi" "hi \<le> length xs"
  shows "rearr lo hi xs (swap_at xswap i j xs)"
  unfolding rearr_def
proof (intro conjI allI impI)
  show "mset (swap_at xswap i j xs) = mset xs" using assms by (simp add: swap_at_xswap mset_swap)
  fix k assume "k < lo \<or> hi \<le> k"
  then show "swap_at xswap i j xs ! k = xs ! k" using assms by (auto simp: nth_swap_at)
qed simp

text \<open>What holds of every cell of the segment before holds after.\<close>

lemma rearr_segment:
  assumes "rearr lo hi xs ys" "hi \<le> length xs" "\<And>k. lo \<le> k \<Longrightarrow> k < hi \<Longrightarrow> P (xs ! k)" "lo \<le> m" "m < hi"
  shows "P (ys ! m)"
proof -
  have len: "length ys = length xs" and out: "\<And>k. k < lo \<or> hi \<le> k \<Longrightarrow> ys ! k = xs ! k"
    using assms(1) by (auto simp: rearr_def)
  let ?seg = "\<lambda>zs :: 'a list. take (hi - lo) (drop lo zs)"
  have split: "zs = take lo zs @ ?seg zs @ drop hi zs" if "length zs = length xs" for zs :: "'a list"
    using assms(4,5) by (metis append_take_drop_id drop_drop le_add_diff_inverse2 less_imp_le order.trans)
  have "take lo ys = take lo xs" using len assms by (intro nth_equalityI) (auto simp: out)
  moreover have "drop hi ys = drop hi xs" using len assms by (intro nth_equalityI) (auto simp: out)
  moreover have "mset (take lo ys @ ?seg ys @ drop hi ys) = mset (take lo xs @ ?seg xs @ drop hi xs)"
    using assms(1) split[of ys] split[of xs] len by (simp add: rearr_def)
  ultimately have "mset (?seg ys) = mset (?seg xs)" by simp
  then have "set (?seg ys) = set (?seg xs)" by (metis set_mset_mset)
  moreover have "ys ! m = ?seg ys ! (m - lo)" "m - lo < length (?seg ys)" using assms len by auto
  ultimately have "ys ! m \<in> set (?seg xs)" by (metis nth_mem)
  then obtain k where "k < hi - lo" "ys ! m = xs ! (lo + k)"
    using assms(2) by (auto simp: in_set_conv_nth)
  then show ?thesis using assms(3)[of "lo + k"] by simp
qed

section \<open>Correctness for total preorders\<close>

locale compare_order =
  fixes cmp :: "'a compare_func"
  assumes asym: "cmp x y > 0 \<Longrightarrow> \<not> cmp y x > 0"
    and le_trans: "\<not> cmp x y > 0 \<Longrightarrow> \<not> cmp y z > 0 \<Longrightarrow> \<not> cmp x z > 0"
begin

definition le :: "'a \<Rightarrow> 'a \<Rightarrow> bool" where "le x y \<longleftrightarrow> \<not> cmp x y > 0"

lemma le_refl [simp]: "le x x"
  using asym[of x x] by (auto simp: le_def)

lemma le_total: "\<not> le x y \<Longrightarrow> le y x"
  using asym by (auto simp: le_def)

lemma le_tr: "le x y \<Longrightarrow> le y z \<Longrightarrow> le x z"
  using le_trans by (auto simp: le_def)

lemma gt_le: "gt_at cmp xs i j \<longleftrightarrow> \<not> le (xs ! i) (xs ! j)"
  by (simp add: gt_at_def le_def)

definition seg_sorted :: "nat \<Rightarrow> nat \<Rightarrow> 'a list \<Rightarrow> bool" where
  "seg_sorted lo hi xs \<longleftrightarrow> (\<forall>i j. lo \<le> i \<longrightarrow> i < j \<longrightarrow> j < hi \<longrightarrow> le (xs ! i) (xs ! j))"

text \<open>
  The comparison networks for four and five elements let the last element sink into the
  sorted rest; positions are listed from the last one down.
\<close>

fun sink :: "nat list \<Rightarrow> 'a list \<Rightarrow> 'a list" where
  "sink (q # p # ps) xs = (if gt_at cmp xs p q then sink (p # ps) (swap_at xswap p q xs) else xs)"
| "sink _ xs = xs"

fun chain_le :: "nat list \<Rightarrow> 'a list \<Rightarrow> bool" where
  "chain_le (q # p # ps) xs \<longleftrightarrow> le (xs ! p) (xs ! q) \<and> chain_le (p # ps) xs"
| "chain_le _ xs \<longleftrightarrow> True"

lemma length_sink [simp]: "length (sink ps xs) = length xs"
  by (induction ps xs rule: sink.induct) auto

lemma chain_le_cong: "(\<And>p. p \<in> set ps \<Longrightarrow> ys ! p = xs ! p) \<Longrightarrow> chain_le ps ys = chain_le ps xs"
  by (induction ps xs rule: chain_le.induct) auto

lemma sink_frame: "set ps \<subseteq> {..<length xs} \<Longrightarrow> k \<notin> set ps \<Longrightarrow> sink ps xs ! k = xs ! k"
  by (induction ps xs rule: sink.induct) (auto simp: nth_swap_at)

lemma sink_first:
  "set (q # p # ps) \<subseteq> {..<length xs} \<Longrightarrow> distinct (q # p # ps) \<Longrightarrow>
     sink (q # p # ps) xs ! q \<in> {xs ! q, xs ! p}"
  by (auto simp: sink_frame nth_swap_at)

lemma sink_chain:
  "set ps \<subseteq> {..<length xs} \<Longrightarrow> distinct ps \<Longrightarrow> chain_le (tl ps) xs \<Longrightarrow> chain_le ps (sink ps xs)"
proof (induction ps xs rule: sink.induct)
  case (1 q p ps xs)
  show ?case
  proof (cases "gt_at cmp xs p q")
    case False
    then show ?thesis using 1 by (simp add: gt_le)
  next
    case True
    let ?xs = "swap_at xswap p q xs"
    have at: "?xs ! q = xs ! p" "?xs ! p = xs ! q" using 1 by (auto simp: nth_swap_at)
    have rest: "?xs ! r = xs ! r" if "r \<in> set ps" for r using 1 that by (auto simp: nth_swap_at)
    have "chain_le ps xs" using 1(4) by (cases ps) auto
    then have "chain_le ps ?xs" using chain_le_cong[of ps ?xs xs] rest by simp
    then have ih: "chain_le (p # ps) (sink (p # ps) ?xs)" using 1 True by auto
    have q: "sink (p # ps) ?xs ! q = xs ! p" using 1 at by (subst sink_frame) auto
    have "le (sink (p # ps) ?xs ! p) (xs ! p)"
    proof (cases ps)
      case Nil
      then show ?thesis using at True le_total by (simp add: gt_le)
    next
      case (Cons r rs)
      have "sink (p # r # rs) ?xs ! p \<in> {?xs ! p, ?xs ! r}" using 1 Cons by (intro sink_first) auto
      moreover have "le (xs ! q) (xs ! p)" using True le_total by (simp add: gt_le)
      moreover have "le (xs ! r) (xs ! p)" using 1(4) Cons by simp
      moreover have "?xs ! r = xs ! r" using rest[of r] Cons by simp
      ultimately show ?thesis using at Cons by auto
    qed
    then show ?thesis using True ih q by simp
  qed
qed auto

lemma sink_rearr:
  "set ps \<subseteq> {lo..<hi} \<Longrightarrow> hi \<le> length xs \<Longrightarrow> rearr lo hi xs (sink ps xs)"
proof (induction ps xs rule: sink.induct)
  case (1 q p ps xs)
  then have "rearr lo hi xs (swap_at xswap p q xs)" by (intro rearr_swap_at) auto
  then show ?case using 1 by (auto intro: rearr_trans)
qed auto

lemma sort_4_sink: "zend_sort_4 cmp xswap a b c d xs = sink [d, c, b, a] (zend_sort_3 cmp xswap a b c xs)"
  by (simp add: zend_sort_4_def Let_def)

lemma sort_5_sink: "zend_sort_5 cmp xswap a b c d e xs = sink [e, d, c, b, a] (zend_sort_4 cmp xswap a b c d xs)"
  by (simp add: zend_sort_5_def Let_def)

lemma sort_3:
  assumes "{a, b, c} \<subseteq> {..<length xs}" "distinct [a, b, c]"
  shows "chain_le [c, b, a] (zend_sort_3 cmp xswap a b c xs)"
proof -
  let ?x = "xs ! a" and ?y = "xs ! b" and ?z = "xs ! c"
  have n: "a < length xs" "b < length xs" "c < length xs" "a \<noteq> b" "a \<noteq> c" "b \<noteq> c" "b \<noteq> a" "c \<noteq> a" "c \<noteq> b"
    using assms by auto
  have tot: "le u v \<or> le v u" for u v using le_total by blast
  show ?thesis
  proof (cases "le ?x ?y")
    case True
    then show ?thesis using n tot[of ?y ?z] tot[of ?x ?z]
      by (cases "le ?y ?z"; cases "le ?x ?z") (simp_all add: zend_sort_3_def Let_def gt_le nth_swap_at)
  next
    case False
    then have "le ?y ?x" using tot by blast
    then show ?thesis using False n tot[of ?y ?z] tot[of ?x ?z]
      by (cases "le ?z ?y"; cases "le ?x ?z") (simp_all add: zend_sort_3_def Let_def gt_le nth_swap_at)
  qed
qed

lemma rearr_sort_3:
  assumes "{a, b, c} \<subseteq> {lo..<hi}" "hi \<le> length xs"
  shows "rearr lo hi xs (zend_sort_3 cmp xswap a b c xs)"
proof -
  have r: "rearr lo hi zs (swap_at xswap i j zs)" if "i \<in> {a, b, c}" "j \<in> {a, b, c}" "length zs = length xs" for i j zs
    using assms that by (intro rearr_swap_at) auto
  have r2: "rearr lo hi xs (swap_at xswap k l (swap_at xswap i j xs))"
    if "i \<in> {a, b, c}" "j \<in> {a, b, c}" "k \<in> {a, b, c}" "l \<in> {a, b, c}" for i j k l
    by (rule rearr_trans[OF r[OF that(1,2) refl] r[OF that(3,4)]]) simp
  show ?thesis unfolding zend_sort_3_def Let_def
    by (simp split: if_split) (intro conjI impI r r2; simp)
qed

lemma rearr_sort_5:
  assumes "{a, b, c, d, e} \<subseteq> {lo..<hi}" "hi \<le> length xs"
  shows "rearr lo hi xs (zend_sort_5 cmp xswap a b c d e xs)" "rearr lo hi xs (zend_sort_4 cmp xswap a b c d xs)"
proof -
  have 3: "rearr lo hi xs (zend_sort_3 cmp xswap a b c xs)" using assms by (intro rearr_sort_3) auto
  then show 4: "rearr lo hi xs (zend_sort_4 cmp xswap a b c d xs)"
    unfolding sort_4_sink using assms rearr_length[OF 3] by (intro rearr_trans[OF 3 sink_rearr]) auto
  show "rearr lo hi xs (zend_sort_5 cmp xswap a b c d e xs)"
    unfolding sort_5_sink using assms rearr_length[OF 4] by (intro rearr_trans[OF 4 sink_rearr]) auto
qed

lemma length_sort_3 [simp]: "length (zend_sort_3 cmp xswap a b c xs) = length xs"
  by (simp add: zend_sort_3_def Let_def)

lemma sort_4:
  assumes "{a, b, c, d} \<subseteq> {..<length xs}" "distinct [a, b, c, d]"
  shows "chain_le [d, c, b, a] (zend_sort_4 cmp xswap a b c d xs)"
  unfolding sort_4_sink using assms sort_3[of a b c xs] by (intro sink_chain) auto

lemma sort_5:
  assumes "{a, b, c, d, e} \<subseteq> {..<length xs}" "distinct [a, b, c, d, e]"
  shows "chain_le [e, d, c, b, a] (zend_sort_5 cmp xswap a b c d e xs)"
  unfolding sort_5_sink using assms sort_4[of a b c d xs]
  by (intro sink_chain) (auto simp: sort_4_sink)

text \<open>Insertion.\<close>

lemma swap_down_nth:
  assumes "j \<le> i" "i < length xs"
  shows "length (swap_down xswap i j xs) = length xs"
    "swap_down xswap i j xs ! k = (if k = j then xs ! i else if j < k \<and> k \<le> i then xs ! (k - 1) else xs ! k)"
    "lo \<le> j \<Longrightarrow> rearr lo (Suc i) xs (swap_down xswap i j xs)"
  using assms
proof (induction i arbitrary: xs k)
  case (Suc i)
  { case 1 then show ?case using Suc.IH(1)[of "swap_at xswap (Suc i) i xs"] by (cases "j = Suc i") auto
  next
    case 2
    then show ?case
      using Suc.IH(2)[of "swap_at xswap (Suc i) i xs" k] by (cases "j = Suc i") (auto simp: nth_swap_at)
  next
    case 3
    then have "rearr lo (Suc (Suc i)) xs (swap_at xswap (Suc i) i xs)" if "j \<noteq> Suc i"
      using that by (intro rearr_swap_at) auto
    moreover have "rearr lo (Suc i) (swap_at xswap (Suc i) i xs) (swap_down xswap i j (swap_at xswap (Suc i) i xs))"
      if "j \<noteq> Suc i" using Suc.IH(3)[of "swap_at xswap (Suc i) i xs"] 3 that by auto
    ultimately show ?case using rearr_trans rearr_weaken[of lo "Suc i" _ _ lo "Suc (Suc i)"] by fastforce
  }
qed (simp_all)

definition fits :: "'a list \<Rightarrow> nat \<Rightarrow> nat \<Rightarrow> nat \<Rightarrow> bool" where
  "fits xs start i p \<longleftrightarrow> start \<le> p \<and> p \<le> i \<and> (\<forall>k. start \<le> k \<and> k < p \<longrightarrow> le (xs ! k) (xs ! i))
     \<and> (\<forall>k. p \<le> k \<and> k < i \<longrightarrow> le (xs ! i) (xs ! k))"

lemma sorted_below:
  "seg_sorted start i xs \<Longrightarrow> j < i \<Longrightarrow> le (xs ! j) x \<Longrightarrow> start \<le> k \<Longrightarrow> k \<le> j \<Longrightarrow> le (xs ! k) x"
  using le_tr unfolding seg_sorted_def by (metis le_neq_implies_less)

lemma sorted_above:
  "seg_sorted start i xs \<Longrightarrow> start \<le> j \<Longrightarrow> le x (xs ! j) \<Longrightarrow> j \<le> k \<Longrightarrow> k < i \<Longrightarrow> le x (xs ! k)"
  using le_tr unfolding seg_sorted_def by (metis le_neq_implies_less)

lemma scan_down_fits:
  assumes "seg_sorted start i xs" "start \<le> j" "j < i" "gt_at cmp xs j i"
  shows "fits xs start i (scan_down cmp xs start i j)"
  using assms
proof (induction j)
  case 0
  then have "le (xs ! i) (xs ! 0)" using le_total[of "xs ! 0" "xs ! i"] by (simp add: gt_le)
  then show ?case using sorted_above[of start i xs 0 "xs ! i"] 0 by (auto simp: fits_def)
next
  case (Suc j)
  have up: "le (xs ! i) (xs ! k)" if "Suc j \<le> k" "k < i" for k
    using sorted_above[OF Suc.prems(1,2) _ that] Suc.prems(4) le_total by (simp add: gt_le)
  show ?case
  proof (cases "Suc j = start \<or> \<not> gt_at cmp xs j i")
    case True
    have "le (xs ! k) (xs ! i)" if "start \<le> k" "k < Suc j" for k
      using True sorted_below[OF Suc.prems(1), of j] that Suc.prems(3) by (auto simp: gt_le)
    then show ?thesis using True up Suc.prems by (auto simp: fits_def)
  next
    case False
    then show ?thesis using Suc by auto
  qed
qed

lemma scan_down2_fits:
  assumes "seg_sorted start i xs" "start + 2 \<le> j" "j < i" "gt_at cmp xs j i"
  shows "fits xs start i (scan_down2 cmp xs start i j)"
  using assms
proof (induction j rule: less_induct)
  case (less j0)
  define j where "j = j0 - 2"
  have j: "start \<le> j" "j0 = j + 2" "j + 1 < i" using less.prems by (auto simp: j_def)
  note e = scan_down2.simps[of cmp xs start i j0, unfolded Let_def, folded j_def]
  have below: "le (xs ! k) (xs ! i)" if "\<not> gt_at cmp xs m i" "m < i" "start \<le> k" "k \<le> m" for k m
    using sorted_below[OF less.prems(1) that(2)] that by (auto simp: gt_le)
  have above: "le (xs ! i) (xs ! k)" if "le (xs ! i) (xs ! m)" "start \<le> m" "m \<le> k" "k < i" for k m
    using sorted_above[OF less.prems(1)] that by blast
  have gt: "gt_at cmp xs m i \<Longrightarrow> le (xs ! i) (xs ! m)" for m using le_total by (simp add: gt_le)
  consider (a) "\<not> gt_at cmp xs j i" "\<not> gt_at cmp xs (j + 1) i" | (b) "\<not> gt_at cmp xs j i" "gt_at cmp xs (j + 1) i"
    | (c) "gt_at cmp xs j i" "j = start" | (d) "gt_at cmp xs j i" "j = start + 1"
    | (f) "gt_at cmp xs j i" "start + 2 \<le> j" using j(1) by linarith
  then show ?case
  proof cases
    case a
    then show ?thesis using e j less.prems below[of "j + 1"] above[OF gt, of j0] by (auto simp: fits_def)
  next
    case b
    then show ?thesis using e j less.prems below[of j] above[OF gt, of "j + 1"] by (auto simp: fits_def)
  next
    case c
    then show ?thesis using e j less.prems above[OF gt, of j] by (auto simp: fits_def)
  next
    case d
    have s: "start < i" using j by simp
    show ?thesis
    proof (cases "gt_at cmp xs i start")
      case True
      then have "le (xs ! start) (xs ! i)" using le_total by (simp add: gt_le)
      then show ?thesis using True d e j less.prems above[OF gt, of j] by (auto simp: fits_def le_less_Suc_eq)
    next
      case False
      then have "le (xs ! i) (xs ! start)" by (simp add: gt_le)
      then show ?thesis using False d e j less.prems above[of start] s by (auto simp: fits_def)
    qed
  next
    case f
    then show ?thesis using e j less by simp
  qed
qed

lemma insert_one_ok:
  assumes "seg_sorted start i xs" "start < i" "i < length xs"
  shows "seg_sorted start (Suc i) (insert_one cmp xswap start i xs)" "rearr start (Suc i) xs (insert_one cmp xswap start i xs)"
proof -
  have "seg_sorted start (Suc i) (insert_one cmp xswap start i xs) \<and> rearr start (Suc i) xs (insert_one cmp xswap start i xs)"
  proof (cases "gt_at cmp xs (i - 1) i")
    case False
    have "le (xs ! k) (xs ! i)" if "start \<le> k" "k < i" for k
      using sorted_below[OF assms(1), of "i - 1" "xs ! i" k] that False by (simp add: gt_le)
    then show ?thesis using False assms(1) by (auto simp: insert_one_def seg_sorted_def less_Suc_eq)
  next
    case True
    define p where "p = insert_point cmp xs start i"
    have p: "fits xs start i p" using True assms scan_down_fits[of start i xs "i - 1"] scan_down2_fits[of start i xs "i - 1"]
      by (auto simp: p_def insert_point_def)
    then have b: "start \<le> p" "p \<le> i" by (simp_all add: fits_def)
    let ?ys = "swap_down xswap i p xs"
    note n = swap_down_nth(2)[OF b(2) assms(3)]
    have "seg_sorted start (Suc i) ?ys" unfolding seg_sorted_def
    proof (intro allI impI)
      fix a c assume ac: "start \<le> a" "a < c" "c < Suc i"
      have srt: "le (xs ! u) (xs ! v)" if "start \<le> u" "u < v" "v < i" for u v
        using assms(1) that by (simp add: seg_sorted_def)
      consider "c < p" | "c = p" | "a < p" "p < c" | "a = p" "p < c" | "p < a" using ac by linarith
      then show "le (?ys ! a) (?ys ! c)"
      proof cases
        case 1 then show ?thesis using n ac srt[of a c] b by simp
      next
        case 2 then show ?thesis using n ac p by (simp add: fits_def)
      next
        case 3
        have "a < c - 1 \<or> a = c - 1" using 3 by linarith
        then show ?thesis using n ac 3 srt[of a "c - 1"] by auto
      next
        case 4
        have "p \<le> c - 1 \<and> c - 1 < i" using ac(3) 4 by linarith
        then have "le (xs ! i) (xs ! (c - 1))" using p by (simp add: fits_def)
        then show ?thesis using n[of a] n[of c] ac 4 by simp
      next
        case 5 then show ?thesis using n ac srt[of "a - 1" "c - 1"] b by simp
      qed
    qed
    then show ?thesis using True swap_down_nth(3)[OF b(2) assms(3) b(1)] by (simp add: insert_one_def p_def)
  qed
  then show "seg_sorted start (Suc i) (insert_one cmp xswap start i xs)" "rearr start (Suc i) xs (insert_one cmp xswap start i xs)"
    by auto
qed

lemma insert_loop_ok:
  "start + Suc n \<le> length xs \<Longrightarrow> seg_sorted start (start + Suc n) (insert_loop cmp xswap start (Suc n) xs)
     \<and> rearr start (start + Suc n) xs (insert_loop cmp xswap start (Suc n) xs)"
proof (induction n)
  case 0
  then show ?case by (simp add: insert_loop_def seg_sorted_def)
next
  case (Suc n)
  let ?ys = "insert_loop cmp xswap start (Suc n) xs"
  have ih: "seg_sorted start (start + Suc n) ?ys" "rearr start (start + Suc n) xs ?ys" using Suc by auto
  have "insert_loop cmp xswap start (Suc (Suc n)) xs = insert_one cmp xswap start (start + Suc n) ?ys"
    by (simp add: insert_loop_def)
  then show ?case using insert_one_ok[OF ih(1)] Suc.prems rearr_length[OF ih(2)]
      rearr_trans[OF rearr_weaken[OF ih(2), of start "Suc (start + Suc n)"]] by simp
qed

lemma chain_seg_sorted: "chain_le (rev [start..<start + n]) zs \<Longrightarrow> seg_sorted start (start + n) zs"
proof (induction n)
  case 0
  then show ?case by (simp add: seg_sorted_def)
next
  case (Suc n)
  have c: "chain_le (rev [start..<start + n]) zs" "n \<noteq> 0 \<Longrightarrow> le (zs ! (start + n - 1)) (zs ! (start + n))"
    using Suc.prems by (cases n; simp)+
  have s: "seg_sorted start (start + n) zs" using Suc.IH c(1) by simp
  have "le (zs ! k) (zs ! (start + n))" if "start \<le> k" "k < start + n" for k
    using sorted_below[OF s, of "start + n - 1" _ k] c(2) that by fastforce
  then show ?case using s by (auto simp: seg_sorted_def less_Suc_eq)
qed

lemma insert_sort_ok:
  assumes "start + n \<le> length xs"
  defines "ys \<equiv> zend_insert_sort cmp xswap start n xs"
  shows "seg_sorted start (start + n) ys" "rearr start (start + n) xs ys"
proof -
  consider "n \<le> 1" | "n = 2" | "n = 3" | "n = 4" | "n = 5" | m where "5 < n" "n = Suc m"
    by (cases n) force+
  then have "seg_sorted start (start + n) ys \<and> rearr start (start + n) xs ys"
  proof cases
    case 1
    then show ?thesis by (simp add: ys_def zend_insert_sort_def seg_sorted_def)
  next
    case 2
    have "rearr start (start + 2) xs (swap_at xswap start (start + 1) xs)" using assms(1) 2 by (intro rearr_swap_at) auto
    moreover have "ys = sink [start + 1, start] xs" using 2 by (simp add: ys_def zend_insert_sort_def zend_sort_2_def)
    moreover have "chain_le [start + 1, start] (sink [start + 1, start] xs)" using assms(1) 2 by (intro sink_chain) auto
    ultimately show ?thesis using 2 chain_seg_sorted[of start 2 ys] sink_rearr[of "[start + 1, start]" start "start + 2" xs] assms(1)
      by (simp add: upt_rec)
  next
    case 3
    have "chain_le (rev [start..<start + 3]) ys"
      using assms(1) 3 sort_3[of start "start + 1" "start + 2" xs] by (simp add: ys_def zend_insert_sort_def upt_rec numeral_eq_Suc)
    then show ?thesis using 3 chain_seg_sorted[of start 3 ys] rearr_sort_3[of start "start + 1" "start + 2" start "start + 3" xs] assms(1)
      by (simp add: ys_def zend_insert_sort_def)
  next
    case 4
    have "chain_le (rev [start..<start + 4]) ys"
      using assms(1) 4 sort_4[of start "start + 1" "start + 2" "start + 3" xs] by (simp add: ys_def zend_insert_sort_def upt_rec numeral_eq_Suc)
    then show ?thesis using 4 chain_seg_sorted[of start 4 ys] assms(1)
        rearr_sort_5(2)[of start "start + 1" "start + 2" "start + 3" start start "start + 4" xs]
      by (simp add: ys_def zend_insert_sort_def)
  next
    case 5
    have "chain_le (rev [start..<start + 5]) ys"
      using assms(1) 5 sort_5[of start "start + 1" "start + 2" "start + 3" "start + 4" xs]
      by (simp add: ys_def zend_insert_sort_def upt_rec numeral_eq_Suc)
    then show ?thesis using 5 chain_seg_sorted[of start 5 ys] assms(1)
        rearr_sort_5(1)[of start "start + 1" "start + 2" "start + 3" "start + 4" start "start + 5" xs]
      by (simp add: ys_def zend_insert_sort_def)
  next
    case 6
    then show ?thesis using insert_loop_ok[of start m xs] assms(1) by (simp add: ys_def zend_insert_sort_def)
  qed
  then show "seg_sorted start (start + n) ys" "rearr start (start + n) xs ys" by auto
qed

text \<open>Partition.\<close>

lemma partition_loop_ok:
  assumes "partition_loop cmp xswap pivot up i j xs = (ys, k)" "pivot < lo" "lo \<le> i" "i < j" "j < hi" "hi \<le> length xs"
    and "\<And>m. lo \<le> m \<Longrightarrow> m < i \<Longrightarrow> le (xs ! m) (xs ! pivot)"
    and "\<And>m. j < m \<Longrightarrow> m < hi \<Longrightarrow> le (xs ! pivot) (xs ! m)"
    and "if up then le (xs ! pivot) (xs ! j) else le (xs ! pivot) (xs ! i)"
  shows "rearr lo hi xs ys \<and> (\<forall>m. lo \<le> m \<and> m < k \<longrightarrow> le (ys ! m) (xs ! pivot))
     \<and> (\<forall>m. k \<le> m \<and> m < hi \<longrightarrow> le (xs ! pivot) (ys ! m))"
  using assms
proof (induction "j - i" arbitrary: up i j xs rule: less_induct)
  case less
  note pr = less.prems
  have gtl: "gt_at cmp xs a b \<Longrightarrow> le (xs ! b) (xs ! a)" "\<not> gt_at cmp xs a b \<Longrightarrow> le (xs ! a) (xs ! b)" for a b
    using le_total by (simp_all add: gt_le)
  from pr(4) show ?case
  proof (cases rule: partition_loop_cases[where cmp=cmp and swp=xswap and pivot=pivot and up=up and xs=xs])
    case hit
    then have r: "ys = xs" "k = i + 1" using pr(1) by auto
    show ?thesis unfolding r using pr(7)[of m for m] pr(8)[of m for m] pr(9) hit(1,3) gtl(1)[OF hit(2)]
      by (auto simp: less_Suc_eq le_less)
  next
    case up_next
    show ?thesis
    proof (rule less.hyps[of j "i + 1" True xs])
      show "partition_loop cmp xswap pivot True (i + 1) j xs = (ys, k)" using up_next pr(1) by simp
      show "le (xs ! m) (xs ! pivot)" if "lo \<le> m" "m < i + 1" for m
        using pr(7)[of m] that gtl(1)[OF up_next(2)] by (cases "m = i") auto
    qed (use up_next pr in auto)
  next
    case meet
    then have r: "ys = xs" "k = i" using pr(1) by auto
    have "le (xs ! pivot) (xs ! m)" if m: "i \<le> m" "m < hi" for m
    proof -
      consider "m = i" | "m = j" | "j < m" using m meet(3) pr(4) by linarith
      then show ?thesis using gtl(2)[OF meet(2)] pr(8)[of m] pr(9) meet(1) m by cases auto
    qed
    then show ?thesis unfolding r using pr(7) by auto
  next
    case turn
    show ?thesis
    proof (rule less.hyps[of "j - 1" i False xs])
      show "partition_loop cmp xswap pivot False i (j - 1) xs = (ys, k)" using turn pr(1) by simp
      show "le (xs ! pivot) (xs ! m)" if "j - 1 < m" "m < hi" for m
        using pr(8)[of m] pr(9) turn(1) that by (cases "m = j") auto
    qed (use turn pr gtl(2)[OF turn(2)] in auto)
  next
    case hit2
    then have r: "ys = xs" "k = i" using pr(1) by auto
    have "le (xs ! pivot) (xs ! m)" if m: "i \<le> m" "m < hi" for m
    proof -
      consider "m = i" | "m = j" | "j < m" using m hit2(3) pr(4) by linarith
      then show ?thesis using gtl(1)[OF hit2(2)] pr(8)[of m] pr(9) hit2(1) m by cases auto
    qed
    then show ?thesis unfolding r using pr(7) by auto
  next
    case down_next
    show ?thesis
    proof (rule less.hyps[of "j - 1" i False xs])
      show "partition_loop cmp xswap pivot False i (j - 1) xs = (ys, k)" using down_next pr(1) by simp
      show "le (xs ! pivot) (xs ! m)" if "j - 1 < m" "m < hi" for m
        using pr(8)[of m] gtl(1)[OF down_next(2)] that by (cases "m = j") auto
    qed (use down_next pr in auto)
  next
    case swap_end
    then have r: "ys = swap_at xswap i j xs" "k = i + 1" using pr(1) by auto
    have n: "ys ! m = (if m = j then xs ! i else if m = i then xs ! j else xs ! m)" for m
      unfolding r using pr by (intro nth_swap_at) auto
    have "rearr lo hi xs ys" unfolding r using pr by (intro rearr_swap_at) auto
    moreover have "le (ys ! m) (xs ! pivot)" if "lo \<le> m" "m < k" for m
      using that n[of m] pr(7)[of m] gtl(2)[OF swap_end(2)] swap_end(3) r(2) by (cases "m = i") auto
    moreover have "le (xs ! pivot) (ys ! m)" if "k \<le> m" "m < hi" for m
      using that n[of m] pr(8)[of m] pr(9) swap_end r(2) by (cases "m = j") auto
    ultimately show ?thesis by blast
  next
    case swap_next
    let ?xs = "swap_at xswap i j xs"
    have n: "?xs ! m = (if m = j then xs ! i else if m = i then xs ! j else xs ! m)" for m
      using pr by (intro nth_swap_at) auto
    have pv: "?xs ! pivot = xs ! pivot" using n[of pivot] pr by auto
    have sw: "rearr lo hi xs ?xs" using pr by (intro rearr_swap_at) auto
    have "rearr lo hi ?xs ys \<and> (\<forall>m. lo \<le> m \<and> m < k \<longrightarrow> le (ys ! m) (?xs ! pivot))
       \<and> (\<forall>m. k \<le> m \<and> m < hi \<longrightarrow> le (?xs ! pivot) (ys ! m))"
    proof (rule less.hyps[of j "i + 1" True ?xs])
      show "partition_loop cmp xswap pivot True (i + 1) j ?xs = (ys, k)" using swap_next pr(1) by simp
      show "le (?xs ! m) (?xs ! pivot)" if "lo \<le> m" "m < i + 1" for m
        using pr(4) pr(7)[of m] that n[of m] pv gtl(2)[OF swap_next(2)] by (cases "m = i") auto
      show "le (?xs ! pivot) (?xs ! m)" if "j < m" "m < hi" for m
        using pr(8)[of m] that n[of m] pv pr(4) by auto
      show "if True then le (?xs ! pivot) (?xs ! j) else le (?xs ! pivot) (?xs ! (i + 1))"
        using n[of j] pv pr(9) swap_next(1) by simp
    qed (use swap_next pr in auto)
    then show ?thesis using rearr_trans[OF sw] pv by auto
  qed
qed

lemma choose_pivot_ok:
  assumes "16 < n" "start + n \<le> length xs"
  defines "ys \<equiv> choose_pivot cmp xswap start n xs"
  shows "rearr start (start + n) xs ys" "le (ys ! start) (ys ! (start + 1))" "le (ys ! (start + 1)) (ys ! (start + n - 1))"
proof -
  define piv where "piv = start + n div 2"
  define z where "z = (if n div 1024 \<noteq> 0 then
       zend_sort_5 cmp xswap start (start + n div 2 div 2) piv (piv + n div 2 div 2) (start + n - 1) xs
     else zend_sort_3 cmp xswap start piv (start + n - 1) xs)"
  have ys: "ys = swap_at xswap (start + 1) piv z"
    by (simp add: ys_def choose_pivot_def z_def piv_def Let_def)
  have d: "4 \<le> n div 2 div 2" "n div 2 div 2 + n div 2 div 2 \<le> n div 2" "n div 2 + n div 2 \<le> n" using assms(1) by auto
  have piv: "start + 1 < piv" "piv < start + n - 1" using assms(1) by (auto simp: piv_def)
  have z: "rearr start (start + n) xs z \<and> le (z ! start) (z ! piv) \<and> le (z ! piv) (z ! (start + n - 1))"
  proof (cases "n div 1024 \<noteq> 0")
    case True
    then have big: "1024 \<le> n" by (metis div_less not_le)
    let ?b = "start + n div 2 div 2" and ?d = "piv + n div 2 div 2" and ?e = "start + n - 1"
    have "n div 2 + n div 2 div 2 + 1 < n" using d big by linarith
    then have pos: "start < ?b" "?b < piv" "piv < ?d" "?d < ?e" unfolding piv_def using d by linarith+
    have "chain_le [?e, ?d, piv, ?b, start] z" "rearr start (start + n) xs z"
    proof -
      have sub: "{start, ?b, piv, ?d, ?e} \<subseteq> {start..<start + n}" "{start, ?b, piv, ?d, ?e} \<subseteq> {..<length xs}"
        "distinct [start, ?b, piv, ?d, ?e]"
        using pos assms(2) by auto
      have z5: "z = zend_sort_5 cmp xswap start ?b piv ?d ?e xs" using True by (simp add: z_def)
      show "chain_le [?e, ?d, piv, ?b, start] z" unfolding z5 by (rule sort_5[OF sub(2,3)])
      show "rearr start (start + n) xs z" unfolding z5 by (rule rearr_sort_5(1)[OF sub(1) assms(2)])
    qed
    moreover from this(1) have "le (z ! start) (z ! piv)" "le (z ! piv) (z ! ?e)"
      using le_tr[of "z ! start" "z ! ?b" "z ! piv"] le_tr[of "z ! piv" "z ! ?d" "z ! ?e"] by auto
    ultimately show ?thesis by blast
  next
    case False
    have "chain_le [start + n - 1, piv, start] z" "rearr start (start + n) xs z"
    proof -
      have sub: "{start, piv, start + n - 1} \<subseteq> {start..<start + n}" "{start, piv, start + n - 1} \<subseteq> {..<length xs}"
        "distinct [start, piv, start + n - 1]"
        using piv assms(1,2) by auto
      have z3: "z = zend_sort_3 cmp xswap start piv (start + n - 1) xs" using False by (simp add: z_def)
      show "chain_le [start + n - 1, piv, start] z" unfolding z3 by (rule sort_3[OF sub(2,3)])
      show "rearr start (start + n) xs z" unfolding z3 by (rule rearr_sort_3[OF sub(1) assms(2)])
    qed
    then show ?thesis by simp
  qed
  have len: "length z = length xs" using z rearr_length by blast
  have n: "ys ! m = (if m = piv then z ! (start + 1) else if m = start + 1 then z ! piv else z ! m)" for m
    unfolding ys using piv assms(2) len by (intro nth_swap_at) auto
  have "rearr start (start + n) z ys" unfolding ys using piv assms(2) len by (intro rearr_swap_at) auto
  then show "rearr start (start + n) xs ys" using z rearr_trans by blast
  show "le (ys ! start) (ys ! (start + 1))" using z n[of start] n[of "start + 1"] piv by auto
  show "le (ys ! (start + 1)) (ys ! (start + n - 1))" using z n[of "start + 1"] n[of "start + n - 1"] piv by auto
qed

lemma partition_ok:
  assumes "16 < n" "start + n \<le> length xs" "zend_sort_partition cmp xswap start n xs = (ys, i)"
  shows "rearr start (start + n) xs ys" "\<And>m. start \<le> m \<Longrightarrow> m < i - 1 \<Longrightarrow> le (ys ! m) (ys ! (i - 1))"
    "\<And>m. i \<le> m \<Longrightarrow> m < start + n \<Longrightarrow> le (ys ! (i - 1)) (ys ! m)"
proof -
  define z where "z = choose_pivot cmp xswap start n xs"
  note cp = choose_pivot_ok[OF assms(1,2), folded z_def]
  have lz: "length z = length xs" using rearr_length[OF cp(1)] .
  obtain w where w: "partition_loop cmp xswap (start + 1) True (start + 2) (start + n - 1) z = (w, i)"
    "ys = swap_at xswap (start + 1) (i - 1) w"
    using assms(3) by (auto simp: zend_sort_partition_def z_def split: prod.splits)
  have b: "start + 2 \<le> i" "i < start + n" using partition_bounds[OF assms(1,3)] by auto
  have p: "rearr (start + 2) (start + n) z w \<and> (\<forall>m. start + 2 \<le> m \<and> m < i \<longrightarrow> le (w ! m) (z ! (start + 1)))
     \<and> (\<forall>m. i \<le> m \<and> m < start + n \<longrightarrow> le (z ! (start + 1)) (w ! m))"
    by (rule partition_loop_ok[OF w(1)]) (use assms(1,2) cp(3) lz in auto)
  have lw: "length w = length xs" using p rearr_length lz by metis
  have same: "w ! start = z ! start" "w ! (start + 1) = z ! (start + 1)" using p by (auto simp: rearr_def)
  have n: "ys ! m = (if m = i - 1 then w ! (start + 1) else if m = start + 1 then w ! (i - 1) else w ! m)" for m
    unfolding w(2) using b assms(2) lw by (intro nth_swap_at) auto
  have pv: "ys ! (i - 1) = z ! (start + 1)" using n same by simp
  have "rearr start (start + n) z w" using p rearr_weaken[of "start + 2" "start + n" z w start "start + n"] by simp
  moreover have "rearr start (start + n) w ys" unfolding w(2) using b assms(2) lw by (intro rearr_swap_at) auto
  ultimately show "rearr start (start + n) xs ys" using rearr_trans cp(1) by metis
  show "le (ys ! m) (ys ! (i - 1))" if m: "start \<le> m" "m < i - 1" for m
  proof -
    consider "m = start" | "m = start + 1" | "start + 2 \<le> m" using m(1) by linarith
    then show ?thesis
    proof cases
      case 1 then show ?thesis using pv n[of start] same cp(2) b m by auto
    next
      case 2
      then have "start + 2 \<le> i - 1" "i - 1 < i" using m b by auto
      then show ?thesis using pv n[of m] p 2 m by auto
    next
      case 3 then show ?thesis using pv n[of m] p m by auto
    qed
  qed
  show "le (ys ! (i - 1)) (ys ! m)" if "i \<le> m" "m < start + n" for m
    using that pv n[of m] p b by auto
qed

text \<open>A segment whose two parts are sorted around an element between them is sorted.\<close>

lemma seg_sorted_join:
  assumes "seg_sorted lo p xs" "seg_sorted (Suc p) hi xs"
    and "\<And>m. lo \<le> m \<Longrightarrow> m < p \<Longrightarrow> le (xs ! m) (xs ! p)" "\<And>m. p < m \<Longrightarrow> m < hi \<Longrightarrow> le (xs ! p) (xs ! m)"
  shows "seg_sorted lo hi xs"
  unfolding seg_sorted_def
proof (intro allI impI)
  fix i j assume ij: "lo \<le> i" "i < j" "j < hi"
  consider "j < p" | "j = p" | "i < p" "p < j" | "i = p" | "p < i" using ij by linarith
  then show "le (xs ! i) (xs ! j)"
    using ij assms le_tr[of "xs ! i" "xs ! p" "xs ! j"] by cases (auto simp: seg_sorted_def)
qed

lemma seg_sorted_cong: "(\<And>k. lo \<le> k \<Longrightarrow> k < hi \<Longrightarrow> ys ! k = xs ! k) \<Longrightarrow> seg_sorted lo hi ys = seg_sorted lo hi xs"
  by (auto simp: seg_sorted_def)

definition parted :: "nat \<Rightarrow> nat \<Rightarrow> nat \<Rightarrow> 'a list \<Rightarrow> bool" where
  "parted lo p hi xs \<longleftrightarrow> (\<forall>m. lo \<le> m \<and> m < p \<longrightarrow> le (xs ! m) (xs ! p)) \<and> (\<forall>m. p < m \<and> m < hi \<longrightarrow> le (xs ! p) (xs ! m))"

lemma parted_left:
  assumes "parted lo p hi xs" "rearr lo p xs ys" "p \<le> length xs"
  shows "parted lo p hi ys"
proof -
  have o: "ys ! k = xs ! k" if "p \<le> k" for k using assms(2) that by (simp add: rearr_def)
  have "le (ys ! m) (xs ! p)" if "lo \<le> m" "m < p" for m
    using rearr_segment[OF assms(2,3), of "\<lambda>x. le x (xs ! p)" m] assms(1) that by (simp add: parted_def)
  then show ?thesis using assms(1) o by (simp add: parted_def)
qed

lemma parted_right:
  assumes "parted lo p hi xs" "rearr (Suc p) hi xs ys" "hi \<le> length xs"
  shows "parted lo p hi ys"
proof -
  have o: "ys ! k = xs ! k" if "k \<le> p" for k using assms(2) that by (simp add: rearr_def)
  have "le (xs ! p) (ys ! m)" if "p < m" "m < hi" for m
    using rearr_segment[OF assms(2,3), of "\<lambda>x. le (xs ! p) x" m] assms(1) that by (simp add: parted_def)
  then show ?thesis using assms(1) o by (simp add: parted_def)
qed

lemma join_left_right:
  assumes "parted lo p hi ys" "lo \<le> p" "p < hi" "hi \<le> length ys"
    and "rearr lo p ys zs" "seg_sorted lo p zs" "rearr (Suc p) hi zs vs" "seg_sorted (Suc p) hi vs"
  shows "rearr lo hi ys vs \<and> seg_sorted lo hi vs"
proof -
  have lz: "length zs = length ys" using rearr_length[OF assms(5)] .
  have "parted lo p hi zs" using assms(3,4) by (intro parted_left[OF assms(1,5)]) linarith
  then have pv: "parted lo p hi vs" by (rule parted_right[OF _ assms(7)]) (use assms(4) lz in linarith)
  have "seg_sorted lo p vs" using assms(6,7) by (subst seg_sorted_cong[of lo p vs zs]) (auto simp: rearr_def)
  then have "seg_sorted lo hi vs" using assms(8) pv by (intro seg_sorted_join[of lo p vs hi]) (simp_all add: parted_def)
  moreover have "rearr lo hi ys vs"
  proof (rule rearr_trans)
    show "rearr lo hi ys zs" using assms(2,3) by (intro rearr_weaken[OF assms(5)]) simp_all
    show "rearr lo hi zs vs" using assms(2,3) by (intro rearr_weaken[OF assms(7)]) simp_all
  qed
  ultimately show ?thesis by blast
qed

lemma join_right_left:
  assumes "parted lo p hi ys" "lo \<le> p" "p < hi" "hi \<le> length ys"
    and "rearr (Suc p) hi ys zs" "seg_sorted (Suc p) hi zs" "rearr lo p zs vs" "seg_sorted lo p vs"
  shows "rearr lo hi ys vs \<and> seg_sorted lo hi vs"
proof -
  have lz: "length zs = length ys" using rearr_length[OF assms(5)] .
  have "parted lo p hi zs" by (rule parted_right[OF assms(1,5,4)])
  then have pv: "parted lo p hi vs" by (rule parted_left[OF _ assms(7)]) (use assms(3,4) lz in linarith)
  have "seg_sorted (Suc p) hi vs" using assms(6,7) by (subst seg_sorted_cong[of "Suc p" hi vs zs]) (auto simp: rearr_def)
  then have "seg_sorted lo hi vs" using assms(8) pv by (intro seg_sorted_join[of lo p vs hi]) (simp_all add: parted_def)
  moreover have "rearr lo hi ys vs"
  proof (rule rearr_trans)
    show "rearr lo hi ys zs" using assms(2,3) by (intro rearr_weaken[OF assms(5)]) simp_all
    show "rearr lo hi zs vs" using assms(2,3) by (intro rearr_weaken[OF assms(7)]) simp_all
  qed
  ultimately show ?thesis by blast
qed

lemma zend_sort_ok:
  "start + n \<le> length xs \<Longrightarrow> rearr start (start + n) xs (zend_sort cmp xswap start n xs)
     \<and> seg_sorted start (start + n) (zend_sort cmp xswap start n xs)"
proof (induction n arbitrary: start xs rule: less_induct)
  case (less n)
  show ?case
  proof (cases "n \<le> 16")
    case True
    then show ?thesis using insert_sort_ok[OF less.prems] by (simp add: zend_sort.simps)
  next
    case False
    obtain ys i where p: "zend_sort_partition cmp xswap start n xs = (ys, i)" by fastforce
    have n: "16 < n" using False by simp
    have b: "start + 2 \<le> i" "i < start + n" using partition_bounds[OF n p] by auto
    note po = partition_ok[OF n less.prems p]
    have ly: "length ys = length xs" using rearr_length[OF po(1)] .
    have e: "start + (i - start - 1) = i - 1" "i + (start + n - i) = start + n" "Suc (i - 1) = i" using b by auto
    have pt: "parted start (i - 1) (start + n) ys" using po(2,3) e(3) by (auto simp: parted_def)
    let ?L = "zend_sort cmp xswap start (i - start - 1)" and ?R = "zend_sort cmp xswap i (start + n - i)"
    have left: "rearr start (i - 1) zs (?L zs) \<and> seg_sorted start (i - 1) (?L zs)" if "length zs = length xs" for zs
      using less.IH[of "i - start - 1" start zs] that b less.prems e by auto
    have right: "rearr (Suc (i - 1)) (start + n) zs (?R zs) \<and> seg_sorted (Suc (i - 1)) (start + n) (?R zs)" if "length zs = length xs" for zs
      using less.IH[of "start + n - i" i zs] that b less.prems e by auto
    have lL: "length (?L zs) = length zs" if "length zs = length xs" for zs using left[OF that] rearr_length by blast
    have lR: "length (?R zs) = length zs" if "length zs = length xs" for zs using right[OF that] rearr_length by blast
    have bb: "start \<le> i - 1" "i - 1 < start + n" "start + n \<le> length ys" using b less.prems ly by auto
    have "rearr start (start + n) ys (zend_sort cmp xswap start n xs) \<and> seg_sorted start (start + n) (zend_sort cmp xswap start n xs)"
    proof (cases "i - 1 - start < start + n - i")
      case True
      then have z: "zend_sort cmp xswap start n xs = ?R (?L ys)" using p n by (subst zend_sort.simps) simp
      have l: "rearr start (i - 1) ys (?L ys)" "seg_sorted start (i - 1) (?L ys)" using left[OF ly] by auto
      have "length (?L ys) = length xs" using lL[OF ly] ly by simp
      then have r: "rearr (Suc (i - 1)) (start + n) (?L ys) (?R (?L ys))" "seg_sorted (Suc (i - 1)) (start + n) (?R (?L ys))"
        using right by auto
      show ?thesis unfolding z by (rule join_left_right[OF pt bb l r])
    next
      case False
      then have z: "zend_sort cmp xswap start n xs = ?L (?R ys)" using p n by (subst zend_sort.simps) simp
      have r: "rearr (Suc (i - 1)) (start + n) ys (?R ys)" "seg_sorted (Suc (i - 1)) (start + n) (?R ys)" using right[OF ly] by auto
      have "length (?R ys) = length xs" using lR[OF ly] ly by simp
      then have l: "rearr start (i - 1) (?R ys) (?L (?R ys))" "seg_sorted start (i - 1) (?L (?R ys))" using left by auto
      show ?thesis unfolding z by (rule join_right_left[OF pt bb r l])
    qed
    then show ?thesis using rearr_trans[OF po(1)] by blast
  qed
qed

end

section \<open>Partial swaps\<close>

text \<open>
  A caller may pass a swap function that exchanges only part of two cells (the bucket
  swaps of zend_hash.c leave the chain links in place). When \<open>f\<close> carries one comparison
  and one swap function to another, it carries the whole sort: with \<open>swp' = xswap\<close>, the
  sort does, as far as \<open>f\<close> can tell, what it does with a full swap.
\<close>

locale swaps_part =
  fixes f :: "'a \<Rightarrow> 'b" and cmp :: "'a compare_func" and swp :: "'a swap_func"
    and cmp' :: "'b compare_func" and swp' :: "'b swap_func"
  assumes cmp_part: "cmp x y = cmp' (f x) (f y)"
    and swp_part: "swp' (f x) (f y) = map_prod f f (swp x y)"
begin

lemma swap_part:
  "i < length xs \<Longrightarrow> j < length xs \<Longrightarrow> map f (swap_at swp i j xs) = swap_at swp' i j (map f xs)"
  using swp_part[of "xs ! i" "xs ! j"] by (auto simp: swap_at_def map_update split: prod.split)

lemma length_swap_part [simp]: "length (swap_at swp i j xs) = length xs"
  by (simp add: swap_at_def split: prod.split)

lemma gt_part: "i < length xs \<Longrightarrow> j < length xs \<Longrightarrow> gt_at cmp xs i j = gt_at cmp' (map f xs) i j"
  by (simp add: gt_at_def cmp_part)

lemma sort_3_part:
  assumes "{a, b, c} \<subseteq> {..<length xs}"
  shows "map f (zend_sort_3 cmp swp a b c xs) = zend_sort_3 cmp' swp' a b c (map f xs)"
    "length (zend_sort_3 cmp swp a b c xs) = length xs"
  using assms by (simp_all add: zend_sort_3_def Let_def gt_part swap_part)

lemma sort_4_part:
  assumes "{a, b, c, d} \<subseteq> {..<length xs}"
  shows "map f (zend_sort_4 cmp swp a b c d xs) = zend_sort_4 cmp' swp' a b c d (map f xs)"
    "length (zend_sort_4 cmp swp a b c d xs) = length xs"
  using assms sort_3_part[of a b c xs] by (simp_all add: zend_sort_4_def Let_def gt_part swap_part)

lemma sort_5_part:
  assumes "{a, b, c, d, e} \<subseteq> {..<length xs}"
  shows "map f (zend_sort_5 cmp swp a b c d e xs) = zend_sort_5 cmp' swp' a b c d e (map f xs)"
    "length (zend_sort_5 cmp swp a b c d e xs) = length xs"
  using assms sort_4_part[of a b c d xs] by (simp_all add: zend_sort_5_def Let_def gt_part swap_part)

lemma swap_down_part:
  "i < length xs \<Longrightarrow> map f (swap_down swp i j xs) = swap_down swp' i j (map f xs) \<and> length (swap_down swp i j xs) = length xs"
  by (induction i arbitrary: xs) (auto simp: swap_part)

lemma scan_down_part: "j < length xs \<Longrightarrow> i < length xs \<Longrightarrow> scan_down cmp xs start i j = scan_down cmp' (map f xs) start i j"
  by (induction j) (auto simp: gt_part)

lemma scan_down2_part:
  "j < length xs \<Longrightarrow> i < length xs \<Longrightarrow> scan_down2 cmp xs start i j = scan_down2 cmp' (map f xs) start i j"
proof (induction j rule: less_induct)
  case (less j0)
  show ?case
  proof (cases "j0 < start + 2")
    case True
    then show ?thesis by (simp add: scan_down2.simps[of _ _ start i j0])
  next
    case False
    have "j0 - 2 < length xs" "j0 - 2 + 1 < length xs" "start < length xs" using less.prems False by auto
    then show ?thesis using less False
      by (subst (1 2) scan_down2.simps) (simp add: Let_def gt_part)
  qed
qed

lemma insert_one_part:
  assumes "start < i" "i < length xs"
  shows "map f (insert_one cmp swp start i xs) = insert_one cmp' swp' start i (map f xs)
     \<and> length (insert_one cmp swp start i xs) = length xs"
proof -
  have "insert_point cmp xs start i = insert_point cmp' (map f xs) start i"
    using assms by (simp add: insert_point_def scan_down_part scan_down2_part)
  moreover have "gt_at cmp xs (i - 1) i = gt_at cmp' (map f xs) (i - 1) i" using assms by (intro gt_part) auto
  ultimately show ?thesis using swap_down_part[OF assms(2)] by (simp add: insert_one_def)
qed

lemma insert_loop_part:
  assumes "start + n \<le> length xs"
  shows "map f (insert_loop cmp swp start n xs) = insert_loop cmp' swp' start n (map f xs)
     \<and> length (insert_loop cmp swp start n xs) = length xs"
  using assms
proof (induction n)
  case (Suc n)
  show ?case
  proof (cases n)
    case 0
    then show ?thesis by (simp add: insert_loop_def)
  next
    case n: (Suc m)
    have e: "insert_loop c w start (Suc n) zs = insert_one c w start (start + n) (insert_loop c w start n zs)"
      for c :: "'c compare_func" and w zs by (simp add: insert_loop_def n)
    show ?thesis unfolding e using Suc insert_one_part[of start "start + n" "insert_loop cmp swp start n xs"] n by simp
  qed
qed (simp add: insert_loop_def)

lemma insert_sort_part:
  assumes "start + n \<le> length xs"
  shows "map f (zend_insert_sort cmp swp start n xs) = zend_insert_sort cmp' swp' start n (map f xs)
     \<and> length (zend_insert_sort cmp swp start n xs) = length xs"
  using assms insert_loop_part[OF assms]
  by (auto simp: zend_insert_sort_def sort_3_part sort_4_part sort_5_part zend_sort_2_def gt_part swap_part)

lemma partition_loop_part:
  "i < j \<Longrightarrow> j < length xs \<Longrightarrow> pivot < length xs \<Longrightarrow>
     map_prod (map f) id (partition_loop cmp swp pivot up i j xs) = partition_loop cmp' swp' pivot up i j (map f xs)
     \<and> length (fst (partition_loop cmp swp pivot up i j xs)) = length xs"
proof (induction "j - i" arbitrary: up i j xs rule: less_induct)
  case less
  have g: "gt_at cmp xs pivot i = gt_at cmp' (map f xs) pivot i" "gt_at cmp xs j pivot = gt_at cmp' (map f xs) j pivot"
    using less.prems by (auto intro!: gt_part)
  have s: "map f (swap_at swp i j xs) = swap_at swp' i j (map f xs)" using less.prems by (intro swap_part) auto
  note e = partition_loop.simps[of cmp' swp' pivot up i j "map f xs"]
  from less.prems(1) show ?case
  proof (cases rule: partition_loop_cases[where cmp=cmp and swp=swp and pivot=pivot and up=up and xs=xs])
    case up_next
    then show ?thesis using less.hyps[of j "i + 1" xs True] less.prems e g by auto
  next
    case turn
    then show ?thesis using less.hyps[of "j - 1" i xs False] less.prems e g by auto
  next
    case down_next
    then show ?thesis using less.hyps[of "j - 1" i xs False] less.prems e g by auto
  next
    case swap_next
    then show ?thesis using less.hyps[of j "i + 1" "swap_at swp i j xs" True] less.prems e g s by (auto simp: Let_def)
  qed (use e g s less.prems in \<open>auto simp: Let_def\<close>)
qed

lemma choose_pivot_part:
  assumes "16 < n" "start + n \<le> length xs"
  shows "map f (choose_pivot cmp swp start n xs) = choose_pivot cmp' swp' start n (map f xs)
     \<and> length (choose_pivot cmp swp start n xs) = length xs"
proof -
  have "n div 2 div 2 \<le> n div 2" "n div 2 + n div 2 div 2 < n" "n div 2 < n" using assms(1) by linarith+
  then have "{start, start + n div 2 div 2, start + n div 2, start + n div 2 + n div 2 div 2, start + n - 1} \<subseteq> {..<length xs}"
    using assms by auto
  then show ?thesis using assms sort_3_part[of start "start + n div 2" "start + n - 1" xs]
      sort_5_part[of start "start + n div 2 div 2" "start + n div 2" "start + n div 2 + n div 2 div 2" "start + n - 1" xs]
    by (simp add: choose_pivot_def Let_def swap_part)
qed

lemma partition_part:
  assumes "16 < n" "start + n \<le> length xs"
  shows "map_prod (map f) id (zend_sort_partition cmp swp start n xs) = zend_sort_partition cmp' swp' start n (map f xs)
     \<and> length (fst (zend_sort_partition cmp swp start n xs)) = length xs"
proof -
  define z where "z = choose_pivot cmp swp start n xs"
  have z: "map f z = choose_pivot cmp' swp' start n (map f xs)" "length z = length xs"
    using choose_pivot_part[OF assms] by (auto simp: z_def)
  obtain w i where w: "partition_loop cmp swp (start + 1) True (start + 2) (start + n - 1) z = (w, i)" by fastforce
  have p: "(map f w, i) = partition_loop cmp' swp' (start + 1) True (start + 2) (start + n - 1) (map f z)" "length w = length xs"
    using partition_loop_part[of "start + 2" "start + n - 1" z "start + 1" True] assms w z(2) by auto
  have "start + 2 \<le> i \<and> i \<le> start + n - 1" using w assms by (intro partition_loop_bounds) auto
  then have "i - 1 < length w" "start + 1 < length w" using assms p(2) by auto
  then show ?thesis using p w z by (simp add: zend_sort_partition_def z_def[symmetric] swap_part split: prod.split)
     (metis fst_conv snd_conv)
qed

lemma zend_sort_part:
  "start + n \<le> length xs \<Longrightarrow> map f (zend_sort cmp swp start n xs) = zend_sort cmp' swp' start n (map f xs)
     \<and> length (zend_sort cmp swp start n xs) = length xs"
proof (induction n arbitrary: start xs rule: less_induct)
  case (less n)
  show ?case
  proof (cases "n \<le> 16")
    case True
    then show ?thesis using insert_sort_part[OF less.prems] by (simp add: zend_sort.simps)
  next
    case False
    obtain ys i where p: "zend_sort_partition cmp swp start n xs = (ys, i)" by fastforce
    have n: "16 < n" using False by simp
    have b: "start + 2 \<le> i" "i < start + n" using partition_bounds[OF n p] by auto
    have p': "zend_sort_partition cmp' swp' start n (map f xs) = (map f ys, i)" "length ys = length xs"
      using partition_part[OF n less.prems] p by auto
    let ?L = "zend_sort cmp swp start (i - start - 1)" and ?R = "zend_sort cmp swp i (start + n - i)"
    have L: "map f (?L zs) = zend_sort cmp' swp' start (i - start - 1) (map f zs)" "length (?L zs) = length xs"
      if "length zs = length xs" for zs using less.IH[of "i - start - 1" start zs] that b less.prems by auto
    have R: "map f (?R zs) = zend_sort cmp' swp' i (start + n - i) (map f zs)" "length (?R zs) = length xs"
      if "length zs = length xs" for zs using less.IH[of "start + n - i" i zs] that b less.prems by auto
    show ?thesis using p p' n L R by (subst (1 2 3) zend_sort.simps) simp
  qed
qed

end

section \<open>Properties\<close>

text \<open>C9: for every comparison function that is a total preorder, \<open>zend_sort\<close> rearranges the
  \<open>n\<close> cells from \<open>start\<close> on into ascending order and touches no other cell, whatever the
  number of elements (comparison networks, insertion sort or quicksort).\<close>

theorem zend_sort_sorts:
  assumes "\<And>x y. cmp x y > 0 \<Longrightarrow> \<not> cmp y x > 0" and "\<And>x y z. \<not> cmp x y > 0 \<Longrightarrow> \<not> cmp y z > 0 \<Longrightarrow> \<not> cmp x z > 0"
    and "start + n \<le> length xs"
  defines "ys \<equiv> zend_sort cmp xswap start n xs"
  shows "sorted_wrt (\<lambda>x y. \<not> cmp x y > 0) (take n (drop start ys)) \<and> mset ys = mset xs
    \<and> take start ys = take start xs \<and> drop (start + n) ys = drop (start + n) xs"
proof -
  have co: "compare_order cmp" using assms(1,2) by unfold_locales
  have r: "rearr start (start + n) xs ys" and s: "compare_order.seg_sorted cmp start (start + n) ys"
    using compare_order.zend_sort_ok[OF co assms(3)] by (auto simp: ys_def)
  have l: "length ys = length xs" using rearr_length[OF r] .
  have "sorted_wrt (\<lambda>x y. \<not> cmp x y > 0) (take n (drop start ys))"
    using s l assms(3)
    by (auto simp: sorted_wrt_iff_nth_less compare_order.seg_sorted_def[OF co] compare_order.le_def[OF co])
  moreover have "take start ys = take start xs" "drop (start + n) ys = drop (start + n) xs"
    using r l assms(3) by (auto simp: rearr_def intro!: nth_equalityI)
  ultimately show ?thesis using r by (simp add: rearr_def)
qed

theorem zend_sort_sorts_witness:
  "sorted_wrt (\<lambda>x y. \<not> x - y > 0) (take 3 (drop 0 (zend_sort (\<lambda>x y. x - y) xswap 0 3 [3, 1, 2 :: int])))
   \<and> mset (zend_sort (\<lambda>x y. x - y) xswap 0 3 [3, 1, 2 :: int]) = mset [3, 1, 2]"
  using zend_sort_sorts[of "\<lambda>x y. x - y" 0 3 "[3, 1, 2 :: int]"] by (auto dest: mset_eq_length)

end
