(* ===== verification/ZendQsort.thy ===== *)
theory ZendQsort
  imports ZendSort
begin

text \<open>
  The quicksort \<open>zend_qsort\<close> of zend_sort.c, which keeps the pending segments on two arrays of
  \<open>QSORT_STACK_SIZE\<close> pointers. Pointers are positions of the array, and the pointer \<open>end\<close> to the
  last element is kept as the position after it, so it is never in front of the array. A push
  outside the arrays is the result \<open>None\<close>.
\<close>

section \<open>Definitions\<close>

definition QSORT_STACK_SIZE :: nat where
  "QSORT_STACK_SIZE = 8 * 8"

text \<open>The two scans and the exchange loop around them; the pivot is at \<open>begin\<close>, here \<open>bgn\<close>, and
  \<open>seg1\<close> is behind it, so the first guard of the downward scan always holds.\<close>

function qscan_up :: "'a compare_func \<Rightarrow> 'a list \<Rightarrow> nat \<Rightarrow> nat \<Rightarrow> nat \<Rightarrow> nat" where
  "qscan_up cmp xs bgn seg1 seg2 =
     (if seg1 < seg2 \<and> gt_at cmp xs bgn seg1 then qscan_up cmp xs bgn (seg1 + 1) seg2 else seg1)"
  by pat_completeness auto

termination by (relation "measure (\<lambda>(cmp, xs, bgn, seg1, seg2). seg2 - seg1)") auto

function qscan_down :: "'a compare_func \<Rightarrow> 'a list \<Rightarrow> nat \<Rightarrow> nat \<Rightarrow> nat \<Rightarrow> nat" where
  "qscan_down cmp xs bgn seg1 seg2 =
     (if 0 < seg1 \<and> seg2 \<ge> seg1 \<and> gt_at cmp xs seg2 bgn then qscan_down cmp xs bgn seg1 (seg2 - 1) else seg2)"
  by pat_completeness auto

termination by (relation "measure (\<lambda>(cmp, xs, bgn, seg1, seg2). seg2)") auto

declare qscan_up.simps [simp del] qscan_down.simps [simp del]

lemma qscan_up_bounds: "seg1 \<le> qscan_up cmp xs bgn seg1 seg2" "qscan_up cmp xs bgn seg1 seg2 \<le> max seg1 seg2"
  by (induction cmp xs bgn seg1 seg2 rule: qscan_up.induct) (subst qscan_up.simps; auto)+

lemma qscan_down_bounds: "qscan_down cmp xs bgn seg1 seg2 \<le> seg2" "seg1 \<le> seg2 + 1 \<Longrightarrow> seg1 \<le> qscan_down cmp xs bgn seg1 seg2 + 1"
  by (induction cmp xs bgn seg1 seg2 rule: qscan_down.induct) (subst qscan_down.simps; auto)+

function qsort_exchange :: "'a compare_func \<Rightarrow> 'a swap_func \<Rightarrow> nat \<Rightarrow> nat \<Rightarrow> nat \<Rightarrow> 'a list \<Rightarrow> 'a list \<times> nat" where
  "qsort_exchange cmp swp bgn seg1 seg2 xs =
     (let seg1' = qscan_up cmp xs bgn seg1 seg2;
          seg2' = qscan_down cmp xs bgn seg1' seg2
      in if seg1' \<ge> seg2' then (xs, seg2')
         else qsort_exchange cmp swp bgn (seg1' + 1) (seg2' - 1) (swap_at swp seg1' seg2' xs))"
  by pat_completeness auto

termination
proof (relation "measure (\<lambda>(cmp, swp, bgn, seg1, seg2, xs). seg2 - seg1)", goal_cases)
  case (2 cmp swp bgn seg1 seg2 xs seg1' seg2')
  then have "seg1 \<le> seg1'" "seg2' \<le> seg2" "seg1' < seg2'" using qscan_up_bounds qscan_down_bounds by auto
  then show ?case by auto
qed simp

declare qsort_exchange.simps [simp del]

lemma qsort_exchange_bounds:
  "seg1 \<le> seg2 + 1 \<Longrightarrow> qsort_exchange cmp swp bgn seg1 seg2 xs = (ys, k) \<Longrightarrow> seg1 \<le> k + 1 \<and> k \<le> seg2"
proof (induction cmp swp bgn seg1 seg2 xs rule: qsort_exchange.induct)
  case (1 cmp swp bgn seg1 seg2 xs)
  define i j where "i = qscan_up cmp xs bgn seg1 seg2" and "j = qscan_down cmp xs bgn i seg2"
  have b: "seg1 \<le> i" "i \<le> seg2 + 1" "j \<le> seg2" "i \<le> j + 1"
    using qscan_up_bounds[where cmp = cmp and xs = xs and bgn = bgn and ?seg1.0 = seg1 and ?seg2.0 = seg2] qscan_down_bounds[where cmp = cmp and xs = xs and bgn = bgn and ?seg1.0 = i and ?seg2.0 = seg2] "1.prems"(1) by (auto simp: i_def j_def)
  note e = qsort_exchange.simps[of cmp swp bgn seg1 seg2 xs, folded i_def, unfolded Let_def, folded i_def j_def]
  show ?case
  proof (cases "j \<le> i")
    case True
    then show ?thesis using e "1.prems"(2) b by auto
  next
    case False
    then have "qsort_exchange cmp swp bgn (i + 1) (j - 1) (swap_at swp i j xs) = (ys, k)" using e "1.prems"(2) by simp
    then have "i + 1 \<le> k + 1 \<and> k \<le> j - 1" using "1.IH"[OF i_def j_def] False by auto
    then show ?thesis using b by auto
  qed
qed

text \<open>One round: the middle element becomes the pivot and the segment is parted around it.\<close>

definition qsort_partition :: "'a compare_func \<Rightarrow> 'a swap_func \<Rightarrow> nat \<Rightarrow> nat \<Rightarrow> 'a list \<Rightarrow> 'a list \<times> nat" where
  "qsort_partition cmp swp bgn fin xs =
     (let offset = (fin - 1 - bgn) div 2;
          xs1 = swap_at swp bgn (bgn + offset) xs;
          (xs2, seg2) = qsort_exchange cmp swp bgn (bgn + 1) (fin - 1) xs1
      in (swap_at swp bgn seg2 xs2, seg2))"

lemma qsort_partition_bounds:
  assumes "bgn + 1 < fin" "qsort_partition cmp swp bgn fin xs = (ys, p)"
  shows "bgn \<le> p" "p < fin"
  using assms qsort_exchange_bounds[of "bgn + 1" "fin - 1" cmp swp bgn]
  by (fastforce simp: qsort_partition_def Let_def split: prod.splits)+

definition seg_total :: "(nat \<times> nat) list \<Rightarrow> nat" where
  "seg_total st = sum_list (map (\<lambda>(b, f). f - b) st)"

function qsort_run :: "'a compare_func \<Rightarrow> 'a swap_func \<Rightarrow> (nat \<times> nat) list \<Rightarrow> nat \<Rightarrow> nat \<Rightarrow> 'a list \<Rightarrow> 'a list option" where
  "qsort_run cmp swp st bgn fin xs =
     (if bgn + 1 < fin then
        case qsort_partition cmp swp bgn fin xs of (xs1, seg2p) \<Rightarrow>
          if seg2p - bgn \<le> fin - 1 - seg2p then
            if seg2p + 2 < fin then
              (if length st < QSORT_STACK_SIZE then qsort_run cmp swp ((seg2p + 1, fin) # st) bgn seg2p xs1 else None)
            else qsort_run cmp swp st bgn seg2p xs1
          else
            if bgn + 1 < seg2p then
              (if length st < QSORT_STACK_SIZE then qsort_run cmp swp ((bgn, seg2p) # st) (seg2p + 1) fin xs1 else None)
            else qsort_run cmp swp st (seg2p + 1) fin xs1
      else case st of [] \<Rightarrow> Some xs | (b, f) # st' \<Rightarrow> qsort_run cmp swp st' b f xs)"
  by pat_completeness auto

termination
proof (relation "measures [\<lambda>(cmp, swp, st, b, f, xs). seg_total st + (f - b), \<lambda>(cmp, swp, st, b, f, xs). length st]", goal_cases)
  case (2 cmp swp st bgn fin xs xs1 p)
  then show ?case using qsort_partition_bounds[of bgn fin cmp swp xs xs1 p] by (simp add: seg_total_def)
next
  case (3 cmp swp st bgn fin xs xs1 p)
  then show ?case using qsort_partition_bounds[of bgn fin cmp swp xs xs1 p] by (simp add: seg_total_def)
next
  case (4 cmp swp st bgn fin xs xs1 p)
  then show ?case using qsort_partition_bounds[of bgn fin cmp swp xs xs1 p] by (simp add: seg_total_def)
next
  case (5 cmp swp st bgn fin xs xs1 p)
  then show ?case using qsort_partition_bounds[of bgn fin cmp swp xs xs1 p] by (simp add: seg_total_def)
qed (auto simp: seg_total_def)

declare qsort_run.simps [simp del]

text \<open>The first segment is the whole array; the two conversions of \<open>nmemb\<close> and \<open>siz\<close> cancel.\<close>

definition zend_qsort :: "'a compare_func \<Rightarrow> 'a swap_func \<Rightarrow> nat \<Rightarrow> 'a list \<Rightarrow> 'a list option" where
  "zend_qsort cmp swp nmemb xs = qsort_run cmp swp [] 0 nmemb xs"

section \<open>The order of the array\<close>

lemma qscan_up_stop:
  "seg1 \<le> m \<Longrightarrow> m < qscan_up cmp xs bgn seg1 seg2 \<Longrightarrow> gt_at cmp xs bgn m"
  "qscan_up cmp xs bgn seg1 seg2 < seg2 \<Longrightarrow> \<not> gt_at cmp xs bgn (qscan_up cmp xs bgn seg1 seg2)"
proof (induction cmp xs bgn seg1 seg2 rule: qscan_up.induct)
  case (1 cmp xs bgn seg1 seg2)
  note e = qscan_up.simps[of cmp xs bgn seg1 seg2]
  {
    case 1
    then show ?case using "1.IH"(1) e by (cases "m = seg1") (auto split: if_splits)
  next
    case 2
    then show ?case using "1.IH"(2) e by (cases "seg1 < seg2 \<and> gt_at cmp xs bgn seg1") auto
  }
qed

lemma qscan_down_stop:
  "m \<le> seg2 \<Longrightarrow> qscan_down cmp xs bgn seg1 seg2 < m \<Longrightarrow> gt_at cmp xs m bgn"
  "0 < seg1 \<Longrightarrow> seg1 \<le> qscan_down cmp xs bgn seg1 seg2 \<Longrightarrow> \<not> gt_at cmp xs (qscan_down cmp xs bgn seg1 seg2) bgn"
proof (induction cmp xs bgn seg1 seg2 rule: qscan_down.induct)
  case (1 cmp xs bgn seg1 seg2)
  note e = qscan_down.simps[of cmp xs bgn seg1 seg2]
  {
    case 1
    then show ?case using "1.IH"(1) e by (cases "m = seg2") (auto split: if_splits)
  next
    case 2
    then show ?case using "1.IH"(2) e by (cases "0 < seg1 \<and> seg2 \<ge> seg1 \<and> gt_at cmp xs seg2 bgn") auto
  }
qed

text \<open>
  The same rounds as a recursive function, which sorts the smaller part first, and the stack of
  \<open>zend_qsort\<close> as the list of its calls that are still to be made.
\<close>

function qsort_rec :: "'a compare_func \<Rightarrow> 'a swap_func \<Rightarrow> nat \<Rightarrow> nat \<Rightarrow> 'a list \<Rightarrow> 'a list" where
  "qsort_rec cmp swp bgn fin xs =
     (if bgn + 1 < fin then
        case qsort_partition cmp swp bgn fin xs of (xs1, p) \<Rightarrow>
          if p - bgn \<le> fin - 1 - p then qsort_rec cmp swp (p + 1) fin (qsort_rec cmp swp bgn p xs1)
          else qsort_rec cmp swp bgn p (qsort_rec cmp swp (p + 1) fin xs1)
      else xs)"
  by pat_completeness auto

termination
proof (relation "measure (\<lambda>(cmp, swp, bgn, fin, xs). fin - bgn)", goal_cases)
  case (2 cmp swp bgn fin xs xs1 p)
  then show ?case using qsort_partition_bounds[of bgn fin cmp swp xs xs1 p] by simp
next
  case (3 cmp swp bgn fin xs xs1 p)
  then show ?case using qsort_partition_bounds[of bgn fin cmp swp xs xs1 p] by simp
next
  case (4 cmp swp bgn fin xs xs1 p)
  then show ?case using qsort_partition_bounds[of bgn fin cmp swp xs xs1 p] by simp
next
  case (5 cmp swp bgn fin xs xs1 p)
  then show ?case using qsort_partition_bounds[of bgn fin cmp swp xs xs1 p] by simp
qed simp

declare qsort_rec.simps [simp del]

lemma qsort_rec_short: "fin \<le> bgn + 1 \<Longrightarrow> qsort_rec cmp swp bgn fin xs = xs"
  by (simp add: qsort_rec.simps)

text \<open>
  What bounds the stack: the part that is worked on is at most as long as the part that was
  pushed last, and both come from a segment in the same relation to the stack below.
\<close>

fun depth_ok :: "nat \<Rightarrow> (nat \<times> nat) list \<Rightarrow> nat \<Rightarrow> bool" where
  "depth_ok n [] c = (c \<le> n)"
| "depth_ok n ((b, f) # st) c = (\<exists>m. c \<le> m \<and> m \<le> f - b \<and> depth_ok n st (f - b + m + 1))"

lemma depth_ok_mono: "depth_ok n st c \<Longrightarrow> c' \<le> c \<Longrightarrow> depth_ok n st c'"
  by (cases "(n, st, c)" rule: depth_ok.cases) (auto intro: order_trans)

lemma depth_ok_pop: "depth_ok n ((b, f) # st) c \<Longrightarrow> depth_ok n st (f - b)"
  by (auto intro: depth_ok_mono)

lemma depth_ok_bound: "depth_ok n st c \<Longrightarrow> (c + 1) * 2 ^ length st \<le> n + 1"
proof (induction n st c rule: depth_ok.induct)
  case (2 n b f st c)
  then obtain m where m: "c \<le> m" "m \<le> f - b" "depth_ok n st (f - b + m + 1)" by auto
  have "(c + 1) * 2 ^ length ((b, f) # st) = 2 * (c + 1) * 2 ^ length st" by simp
  also have "\<dots> \<le> (f - b + m + 1 + 1) * 2 ^ length st" using m by (intro mult_right_mono) simp_all
  also have "\<dots> \<le> n + 1" by (rule "2.IH"[OF m(3)])
  finally show ?case .
qed simp

lemma depth_ok_room:
  assumes "depth_ok n st c" "n < 2 ^ 64" "3 \<le> c"
  shows "length st < QSORT_STACK_SIZE"
proof (rule ccontr)
  assume "\<not> ?thesis"
  then have "(2 :: nat) ^ 64 \<le> 2 ^ length st" by (intro power_increasing) (simp_all add: QSORT_STACK_SIZE_def)
  moreover have "4 * 2 ^ length st \<le> (c + 1) * 2 ^ length st" using assms(3) by (intro mult_right_mono) simp_all
  ultimately show False using depth_ok_bound[OF assms(1)] assms(2) by linarith
qed

lemma qsort_run_rec:
  assumes "depth_ok n st (fin - bgn)" "n < 2 ^ 64"
  shows "qsort_run cmp swp st bgn fin xs = Some (fold (\<lambda>(b, f). qsort_rec cmp swp b f) st (qsort_rec cmp swp bgn fin xs))"
  using assms(1)
proof (induction cmp swp st bgn fin xs rule: qsort_run.induct)
  case (1 cmp swp st bgn fin xs)
  note run = qsort_run.simps[of cmp swp st bgn fin xs]
  show ?case
  proof (cases "bgn + 1 < fin")
    case True
    obtain ys p where q: "qsort_partition cmp swp bgn fin xs = (ys, p)" by fastforce
    have p: "bgn \<le> p" "p < fin" using qsort_partition_bounds[OF True q] .
    note rec = qsort_rec.simps[of cmp swp bgn fin xs]
    show ?thesis
    proof (cases "p - bgn \<le> fin - 1 - p")
      case left: True
      show ?thesis
      proof (cases "p + 2 < fin")
        case push: True
        have "depth_ok n ((p + 1, fin) # st) (p - bgn)"
          using depth_ok_mono[OF "1.prems"] left p by (auto intro!: exI[of _ "p - bgn"])
        moreover have "length st < QSORT_STACK_SIZE"
          by (rule depth_ok_room[OF "1.prems" assms(2)]) (use left push p in simp)
        ultimately show ?thesis using "1.IH"(1)[OF True q[symmetric] left push] run rec True q left push by simp
      next
        case nopush: False
        have "depth_ok n st (p - bgn)" using depth_ok_mono[OF "1.prems"] p by simp
        then show ?thesis using "1.IH"(2)[OF True q[symmetric] left nopush] run rec True q left nopush
          by (simp add: qsort_rec_short)
      qed
    next
      case right: False
      show ?thesis
      proof (cases "bgn + 1 < p")
        case push: True
        have "depth_ok n ((bgn, p) # st) (fin - (p + 1))"
          using depth_ok_mono[OF "1.prems"] right p by (auto intro!: exI[of _ "fin - (p + 1)"])
        moreover have "length st < QSORT_STACK_SIZE"
          by (rule depth_ok_room[OF "1.prems" assms(2)]) (use right push p in simp)
        ultimately show ?thesis using "1.IH"(3)[OF True q[symmetric] right push] run rec True q right push by simp
      next
        case nopush: False
        have "depth_ok n st (fin - (p + 1))" using depth_ok_mono[OF "1.prems"] p by simp
        moreover have "qsort_rec cmp swp bgn fin xs = qsort_rec cmp swp (p + 1) fin ys"
          unfolding rec q using True right nopush by (simp only: qsort_rec_short if_True if_False prod.case)
        moreover have "qsort_run cmp swp st bgn fin xs = qsort_run cmp swp st (p + 1) fin ys"
          unfolding run q using True right nopush by (simp only: if_True if_False prod.case)
        ultimately show ?thesis using "1.IH"(4)[OF True q[symmetric] right nopush] by simp
      qed
    qed
  next
    case False
    show ?thesis
    proof (cases st)
      case Nil
      then show ?thesis using run False by (simp add: qsort_rec_short)
    next
      case (Cons s st')
      obtain b f where s: "s = (b, f)" by fastforce
      have "depth_ok n st' (f - b)" using "1.prems" Cons s depth_ok_pop by simp
      then show ?thesis using "1.IH"(5)[OF False Cons s[symmetric]] run False Cons s by (simp add: qsort_rec_short)
    qed
  qed
qed

context compare_order
begin

lemma qsort_exchange_ok:
  assumes "qsort_exchange cmp xswap bgn seg1 seg2 xs = (ys, k)" "bgn < seg1" "seg1 \<le> seg2 + 1" "seg2 < fin" "fin \<le> length xs"
    and "\<And>m. bgn < m \<Longrightarrow> m < seg1 \<Longrightarrow> le (xs ! m) (xs ! bgn)" "\<And>m. seg2 < m \<Longrightarrow> m < fin \<Longrightarrow> le (xs ! bgn) (xs ! m)"
  shows "rearr (Suc bgn) fin xs ys \<and> (\<forall>m. bgn < m \<and> m \<le> k \<longrightarrow> le (ys ! m) (xs ! bgn)) \<and> (\<forall>m. k < m \<and> m < fin \<longrightarrow> le (xs ! bgn) (ys ! m))"
  using assms
proof (induction "seg2 - seg1" arbitrary: seg1 seg2 xs rule: less_induct)
  case less
  define i j where "i = qscan_up cmp xs bgn seg1 seg2" and "j = qscan_down cmp xs bgn i seg2"
  have b: "seg1 \<le> i" "i \<le> seg2 + 1" "j \<le> seg2" "i \<le> j + 1"
    using qscan_up_bounds[where cmp = cmp and xs = xs and bgn = bgn and ?seg1.0 = seg1 and ?seg2.0 = seg2]
      qscan_down_bounds[where cmp = cmp and xs = xs and bgn = bgn and ?seg1.0 = i and ?seg2.0 = seg2] less.prems(3) by (auto simp: i_def j_def)
  note e = qsort_exchange.simps[of cmp xswap bgn seg1 seg2 xs, unfolded Let_def, folded i_def, folded j_def]
  have gtl: "gt_at cmp xs x y \<Longrightarrow> le (xs ! y) (xs ! x)" "\<not> gt_at cmp xs x y \<Longrightarrow> le (xs ! x) (xs ! y)" for x y
    using le_total by (simp_all add: gt_le)
  have low: "le (xs ! m) (xs ! bgn)" if "bgn < m" "m < i" for m
    using less.prems(6)[of m] gtl(1) qscan_up_stop(1)[of seg1 m cmp xs bgn seg2] that by (cases "m < seg1") (auto simp: i_def)
  have high: "le (xs ! bgn) (xs ! m)" if "j < m" "m < fin" for m
    using less.prems(7)[of m] gtl(1) qscan_down_stop(1)[of m seg2 cmp xs bgn i] that by (cases "seg2 < m") (auto simp: j_def)
  have at_j: "le (xs ! j) (xs ! bgn)" if "i \<le> j" using qscan_down_stop(2)[of i cmp xs bgn seg2] that b less.prems(2) gtl(2) by (auto simp: j_def)
  show ?case
  proof (cases "j \<le> i")
    case True
    then have "ys = xs" "k = j" using e less.prems(1) by auto
    moreover have "le (xs ! m) (xs ! bgn)" if "bgn < m" "m \<le> j" for m
    proof (cases "m < i")
      case False
      then have "m = j" "i \<le> j" using that True by simp_all
      then show ?thesis using at_j by simp
    qed (use low that in auto)
    ultimately show ?thesis using high by auto
  next
    case False
    define zs where "zs = swap_at xswap i j xs"
    have at_i: "le (xs ! bgn) (xs ! i)" using qscan_up_stop(2)[of cmp xs bgn seg1 seg2] False b gtl(2) by (auto simp: i_def)
    have ij: "bgn < i" "i < j" "j < fin" using False b less.prems(2,4) by auto
    have n: "zs ! m = (if m = j then xs ! i else if m = i then xs ! j else xs ! m)" for m
      unfolding zs_def using ij less.prems(5) by (intro nth_swap_at) auto
    have l: "length zs = length xs" by (simp add: zs_def)
    have r: "rearr (Suc bgn) fin xs zs" unfolding zs_def using ij less.prems(5) by (intro rearr_swap_at) auto
    have "qsort_exchange cmp xswap bgn (i + 1) (j - 1) zs = (ys, k)" using e less.prems(1) False by (simp add: zs_def)
    moreover have "le (zs ! m) (zs ! bgn)" if "bgn < m" "m < i + 1" for m using that n[of m] n[of bgn] low[of m] at_j ij by auto
    moreover have "le (zs ! bgn) (zs ! m)" if "j - 1 < m" "m < fin" for m using that n[of m] n[of bgn] high[of m] at_i ij by auto
    ultimately have "rearr (Suc bgn) fin zs ys \<and> (\<forall>m. bgn < m \<and> m \<le> k \<longrightarrow> le (ys ! m) (zs ! bgn)) \<and> (\<forall>m. k < m \<and> m < fin \<longrightarrow> le (zs ! bgn) (ys ! m))"
      using ij b less.prems(5) l by (intro less.hyps[of "j - 1" "i + 1"]) auto
    then show ?thesis using r rearr_trans n[of bgn] ij by auto
  qed
qed

lemma qsort_partition_ok:
  assumes "bgn + 1 < fin" "fin \<le> length xs" "qsort_partition cmp xswap bgn fin xs = (ys, p)"
  shows "rearr bgn fin xs ys" "parted bgn p fin ys"
proof -
  define z where "z = swap_at xswap bgn (bgn + (fin - 1 - bgn) div 2) xs"
  obtain w where w: "qsort_exchange cmp xswap bgn (bgn + 1) (fin - 1) z = (w, p)" "ys = swap_at xswap bgn p w"
    using assms(3) by (auto simp: qsort_partition_def z_def Let_def split: prod.splits)
  have z: "rearr bgn fin xs z" "length z = length xs" unfolding z_def using assms(1,2) by (auto intro!: rearr_swap_at)
  have x: "rearr (Suc bgn) fin z w" "\<And>m. bgn < m \<Longrightarrow> m \<le> p \<Longrightarrow> le (w ! m) (z ! bgn)" "\<And>m. p < m \<Longrightarrow> m < fin \<Longrightarrow> le (z ! bgn) (w ! m)"
    using qsort_exchange_ok[OF w(1), of fin] assms(1,2) z(2) by auto
  have p: "bgn \<le> p" "p < fin" using qsort_partition_bounds[OF assms(1,3)] .
  have lw: "length w = length xs" using rearr_length[OF x(1)] z(2) by simp
  have "rearr bgn fin w ys" unfolding w(2) using p assms(2) lw by (intro rearr_swap_at) auto
  then show "rearr bgn fin xs ys" using z(1) rearr_weaken[OF x(1), of bgn fin] rearr_trans by (metis le_SucI le_refl order_refl)
  have n: "ys ! m = (if m = p then w ! bgn else if m = bgn then w ! p else w ! m)" for m
    unfolding w(2) using p assms(2) lw by (intro nth_swap_at) auto
  have "w ! bgn = z ! bgn" using x(1) by (simp add: rearr_def)
  then show "parted bgn p fin ys" using n x(2,3) p by (auto simp: parted_def)
qed

lemma qsort_rec_ok:
  "fin \<le> length xs \<Longrightarrow> rearr bgn fin xs (qsort_rec cmp xswap bgn fin xs) \<and> seg_sorted bgn fin (qsort_rec cmp xswap bgn fin xs)"
proof (induction "fin - bgn" arbitrary: bgn fin xs rule: less_induct)
  case less
  note rec = qsort_rec.simps[of cmp xswap bgn fin xs]
  show ?case
  proof (cases "bgn + 1 < fin")
    case True
    obtain ys p where q: "qsort_partition cmp xswap bgn fin xs = (ys, p)" by fastforce
    have p: "bgn \<le> p" "p < fin" using qsort_partition_bounds[OF True q] .
    note po = qsort_partition_ok[OF True less.prems q]
    have ly: "length ys = length xs" using rearr_length[OF po(1)] .
    have left: "rearr bgn p zs (qsort_rec cmp xswap bgn p zs) \<and> seg_sorted bgn p (qsort_rec cmp xswap bgn p zs)" if "length zs = length xs" for zs
      using less.hyps[of p bgn zs] that p less.prems by simp
    have right: "rearr (Suc p) fin zs (qsort_rec cmp xswap (p + 1) fin zs) \<and> seg_sorted (Suc p) fin (qsort_rec cmp xswap (p + 1) fin zs)"
      if "length zs = length xs" for zs using less.hyps[of fin "p + 1" zs] that p less.prems by simp
    have len: "length (qsort_rec cmp xswap bgn p ys) = length xs" "length (qsort_rec cmp xswap (p + 1) fin ys) = length xs"
      using left[OF ly] right[OF ly] rearr_length ly by metis+
    have "fin \<le> length ys" using ly less.prems by simp
    note join = join_left_right[OF po(2) p this] join_right_left[OF po(2) p this]
    have "rearr bgn fin ys (qsort_rec cmp xswap bgn fin xs) \<and> seg_sorted bgn fin (qsort_rec cmp xswap bgn fin xs)"
    proof (cases "p - bgn \<le> fin - 1 - p")
      case small: True
      then have z: "qsort_rec cmp xswap bgn fin xs = qsort_rec cmp xswap (p + 1) fin (qsort_rec cmp xswap bgn p ys)" using rec True q by simp
      show ?thesis unfolding z using left[OF ly] right[OF len(1)] by (intro join(1)) auto
    next
      case large: False
      then have z: "qsort_rec cmp xswap bgn fin xs = qsort_rec cmp xswap bgn p (qsort_rec cmp xswap (p + 1) fin ys)" using rec True q by simp
      show ?thesis unfolding z using right[OF ly] left[OF len(2)] by (intro join(2)) auto
    qed
    then show ?thesis using rearr_trans[OF po(1)] by blast
  qed (simp add: qsort_rec_short seg_sorted_def)
qed

end

section \<open>Properties\<close>

text \<open>C10: \<open>zend_qsort\<close> returns for every array of less than \<open>2 ^ 64\<close> elements: its stack of 64 segments
  never overflows. For every comparison function that is a total preorder the result is the
  array in ascending order, with the elements behind \<open>nmemb\<close> in place.\<close>

theorem zend_qsort_sorts:
  assumes "\<And>x y. cmp x y > 0 \<Longrightarrow> \<not> cmp y x > 0" and "\<And>x y z. \<not> cmp x y > 0 \<Longrightarrow> \<not> cmp y z > 0 \<Longrightarrow> \<not> cmp x z > 0"
    and "n \<le> length xs" "n < 2 ^ 64"
  shows "\<exists>ys. zend_qsort cmp xswap n xs = Some ys \<and> sorted_wrt (\<lambda>x y. \<not> cmp x y > 0) (take n ys) \<and> mset ys = mset xs \<and> drop n ys = drop n xs"
proof -
  define ys where "ys = qsort_rec cmp xswap 0 n xs"
  have co: "compare_order cmp" using assms(1,2) by unfold_locales
  have "zend_qsort cmp xswap n xs = Some ys"
    using qsort_run_rec[of n "[]" n 0 cmp xswap xs] assms(4) by (simp add: zend_qsort_def ys_def)
  moreover have r: "rearr 0 n xs ys" and s: "compare_order.seg_sorted cmp 0 n ys"
    using compare_order.qsort_rec_ok[OF co assms(3), of 0] by (auto simp: ys_def)
  moreover have l: "length ys = length xs" using rearr_length[OF r] .
  moreover have "sorted_wrt (\<lambda>x y. \<not> cmp x y > 0) (take n ys)"
    using s l assms(3) by (auto simp: sorted_wrt_iff_nth_less compare_order.seg_sorted_def[OF co] compare_order.le_def[OF co])
  moreover have "drop n ys = drop n xs" using r l assms(3) by (auto simp: rearr_def intro!: nth_equalityI)
  ultimately show ?thesis by (simp add: rearr_def)
qed

theorem zend_qsort_sorts_witness:
  "\<exists>ys. zend_qsort (\<lambda>x y. x - y) xswap 4 [3, 1, 4, 2 :: int] = Some ys \<and> sorted_wrt (\<lambda>x y. \<not> x - y > 0) (take 4 ys)
    \<and> mset ys = mset [3, 1, 4, 2] \<and> drop 4 ys = drop 4 [3, 1, 4, 2]"
  using zend_qsort_sorts[of "\<lambda>x y. x - y" 4 "[3, 1, 4, 2 :: int]"] by simp

end
