(* ===== verification/ZendStack.thy ===== *)
theory ZendStack
  imports Prelude "HOL-Library.Word"
begin

text \<open>
  The two growable stacks of the engine: \<open>zend_stack\<close> (zend_stack.c, elements copied by
  value into one block of bytes) and \<open>zend_ptr_stack\<close> (zend_ptr_stack.c and its header,
  pointers, with a separate pointer to the first free cell). Both count in C integers of 32
  bits, grow by blocks, and check neither for overflow nor for underflow. An integer result
  outside the 32 bits and an access outside the block are the value \<open>None\<close>. The locale
  \<open>lifo\<close> states the contract of a stack of bounded capacity and is interpreted on both.
\<close>

section \<open>Integers and memory\<close>

text \<open>The result of an operation on C integers of 32 bits; an overflow is undefined.\<close>

definition int_result :: "int \<Rightarrow> int option" where
  "int_result x = (if - (2 ^ 31) \<le> x \<and> x < 2 ^ 31 then Some x else None)"

text \<open>A block of memory; a cell never written is \<open>None\<close>. The allocator is taken to succeed.\<close>

definition grow_cells :: "int \<Rightarrow> 'a option list \<Rightarrow> 'a option list" where
  "grow_cells n xs = take (nat n) xs @ replicate (nat n - length xs) None"

definition read_cells :: "int \<Rightarrow> nat \<Rightarrow> 'a option list \<Rightarrow> 'a list option" where
  "read_cells off n mem =
     (let cells = take n (drop (nat off) mem)
      in if 0 \<le> off \<and> nat off + n \<le> length mem \<and> list_all (\<lambda>c. c \<noteq> None) cells then Some (map the cells) else None)"

definition write_cells :: "int \<Rightarrow> 'a list \<Rightarrow> 'a option list \<Rightarrow> 'a option list option" where
  "write_cells off xs mem =
     (if 0 \<le> off \<and> nat off + length xs \<le> length mem
      then Some (take (nat off) mem @ map Some xs @ drop (nat off + length xs) mem) else None)"

section \<open>zend_stack\<close>

text \<open>
  \<open>st_elements\<close> is the allocated block of bytes (empty for \<open>NULL\<close>); an element is the list of
  its \<open>st_size\<close> bytes. A pointer into the block is its offset.
\<close>

type_synonym byte = "8 word"

record zend_stack =
  st_size :: int
  st_top :: int
  st_max :: int
  st_elements :: "byte option list"

definition STACK_BLOCK_SIZE :: int where "STACK_BLOCK_SIZE = 16"

definition ZEND_STACK_ELEMENT :: "zend_stack \<Rightarrow> int \<Rightarrow> int option" where
  "ZEND_STACK_ELEMENT s n = int_result (st_size s * n)"

definition zend_stack_init :: "int \<Rightarrow> zend_stack" where
  "zend_stack_init sz = \<lparr>st_size = sz, st_top = 0, st_max = 0, st_elements = []\<rparr>"

definition stack_grow :: "zend_stack \<Rightarrow> zend_stack option" where
  "stack_grow s =
     (if st_max s \<le> st_top s
      then map_option (\<lambda>m. s\<lparr>st_max := m, st_elements := grow_cells (st_size s * m) (st_elements s)\<rparr>)
             (int_result (st_max s + STACK_BLOCK_SIZE))
      else Some s)"

definition zend_stack_push :: "byte list \<Rightarrow> zend_stack \<Rightarrow> (zend_stack \<times> int) option" where
  "zend_stack_push element s =
     Option.bind (stack_grow s) (\<lambda>s.
     Option.bind (ZEND_STACK_ELEMENT s (st_top s)) (\<lambda>off.
     Option.bind (write_cells off (take (nat (st_size s)) element) (st_elements s)) (\<lambda>mem.
     map_option (\<lambda>t. (s\<lparr>st_elements := mem, st_top := t\<rparr>, st_top s)) (int_result (st_top s + 1)))))"

text \<open>The pointer to the top: \<open>Some None\<close> is \<open>NULL\<close>.\<close>

definition zend_stack_top :: "zend_stack \<Rightarrow> int option option" where
  "zend_stack_top s =
     (if 0 < st_top s then map_option Some (ZEND_STACK_ELEMENT s (st_top s - 1)) else Some None)"

definition zend_stack_del_top :: "zend_stack \<Rightarrow> zend_stack option" where
  "zend_stack_del_top s = map_option (\<lambda>t. s\<lparr>st_top := t\<rparr>) (int_result (st_top s - 1))"

text \<open>The top read as an integer of four bytes, low byte first, or \<open>FAILURE\<close>, which is -1.\<close>

definition zend_stack_int_top :: "zend_stack \<Rightarrow> int option" where
  "zend_stack_int_top s =
     Option.bind (zend_stack_top s) (\<lambda>e.
       case e of None \<Rightarrow> Some (- 1)
       | Some off \<Rightarrow> map_option (\<lambda>bs. sint (word_rcat (rev bs) :: 32 word)) (read_cells off 4 (st_elements s)))"

definition zend_stack_is_empty :: "zend_stack \<Rightarrow> bool" where
  "zend_stack_is_empty s \<longleftrightarrow> st_top s = 0"

definition zend_stack_destroy :: "zend_stack \<Rightarrow> zend_stack" where
  "zend_stack_destroy s = s\<lparr>st_elements := []\<rparr>"

definition zend_stack_base :: "zend_stack \<Rightarrow> byte option list" where
  "zend_stack_base s = st_elements s"

definition zend_stack_count :: "zend_stack \<Rightarrow> int" where
  "zend_stack_count s = st_top s"

datatype apply_type = ZEND_STACK_APPLY_TOPDOWN | ZEND_STACK_APPLY_BOTTOMUP

text \<open>
  A callback may change the element it is given and the state \<open>'s\<close> outside the stack; a
  true result ends the loop.
\<close>

fun apply_elements ::
  "('s \<Rightarrow> byte list \<Rightarrow> 's \<times> byte list \<times> bool) \<Rightarrow> int list \<Rightarrow> 's \<Rightarrow> zend_stack \<Rightarrow> ('s \<times> zend_stack) option" where
  "apply_elements f [] s stk = Some (s, stk)"
| "apply_elements f (i # is) s stk =
     Option.bind (ZEND_STACK_ELEMENT stk i) (\<lambda>off.
     Option.bind (read_cells off (nat (st_size stk)) (st_elements stk)) (\<lambda>x.
     case f s x of (s', x', stop) \<Rightarrow>
       Option.bind (write_cells off x' (st_elements stk)) (\<lambda>mem.
       if stop then Some (s', stk\<lparr>st_elements := mem\<rparr>) else apply_elements f is s' (stk\<lparr>st_elements := mem\<rparr>))))"

definition zend_stack_apply ::
  "apply_type \<Rightarrow> ('s \<Rightarrow> byte list \<Rightarrow> 's \<times> byte list \<times> bool) \<Rightarrow> 's \<Rightarrow> zend_stack \<Rightarrow> ('s \<times> zend_stack) option" where
  "zend_stack_apply type f s stk =
     apply_elements f (case type of ZEND_STACK_APPLY_TOPDOWN \<Rightarrow> rev [0..st_top stk - 1]
                       | ZEND_STACK_APPLY_BOTTOMUP \<Rightarrow> [0..st_top stk - 1]) s stk"

definition zend_stack_apply_with_argument ::
  "apply_type \<Rightarrow> ('s \<Rightarrow> byte list \<Rightarrow> 'b \<Rightarrow> 's \<times> byte list \<times> bool) \<Rightarrow> 'b \<Rightarrow> 's \<Rightarrow> zend_stack \<Rightarrow> ('s \<times> zend_stack) option" where
  "zend_stack_apply_with_argument type f arg s stk = zend_stack_apply type (\<lambda>s x. f s x arg) s stk"

definition zend_stack_clean ::
  "('s \<Rightarrow> byte list \<Rightarrow> 's \<times> byte list) option \<Rightarrow> bool \<Rightarrow> 's \<Rightarrow> zend_stack \<Rightarrow> ('s \<times> zend_stack) option" where
  "zend_stack_clean func free_elements s stk =
     Option.bind (case func of None \<Rightarrow> Some (s, stk)
          | Some f \<Rightarrow> apply_elements (\<lambda>s x. case f s x of (s', x') \<Rightarrow> (s', x', False)) [0..st_top stk - 1] s stk)
       (\<lambda>(s, stk). Some (s, if free_elements then stk\<lparr>st_elements := [], st_top := 0, st_max := 0\<rparr> else stk))"

section \<open>zend_ptr_stack\<close>

text \<open>\<open>ps_top_element\<close> is the pointer to the first free cell, as an index into the array.\<close>

record 'a zend_ptr_stack =
  ps_top :: int
  ps_max :: int
  ps_elements :: "'a option list"
  ps_top_element :: int
  ps_persistent :: bool

definition PTR_STACK_BLOCK_SIZE :: int where "PTR_STACK_BLOCK_SIZE = 64"

definition zend_ptr_stack_init_ex :: "bool \<Rightarrow> 'a zend_ptr_stack" where
  "zend_ptr_stack_init_ex persistent =
     \<lparr>ps_top = 0, ps_max = 0, ps_elements = [], ps_top_element = 0, ps_persistent = persistent\<rparr>"

definition zend_ptr_stack_init :: "'a zend_ptr_stack" where
  "zend_ptr_stack_init = zend_ptr_stack_init_ex False"

function grow_max :: "int \<Rightarrow> int \<Rightarrow> int option" where
  "grow_max need mx =
     (case int_result (mx + PTR_STACK_BLOCK_SIZE) of None \<Rightarrow> None
      | Some m \<Rightarrow> if m < need then grow_max need m else Some m)"
  by pat_completeness auto
termination
  by (relation "measure (\<lambda>(need, mx). nat (need - mx))") (auto simp: PTR_STACK_BLOCK_SIZE_def int_result_def split: if_splits)

declare grow_max.simps [simp del]

definition ZEND_PTR_STACK_RESIZE_IF_NEEDED :: "int \<Rightarrow> 'a zend_ptr_stack \<Rightarrow> 'a zend_ptr_stack option" where
  "ZEND_PTR_STACK_RESIZE_IF_NEEDED count s =
     Option.bind (int_result (ps_top s + count)) (\<lambda>need.
       if ps_max s < need then
         map_option (\<lambda>m. s\<lparr>ps_max := m, ps_elements := grow_cells m (ps_elements s), ps_top_element := ps_top s\<rparr>)
           (grow_max need (ps_max s))
       else Some s)"

definition store_top :: "'a \<Rightarrow> 'a zend_ptr_stack \<Rightarrow> 'a zend_ptr_stack option" where
  "store_top x s =
     Option.bind (int_result (ps_top s + 1)) (\<lambda>t.
     map_option (\<lambda>mem. s\<lparr>ps_elements := mem, ps_top_element := ps_top_element s + 1, ps_top := t\<rparr>)
       (write_cells (ps_top_element s) [x] (ps_elements s)))"

fun store_all :: "'a list \<Rightarrow> 'a zend_ptr_stack \<Rightarrow> 'a zend_ptr_stack option" where
  "store_all [] s = Some s"
| "store_all (x # xs) s = Option.bind (store_top x s) (store_all xs)"

definition zend_ptr_stack_n_push :: "'a list \<Rightarrow> 'a zend_ptr_stack \<Rightarrow> 'a zend_ptr_stack option" where
  "zend_ptr_stack_n_push xs s = Option.bind (ZEND_PTR_STACK_RESIZE_IF_NEEDED (int (length xs)) s) (store_all xs)"

definition zend_ptr_stack_push :: "'a \<Rightarrow> 'a zend_ptr_stack \<Rightarrow> 'a zend_ptr_stack option" where
  "zend_ptr_stack_push x s = Option.bind (ZEND_PTR_STACK_RESIZE_IF_NEEDED 1 s) (store_top x)"

definition zend_ptr_stack_pop :: "'a zend_ptr_stack \<Rightarrow> ('a zend_ptr_stack \<times> 'a) option" where
  "zend_ptr_stack_pop s =
     Option.bind (int_result (ps_top s - 1)) (\<lambda>t.
     map_option (\<lambda>xs. (s\<lparr>ps_top := t, ps_top_element := ps_top_element s - 1\<rparr>, hd xs))
       (read_cells (ps_top_element s - 1) 1 (ps_elements s)))"

fun zend_ptr_stack_n_pop :: "nat \<Rightarrow> 'a zend_ptr_stack \<Rightarrow> ('a zend_ptr_stack \<times> 'a list) option" where
  "zend_ptr_stack_n_pop 0 s = Some (s, [])"
| "zend_ptr_stack_n_pop (Suc count) s =
     Option.bind (zend_ptr_stack_pop s) (\<lambda>(s', x).
       map_option (\<lambda>(s'', xs). (s'', x # xs)) (zend_ptr_stack_n_pop count s'))"

definition zend_ptr_stack_top :: "'a zend_ptr_stack \<Rightarrow> 'a option" where
  "zend_ptr_stack_top s = map_option hd (read_cells (ps_top s - 1) 1 (ps_elements s))"

definition zend_ptr_stack_destroy :: "'a zend_ptr_stack \<Rightarrow> 'a zend_ptr_stack" where
  "zend_ptr_stack_destroy s = s\<lparr>ps_elements := []\<rparr>"

fun apply_cells :: "('s \<Rightarrow> 'a \<Rightarrow> 's) \<Rightarrow> int list \<Rightarrow> 's \<Rightarrow> 'a option list \<Rightarrow> 's option" where
  "apply_cells f [] s xs = Some s"
| "apply_cells f (i # is) s xs = Option.bind (read_cells i 1 xs) (\<lambda>x. apply_cells f is (f s (hd x)) xs)"

definition zend_ptr_stack_apply :: "('s \<Rightarrow> 'a \<Rightarrow> 's) \<Rightarrow> 's \<Rightarrow> 'a zend_ptr_stack \<Rightarrow> 's option" where
  "zend_ptr_stack_apply f s stk = apply_cells f (rev [0..ps_top stk - 1]) s (ps_elements stk)"

definition zend_ptr_stack_reverse_apply :: "('s \<Rightarrow> 'a \<Rightarrow> 's) \<Rightarrow> 's \<Rightarrow> 'a zend_ptr_stack \<Rightarrow> 's option" where
  "zend_ptr_stack_reverse_apply f s stk = apply_cells f [0..ps_top stk - 1] s (ps_elements stk)"

text \<open>Freeing the elements is one more pass over them from the top, here the function \<open>free\<close>.\<close>

definition zend_ptr_stack_clean ::
  "('s \<Rightarrow> 'a \<Rightarrow> 's) \<Rightarrow> ('s \<Rightarrow> 'a \<Rightarrow> 's) \<Rightarrow> bool \<Rightarrow> 's \<Rightarrow> 'a zend_ptr_stack \<Rightarrow> ('s \<times> 'a zend_ptr_stack) option" where
  "zend_ptr_stack_clean func free free_elements s stk =
     Option.bind (zend_ptr_stack_apply func s stk) (\<lambda>s.
     map_option (\<lambda>s. (s, stk\<lparr>ps_top := 0, ps_top_element := 0\<rparr>))
       (if free_elements then zend_ptr_stack_apply free s stk else Some s))"

definition zend_ptr_stack_num_elements :: "'a zend_ptr_stack \<Rightarrow> int" where
  "zend_ptr_stack_num_elements s = ps_top s"

section \<open>The contract of a stack\<close>

text \<open>
  \<open>cap\<close> is the number of elements the stack can hold, \<open>elem\<close> the values it can store.
\<close>

locale lifo =
  fixes inv :: "'s \<Rightarrow> bool" and view :: "'s \<Rightarrow> 'a list" and cap :: "'s \<Rightarrow> nat" and elem :: "'s \<Rightarrow> 'a \<Rightarrow> bool"
    and push :: "'a \<Rightarrow> 's \<Rightarrow> 's option" and peek :: "'s \<Rightarrow> 'a option" and drop_top :: "'s \<Rightarrow> 's option"
  assumes push_view: "inv s \<Longrightarrow> elem s x \<Longrightarrow> length (view s) < cap s \<Longrightarrow>
      \<exists>s'. push x s = Some s' \<and> inv s' \<and> view s' = view s @ [x] \<and> cap s' = cap s \<and> elem s' = elem s"
    and push_full: "inv s \<Longrightarrow> cap s \<le> length (view s) \<Longrightarrow> push x s = None"
    and peek_view: "inv s \<Longrightarrow> peek s = (if view s = [] then None else Some (last (view s)))"
    and drop_view: "inv s \<Longrightarrow> view s \<noteq> [] \<Longrightarrow> \<exists>s'. drop_top s = Some s' \<and> inv s' \<and> view s' = butlast (view s)"
begin

fun push_all :: "'a list \<Rightarrow> 's \<Rightarrow> 's option" where
  "push_all [] s = Some s"
| "push_all (x # xs) s = Option.bind (push x s) (push_all xs)"

fun pop_n :: "nat \<Rightarrow> 's \<Rightarrow> ('a list \<times> 's) option" where
  "pop_n 0 s = Some ([], s)"
| "pop_n (Suc n) s = Option.bind (peek s) (\<lambda>x. Option.bind (drop_top s) (\<lambda>s'. map_option (apfst ((#) x)) (pop_n n s')))"

lemma push_all_view:
  "inv s \<Longrightarrow> list_all (elem s) xs \<Longrightarrow> length (view s) + length xs \<le> cap s \<Longrightarrow>
     \<exists>s'. push_all xs s = Some s' \<and> inv s' \<and> view s' = view s @ xs"
proof (induction xs arbitrary: s)
  case (Cons x xs)
  then obtain s1 where s1: "push x s = Some s1" "inv s1" "view s1 = view s @ [x]" "cap s1 = cap s" "elem s1 = elem s"
    using push_view[of s x] by auto
  then obtain s2 where "push_all xs s1 = Some s2" "inv s2" "view s2 = view s1 @ xs" using Cons.IH[of s1] Cons.prems by auto
  then show ?case using s1 by simp
qed simp

lemma push_all_full:
  "inv s \<Longrightarrow> list_all (elem s) xs \<Longrightarrow> length (view s) \<le> cap s \<Longrightarrow> cap s < length (view s) + length xs \<Longrightarrow> push_all xs s = None"
proof (induction xs arbitrary: s)
  case (Cons x xs)
  show ?case
  proof (cases "length (view s) < cap s")
    case True
    then obtain s1 where s1: "push x s = Some s1" "inv s1" "view s1 = view s @ [x]" "cap s1 = cap s" "elem s1 = elem s"
      using push_view[of s x] Cons.prems by auto
    then show ?thesis using Cons.IH[of s1] Cons.prems True by auto
  qed (use push_full[of s x] Cons.prems in simp)
qed simp

lemma pop_n_view:
  "inv s \<Longrightarrow> view s = ys @ zs \<Longrightarrow> length zs = n \<Longrightarrow> \<exists>s'. pop_n n s = Some (rev zs, s') \<and> inv s' \<and> view s' = ys"
proof (induction n arbitrary: s zs)
  case (Suc n)
  then obtain x zs' where zs: "zs = zs' @ [x]" by (cases zs rule: rev_cases) auto
  have p: "peek s = Some x" using Suc.prems zs peek_view by simp
  obtain t where d: "drop_top s = Some t" "inv t" "view t = ys @ zs'"
    using drop_view[of s] Suc.prems zs by (auto simp: butlast_append)
  then show ?case using Suc.IH[OF d(2,3)] Suc.prems zs p by auto
qed simp

lemma push_pop_lifo:
  assumes "inv s" "list_all (elem s) xs" "length (view s) + length xs \<le> cap s"
  shows "\<exists>s' s''. push_all xs s = Some s' \<and> inv s' \<and> view s' = view s @ xs
     \<and> pop_n (length xs) s' = Some (rev xs, s'') \<and> inv s'' \<and> view s'' = view s"
  using push_all_view[OF assms] pop_n_view[of _ "view s" xs] by blast

end

section \<open>Blocks of memory\<close>

definition filled :: "nat \<Rightarrow> 'a option list \<Rightarrow> bool" where
  "filled n mem \<longleftrightarrow> n \<le> length mem \<and> list_all (\<lambda>c. c \<noteq> None) (take n mem)"

lemma filled_read:
  assumes "filled n mem" "off + k \<le> n"
  shows "read_cells (int off) k mem = Some (map the (take k (drop off mem)))"
proof -
  have "take k (drop off mem) = take k (drop off (take n mem))" using assms(2) by (simp add: drop_take min_def)
  then have "set (take k (drop off mem)) \<subseteq> set (take n mem)" using set_take_subset set_drop_subset by (metis subset_trans)
  then show ?thesis using assms by (auto simp: read_cells_def filled_def list_all_iff Let_def)
qed

lemma filled_write:
  assumes "filled n mem" "n + length xs \<le> length mem"
  shows "\<exists>mem'. write_cells (int n) xs mem = Some mem' \<and> length mem' = length mem
     \<and> filled (n + length xs) mem' \<and> take (n + length xs) mem' = take n mem @ map Some xs"
  using assms by (auto simp: write_cells_def filled_def list_all_iff)

lemma write_read_same:
  assumes "read_cells off k mem = Some xs"
  shows "write_cells off xs mem = Some mem"
proof -
  define cells where "cells = take k (drop (nat off) mem)"
  have r: "0 \<le> off" "nat off + k \<le> length mem" "list_all (\<lambda>c. c \<noteq> None) cells" "xs = map the cells"
    using assms by (auto simp: read_cells_def cells_def Let_def split: if_splits)
  have "map (Some \<circ> the) cells = map id cells" using r(3) by (intro map_cong) (auto simp: list_all_iff)
  moreover have "length cells = k" using r(2) by (simp add: cells_def)
  moreover have "take (nat off) mem @ cells @ drop (nat off + k) mem = mem"
    unfolding cells_def by (metis add.commute append_take_drop_id drop_drop)
  ultimately show ?thesis using r by (simp add: write_cells_def)
qed

lemma filled_grow:
  assumes "filled n mem" "length mem \<le> nat m"
  shows "filled n (grow_cells m mem)" "take n (grow_cells m mem) = take n mem" "length (grow_cells m mem) = nat m"
  using assms by (auto simp: filled_def grow_cells_def)

lemma filled_mono: "filled n mem \<Longrightarrow> m \<le> n \<Longrightarrow> filled m mem"
  by (auto simp: filled_def list_all_iff dest: set_take_subset_set_take[THEN subsetD])

lemma int_result_nonneg: "0 \<le> x \<Longrightarrow> x < 2 ^ 31 \<Longrightarrow> int_result x = Some x"
  by (simp add: int_result_def)

section \<open>zend_stack implements the contract\<close>

text \<open>The first \<open>n\<close> elements of \<open>sz\<close> bytes.\<close>

definition chunks :: "nat \<Rightarrow> nat \<Rightarrow> 'a option list \<Rightarrow> 'a list list" where
  "chunks sz n mem = map (\<lambda>i. map the (take sz (drop (sz * i) mem))) [0..<n]"

lemma chunk_room: "i < n \<Longrightarrow> sz * i + sz \<le> sz * (n :: nat)"
  using mult_le_mono2[of "Suc i" n sz] by simp

lemma chunk_take: "i < n \<Longrightarrow> take sz (drop (sz * i) (take (sz * n) mem)) = take sz (drop (sz * i) mem)"
  using chunk_room[of i n sz] by (simp add: drop_take min_def)

lemma chunks_take: "chunks sz n (take (sz * n) mem) = chunks sz n mem"
  unfolding chunks_def by (intro map_cong refl arg_cong[of _ _ "map the"]) (simp add: chunk_take)

lemma chunks_cong: "take (sz * n) a = take (sz * n) b \<Longrightarrow> chunks sz n a = chunks sz n b"
  by (metis chunks_take)

lemma chunks_Suc: "chunks sz (Suc n) mem = chunks sz n mem @ [map the (take sz (drop (sz * n) mem))]"
  by (simp add: chunks_def)

text \<open>
  The largest number of elements: the offset of the last one and the next size of the block
  are still integers of 32 bits.
\<close>

definition stack_capacity :: "zend_stack \<Rightarrow> nat" where
  "stack_capacity s = min (2 ^ 31 - 16) ((2 ^ 31 - 1) div nat (st_size s) + 1)"

definition stack_inv :: "zend_stack \<Rightarrow> bool" where
  "stack_inv s \<longleftrightarrow> 0 < st_size s \<and> st_size s < 2 ^ 31 \<and> 0 \<le> st_top s \<and> st_top s \<le> st_max s
     \<and> st_max s < 2 ^ 31 \<and> STACK_BLOCK_SIZE dvd st_max s \<and> st_top s \<le> int (stack_capacity s)
     \<and> length (st_elements s) = nat (st_size s) * nat (st_max s)
     \<and> filled (nat (st_size s) * nat (st_top s)) (st_elements s)"

definition stack_view :: "zend_stack \<Rightarrow> byte list list" where
  "stack_view s = chunks (nat (st_size s)) (nat (st_top s)) (st_elements s)"

definition stack_elem :: "zend_stack \<Rightarrow> byte list \<Rightarrow> bool" where
  "stack_elem s x \<longleftrightarrow> length x = nat (st_size s)"

text \<open>The element under the pointer that \<open>zend_stack_top\<close> returns.\<close>

definition stack_peek :: "zend_stack \<Rightarrow> byte list option" where
  "stack_peek s = Option.bind (zend_stack_top s) (\<lambda>e. Option.bind e (\<lambda>off. read_cells off (nat (st_size s)) (st_elements s)))"

lemma length_stack_view: "stack_inv s \<Longrightarrow> int (length (stack_view s)) = st_top s"
  by (simp add: stack_inv_def stack_view_def chunks_def)

lemma capacity_iff:
  assumes "0 < st_size s"
  shows "n < stack_capacity s \<longleftrightarrow> int n < 2 ^ 31 - 16 \<and> st_size s * int n < 2 ^ 31"
proof -
  define sz where "sz = nat (st_size s)"
  have sz: "st_size s = int sz" "0 < sz" using assms by (simp_all add: sz_def)
  have "st_size s * int n < 2 ^ 31 \<longleftrightarrow> sz * n \<le> 2 ^ 31 - 1"
    unfolding sz(1) of_nat_mult[symmetric] using of_nat_less_iff[of "sz * n" "2 ^ 31", where 'a = int] by auto
  also have "\<dots> \<longleftrightarrow> n \<le> (2 ^ 31 - 1) div sz" using less_eq_div_iff_mult_less_eq[OF sz(2)] by (simp add: mult.commute)
  finally show ?thesis unfolding stack_capacity_def sz_def[symmetric] by (simp add: less_Suc_eq_le) linarith
qed

lemma element_offset:
  assumes "stack_inv s" "0 \<le> i" "i < st_top s"
  shows "ZEND_STACK_ELEMENT s i = Some (int (nat (st_size s) * nat i))"
proof -
  have i: "0 < st_size s" "nat i < stack_capacity s" using assms by (auto simp: stack_inv_def)
  then have "st_size s * i < 2 ^ 31" using capacity_iff[OF i(1), of "nat i"] assms(2) by simp
  moreover have "0 \<le> st_size s * i" using i(1) assms(2) by simp
  ultimately show ?thesis using i(1) assms(2) by (simp add: ZEND_STACK_ELEMENT_def int_result_nonneg)
qed

lemma element_read:
  assumes "stack_inv s" "0 \<le> i" "i < st_top s"
  shows "read_cells (int (nat (st_size s) * nat i)) (nat (st_size s)) (st_elements s) = Some (stack_view s ! nat i)"
proof -
  have "nat i < nat (st_top s)" using assms by simp
  then show ?thesis unfolding stack_view_def chunks_def
    using filled_read[OF _ chunk_room, of "nat (st_size s)" "nat (st_top s)" "st_elements s" "nat i"] assms(1)
    unfolding stack_inv_def by (simp del: of_nat_mult)
qed

lemma stack_grow_spec:
  assumes "stack_inv s" "length (stack_view s) < stack_capacity s"
  shows "\<exists>s1. stack_grow s = Some s1 \<and> stack_inv s1 \<and> st_top s1 < st_max s1 \<and> st_top s1 = st_top s
     \<and> st_size s1 = st_size s \<and> stack_view s1 = stack_view s"
proof (cases "st_max s \<le> st_top s")
  case True
  define m where "m = st_max s + 16"
  have i: "0 < st_size s" "0 \<le> st_top s" "st_max s = st_top s" "16 dvd st_max s" "st_top s \<le> int (stack_capacity s)"
    "length (st_elements s) = nat (st_size s) * nat (st_max s)" "filled (nat (st_size s) * nat (st_top s)) (st_elements s)"
    using assms(1) True by (auto simp: stack_inv_def STACK_BLOCK_SIZE_def)
  have m: "m < 2 ^ 31" "16 dvd m" "0 \<le> m" "st_top s < m"
    using assms(2) capacity_iff[OF i(1), of "length (stack_view s)"] length_stack_view[OF assms(1)] i(2-4)
    by (auto simp: m_def)
  have e: "nat (st_size s * m) = nat (st_size s) * nat m" using i(1) by (simp add: nat_mult_distrib)
  then have "length (st_elements s) \<le> nat (st_size s * m)" unfolding i(6) e using i(3) m(4) by (intro mult_le_mono2) simp
  note g = filled_grow[OF i(7) this]
  define s1 where "s1 = s\<lparr>st_max := m, st_elements := grow_cells (st_size s * m) (st_elements s)\<rparr>"
  have "stack_view s1 = stack_view s" unfolding stack_view_def s1_def using chunks_cong[OF g(2)] by simp
  moreover have "stack_inv s1"
    using assms(1) m g e by (auto simp: stack_inv_def s1_def STACK_BLOCK_SIZE_def stack_capacity_def)
  moreover have "stack_grow s = Some s1"
    using True m by (simp add: stack_grow_def s1_def m_def int_result_def STACK_BLOCK_SIZE_def)
  ultimately show ?thesis using m by (auto simp: s1_def)
qed (use assms in \<open>auto simp: stack_grow_def\<close>)

lemma stack_push_spec:
  assumes "stack_inv s" "stack_elem s x" "length (stack_view s) < stack_capacity s"
  shows "\<exists>s'. zend_stack_push x s = Some (s', st_top s) \<and> stack_inv s' \<and> stack_view s' = stack_view s @ [x] \<and> st_size s' = st_size s"
proof -
  obtain s1 where s1: "stack_grow s = Some s1" "stack_inv s1" "st_top s1 < st_max s1" "st_top s1 = st_top s" "st_size s1 = st_size s"
      "stack_view s1 = stack_view s" using stack_grow_spec[OF assms(1,3)] by blast
  define sz n where "sz = nat (st_size s1)" and "n = nat (st_top s1)"
  have i: "0 < sz" "st_size s1 = int sz" "st_top s1 = int n" "n < nat (st_max s1)" "length (st_elements s1) = sz * nat (st_max s1)"
      "filled (sz * n) (st_elements s1)"
    using s1(2,3) by (auto simp: stack_inv_def sz_def n_def)
  have x: "length x = sz" using assms(2) s1(5) by (simp add: stack_elem_def sz_def)
  have cap: "n < stack_capacity s1" "int (n + 1) < 2 ^ 31" "int (sz * n) < 2 ^ 31"
    using assms(3) capacity_iff[of s1 n] length_stack_view[OF s1(2)] s1(5,6) i by (auto simp: stack_capacity_def)
  have "sz * n + length x \<le> length (st_elements s1)" using chunk_room[OF i(4), of sz] x i(5) by simp
  from filled_write[OF i(6) this] obtain mem where mem: "write_cells (int (sz * n)) x (st_elements s1) = Some mem"
      "length mem = length (st_elements s1)" "filled (sz * n + sz) mem" "take (sz * n + sz) mem = take (sz * n) (st_elements s1) @ map Some x"
    using x by auto
  define s' where "s' = s1\<lparr>st_elements := mem, st_top := int (n + 1)\<rparr>"
  have "ZEND_STACK_ELEMENT s1 (st_top s1) = Some (int (sz * n))" "int_result (st_top s1 + 1) = Some (int (n + 1))"
    using cap i by (simp_all add: ZEND_STACK_ELEMENT_def int_result_nonneg)
  then have "zend_stack_push x s = Some (s', st_top s)"
    using s1(1,4) i x mem(1) by (simp add: zend_stack_push_def s'_def)
  moreover have "stack_inv s'"
  proof -
    have "sz * nat (st_top s') = sz * n + sz" "st_top s' \<le> int (stack_capacity s')" "st_top s' \<le> st_max s'" "0 \<le> st_top s'"
      using cap(1) s1(3) i(3) by (auto simp: s'_def nat_add_distrib stack_capacity_def)
    then show ?thesis using s1(2) mem(2,3) i(2) by (simp add: stack_inv_def s'_def)
  qed
  moreover have "stack_view s' = stack_view s1 @ [x]"
  proof -
    have len: "length (take (sz * n) (st_elements s1)) = sz * n" using i(6) by (simp add: filled_def)
    have "take (sz * n) mem = take (sz * n) (take (sz * n + sz) mem)" by simp
    then have "take (sz * n) mem = take (sz * n) (st_elements s1)" using mem(4) len by simp
    moreover have "take sz (drop (sz * n) mem) = drop (sz * n) (take (sz * n + sz) mem)" by (simp add: drop_take)
    then have "take sz (drop (sz * n) mem) = map Some x" using mem(4) len by simp
    ultimately show ?thesis using chunks_cong[of sz n mem "st_elements s1"] i(2,3)
      by (simp add: stack_view_def s'_def nat_add_distrib chunks_Suc comp_def)
  qed
  ultimately show ?thesis using s1(5,6) by (auto simp: s'_def)
qed

lemma stack_push_full:
  assumes "stack_inv s" "stack_capacity s \<le> length (stack_view s)"
  shows "zend_stack_push x s = None"
proof (rule ccontr)
  assume "zend_stack_push x s \<noteq> None"
  then obtain s1 where g: "stack_grow s = Some s1" "st_size s1 * st_top s1 < 2 ^ 31"
    by (auto simp: zend_stack_push_def ZEND_STACK_ELEMENT_def int_result_def bind_eq_Some_conv split: if_splits)
  have i: "0 < st_size s" "0 \<le> st_top s" "st_top s \<le> st_max s" "16 dvd st_max s" "st_max s < 2 ^ 31"
    using assms(1) by (auto simp: stack_inv_def STACK_BLOCK_SIZE_def)
  have "\<not> (st_top s < 2 ^ 31 - 16 \<and> st_size s * st_top s < 2 ^ 31)"
    using capacity_iff[OF i(1), of "length (stack_view s)"] length_stack_view[OF assms(1)] assms(2) by auto
  moreover have "st_size s1 = st_size s" "st_top s1 = st_top s" using g(1) by (auto simp: stack_grow_def split: if_splits)
  ultimately have "2 ^ 31 - 16 \<le> st_top s" using g(2) by auto
  moreover have "st_max s \<le> 2 ^ 31 - 16" using i(4,5) by (auto elim!: dvdE)
  ultimately show False using g(1) i(3) by (auto simp: stack_grow_def int_result_def STACK_BLOCK_SIZE_def split: if_splits)
qed

lemma stack_peek_spec:
  assumes "stack_inv s"
  shows "stack_peek s = (if stack_view s = [] then None else Some (last (stack_view s)))"
proof (cases "0 < st_top s")
  case True
  have "length (stack_view s) - 1 = nat (st_top s - 1)" "stack_view s \<noteq> []" using length_stack_view[OF assms] True by auto
  then have "stack_view s \<noteq> []" "last (stack_view s) = stack_view s ! nat (st_top s - 1)" by (simp_all add: last_conv_nth)
  then show ?thesis using element_offset[OF assms, of "st_top s - 1"] element_read[OF assms, of "st_top s - 1"] True
    by (simp add: stack_peek_def zend_stack_top_def)
next
  case False
  then have "length (stack_view s) = 0" using length_stack_view[OF assms] by linarith
  then have "stack_view s = []" by simp
  then show ?thesis using False by (simp add: stack_peek_def zend_stack_top_def)
qed

lemma stack_del_top_spec:
  assumes "stack_inv s" "stack_view s \<noteq> []"
  shows "\<exists>s'. zend_stack_del_top s = Some s' \<and> stack_inv s' \<and> stack_view s' = butlast (stack_view s)"
proof -
  define n where "n = nat (st_top s - 1)"
  have "0 < st_top s" using length_stack_view[OF assms(1)] assms(2) by (cases "stack_view s") auto
  then have n: "st_top s = int n + 1" "nat (st_top s) = Suc n" "st_top s < 2 ^ 31" using assms(1) by (auto simp: n_def stack_inv_def)
  then have "zend_stack_del_top s = Some (s\<lparr>st_top := int n\<rparr>)" by (simp add: zend_stack_del_top_def int_result_nonneg)
  moreover have "stack_inv (s\<lparr>st_top := int n\<rparr>)"
    using assms(1) n by (auto simp: stack_inv_def stack_capacity_def intro: filled_mono)
  moreover have "stack_view (s\<lparr>st_top := int n\<rparr>) = butlast (stack_view s)" using n(2) by (simp add: stack_view_def chunks_Suc)
  ultimately show ?thesis by blast
qed

interpretation zstack: lifo stack_inv stack_view stack_capacity stack_elem "\<lambda>x s. map_option fst (zend_stack_push x s)"
  stack_peek zend_stack_del_top
proof unfold_locales
  fix s x
  show "\<exists>s'. map_option fst (zend_stack_push x s) = Some s' \<and> stack_inv s' \<and> stack_view s' = stack_view s @ [x]
      \<and> stack_capacity s' = stack_capacity s \<and> stack_elem s' = stack_elem s"
    if "stack_inv s" "stack_elem s x" "length (stack_view s) < stack_capacity s"
    using stack_push_spec[OF that] by (auto simp: stack_capacity_def stack_elem_def fun_eq_iff)
qed (auto simp: stack_push_full stack_peek_spec stack_del_top_spec)

text \<open>A callback that changes no element and never stops is folded over the elements.\<close>

lemma apply_elements_fold:
  assumes "stack_inv s" "list_all (\<lambda>i. 0 \<le> i \<and> i < st_top s) is"
  shows "apply_elements (\<lambda>a x. (g a x, x, False)) is a s = Some (foldl g a (map (\<lambda>i. stack_view s ! nat i) is), s)"
  using assms(2)
proof (induction "is" arbitrary: a)
  case (Cons i "is")
  then have r: "ZEND_STACK_ELEMENT s i = Some (int (nat (st_size s) * nat i))"
      "read_cells (int (nat (st_size s) * nat i)) (nat (st_size s)) (st_elements s) = Some (stack_view s ! nat i)"
    using element_offset[OF assms(1)] element_read[OF assms(1)] by auto
  show ?case using Cons r write_read_same[OF r(2)] by simp
qed simp

lemma view_indices: "stack_inv s \<Longrightarrow> map (\<lambda>i. stack_view s ! nat i) [0..st_top s - 1] = stack_view s"
  using length_stack_view[of s] by (intro nth_equalityI) (auto simp: stack_inv_def)

lemma stack_apply_fold:
  assumes "stack_inv s"
  shows "zend_stack_apply ZEND_STACK_APPLY_BOTTOMUP (\<lambda>a x. (g a x, x, False)) a s = Some (foldl g a (stack_view s), s)"
    "zend_stack_apply ZEND_STACK_APPLY_TOPDOWN (\<lambda>a x. (g a x, x, False)) a s = Some (foldl g a (rev (stack_view s)), s)"
  using apply_elements_fold[OF assms, of "[0..st_top s - 1]"] apply_elements_fold[OF assms, of "rev [0..st_top s - 1]"] view_indices[OF assms]
  by (simp_all add: zend_stack_apply_def list_all_iff rev_map[symmetric])

section \<open>zend_ptr_stack implements the contract\<close>

definition ptr_capacity :: "'a zend_ptr_stack \<Rightarrow> nat" where
  "ptr_capacity s = 2 ^ 31 - 64"

definition ptr_inv :: "'a zend_ptr_stack \<Rightarrow> bool" where
  "ptr_inv s \<longleftrightarrow> 0 \<le> ps_top s \<and> ps_top s \<le> ps_max s \<and> ps_max s < 2 ^ 31 \<and> PTR_STACK_BLOCK_SIZE dvd ps_max s
     \<and> length (ps_elements s) = nat (ps_max s) \<and> filled (nat (ps_top s)) (ps_elements s) \<and> ps_top_element s = ps_top s"

definition ptr_view :: "'a zend_ptr_stack \<Rightarrow> 'a list" where
  "ptr_view s = map the (take (nat (ps_top s)) (ps_elements s))"

lemma length_ptr_view: "ptr_inv s \<Longrightarrow> int (length (ptr_view s)) = ps_top s"
  by (auto simp: ptr_inv_def ptr_view_def)

lemma ptr_max_bound: "ptr_inv s \<Longrightarrow> ps_max s \<le> 2 ^ 31 - 64"
  by (auto simp: ptr_inv_def PTR_STACK_BLOCK_SIZE_def elim!: dvdE)

lemma grow_max_spec:
  "0 \<le> mx \<Longrightarrow> mx < need \<Longrightarrow> need \<le> 2 ^ 31 - 64 \<Longrightarrow> PTR_STACK_BLOCK_SIZE dvd mx \<Longrightarrow>
     \<exists>m. grow_max need mx = Some m \<and> need \<le> m \<and> mx < m \<and> m < 2 ^ 31 \<and> PTR_STACK_BLOCK_SIZE dvd m"
proof (induction need mx rule: grow_max.induct)
  case (1 need mx)
  define m where "m = mx + PTR_STACK_BLOCK_SIZE"
  have m: "int_result (mx + PTR_STACK_BLOCK_SIZE) = Some m" "PTR_STACK_BLOCK_SIZE dvd m" "0 \<le> m" "mx < m" "m < 2 ^ 31"
    using 1(2-5) by (auto simp: int_result_nonneg m_def PTR_STACK_BLOCK_SIZE_def)
  show ?case
  proof (cases "m < need")
    case True
    then obtain k where "grow_max need m = Some k" "need \<le> k" "m < k" "k < 2 ^ 31" "PTR_STACK_BLOCK_SIZE dvd k"
      using 1(1)[OF m(1)] 1(4) m by auto
    then show ?thesis using m True by (subst grow_max.simps) auto
  qed (use m in \<open>subst grow_max.simps, auto\<close>)
qed

lemma ptr_resize:
  assumes "ptr_inv s" "ps_top s + count \<le> 2 ^ 31 - 64" "0 \<le> count"
  shows "\<exists>s1. ZEND_PTR_STACK_RESIZE_IF_NEEDED count s = Some s1 \<and> ptr_inv s1 \<and> ptr_view s1 = ptr_view s
     \<and> ps_top s1 = ps_top s \<and> ps_top s1 + count \<le> ps_max s1"
proof (cases "ps_max s < ps_top s + count")
  case True
  note i = assms(1)[unfolded ptr_inv_def]
  obtain m where m: "grow_max (ps_top s + count) (ps_max s) = Some m" "ps_top s + count \<le> m" "ps_max s < m" "m < 2 ^ 31"
      "PTR_STACK_BLOCK_SIZE dvd m"
    using grow_max_spec[OF _ True assms(2)] i by auto
  have "length (ps_elements s) \<le> nat m" using i m(3) by simp
  note g = filled_grow[OF _ this, of "nat (ps_top s)"]
  define s1 where "s1 = s\<lparr>ps_max := m, ps_elements := grow_cells m (ps_elements s), ps_top_element := ps_top s\<rparr>"
  have "ZEND_PTR_STACK_RESIZE_IF_NEEDED count s = Some s1"
    using True i assms m(1) by (simp add: ZEND_PTR_STACK_RESIZE_IF_NEEDED_def int_result_nonneg s1_def)
  then show ?thesis using i m g by (auto simp: s1_def ptr_inv_def ptr_view_def)
next
  case False
  then show ?thesis using assms by (auto simp: ZEND_PTR_STACK_RESIZE_IF_NEEDED_def int_result_nonneg ptr_inv_def)
qed

lemma store_top_spec:
  assumes "ptr_inv s" "ps_top s < ps_max s"
  shows "\<exists>s'. store_top x s = Some s' \<and> ptr_inv s' \<and> ptr_view s' = ptr_view s @ [x]
     \<and> ps_top s' = ps_top s + 1 \<and> ps_max s' = ps_max s"
proof -
  note i = assms(1)[unfolded ptr_inv_def]
  have "nat (ps_top s) + length [x] \<le> length (ps_elements s)" using i assms(2) by auto
  from filled_write[OF _ this] obtain mem where mem: "write_cells (ps_top s) [x] (ps_elements s) = Some mem" "length mem = length (ps_elements s)"
      "filled (nat (ps_top s) + 1) mem" "take (nat (ps_top s) + 1) mem = take (nat (ps_top s)) (ps_elements s) @ [Some x]"
    using i by auto
  have "int_result (ps_top s + 1) = Some (ps_top s + 1)" using i assms(2) by (simp add: int_result_nonneg)
  then show ?thesis using i mem assms(2) by (auto simp: store_top_def ptr_inv_def ptr_view_def nat_add_distrib)
qed

lemma store_all_spec:
  "ptr_inv s \<Longrightarrow> ps_top s + int (length xs) \<le> ps_max s \<Longrightarrow>
     \<exists>s'. store_all xs s = Some s' \<and> ptr_inv s' \<and> ptr_view s' = ptr_view s @ xs"
proof (induction xs arbitrary: s)
  case (Cons x xs)
  then obtain s1 where s1: "store_top x s = Some s1" "ptr_inv s1" "ptr_view s1 = ptr_view s @ [x]"
    "ps_top s1 = ps_top s + 1" "ps_max s1 = ps_max s"
    using store_top_spec[of s x] by auto
  then show ?case using Cons.IH[of s1] Cons.prems by auto
qed simp

lemma ptr_last:
  assumes "ptr_inv s" "ptr_view s \<noteq> []"
  shows "read_cells (ps_top s - 1) 1 (ps_elements s) = Some [last (ptr_view s)]" "0 < ps_top s"
proof -
  note i = assms(1)[unfolded ptr_inv_def]
  define n where "n = nat (ps_top s - 1)"
  show "0 < ps_top s" using assms length_ptr_view[OF assms(1)] by (cases "ptr_view s") auto
  then have n: "ps_top s - 1 = int n" "nat (ps_top s) = Suc n" by (simp_all add: n_def)
  then have l: "n < length (ps_elements s)" using i by linarith
  have "take (Suc 0) (drop n (ps_elements s)) = [ps_elements s ! n]" using l by (simp add: take_Suc_conv_app_nth hd_drop_conv_nth)
  moreover have "last (ptr_view s) = the (ps_elements s ! n)" using l by (simp add: ptr_view_def n(2) take_Suc_conv_app_nth)
  ultimately show "read_cells (ps_top s - 1) 1 (ps_elements s) = Some [last (ptr_view s)]"
    using filled_read[of "Suc n" "ps_elements s" n 1] i n by simp
qed

lemma ptr_pop_spec:
  assumes "ptr_inv s" "ptr_view s \<noteq> []"
  shows "\<exists>s'. zend_ptr_stack_pop s = Some (s', last (ptr_view s)) \<and> ptr_inv s' \<and> ptr_view s' = butlast (ptr_view s)"
proof -
  note i = assms(1)[unfolded ptr_inv_def] and l = ptr_last[OF assms]
  define s' where "s' = s\<lparr>ps_top := ps_top s - 1, ps_top_element := ps_top s - 1\<rparr>"
  have "zend_ptr_stack_pop s = Some (s', last (ptr_view s))"
    using i l by (simp add: zend_ptr_stack_pop_def int_result_nonneg s'_def)
  moreover have "ptr_inv s'" using i l(2) by (auto simp: ptr_inv_def s'_def intro: filled_mono)
  moreover have "ptr_view s' = butlast (ptr_view s)"
  proof -
    have "nat (ps_top s) \<le> length (ps_elements s)" using i by auto
    then show ?thesis using butlast_take[of "nat (ps_top s)" "ps_elements s"] l(2)
      by (simp add: ptr_view_def s'_def map_butlast[symmetric] nat_diff_distrib)
  qed
  ultimately show ?thesis by blast
qed

lemma ptr_push_full:
  assumes "ptr_inv s" "ptr_capacity s \<le> length (ptr_view s)"
  shows "zend_ptr_stack_push x s = None"
proof -
  have t: "ps_top s = 2 ^ 31 - 64" "ps_max s = 2 ^ 31 - 64"
    using length_ptr_view[OF assms(1)] ptr_max_bound[OF assms(1)] assms by (auto simp: ptr_capacity_def ptr_inv_def)
  then have "grow_max (ps_top s + 1) (ps_max s) = None"
    by (subst grow_max.simps) (simp add: int_result_def PTR_STACK_BLOCK_SIZE_def)
  then show ?thesis using t by (simp add: zend_ptr_stack_push_def ZEND_PTR_STACK_RESIZE_IF_NEEDED_def int_result_nonneg)
qed

interpretation pstack: lifo ptr_inv ptr_view ptr_capacity "\<lambda>s x. True" zend_ptr_stack_push zend_ptr_stack_top
  "\<lambda>s. map_option fst (zend_ptr_stack_pop s)"
proof unfold_locales
  fix s :: "'b zend_ptr_stack" and x
  assume i: "ptr_inv s"
  show "zend_ptr_stack_push x s = None" if "ptr_capacity s \<le> length (ptr_view s)" by (rule ptr_push_full[OF i that])
  show "zend_ptr_stack_top s = (if ptr_view s = [] then None else Some (last (ptr_view s)))"
  proof (cases "ptr_view s = []")
    case True
    then have "ps_top s = 0" using length_ptr_view[OF i] by simp
    then show ?thesis using True by (simp add: zend_ptr_stack_top_def read_cells_def)
  qed (use ptr_last(1)[OF i] in \<open>simp add: zend_ptr_stack_top_def\<close>)
  show "\<exists>s'. map_option fst (zend_ptr_stack_pop s) = Some s' \<and> ptr_inv s' \<and> ptr_view s' = butlast (ptr_view s)"
    if "ptr_view s \<noteq> []" using ptr_pop_spec[OF i that] by auto
  assume "length (ptr_view s) < ptr_capacity s"
  then obtain s1 where "ZEND_PTR_STACK_RESIZE_IF_NEEDED 1 s = Some s1" "ptr_inv s1" "ptr_view s1 = ptr_view s" "ps_top s1 + 1 \<le> ps_max s1"
    using ptr_resize[OF i, of 1] length_ptr_view[OF i] by (auto simp: ptr_capacity_def)
  then show "\<exists>s'. zend_ptr_stack_push x s = Some s' \<and> ptr_inv s' \<and> ptr_view s' = ptr_view s @ [x]
      \<and> ptr_capacity s' = ptr_capacity s \<and> (\<lambda>x::'b. True) = (\<lambda>x. True)"
    using store_top_spec[of s1 x] by (auto simp: zend_ptr_stack_push_def ptr_capacity_def)
qed

section \<open>Properties\<close>

text \<open>C40: a \<open>zend_stack\<close> whose elements have size bytes holds min(2^31 - 16, (2^31 - 1) div size + 1)
  elements, the number up to which the C integers for the block and for the byte offset
  size * n do not overflow. As long as the elements fit, pushing them succeeds, the count
  goes up by their number, popping as many returns their bytes in reverse order and restores
  the stack, and the two directions of \<open>zend_stack_apply\<close> visit the elements from the bottom
  and from the top. Pushing more overflows an integer.\<close>

theorem stack_is_lifo:
  assumes "stack_inv s" "list_all (stack_elem s) xs"
  shows "if length (stack_view s) + length xs \<le> min (2 ^ 31 - 16) ((2 ^ 31 - 1) div nat (st_size s) + 1)
     then \<exists>s' s''. zstack.push_all xs s = Some s' \<and> stack_inv s' \<and> stack_view s' = stack_view s @ xs
       \<and> zend_stack_count s' = int (length (stack_view s) + length xs)
       \<and> zstack.pop_n (length xs) s' = Some (rev xs, s'') \<and> stack_inv s'' \<and> stack_view s'' = stack_view s
       \<and> zend_stack_apply ZEND_STACK_APPLY_BOTTOMUP (\<lambda>a x. (g a x, x, False)) a s' = Some (foldl g a (stack_view s @ xs), s')
       \<and> zend_stack_apply ZEND_STACK_APPLY_TOPDOWN (\<lambda>a x. (g a x, x, False)) a s' = Some (foldl g a (rev (stack_view s @ xs)), s')
     else zstack.push_all xs s = None"
proof (cases "length (stack_view s) + length xs \<le> stack_capacity s")
  case True
  then obtain s' s'' where s': "zstack.push_all xs s = Some s'" "stack_inv s'" "stack_view s' = stack_view s @ xs"
      "zstack.pop_n (length xs) s' = Some (rev xs, s'')" "stack_inv s''" "stack_view s'' = stack_view s"
    using zstack.push_pop_lifo[OF assms] by blast
  have "zend_stack_count s' = int (length (stack_view s) + length xs)"
    using length_stack_view[OF s'(2)] s'(3) by (simp add: zend_stack_count_def)
  then show ?thesis using True s' stack_apply_fold[OF s'(2), of g a] by (simp add: stack_capacity_def)
next
  case False
  have "length (stack_view s) \<le> stack_capacity s" using assms(1) length_stack_view[OF assms(1)] by (auto simp: stack_inv_def)
  then show ?thesis using zstack.push_all_full[OF assms] False by (simp add: stack_capacity_def)
qed

lemma stack_init_inv: "0 < sz \<Longrightarrow> sz < 2 ^ 31 \<Longrightarrow> stack_inv (zend_stack_init sz) \<and> stack_view (zend_stack_init sz) = []"
  by (simp add: stack_inv_def stack_view_def zend_stack_init_def filled_def chunks_def)

theorem stack_is_lifo_witness:
  "\<exists>s' s''. zstack.push_all [[1, 0, 0, 0], [2, 0, 0, 0], [255, 255, 255, 255]] (zend_stack_init 4) = Some s'
     \<and> stack_view s' = [[1, 0, 0, 0], [2, 0, 0, 0], [255, 255, 255, 255]]
     \<and> zstack.pop_n 3 s' = Some ([[255, 255, 255, 255], [2, 0, 0, 0], [1, 0, 0, 0]], s'')"
proof -
  define xs :: "byte list list" where "xs = [[1, 0, 0, 0], [2, 0, 0, 0], [255, 255, 255, 255]]"
  have xs: "list_all (stack_elem (zend_stack_init 4)) xs" "length xs = 3" "rev xs = [[255, 255, 255, 255], [2, 0, 0, 0], [1, 0, 0, 0]]"
    by (simp_all add: xs_def stack_elem_def zend_stack_init_def)
  have i: "stack_inv (zend_stack_init 4)" "stack_view (zend_stack_init 4) = []" using stack_init_inv[of 4] by simp_all
  have "length (stack_view (zend_stack_init 4)) + length xs \<le> min (2 ^ 31 - 16) ((2 ^ 31 - 1) div nat (st_size (zend_stack_init 4)) + 1)"
    using xs(2) i(2) by (simp add: zend_stack_init_def)
  then obtain s' s'' where "zstack.push_all xs (zend_stack_init 4) = Some s'" "stack_view s' = xs" "zstack.pop_n 3 s' = Some (rev xs, s'')"
    using stack_is_lifo[OF i(1) xs(1), of "\<lambda>a x. a + 1" 0] xs(2) i(2) by auto
  then show ?thesis using xs(3) unfolding xs_def by auto
qed

text \<open>\<open>zend_ptr_stack_n_push\<close> resizes once for all its arguments, keeps the free-cell
  pointer and the count in step, and \<open>zend_ptr_stack_n_pop\<close> of as many returns them in
  reverse order and restores the stack, up to 2^31 - 64 elements.\<close>

theorem ptr_stack_n_push_n_pop:
  assumes "ptr_inv s" "length (ptr_view s) + length xs \<le> ptr_capacity s"
  shows "\<exists>s' s''. zend_ptr_stack_n_push xs s = Some s' \<and> ptr_inv s' \<and> ptr_view s' = ptr_view s @ xs
     \<and> zend_ptr_stack_n_pop (length xs) s' = Some (s'', rev xs) \<and> ptr_inv s'' \<and> ptr_view s'' = ptr_view s"
proof -
  have "ps_top s + int (length xs) \<le> 2 ^ 31 - 64" using length_ptr_view[OF assms(1)] assms(2) by (simp add: ptr_capacity_def)
  then obtain s1 where "ZEND_PTR_STACK_RESIZE_IF_NEEDED (int (length xs)) s = Some s1" "ptr_inv s1" "ptr_view s1 = ptr_view s"
      "ps_top s1 + int (length xs) \<le> ps_max s1" using ptr_resize[OF assms(1)] by fastforce
  then obtain s' where s': "zend_ptr_stack_n_push xs s = Some s'" "ptr_inv s'" "ptr_view s' = ptr_view s @ xs"
    using store_all_spec[of s1 xs] by (auto simp: zend_ptr_stack_n_push_def)
  have pop: "\<exists>s''. zend_ptr_stack_n_pop (length zs) t = Some (s'', rev zs) \<and> ptr_inv s'' \<and> ptr_view s'' = ys"
    if "ptr_inv t" "ptr_view t = ys @ zs" for t :: "'a zend_ptr_stack" and ys zs
    using that
  proof (induction zs arbitrary: t rule: rev_induct)
    case (snoc x zs)
    then obtain t' where "zend_ptr_stack_pop t = Some (t', x)" "ptr_inv t'" "ptr_view t' = ys @ zs"
      using ptr_pop_spec[of t] by (auto simp: butlast_append)
    then show ?case using snoc.IH[of t'] by auto
  qed auto
  show ?thesis using s' pop[OF s'(2,3)] by blast
qed

text \<open>\<open>zend_stack_del_top\<close> does not check for an empty stack: the count becomes -1 and the
  next push writes in front of the block.\<close>

theorem stack_underflow:
  "\<exists>s. zend_stack_del_top (zend_stack_init sz) = Some s \<and> zend_stack_count s = - 1
     \<and> \<not> zend_stack_is_empty s \<and> (0 < sz \<longrightarrow> zend_stack_push x s = None)"
  by (simp add: zend_stack_count_def zend_stack_del_top_def zend_stack_init_def zend_stack_is_empty_def int_result_def
      zend_stack_push_def stack_grow_def ZEND_STACK_ELEMENT_def write_cells_def bind_eq_None_conv)

end
