(* ===== verification/ZendLlist.thy ===== *)
theory ZendLlist
  imports ZendSort
begin

text \<open>
  The doubly linked list of the engine (zend_llist.c), with its nodes on an explicit heap:
  a pointer is an address, \<open>NULL\<close> is \<open>None\<close>, and freed nodes leave the heap, so that a
  dangling pointer has no node. The lists are refined to plain lists: a list value is
  \<open>represented\<close> by a chain of nodes whose forward and backward links agree.
\<close>

section \<open>Data and operations\<close>

type_synonym ptr = "nat option"

record 'a llist_element =
  le_next :: ptr
  le_prev :: ptr
  le_data :: 'a

type_synonym 'a heap = "nat \<rightharpoonup> 'a llist_element"

text \<open>
  The list head together with the heap its nodes live on, the next unused address of the
  allocator, and the log of the data handed to \<open>dtor\<close>. A pointer to no node is an access
  outside the heap: the operations then return \<open>None\<close>.
\<close>

record 'a zend_llist =
  l_head :: ptr
  l_tail :: ptr
  l_count :: nat
  l_dtor :: bool
  l_traverse :: ptr
  l_heap :: "'a heap"
  l_brk :: nat
  l_log :: "'a list"

definition zend_llist_init :: "bool \<Rightarrow> 'a zend_llist \<Rightarrow> 'a zend_llist" where
  "zend_llist_init dtor l = l\<lparr>l_head := None, l_tail := None, l_count := 0, l_dtor := dtor\<rparr>"

definition upd_node :: "nat \<Rightarrow> ('a llist_element \<Rightarrow> 'a llist_element) \<Rightarrow> 'a heap \<Rightarrow> 'a heap option" where
  "upd_node p f h = (case h p of None \<Rightarrow> None | Some e \<Rightarrow> Some (h(p \<mapsto> f e)))"

definition zend_llist_add_element :: "'a \<Rightarrow> 'a zend_llist \<Rightarrow> 'a zend_llist option" where
  "zend_llist_add_element x l =
     (let tmp = l_brk l;
          h = (l_heap l)(tmp \<mapsto> \<lparr>le_next = None, le_prev = l_tail l, le_data = x\<rparr>);
          l1 = l\<lparr>l_brk := tmp + 1, l_tail := Some tmp, l_count := l_count l + 1\<rparr>
      in case l_tail l of
           Some t \<Rightarrow> (case upd_node t (\<lambda>e. e\<lparr>le_next := Some tmp\<rparr>) h of None \<Rightarrow> None
                      | Some h' \<Rightarrow> Some (l1\<lparr>l_heap := h'\<rparr>))
         | None \<Rightarrow> Some (l1\<lparr>l_heap := h, l_head := Some tmp\<rparr>))"

definition zend_llist_prepend_element :: "'a \<Rightarrow> 'a zend_llist \<Rightarrow> 'a zend_llist option" where
  "zend_llist_prepend_element x l =
     (let tmp = l_brk l;
          h = (l_heap l)(tmp \<mapsto> \<lparr>le_next = l_head l, le_prev = None, le_data = x\<rparr>);
          l1 = l\<lparr>l_brk := tmp + 1, l_head := Some tmp, l_count := l_count l + 1\<rparr>
      in case l_head l of
           Some t \<Rightarrow> (case upd_node t (\<lambda>e. e\<lparr>le_prev := Some tmp\<rparr>) h of None \<Rightarrow> None
                      | Some h' \<Rightarrow> Some (l1\<lparr>l_heap := h'\<rparr>))
         | None \<Rightarrow> Some (l1\<lparr>l_heap := h, l_tail := Some tmp\<rparr>))"

definition run_dtor :: "'a \<Rightarrow> 'a zend_llist \<Rightarrow> 'a zend_llist" where
  "run_dtor x l = (if l_dtor l then l\<lparr>l_log := l_log l @ [x]\<rparr> else l)"

definition DEL_LLIST_ELEMENT :: "nat \<Rightarrow> 'a zend_llist \<Rightarrow> 'a zend_llist option" where
  "DEL_LLIST_ELEMENT current l =
     (case l_heap l current of None \<Rightarrow> None
      | Some e \<Rightarrow>
          (case (case le_prev e of
                   Some p \<Rightarrow> map_option (\<lambda>h. l\<lparr>l_heap := h\<rparr>) (upd_node p (\<lambda>q. q\<lparr>le_next := le_next e\<rparr>) (l_heap l))
                 | None \<Rightarrow> Some (l\<lparr>l_head := le_next e\<rparr>)) of
             None \<Rightarrow> None
           | Some l1 \<Rightarrow>
               (case (case le_next e of
                        Some n \<Rightarrow> map_option (\<lambda>h. l1\<lparr>l_heap := h\<rparr>) (upd_node n (\<lambda>q. q\<lparr>le_prev := le_prev e\<rparr>) (l_heap l1))
                      | None \<Rightarrow> Some (l1\<lparr>l_tail := le_prev e\<rparr>)) of
                  None \<Rightarrow> None
                | Some l2 \<Rightarrow>
                    let l3 = run_dtor (le_data e) l2
                    in Some (l3\<lparr>l_heap := (l_heap l3)(current := None), l_count := l_count l3 - 1\<rparr>))))"

text \<open>The loops follow \<open>next\<close> pointers; that they end is a consequence of the invariant.\<close>

partial_function (option) find_element :: "('a \<Rightarrow> bool) \<Rightarrow> 'a heap \<Rightarrow> ptr \<Rightarrow> ptr option" where
  "find_element P h current =
     (case current of None \<Rightarrow> Some None
      | Some p \<Rightarrow> (case h p of None \<Rightarrow> None
          | Some e \<Rightarrow> if P (le_data e) then Some (Some p) else find_element P h (le_next e)))"

definition zend_llist_del_element :: "'b \<Rightarrow> ('a \<Rightarrow> 'b \<Rightarrow> bool) \<Rightarrow> 'a zend_llist \<Rightarrow> 'a zend_llist option" where
  "zend_llist_del_element element cmp l =
     (case find_element (\<lambda>d. cmp d element) (l_heap l) (l_head l) of
        None \<Rightarrow> None
      | Some None \<Rightarrow> Some l
      | Some (Some p) \<Rightarrow> DEL_LLIST_ELEMENT p l)"

partial_function (option) destroy_from :: "'a zend_llist \<Rightarrow> ptr \<Rightarrow> 'a zend_llist option" where
  "destroy_from l current =
     (case current of None \<Rightarrow> Some l
      | Some p \<Rightarrow> (case l_heap l p of None \<Rightarrow> None
          | Some e \<Rightarrow> let l1 = run_dtor (le_data e) l
                      in destroy_from (l1\<lparr>l_heap := (l_heap l1)(p := None)\<rparr>) (le_next e)))"

definition zend_llist_destroy :: "'a zend_llist \<Rightarrow> 'a zend_llist option" where
  "zend_llist_destroy l = map_option (\<lambda>l1. l1\<lparr>l_count := 0\<rparr>) (destroy_from l (l_head l))"

definition zend_llist_clean :: "'a zend_llist \<Rightarrow> 'a zend_llist option" where
  "zend_llist_clean l = map_option (\<lambda>l1. l1\<lparr>l_head := None, l_tail := None\<rparr>) (zend_llist_destroy l)"

definition zend_llist_remove_tail :: "'a zend_llist \<Rightarrow> 'a zend_llist option" where
  "zend_llist_remove_tail l =
     (case l_tail l of None \<Rightarrow> Some l
      | Some t \<Rightarrow> (case l_heap l t of None \<Rightarrow> None
          | Some e \<Rightarrow>
              (case (case le_prev e of
                       Some p \<Rightarrow> map_option (\<lambda>h. l\<lparr>l_heap := h\<rparr>) (upd_node p (\<lambda>q. q\<lparr>le_next := None\<rparr>) (l_heap l))
                     | None \<Rightarrow> Some (l\<lparr>l_head := None\<rparr>)) of
                 None \<Rightarrow> None
               | Some l1 \<Rightarrow>
                   let l2 = run_dtor (le_data e) (l1\<lparr>l_tail := le_prev e, l_count := l_count l1 - 1\<rparr>)
                   in Some (l2\<lparr>l_heap := (l_heap l2)(t := None)\<rparr>))))"

text \<open>All data from a node on, as the traversals of copy, apply and sort see it.\<close>

partial_function (option) data_from :: "'a heap \<Rightarrow> ptr \<Rightarrow> 'a list option" where
  "data_from h current =
     (case current of None \<Rightarrow> Some []
      | Some p \<Rightarrow> (case h p of None \<Rightarrow> None
          | Some e \<Rightarrow> Option.bind (data_from h (le_next e)) (\<lambda>ds. Some (le_data e # ds))))"

fun add_all :: "'a list \<Rightarrow> 'a zend_llist \<Rightarrow> 'a zend_llist option" where
  "add_all [] l = Some l"
| "add_all (x # xs) l = (case zend_llist_add_element x l of None \<Rightarrow> None | Some l' \<Rightarrow> add_all xs l')"

text \<open>The copy is another list; it shares the allocator with its source, not the nodes.\<close>

definition zend_llist_copy :: "'a zend_llist \<Rightarrow> 'a zend_llist \<Rightarrow> 'a zend_llist option" where
  "zend_llist_copy dst src =
     (case data_from (l_heap src) (l_head src) of None \<Rightarrow> None
      | Some ds \<Rightarrow> add_all ds (zend_llist_init (l_dtor src) dst))"

partial_function (option) apply_del_from :: "('a \<Rightarrow> bool) \<Rightarrow> 'a zend_llist \<Rightarrow> ptr \<Rightarrow> 'a zend_llist option" where
  "apply_del_from f l current =
     (case current of None \<Rightarrow> Some l
      | Some p \<Rightarrow> (case l_heap l p of None \<Rightarrow> None
          | Some e \<Rightarrow>
              if f (le_data e) then
                (case DEL_LLIST_ELEMENT p l of None \<Rightarrow> None | Some l' \<Rightarrow> apply_del_from f l' (le_next e))
              else apply_del_from f l (le_next e)))"

definition zend_llist_apply_with_del :: "('a \<Rightarrow> bool) \<Rightarrow> 'a zend_llist \<Rightarrow> 'a zend_llist option" where
  "zend_llist_apply_with_del f l = apply_del_from f l (l_head l)"

text \<open>The other traversals call \<open>func\<close> on the data in order; \<open>'s\<close> is what it works on.\<close>

definition zend_llist_apply :: "('s \<Rightarrow> 'a \<Rightarrow> 's) \<Rightarrow> 's \<Rightarrow> 'a zend_llist \<Rightarrow> 's option" where
  "zend_llist_apply func s l = map_option (foldl func s) (data_from (l_heap l) (l_head l))"

definition zend_llist_apply_with_argument :: "('s \<Rightarrow> 'a \<Rightarrow> 'b \<Rightarrow> 's) \<Rightarrow> 'b \<Rightarrow> 's \<Rightarrow> 'a zend_llist \<Rightarrow> 's option" where
  "zend_llist_apply_with_argument func arg s l = zend_llist_apply (\<lambda>s d. func s d arg) s l"

definition zend_llist_apply_with_arguments :: "('s \<Rightarrow> 'a \<Rightarrow> 'b list \<Rightarrow> 's) \<Rightarrow> 'b list \<Rightarrow> 's \<Rightarrow> 'a zend_llist \<Rightarrow> 's option" where
  "zend_llist_apply_with_arguments func args s l = zend_llist_apply (\<lambda>s d. func s d args) s l"

partial_function (option) nodes_from :: "'a heap \<Rightarrow> ptr \<Rightarrow> nat list option" where
  "nodes_from h current =
     (case current of None \<Rightarrow> Some []
      | Some p \<Rightarrow> (case h p of None \<Rightarrow> None
          | Some e \<Rightarrow> Option.bind (nodes_from h (le_next e)) (\<lambda>ps. Some (p # ps))))"

definition zend_llist_swap :: "nat swap_func" where
  "zend_llist_swap p q = (q, p)"

text \<open>Relink the sorted array of nodes; \<open>prev\<close> is the node before the first of them.\<close>

fun relink :: "ptr \<Rightarrow> nat list \<Rightarrow> 'a heap \<Rightarrow> 'a heap" where
  "relink prev [] h = h"
| "relink prev (p # ps) h =
     relink (Some p) ps (h(p := map_option (\<lambda>e. e\<lparr>le_prev := prev,
       le_next := (case ps of [] \<Rightarrow> None | q # _ \<Rightarrow> Some q)\<rparr>) (h p)))"

text \<open>The comparison function is given the elements the two pointers point to.\<close>

definition zend_llist_sort :: "('a \<Rightarrow> 'a \<Rightarrow> int) \<Rightarrow> 'a zend_llist \<Rightarrow> 'a zend_llist option" where
  "zend_llist_sort compf l =
     (if l_count l = 0 then Some l
      else case nodes_from (l_heap l) (l_head l) of None \<Rightarrow> None
        | Some es \<Rightarrow>
            let cmp = (\<lambda>p q. compf (le_data (the (l_heap l p))) (le_data (the (l_heap l q))));
                es' = zend_sort cmp zend_llist_swap 0 (l_count l) es
            in Some (l\<lparr>l_heap := relink None es' (l_heap l), l_head := Some (hd es'), l_tail := Some (last es')\<rparr>))"

definition zend_llist_count :: "'a zend_llist \<Rightarrow> nat" where
  "zend_llist_count l = l_count l"

text \<open>
  The traversal functions move a position: the caller's, or with a null pointer
  (\<open>None\<close>) the list's own \<open>traverse_ptr\<close>. They return the list, the caller's position and
  the data or \<open>NULL\<close>; a position whose node has been freed is an access outside the heap.
\<close>

definition get_position :: "'a zend_llist \<Rightarrow> ptr option \<Rightarrow> ptr" where
  "get_position l pos = (case pos of None \<Rightarrow> l_traverse l | Some current \<Rightarrow> current)"

definition move_position ::
  "'a zend_llist \<Rightarrow> ptr option \<Rightarrow> ptr \<Rightarrow> ('a zend_llist \<times> ptr option \<times> 'a option) option" where
  "move_position l pos current =
     (let (l1, pos1) = (case pos of None \<Rightarrow> (l\<lparr>l_traverse := current\<rparr>, None) | Some _ \<Rightarrow> (l, Some current))
      in case current of None \<Rightarrow> Some (l1, pos1, None)
         | Some p \<Rightarrow> (case l_heap l p of None \<Rightarrow> None | Some e \<Rightarrow> Some (l1, pos1, Some (le_data e))))"

definition zend_llist_get_first_ex :: "'a zend_llist \<Rightarrow> ptr option \<Rightarrow> ('a zend_llist \<times> ptr option \<times> 'a option) option" where
  "zend_llist_get_first_ex l pos = move_position l pos (l_head l)"

definition zend_llist_get_last_ex :: "'a zend_llist \<Rightarrow> ptr option \<Rightarrow> ('a zend_llist \<times> ptr option \<times> 'a option) option" where
  "zend_llist_get_last_ex l pos = move_position l pos (l_tail l)"

definition zend_llist_get_next_ex :: "'a zend_llist \<Rightarrow> ptr option \<Rightarrow> ('a zend_llist \<times> ptr option \<times> 'a option) option" where
  "zend_llist_get_next_ex l pos =
     (case get_position l pos of None \<Rightarrow> Some (l, pos, None)
      | Some p \<Rightarrow> (case l_heap l p of None \<Rightarrow> None | Some e \<Rightarrow> move_position l pos (le_next e)))"

definition zend_llist_get_prev_ex :: "'a zend_llist \<Rightarrow> ptr option \<Rightarrow> ('a zend_llist \<times> ptr option \<times> 'a option) option" where
  "zend_llist_get_prev_ex l pos =
     (case get_position l pos of None \<Rightarrow> Some (l, pos, None)
      | Some p \<Rightarrow> (case l_heap l p of None \<Rightarrow> None | Some e \<Rightarrow> move_position l pos (le_prev e)))"

text \<open>The loops of the callers: the data seen by \<open>n\<close> moves after the first call.\<close>

fun walk :: "('a zend_llist \<Rightarrow> ptr option \<Rightarrow> ('a zend_llist \<times> ptr option \<times> 'a option) option)
    \<Rightarrow> nat \<Rightarrow> ('a zend_llist \<times> ptr option \<times> 'a option) option \<Rightarrow> 'a option option" where
  "walk move n None = None"
| "walk move 0 (Some (l, pos, d)) = Some d"
| "walk move (Suc n) (Some (l, pos, d)) = walk move n (move l pos)"

section \<open>Representation\<close>

definition lastp :: "ptr \<Rightarrow> nat list \<Rightarrow> ptr" where
  "lastp a ps = (if ps = [] then a else Some (last ps))"

text \<open>
  From \<open>cur\<close> the nodes \<open>ps\<close> are linked forwards up to \<open>nxt\<close>, and backwards down to \<open>a\<close>.
\<close>

fun dseg :: "'a heap \<Rightarrow> ptr \<Rightarrow> ptr \<Rightarrow> nat list \<Rightarrow> ptr \<Rightarrow> bool" where
  "dseg h a cur [] nxt \<longleftrightarrow> cur = nxt"
| "dseg h a cur (p # ps) nxt \<longleftrightarrow> cur = Some p \<and> (\<exists>e. h p = Some e \<and> le_prev e = a \<and> dseg h (Some p) (le_next e) ps nxt)"

definition datas :: "'a heap \<Rightarrow> nat list \<Rightarrow> 'a list" where
  "datas h ps = map (\<lambda>p. le_data (the (h p))) ps"

definition nodes_rep :: "'a zend_llist \<Rightarrow> nat list \<Rightarrow> bool" where
  "nodes_rep l ps \<longleftrightarrow> dseg (l_heap l) None (l_head l) ps None \<and> distinct ps \<and> l_tail l = lastp None ps
     \<and> l_count l = length ps \<and> (\<forall>p. l_heap l p \<noteq> None \<longrightarrow> p < l_brk l)"

definition represents :: "'a zend_llist \<Rightarrow> 'a list \<Rightarrow> bool" where
  "represents l xs \<longleftrightarrow> (\<exists>ps. nodes_rep l ps \<and> xs = datas (l_heap l) ps)"

lemma dseg_cong: "(\<And>p. p \<in> set ps \<Longrightarrow> h' p = h p) \<Longrightarrow> dseg h' a cur ps nxt = dseg h a cur ps nxt"
  by (induction ps arbitrary: a cur) auto

lemma lastp_simps [simp]: "lastp a [] = a" "lastp a (p # ps) = lastp (Some p) ps" "lastp a (ps @ [q]) = Some q"
  by (auto simp: lastp_def)

lemma dseg_append: "dseg h a cur (ps @ qs) nxt \<longleftrightarrow> (\<exists>m. dseg h a cur ps m \<and> dseg h (lastp a ps) m qs nxt)"
  by (induction ps arbitrary: a cur) auto

lemma dseg_mem: "dseg h a cur ps nxt \<Longrightarrow> p \<in> set ps \<Longrightarrow> \<exists>e. h p = Some e"
  by (induction ps arbitrary: a cur) auto

lemma dseg_set_next:
  assumes "dseg h a cur (ps @ [q]) m" "q \<notin> set ps" "h q = Some e"
  shows "dseg (h(q \<mapsto> e\<lparr>le_next := m'\<rparr>)) a cur (ps @ [q]) m'"
proof -
  obtain m1 where "dseg h a cur ps m1" "dseg h (lastp a ps) m1 [q] m" using assms(1) by (auto simp: dseg_append)
  moreover have "dseg (h(q \<mapsto> e\<lparr>le_next := m'\<rparr>)) a cur ps m1 = dseg h a cur ps m1"
    using assms(2) by (intro dseg_cong) auto
  ultimately show ?thesis using assms(3) by (auto simp: dseg_append)
qed

lemma dseg_set_prev:
  assumes "dseg h a cur (q # qs) nxt" "q \<notin> set qs" "h q = Some e"
  shows "dseg (h(q \<mapsto> e\<lparr>le_prev := a'\<rparr>)) a' cur (q # qs) nxt"
proof -
  have "dseg (h(q \<mapsto> e\<lparr>le_prev := a'\<rparr>)) (Some q) (le_next e) qs nxt = dseg h (Some q) (le_next e) qs nxt"
    using assms(2) by (intro dseg_cong) auto
  then show ?thesis using assms by auto
qed

lemma datas_cong:
  "(\<And>p. p \<in> set ps \<Longrightarrow> le_data (the (h' p)) = le_data (the (h p))) \<Longrightarrow> datas h' ps = datas h ps"
  by (simp add: datas_def)

lemma datas_app [simp]: "datas h (ps @ qs) = datas h ps @ datas h qs" "datas h [] = []"
    "datas h (p # ps) = le_data (the (h p)) # datas h ps"
  by (simp_all add: datas_def)

text \<open>The traversals end and see the represented list.\<close>

lemma find_element_dseg:
  "dseg h a cur ps None \<Longrightarrow> find_element P h cur = Some (List.find (\<lambda>p. P (le_data (the (h p)))) ps)"
  by (induction ps arbitrary: a cur) (subst find_element.simps; auto)+

lemma data_from_dseg: "dseg h a cur ps None \<Longrightarrow> data_from h cur = Some (datas h ps)"
  by (induction ps arbitrary: a cur) (subst data_from.simps; auto)+

lemma nodes_from_dseg: "dseg h a cur ps None \<Longrightarrow> nodes_from h cur = Some ps"
  by (induction ps arbitrary: a cur) (subst nodes_from.simps; auto)+

lemma run_dtor_fields [simp]:
  "l_heap (run_dtor x l) = l_heap l" "l_brk (run_dtor x l) = l_brk l" "l_dtor (run_dtor x l) = l_dtor l"
  "l_head (run_dtor x l) = l_head l" "l_tail (run_dtor x l) = l_tail l" "l_count (run_dtor x l) = l_count l"
  "l_log (run_dtor x l) = l_log l @ (if l_dtor l then [x] else [])"
  by (simp_all add: run_dtor_def)

lemma destroy_from_dseg:
  "dseg (l_heap l) a cur ps None \<Longrightarrow> distinct ps \<Longrightarrow>
     \<exists>l'. destroy_from l cur = Some l' \<and> l_heap l' = l_heap l |` (- set ps) \<and> l_brk l' = l_brk l
       \<and> l_dtor l' = l_dtor l \<and> l_log l' = l_log l @ (if l_dtor l then datas (l_heap l) ps else [])"
proof (induction ps arbitrary: a cur l)
  case Nil
  then show ?case by (subst destroy_from.simps) (simp add: restrict_map_def fun_eq_iff)
next
  case (Cons p ps)
  obtain e where e: "cur = Some p" "l_heap l p = Some e" "dseg (l_heap l) (Some p) (le_next e) ps None"
    using Cons.prems(1) by auto
  let ?l = "(run_dtor (le_data e) l)\<lparr>l_heap := (l_heap l)(p := None)\<rparr>"
  have "dseg (l_heap ?l) (Some p) (le_next e) ps None = dseg (l_heap l) (Some p) (le_next e) ps None"
    using Cons.prems(2) by (intro dseg_cong) auto
  then obtain l' where l': "destroy_from ?l (le_next e) = Some l'" "l_heap l' = l_heap ?l |` (- set ps)"
    "l_brk l' = l_brk ?l" "l_dtor l' = l_dtor ?l" "l_log l' = l_log ?l @ (if l_dtor ?l then datas (l_heap ?l) ps else [])"
    using Cons.IH[of ?l] Cons.prems(2) e(3) by fastforce
  have "datas (l_heap ?l) ps = datas (l_heap l) ps" using Cons.prems(2) by (intro datas_cong) auto
  moreover have "destroy_from l cur = destroy_from ?l (le_next e)" using e by (subst destroy_from.simps) (simp add: Let_def)
  moreover have "(l_heap l)(p := None) |` (- set ps) = l_heap l |` (- set (p # ps))"
    by (auto simp: restrict_map_def fun_eq_iff)
  ultimately show ?case using l' e(2) by auto
qed

section \<open>The operations on representations\<close>

lemma add_nodes:
  assumes "nodes_rep l ps"
  shows "\<exists>l'. zend_llist_add_element x l = Some l' \<and> nodes_rep l' (ps @ [l_brk l])
     \<and> datas (l_heap l') (ps @ [l_brk l]) = datas (l_heap l) ps @ [x] \<and> l_dtor l' = l_dtor l \<and> l_log l' = l_log l"
proof -
  let ?t = "l_brk l"
  note r = assms[unfolded nodes_rep_def]
  have fresh: "l_heap l ?t = None" using r by blast
  have tn: "?t \<notin> set ps" using dseg_mem[of "l_heap l" None "l_head l" ps None ?t] r fresh by auto
  let ?h = "(l_heap l)(?t \<mapsto> \<lparr>le_next = None, le_prev = l_tail l, le_data = x\<rparr>)"
  show ?thesis
  proof (cases ps rule: rev_cases)
    case Nil
    then show ?thesis using r by (auto simp: zend_llist_add_element_def nodes_rep_def Let_def less_Suc_eq)
  next
    case (snoc qs q)
    then have q: "l_tail l = Some q" "q \<noteq> ?t" "q \<notin> set qs" using r tn by auto
    obtain e where e: "l_heap l q = Some e" using dseg_mem[of "l_heap l" None "l_head l" ps None q] r snoc by auto
    let ?h' = "?h(q \<mapsto> e\<lparr>le_next := Some ?t\<rparr>)"
    have "dseg ?h None (l_head l) (qs @ [q]) None = dseg (l_heap l) None (l_head l) (qs @ [q]) None"
      using tn snoc by (intro dseg_cong) auto
    then have "dseg ?h' None (l_head l) (qs @ [q]) (Some ?t)"
      using r snoc q e by (intro dseg_set_next[where m=None]) auto
    then have "dseg ?h' None (l_head l) (ps @ [?t]) None" using q snoc by (auto simp: dseg_append)
    moreover have "datas ?h' ps = datas (l_heap l) ps" using tn e by (intro datas_cong) auto
    ultimately show ?thesis using r q e tn snoc
      by (auto simp: zend_llist_add_element_def nodes_rep_def Let_def upd_node_def less_Suc_eq lastp_def)
  qed
qed

lemma prepend_nodes:
  assumes "nodes_rep l ps"
  shows "\<exists>l'. zend_llist_prepend_element x l = Some l' \<and> nodes_rep l' (l_brk l # ps)
     \<and> datas (l_heap l') (l_brk l # ps) = x # datas (l_heap l) ps \<and> l_dtor l' = l_dtor l \<and> l_log l' = l_log l"
proof -
  let ?t = "l_brk l"
  note r = assms[unfolded nodes_rep_def]
  have fresh: "l_heap l ?t = None" using r by blast
  have tn: "?t \<notin> set ps" using dseg_mem[of "l_heap l" None "l_head l" ps None ?t] r fresh by auto
  let ?h = "(l_heap l)(?t \<mapsto> \<lparr>le_next = l_head l, le_prev = None, le_data = x\<rparr>)"
  show ?thesis
  proof (cases ps)
    case Nil
    then show ?thesis using r by (auto simp: zend_llist_prepend_element_def nodes_rep_def Let_def less_Suc_eq)
  next
    case (Cons q qs)
    then have q: "l_head l = Some q" "q \<noteq> ?t" "q \<notin> set qs" using r tn by auto
    obtain e where e: "l_heap l q = Some e" using dseg_mem[of "l_heap l" None "l_head l" ps None q] r Cons by auto
    let ?h' = "?h(q \<mapsto> e\<lparr>le_prev := Some ?t\<rparr>)"
    have "dseg ?h None (Some q) (q # qs) None = dseg (l_heap l) None (Some q) (q # qs) None"
      using tn Cons by (intro dseg_cong) auto
    then have "dseg ?h' (Some ?t) (Some q) (q # qs) None"
      using r Cons q e by (intro dseg_set_prev[where a=None]) auto
    moreover have "datas ?h' ps = datas (l_heap l) ps" using tn e by (intro datas_cong) auto
    ultimately show ?thesis using r q e tn Cons
      by (auto simp: zend_llist_prepend_element_def nodes_rep_def Let_def upd_node_def less_Suc_eq)
  qed
qed

text \<open>Unlinking a node: the heap without it, and both neighbours joined.\<close>

definition unlinked :: "nat \<Rightarrow> 'a llist_element \<Rightarrow> 'a heap \<Rightarrow> 'a heap" where
  "unlinked p e h =
     (let h1 = (case le_prev e of None \<Rightarrow> h | Some q \<Rightarrow> h(q := map_option (\<lambda>d. d\<lparr>le_next := le_next e\<rparr>) (h q)));
          h2 = (case le_next e of None \<Rightarrow> h1 | Some q \<Rightarrow> h1(q := map_option (\<lambda>d. d\<lparr>le_prev := le_prev e\<rparr>) (h1 q)))
      in h2(p := None))"

lemma dseg_unlinked:
  assumes "dseg h None hd0 (ps @ p # qs) None" "distinct (ps @ p # qs)" "h p = Some e"
  shows "le_prev e = lastp None ps" "le_next e = (case qs of [] \<Rightarrow> None | q # _ \<Rightarrow> Some q)"
    "dseg (unlinked p e h) None (if ps = [] then le_next e else hd0) (ps @ qs) None"
    "\<And>r. r \<in> set (ps @ qs) \<Longrightarrow> le_data (the (unlinked p e h r)) = le_data (the (h r))"
    "\<And>r. unlinked p e h r \<noteq> None \<Longrightarrow> h r \<noteq> None"
proof -
  have seg: "dseg h None hd0 ps (Some p)" "dseg h (Some p) (le_next e) qs None" and pv: "le_prev e = lastp None ps"
    using assms(1,3) by (auto simp: dseg_append)
  show "le_prev e = lastp None ps" by (rule pv)
  show nx: "le_next e = (case qs of [] \<Rightarrow> None | q # _ \<Rightarrow> Some q)" using seg(2) by (cases qs) auto
  define h1 where "h1 = (case le_prev e of None \<Rightarrow> h | Some q \<Rightarrow> h(q := map_option (\<lambda>d. d\<lparr>le_next := le_next e\<rparr>) (h q)))"
  define h2 where "h2 = (case le_next e of None \<Rightarrow> h1 | Some q \<Rightarrow> h1(q := map_option (\<lambda>d. d\<lparr>le_prev := le_prev e\<rparr>) (h1 q)))"
  have u: "unlinked p e h = h2(p := None)" unfolding unlinked_def Let_def h2_def h1_def ..
  have left: "dseg h1 None (if ps = [] then le_next e else hd0) ps (le_next e)"
  proof (cases ps rule: rev_cases)
    case (snoc rs q)
    obtain d where "h q = Some d" using dseg_mem[OF seg(1), of q] snoc by auto
    moreover from this have "dseg (h(q \<mapsto> d\<lparr>le_next := le_next e\<rparr>)) None hd0 (rs @ [q]) (le_next e)"
      using seg(1) snoc assms(2) by (intro dseg_set_next[where m="Some p"]) auto
    ultimately show ?thesis using snoc pv by (simp add: h1_def)
  qed simp
  have h1q: "h1 q = h q" if "q \<in> set qs" for q
  proof -
    have "ps \<noteq> [] \<Longrightarrow> last ps \<noteq> q" using that assms(2) last_in_set[of ps] by (auto simp del: last_in_set)
    then show ?thesis using pv by (auto simp: h1_def lastp_def split: option.split)
  qed
  have h2p: "h2 r = h1 r" if "r \<in> set ps" for r using that nx assms(2) by (auto simp: h2_def split: option.split list.splits)
  have right: "dseg h2 (lastp None ps) (le_next e) qs None"
  proof (cases qs)
    case (Cons q rs)
    obtain d where d: "h1 q = Some d" using dseg_mem[OF seg(2), of q] Cons h1q by auto
    have "dseg h1 (Some p) (le_next e) qs None" using seg(2) dseg_cong[of qs h1 h] h1q by simp
    then have "dseg (h1(q \<mapsto> d\<lparr>le_prev := le_prev e\<rparr>)) (le_prev e) (le_next e) (q # rs) None"
      using Cons assms(2) d by (intro dseg_set_prev[where a="Some p"]) auto
    then show ?thesis using Cons nx d pv by (simp add: h2_def)
  qed (simp add: nx)
  have "dseg h2 None (if ps = [] then le_next e else hd0) (ps @ qs) None"
    unfolding dseg_append using left right dseg_cong[of ps h2 h1] h2p by auto
  then show "dseg (unlinked p e h) None (if ps = [] then le_next e else hd0) (ps @ qs) None"
    unfolding u using assms(2) by (subst dseg_cong[of "ps @ qs" _ h2]) auto
  show "\<And>r. unlinked p e h r \<noteq> None \<Longrightarrow> h r \<noteq> None"
    by (auto simp: u h2_def h1_def split: option.splits if_splits)
  fix r assume r: "r \<in> set (ps @ qs)"
  then obtain d where "h r = Some d" using dseg_mem[OF assms(1), of r] by auto
  then show "le_data (the (unlinked p e h r)) = le_data (the (h r))"
    using r assms(2) by (auto simp: u h2_def h1_def split: option.splits)
qed

lemma DEL_eq:
  assumes "l_heap l p = Some e" "\<And>a. le_prev e = Some a \<Longrightarrow> l_heap l a \<noteq> None"
    "\<And>a. le_next e = Some a \<Longrightarrow> l_heap l a \<noteq> None"
  shows "DEL_LLIST_ELEMENT p l = Some ((run_dtor (le_data e) l)\<lparr>l_heap := unlinked p e (l_heap l),
     l_head := (if le_prev e = None then le_next e else l_head l),
     l_tail := (if le_next e = None then le_prev e else l_tail l), l_count := l_count l - 1\<rparr>)"
proof -
  have pv: "le_prev e = None \<or> (\<exists>a d. le_prev e = Some a \<and> l_heap l a = Some d)" using assms(2) by (cases "le_prev e") auto
  have nx: "le_next e = None \<or> (\<exists>a d. le_next e = Some a \<and> l_heap l a = Some d)" using assms(3) by (cases "le_next e") auto
  show ?thesis
  proof (cases l)
    case (fields hd tl ct dt tr h br lg)
    then show ?thesis using assms(1) pv nx
      by (elim disjE exE conjE)
         (auto simp: DEL_LLIST_ELEMENT_def upd_node_def unlinked_def Let_def run_dtor_def)
  qed
qed

lemma del_nodes:
  assumes "nodes_rep l (ps @ p # qs)"
  shows "\<exists>l'. DEL_LLIST_ELEMENT p l = Some l' \<and> nodes_rep l' (ps @ qs)
     \<and> datas (l_heap l') (ps @ qs) = datas (l_heap l) (ps @ qs) \<and> l_dtor l' = l_dtor l
     \<and> l_log l' = l_log l @ (if l_dtor l then [le_data (the (l_heap l p))] else [])"
proof -
  note r = assms[unfolded nodes_rep_def]
  have ds: "dseg (l_heap l) None (l_head l) (ps @ p # qs) None" and di: "distinct (ps @ p # qs)" using r by auto
  obtain e where e: "l_heap l p = Some e" using dseg_mem[OF ds, of p] by auto
  note u = dseg_unlinked[OF ds di e]
  have ex: "l_heap l q \<noteq> None" if "q \<in> set (ps @ qs)" for q using dseg_mem[OF ds, of q] that by auto
  have pq: "le_prev e = Some a \<Longrightarrow> a \<in> set (ps @ qs) \<and> a \<noteq> p \<and> le_next e \<noteq> Some a" for a
    using u(1,2) di by (auto simp: lastp_def split: if_splits list.splits)
  have nq: "le_next e = Some a \<Longrightarrow> a \<in> set (ps @ qs) \<and> a \<noteq> p" for a
    using u(2) di by (auto split: list.splits)
  have tl: "l_tail l = Some (last (p # qs))" using r by (simp add: lastp_def)
  obtain l' where l': "DEL_LLIST_ELEMENT p l = Some l'" "l_heap l' = unlinked p e (l_heap l)" "l_brk l' = l_brk l"
    "l_head l' = (if le_prev e = None then le_next e else l_head l)"
    "l_tail l' = (if le_next e = None then le_prev e else l_tail l)" "l_count l' = l_count l - 1"
    "l_dtor l' = l_dtor l" "l_log l' = l_log l @ (if l_dtor l then [le_data e] else [])"
    using DEL_eq[OF e] ex pq nq by force
  have "(le_prev e = None) = (ps = [])" using u(1) by (simp add: lastp_def)
  then have "dseg (l_heap l') None (l_head l') (ps @ qs) None" using u(3) l'(2,4) by simp
  moreover have "l_tail l' = lastp None (ps @ qs)" using l'(5) u(1,2) tl by (auto simp: lastp_def split: list.splits)
  ultimately have "nodes_rep l' (ps @ qs)" using r l' u(5) di by (auto simp: nodes_rep_def)
  moreover have "datas (l_heap l') (ps @ qs) = datas (l_heap l) (ps @ qs)" unfolding l'(2) by (rule datas_cong) (rule u(4))
  ultimately show ?thesis using l' e by auto
qed

lemma remove_tail_nodes:
  assumes "nodes_rep l (ps @ [p])"
  shows "zend_llist_remove_tail l = DEL_LLIST_ELEMENT p l"
proof -
  note r = assms[unfolded nodes_rep_def]
  have ds: "dseg (l_heap l) None (l_head l) (ps @ [p]) None" and di: "distinct (ps @ [p])" using r by auto
  obtain e where e: "l_heap l p = Some e" using dseg_mem[OF ds, of p] by auto
  have pv: "le_prev e = lastp None ps" "le_next e = None" using dseg_unlinked(1,2)[OF ds di e] by auto
  have pq: "a \<noteq> p" if "le_prev e = Some a" for a using that pv di by (auto simp: lastp_def split: if_splits)
  have "\<exists>d. l_heap l a = Some d" if "le_prev e = Some a" for a
    using that pv(1) dseg_mem[OF ds, of a] by (auto simp: lastp_def split: if_splits)
  then show ?thesis using e pv(2) pq r
    by (cases "le_prev e"; cases l)
       (auto simp: zend_llist_remove_tail_def DEL_LLIST_ELEMENT_def upd_node_def Let_def run_dtor_def)
qed

lemma apply_del_nodes:
  "nodes_rep l (qs @ ps) \<Longrightarrow> cur = (case ps of [] \<Rightarrow> None | p # _ \<Rightarrow> Some p) \<Longrightarrow>
     \<exists>l'. apply_del_from f l cur = Some l' \<and> represents l' (datas (l_heap l) qs @ filter (\<lambda>x. \<not> f x) (datas (l_heap l) ps))
       \<and> l_log l' = l_log l @ (if l_dtor l then filter f (datas (l_heap l) ps) else [])"
proof (induction ps arbitrary: qs l cur)
  case Nil
  then show ?case by (subst apply_del_from.simps) (auto simp: represents_def)
next
  case (Cons p ps)
  have ds: "dseg (l_heap l) None (l_head l) (qs @ p # ps) None" and di: "distinct (qs @ p # ps)"
    using Cons.prems(1) by (auto simp: nodes_rep_def)
  obtain e where e: "l_heap l p = Some e" using dseg_mem[OF ds, of p] by auto
  have nx: "le_next e = (case ps of [] \<Rightarrow> None | p # _ \<Rightarrow> Some p)" using dseg_unlinked(2)[OF ds di e] .
  show ?case
  proof (cases "f (le_data e)")
    case False
    have "apply_del_from f l cur = apply_del_from f l (le_next e)"
      using False e Cons.prems(2) by (subst apply_del_from.simps) simp
    moreover have "nodes_rep l ((qs @ [p]) @ ps)" using Cons.prems(1) by simp
    ultimately show ?thesis using Cons.IH[of l "qs @ [p]" "le_next e"] nx False e by auto
  next
    case True
    obtain l1 where l1: "DEL_LLIST_ELEMENT p l = Some l1" "nodes_rep l1 (qs @ ps)"
      "datas (l_heap l1) (qs @ ps) = datas (l_heap l) (qs @ ps)" "l_dtor l1 = l_dtor l"
      "l_log l1 = l_log l @ (if l_dtor l then [le_data (the (l_heap l p))] else [])"
      using del_nodes[OF Cons.prems(1)] by blast
    have d: "datas (l_heap l1) qs = datas (l_heap l) qs" "datas (l_heap l1) ps = datas (l_heap l) ps"
      using l1(3) by (simp_all add: datas_def)
    have "apply_del_from f l cur = apply_del_from f l1 (le_next e)"
      using True e Cons.prems(2) l1(1) by (subst apply_del_from.simps) simp
    then show ?thesis using Cons.IH[OF l1(2) nx] d l1 True e by auto
  qed
qed

lemma relink_dseg:
  assumes "distinct ps" "\<And>p. p \<in> set ps \<Longrightarrow> h p \<noteq> None"
  shows "dseg (relink a ps h) a (case ps of [] \<Rightarrow> None | p # _ \<Rightarrow> Some p) ps None
    \<and> (\<forall>r. r \<notin> set ps \<longrightarrow> relink a ps h r = h r)
    \<and> (\<forall>r. map_option le_data (relink a ps h r) = map_option le_data (h r))"
  using assms
proof (induction ps arbitrary: a h)
  case (Cons p ps)
  obtain e where e: "h p = Some e" using Cons.prems(2) by fastforce
  let ?e = "e\<lparr>le_prev := a, le_next := (case ps of [] \<Rightarrow> None | q # _ \<Rightarrow> Some q)\<rparr>"
  let ?h = "h(p \<mapsto> ?e)"
  have rl: "relink a (p # ps) h = relink (Some p) ps ?h" using e by simp
  have ih: "dseg (relink (Some p) ps ?h) (Some p) (case ps of [] \<Rightarrow> None | q # _ \<Rightarrow> Some q) ps None"
    "\<forall>r. r \<notin> set ps \<longrightarrow> relink (Some p) ps ?h r = ?h r"
    "\<forall>r. map_option le_data (relink (Some p) ps ?h r) = map_option le_data (?h r)"
  proof -
    have "distinct ps" using Cons.prems(1) by simp
    moreover have "?h q \<noteq> None" if "q \<in> set ps" for q using Cons.prems(2)[of q] that by simp
    ultimately have "dseg (relink (Some p) ps ?h) (Some p) (case ps of [] \<Rightarrow> None | q # _ \<Rightarrow> Some q) ps None
      \<and> (\<forall>r. r \<notin> set ps \<longrightarrow> relink (Some p) ps ?h r = ?h r)
      \<and> (\<forall>r. map_option le_data (relink (Some p) ps ?h r) = map_option le_data (?h r))" by (rule Cons.IH)
    then show "dseg (relink (Some p) ps ?h) (Some p) (case ps of [] \<Rightarrow> None | q # _ \<Rightarrow> Some q) ps None"
      "\<forall>r. r \<notin> set ps \<longrightarrow> relink (Some p) ps ?h r = ?h r"
      "\<forall>r. map_option le_data (relink (Some p) ps ?h r) = map_option le_data (?h r)" by blast+
  qed
  have "relink (Some p) ps ?h p = Some ?e" using ih(2) Cons.prems(1) by auto
  then show ?case unfolding rl using ih e Cons.prems(1) by auto
qed simp

section \<open>Properties\<close>

text \<open>A list of three nodes, built by the operations themselves, for the witnesses.\<close>

definition empty_llist :: "'a zend_llist" where
  "empty_llist = \<lparr>l_head = None, l_tail = None, l_count = 0, l_dtor = True, l_traverse = None,
     l_heap = Map.empty, l_brk = 0, l_log = []\<rparr>"

definition demo_llist :: "int zend_llist" where
  "demo_llist = the (add_all [5, 9, 7] empty_llist)"

lemma represents_empty: "represents empty_llist []"
  by (auto simp: represents_def nodes_rep_def empty_llist_def intro!: exI[of _ "[]"])

lemma representsI: "nodes_rep l ps \<Longrightarrow> datas (l_heap l) ps = xs \<Longrightarrow> represents l xs"
  by (auto simp: represents_def)

lemma representsE:
  assumes "represents l xs"
  obtains ps where "nodes_rep l ps" "xs = datas (l_heap l) ps"
  using assms unfolding represents_def by blast

lemma represents_count: "represents l xs \<Longrightarrow> l_count l = length xs"
  by (auto simp: represents_def nodes_rep_def datas_def)

lemma add_rep:
  assumes "represents l xs"
  obtains l' where "zend_llist_add_element x l = Some l'" "represents l' (xs @ [x])" "l_dtor l' = l_dtor l"
    "l_log l' = l_log l"
proof -
  obtain ps where r: "nodes_rep l ps" "xs = datas (l_heap l) ps" using representsE[OF assms] by blast
  obtain l' where l': "zend_llist_add_element x l = Some l'" "nodes_rep l' (ps @ [l_brk l])"
    "datas (l_heap l') (ps @ [l_brk l]) = datas (l_heap l) ps @ [x]" "l_dtor l' = l_dtor l" "l_log l' = l_log l"
    using add_nodes[OF r(1)] by blast
  show thesis using that[OF l'(1) _ l'(4,5)] representsI[OF l'(2,3)] r(2) by blast
qed

lemma add_all_rep:
  "represents l xs \<Longrightarrow> \<exists>l'. add_all ys l = Some l' \<and> represents l' (xs @ ys) \<and> l_dtor l' = l_dtor l \<and> l_log l' = l_log l"
proof (induction ys arbitrary: l xs)
  case (Cons y ys)
  obtain l1 where l1: "zend_llist_add_element y l = Some l1" "represents l1 (xs @ [y])" "l_dtor l1 = l_dtor l"
    "l_log l1 = l_log l" using add_rep[OF Cons.prems] by metis
  then show ?case using Cons.IH[OF l1(2)] by auto
qed simp

lemma demo_rep: "represents demo_llist [5, 9, 7]" "l_dtor demo_llist" "l_log demo_llist = []"
proof -
  obtain l' where "add_all [5, 9, 7 :: int] empty_llist = Some l'" "represents l' [5, 9, 7]"
    "l_dtor l' = l_dtor (empty_llist :: int zend_llist)" "l_log l' = l_log (empty_llist :: int zend_llist)"
    using add_all_rep[OF represents_empty, of "[5, 9, 7 :: int]"] by auto
  then show "represents demo_llist [5, 9, 7]" "l_dtor demo_llist" "l_log demo_llist = []"
    by (simp_all add: demo_llist_def empty_llist_def)
qed

lemma find_append_hit:
  "P b \<Longrightarrow> (\<And>x. x \<in> set as \<Longrightarrow> \<not> P x) \<Longrightarrow> List.find P (as @ b # bs) = Some b"
  by (induction as) auto

text \<open>Adding and prepending work on the nodes as on a list: the new element goes to the
  end or the front, all links stay consistent, and nothing is destroyed.\<close>

theorem llist_add_prepend:
  assumes "represents l xs"
  shows "\<exists>l1 l2. zend_llist_add_element x l = Some l1 \<and> represents l1 (xs @ [x]) \<and> l_log l1 = l_log l
    \<and> zend_llist_prepend_element x l = Some l2 \<and> represents l2 (x # xs) \<and> l_log l2 = l_log l
    \<and> zend_llist_count l1 = Suc (length xs) \<and> zend_llist_count l2 = Suc (length xs)"
proof -
  obtain ps where r: "nodes_rep l ps" "xs = datas (l_heap l) ps" using representsE[OF assms] by blast
  obtain l1 where l1: "zend_llist_add_element x l = Some l1" "represents l1 (xs @ [x])" "l_log l1 = l_log l"
    using add_rep[OF assms] by metis
  obtain l2 where l2: "zend_llist_prepend_element x l = Some l2" "nodes_rep l2 (l_brk l # ps)"
    "datas (l_heap l2) (l_brk l # ps) = x # datas (l_heap l) ps" "l_log l2 = l_log l"
    using prepend_nodes[OF r(1)] by blast
  have r2: "represents l2 (x # xs)" using representsI[OF l2(2,3)] r(2) by simp
  have "l_count l1 = Suc (length xs)" "l_count l2 = Suc (length xs)"
    using represents_count[OF l1(2)] represents_count[OF r2] by simp_all
  then show ?thesis using l1 l2 r2 by (auto simp: zend_llist_count_def)
qed

theorem llist_add_prepend_witness:
  "\<exists>l1 l2. zend_llist_add_element 4 demo_llist = Some l1 \<and> represents l1 [5, 9, 7, 4]
    \<and> zend_llist_prepend_element 4 demo_llist = Some l2 \<and> represents l2 [4, 5, 9, 7] \<and> zend_llist_count l2 = 4"
  using llist_add_prepend[OF demo_rep(1), of 4] by auto

text \<open>\<open>zend_llist_del_element\<close> always returns, removes the first element the comparison
  accepts (none if there is none), relinks its neighbours, and destroys exactly it.\<close>

theorem llist_del_first_match:
  assumes "represents l xs"
  shows "\<exists>l'. zend_llist_del_element y cmp l = Some l'
    \<and> (case List.find (\<lambda>x. cmp x y) xs of
         None \<Rightarrow> l' = l
       | Some x \<Rightarrow> represents l' (remove1 x xs) \<and> l_log l' = l_log l @ (if l_dtor l then [x] else []))"
proof -
  obtain ps where r: "nodes_rep l ps" "xs = datas (l_heap l) ps" using representsE[OF assms] by blast
  let ?d = "\<lambda>p. le_data (the (l_heap l p))"
  have f: "find_element (\<lambda>d. cmp d y) (l_heap l) (l_head l) = Some (List.find (\<lambda>p. cmp (?d p) y) ps)"
    using r(1) by (intro find_element_dseg[of _ None]) (simp add: nodes_rep_def)
  show ?thesis
  proof (cases "List.find (\<lambda>p. cmp (?d p) y) ps")
    case None
    then have "List.find (\<lambda>x. cmp x y) xs = None" using r(2) by (auto simp: find_None_iff datas_def)
    then show ?thesis using None f by (simp add: zend_llist_del_element_def)
  next
    case (Some p)
    then obtain qs rs where s: "ps = qs @ p # rs" "cmp (?d p) y" "\<And>q. q \<in> set qs \<Longrightarrow> \<not> cmp (?d q) y"
      by (auto simp: find_Some_iff) (metis id_take_nth_drop in_set_conv_nth length_take min.absorb4 nth_take)
    have xs: "xs = datas (l_heap l) qs @ ?d p # datas (l_heap l) rs" using r(2) s(1) by simp
    have nq: "\<not> cmp x y" if "x \<in> set (datas (l_heap l) qs)" for x using that s(3) by (auto simp: datas_def)
    have fx: "List.find (\<lambda>x. cmp x y) xs = Some (?d p)"
      unfolding xs by (rule find_append_hit) (use s(2) nq in blast)+
    have "?d p \<notin> set (datas (l_heap l) qs)" using nq s(2) by blast
    then have rm: "remove1 (?d p) xs = datas (l_heap l) (qs @ rs)" using xs by (simp add: remove1_append)
    obtain l' where l': "DEL_LLIST_ELEMENT p l = Some l'" "nodes_rep l' (qs @ rs)"
      "datas (l_heap l') (qs @ rs) = datas (l_heap l) (qs @ rs)"
      "l_log l' = l_log l @ (if l_dtor l then [?d p] else [])"
      using del_nodes[of l qs p rs] r(1) s(1) by blast
    have "represents l' (remove1 (?d p) xs)" using representsI[OF l'(2)] l'(3) rm by simp
    then show ?thesis using l'(1,4) f Some fx by (simp add: zend_llist_del_element_def)
  qed
qed

theorem llist_del_first_match_witness:
  "\<exists>l'. zend_llist_del_element 6 (\<lambda>x y. y < x) demo_llist = Some l' \<and> represents l' [5, 7] \<and> l_log l' = [9]"
  using llist_del_first_match[OF demo_rep(1), of 6 "\<lambda>x y. y < x"] by (auto simp: demo_rep)

text \<open>\<open>zend_llist_apply_with_del\<close> always returns and keeps exactly the elements the function
  rejects, in order; the deleted ones are destroyed in list order.\<close>

theorem llist_apply_with_del_filters:
  assumes "represents l xs"
  shows "\<exists>l'. zend_llist_apply_with_del f l = Some l' \<and> represents l' (filter (\<lambda>x. \<not> f x) xs)
    \<and> l_log l' = l_log l @ (if l_dtor l then filter f xs else [])"
proof -
  obtain ps where r: "nodes_rep l ps" "xs = datas (l_heap l) ps" using representsE[OF assms] by blast
  have hd: "l_head l = (case ps of [] \<Rightarrow> None | p # _ \<Rightarrow> Some p)" using r(1) by (cases ps) (auto simp: nodes_rep_def)
  have "nodes_rep l ([] @ ps)" using r(1) by simp
  from apply_del_nodes[OF this hd, of f] show ?thesis
    unfolding zend_llist_apply_with_del_def r(2) datas_app append_Nil by blast
qed

theorem llist_apply_with_del_filters_witness:
  "\<exists>l'. zend_llist_apply_with_del (\<lambda>x. x < 8) demo_llist = Some l' \<and> represents l' [9] \<and> l_log l' = [5, 7]"
  using llist_apply_with_del_filters[OF demo_rep(1), of "\<lambda>x. x < 8"] by (simp add: demo_rep)

lemma remove_tail_rep:
  assumes "represents l xs"
  shows "\<exists>l1. zend_llist_remove_tail l = Some l1 \<and> represents l1 (butlast xs)"
proof -
  obtain ps where r: "nodes_rep l ps" "xs = datas (l_heap l) ps" using representsE[OF assms] by blast
  show ?thesis
  proof (cases ps rule: rev_cases)
    case Nil
    then show ?thesis using r assms by (auto simp: zend_llist_remove_tail_def nodes_rep_def)
  next
    case (snoc qs p)
    obtain l1 where l1: "DEL_LLIST_ELEMENT p l = Some l1" "nodes_rep l1 qs" "datas (l_heap l1) qs = datas (l_heap l) qs"
      using del_nodes[of l qs p "[]"] r(1) snoc by auto
    have "butlast xs = datas (l_heap l) qs" using r(2) snoc by (simp add: butlast_append)
    then show ?thesis using remove_tail_nodes[of l qs p] r(1) snoc l1(1) representsI[OF l1(2,3)] by simp
  qed
qed

text \<open>\<open>zend_llist_remove_tail\<close> drops the last element, \<open>zend_llist_clean\<close> all of them, freeing
  every node and destroying the data in order; both leave a consistent list.\<close>

theorem llist_remove_tail_clean:
  assumes "represents l xs"
  shows "\<exists>l1 l2. zend_llist_remove_tail l = Some l1 \<and> represents l1 (butlast xs)
    \<and> zend_llist_clean l = Some l2 \<and> represents l2 [] \<and> zend_llist_count l2 = 0
    \<and> l_log l2 = l_log l @ (if l_dtor l then xs else [])"
proof -
  obtain ps where r: "nodes_rep l ps" "xs = datas (l_heap l) ps" using representsE[OF assms] by blast
  obtain l' where l': "destroy_from l (l_head l) = Some l'" "l_heap l' = l_heap l |` (- set ps)"
    "l_brk l' = l_brk l" "l_log l' = l_log l @ (if l_dtor l then datas (l_heap l) ps else [])"
    using destroy_from_dseg[of l None "l_head l" ps] r(1) unfolding nodes_rep_def by blast
  have "represents (l'\<lparr>l_count := 0, l_head := None, l_tail := None\<rparr>) []"
    using l'(2,3) r(1) by (auto simp: represents_def nodes_rep_def restrict_map_def intro!: exI[of _ "[]"])
  then show ?thesis using remove_tail_rep[OF assms] l'(1,4) r(2)
    by (simp add: zend_llist_clean_def zend_llist_destroy_def zend_llist_count_def)
qed

theorem llist_remove_tail_clean_witness:
  "\<exists>l1 l2. zend_llist_remove_tail demo_llist = Some l1 \<and> represents l1 [5, 9]
    \<and> zend_llist_clean demo_llist = Some l2 \<and> represents l2 [] \<and> l_log l2 = [5, 9, 7]"
  using llist_remove_tail_clean[OF demo_rep(1)] by (auto simp: demo_rep)

lemma copy_rep:
  assumes "represents src xs" "represents dst ys"
  shows "\<exists>dst'. zend_llist_copy dst src = Some dst' \<and> represents dst' xs \<and> l_log dst' = l_log dst
    \<and> l_dtor dst' = l_dtor src"
proof -
  obtain ps where r: "nodes_rep src ps" "xs = datas (l_heap src) ps" using representsE[OF assms(1)] by blast
  have d: "data_from (l_heap src) (l_head src) = Some xs"
    using r data_from_dseg[of "l_heap src" None "l_head src" ps] by (simp add: nodes_rep_def)
  have "represents (zend_llist_init (l_dtor src) dst) []"
    using assms(2) by (auto simp: represents_def nodes_rep_def zend_llist_init_def intro!: exI[of _ "[]"])
  from add_all_rep[OF this, of xs] show ?thesis using d by (auto simp: zend_llist_copy_def zend_llist_init_def)
qed

text \<open>A copy holds the same elements in the same order, on nodes of its own, and the
  traversals call the function on every element once, in order.\<close>

theorem llist_copy_and_apply:
  assumes "represents src xs" "represents dst ys"
  shows "\<exists>dst'. zend_llist_copy dst src = Some dst' \<and> represents dst' xs
    \<and> zend_llist_apply f s src = Some (foldl f s xs) \<and> zend_llist_apply f s dst' = Some (foldl f s xs)"
proof -
  have ap: "zend_llist_apply f s l = Some (foldl f s zs)" if rl: "represents l zs" for l zs
  proof -
    obtain ps where r: "nodes_rep l ps" "zs = datas (l_heap l) ps" using representsE[OF rl] by blast
    then show ?thesis using data_from_dseg[of "l_heap l" None "l_head l" ps]
      by (simp add: zend_llist_apply_def nodes_rep_def)
  qed
  show ?thesis using copy_rep[OF assms] ap[OF assms(1)] ap by blast
qed

theorem llist_copy_and_apply_witness:
  "\<exists>dst'. zend_llist_copy empty_llist demo_llist = Some dst' \<and> represents dst' [5, 9, 7]
    \<and> zend_llist_apply (\<lambda>s x. s + x) 0 dst' = Some 21"
  using llist_copy_and_apply[OF demo_rep(1) represents_empty, of "\<lambda>s x. s + x" 0] by auto

text \<open>The position after \<open>n\<close> moves is the \<open>n\<close>-th node of the chain.\<close>

lemma move_position_dseg:
  assumes "dseg (l_heap l) a cur ps None"
  shows "\<exists>l' pos'. move_position l pos cur = Some (l', pos', case ps of [] \<Rightarrow> None | p # _ \<Rightarrow> Some (le_data (the (l_heap l p))))
    \<and> l_heap l' = l_heap l \<and> get_position l' pos' = cur \<and> (pos' = None) = (pos = None)"
  using assms
  by (cases ps; cases pos) (auto simp: move_position_def get_position_def Let_def)

lemma walk_next_dseg:
  "dseg (l_heap l) a cur ps None \<Longrightarrow> walk zend_llist_get_next_ex n (move_position l pos cur)
     = Some (if n < length ps then Some (datas (l_heap l) ps ! n) else None)"
proof (induction n arbitrary: l a cur ps pos)
  case 0
  then show ?case using move_position_dseg[OF "0.prems", of pos] by (cases ps) (auto simp: datas_def)
next
  case (Suc n)
  obtain l' pos' d where m: "move_position l pos cur = Some (l', pos', d)" "l_heap l' = l_heap l" "get_position l' pos' = cur"
    using move_position_dseg[OF Suc.prems, of pos] by blast
  show ?case
  proof (cases ps)
    case Nil
    then have "cur = None" using Suc.prems by simp
    then have "zend_llist_get_next_ex l' pos' = Some (l', pos', None)" using m(3) by (simp add: zend_llist_get_next_ex_def)
    moreover from this have "walk zend_llist_get_next_ex n (Some (l', pos', None)) = Some None" by (induction n) simp_all
    ultimately show ?thesis using m Nil by simp
  next
    case (Cons p qs)
    then obtain e where e: "cur = Some p" "l_heap l p = Some e" "dseg (l_heap l') (Some p) (le_next e) qs None"
      using Suc.prems m(2) by auto
    then have "zend_llist_get_next_ex l' pos' = move_position l' pos' (le_next e)"
      using m(2,3) by (simp add: zend_llist_get_next_ex_def)
    then show ?thesis using Suc.IH[OF e(3), of pos'] m(1,2) Cons e(2) by simp
  qed
qed

lemma walk_prev_dseg:
  "dseg (l_heap l) None hd0 (ps @ qs) None \<Longrightarrow> walk zend_llist_get_prev_ex n (move_position l pos (lastp None ps))
     = Some (if n < length ps then Some (rev (datas (l_heap l) ps) ! n) else None)"
proof (induction n arbitrary: l ps qs pos)
  case 0
  then show ?case
  proof (cases ps rule: rev_cases)
    case (snoc rs p)
    then obtain e where "l_heap l p = Some e" using "0.prems" dseg_mem[of "l_heap l" None hd0 "ps @ qs" None p] by auto
    then show ?thesis using snoc by (cases pos) (auto simp: move_position_def)
  qed (cases pos; simp add: move_position_def)
next
  case (Suc n)
  show ?case
  proof (cases ps rule: rev_cases)
    case Nil
    have "walk zend_llist_get_prev_ex m (Some (l', pos', None)) = Some None" if "get_position l' pos' = None" for m l' pos'
      using that by (induction m) (simp_all add: zend_llist_get_prev_ex_def)
    from this[of l "Some None" "Suc n"] this[of "l\<lparr>l_traverse := None\<rparr>" None "Suc n"] show ?thesis using Nil
      by (cases pos) (simp_all add: move_position_def get_position_def del: walk.simps(3))
  next
    case (snoc rs p)
    obtain m where "dseg (l_heap l) (lastp None rs) m (p # qs) None" using Suc.prems snoc by (auto simp: dseg_append)
    then obtain e where e: "l_heap l p = Some e" "le_prev e = lastp None rs" by auto
    obtain l' pos' where m: "move_position l pos (Some p) = Some (l', pos', Some (le_data e))" "l_heap l' = l_heap l"
      "get_position l' pos' = Some p" using e(1) by (cases pos) (auto simp: move_position_def get_position_def)
    have "zend_llist_get_prev_ex l' pos' = move_position l' pos' (lastp None rs)"
      using m(2,3) e by (simp add: zend_llist_get_prev_ex_def)
    moreover have "dseg (l_heap l') None hd0 (rs @ p # qs) None" using Suc.prems snoc m(2) by simp
    ultimately show ?thesis using Suc.IH[of l' rs "p # qs" pos'] m(1,2) snoc by simp
  qed
qed

text \<open>Walking a list with \<open>get_first\<close>/\<open>get_next\<close> yields its elements in order and then
  \<open>NULL\<close>, with \<open>get_last\<close>/\<open>get_prev\<close> in reverse order and then \<open>NULL\<close>, with the caller's
  position as with the list's own.\<close>

theorem llist_traversals:
  assumes "represents l xs"
  shows "walk zend_llist_get_next_ex n (zend_llist_get_first_ex l pos) = Some (if n < length xs then Some (xs ! n) else None)
    \<and> walk zend_llist_get_prev_ex n (zend_llist_get_last_ex l pos) = Some (if n < length xs then Some (rev xs ! n) else None)"
proof -
  obtain ps where r: "nodes_rep l ps" "xs = datas (l_heap l) ps" using representsE[OF assms] by blast
  then have d: "dseg (l_heap l) None (l_head l) ps None" "l_tail l = lastp None ps" "length xs = length ps"
    by (simp_all add: nodes_rep_def datas_def)
  show ?thesis using walk_next_dseg[OF d(1)] walk_prev_dseg[of l "l_head l" ps "[]"] d r(2)
    by (simp add: zend_llist_get_first_ex_def zend_llist_get_last_ex_def)
qed

theorem llist_traversals_witness:
  "walk zend_llist_get_next_ex 1 (zend_llist_get_first_ex demo_llist None) = Some (Some 9)
   \<and> walk zend_llist_get_prev_ex 0 (zend_llist_get_last_ex demo_llist (Some None)) = Some (Some 7)"
  using llist_traversals[OF demo_rep(1), of 1 None] llist_traversals[OF demo_rep(1), of 0 "Some None"] by simp

text \<open>C39: with a comparison that is a total preorder on the data, \<open>zend_llist_sort\<close> returns a
  consistent list with the same elements in ascending order.\<close>

theorem llist_sort_sorts:
  assumes "represents l xs" "\<And>x y. cmp x y > 0 \<Longrightarrow> \<not> cmp y x > 0"
    "\<And>x y z. \<not> cmp x y > 0 \<Longrightarrow> \<not> cmp y z > 0 \<Longrightarrow> \<not> cmp x z > 0"
  shows "\<exists>l' ys. zend_llist_sort cmp l = Some l' \<and> represents l' ys \<and> sorted_wrt (\<lambda>x y. \<not> cmp x y > 0) ys
    \<and> mset ys = mset xs \<and> l_log l' = l_log l"
proof -
  obtain ps where r: "nodes_rep l ps" "xs = datas (l_heap l) ps" using representsE[OF assms(1)] by blast
  let ?d = "\<lambda>p. le_data (the (l_heap l p))"
  define c where "c = (\<lambda>p q. cmp (?d p) (?d q))"
  have n: "l_count l = length ps" "dseg (l_heap l) None (l_head l) ps None" "distinct ps"
    "\<forall>p. l_heap l p \<noteq> None \<longrightarrow> p < l_brk l" using r(1) by (auto simp: nodes_rep_def)
  show ?thesis
  proof (cases "ps = []")
    case True
    then show ?thesis using assms(1) r n by (intro exI[of _ l] exI[of _ xs]) (simp add: zend_llist_sort_def)
  next
    case False
    define qs where "qs = zend_sort c xswap 0 (length ps) ps"
    have co: "compare_order c" unfolding c_def by unfold_locales (use assms(2,3) in blast)+
    have ra: "rearr 0 (length ps) ps qs" "compare_order.seg_sorted c 0 (length ps) qs"
      using compare_order.zend_sort_ok[OF co, of 0 "length ps" ps] by (simp_all add: qs_def)
    have q: "mset qs = mset ps" "length qs = length ps" using ra(1) rearr_length by (auto simp: rearr_def)
    have dq: "distinct qs" "set qs = set ps" "qs \<noteq> []"
      using q n(3) False mset_eq_imp_distinct_iff mset_eq_setD by (blast, blast, auto)
    have hq: "p \<in> set qs \<Longrightarrow> l_heap l p \<noteq> None" for p using dseg_mem[OF n(2)] dq(2) by blast
    let ?h = "relink None qs (l_heap l)"
    let ?l = "l\<lparr>l_heap := ?h, l_head := Some (hd qs), l_tail := Some (last qs)\<rparr>"
    have sw: "zend_llist_swap = xswap" by (simp add: zend_llist_swap_def xswap_def fun_eq_iff)
    have e: "zend_llist_sort cmp l = Some ?l"
      using nodes_from_dseg[OF n(2)] n(1) False sw by (simp add: zend_llist_sort_def Let_def qs_def c_def)
    have same: "map_option le_data (?h p) = map_option le_data (l_heap l p)" for p
      using relink_dseg[OF dq(1), of "l_heap l" None] hq by blast
    have "dseg ?h None (Some (hd qs)) qs None"
      using relink_dseg[OF dq(1), of "l_heap l" None] hq dq(3) by (cases qs) auto
    moreover have "?h p \<noteq> None \<longrightarrow> p < l_brk l" for p using same[of p] n(4) by (cases "l_heap l p") auto
    ultimately have "nodes_rep ?l qs" using n(1) q(2) dq by (simp add: nodes_rep_def lastp_def)
    moreover have "datas ?h qs = map ?d qs" unfolding datas_def
    proof (rule map_cong[OF refl])
      fix p assume "p \<in> set qs"
      then show "le_data (the (?h p)) = ?d p" using same[of p] hq[of p] by (cases "l_heap l p"; cases "?h p") auto
    qed
    ultimately have "represents ?l (map ?d qs)" by (auto intro: representsI)
    moreover have "mset (map ?d qs) = mset xs" using q(1) r(2) by (simp add: datas_def)
    moreover have "\<not> c (qs ! i) (qs ! j) > 0" if "i < j" "j < length qs" for i j
      using ra(2) q(2) that by (simp add: compare_order.seg_sorted_def[OF co] compare_order.le_def[OF co])
    then have "sorted_wrt (\<lambda>x y. \<not> cmp x y > 0) (map ?d qs)" by (simp add: sorted_wrt_iff_nth_less c_def)
    ultimately show ?thesis using e by (intro exI[of _ ?l] exI[of _ "map ?d qs"]) simp
  qed
qed

theorem llist_sort_sorts_witness:
  "\<exists>l' ys. zend_llist_sort (\<lambda>x y. x - y) demo_llist = Some l' \<and> represents l' ys \<and> sorted_wrt (\<lambda>x y. \<not> x - y > 0) ys
    \<and> mset ys = mset [5, 9, 7]"
  using llist_sort_sorts[OF demo_rep(1), of "\<lambda>x y. x - y"] by auto

end
