(* ===== verification/ZendHash.thy ===== *)
theory ZendHash
  imports Prelude
begin

text \<open>
  The ordered hash table behind every PHP array (zend_headers/zend_hash.c): its data,
  the allocation and initialisation routines, the lookups, insertions, deletions and the
  rehash, translated for the 64-bit release build (\<open>ZEND_DEBUG = 0\<close>,
  \<open>SIZEOF_SIZE_T = 8\<close>).

  A \<open>HashTable\<close> value is the C struct together with the memory its functions touch: the
  hash area that precedes \<open>arData\<close> (\<open>ht_hash\<close>, addressed with negative offsets in the
  code), the executor's iterator array \<open>EG(ht_iterators)\<close>, the slots \<open>IS_INDIRECT\<close> values
  point to, and a log of the values handed to \<open>pDestructor\<close>. Freshly allocated buckets
  hold the value \<open>UNINIT\<close>, so that reading one is visible. A \<open>zval*\<close> result is the place
  it points to (\<open>PBucket i\<close> for \<open>&arData[i].val\<close>, \<open>PInd s\<close> for an indirect slot). Keys are
  compared by content: equal pointers are equal contents, so the pointer tests of the
  code only shorten the comparison. Reference counts are not modelled, and tables live in
  request memory (\<open>emalloc\<close>, not persistent).
\<close>

section \<open>Data (zend_types.h, zend_hash.h)\<close>

record zend_string =
  ZSTR_VAL :: string
  ZSTR_IS_INTERNED :: bool

datatype 'v zval = IS_UNDEF | IS_INDIRECT nat | ZVAL 'v | UNINIT

record 'v Bucket =
  b_val :: "'v zval"
  b_next :: nat
  b_h :: zend_ulong
  b_key :: "zend_string option"

datatype iter_table = ITER_NULL | ITER_POISONED | ITER_HT nat

record HashTableIterator =
  it_ht :: iter_table
  it_pos :: nat

record 'v HashTable =
  ht_addr :: nat
  flag_packed :: bool
  flag_uninitialized :: bool
  flag_static_keys :: bool
  flag_has_empty_ind :: bool
  nIteratorsCount :: nat
  nTableMask :: u32
  ht_hash :: "nat list"
  arData :: "'v Bucket list"
  nNumUsed :: nat
  nNumOfElements :: nat
  nTableSize :: nat
  nInternalPointer :: nat
  nNextFreeElement :: zend_ulong
  pDestructor :: bool
  ht_iterators :: "HashTableIterator list"
  ht_iterators_used :: nat
  ind_slots :: "nat \<Rightarrow> 'v zval"
  dtor_log :: "'v zval list"

datatype zptr = PBucket nat | PInd nat

datatype hash_flag = HASH_UPDATE | HASH_ADD | HASH_UPDATE_INDIRECT | HASH_ADD_NEW | HASH_ADD_NEXT

definition HT_INVALID_IDX :: nat where "HT_INVALID_IDX = 4294967295"
definition HT_MIN_MASK :: u32 where "HT_MIN_MASK = - 2"
definition HT_MIN_SIZE :: nat where "HT_MIN_SIZE = 8"
definition HT_MAX_SIZE :: nat where "HT_MAX_SIZE = 2147483648"
definition ZEND_LONG_MAX :: zend_ulong where "ZEND_LONG_MAX = 9223372036854775807"

definition uninit_bucket :: "'v Bucket" where
  "uninit_bucket = \<lparr>b_val = UNINIT, b_next = 0, b_h = 0, b_key = None\<rparr>"

definition HT_SIZE_TO_MASK :: "nat \<Rightarrow> u32" where
  "HT_SIZE_TO_MASK n = - (of_nat n + of_nat n)"

text \<open>The number of \<open>uint32_t\<close> cells in front of \<open>arData\<close> (\<open>HT_HASH_SIZE\<close>).\<close>

definition HT_HASH_LEN :: "u32 \<Rightarrow> nat" where
  "HT_HASH_LEN m = unat (- m)"

definition nIndex :: "zend_ulong \<Rightarrow> u32 \<Rightarrow> u32" where
  "nIndex h m = ucast h OR m"

text \<open>\<open>HT_HASH(ht, i)\<close> is the cell at the signed offset \<open>(int32_t) i\<close> from \<open>arData\<close>.\<close>

definition hash_cell :: "'v HashTable \<Rightarrow> u32 \<Rightarrow> nat" where
  "hash_cell ht i = nat (int (length (ht_hash ht)) + sint i)"

definition HT_HASH :: "'v HashTable \<Rightarrow> u32 \<Rightarrow> nat" where
  "HT_HASH ht i = ht_hash ht ! hash_cell ht i"

definition HT_HASH_set :: "u32 \<Rightarrow> nat \<Rightarrow> 'v HashTable \<Rightarrow> 'v HashTable" where
  "HT_HASH_set i v ht = ht\<lparr>ht_hash := (ht_hash ht)[hash_cell ht i := v]\<rparr>"

definition HT_HASH_RESET :: "'v HashTable \<Rightarrow> 'v HashTable" where
  "HT_HASH_RESET ht = ht\<lparr>ht_hash := replicate (HT_HASH_LEN (nTableMask ht)) HT_INVALID_IDX\<rparr>"

definition HT_HASH_RESET_PACKED :: "'v HashTable \<Rightarrow> 'v HashTable" where
  "HT_HASH_RESET_PACKED ht = ht\<lparr>ht_hash := [HT_INVALID_IDX, HT_INVALID_IDX]\<rparr>"

definition HT_IS_WITHOUT_HOLES :: "'v HashTable \<Rightarrow> bool" where
  "HT_IS_WITHOUT_HOLES ht \<longleftrightarrow> nNumUsed ht = nNumOfElements ht"

definition HT_HAS_ITERATORS :: "'v HashTable \<Rightarrow> bool" where
  "HT_HAS_ITERATORS ht \<longleftrightarrow> nIteratorsCount ht \<noteq> 0"

definition upd_bucket :: "nat \<Rightarrow> ('v Bucket \<Rightarrow> 'v Bucket) \<Rightarrow> 'v HashTable \<Rightarrow> 'v HashTable" where
  "upd_bucket i f ht = ht\<lparr>arData := (arData ht)[i := f (arData ht ! i)]\<rparr>"

definition read_zptr :: "'v HashTable \<Rightarrow> zptr \<Rightarrow> 'v zval" where
  "read_zptr ht p = (case p of PBucket i \<Rightarrow> b_val (arData ht ! i) | PInd s \<Rightarrow> ind_slots ht s)"

definition write_zptr :: "zptr \<Rightarrow> 'v zval \<Rightarrow> 'v HashTable \<Rightarrow> 'v HashTable" where
  "write_zptr p v ht = (case p of
     PBucket i \<Rightarrow> upd_bucket i (\<lambda>b. b\<lparr>b_val := v\<rparr>) ht
   | PInd s \<Rightarrow> ht\<lparr>ind_slots := (ind_slots ht)(s := v)\<rparr>)"

definition call_pDestructor :: "'v zval \<Rightarrow> 'v HashTable \<Rightarrow> 'v HashTable" where
  "call_pDestructor v ht = (if pDestructor ht then ht\<lparr>dtor_log := dtor_log ht @ [v]\<rparr> else ht)"

section \<open>String hashes (zend_string.h)\<close>

text \<open>\<open>char\<close> is signed on the x86-64 target: a byte enters the sum sign-extended.\<close>

definition char_val :: "char \<Rightarrow> zend_ulong" where
  "char_val c = word_of_int (if of_char c < (128::int) then of_char c else of_char c - 256)"

fun zend_inline_hash_loop :: "zend_ulong \<Rightarrow> string \<Rightarrow> zend_ulong" where
  "zend_inline_hash_loop hash (a # b # c # d # e # f # g # i # str) =
     zend_inline_hash_loop
       ((hash * 33 * 33 * 33 * 33 + char_val a * 33 * 33 * 33 + char_val b * 33 * 33
          + char_val c * 33 + char_val d) * 33 * 33 * 33 * 33
        + char_val e * 33 * 33 * 33 + char_val f * 33 * 33 + char_val g * 33 + char_val i) str"
| "zend_inline_hash_loop hash [a, b, c, d, e, f, g] =
     (hash * 33 * 33 * 33 * 33 + char_val a * 33 * 33 * 33 + char_val b * 33 * 33 + char_val c * 33
       + char_val d) * 33 * 33 * 33 + char_val e * 33 * 33 + char_val f * 33 + char_val g"
| "zend_inline_hash_loop hash [a, b, c, d, e, f] =
     (hash * 33 * 33 * 33 * 33 + char_val a * 33 * 33 * 33 + char_val b * 33 * 33 + char_val c * 33
       + char_val d) * 33 * 33 + char_val e * 33 + char_val f"
| "zend_inline_hash_loop hash [a, b, c, d, e] =
     (hash * 33 * 33 * 33 * 33 + char_val a * 33 * 33 * 33 + char_val b * 33 * 33 + char_val c * 33
       + char_val d) * 33 + char_val e"
| "zend_inline_hash_loop hash [a, b, c, d] =
     hash * 33 * 33 * 33 * 33 + char_val a * 33 * 33 * 33 + char_val b * 33 * 33 + char_val c * 33
       + char_val d"
| "zend_inline_hash_loop hash [a, b, c] =
     hash * 33 * 33 * 33 + char_val a * 33 * 33 + char_val b * 33 + char_val c"
| "zend_inline_hash_loop hash [a, b] = hash * 33 * 33 + char_val a * 33 + char_val b"
| "zend_inline_hash_loop hash [a] = hash * 33 + char_val a"
| "zend_inline_hash_loop hash [] = hash"

definition zend_inline_hash_func :: "string \<Rightarrow> zend_ulong" where
  "zend_inline_hash_func str = zend_inline_hash_loop 5381 str OR 0x8000000000000000"

definition zend_string_hash_val :: "zend_string \<Rightarrow> zend_ulong" where
  "zend_string_hash_val s = zend_inline_hash_func (ZSTR_VAL s)"

section \<open>Sizes and initialisation\<close>

fun clz_from :: "nat \<Rightarrow> u32 \<Rightarrow> nat" where
  "clz_from 0 w = 32"
| "clz_from (Suc n) w = (if bit w n then 31 - n else clz_from n w)"

definition builtin_clz :: "u32 \<Rightarrow> nat" where
  "builtin_clz w = clz_from 32 w"

text \<open>The branch compiled in (\<open>PHP_HAVE_BUILTIN_CLZ\<close> of config/php_config.h).\<close>

definition zend_hash_check_size :: "nat \<Rightarrow> zend_error + nat" where
  "zend_hash_check_size nSize =
     (if nSize \<le> HT_MIN_SIZE then Inr HT_MIN_SIZE
      else if HT_MAX_SIZE \<le> nSize then Inl (E_ALLOC_OVERFLOW nSize)
      else Inr (unat (push_bit (unat ((of_nat (builtin_clz (of_nat nSize - 1)) :: u32) XOR 0x1f)) (2 :: u32))))"

text \<open>The portable branch of the same routine, which smears the highest set bit downwards.\<close>

definition zend_hash_check_size_portable :: "nat \<Rightarrow> zend_error + nat" where
  "zend_hash_check_size_portable nSize =
     (if nSize \<le> HT_MIN_SIZE then Inr HT_MIN_SIZE
      else if HT_MAX_SIZE \<le> nSize then Inl (E_ALLOC_OVERFLOW nSize)
      else
       (let n0 = of_nat nSize - 1 :: u32;
            n1 = n0 OR drop_bit 1 n0;
            n2 = n1 OR drop_bit 2 n1;
            n3 = n2 OR drop_bit 4 n2;
            n4 = n3 OR drop_bit 8 n3;
            n5 = n4 OR drop_bit 16 n4
        in Inr (unat (n5 + 1))))"

definition zend_hash_real_init_packed_ex :: "'v HashTable \<Rightarrow> 'v HashTable" where
  "zend_hash_real_init_packed_ex ht =
     HT_HASH_RESET_PACKED (ht\<lparr>arData := replicate (nTableSize ht) uninit_bucket,
       flag_packed := True, flag_uninitialized := False, flag_static_keys := True,
       flag_has_empty_ind := False\<rparr>)"

text \<open>
  The branch for the minimum size assigns \<open>u.v.flags\<close> and keeps the iterator count; the
  general branch assigns \<open>HT_FLAGS\<close>, the whole word, and with it clears the count.
\<close>

definition zend_hash_real_init_mixed_ex :: "'v HashTable \<Rightarrow> 'v HashTable" where
  "zend_hash_real_init_mixed_ex ht =
     HT_HASH_RESET (ht\<lparr>nTableMask := HT_SIZE_TO_MASK (nTableSize ht),
       arData := replicate (nTableSize ht) uninit_bucket,
       flag_packed := False, flag_uninitialized := False, flag_static_keys := True,
       flag_has_empty_ind := False,
       nIteratorsCount := (if nTableSize ht = HT_MIN_SIZE then nIteratorsCount ht else 0)\<rparr>)"

definition zend_hash_real_init_ex :: "'v HashTable \<Rightarrow> bool \<Rightarrow> 'v HashTable" where
  "zend_hash_real_init_ex ht packed =
     (if packed then zend_hash_real_init_packed_ex ht else zend_hash_real_init_mixed_ex ht)"

text \<open>
  \<open>zend_hash_init_int a dtor nSize eg\<close> initialises the struct at address \<open>a\<close>; the
  executor globals, indirect slots and destructor log are taken from \<open>eg\<close>.
\<close>

definition zend_hash_init_int :: "'v HashTable \<Rightarrow> nat \<Rightarrow> nat \<Rightarrow> bool \<Rightarrow> zend_error + 'v HashTable" where
  "zend_hash_init_int eg a nSize dtor =
     (case zend_hash_check_size nSize of Inl e \<Rightarrow> Inl e | Inr sz \<Rightarrow>
       Inr (eg\<lparr>ht_addr := a,
          flag_packed := False, flag_uninitialized := True, flag_static_keys := False,
          flag_has_empty_ind := False, nIteratorsCount := 0,
          nTableMask := HT_MIN_MASK, ht_hash := [HT_INVALID_IDX, HT_INVALID_IDX], arData := [],
          nNumUsed := 0, nNumOfElements := 0, nInternalPointer := 0, nNextFreeElement := 0,
          pDestructor := dtor, nTableSize := sz\<rparr>))"

definition zend_new_array :: "'v HashTable \<Rightarrow> nat \<Rightarrow> nat \<Rightarrow> zend_error + 'v HashTable" where
  "zend_new_array eg a nSize = zend_hash_init_int eg a nSize True"

text \<open>The immutable empty array, at address 0 of a fresh executor (16 iterator slots).\<close>

definition zend_empty_array :: "'v HashTable" where
  "zend_empty_array = \<lparr>ht_addr = 0, flag_packed = False, flag_uninitialized = True,
     flag_static_keys = False, flag_has_empty_ind = False, nIteratorsCount = 0,
     nTableMask = HT_MIN_MASK, ht_hash = [HT_INVALID_IDX, HT_INVALID_IDX], arData = [],
     nNumUsed = 0, nNumOfElements = 0, nTableSize = HT_MIN_SIZE, nInternalPointer = 0,
     nNextFreeElement = 0, pDestructor = True,
     ht_iterators = replicate 16 \<lparr>it_ht = ITER_NULL, it_pos = 0\<rparr>, ht_iterators_used = 0,
     ind_slots = (\<lambda>_. IS_UNDEF), dtor_log = []\<rparr>"

section \<open>Iterators of the executor (EG(ht_iterators))\<close>

definition used_iterators :: "'v HashTable \<Rightarrow> HashTableIterator list" where
  "used_iterators ht = take (ht_iterators_used ht) (ht_iterators ht)"

definition zend_hash_iterators_lower_pos :: "'v HashTable \<Rightarrow> nat \<Rightarrow> nat" where
  "zend_hash_iterators_lower_pos ht start =
     foldl (\<lambda>res it. if it_ht it = ITER_HT (ht_addr ht) \<and> start \<le> it_pos it \<and> it_pos it < res
                     then it_pos it else res) (nNumUsed ht) (used_iterators ht)"

definition map_iterators :: "(HashTableIterator \<Rightarrow> HashTableIterator) \<Rightarrow> 'v HashTable \<Rightarrow> 'v HashTable" where
  "map_iterators f ht = ht\<lparr>ht_iterators :=
     map (\<lambda>it. if it_ht it = ITER_HT (ht_addr ht) then f it else it) (used_iterators ht)
       @ drop (ht_iterators_used ht) (ht_iterators ht)\<rparr>"

text \<open>\<open>_zend_hash_iterators_update\<close> and its inline wrapper, which first tests for iterators.\<close>

definition zend_hash_iterators_update0 :: "'v HashTable \<Rightarrow> nat \<Rightarrow> nat \<Rightarrow> 'v HashTable" where
  "zend_hash_iterators_update0 ht from to =
     map_iterators (\<lambda>it. if it_pos it = from then it\<lparr>it_pos := to\<rparr> else it) ht"

definition zend_hash_iterators_update :: "'v HashTable \<Rightarrow> nat \<Rightarrow> nat \<Rightarrow> 'v HashTable" where
  "zend_hash_iterators_update ht from to =
     (if HT_HAS_ITERATORS ht then zend_hash_iterators_update0 ht from to else ht)"

definition zend_hash_iterators_advance :: "'v HashTable \<Rightarrow> nat \<Rightarrow> 'v HashTable" where
  "zend_hash_iterators_advance ht step = map_iterators (\<lambda>it. it\<lparr>it_pos := (it_pos it + step) mod 2 ^ 32\<rparr>) ht"

definition zend_hash_iterators_remove :: "'v HashTable \<Rightarrow> 'v HashTable" where
  "zend_hash_iterators_remove ht =
     (if HT_HAS_ITERATORS ht then map_iterators (\<lambda>it. it\<lparr>it_ht := ITER_POISONED\<rparr>) ht else ht)"

section \<open>Rehash\<close>

text \<open>Enter bucket \<open>i\<close> at the head of the collision chain of its hash.\<close>

definition link_bucket :: "nat \<Rightarrow> 'v HashTable \<Rightarrow> 'v HashTable" where
  "link_bucket i ht =
     (let ni = nIndex (b_h (arData ht ! i)) (nTableMask ht)
      in HT_HASH_set ni i (upd_bucket i (\<lambda>b. b\<lparr>b_next := HT_HASH ht ni\<rparr>) ht))"

fun link_buckets :: "nat list \<Rightarrow> 'v HashTable \<Rightarrow> 'v HashTable" where
  "link_buckets [] ht = ht"
| "link_buckets (i # is) ht = link_buckets is (link_bucket i ht)"

text \<open>
  The \<open>do ... while (iter_pos < i)\<close> loop. \<open>iter_pos\<close> grows in every round and the loop
  stops at \<open>i\<close>, so \<open>i + 1\<close> rounds suffice.
\<close>

fun rehash_move_iterators :: "nat \<Rightarrow> nat \<Rightarrow> nat \<Rightarrow> nat \<Rightarrow> 'v HashTable \<Rightarrow> 'v HashTable \<times> nat" where
  "rehash_move_iterators 0 i j iter_pos ht = (ht, iter_pos)"
| "rehash_move_iterators (Suc n) i j iter_pos ht =
     (let ht1 = zend_hash_iterators_update ht iter_pos j;
          pos1 = zend_hash_iterators_lower_pos ht1 (iter_pos + 1)
      in if pos1 < i then rehash_move_iterators n i j pos1 ht1 else (ht1, pos1))"

text \<open>Copy bucket \<open>i\<close> to the free bucket \<open>j\<close> and link it there.\<close>

definition compact_move :: "nat \<Rightarrow> nat \<Rightarrow> 'v HashTable \<Rightarrow> 'v HashTable" where
  "compact_move i j ht = link_bucket j (upd_bucket j (\<lambda>q. q\<lparr>b_val := b_val (arData ht ! i),
     b_h := b_h (arData ht ! i), b_key := b_key (arData ht ! i)\<rparr>) ht)"

text \<open>The compaction loop: \<open>is\<close> are the remaining values of \<open>i\<close>, \<open>j\<close> the write position.\<close>

fun rehash_compact :: "nat list \<Rightarrow> nat \<Rightarrow> nat \<Rightarrow> 'v HashTable \<Rightarrow> 'v HashTable \<times> nat" where
  "rehash_compact [] j iter_pos ht = (ht, j)"
| "rehash_compact (i # is) j iter_pos ht =
     (if b_val (arData ht ! i) \<noteq> IS_UNDEF then
        let ht2 = compact_move i j ht;
            ht3 = (if nInternalPointer ht2 = i then ht2\<lparr>nInternalPointer := j\<rparr> else ht2);
            (ht4, pos) = (if HT_HAS_ITERATORS ht3 \<and> iter_pos \<le> i
                          then rehash_move_iterators (i + 1) i j iter_pos ht3 else (ht3, iter_pos))
        in rehash_compact is (j + 1) pos ht4
      else rehash_compact is j iter_pos ht)"

fun rehash_scan :: "nat list \<Rightarrow> 'v HashTable \<Rightarrow> 'v HashTable" where
  "rehash_scan [] ht = ht"
| "rehash_scan (i # is) ht =
     (if b_val (arData ht ! i) = IS_UNDEF then
        let (ht1, j) = rehash_compact is i (zend_hash_iterators_lower_pos ht 0) ht
        in ht1\<lparr>nNumUsed := j\<rparr>
      else rehash_scan is (link_bucket i ht))"

definition zend_hash_rehash :: "'v HashTable \<Rightarrow> 'v HashTable" where
  "zend_hash_rehash ht =
     (if nNumOfElements ht = 0 then
        (if flag_uninitialized ht then ht else HT_HASH_RESET (ht\<lparr>nNumUsed := 0\<rparr>))
      else
        let ht0 = HT_HASH_RESET ht in
        if HT_IS_WITHOUT_HOLES ht0 then link_buckets [0..<nNumUsed ht0] ht0
        else
          let old_num_used = nNumUsed ht0; ht1 = rehash_scan [0..<nNumUsed ht0] ht0
          in if HT_HAS_ITERATORS ht1
             then zend_hash_iterators_update0 ht1 old_num_used (nNumUsed ht1) else ht1)"

section \<open>Growing and converting\<close>

definition u32_double :: "nat \<Rightarrow> nat" where
  "u32_double n = (n + n) mod 2 ^ 32"

text \<open>Move the used buckets into a new area of \<open>nTableSize\<close> buckets and a new hash area.\<close>

definition move_data :: "'v HashTable \<Rightarrow> 'v HashTable" where
  "move_data ht = ht\<lparr>arData := take (nNumUsed ht) (arData ht)
       @ replicate (nTableSize ht - nNumUsed ht) uninit_bucket,
     ht_hash := replicate (HT_HASH_LEN (nTableMask ht)) 0\<rparr>"

definition zend_hash_packed_grow :: "'v HashTable \<Rightarrow> zend_error + 'v HashTable" where
  "zend_hash_packed_grow ht =
     (if HT_MAX_SIZE \<le> nTableSize ht then Inl (E_ALLOC_OVERFLOW (nTableSize ht * 2))
      else let ht1 = ht\<lparr>nTableSize := u32_double (nTableSize ht)\<rparr>
           in Inr (ht1\<lparr>arData := take (nNumUsed ht) (arData ht)
                 @ replicate (nTableSize ht1 - nNumUsed ht) uninit_bucket\<rparr>))"

definition zend_hash_packed_to_hash :: "'v HashTable \<Rightarrow> 'v HashTable" where
  "zend_hash_packed_to_hash ht =
     zend_hash_rehash (move_data (ht\<lparr>flag_packed := False,
       nTableMask := HT_SIZE_TO_MASK (nTableSize ht)\<rparr>))"

definition zend_hash_to_packed :: "'v HashTable \<Rightarrow> 'v HashTable" where
  "zend_hash_to_packed ht =
     (let ht1 = HT_HASH_RESET_PACKED (ht\<lparr>flag_packed := True, flag_static_keys := True,
                  nTableMask := HT_MIN_MASK\<rparr>)
      in ht1\<lparr>arData := take (nNumUsed ht) (arData ht)
               @ replicate (nTableSize ht - nNumUsed ht) uninit_bucket\<rparr>)"

definition zend_hash_do_resize :: "'v HashTable \<Rightarrow> zend_error + 'v HashTable" where
  "zend_hash_do_resize ht =
     (if nNumOfElements ht + nNumOfElements ht div 32 < nNumUsed ht then Inr (zend_hash_rehash ht)
      else if nTableSize ht < HT_MAX_SIZE then
        let nSize = u32_double (nTableSize ht)
        in Inr (zend_hash_rehash (move_data (ht\<lparr>nTableSize := nSize,
             nTableMask := HT_SIZE_TO_MASK nSize\<rparr>)))
      else Inl (E_ALLOC_OVERFLOW (nTableSize ht * 2)))"

definition ZEND_HASH_IF_FULL_DO_RESIZE :: "'v HashTable \<Rightarrow> zend_error + 'v HashTable" where
  "ZEND_HASH_IF_FULL_DO_RESIZE ht =
     (if nTableSize ht \<le> nNumUsed ht then zend_hash_do_resize ht else Inr ht)"

definition zend_hash_extend :: "'v HashTable \<Rightarrow> nat \<Rightarrow> bool \<Rightarrow> zend_error + 'v HashTable" where
  "zend_hash_extend ht nSize packed =
     (if nSize = 0 then Inr ht
      else if flag_uninitialized ht then
        (if nTableSize ht < nSize then
           (case zend_hash_check_size nSize of Inl e \<Rightarrow> Inl e | Inr sz \<Rightarrow>
              Inr (zend_hash_real_init_ex (ht\<lparr>nTableSize := sz\<rparr>) packed))
         else Inr (zend_hash_real_init_ex ht packed))
      else if nTableSize ht < nSize then
        (case zend_hash_check_size nSize of Inl e \<Rightarrow> Inl e | Inr sz \<Rightarrow>
          if packed then
            Inr (ht\<lparr>nTableSize := sz, arData := take (nNumUsed ht) (arData ht)
                    @ replicate (sz - nNumUsed ht) uninit_bucket\<rparr>)
          else
            Inr (zend_hash_rehash (move_data (ht\<lparr>nTableSize := sz,
                   nTableMask := HT_SIZE_TO_MASK sz\<rparr>))))
      else Inr ht)"

section \<open>Lookup\<close>

text \<open>
  Walk a collision chain from bucket index \<open>idx\<close> to the first bucket that satisfies the
  test. A chain of a consistent table visits strictly smaller indices, so it has at
  most as many links as there are buckets; the fuel used below is one more.
\<close>

fun find_chain :: "nat \<Rightarrow> ('v Bucket \<Rightarrow> bool) \<Rightarrow> 'v Bucket list \<Rightarrow> nat \<Rightarrow> nat option" where
  "find_chain 0 P ar idx = None"
| "find_chain (Suc n) P ar idx =
     (if idx = HT_INVALID_IDX then None
      else if P (ar ! idx) then Some idx
      else find_chain n P ar (b_next (ar ! idx)))"

definition chain_fuel :: "'v HashTable \<Rightarrow> nat" where
  "chain_fuel ht = Suc (length (arData ht))"

definition str_key_matches :: "string \<Rightarrow> zend_ulong \<Rightarrow> 'v Bucket \<Rightarrow> bool" where
  "str_key_matches str h p \<longleftrightarrow>
     b_h p = h \<and> (case b_key p of None \<Rightarrow> False | Some k \<Rightarrow> ZSTR_VAL k = str)"

definition int_key_matches :: "zend_ulong \<Rightarrow> 'v Bucket \<Rightarrow> bool" where
  "int_key_matches h p \<longleftrightarrow> b_h p = h \<and> b_key p = None"

definition zend_hash_find_bucket :: "'v HashTable \<Rightarrow> zend_string \<Rightarrow> nat option" where
  "zend_hash_find_bucket ht key =
     (let h = zend_string_hash_val key
      in find_chain (chain_fuel ht) (str_key_matches (ZSTR_VAL key) h) (arData ht)
           (HT_HASH ht (nIndex h (nTableMask ht))))"

definition zend_hash_str_find_bucket :: "'v HashTable \<Rightarrow> string \<Rightarrow> zend_ulong \<Rightarrow> nat option" where
  "zend_hash_str_find_bucket ht str h =
     find_chain (chain_fuel ht) (str_key_matches str h) (arData ht)
       (HT_HASH ht (nIndex h (nTableMask ht)))"

definition zend_hash_index_find_bucket :: "'v HashTable \<Rightarrow> zend_ulong \<Rightarrow> nat option" where
  "zend_hash_index_find_bucket ht h =
     find_chain (chain_fuel ht) (int_key_matches h) (arData ht)
       (HT_HASH ht (nIndex h (nTableMask ht)))"

definition zend_hash_find :: "'v HashTable \<Rightarrow> zend_string \<Rightarrow> zptr option" where
  "zend_hash_find ht key = map_option PBucket (zend_hash_find_bucket ht key)"

definition zend_hash_str_find :: "'v HashTable \<Rightarrow> string \<Rightarrow> zptr option" where
  "zend_hash_str_find ht str =
     map_option PBucket (zend_hash_str_find_bucket ht str (zend_inline_hash_func str))"

definition zend_hash_index_find :: "'v HashTable \<Rightarrow> zend_ulong \<Rightarrow> zptr option" where
  "zend_hash_index_find ht h =
     (if flag_packed ht then
        (if unat h < nNumUsed ht \<and> b_val (arData ht ! unat h) \<noteq> IS_UNDEF
         then Some (PBucket (unat h)) else None)
      else map_option PBucket (zend_hash_index_find_bucket ht h))"

section \<open>Insertion and update\<close>

text \<open>A key that is not interned clears \<open>HASH_FLAG_STATIC_KEYS\<close>.\<close>

definition note_key :: "zend_string \<Rightarrow> 'v HashTable \<Rightarrow> 'v HashTable" where
  "note_key key ht = (if ZSTR_IS_INTERNED key then ht else ht\<lparr>flag_static_keys := False\<rparr>)"

definition store_zval :: "zptr \<Rightarrow> 'v zval \<Rightarrow> 'v HashTable \<Rightarrow> 'v HashTable \<times> zptr option" where
  "store_zval data pData ht =
     (write_zptr data pData (call_pDestructor (read_zptr ht data) ht), Some data)"

text \<open>The branch of the insertion that finds the key in bucket \<open>p\<close>.\<close>

definition update_found :: "'v HashTable \<Rightarrow> nat \<Rightarrow> 'v zval \<Rightarrow> hash_flag set \<Rightarrow> 'v HashTable \<times> zptr option" where
  "update_found ht p pData flag =
     (if HASH_ADD \<in> flag then
        (if HASH_UPDATE_INDIRECT \<notin> flag then (ht, None)
         else (case b_val (arData ht ! p) of
             IS_INDIRECT s \<Rightarrow> if ind_slots ht s \<noteq> IS_UNDEF then (ht, None)
                              else store_zval (PInd s) pData ht
           | _ \<Rightarrow> (ht, None)))
      else
        (case b_val (arData ht ! p) of
           IS_INDIRECT s \<Rightarrow> store_zval (if HASH_UPDATE_INDIRECT \<in> flag then PInd s else PBucket p) pData ht
         | _ \<Rightarrow> store_zval (PBucket p) pData ht))"

text \<open>The label \<open>add_to_hash\<close>: a new bucket with a string key.\<close>

definition add_to_hash :: "'v HashTable \<Rightarrow> zend_string \<Rightarrow> zend_ulong \<Rightarrow> 'v zval \<Rightarrow> 'v HashTable \<times> zptr option" where
  "add_to_hash ht key h pData =
     (let idx = nNumUsed ht;
          ni = nIndex h (nTableMask ht);
          ht1 = ht\<lparr>nNumUsed := idx + 1, nNumOfElements := nNumOfElements ht + 1\<rparr>;
          ht2 = upd_bucket idx (\<lambda>p. \<lparr>b_val = pData, b_next = HT_HASH ht ni, b_h = h, b_key = Some key\<rparr>) ht1
      in (HT_HASH_set ni idx ht2, Some (PBucket idx)))"

definition resize_and_add :: "'v HashTable \<Rightarrow> zend_string \<Rightarrow> 'v zval \<Rightarrow> zend_error + ('v HashTable \<times> zptr option)" where
  "resize_and_add ht key pData =
     (case ZEND_HASH_IF_FULL_DO_RESIZE ht of Inl e \<Rightarrow> Inl e | Inr ht' \<Rightarrow> Inr (add_to_hash ht' key (zend_string_hash_val key) pData))"

definition zend_hash_add_or_update_i ::
  "'v HashTable \<Rightarrow> zend_string \<Rightarrow> 'v zval \<Rightarrow> hash_flag set \<Rightarrow> zend_error + ('v HashTable \<times> zptr option)" where
  "zend_hash_add_or_update_i ht key pData flag =
     (if flag_uninitialized ht then
        Inr (add_to_hash (note_key key (zend_hash_real_init_mixed_ex ht)) key (zend_string_hash_val key) pData)
      else if flag_packed ht then
        resize_and_add (note_key key (zend_hash_packed_to_hash ht)) key pData
      else if HASH_ADD_NEW \<notin> flag then
        (case zend_hash_find_bucket ht key of
           Some p \<Rightarrow> Inr (update_found ht p pData flag)
         | None \<Rightarrow> resize_and_add (note_key key ht) key pData)
      else resize_and_add (note_key key ht) key pData)"

text \<open>
  The variant for a C string makes the key itself (\<open>zend_string_init\<close>: not interned) and
  clears \<open>HASH_FLAG_STATIC_KEYS\<close> when it adds a bucket.
\<close>

definition zend_hash_str_add_or_update_i ::
  "'v HashTable \<Rightarrow> string \<Rightarrow> zend_ulong \<Rightarrow> 'v zval \<Rightarrow> hash_flag set \<Rightarrow> zend_error + ('v HashTable \<times> zptr option)" where
  "zend_hash_str_add_or_update_i ht str h pData flag =
     (let key = \<lparr>ZSTR_VAL = str, ZSTR_IS_INTERNED = False\<rparr>;
          add = (\<lambda>ht. let (ht1, r) = add_to_hash ht key h pData in (ht1\<lparr>flag_static_keys := False\<rparr>, r));
          radd = (\<lambda>ht. case ZEND_HASH_IF_FULL_DO_RESIZE ht of Inl e \<Rightarrow> Inl e | Inr ht' \<Rightarrow> Inr (add ht'))
      in if flag_uninitialized ht then Inr (add (zend_hash_real_init_mixed_ex ht))
         else if flag_packed ht then radd (zend_hash_packed_to_hash ht)
         else if HASH_ADD_NEW \<notin> flag then
           (case zend_hash_str_find_bucket ht str h of
              Some p \<Rightarrow> Inr (update_found ht p pData flag)
            | None \<Rightarrow> radd ht)
         else radd ht)"

definition zend_hash_add :: "'v HashTable \<Rightarrow> zend_string \<Rightarrow> 'v zval \<Rightarrow> zend_error + ('v HashTable \<times> zptr option)" where
  "zend_hash_add ht key pData = zend_hash_add_or_update_i ht key pData {HASH_ADD}"

definition zend_hash_update :: "'v HashTable \<Rightarrow> zend_string \<Rightarrow> 'v zval \<Rightarrow> zend_error + ('v HashTable \<times> zptr option)" where
  "zend_hash_update ht key pData = zend_hash_add_or_update_i ht key pData {HASH_UPDATE}"

definition zend_hash_update_ind :: "'v HashTable \<Rightarrow> zend_string \<Rightarrow> 'v zval \<Rightarrow> zend_error + ('v HashTable \<times> zptr option)" where
  "zend_hash_update_ind ht key pData =
     zend_hash_add_or_update_i ht key pData {HASH_UPDATE, HASH_UPDATE_INDIRECT}"

definition zend_hash_add_new :: "'v HashTable \<Rightarrow> zend_string \<Rightarrow> 'v zval \<Rightarrow> zend_error + ('v HashTable \<times> zptr option)" where
  "zend_hash_add_new ht key pData = zend_hash_add_or_update_i ht key pData {HASH_ADD_NEW}"

definition zend_hash_str_update :: "'v HashTable \<Rightarrow> string \<Rightarrow> 'v zval \<Rightarrow> zend_error + ('v HashTable \<times> zptr option)" where
  "zend_hash_str_update ht str pData =
     zend_hash_str_add_or_update_i ht str (zend_inline_hash_func str) pData {HASH_UPDATE}"

definition zend_hash_str_add :: "'v HashTable \<Rightarrow> string \<Rightarrow> 'v zval \<Rightarrow> zend_error + ('v HashTable \<times> zptr option)" where
  "zend_hash_str_add ht str pData =
     zend_hash_str_add_or_update_i ht str (zend_inline_hash_func str) pData {HASH_ADD}"

text \<open>Integer keys. The labels of the C function are the first three definitions.\<close>

definition replace_index :: "'v HashTable \<Rightarrow> nat \<Rightarrow> 'v zval \<Rightarrow> hash_flag set \<Rightarrow> 'v HashTable \<times> zptr option" where
  "replace_index ht p pData flag =
     (if HASH_ADD \<in> flag then (ht, None) else store_zval (PBucket p) pData ht)"

definition add_to_packed :: "'v HashTable \<Rightarrow> zend_ulong \<Rightarrow> 'v zval \<Rightarrow> hash_flag set \<Rightarrow> 'v HashTable \<times> zptr option" where
  "add_to_packed ht h pData flag =
     (let p = unat h;
          ht1 = (if \<not> (HASH_ADD_NEW \<in> flag \<and> HASH_ADD_NEXT \<in> flag) \<and> nNumUsed ht < p
                 then fold (\<lambda>q. upd_bucket q (\<lambda>b. b\<lparr>b_val := IS_UNDEF\<rparr>)) [nNumUsed ht..<p] ht else ht);
          ht2 = ht1\<lparr>nNextFreeElement := h + 1, nNumUsed := p + 1,
                    nNumOfElements := nNumOfElements ht1 + 1\<rparr>
      in (upd_bucket p (\<lambda>b. b\<lparr>b_h := h, b_key := None, b_val := pData\<rparr>) ht2, Some (PBucket p)))"

definition add_index_to_hash :: "'v HashTable \<Rightarrow> zend_ulong \<Rightarrow> 'v zval \<Rightarrow> 'v HashTable \<times> zptr option" where
  "add_index_to_hash ht h pData =
     (let idx = nNumUsed ht; ni = nIndex h (nTableMask ht);
          ht1 = ht\<lparr>nNumUsed := idx + 1\<rparr>;
          ht2 = HT_HASH_set ni idx (upd_bucket idx (\<lambda>b. b\<lparr>b_next := HT_HASH ht ni\<rparr>) ht1);
          ht3 = (if sint (nNextFreeElement ht2) \<le> sint h
                 then ht2\<lparr>nNextFreeElement := (if h < ZEND_LONG_MAX then h + 1 else ZEND_LONG_MAX)\<rparr>
                 else ht2);
          ht4 = ht3\<lparr>nNumOfElements := nNumOfElements ht3 + 1\<rparr>
      in (upd_bucket idx (\<lambda>b. b\<lparr>b_h := h, b_key := None, b_val := pData\<rparr>) ht4, Some (PBucket idx)))"

definition zend_hash_index_add_or_update_i ::
  "'v HashTable \<Rightarrow> zend_ulong \<Rightarrow> 'v zval \<Rightarrow> hash_flag set \<Rightarrow> zend_error + ('v HashTable \<times> zptr option)" where
  "zend_hash_index_add_or_update_i ht h pData flag =
     (if flag_packed ht then
        (if unat h < nNumUsed ht then
           (if b_val (arData ht ! unat h) \<noteq> IS_UNDEF
            then Inr (replace_index ht (unat h) pData flag)
            else Inr (add_index_to_hash (zend_hash_packed_to_hash ht) h pData))
         else if unat h < nTableSize ht then Inr (add_to_packed ht h pData flag)
         else if unat h div 2 < nTableSize ht \<and> nTableSize ht div 2 < nNumOfElements ht then
           (case zend_hash_packed_grow ht of Inl e \<Rightarrow> Inl e
            | Inr ht' \<Rightarrow> Inr (add_to_packed ht' h pData flag))
         else
           let ht1 = (if nTableSize ht \<le> nNumUsed ht
                      then ht\<lparr>nTableSize := u32_double (nTableSize ht)\<rparr> else ht)
           in Inr (add_index_to_hash (zend_hash_packed_to_hash ht1) h pData))
      else if flag_uninitialized ht then
        (if unat h < nTableSize ht
         then Inr (add_to_packed (zend_hash_real_init_packed_ex ht) h pData flag)
         else Inr (add_index_to_hash (zend_hash_real_init_mixed_ex ht) h pData))
      else
        (case (if HASH_ADD_NEW \<in> flag then None else zend_hash_index_find_bucket ht h) of
           Some p \<Rightarrow> Inr (replace_index ht p pData flag)
         | None \<Rightarrow> (case ZEND_HASH_IF_FULL_DO_RESIZE ht of Inl e \<Rightarrow> Inl e
                    | Inr ht' \<Rightarrow> Inr (add_index_to_hash ht' h pData))))"

definition zend_hash_index_add :: "'v HashTable \<Rightarrow> zend_ulong \<Rightarrow> 'v zval \<Rightarrow> zend_error + ('v HashTable \<times> zptr option)" where
  "zend_hash_index_add ht h pData = zend_hash_index_add_or_update_i ht h pData {HASH_ADD}"

definition zend_hash_index_update :: "'v HashTable \<Rightarrow> zend_ulong \<Rightarrow> 'v zval \<Rightarrow> zend_error + ('v HashTable \<times> zptr option)" where
  "zend_hash_index_update ht h pData = zend_hash_index_add_or_update_i ht h pData {HASH_UPDATE}"

definition zend_hash_index_add_new :: "'v HashTable \<Rightarrow> zend_ulong \<Rightarrow> 'v zval \<Rightarrow> zend_error + ('v HashTable \<times> zptr option)" where
  "zend_hash_index_add_new ht h pData =
     zend_hash_index_add_or_update_i ht h pData {HASH_ADD, HASH_ADD_NEW}"

definition zend_hash_next_index_insert :: "'v HashTable \<Rightarrow> 'v zval \<Rightarrow> zend_error + ('v HashTable \<times> zptr option)" where
  "zend_hash_next_index_insert ht pData =
     zend_hash_index_add_or_update_i ht (nNextFreeElement ht) pData {HASH_ADD, HASH_ADD_NEXT}"

definition zend_hash_next_index_insert_new :: "'v HashTable \<Rightarrow> 'v zval \<Rightarrow> zend_error + ('v HashTable \<times> zptr option)" where
  "zend_hash_next_index_insert_new ht pData =
     zend_hash_index_add_or_update_i ht (nNextFreeElement ht) pData {HASH_ADD, HASH_ADD_NEW, HASH_ADD_NEXT}"

section \<open>Deletion\<close>

text \<open>First index \<open>n \<ge> i\<close> that is past the end or holds a value (at most \<open>nNumUsed\<close> steps).\<close>

function next_used :: "'v HashTable \<Rightarrow> nat \<Rightarrow> nat" where
  "next_used ht i =
     (if i < nNumUsed ht \<and> b_val (arData ht ! i) = IS_UNDEF then next_used ht (Suc i) else i)"
  by pat_completeness auto
termination
  by (relation "measure (\<lambda>(ht, i). nNumUsed ht - i)") auto

declare next_used.simps [simp del]

text \<open>The \<open>do ... while\<close> that drops the deleted tail: the new \<open>nNumUsed\<close>.\<close>

fun trim_used :: "'v Bucket list \<Rightarrow> nat \<Rightarrow> nat" where
  "trim_used ar 0 = 0"
| "trim_used ar (Suc n) = (if b_val (ar ! n) = IS_UNDEF then trim_used ar n else Suc n)"

definition zend_hash_del_el_ex :: "'v HashTable \<Rightarrow> nat \<Rightarrow> nat option \<Rightarrow> 'v HashTable" where
  "zend_hash_del_el_ex ht idx prev =
     (let p = arData ht ! idx;
          ht1 = (if flag_packed ht then ht
                 else case prev of
                     Some q \<Rightarrow> upd_bucket q (\<lambda>b. b\<lparr>b_next := b_next p\<rparr>) ht
                   | None \<Rightarrow> HT_HASH_set (nIndex (b_h p) (nTableMask ht)) (b_next p) ht);
          ht2 = ht1\<lparr>nNumOfElements := nNumOfElements ht1 - 1\<rparr>;
          ht3 = (if nInternalPointer ht2 = idx \<or> HT_HAS_ITERATORS ht2 then
                   let new_idx = next_used ht2 (idx + 1);
                       ht2' = (if nInternalPointer ht2 = idx then ht2\<lparr>nInternalPointer := new_idx\<rparr> else ht2)
                   in zend_hash_iterators_update ht2' idx new_idx
                 else ht2);
          ht4 = (if nNumUsed ht3 - 1 = idx then
                   let n = trim_used (arData ht3) (nNumUsed ht3 - 1)
                   in ht3\<lparr>nNumUsed := n, nInternalPointer := min (nInternalPointer ht3) n\<rparr>
                 else ht3)
      in call_pDestructor (b_val p) (upd_bucket idx (\<lambda>b. b\<lparr>b_val := IS_UNDEF\<rparr>) ht4))"

text \<open>The predecessor search of \<open>_zend_hash_del_el\<close>; the last argument is its \<open>i\<close>.\<close>

fun find_prev :: "nat \<Rightarrow> 'v Bucket list \<Rightarrow> nat \<Rightarrow> nat \<Rightarrow> nat" where
  "find_prev 0 ar idx i = i"
| "find_prev (Suc n) ar idx i =
     (if b_next (ar ! i) \<noteq> idx then find_prev n ar idx (b_next (ar ! i)) else i)"

definition zend_hash_del_el :: "'v HashTable \<Rightarrow> nat \<Rightarrow> 'v HashTable" where
  "zend_hash_del_el ht idx =
     (let i = HT_HASH ht (nIndex (b_h (arData ht ! idx)) (nTableMask ht));
          prev = (if \<not> flag_packed ht \<and> i \<noteq> idx
                  then Some (find_prev (chain_fuel ht) (arData ht) idx i) else None)
      in zend_hash_del_el_ex ht idx prev)"

definition zend_hash_del_bucket :: "'v HashTable \<Rightarrow> nat \<Rightarrow> 'v HashTable" where
  "zend_hash_del_bucket ht p = zend_hash_del_el ht p"

text \<open>The search of the deletions, which remembers the previous bucket of the chain.\<close>

fun find_chain_prev :: "nat \<Rightarrow> ('v Bucket \<Rightarrow> bool) \<Rightarrow> 'v Bucket list \<Rightarrow> nat option \<Rightarrow> nat \<Rightarrow> (nat \<times> nat option) option" where
  "find_chain_prev 0 P ar prev idx = None"
| "find_chain_prev (Suc n) P ar prev idx =
     (if idx = HT_INVALID_IDX then None
      else if P (ar ! idx) then Some (idx, prev)
      else find_chain_prev n P ar (Some idx) (b_next (ar ! idx)))"

text \<open>The result pairs the table with \<open>True\<close> for \<open>SUCCESS\<close> and \<open>False\<close> for \<open>FAILURE\<close>.\<close>

definition del_matching :: "'v HashTable \<Rightarrow> ('v Bucket \<Rightarrow> bool) \<Rightarrow> zend_ulong \<Rightarrow> 'v HashTable \<times> bool" where
  "del_matching ht P h =
     (case find_chain_prev (chain_fuel ht) P (arData ht) None (HT_HASH ht (nIndex h (nTableMask ht))) of
        Some (idx, prev) \<Rightarrow> (zend_hash_del_el_ex ht idx prev, True)
      | None \<Rightarrow> (ht, False))"

definition zend_hash_del :: "'v HashTable \<Rightarrow> zend_string \<Rightarrow> 'v HashTable \<times> bool" where
  "zend_hash_del ht key =
     (let h = zend_string_hash_val key in del_matching ht (str_key_matches (ZSTR_VAL key) h) h)"

definition zend_hash_str_del :: "'v HashTable \<Rightarrow> string \<Rightarrow> 'v HashTable \<times> bool" where
  "zend_hash_str_del ht str =
     (let h = zend_inline_hash_func str in del_matching ht (str_key_matches str h) h)"

definition zend_hash_index_del :: "'v HashTable \<Rightarrow> zend_ulong \<Rightarrow> 'v HashTable \<times> bool" where
  "zend_hash_index_del ht h =
     (if flag_packed ht then
        (if unat h < nNumUsed ht \<and> b_val (arData ht ! unat h) \<noteq> IS_UNDEF
         then (zend_hash_del_el_ex ht (unat h) None, True) else (ht, False))
      else del_matching ht (int_key_matches h) h)"

text \<open>Deletion through an \<open>IS_INDIRECT\<close> value empties the slot and keeps the bucket.\<close>

definition del_ind_matching :: "'v HashTable \<Rightarrow> ('v Bucket \<Rightarrow> bool) \<Rightarrow> zend_ulong \<Rightarrow> 'v HashTable \<times> bool" where
  "del_ind_matching ht P h =
     (case find_chain_prev (chain_fuel ht) P (arData ht) None (HT_HASH ht (nIndex h (nTableMask ht))) of
        None \<Rightarrow> (ht, False)
      | Some (idx, prev) \<Rightarrow>
         (case b_val (arData ht ! idx) of
            IS_INDIRECT s \<Rightarrow>
              if ind_slots ht s = IS_UNDEF then (ht, False)
              else let data = ind_slots ht s;
                       ht1 = call_pDestructor data (ht\<lparr>ind_slots := (ind_slots ht)(s := IS_UNDEF)\<rparr>)
                   in (ht1\<lparr>flag_has_empty_ind := True\<rparr>, True)
          | _ \<Rightarrow> (zend_hash_del_el_ex ht idx prev, True)))"

definition zend_hash_del_ind :: "'v HashTable \<Rightarrow> zend_string \<Rightarrow> 'v HashTable \<times> bool" where
  "zend_hash_del_ind ht key =
     (let h = zend_string_hash_val key in del_ind_matching ht (str_key_matches (ZSTR_VAL key) h) h)"

definition zend_hash_str_del_ind :: "'v HashTable \<Rightarrow> string \<Rightarrow> 'v HashTable \<times> bool" where
  "zend_hash_str_del_ind ht str =
     (let h = zend_inline_hash_func str in del_ind_matching ht (str_key_matches str h) h)"

end
