(* ===== verification/ZendHashInv.thy ===== *)
theory ZendHashInv
  imports ZendHash
begin

text \<open>
  The consistency invariant of the hash table, its abstraction to an ordered
  association list, and the lemmas on collision chains: what a lookup finds, what
  linking a bucket and unlinking one do to every chain.
\<close>

section \<open>Invariant and abstraction\<close>

type_synonym hkey = "zend_ulong + string"

definition bkey :: "'v Bucket \<Rightarrow> hkey" where
  "bkey b = (case b_key b of None \<Rightarrow> Inl (b_h b) | Some k \<Rightarrow> Inr (ZSTR_VAL k))"

definition live :: "'v Bucket list \<Rightarrow> nat \<Rightarrow> bool" where
  "live ar i \<longleftrightarrow> b_val (ar ! i) \<noteq> IS_UNDEF"

definition live_idx :: "'v Bucket list \<Rightarrow> nat \<Rightarrow> nat list" where
  "live_idx ar n = filter (live ar) [0..<n]"

abbreviation live_of :: "'v HashTable \<Rightarrow> nat list" where
  "live_of ht \<equiv> live_idx (arData ht) (nNumUsed ht)"

definition entry :: "'v Bucket \<Rightarrow> hkey \<times> 'v zval" where
  "entry b = (bkey b, b_val b)"

text \<open>The elements in iteration order.\<close>

definition elems :: "'v HashTable \<Rightarrow> (hkey \<times> 'v zval) list" where
  "elems ht = map (\<lambda>i. entry (arData ht ! i)) (live_of ht)"

fun chain :: "'v Bucket list \<Rightarrow> nat \<Rightarrow> nat list \<Rightarrow> bool" where
  "chain ar s [] \<longleftrightarrow> s = HT_INVALID_IDX"
| "chain ar s (i # is) \<longleftrightarrow> s = i \<and> i < length ar \<and> chain ar (b_next (ar ! i)) is"

definition cell_of :: "'v HashTable \<Rightarrow> nat \<Rightarrow> nat" where
  "cell_of ht i = hash_cell ht (nIndex (b_h (arData ht ! i)) (nTableMask ht))"

text \<open>Every cell of the hash area heads the chain of the listed buckets that hash to it, youngest first.\<close>

definition chains_ok :: "'v HashTable \<Rightarrow> nat list \<Rightarrow> bool" where
  "chains_ok ht L \<longleftrightarrow> (\<forall>s < length (ht_hash ht).
     chain (arData ht) (ht_hash ht ! s) (rev (filter (\<lambda>i. cell_of ht i = s) L)))"

definition key_hash_ok :: "'v Bucket \<Rightarrow> bool" where
  "key_hash_ok b \<longleftrightarrow> (case b_key b of None \<Rightarrow> True | Some k \<Rightarrow> b_h b = zend_string_hash_val k)"

definition size_ok :: "nat \<Rightarrow> bool" where
  "size_ok n \<longleftrightarrow> (\<exists>k. 3 \<le> k \<and> k \<le> 30 \<and> n = 2 ^ k)"

text \<open>What every initialised table satisfies, apart from its hash area.\<close>

definition data_inv :: "'v HashTable \<Rightarrow> bool" where
  "data_inv ht \<longleftrightarrow> size_ok (nTableSize ht) \<and> nNumUsed ht \<le> nTableSize ht
     \<and> length (arData ht) = nTableSize ht
     \<and> nNumOfElements ht = length (live_of ht)
     \<and> (\<forall>i < nNumUsed ht. b_val (arData ht ! i) \<noteq> UNINIT)"

definition packed_inv :: "'v HashTable \<Rightarrow> bool" where
  "packed_inv ht \<longleftrightarrow> data_inv ht \<and> nTableMask ht = HT_MIN_MASK
     \<and> ht_hash ht = [HT_INVALID_IDX, HT_INVALID_IDX]
     \<and> (\<forall>i \<in> set (live_of ht). b_h (arData ht ! i) = of_nat i \<and> b_key (arData ht ! i) = None)"

definition mask_inv :: "'v HashTable \<Rightarrow> bool" where
  "mask_inv ht \<longleftrightarrow> size_ok (nTableSize ht) \<and> nTableMask ht = HT_SIZE_TO_MASK (nTableSize ht)
     \<and> length (ht_hash ht) = 2 * nTableSize ht"

definition keys_inv :: "'v HashTable \<Rightarrow> bool" where
  "keys_inv ht \<longleftrightarrow> (\<forall>i \<in> set (live_of ht). key_hash_ok (arData ht ! i))
     \<and> distinct (map fst (elems ht))"

definition mixed_inv :: "'v HashTable \<Rightarrow> bool" where
  "mixed_inv ht \<longleftrightarrow> data_inv ht \<and> mask_inv ht \<and> keys_inv ht \<and> chains_ok ht (live_of ht)"

definition uninit_inv :: "'v HashTable \<Rightarrow> bool" where
  "uninit_inv ht \<longleftrightarrow> size_ok (nTableSize ht) \<and> nTableMask ht = HT_MIN_MASK
     \<and> ht_hash ht = [HT_INVALID_IDX, HT_INVALID_IDX] \<and> arData ht = []
     \<and> nNumUsed ht = 0 \<and> nNumOfElements ht = 0"

definition ht_inv :: "'v HashTable \<Rightarrow> bool" where
  "ht_inv ht \<longleftrightarrow>
     (if flag_uninitialized ht then uninit_inv ht \<and> \<not> flag_packed ht
      else if flag_packed ht then packed_inv ht else mixed_inv ht)"

lemma bkey_upd [simp]:
  "bkey (b\<lparr>b_val := v\<rparr>) = bkey b" "bkey (b\<lparr>b_next := n\<rparr>) = bkey b"
  "key_hash_ok (b\<lparr>b_val := v\<rparr>) = key_hash_ok b" "key_hash_ok (b\<lparr>b_next := n\<rparr>) = key_hash_ok b"
  by (simp_all add: bkey_def key_hash_ok_def split: option.split)

section \<open>Sizes, masks and cells\<close>

lemma size_ok_bounds: "size_ok n \<Longrightarrow> 8 \<le> n \<and> n \<le> 2 ^ 30"
proof -
  assume "size_ok n"
  then obtain k where k: "3 \<le> k" "k \<le> 30" "n = 2 ^ k" by (auto simp: size_ok_def)
  have "(2::nat) ^ 3 \<le> 2 ^ k" "(2::nat) ^ k \<le> 2 ^ 30" using k by (intro power_increasing; simp)+
  then show ?thesis using k by simp
qed

lemma mask_of_size: "HT_SIZE_TO_MASK (2 ^ k) = - (2 ^ Suc k)"
  by (simp add: HT_SIZE_TO_MASK_def)

lemma hash_len_of_size:
  assumes "size_ok n"
  shows "HT_HASH_LEN (HT_SIZE_TO_MASK n) = 2 * n"
proof -
  obtain k where k: "3 \<le> k" "k \<le> 30" "n = 2 ^ k" using assms by (auto simp: size_ok_def)
  then have "unat (2 ^ Suc k :: u32) = 2 ^ Suc k" by (intro unat_power32) simp
  then show ?thesis using k by (simp add: HT_HASH_LEN_def mask_of_size)
qed

lemma nat_offset_less: "- int n \<le> i \<Longrightarrow> i < 0 \<Longrightarrow> nat (int n + i) < n"
  by linarith

lemma hash_cell_less_mixed:
  assumes "mask_inv ht"
  shows "hash_cell ht (nIndex h (nTableMask ht)) < length (ht_hash ht)"
proof -
  obtain k where k: "k \<le> 30" "nTableSize ht = 2 ^ k"
    using assms by (auto simp: mask_inv_def size_ok_def)
  have m: "nTableMask ht = - (2 ^ Suc k)" and l: "int (length (ht_hash ht)) = 2 ^ Suc k"
    using assms k by (simp_all add: mask_inv_def mask_of_size)
  let ?i = "sint (nIndex h (nTableMask ht))"
  have "- (2 ^ Suc k) \<le> ?i" "?i < 0"
    using sint_or_minus_power[of "Suc k" "ucast h"] k by (simp_all add: nIndex_def m)
  then show ?thesis using l by (simp add: hash_cell_def nat_offset_less)
qed

lemma hash_cell_less_min:
  assumes "nTableMask ht = HT_MIN_MASK" and "length (ht_hash ht) = 2"
  shows "hash_cell ht (nIndex h (nTableMask ht)) < 2"
proof -
  let ?i = "sint (nIndex h (nTableMask ht))"
  have "- (2 ^ 1) \<le> ?i" "?i < 0"
    using sint_or_minus_power[of 1 "ucast h"] assms by (simp_all add: nIndex_def HT_MIN_MASK_def)
  then show ?thesis using assms by (simp add: hash_cell_def)
qed

lemma cell_of_less: "mask_inv ht \<Longrightarrow> cell_of ht i < length (ht_hash ht)"
  by (simp add: cell_of_def hash_cell_less_mixed)

text \<open>A table that is packed or not yet initialised has only empty chains.\<close>

lemma HT_HASH_empty:
  assumes "nTableMask ht = HT_MIN_MASK" and "ht_hash ht = [HT_INVALID_IDX, HT_INVALID_IDX]"
  shows "HT_HASH ht (nIndex h (nTableMask ht)) = HT_INVALID_IDX"
  using hash_cell_less_min[of ht h] assms by (auto simp: HT_HASH_def less_2_cases_iff)

section \<open>Chains\<close>

lemma chain_cong:
  assumes "length ar' = length ar" and "\<And>i. i \<in> set is \<Longrightarrow> b_next (ar' ! i) = b_next (ar ! i)"
  shows "chain ar' s is = chain ar s is"
  using assms by (induction "is" arbitrary: s) auto

lemma chain_members: "chain ar s is \<Longrightarrow> i \<in> set is \<Longrightarrow> i < length ar"
  by (induction "is" arbitrary: s) auto

lemma find_chain_eq:
  assumes "chain ar s is" and "length is < n" and "length ar \<le> HT_INVALID_IDX"
  shows "find_chain n P ar s = List.find (\<lambda>i. P (ar ! i)) is"
  using assms
proof (induction "is" arbitrary: n s)
  case Nil
  then show ?case by (cases n) auto
next
  case (Cons i "is")
  then obtain m where "n = Suc m" by (cases n) auto
  with Cons show ?case by auto
qed

text \<open>The search with predecessor: no match, or the first match and what precedes it.\<close>

lemma find_chain_prev_None:
  assumes "chain ar s is" and "length is < n" and "length ar \<le> HT_INVALID_IDX"
    and "\<And>i. i \<in> set is \<Longrightarrow> \<not> P (ar ! i)"
  shows "find_chain_prev n P ar prev s = None"
  using assms
proof (induction "is" arbitrary: n s prev)
  case Nil
  then show ?case by (cases n) auto
next
  case (Cons i "is")
  then obtain m where "n = Suc m" by (cases n) auto
  with Cons show ?case by auto
qed

lemma find_chain_prev_Some:
  assumes "chain ar s (xs @ i # ys)" and "length xs < n" and "length ar \<le> HT_INVALID_IDX"
    and "\<And>j. j \<in> set xs \<Longrightarrow> \<not> P (ar ! j)" and "P (ar ! i)"
  shows "find_chain_prev n P ar prev s = Some (i, if xs = [] then prev else Some (last xs))"
  using assms
proof (induction xs arbitrary: n s prev)
  case Nil
  then show ?case by (cases n) auto
next
  case (Cons j xs)
  then obtain m where "n = Suc m" by (cases n) auto
  with Cons show ?case by auto
qed

lemma find_prev_eq:
  assumes "chain ar s (xs @ i # ys)" and "xs \<noteq> []" and "length xs < n" and "i \<notin> set xs"
  shows "find_prev n ar i s = last xs"
  using assms
proof (induction xs arbitrary: n s)
  case (Cons j xs)
  then obtain m where n: "n = Suc m" by (cases n) auto
  show ?case
  proof (cases "xs = []")
    case True
    with Cons.prems n show ?thesis by simp
  next
    case False
    then obtain k zs where "xs = k # zs" by (cases xs) auto
    with Cons False n show ?thesis by auto
  qed
qed simp

lemma chain_unlink:
  assumes "chain ar s (xs @ i # ys)" and "xs \<noteq> []" and "distinct (xs @ i # ys)"
    and "b_next b = b_next (ar ! i)"
  shows "chain (ar[last xs := b]) s (xs @ ys)"
  using assms
proof (induction xs arbitrary: s)
  case (Cons j xs)
  show ?case
  proof (cases "xs = []")
    case True
    with Cons.prems have "chain (ar[j := b]) (b_next (ar ! i)) ys = chain ar (b_next (ar ! i)) ys"
      by (intro chain_cong) (auto simp: nth_list_update)
    with Cons.prems True show ?thesis by auto
  next
    case False
    with Cons.prems have "last xs \<noteq> j" by auto
    moreover from Cons False have "chain (ar[last xs := b]) (b_next (ar ! j)) (xs @ ys)" by auto
    ultimately show ?thesis using Cons.prems False by auto
  qed
qed simp

lemma chain_append_tail: "chain ar s (xs @ ys) \<Longrightarrow> xs \<noteq> [] \<Longrightarrow> chain ar (b_next (ar ! last xs)) ys"
  by (induction xs arbitrary: s) (auto split: if_splits)

lemma chains_okD:
  "chains_ok ht L \<Longrightarrow> s < length (ht_hash ht) \<Longrightarrow>
     chain (arData ht) (ht_hash ht ! s) (rev (filter (\<lambda>i. cell_of ht i = s) L))"
  by (simp add: chains_ok_def)

lemma chains_ok_cong:
  assumes "chains_ok ht L" and "ht_hash ht' = ht_hash ht" and "nTableMask ht' = nTableMask ht"
    and "length (arData ht') = length (arData ht)"
    and "\<And>i. i \<in> set L \<Longrightarrow> b_next (arData ht' ! i) = b_next (arData ht ! i)
           \<and> b_h (arData ht' ! i) = b_h (arData ht ! i)"
  shows "chains_ok ht' L"
proof -
  have c: "cell_of ht' i = cell_of ht i" if "i \<in> set L" for i
    using assms that by (simp add: cell_of_def hash_cell_def)
  have f: "filter (\<lambda>i. cell_of ht' i = s) L = filter (\<lambda>i. cell_of ht i = s) L" for s
    using c by (intro filter_cong) auto
  show ?thesis unfolding chains_ok_def
  proof (intro allI impI)
    fix s assume "s < length (ht_hash ht')"
    then have "chain (arData ht) (ht_hash ht' ! s) (rev (filter (\<lambda>i. cell_of ht i = s) L))"
      using assms chains_okD by metis
    then show "chain (arData ht') (ht_hash ht' ! s) (rev (filter (\<lambda>i. cell_of ht' i = s) L))"
      unfolding f using assms(4,5) chain_cong by (smt (verit) filter_is_subset set_rev subsetD)
  qed
qed

section \<open>Linking a bucket\<close>

lemma link_bucket_fields [simp]:
  "nTableMask (link_bucket i ht) = nTableMask ht" "nNumUsed (link_bucket i ht) = nNumUsed ht"
  "nTableSize (link_bucket i ht) = nTableSize ht" "nNumOfElements (link_bucket i ht) = nNumOfElements ht"
  "length (arData (link_bucket i ht)) = length (arData ht)"
  "length (ht_hash (link_bucket i ht)) = length (ht_hash ht)"
  "flag_packed (link_bucket i ht) = flag_packed ht"
  "flag_uninitialized (link_bucket i ht) = flag_uninitialized ht"
  "nIteratorsCount (link_bucket i ht) = nIteratorsCount ht"
  "nInternalPointer (link_bucket i ht) = nInternalPointer ht"
  "nNextFreeElement (link_bucket i ht) = nNextFreeElement ht"
  "ht_iterators (link_bucket i ht) = ht_iterators ht"
  "ht_iterators_used (link_bucket i ht) = ht_iterators_used ht"
  "ht_addr (link_bucket i ht) = ht_addr ht"
  "dtor_log (link_bucket i ht) = dtor_log ht" "pDestructor (link_bucket i ht) = pDestructor ht"
  "ind_slots (link_bucket i ht) = ind_slots ht"
  by (simp_all add: link_bucket_def HT_HASH_set_def upd_bucket_def Let_def)

lemma link_bucket_data:
  "b_val (arData (link_bucket i ht) ! j) = b_val (arData ht ! j)"
  "b_h (arData (link_bucket i ht) ! j) = b_h (arData ht ! j)"
  "b_key (arData (link_bucket i ht) ! j) = b_key (arData ht ! j)"
  by (simp_all add: link_bucket_def HT_HASH_set_def upd_bucket_def Let_def nth_update_cases)

lemma cell_of_link [simp]: "cell_of (link_bucket i ht) j = cell_of ht j"
  by (simp add: cell_of_def hash_cell_def link_bucket_data)

lemma chains_ok_link:
  assumes "mask_inv ht" and "chains_ok ht L" and "i < length (arData ht)" and "i \<notin> set L"
  shows "chains_ok (link_bucket i ht) (L @ [i])"
  unfolding chains_ok_def
proof (intro allI impI)
  fix s assume s: "s < length (ht_hash (link_bucket i ht))"
  let ?R = "rev (filter (\<lambda>i. cell_of ht i = s) L)"
  have c: "chain (arData ht) (ht_hash ht ! s) ?R"
    using assms(2) s by (simp add: chains_okD)
  have same: "chain (arData (link_bucket i ht)) t ?R = chain (arData ht) t ?R" for t
    using assms(4)
    by (intro chain_cong) (auto simp: link_bucket_def HT_HASH_set_def upd_bucket_def Let_def nth_update_cases)
  have cell: "hash_cell ht (nIndex (b_h (arData ht ! i)) (nTableMask ht)) = cell_of ht i"
    by (simp add: cell_of_def)
  show "chain (arData (link_bucket i ht)) (ht_hash (link_bucket i ht) ! s)
          (rev (filter (\<lambda>j. cell_of (link_bucket i ht) j = s) (L @ [i])))"
  proof (cases "cell_of ht i = s")
    case True
    have "ht_hash (link_bucket i ht) ! s = i"
      using True s by (simp add: link_bucket_def HT_HASH_set_def upd_bucket_def Let_def hash_cell_def cell_of_def)
    moreover have "b_next (arData (link_bucket i ht) ! i) = ht_hash ht ! s"
      using True assms(3)
      by (simp add: link_bucket_def HT_HASH_set_def upd_bucket_def Let_def HT_HASH_def cell)
    ultimately show ?thesis using True assms(3) c same by simp
  next
    case False
    have "ht_hash (link_bucket i ht) ! s = ht_hash ht ! s"
      using False by (simp add: link_bucket_def HT_HASH_set_def upd_bucket_def Let_def hash_cell_def cell_of_def)
    then show ?thesis using False c same by simp
  qed
qed

section \<open>Keys and lookup\<close>

definition khash :: "hkey \<Rightarrow> zend_ulong" where
  "khash k = (case k of Inl h \<Rightarrow> h | Inr s \<Rightarrow> zend_inline_hash_func s)"

definition kmatch :: "hkey \<Rightarrow> 'v Bucket \<Rightarrow> bool" where
  "kmatch k = (case k of Inl h \<Rightarrow> int_key_matches h | Inr s \<Rightarrow> str_key_matches s (zend_inline_hash_func s))"

text \<open>The bucket index of a key, read off the abstract view.\<close>

definition idx_of :: "'v HashTable \<Rightarrow> hkey \<Rightarrow> nat option" where
  "idx_of ht k = List.find (\<lambda>i. bkey (arData ht ! i) = k) (live_of ht)"

lemma kmatch_iff: "key_hash_ok b \<Longrightarrow> kmatch k b \<longleftrightarrow> bkey b = k"
  by (auto simp: kmatch_def bkey_def key_hash_ok_def int_key_matches_def str_key_matches_def
      zend_string_hash_val_def split: sum.splits option.splits)

lemma bkey_hash: "key_hash_ok b \<Longrightarrow> b_h b = khash (bkey b)"
  by (auto simp: khash_def bkey_def key_hash_ok_def zend_string_hash_val_def split: option.splits)

lemma live_idx_set: "i \<in> set (live_idx ar n) \<longleftrightarrow> i < n \<and> b_val (ar ! i) \<noteq> IS_UNDEF"
  by (auto simp: live_idx_def live_def)

lemma live_idx_distinct [simp]: "distinct (live_idx ar n)"
  by (simp add: live_idx_def)

lemma live_idx_length: "length (live_idx ar n) \<le> n"
  unfolding live_idx_def by (rule length_filter_upt_le)

lemma map_fst_elems: "map fst (elems ht) = map (\<lambda>i. bkey (arData ht ! i)) (live_of ht)"
  by (simp add: elems_def entry_def)

lemma find_unique:
  assumes "distinct (map f xs)" and "i \<in> set xs"
  shows "List.find (\<lambda>j. f j = f i) xs = Some i"
  using assms by (induction xs) (auto simp: image_iff)

lemma idx_of_Some_iff:
  assumes "distinct (map fst (elems ht))"
  shows "idx_of ht k = Some i \<longleftrightarrow> i \<in> set (live_of ht) \<and> bkey (arData ht ! i) = k"
proof
  assume "idx_of ht k = Some i"
  then show "i \<in> set (live_of ht) \<and> bkey (arData ht ! i) = k"
    by (auto simp: idx_of_def find_Some_iff)
next
  assume "i \<in> set (live_of ht) \<and> bkey (arData ht ! i) = k"
  then show "idx_of ht k = Some i"
    using assms find_unique[of "\<lambda>i. bkey (arData ht ! i)" "live_of ht" i]
    by (auto simp: idx_of_def map_fst_elems)
qed

lemma idx_of_None_iff: "idx_of ht k = None \<longleftrightarrow> k \<notin> fst ` set (elems ht)"
  unfolding set_map[symmetric] map_fst_elems by (auto simp: idx_of_def find_None_iff)

lemma map_of_elems: "map_of (elems ht) k = map_option (\<lambda>i. b_val (arData ht ! i)) (idx_of ht k)"
proof -
  have "map_of (map (\<lambda>i. (f i, g i)) xs) k = map_option g (List.find (\<lambda>i. f i = k) xs)"
    for f :: "nat \<Rightarrow> hkey" and g :: "nat \<Rightarrow> 'a zval" and xs
    by (induction xs) auto
  then show ?thesis by (simp add: elems_def entry_def idx_of_def)
qed

definition find_key :: "'v HashTable \<Rightarrow> hkey \<Rightarrow> nat option" where
  "find_key ht k = find_chain (chain_fuel ht) (kmatch k) (arData ht)
     (HT_HASH ht (nIndex (khash k) (nTableMask ht)))"

lemma find_bucket_key: "zend_hash_find_bucket ht key = find_key ht (Inr (ZSTR_VAL key))"
  by (simp add: zend_hash_find_bucket_def find_key_def khash_def kmatch_def zend_string_hash_val_def Let_def)

lemma str_find_bucket_key:
  "zend_hash_str_find_bucket ht str (zend_inline_hash_func str) = find_key ht (Inr str)"
  by (simp add: zend_hash_str_find_bucket_def find_key_def khash_def kmatch_def)

lemma index_find_bucket_key: "zend_hash_index_find_bucket ht h = find_key ht (Inl h)"
  by (simp add: zend_hash_index_find_bucket_def find_key_def khash_def kmatch_def)

lemma mixed_invD:
  assumes "mixed_inv ht"
  shows "data_inv ht" "mask_inv ht" "chains_ok ht (live_of ht)" "distinct (map fst (elems ht))"
    "\<And>i. i \<in> set (live_of ht) \<Longrightarrow> key_hash_ok (arData ht ! i)"
  using assms by (auto simp: mixed_inv_def keys_inv_def)

lemma data_invD:
  assumes "data_inv ht"
  shows "size_ok (nTableSize ht)" "nNumUsed ht \<le> nTableSize ht" "length (arData ht) = nTableSize ht"
    "nNumOfElements ht = length (live_of ht)" "length (arData ht) < HT_INVALID_IDX"
    "\<And>i. i < nNumUsed ht \<Longrightarrow> b_val (arData ht ! i) \<noteq> UNINIT"
  using assms size_ok_bounds[of "nTableSize ht"] by (auto simp: data_inv_def HT_INVALID_IDX_def)

text \<open>The chain a key is searched in, and its members.\<close>

definition key_chain :: "'v HashTable \<Rightarrow> hkey \<Rightarrow> nat list" where
  "key_chain ht k = rev (filter (\<lambda>i. cell_of ht i = hash_cell ht (nIndex (khash k) (nTableMask ht))) (live_of ht))"

lemma key_chain_chain:
  assumes "mixed_inv ht"
  shows "chain (arData ht) (HT_HASH ht (nIndex (khash k) (nTableMask ht))) (key_chain ht k)"
  using assms chains_okD[OF mixed_invD(3)[OF assms]] hash_cell_less_mixed[OF mixed_invD(2)[OF assms]]
  by (simp add: key_chain_def HT_HASH_def)

lemma key_chain_length:
  assumes "mixed_inv ht"
  shows "length (key_chain ht k) < chain_fuel ht"
proof -
  have "length (key_chain ht k) \<le> length (live_of ht)" by (simp add: key_chain_def)
  also have "\<dots> \<le> nNumUsed ht" by (rule live_idx_length)
  also have "\<dots> \<le> length (arData ht)" using mixed_invD(1)[OF assms] by (simp add: data_inv_def)
  finally show ?thesis by (simp add: chain_fuel_def)
qed

lemma key_chain_member:
  assumes "mixed_inv ht"
  shows "i \<in> set (live_of ht) \<Longrightarrow> bkey (arData ht ! i) = k \<Longrightarrow> i \<in> set (key_chain ht k)"
    and "i \<in> set (key_chain ht k) \<Longrightarrow> i \<in> set (live_of ht)"
    and "distinct (key_chain ht k)"
  using mixed_invD(5)[OF assms] bkey_hash
  by (fastforce simp: key_chain_def cell_of_def)+

lemma find_key_mixed:
  assumes "mixed_inv ht"
  shows "find_key ht k = idx_of ht k"
proof -
  have eq: "find_key ht k = List.find (\<lambda>i. kmatch k (arData ht ! i)) (key_chain ht k)"
    unfolding find_key_def using data_invD(5)[OF mixed_invD(1)[OF assms]]
    by (intro find_chain_eq key_chain_chain key_chain_length assms) simp
  have m: "kmatch k (arData ht ! i) \<longleftrightarrow> bkey (arData ht ! i) = k" if "i \<in> set (key_chain ht k)" for i
    using mixed_invD(5)[OF assms] key_chain_member(2)[OF assms that] by (intro kmatch_iff) auto
  show ?thesis
  proof (cases "idx_of ht k")
    case None
    then have "\<not> kmatch k (arData ht ! i)" if "i \<in> set (key_chain ht k)" for i
      using m[OF that] key_chain_member(2)[OF assms that] by (auto simp: idx_of_def find_None_iff)
    then show ?thesis using eq None by (auto simp: find_None_iff)
  next
    case (Some i)
    then have i: "i \<in> set (live_of ht)" "bkey (arData ht ! i) = k"
      using idx_of_Some_iff[OF mixed_invD(4)[OF assms]] by auto
    have ic: "i \<in> set (key_chain ht k)" using key_chain_member(1)[OF assms i] .
    with m[OF ic] i(2) have "List.find (\<lambda>i. kmatch k (arData ht ! i)) (key_chain ht k) \<noteq> None"
      by (auto simp: find_None_iff)
    then obtain j where "find_key ht k = Some j" using eq by auto
    moreover from this have "j \<in> set (live_of ht)" "bkey (arData ht ! j) = k"
      using eq m key_chain_member(2)[OF assms] find_SomeD by metis+
    ultimately show ?thesis using idx_of_Some_iff[OF mixed_invD(4)[OF assms]] by metis
  qed
qed

end
