(* ===== verification/ZendHashAdd.thy ===== *)
theory ZendHashAdd
  imports ZendHashInv
begin

text \<open>
  Lookup, rehash, growth and insertion keep the invariant of the table and act on the
  ordered association list \<open>elems\<close> as the abstract array operations do.
\<close>

section \<open>Frame facts\<close>

lemma data_inv_cong:
  assumes "data_inv ht" "nTableSize ht' = nTableSize ht" "nNumUsed ht' = nNumUsed ht"
    "nNumOfElements ht' = nNumOfElements ht" "length (arData ht') = length (arData ht)"
    "\<And>i. i < nNumUsed ht \<Longrightarrow> b_val (arData ht' ! i) = b_val (arData ht ! i)"
  shows "data_inv ht'"
proof -
  have "live_of ht' = live_of ht"
    using assms(3,6) unfolding live_idx_def by (auto simp: live_def intro!: filter_cong)
  then show ?thesis using assms by (simp add: data_inv_def)
qed

text \<open>The used buckets agree in value, hash and key.\<close>

definition same_used :: "'v HashTable \<Rightarrow> 'v HashTable \<Rightarrow> bool" where
  "same_used ht ht' \<longleftrightarrow> nNumUsed ht' = nNumUsed ht \<and> (\<forall>i < nNumUsed ht.
     b_val (arData ht' ! i) = b_val (arData ht ! i) \<and> b_h (arData ht' ! i) = b_h (arData ht ! i)
     \<and> b_key (arData ht' ! i) = b_key (arData ht ! i))"

lemma same_usedD:
  assumes "same_used ht ht'"
  shows "nNumUsed ht' = nNumUsed ht" "live_of ht' = live_of ht" "elems ht' = elems ht"
    "\<And>i. i \<in> set (live_of ht) \<Longrightarrow> key_hash_ok (arData ht' ! i) = key_hash_ok (arData ht ! i)"
proof -
  show n: "nNumUsed ht' = nNumUsed ht" using assms by (simp add: same_used_def)
  show l: "live_of ht' = live_of ht"
    using assms unfolding live_idx_def by (auto simp: live_def same_used_def intro!: filter_cong)
  show "elems ht' = elems ht"
    unfolding elems_def l using assms
    by (auto simp: live_idx_set same_used_def entry_def bkey_def split: option.split intro!: map_cong)
  show "\<And>i. i \<in> set (live_of ht) \<Longrightarrow> key_hash_ok (arData ht' ! i) = key_hash_ok (arData ht ! i)"
    using assms by (auto simp: live_idx_set same_used_def key_hash_ok_def split: option.splits)
qed

lemma same_used_refl [simp]: "same_used ht ht"
  by (simp add: same_used_def)

lemma same_used_trans: "same_used a b \<Longrightarrow> same_used b c \<Longrightarrow> same_used a c"
  by (simp add: same_used_def)

lemma keys_inv_same_used: "same_used ht ht' \<Longrightarrow> keys_inv ht \<Longrightarrow> keys_inv ht'"
  unfolding keys_inv_def using same_usedD[of ht ht'] by auto

lemma link_bucket_same_used: "same_used ht (link_bucket i ht)"
  by (simp add: same_used_def link_bucket_data)

section \<open>Linking all buckets of a table\<close>

lemma link_buckets_fields [simp]:
  "nTableMask (link_buckets is ht) = nTableMask ht" "nNumUsed (link_buckets is ht) = nNumUsed ht"
  "nTableSize (link_buckets is ht) = nTableSize ht"
  "nNumOfElements (link_buckets is ht) = nNumOfElements ht"
  "length (arData (link_buckets is ht)) = length (arData ht)"
  "length (ht_hash (link_buckets is ht)) = length (ht_hash ht)"
  "flag_packed (link_buckets is ht) = flag_packed ht"
  "flag_uninitialized (link_buckets is ht) = flag_uninitialized ht"
  "nNextFreeElement (link_buckets is ht) = nNextFreeElement ht"
  "dtor_log (link_buckets is ht) = dtor_log ht" "pDestructor (link_buckets is ht) = pDestructor ht"
  "ind_slots (link_buckets is ht) = ind_slots ht" "ht_addr (link_buckets is ht) = ht_addr ht"
  "nIteratorsCount (link_buckets is ht) = nIteratorsCount ht"
  by (induction "is" arbitrary: ht) simp_all

lemma link_buckets_same_used: "same_used ht (link_buckets is ht)"
  by (induction "is" arbitrary: ht) (auto intro: same_used_trans link_bucket_same_used)

lemma mask_inv_link [simp]: "mask_inv (link_bucket i ht) = mask_inv ht"
  by (simp add: mask_inv_def)

lemma chains_ok_link_buckets:
  assumes "mask_inv ht" and "chains_ok ht L" and "distinct (L @ is)"
    and "\<And>i. i \<in> set is \<Longrightarrow> i < length (arData ht)"
  shows "chains_ok (link_buckets is ht) (L @ is)"
  using assms
proof (induction "is" arbitrary: ht L)
  case (Cons i "is")
  have "chains_ok (link_bucket i ht) (L @ [i])"
    using Cons.prems by (intro chains_ok_link) auto
  then have "chains_ok (link_buckets is (link_bucket i ht)) ((L @ [i]) @ is)"
    using Cons.prems by (intro Cons.IH) auto
  then show ?case by simp
qed simp

lemma chains_ok_reset:
  assumes "length (ht_hash ht) = HT_HASH_LEN (nTableMask ht)"
  shows "chains_ok (HT_HASH_RESET ht) []"
  by (simp add: chains_ok_def HT_HASH_RESET_def)

lemma reset_same_used: "same_used ht (HT_HASH_RESET ht)"
  by (simp add: same_used_def HT_HASH_RESET_def)

section \<open>Rehash\<close>

lemma map_iterators_eq: "\<exists>its. map_iterators f ht = ht\<lparr>ht_iterators := its\<rparr>"
  unfolding map_iterators_def by blast

lemma iterators_update_eq: "\<exists>its. zend_hash_iterators_update ht a b = ht\<lparr>ht_iterators := its\<rparr>"
proof (cases "HT_HAS_ITERATORS ht")
  case True
  then show ?thesis
    using map_iterators_eq[of _ ht] by (simp add: zend_hash_iterators_update_def zend_hash_iterators_update0_def)
next
  case False
  then have "zend_hash_iterators_update ht a b = ht\<lparr>ht_iterators := ht_iterators ht\<rparr>"
    by (simp add: zend_hash_iterators_update_def)
  then show ?thesis by blast
qed

lemma rehash_move_iterators_eq:
  "\<exists>its. fst (rehash_move_iterators n i j pos ht) = ht\<lparr>ht_iterators := its\<rparr>"
proof (induction n arbitrary: pos ht)
  case 0
  have "fst (rehash_move_iterators 0 i j pos ht) = ht\<lparr>ht_iterators := ht_iterators ht\<rparr>" by simp
  then show ?case by blast
next
  case (Suc n)
  obtain its where "zend_hash_iterators_update ht pos j = ht\<lparr>ht_iterators := its\<rparr>"
    using iterators_update_eq by blast
  then show ?case
    using Suc[of _ "ht\<lparr>ht_iterators := its\<rparr>"] by (auto simp: Let_def)
qed

text \<open>What a bucket holds apart from its chain link.\<close>

definition core :: "'v Bucket \<Rightarrow> 'v zval \<times> zend_ulong \<times> zend_string option" where
  "core b = (b_val b, b_h b, b_key b)"

text \<open>The fields a rehash leaves alone.\<close>

definition rehash_frame :: "'v HashTable \<Rightarrow> 'v HashTable \<Rightarrow> bool" where
  "rehash_frame ht ht' \<longleftrightarrow> nTableMask ht' = nTableMask ht \<and> nTableSize ht' = nTableSize ht
     \<and> nNumOfElements ht' = nNumOfElements ht \<and> length (arData ht') = length (arData ht)
     \<and> length (ht_hash ht') = length (ht_hash ht) \<and> flag_packed ht' = flag_packed ht
     \<and> flag_uninitialized ht' = flag_uninitialized ht \<and> nNextFreeElement ht' = nNextFreeElement ht
     \<and> dtor_log ht' = dtor_log ht \<and> pDestructor ht' = pDestructor ht \<and> ind_slots ht' = ind_slots ht
     \<and> nIteratorsCount ht' = nIteratorsCount ht \<and> ht_addr ht' = ht_addr ht"

lemma rehash_frame_refl [simp]: "rehash_frame ht ht"
  by (simp add: rehash_frame_def)

lemma rehash_frame_trans: "rehash_frame a b \<Longrightarrow> rehash_frame b c \<Longrightarrow> rehash_frame a c"
  by (simp add: rehash_frame_def)

lemma rehash_frame_mask: "rehash_frame ht ht' \<Longrightarrow> mask_inv ht' = mask_inv ht"
  by (simp add: rehash_frame_def mask_inv_def)

lemma chains_ok_frame [simp]:
  "chains_ok (ht\<lparr>nInternalPointer := p\<rparr>) L = chains_ok ht L"
  "chains_ok (ht\<lparr>ht_iterators := its\<rparr>) L = chains_ok ht L"
  "chains_ok (ht\<lparr>nNumUsed := n\<rparr>) L = chains_ok ht L"
  "chains_ok (ht\<lparr>nNumOfElements := n\<rparr>) L = chains_ok ht L"
  "chains_ok (ht\<lparr>nNextFreeElement := h\<rparr>) L = chains_ok ht L"
  "chains_ok (ht\<lparr>flag_static_keys := b\<rparr>) L = chains_ok ht L"
  "chains_ok (ht\<lparr>dtor_log := l\<rparr>) L = chains_ok ht L"
  by (simp_all add: chains_ok_def cell_of_def hash_cell_def)

lemma core_link [simp]: "core (arData (link_bucket i ht) ! k) = core (arData ht ! k)"
  by (simp add: core_def link_bucket_data)

lemma compact_move_frame: "rehash_frame ht (compact_move i j ht) \<and> nNumUsed (compact_move i j ht) = nNumUsed ht"
  by (simp add: rehash_frame_def compact_move_def upd_bucket_def)

lemma compact_move_core:
  "j < length (arData ht) \<Longrightarrow>
     core (arData (compact_move i j ht) ! k) = (if k = j then core (arData ht ! i) else core (arData ht ! k))"
  by (simp add: compact_move_def upd_bucket_def nth_update_cases) (simp add: core_def)

lemma compact_move_chains:
  assumes "mask_inv ht" "chains_ok ht [0..<j]" "j < length (arData ht)"
  shows "chains_ok (compact_move i j ht) [0..<Suc j]"
proof -
  let ?h1 = "upd_bucket j (\<lambda>q. q\<lparr>b_val := b_val (arData ht ! i),
     b_h := b_h (arData ht ! i), b_key := b_key (arData ht ! i)\<rparr>) ht"
  have "chains_ok ?h1 [0..<j]"
    using assms(2) by (rule chains_ok_cong) (auto simp: upd_bucket_def nth_update_cases)
  then have "chains_ok (link_bucket j ?h1) ([0..<j] @ [j])"
    using assms by (intro chains_ok_link) (auto simp: upd_bucket_def mask_inv_def)
  then show ?thesis by (simp add: compact_move_def)
qed

lemma rehash_compact_Cons:
  assumes "rehash_compact (i # is) j pos ht = (ht', j')" "b_val (arData ht ! i) \<noteq> IS_UNDEF"
  obtains p its pos' where
    "rehash_compact is (Suc j) pos' ((compact_move i j ht)\<lparr>nInternalPointer := p, ht_iterators := its\<rparr>) = (ht', j')"
proof -
  let ?m = "compact_move i j ht"
  define h3 where "h3 = (if nInternalPointer ?m = i then ?m\<lparr>nInternalPointer := j\<rparr> else ?m)"
  define r where "r = (if HT_HAS_ITERATORS h3 \<and> pos \<le> i
                          then rehash_move_iterators (i + 1) i j pos h3 else (h3, pos))"
  have "rehash_compact (i # is) j pos ht = rehash_compact is (Suc j) (snd r) (fst r)"
    using assms(2)
    by (simp only: rehash_compact.simps Let_def case_prod_beta Suc_eq_plus1 flip: h3_def r_def) simp
  with assms(1) have e: "rehash_compact is (Suc j) (snd r) (fst r) = (ht', j')" by simp
  have "\<exists>p. h3 = ?m\<lparr>nInternalPointer := p\<rparr>"
  proof (cases "nInternalPointer ?m = i")
    case False
    then have "h3 = ?m\<lparr>nInternalPointer := nInternalPointer ?m\<rparr>" by (simp add: h3_def)
    then show ?thesis by blast
  qed (auto simp: h3_def)
  moreover have "\<exists>its. fst r = h3\<lparr>ht_iterators := its\<rparr>"
  proof (cases "HT_HAS_ITERATORS h3 \<and> pos \<le> i")
    case False
    then have "fst r = h3\<lparr>ht_iterators := ht_iterators h3\<rparr>" by (auto simp: r_def)
    then show ?thesis by blast
  next
    case True
    then show ?thesis unfolding r_def using rehash_move_iterators_eq[of "i + 1" i j pos h3]
      by (simp del: rehash_move_iterators.simps)
  qed
  ultimately show thesis using e that by (metis HashTable.surjective)
qed

lemma rehash_compact_ok:
  assumes "rehash_compact is j pos ht = (ht', j')" "mask_inv ht" "chains_ok ht [0..<j]"
    "sorted_wrt (<) (j # is)" "\<And>i. i \<in> set is \<Longrightarrow> i < length (arData ht)"
  shows "rehash_frame ht ht' \<and> nNumUsed ht' = nNumUsed ht \<and> chains_ok ht' [0..<j']
    \<and> map (\<lambda>k. core (arData ht' ! k)) [0..<j'] =
        map (\<lambda>k. core (arData ht ! k)) ([0..<j] @ filter (live (arData ht)) is)"
  using assms
proof (induction "is" arbitrary: j pos ht)
  case (Cons i "is")
  show ?case
  proof (cases "b_val (arData ht ! i) = IS_UNDEF")
    case True
    with Cons.prems have "rehash_compact is j pos ht = (ht', j')" by simp
    from Cons.IH[OF this] Cons.prems True show ?thesis by (simp add: live_def)
  next
    case False
    obtain p its pos' where e: "rehash_compact is (Suc j) pos'
        ((compact_move i j ht)\<lparr>nInternalPointer := p, ht_iterators := its\<rparr>) = (ht', j')"
      using rehash_compact_Cons[OF Cons.prems(1) False] by blast
    let ?m = "compact_move i j ht"
    let ?h = "?m\<lparr>nInternalPointer := p, ht_iterators := its\<rparr>"
    have ji: "j < i" "j < length (arData ht)" "\<And>k. k \<in> set is \<Longrightarrow> i < k"
      using Cons.prems(4) Cons.prems(5)[of i] by auto
    have fr: "rehash_frame ht ?h" "nNumUsed ?h = nNumUsed ht"
      using compact_move_frame[of ht i j] by (auto simp: rehash_frame_def)
    have c: "core (arData ?m ! k) = (if k = j then core (arData ht ! i) else core (arData ht ! k))" for k
      using compact_move_core[OF ji(2)] .
    have IH: "rehash_frame ?h ht' \<and> nNumUsed ht' = nNumUsed ?h \<and> chains_ok ht' [0..<j']
      \<and> map (\<lambda>k. core (arData ht' ! k)) [0..<j'] =
        map (\<lambda>k. core (arData ?h ! k)) ([0..<Suc j] @ filter (live (arData ?h)) is)"
    proof (rule Cons.IH[OF e])
      show "mask_inv ?h" using Cons.prems(2) rehash_frame_mask[OF fr(1)] by simp
      show "chains_ok ?h [0..<Suc j]" using compact_move_chains[OF Cons.prems(2,3) ji(2)] by simp
      have "Suc j < k" if "k \<in> set is" for k using ji(1) ji(3)[OF that] by linarith
      then show "sorted_wrt (<) (Suc j # is)" using Cons.prems(4) by auto
      show "\<And>k. k \<in> set is \<Longrightarrow> k < length (arData ?h)"
        using Cons.prems(5) fr(1) by (auto simp: rehash_frame_def)
    qed
    have l: "live (arData ?m) k = live (arData ht) k" if "k \<in> set is" for k
      using c[of k] ji that by (fastforce simp: live_def core_def)
    then have f: "filter (live (arData ?m)) is = filter (live (arData ht)) is"
      by (intro filter_cong) auto
    have m1: "map (\<lambda>k. core (arData ?m ! k)) (filter (live (arData ht)) is) =
          map (\<lambda>k. core (arData ht ! k)) (filter (live (arData ht)) is)"
      using c ji by (intro map_cong) (auto, fastforce)
    have m2: "map (\<lambda>k. core (arData ?m ! k)) [0..<j] = map (\<lambda>k. core (arData ht ! k)) [0..<j]"
      using c by (intro map_cong) auto
    have "live (arData ht) i" using False by (simp add: live_def)
    then show ?thesis
      using IH rehash_frame_trans[OF fr(1)] fr(2) by (simp add: f m1 m2 c[of j])
  qed
qed simp

lemma rehash_scan_ok:
  assumes "mask_inv ht" "chains_ok ht [0..<a]" "n \<le> length (arData ht)" "a \<le> n" "nNumUsed ht = n"
    "\<And>k. k < a \<Longrightarrow> b_val (arData ht ! k) \<noteq> IS_UNDEF"
  shows "rehash_frame ht (rehash_scan [a..<n] ht)
    \<and> chains_ok (rehash_scan [a..<n] ht) [0..<nNumUsed (rehash_scan [a..<n] ht)]
    \<and> map (\<lambda>k. core (arData (rehash_scan [a..<n] ht) ! k)) [0..<nNumUsed (rehash_scan [a..<n] ht)] =
        map (\<lambda>k. core (arData ht ! k)) (live_idx (arData ht) n)"
  using assms
proof (induction "n - a" arbitrary: a ht)
  case 0
  then have "live_idx (arData ht) n = [0..<n]"
    by (auto simp: live_idx_def live_def intro!: filter_True)
  with 0 show ?case by simp
next
  case (Suc d)
  then have an: "a < n" "[a..<n] = a # [Suc a..<n]" by (auto simp: upt_conv_Cons)
  show ?case
  proof (cases "b_val (arData ht ! a) = IS_UNDEF")
    case True
    obtain ht' j where e: "rehash_compact [Suc a..<n] a (zend_hash_iterators_lower_pos ht 0) ht = (ht', j)"
      by (meson surj_pair)
    have r: "rehash_scan [a..<n] ht = ht'\<lparr>nNumUsed := j\<rparr>" using an True e by simp
    have "[0..<n] = [0..<a] @ a # [Suc a..<n]" using an by (metis upt_add_eq_append le0 le_add_diff_inverse less_imp_le)
    then have "live_idx (arData ht) n = [0..<a] @ filter (live (arData ht)) [Suc a..<n]"
      using True Suc.prems(6) by (auto simp: live_idx_def live_def intro!: filter_True)
    moreover have "rehash_frame ht ht' \<and> nNumUsed ht' = nNumUsed ht \<and> chains_ok ht' [0..<j]
      \<and> map (\<lambda>k. core (arData ht' ! k)) [0..<j] =
        map (\<lambda>k. core (arData ht ! k)) ([0..<a] @ filter (live (arData ht)) [Suc a..<n])"
      using Suc.prems by (intro rehash_compact_ok[OF e]) auto
    ultimately show ?thesis by (simp add: r rehash_frame_def)
  next
    case False
    let ?l = "link_bucket a ht"
    have s: "rehash_scan [a..<n] ht = rehash_scan [Suc a..<n] ?l" using an False by simp
    have v: "b_val (arData ?l ! k) \<noteq> IS_UNDEF" if "k < Suc a" for k
      using that False Suc.prems(6) by (auto simp: link_bucket_data less_Suc_eq)
    have li: "live_idx (arData ?l) n = live_idx (arData ht) n"
      by (simp add: live_idx_def live_def[abs_def] link_bucket_data)
    have "chains_ok ?l ([0..<a] @ [a])"
      using Suc.prems an by (intro chains_ok_link) auto
    then have "rehash_frame ?l (rehash_scan [Suc a..<n] ?l)
      \<and> chains_ok (rehash_scan [Suc a..<n] ?l) [0..<nNumUsed (rehash_scan [Suc a..<n] ?l)]
      \<and> map (\<lambda>k. core (arData (rehash_scan [Suc a..<n] ?l) ! k)) [0..<nNumUsed (rehash_scan [Suc a..<n] ?l)] =
          map (\<lambda>k. core (arData ?l ! k)) (live_idx (arData ?l) n)"
      using Suc.prems Suc.hyps(2) an v by (intro Suc.hyps(1)) auto
    moreover have "rehash_frame ht ?l" by (simp add: rehash_frame_def)
    ultimately show ?thesis unfolding s li by (auto intro: rehash_frame_trans)
  qed
qed

lemma elems_of_cores:
  assumes "map (\<lambda>k. core (arData ht' ! k)) (live_of ht') = map (\<lambda>k. core (arData ht ! k)) (live_of ht)"
  shows "elems ht' = elems ht"
    and "(\<forall>i \<in> set (live_of ht'). key_hash_ok (arData ht' ! i)) = (\<forall>i \<in> set (live_of ht). key_hash_ok (arData ht ! i))"
proof -
  define f where "f = (\<lambda>(v, h :: zend_ulong, k :: zend_string option). (case k of None \<Rightarrow> Inl h | Some s \<Rightarrow> Inr (ZSTR_VAL s), v) :: hkey \<times> 'a zval)"
  define g where "g = (\<lambda>(v :: 'a zval, h, k :: zend_string option). case k of None \<Rightarrow> True | Some s \<Rightarrow> h = zend_string_hash_val s)"
  have "f (core b) = entry b" "g (core b) = key_hash_ok b" for b
    by (simp_all add: f_def g_def core_def entry_def bkey_def key_hash_ok_def)
  moreover have "map f (map (\<lambda>k. core (arData ht' ! k)) (live_of ht')) = map f (map (\<lambda>k. core (arData ht ! k)) (live_of ht))"
    "list_all g (map (\<lambda>k. core (arData ht' ! k)) (live_of ht')) = list_all g (map (\<lambda>k. core (arData ht ! k)) (live_of ht))"
    using assms by simp_all
  ultimately show "elems ht' = elems ht"
    "(\<forall>i \<in> set (live_of ht'). key_hash_ok (arData ht' ! i)) = (\<forall>i \<in> set (live_of ht). key_hash_ok (arData ht ! i))"
    by (simp_all add: elems_def list_all_iff o_def)
qed

lemma chains_ok_after_reset:
  "mask_inv ht \<Longrightarrow> chains_ok (HT_HASH_RESET ht) [] \<and> mask_inv (HT_HASH_RESET ht) \<and> rehash_frame ht (HT_HASH_RESET ht)"
  by (auto simp: chains_ok_def HT_HASH_RESET_def mask_inv_def hash_len_of_size rehash_frame_def)

text \<open>
  The rehash proper: every live bucket ends up in the first \<open>nNumOfElements\<close> places, in
  order, and in its chain.
\<close>

lemma rehash_core:
  assumes "data_inv ht" "mask_inv ht" "\<not> flag_uninitialized ht"
  defines "ht' \<equiv> zend_hash_rehash ht"
  shows "rehash_frame ht ht'" "chains_ok ht' [0..<nNumUsed ht']"
    "map (\<lambda>k. core (arData ht' ! k)) [0..<nNumUsed ht'] = map (\<lambda>k. core (arData ht ! k)) (live_of ht)"
proof -
  have r: "chains_ok (HT_HASH_RESET ht) []" "mask_inv (HT_HASH_RESET ht)" "rehash_frame ht (HT_HASH_RESET ht)"
    using chains_ok_after_reset[OF assms(2)] by auto
  have rf [simp]: "nNumUsed (HT_HASH_RESET ht) = nNumUsed ht" "arData (HT_HASH_RESET ht) = arData ht"
    "nNumOfElements (HT_HASH_RESET ht) = nNumOfElements ht"
    by (simp_all add: HT_HASH_RESET_def)
  have le: "nNumUsed ht \<le> length (arData ht)" and ne: "nNumOfElements ht = length (live_of ht)"
    using data_invD[OF assms(1)] by auto
  have "rehash_frame ht ht' \<and> chains_ok ht' [0..<nNumUsed ht'] \<and>
    map (\<lambda>k. core (arData ht' ! k)) [0..<nNumUsed ht'] = map (\<lambda>k. core (arData ht ! k)) (live_of ht)"
  proof (cases "nNumOfElements ht = 0")
    case True
    then show ?thesis using r ne assms(3)
      by (simp add: ht'_def zend_hash_rehash_def HT_HASH_RESET_def rehash_frame_def
          chains_ok_def cell_of_def hash_cell_def)
  next
    case False
    show ?thesis
    proof (cases "nNumUsed ht = nNumOfElements ht")
      case True
      then have h: "ht' = link_buckets [0..<nNumUsed ht] (HT_HASH_RESET ht)"
        using False by (simp add: ht'_def zend_hash_rehash_def HT_IS_WITHOUT_HOLES_def Let_def)
      have "length (filter (live (arData ht)) [0..<nNumUsed ht]) = length [0..<nNumUsed ht]"
        using True ne by (simp add: live_idx_def)
      then have lv: "live_of ht = [0..<nNumUsed ht]"
        unfolding live_idx_def by (metis filter_id_conv length_filter_less less_irrefl)
      have "chains_ok ht' ([] @ [0..<nNumUsed ht])"
        unfolding h using r le by (intro chains_ok_link_buckets) auto
      moreover have "same_used ht ht'"
        unfolding h using same_used_trans[OF reset_same_used link_buckets_same_used] .
      ultimately show ?thesis using r(3) lv
        by (auto simp: h rehash_frame_def same_used_def core_def)
    next
      case False': False
      let ?s = "rehash_scan [0..<nNumUsed ht] (HT_HASH_RESET ht)"
      have s: "rehash_frame (HT_HASH_RESET ht) ?s \<and> chains_ok ?s [0..<nNumUsed ?s]
         \<and> map (\<lambda>k. core (arData ?s ! k)) [0..<nNumUsed ?s] = map (\<lambda>k. core (arData ht ! k)) (live_of ht)"
        using rehash_scan_ok[of "HT_HASH_RESET ht" 0 "nNumUsed ht"] r le by simp
      obtain its where "ht' = ?s\<lparr>ht_iterators := its\<rparr>"
      proof (cases "HT_HAS_ITERATORS ?s")
        case True
        then show thesis using that False False' map_iterators_eq[of _ ?s]
          by (auto simp: ht'_def zend_hash_rehash_def HT_IS_WITHOUT_HOLES_def Let_def zend_hash_iterators_update0_def)
      next
        case F: False
        have "ht' = ?s\<lparr>ht_iterators := ht_iterators ?s\<rparr>" using False False' F
          by (simp add: ht'_def zend_hash_rehash_def HT_IS_WITHOUT_HOLES_def Let_def)
        then show thesis using that by blast
      qed
      moreover have "rehash_frame ht ?s" using s rehash_frame_trans[OF r(3)] by blast
      ultimately show ?thesis using s by (simp add: rehash_frame_def)
    qed
  qed
  then show "rehash_frame ht ht'" "chains_ok ht' [0..<nNumUsed ht']"
    "map (\<lambda>k. core (arData ht' ! k)) [0..<nNumUsed ht'] = map (\<lambda>k. core (arData ht ! k)) (live_of ht)"
    by auto
qed

lemma rehash_mixed:
  assumes "data_inv ht" "mask_inv ht" "keys_inv ht" "\<not> flag_uninitialized ht"
  defines "ht' \<equiv> zend_hash_rehash ht"
  shows "mixed_inv ht'" "elems ht' = elems ht" "nNumUsed ht' = nNumOfElements ht'" "rehash_frame ht ht'"
proof -
  note c = rehash_core[OF assms(1,2,4), folded ht'_def]
  show fr: "rehash_frame ht ht'" by (rule c(1))
  have n: "nNumUsed ht' = nNumOfElements ht" using arg_cong[OF c(3), of length] data_invD(4)[OF assms(1)] by simp
  then show "nNumUsed ht' = nNumOfElements ht'" using fr by (simp add: rehash_frame_def)
  have v: "b_val (arData ht' ! k) \<noteq> IS_UNDEF \<and> b_val (arData ht' ! k) \<noteq> UNINIT" if "k < nNumUsed ht'" for k
  proof -
    have "core (arData ht' ! k) \<in> set (map (\<lambda>k. core (arData ht' ! k)) [0..<nNumUsed ht'])"
      using that by simp
    then have "core (arData ht' ! k) \<in> set (map (\<lambda>k. core (arData ht ! k)) (live_of ht))"
      by (simp only: c(3))
    then obtain i where "i \<in> set (live_of ht)" "b_val (arData ht' ! k) = b_val (arData ht ! i)"
      by (auto simp: core_def)
    then show ?thesis using data_invD(6)[OF assms(1)] by (auto simp: live_idx_set)
  qed
  have lv: "live_of ht' = [0..<nNumUsed ht']"
    unfolding live_idx_def by (intro filter_True) (simp add: live_def v)
  have e: "map (\<lambda>k. core (arData ht' ! k)) (live_of ht') = map (\<lambda>k. core (arData ht ! k)) (live_of ht)"
    using c(3) lv by simp
  show el: "elems ht' = elems ht" by (rule elems_of_cores(1)[OF e])
  have "keys_inv ht'" using assms(3) elems_of_cores[OF e] by (simp add: keys_inv_def)
  moreover have "data_inv ht'"
    using assms(1) fr n lv v live_idx_length[of "arData ht" "nNumUsed ht"]
    by (simp add: data_inv_def rehash_frame_def)
  ultimately show "mixed_inv ht'"
    using c(2) lv assms(2) rehash_frame_mask[OF fr] by (simp add: mixed_inv_def)
qed

section \<open>Adding a bucket\<close>

definition add_bucket :: "'v Bucket \<Rightarrow> 'v HashTable \<Rightarrow> 'v HashTable" where
  "add_bucket b ht = link_bucket (nNumUsed ht) (ht\<lparr>nNumUsed := nNumUsed ht + 1,
     nNumOfElements := nNumOfElements ht + 1, arData := (arData ht)[nNumUsed ht := b]\<rparr>)"

definition proper :: "'v zval \<Rightarrow> bool" where
  "proper v \<longleftrightarrow> v \<noteq> IS_UNDEF \<and> v \<noteq> UNINIT"

lemma add_to_hash_eq:
  assumes "nNumUsed ht < length (arData ht)"
  shows "add_to_hash ht key h v =
    (add_bucket \<lparr>b_val = v, b_next = 0, b_h = h, b_key = Some key\<rparr> ht, Some (PBucket (nNumUsed ht)))"
  using assms
  by (simp add: add_to_hash_def add_bucket_def link_bucket_def HT_HASH_set_def upd_bucket_def Let_def
      HT_HASH_def hash_cell_def)

definition next_free_after :: "zend_ulong \<Rightarrow> zend_ulong \<Rightarrow> zend_ulong" where
  "next_free_after nf h =
     (if sint nf \<le> sint h then if h < ZEND_LONG_MAX then h + 1 else ZEND_LONG_MAX else nf)"

lemma add_index_to_hash_eq:
  assumes "nNumUsed ht < length (arData ht)"
  shows "add_index_to_hash ht h v =
    ((add_bucket \<lparr>b_val = v, b_next = 0, b_h = h, b_key = None\<rparr> ht)
       \<lparr>nNextFreeElement := next_free_after (nNextFreeElement ht) h\<rparr>, Some (PBucket (nNumUsed ht)))"
proof (cases ht)
  case (fields addr pk un st em ic mask hash ar used elm sz ip nf d its iu ind lg)
  with assms show ?thesis
    by (cases "ar ! used")
       (simp add: add_index_to_hash_def add_bucket_def link_bucket_def HT_HASH_set_def upd_bucket_def
         Let_def HT_HASH_def hash_cell_def next_free_after_def)
qed

lemma add_bucket_ok:
  assumes "mixed_inv ht" "nNumUsed ht < nTableSize ht" "proper (b_val b)" "key_hash_ok b"
    "bkey b \<notin> fst ` set (elems ht)"
  shows "mixed_inv (add_bucket b ht)" "elems (add_bucket b ht) = elems ht @ [entry b]"
proof -
  let ?n = "nNumUsed ht"
  let ?h = "ht\<lparr>nNumUsed := ?n + 1, nNumOfElements := nNumOfElements ht + 1, arData := (arData ht)[?n := b]\<rparr>"
  note d = data_invD[OF mixed_invD(1)[OF assms(1)]]
  have n: "?n < length (arData ht)" using assms(2) d(3) by simp
  have lb: "live ((arData ht)[?n := b]) k = live (arData ht) k" if "k < ?n" for k
    using that by (simp add: live_def)
  then have "filter (live ((arData ht)[?n := b])) [0..<?n] = filter (live (arData ht)) [0..<?n]"
    by (intro filter_cong) auto
  then have l: "live_of ?h = live_of ht @ [?n]"
    using assms(3) n by (simp add: live_idx_def live_def proper_def)
  have su: "same_used ?h (add_bucket b ht)"
    unfolding add_bucket_def by (rule link_bucket_same_used)
  have "map (\<lambda>i. entry (arData ?h ! i)) (live_of ht) = elems ht"
    unfolding elems_def by (intro map_cong) (auto simp: live_idx_set)
  then have "elems ?h = elems ht @ [entry b]"
    using n unfolding elems_def l by simp
  then show el: "elems (add_bucket b ht) = elems ht @ [entry b]"
    using same_usedD(3)[OF su] by simp
  have lv: "live_of (add_bucket b ht) = live_of ht @ [?n]"
    using same_usedD(2)[OF su] l by simp
  have dh: "data_inv ?h"
    using d assms(2,3) l n by (auto simp: data_inv_def proper_def nth_list_update)
  have "data_inv (add_bucket b ht)"
    by (rule data_inv_cong[OF dh]) (simp_all add: add_bucket_def link_bucket_data)
  moreover have m: "mask_inv (add_bucket b ht)" "mask_inv ?h"
    using mixed_invD(2)[OF assms(1)] by (simp_all add: add_bucket_def mask_inv_def)
  moreover have "chains_ok ?h (live_of ht)"
    using mixed_invD(3)[OF assms(1)] by (rule chains_ok_cong) (auto simp: live_idx_set)
  then have "chains_ok (add_bucket b ht) (live_of (add_bucket b ht))"
    unfolding lv unfolding add_bucket_def using m(2) n by (intro chains_ok_link) (auto simp: live_idx_set)
  moreover have "keys_inv ?h"
    using mixed_invD(4,5)[OF assms(1)] assms(4,5) l n \<open>elems ?h = elems ht @ [entry b]\<close>
    by (auto simp: keys_inv_def entry_def live_idx_set)
  then have "keys_inv (add_bucket b ht)" using su keys_inv_same_used by blast
  ultimately show "mixed_inv (add_bucket b ht)" by (simp add: mixed_inv_def)
qed

lemma add_bucket_fields [simp]:
  "flag_packed (add_bucket b ht) = flag_packed ht"
  "flag_uninitialized (add_bucket b ht) = flag_uninitialized ht"
  "dtor_log (add_bucket b ht) = dtor_log ht" "ind_slots (add_bucket b ht) = ind_slots ht"
  "nNextFreeElement (add_bucket b ht) = nNextFreeElement ht"
  "nTableSize (add_bucket b ht) = nTableSize ht"
  "nNumUsed (add_bucket b ht) = Suc (nNumUsed ht)"
  "nNumOfElements (add_bucket b ht) = Suc (nNumOfElements ht)"
  by (simp_all add: add_bucket_def)

text \<open>Fields that do not take part in the invariant.\<close>

lemma mixed_inv_frame [simp]:
  "mixed_inv (ht\<lparr>nNextFreeElement := nf\<rparr>) = mixed_inv ht"
  "mixed_inv (ht\<lparr>flag_static_keys := b\<rparr>) = mixed_inv ht"
  "mixed_inv (ht\<lparr>dtor_log := l\<rparr>) = mixed_inv ht"
  "mixed_inv (ht\<lparr>nInternalPointer := p\<rparr>) = mixed_inv ht"
  "mixed_inv (ht\<lparr>ht_iterators := its\<rparr>) = mixed_inv ht"
  by (simp_all add: mixed_inv_def data_inv_def mask_inv_def keys_inv_def elems_def)

lemma elems_frame [simp]:
  "elems (ht\<lparr>nNextFreeElement := nf\<rparr>) = elems ht"
  "elems (ht\<lparr>flag_static_keys := b\<rparr>) = elems ht"
  "elems (ht\<lparr>dtor_log := l\<rparr>) = elems ht"
  "elems (ht\<lparr>nInternalPointer := p\<rparr>) = elems ht"
  "elems (ht\<lparr>ht_iterators := its\<rparr>) = elems ht"
  by (simp_all add: elems_def)

lemma ht_inv_frame [simp]:
  "ht_inv (ht\<lparr>nNextFreeElement := nf\<rparr>) = ht_inv ht"
  "ht_inv (ht\<lparr>flag_static_keys := b\<rparr>) = ht_inv ht"
  "ht_inv (ht\<lparr>dtor_log := l\<rparr>) = ht_inv ht"
  "ht_inv (ht\<lparr>nInternalPointer := p\<rparr>) = ht_inv ht"
  "ht_inv (ht\<lparr>ht_iterators := its\<rparr>) = ht_inv ht"
  by (simp_all add: ht_inv_def packed_inv_def data_inv_def uninit_inv_def)

section \<open>Growing and converting\<close>

lemma size_ok_double: "size_ok n \<Longrightarrow> n < 2 ^ 30 \<Longrightarrow> size_ok (2 * n) \<and> u32_double n = 2 * n"
proof -
  assume "size_ok n" and lt: "n < 2 ^ 30"
  then obtain k where k: "3 \<le> k" "k \<le> 30" "n = 2 ^ k" by (auto simp: size_ok_def)
  then have "k < 30" using lt by (metis power_strict_increasing_iff one_less_numeral_iff semiring_norm(76))
  then have "size_ok (2 * n)" unfolding size_ok_def using k by (intro exI[of _ "Suc k"]) simp
  then show ?thesis using lt by (simp add: u32_double_def)
qed

lemma move_data_same_used:
  "nNumUsed ht \<le> length (arData ht) \<Longrightarrow> same_used ht (move_data ht)"
  by (simp add: same_used_def move_data_def nth_append)

text \<open>Moving the buckets of a table into a bigger area and rehashing.\<close>

lemma move_rehash:
  assumes "data_inv ht" "keys_inv ht" "\<not> flag_uninitialized ht" "size_ok sz" "nTableSize ht \<le> sz"
  defines "ht' \<equiv> zend_hash_rehash (move_data (ht\<lparr>nTableSize := sz, nTableMask := HT_SIZE_TO_MASK sz\<rparr>))"
  shows "mixed_inv ht'" "elems ht' = elems ht" "nNumUsed ht' = nNumOfElements ht'"
    "nTableSize ht' = sz" "nNumOfElements ht' = nNumOfElements ht"
    "flag_packed ht' = flag_packed ht" "\<not> flag_uninitialized ht'" "dtor_log ht' = dtor_log ht"
    "nNextFreeElement ht' = nNextFreeElement ht" "ind_slots ht' = ind_slots ht"
    "pDestructor ht' = pDestructor ht"
proof -
  let ?h = "ht\<lparr>nTableSize := sz, nTableMask := HT_SIZE_TO_MASK sz\<rparr>"
  let ?m = "move_data ?h"
  have su: "same_used ht ?m"
    using data_invD(2,3)[OF assms(1)] move_data_same_used[of ?h] by (simp add: same_used_def)
  have d: "data_inv ?m"
    using assms(1,4,5) same_usedD(1,2)[OF su] su
    by (auto simp: data_inv_def move_data_def same_used_def)
  have m: "mask_inv ?m"
    using assms(4) by (simp add: mask_inv_def move_data_def hash_len_of_size)
  have k: "keys_inv ?m" using assms(2) keys_inv_same_used[OF su] by simp
  have u: "\<not> flag_uninitialized ?m" using assms(3) by (simp add: move_data_def)
  note r = rehash_mixed[OF d m k u, folded ht'_def]
  show "mixed_inv ht'" "nNumUsed ht' = nNumOfElements ht'" using r by auto
  show "elems ht' = elems ht" using r(2) same_usedD(3)[OF su] by simp
  show "nTableSize ht' = sz" "nNumOfElements ht' = nNumOfElements ht"
    "flag_packed ht' = flag_packed ht" "\<not> flag_uninitialized ht'" "dtor_log ht' = dtor_log ht"
    "nNextFreeElement ht' = nNextFreeElement ht" "ind_slots ht' = ind_slots ht"
    "pDestructor ht' = pDestructor ht"
    using r(4) assms(3) by (simp_all add: rehash_frame_def move_data_def)
qed

text \<open>The table after a conversion or a resize: same elements, ready for another bucket.\<close>

definition grown :: "'v HashTable \<Rightarrow> 'v HashTable \<Rightarrow> bool" where
  "grown ht ht' \<longleftrightarrow> mixed_inv ht' \<and> elems ht' = elems ht \<and> nNumUsed ht' < nTableSize ht'
     \<and> \<not> flag_packed ht' \<and> \<not> flag_uninitialized ht' \<and> dtor_log ht' = dtor_log ht
     \<and> nNextFreeElement ht' = nNextFreeElement ht \<and> ind_slots ht' = ind_slots ht
     \<and> pDestructor ht' = pDestructor ht"

lemma do_resize_grown:
  assumes "mixed_inv ht" "\<not> flag_packed ht" "\<not> flag_uninitialized ht"
    "nTableSize ht \<le> nNumUsed ht" "nTableSize ht < 2 ^ 30"
  shows "\<exists>ht'. zend_hash_do_resize ht = Inr ht' \<and> grown ht ht'"
proof (cases "nNumOfElements ht + nNumOfElements ht div 32 < nNumUsed ht")
  case True
  note r = rehash_mixed[OF mixed_invD(1,2)[OF assms(1)] _ assms(3)]
  have k: "keys_inv ht" using assms(1) by (simp add: mixed_inv_def)
  have "nNumUsed (zend_hash_rehash ht) < nTableSize (zend_hash_rehash ht)"
    using r(3,4)[OF k] True data_invD(2)[OF mixed_invD(1)[OF assms(1)]] by (simp add: rehash_frame_def)
  then have "grown ht (zend_hash_rehash ht)"
    using r[OF k] assms(2,3) by (simp add: grown_def rehash_frame_def)
  then show ?thesis using True by (simp add: zend_hash_do_resize_def)
next
  case False
  note d = data_invD[OF mixed_invD(1)[OF assms(1)]]
  have sz: "size_ok (2 * nTableSize ht)" "u32_double (nTableSize ht) = 2 * nTableSize ht"
    using size_ok_double[OF d(1) assms(5)] by auto
  have k: "keys_inv ht" using assms(1) by (simp add: mixed_inv_def)
  note r = move_rehash[OF mixed_invD(1)[OF assms(1)] k assms(3) sz(1)]
  have "nNumOfElements ht < 2 * nTableSize ht"
    using d(2,4) live_idx_length[of "arData ht" "nNumUsed ht"] size_ok_bounds[OF d(1)] by linarith
  then show ?thesis using False assms(2,5) r
    by (simp add: zend_hash_do_resize_def HT_MAX_SIZE_def sz grown_def Let_def)
qed

lemma if_full_grown:
  assumes "mixed_inv ht" "\<not> flag_packed ht" "\<not> flag_uninitialized ht"
    "nNumUsed ht < nTableSize ht \<or> nTableSize ht < 2 ^ 30"
  shows "\<exists>ht'. ZEND_HASH_IF_FULL_DO_RESIZE ht = Inr ht' \<and> grown ht ht'"
proof (cases "nTableSize ht \<le> nNumUsed ht")
  case True
  then show ?thesis using do_resize_grown[OF assms(1-3)] assms(4)
    by (simp add: ZEND_HASH_IF_FULL_DO_RESIZE_def)
next
  case False
  then show ?thesis using assms by (simp add: ZEND_HASH_IF_FULL_DO_RESIZE_def grown_def)
qed

lemma packed_keys:
  assumes "packed_inv ht"
  shows "map fst (elems ht) = map (\<lambda>i. Inl (of_nat i)) (live_of ht)" "keys_inv ht"
proof -
  have "bkey (arData ht ! i) = Inl (of_nat i)" "key_hash_ok (arData ht ! i)" if "i \<in> set (live_of ht)" for i
    using assms that by (auto simp: packed_inv_def bkey_def key_hash_ok_def)
  then show k: "map fst (elems ht) = map (\<lambda>i. Inl (of_nat i)) (live_of ht)"
    by (auto simp: map_fst_elems)
  have "nTableSize ht \<le> 2 ^ 30" "nNumUsed ht \<le> nTableSize ht"
    using assms size_ok_bounds data_invD by (auto simp: packed_inv_def)
  then have "inj_on (\<lambda>i. of_nat i :: zend_ulong) (set (live_of ht))"
    by (intro inj_onI of_nat_64_inj) (auto simp: live_idx_set)
  then have "inj_on (\<lambda>i. Inl (of_nat i) :: hkey) (set (live_of ht))"
    by (auto simp: inj_on_def)
  then show "keys_inv ht"
    using \<open>\<And>i. i \<in> set (live_of ht) \<Longrightarrow> key_hash_ok (arData ht ! i)\<close>
    by (simp add: keys_inv_def k distinct_map)
qed

lemma packed_to_hash_mixed:
  assumes "packed_inv ht" "\<not> flag_uninitialized ht" "size_ok sz" "nTableSize ht \<le> sz"
  defines "ht' \<equiv> zend_hash_packed_to_hash (ht\<lparr>nTableSize := sz\<rparr>)"
  shows "mixed_inv ht'" "elems ht' = elems ht" "nNumUsed ht' = nNumOfElements ht"
    "nTableSize ht' = sz" "\<not> flag_packed ht'" "\<not> flag_uninitialized ht'"
    "dtor_log ht' = dtor_log ht" "nNextFreeElement ht' = nNextFreeElement ht"
    "ind_slots ht' = ind_slots ht" "pDestructor ht' = pDestructor ht"
proof -
  let ?h = "ht\<lparr>flag_packed := False\<rparr>"
  have d: "data_inv ?h" "keys_inv ?h" "elems ?h = elems ht"
    using assms(1) packed_keys(2)[OF assms(1)]
    by (simp_all add: packed_inv_def data_inv_def keys_inv_def elems_def)
  note r = move_rehash[OF d(1,2) _ assms(3)]
  have e: "ht' = zend_hash_rehash (move_data (?h\<lparr>nTableSize := sz, nTableMask := HT_SIZE_TO_MASK sz\<rparr>))"
    by (cases ht) (simp add: ht'_def zend_hash_packed_to_hash_def)
  show "mixed_inv ht'" "elems ht' = elems ht" "nNumUsed ht' = nNumOfElements ht"
    "nTableSize ht' = sz" "\<not> flag_packed ht'" "\<not> flag_uninitialized ht'"
    "dtor_log ht' = dtor_log ht" "nNextFreeElement ht' = nNextFreeElement ht"
    "ind_slots ht' = ind_slots ht" "pDestructor ht' = pDestructor ht"
    unfolding e using r assms(2,4) d(3) by simp_all
qed

lemmas packed_to_hash_same = packed_to_hash_mixed[of ht "nTableSize ht", simplified] for ht

section \<open>Overwriting a value\<close>

lemma elems_write:
  assumes "i \<in> set (live_of ht)" "proper v" "distinct (map fst (elems ht))" "i < length (arData ht)"
  defines "ht' \<equiv> upd_bucket i (\<lambda>b. b\<lparr>b_val := v\<rparr>) ht"
  shows "live_of ht' = live_of ht" "elems ht' = alist_put (bkey (arData ht ! i)) v (elems ht)"
proof -
  show l: "live_of ht' = live_of ht"
    using assms(1,2) unfolding live_idx_def ht'_def
    by (auto simp: live_def upd_bucket_def nth_update_cases proper_def split: if_splits intro!: filter_cong)
  obtain p where p: "p < length (live_of ht)" "live_of ht ! p = i"
    using assms(1) by (auto simp: in_set_conv_nth)
  have "elems ht' = (elems ht)[p := (bkey (arData ht ! i), v)]"
  proof (rule nth_equalityI)
    fix q assume "q < length (elems ht')"
    then have q: "q < length (live_of ht)" by (simp add: elems_def l)
    have "live_of ht ! q = i \<longleftrightarrow> q = p" using p q nth_eq_iff_index_eq[OF live_idx_distinct] by blast
    moreover have "elems ht' ! q = entry (arData ht' ! (live_of ht ! q))"
      "elems ht ! q = entry (arData ht ! (live_of ht ! q))" "length (elems ht) = length (live_of ht)"
      using q unfolding elems_def l by simp_all
    moreover have "entry (arData ht' ! j) = (if j = i then (bkey (arData ht ! i), v) else entry (arData ht ! j))" for j
      using assms(4) by (simp add: ht'_def upd_bucket_def nth_update_cases entry_def)
    ultimately show "elems ht' ! q = (elems ht)[p := (bkey (arData ht ! i), v)] ! q"
      using q p by (simp add: nth_update_cases)
  qed (use arg_cong[OF l, of length] in \<open>simp add: elems_def\<close>)
  also have "\<dots> = alist_put (bkey (arData ht ! i)) v (elems ht)"
    using p assms(3) by (intro alist_put_at[symmetric]) (auto simp: elems_def entry_def)
  finally show "elems ht' = alist_put (bkey (arData ht ! i)) v (elems ht)" .
qed

lemma write_keys:
  "b_key ((arData (upd_bucket i (\<lambda>b. b\<lparr>b_val := v\<rparr>) ht)) ! j) = b_key (arData ht ! j)"
  "b_h ((arData (upd_bucket i (\<lambda>b. b\<lparr>b_val := v\<rparr>) ht)) ! j) = b_h (arData ht ! j)"
  "b_next ((arData (upd_bucket i (\<lambda>b. b\<lparr>b_val := v\<rparr>) ht)) ! j) = b_next (arData ht ! j)"
  by (simp_all add: upd_bucket_def nth_update_cases)

lemma write_inv:
  assumes "i \<in> set (live_of ht)" "proper v" "data_inv ht"
  defines "ht' \<equiv> upd_bucket i (\<lambda>b. b\<lparr>b_val := v\<rparr>) ht"
  shows "data_inv ht'" "mixed_inv ht \<Longrightarrow> mixed_inv ht'" "packed_inv ht \<Longrightarrow> packed_inv ht'"
proof -
  have i: "i < length (arData ht)" using assms(1,3) data_invD(2,3)[OF assms(3)] by (auto simp: live_idx_set)
  have l: "live_of ht' = live_of ht"
    using assms(1,2) unfolding live_idx_def ht'_def
    by (auto simp: live_def upd_bucket_def nth_update_cases proper_def split: if_splits intro!: filter_cong)
  show d: "data_inv ht'"
    using assms(2,3) l by (auto simp: data_inv_def ht'_def upd_bucket_def nth_update_cases proper_def)
  have f: "key_hash_ok (arData ht' ! j) = key_hash_ok (arData ht ! j)" for j
    by (simp add: ht'_def key_hash_ok_def write_keys split: option.split)
  { assume m: "mixed_inv ht"
    have "mask_inv ht'" using mixed_invD(2)[OF m] by (simp add: ht'_def mask_inv_def upd_bucket_def)
    moreover have "chains_ok ht' (live_of ht)"
      using mixed_invD(3)[OF m] by (rule chains_ok_cong) (simp_all add: ht'_def write_keys, simp_all add: upd_bucket_def)
    moreover have "distinct (map fst (elems ht'))"
      using elems_write(2)[OF assms(1,2) mixed_invD(4)[OF m] i, folded ht'_def] mixed_invD(4)[OF m]
      by (simp add: distinct_alist_put)
    ultimately show "mixed_inv ht'" using d l f m by (simp add: mixed_inv_def keys_inv_def) }
  { assume "packed_inv ht"
    then show "packed_inv ht'"
      using d l by (simp add: packed_inv_def ht'_def write_keys) (simp add: upd_bucket_def) }
qed

section \<open>Reading packed tables\<close>

lemma packed_idx_of:
  assumes "packed_inv ht"
  shows "idx_of ht (Inl h) = (if unat h < nNumUsed ht \<and> b_val (arData ht ! unat h) \<noteq> IS_UNDEF
                              then Some (unat h) else None)"
    and "idx_of ht (Inr str) = None"
proof -
  have dk: "distinct (map fst (elems ht))" using packed_keys(2)[OF assms] by (simp add: keys_inv_def)
  have bnd: "nNumUsed ht \<le> 2 ^ 30"
    using assms size_ok_bounds data_invD(1,2)[of ht] by (fastforce simp: packed_inv_def)
  have bk: "bkey (arData ht ! i) = Inl (of_nat i)" if "i \<in> set (live_of ht)" for i
    using assms that by (auto simp: packed_inv_def bkey_def)
  then show "idx_of ht (Inr str) = None" by (auto simp: idx_of_def find_None_iff)
  have "idx_of ht (Inl h) = Some i \<longleftrightarrow> i \<in> set (live_of ht) \<and> i = unat h" for i
  proof -
    have "of_nat i = h \<longleftrightarrow> i = unat h" if "i < nNumUsed ht" for i
      using that bnd unat_of_nat_less_power[where 'a=64, of i] by auto
    then show ?thesis using idx_of_Some_iff[OF dk] bk by (auto simp: live_idx_set)
  qed
  then show "idx_of ht (Inl h) = (if unat h < nNumUsed ht \<and> b_val (arData ht ! unat h) \<noteq> IS_UNDEF
                              then Some (unat h) else None)"
    by (metis (no_types, lifting) live_idx_set option.exhaust)
qed

lemma find_key_empty:
  assumes "nTableMask ht = HT_MIN_MASK" "ht_hash ht = [HT_INVALID_IDX, HT_INVALID_IDX]"
  shows "find_key ht k = None"
  using HT_HASH_empty[OF assms] by (simp add: find_key_def chain_fuel_def)

lemma find_key_str: "ht_inv ht \<Longrightarrow> find_key ht (Inr str) = idx_of ht (Inr str)"
proof -
  assume i: "ht_inv ht"
  consider (u) "uninit_inv ht" | (p) "packed_inv ht" | (m) "mixed_inv ht"
    using i by (auto simp: ht_inv_def split: if_splits)
  then show ?thesis
  proof cases
    case u
    then show ?thesis by (simp add: find_key_empty uninit_inv_def idx_of_def live_idx_def)
  next
    case p
    then show ?thesis using packed_idx_of(2)[OF p] by (simp add: find_key_empty packed_inv_def)
  next
    case m
    then show ?thesis by (rule find_key_mixed)
  qed
qed

lemma index_find_idx: "ht_inv ht \<Longrightarrow> zend_hash_index_find ht h = map_option PBucket (idx_of ht (Inl h))"
proof -
  assume i: "ht_inv ht"
  consider (u) "uninit_inv ht" "\<not> flag_packed ht" | (p) "packed_inv ht" "flag_packed ht"
    | (m) "mixed_inv ht" "\<not> flag_packed ht"
    using i by (auto simp: ht_inv_def split: if_splits)
  then show ?thesis
  proof cases
    case u
    then show ?thesis
      by (simp add: zend_hash_index_find_def index_find_bucket_key find_key_empty uninit_inv_def idx_of_def live_idx_def)
  next
    case p
    then show ?thesis using packed_idx_of(1)[OF p(1)] by (simp add: zend_hash_index_find_def)
  next
    case m
    then show ?thesis by (simp add: zend_hash_index_find_def index_find_bucket_key find_key_mixed)
  qed
qed

lemma ht_inv_distinct: "ht_inv ht \<Longrightarrow> distinct (map fst (elems ht))"
  using packed_keys(2)[of ht]
  by (auto simp: ht_inv_def mixed_inv_def keys_inv_def uninit_inv_def elems_def live_idx_def split: if_splits)

section \<open>Insertion\<close>

text \<open>
  What an update with key \<open>k\<close> and value \<open>v\<close> promises: the invariant, the ordered update
  of the elements, a pointer to the stored value, and that exactly the replaced value
  has been handed to the destructor.
\<close>

definition ins_spec :: "'v HashTable \<Rightarrow> hkey \<Rightarrow> 'v zval \<Rightarrow> 'v HashTable \<times> zptr option \<Rightarrow> bool" where
  "ins_spec ht k v r \<longleftrightarrow> ht_inv (fst r) \<and> elems (fst r) = alist_put k v (elems ht)
     \<and> (\<exists>i. snd r = Some (PBucket i) \<and> read_zptr (fst r) (PBucket i) = v
           \<and> i < nNumUsed (fst r) \<and> bkey (arData (fst r) ! i) = k)
     \<and> dtor_log (fst r) = dtor_log ht @
         (if pDestructor ht then case map_of (elems ht) k of None \<Rightarrow> [] | Some old \<Rightarrow> [old] else [])"

lemma ins_spec_add_bucket:
  assumes "grown ht0 ht" "proper v" "k \<notin> fst ` set (elems ht0)" "bkey b = k" "b_val b = v" "key_hash_ok b"
  shows "ins_spec ht0 k v ((add_bucket b ht)\<lparr>nNextFreeElement := nf, flag_static_keys := sk\<rparr>, Some (PBucket (nNumUsed ht)))"
proof -
  have g: "mixed_inv ht" "nNumUsed ht < nTableSize ht" "elems ht = elems ht0"
    using assms(1) by (simp_all add: grown_def)
  have ok: "mixed_inv (add_bucket b ht)" "elems (add_bucket b ht) = elems ht @ [entry b]"
    using add_bucket_ok[OF g(1,2)] assms g(3) by auto
  have "b_val (arData (add_bucket b ht) ! nNumUsed ht) = v" "bkey (arData (add_bucket b ht) ! nNumUsed ht) = k"
    using data_invD(3)[OF mixed_invD(1)[OF g(1)]] g(2) assms(4,5)
    by (simp_all add: add_bucket_def link_bucket_data bkey_def cong: option.case_cong)
  then show ?thesis
    using ok assms g(3) by (simp add: ins_spec_def ht_inv_def grown_def alist_put_fresh entry_def
        read_zptr_def map_of_eq_None_iff[THEN iffD2])
qed

lemma note_key_grown: "grown ht0 ht \<Longrightarrow> grown ht0 (note_key key ht)"
  by (simp add: grown_def note_key_def)

lemma store_spec:
  assumes "ht_inv ht" "i \<in> set (live_of ht)" "proper v" "bkey (arData ht ! i) = k"
  shows "ins_spec ht k v (store_zval (PBucket i) v ht)"
proof -
  let ?w = "upd_bucket i (\<lambda>b. b\<lparr>b_val := v\<rparr>) ht"
  have init: "\<not> flag_uninitialized ht"
    using assms(1,2) by (auto simp: ht_inv_def uninit_inv_def live_idx_set)
  have d: "data_inv ht" using assms(1) init by (auto simp: ht_inv_def packed_inv_def mixed_inv_def split: if_splits)
  have i: "i < length (arData ht)" using assms(2) data_invD(2,3)[OF d] by (auto simp: live_idx_set)
  have dk: "distinct (map fst (elems ht))" using assms(1) by (rule ht_inv_distinct)
  have e: "elems ?w = alist_put k v (elems ht)" using elems_write(2)[OF assms(2,3) dk i] assms(4) by simp
  have "ht_inv ?w" using assms(1) init write_inv(2,3)[OF assms(2,3) d]
    by (auto simp: ht_inv_def upd_bucket_def split: if_splits)
  moreover have "map_of (elems ht) k = Some (b_val (arData ht ! i))"
    using idx_of_Some_iff[OF dk, of k i] assms(2,4) by (simp add: map_of_elems)
  moreover have w: "fst (store_zval (PBucket i) v ht) =
      (if pDestructor ht then ?w\<lparr>dtor_log := dtor_log ht @ [b_val (arData ht ! i)]\<rparr> else ?w)"
    by (simp add: store_zval_def write_zptr_def call_pDestructor_def read_zptr_def upd_bucket_def)
  moreover have "b_val (arData ?w ! i) = v" "dtor_log ?w = dtor_log ht" "bkey (arData ?w ! i) = k"
    "i < nNumUsed ?w"
    using i assms(2,4) by (simp_all add: upd_bucket_def live_idx_set)
  ultimately show ?thesis using e
    by (simp add: ins_spec_def store_zval_def[of "PBucket i"] ht_inv_frame read_zptr_def)
qed

end
