(* ===== verification/ZendHashMap.thy ===== *)
theory ZendHashMap
  imports ZendHashAdd
begin

text \<open>
  The insertions of the hash table against the ordered association list: updates and
  additions under string and integer keys, on uninitialised, packed and mixed tables,
  through conversions, growth and rehashes; and the lookups after them.
\<close>

section \<open>String keys\<close>

text \<open>A table that may still be full, otherwise as after \<open>grown\<close>.\<close>

definition converted :: "'v HashTable \<Rightarrow> 'v HashTable \<Rightarrow> bool" where
  "converted ht ht' \<longleftrightarrow> mixed_inv ht' \<and> elems ht' = elems ht
     \<and> \<not> flag_packed ht' \<and> \<not> flag_uninitialized ht' \<and> dtor_log ht' = dtor_log ht
     \<and> nNextFreeElement ht' = nNextFreeElement ht \<and> ind_slots ht' = ind_slots ht
     \<and> pDestructor ht' = pDestructor ht"

lemma converted_full:
  assumes "converted ht0 ht" "nTableSize ht < 2 ^ 30 \<or> nNumUsed ht < nTableSize ht"
  shows "\<exists>ht'. ZEND_HASH_IF_FULL_DO_RESIZE ht = Inr ht' \<and> grown ht0 ht'"
  using if_full_grown[of ht] assms by (auto simp: converted_def grown_def)

lemma converted_note_key: "converted ht0 ht \<Longrightarrow> converted ht0 (note_key key ht)"
  by (simp add: converted_def note_key_def)

lemma note_key_size [simp]: "nTableSize (note_key key ht) = nTableSize ht"
  by (simp add: note_key_def)

lemma grown_real_init_mixed:
  assumes "uninit_inv ht"
  shows "grown ht (zend_hash_real_init_mixed_ex ht)"
proof -
  have "size_ok (nTableSize ht)" using assms by (simp add: uninit_inv_def)
  moreover from this have "nTableSize ht > 0" using size_ok_bounds by fastforce
  ultimately show ?thesis using assms
    by (simp add: grown_def zend_hash_real_init_mixed_ex_def HT_HASH_RESET_def uninit_inv_def
        mixed_inv_def data_inv_def mask_inv_def keys_inv_def elems_def live_idx_def chains_ok_def
        hash_len_of_size)
qed

lemma converted_packed: "packed_inv ht \<Longrightarrow> \<not> flag_uninitialized ht \<Longrightarrow> converted ht (zend_hash_packed_to_hash ht)"
  using packed_to_hash_same[of ht] data_invD(1)[of ht]
  by (simp add: converted_def packed_inv_def)

lemma grown_length: "grown ht0 ht \<Longrightarrow> nNumUsed ht < length (arData ht)"
  using data_invD(3)[OF mixed_invD(1), of ht] by (simp add: grown_def)

lemma self_update:
  "ht\<lparr>nNextFreeElement := nNextFreeElement ht, flag_static_keys := flag_static_keys ht\<rparr> = ht"
  "ht\<lparr>nNextFreeElement := nNextFreeElement ht\<rparr> = ht"
  "ht\<lparr>flag_static_keys := flag_static_keys ht\<rparr> = ht"
  by simp_all

lemma ins_spec_add_to_hash:
  assumes "grown ht0 ht" "proper v" "Inr (ZSTR_VAL key) \<notin> fst ` set (elems ht0)"
  shows "ins_spec ht0 (Inr (ZSTR_VAL key)) v (add_to_hash ht key (zend_string_hash_val key) v)"
    and "add_to_hash ht key (zend_string_hash_val key) v = (ht1, r) \<Longrightarrow>
           ins_spec ht0 (Inr (ZSTR_VAL key)) v (ht1\<lparr>flag_static_keys := False\<rparr>, r)"
proof -
  let ?b = "\<lparr>b_val = v, b_next = 0, b_h = zend_string_hash_val key, b_key = Some key\<rparr>"
  have e: "add_to_hash ht key (zend_string_hash_val key) v = (add_bucket ?b ht, Some (PBucket (nNumUsed ht)))"
    using grown_length[OF assms(1)] by (rule add_to_hash_eq)
  have i: "ins_spec ht0 (Inr (ZSTR_VAL key)) v
      ((add_bucket ?b ht)\<lparr>nNextFreeElement := nf, flag_static_keys := sk\<rparr>, Some (PBucket (nNumUsed ht)))" for nf sk
    using assms by (intro ins_spec_add_bucket) (auto simp: bkey_def key_hash_ok_def)
  show "ins_spec ht0 (Inr (ZSTR_VAL key)) v (add_to_hash ht key (zend_string_hash_val key) v)"
    unfolding e using i[where nf = "nNextFreeElement (add_bucket ?b ht)" and sk = "flag_static_keys (add_bucket ?b ht)"]
    unfolding self_update .
  show "ins_spec ht0 (Inr (ZSTR_VAL key)) v (ht1\<lparr>flag_static_keys := False\<rparr>, r)"
    if "add_to_hash ht key (zend_string_hash_val key) v = (ht1, r)"
    using that i[where nf = "nNextFreeElement (add_bucket ?b ht)" and sk = False] self_update(2) unfolding e
    by (auto simp del: add_bucket_fields)
qed

lemma resize_and_add_spec:
  assumes "converted ht0 ht" "nTableSize ht < 2 ^ 30" "proper v" "Inr (ZSTR_VAL key) \<notin> fst ` set (elems ht0)"
  shows "\<exists>r. resize_and_add ht key v = Inr r \<and> ins_spec ht0 (Inr (ZSTR_VAL key)) v r"
proof -
  obtain ht' where h: "ZEND_HASH_IF_FULL_DO_RESIZE ht = Inr ht'" "grown ht0 ht'"
    using converted_full[OF assms(1)] assms(2) by blast
  then have "resize_and_add ht key v = Inr (add_to_hash ht' key (zend_string_hash_val key) v)"
    by (simp add: resize_and_add_def)
  then show ?thesis using ins_spec_add_to_hash(1)[OF h(2) assms(3,4)] by blast
qed

lemma ht_inv_cases:
  assumes "ht_inv ht"
  obtains (uninit) "flag_uninitialized ht" "\<not> flag_packed ht" "uninit_inv ht"
  | (packed) "\<not> flag_uninitialized ht" "flag_packed ht" "packed_inv ht"
  | (mixed) "\<not> flag_uninitialized ht" "\<not> flag_packed ht" "mixed_inv ht"
  using assms by (auto simp: ht_inv_def split: if_splits)

lemma add_or_update_absent:
  assumes "ht_inv ht" "proper v" "nTableSize ht < 2 ^ 30" "idx_of ht (Inr (ZSTR_VAL key)) = None"
  shows "\<exists>r. zend_hash_add_or_update_i ht key v flag = Inr r \<and> ins_spec ht (Inr (ZSTR_VAL key)) v r"
proof -
  have k: "Inr (ZSTR_VAL key) \<notin> fst ` set (elems ht)" using assms(4) by (simp add: idx_of_None_iff)
  show ?thesis using assms(1)
  proof (cases rule: ht_inv_cases)
    case uninit
    have "grown ht (note_key key (zend_hash_real_init_mixed_ex ht))"
      using grown_real_init_mixed[OF uninit(3)] by (rule note_key_grown)
    then show ?thesis using ins_spec_add_to_hash(1)[OF _ assms(2) k] uninit
      by (simp add: zend_hash_add_or_update_i_def)
  next
    case packed
    have "converted ht (note_key key (zend_hash_packed_to_hash ht))"
      using converted_packed[OF packed(3,1)] by (rule converted_note_key)
    moreover have "nTableSize (zend_hash_packed_to_hash ht) = nTableSize ht"
      using packed_to_hash_same(4)[OF packed(3,1)] packed(3) by (simp add: packed_inv_def data_inv_def)
    ultimately show ?thesis using resize_and_add_spec[OF _ _ assms(2) k] assms(3) packed
      by (simp add: zend_hash_add_or_update_i_def)
  next
    case mixed
    have "converted ht (note_key key ht)"
      using mixed by (intro converted_note_key) (simp add: converted_def)
    then have "\<exists>r. resize_and_add (note_key key ht) key v = Inr r \<and> ins_spec ht (Inr (ZSTR_VAL key)) v r"
      using assms(2,3) k by (intro resize_and_add_spec) auto
    moreover have "zend_hash_find_bucket ht key = None"
      using assms(4) find_key_mixed[OF mixed(3)] by (simp add: find_bucket_key)
    ultimately show ?thesis using mixed by (simp add: zend_hash_add_or_update_i_def)
  qed
qed

lemma idx_of_str_mixed:
  assumes "ht_inv ht" "idx_of ht (Inr str) = Some p"
  shows "\<not> flag_uninitialized ht" "\<not> flag_packed ht" "mixed_inv ht"
  using assms packed_idx_of(2)[of ht str]
  by (auto simp: ht_inv_def uninit_inv_def idx_of_def live_idx_def split: if_splits)

lemma add_or_update_present:
  assumes "ht_inv ht" "idx_of ht (Inr (ZSTR_VAL key)) = Some p" "HASH_ADD_NEW \<notin> flag"
  shows "zend_hash_add_or_update_i ht key v flag = Inr (update_found ht p v flag)"
  using idx_of_str_mixed[OF assms(1,2)] assms(2,3) find_key_mixed[of ht]
  by (simp add: zend_hash_add_or_update_i_def find_bucket_key)

lemma str_add_or_update_absent:
  assumes "ht_inv ht" "proper v" "nTableSize ht < 2 ^ 30" "idx_of ht (Inr str) = None"
  shows "\<exists>r. zend_hash_str_add_or_update_i ht str (zend_inline_hash_func str) v flag = Inr r
           \<and> ins_spec ht (Inr str) v r"
proof -
  let ?key = "\<lparr>ZSTR_VAL = str, ZSTR_IS_INTERNED = False\<rparr>"
  let ?add = "\<lambda>h. case add_to_hash h ?key (zend_inline_hash_func str) v of (ht1, r) \<Rightarrow> (ht1\<lparr>flag_static_keys := False\<rparr>, r)"
  have k: "Inr (ZSTR_VAL ?key) \<notin> fst ` set (elems ht)" using assms(4) by (simp add: idx_of_None_iff)
  have a: "ins_spec ht (Inr str) v (?add h)" if "grown ht h" for h
    using ins_spec_add_to_hash(2)[OF that assms(2) k]
    by (auto simp: zend_string_hash_val_def split: prod.split)
  have f: "\<exists>r. (case ZEND_HASH_IF_FULL_DO_RESIZE h of Inl e \<Rightarrow> Inl e | Inr ht' \<Rightarrow> Inr (?add ht')) = Inr r
         \<and> ins_spec ht (Inr str) v r" if c: "converted ht h" and t: "nTableSize h < 2 ^ 30" for h
  proof -
    obtain ht' where h: "ZEND_HASH_IF_FULL_DO_RESIZE h = Inr ht'" "grown ht ht'"
      using converted_full[OF c] t by blast
    then show ?thesis using a[OF h(2)] by simp
  qed
  show ?thesis using assms(1)
  proof (cases rule: ht_inv_cases)
    case uninit
    then show ?thesis using a[OF grown_real_init_mixed]
      by (simp add: zend_hash_str_add_or_update_i_def Let_def)
  next
    case packed
    have "nTableSize (zend_hash_packed_to_hash ht) < 2 ^ 30"
      using packed_to_hash_same(4)[OF packed(3,1)] packed(3) assms(3) by (simp add: packed_inv_def data_inv_def)
    from f[OF converted_packed[OF packed(3,1)] this] packed show ?thesis
      by (simp add: zend_hash_str_add_or_update_i_def Let_def)
  next
    case mixed
    moreover have "zend_hash_str_find_bucket ht str (zend_inline_hash_func str) = None"
      using assms(4) find_key_mixed[OF mixed(3)] by (simp add: str_find_bucket_key)
    moreover have "converted ht ht" using mixed by (simp add: converted_def)
    ultimately show ?thesis using f[of ht, OF _ assms(3)]
      by (simp add: zend_hash_str_add_or_update_i_def Let_def)
  qed
qed

lemma str_add_or_update_present:
  assumes "ht_inv ht" "idx_of ht (Inr str) = Some p" "HASH_ADD_NEW \<notin> flag"
  shows "zend_hash_str_add_or_update_i ht str (zend_inline_hash_func str) v flag = Inr (update_found ht p v flag)"
  using idx_of_str_mixed[OF assms(1,2)] assms(2,3) find_key_mixed[of ht]
  by (simp add: zend_hash_str_add_or_update_i_def str_find_bucket_key)

lemma update_found_spec:
  assumes "ht_inv ht" "idx_of ht k = Some p" "proper v"
  shows "ins_spec ht k v (update_found ht p v {HASH_UPDATE})"
proof -
  have p: "p \<in> set (live_of ht)" "bkey (arData ht ! p) = k"
    using assms(2) idx_of_Some_iff[OF ht_inv_distinct[OF assms(1)]] by auto
  have "update_found ht p v {HASH_UPDATE} = store_zval (PBucket p) v ht"
    by (simp add: update_found_def split: zval.split)
  then show ?thesis using store_spec[OF assms(1) p(1) assms(3) p(2)] by simp
qed

section \<open>Integer keys\<close>

lemma fold_undef:
  assumes "b \<le> length (arData ht)"
  shows "\<exists>ar. fold (\<lambda>q. upd_bucket q (\<lambda>b. b\<lparr>b_val := IS_UNDEF\<rparr>)) [a..<b] ht = ht\<lparr>arData := ar\<rparr> \<and> length ar = length (arData ht)
    \<and> (\<forall>i. ar ! i = (if a \<le> i \<and> i < b then (arData ht ! i)\<lparr>b_val := IS_UNDEF\<rparr> else arData ht ! i))"
  using assms
proof (induction b)
  case 0
  then show ?case by (intro exI[of _ "arData ht"]) simp
next
  case (Suc b)
  then obtain ar where ar: "fold (\<lambda>q. upd_bucket q (\<lambda>b. b\<lparr>b_val := IS_UNDEF\<rparr>)) [a..<b] ht = ht\<lparr>arData := ar\<rparr>"
    "length ar = length (arData ht)"
    "\<And>i. ar ! i = (if a \<le> i \<and> i < b then (arData ht ! i)\<lparr>b_val := IS_UNDEF\<rparr> else arData ht ! i)"
    by auto
  show ?case
  proof (cases "a \<le> b")
    case True
    then have "fold (\<lambda>q. upd_bucket q (\<lambda>b. b\<lparr>b_val := IS_UNDEF\<rparr>)) [a..<Suc b] ht =
        ht\<lparr>arData := ar[b := (ar ! b)\<lparr>b_val := IS_UNDEF\<rparr>]\<rparr>"
      using ar(1) by (simp add: upd_bucket_def[of b])
    then show ?thesis using ar(2,3) Suc.prems True
      by (intro exI[of _ "ar[b := (ar ! b)\<lparr>b_val := IS_UNDEF\<rparr>]"]) (auto simp: nth_update_cases)
  next
    case False
    then show ?thesis by (intro exI[of _ "arData ht"]) auto
  qed
qed

text \<open>What \<open>add_to_packed\<close> leaves in the buckets.\<close>

lemma add_to_packed_eq:
  assumes "nNumUsed ht \<le> unat h" "unat h < length (arData ht)"
    "nNumUsed ht = unat h \<or> \<not> (HASH_ADD_NEW \<in> flag \<and> HASH_ADD_NEXT \<in> flag)"
  obtains ar where "add_to_packed ht h v flag =
      (ht\<lparr>arData := ar, nNextFreeElement := h + 1, nNumUsed := unat h + 1,
          nNumOfElements := nNumOfElements ht + 1\<rparr>, Some (PBucket (unat h)))"
    "length ar = length (arData ht)" "\<And>i. i < nNumUsed ht \<Longrightarrow> ar ! i = arData ht ! i"
    "\<And>i. nNumUsed ht \<le> i \<Longrightarrow> i < unat h \<Longrightarrow> b_val (ar ! i) = IS_UNDEF"
    "b_val (ar ! unat h) = v" "b_h (ar ! unat h) = h" "b_key (ar ! unat h) = None"
proof -
  obtain ar where ar: "fold (\<lambda>q. upd_bucket q (\<lambda>b. b\<lparr>b_val := IS_UNDEF\<rparr>)) [nNumUsed ht..<unat h] ht = ht\<lparr>arData := ar\<rparr>"
    "length ar = length (arData ht)"
    "\<And>i. ar ! i = (if nNumUsed ht \<le> i \<and> i < unat h then (arData ht ! i)\<lparr>b_val := IS_UNDEF\<rparr> else arData ht ! i)"
    using fold_undef[of "unat h" ht "nNumUsed ht"] assms(2) by auto
  let ?ar = "ar[unat h := (ar ! unat h)\<lparr>b_h := h, b_key := None, b_val := v\<rparr>]"
  have "add_to_packed ht h v flag =
      (ht\<lparr>arData := ?ar, nNextFreeElement := h + 1, nNumUsed := unat h + 1,
          nNumOfElements := nNumOfElements ht + 1\<rparr>, Some (PBucket (unat h)))"
  proof (cases "nNumUsed ht < unat h")
    case True
    then show ?thesis using assms(3) ar(1) by (cases ht) (simp add: add_to_packed_def upd_bucket_def Let_def)
  next
    case False
    then have "ht\<lparr>arData := ar\<rparr> = ht" using ar(1) by simp
    then have "ar = arData ht" by (metis HashTable.select_convs(9) HashTable.surjective HashTable.update_convs(9))
    then show ?thesis using False by (cases ht) (simp add: add_to_packed_def upd_bucket_def Let_def)
  qed
  then show thesis using that[of ?ar] ar assms(1,2) by (auto simp: nth_update_cases)
qed

lemma add_to_packed_spec:
  assumes "packed_inv ht" "flag_packed ht" "\<not> flag_uninitialized ht" "proper v"
    "nNumUsed ht \<le> unat h" "unat h < nTableSize ht" "elems ht = elems ht0" "dtor_log ht = dtor_log ht0"
    "nNumUsed ht = unat h \<or> \<not> (HASH_ADD_NEW \<in> flag \<and> HASH_ADD_NEXT \<in> flag)"
  shows "ins_spec ht0 (Inl h) v (add_to_packed ht h v flag)"
proof -
  have d: "data_inv ht" using assms(1) by (simp add: packed_inv_def)
  have "unat h < length (arData ht)" using assms(6) data_invD(3)[OF d] by simp
  then obtain ar where ar: "add_to_packed ht h v flag =
      (ht\<lparr>arData := ar, nNextFreeElement := h + 1, nNumUsed := unat h + 1,
          nNumOfElements := nNumOfElements ht + 1\<rparr>, Some (PBucket (unat h)))"
    "length ar = length (arData ht)" "\<And>i. i < nNumUsed ht \<Longrightarrow> ar ! i = arData ht ! i"
    "\<And>i. nNumUsed ht \<le> i \<Longrightarrow> i < unat h \<Longrightarrow> b_val (ar ! i) = IS_UNDEF"
    "b_val (ar ! unat h) = v" "b_h (ar ! unat h) = h" "b_key (ar ! unat h) = None"
    using add_to_packed_eq[OF assms(5) _ assms(9)] by metis
  let ?r = "fst (add_to_packed ht h v flag)"
  have f: "arData ?r = ar" "nNumUsed ?r = Suc (unat h)" by (simp_all add: ar(1))
  have "filter (live ar) [0..<unat h] = filter (live ar) [0..<nNumUsed ht]"
    using assms(5) ar(4) by (intro filter_upt_le) (auto simp: live_def)
  also have "\<dots> = filter (live (arData ht)) [0..<nNumUsed ht]"
    using ar(3) by (intro filter_cong) (auto simp: live_def)
  finally have l': "live_idx ar (Suc (unat h)) = live_of ht @ [unat h]"
    using assms(4) ar(5) unfolding live_idx_def by (simp add: live_def proper_def)
  then have l: "live_of ?r = live_of ht @ [unat h]" by (simp add: f)
  have m: "map (\<lambda>i. entry (ar ! i)) (live_of ht) = elems ht"
    unfolding elems_def using ar(3) by (intro map_cong) (auto simp: live_idx_set)
  have "elems ?r = map (\<lambda>i. entry (ar ! i)) (live_of ht @ [unat h])"
    by (simp only: elems_def f l' flip: l')
  then have e: "elems ?r = elems ht @ [(Inl h, v)]"
    using ar(5-7) m by (simp add: entry_def bkey_def)
  have "idx_of ht (Inl h) = None" using packed_idx_of(1)[OF assms(1)] assms(5) by simp
  then have fresh: "Inl h \<notin> fst ` set (elems ht0)" by (simp add: idx_of_None_iff assms(7))
  have uninit: "b_val (ar ! i) \<noteq> UNINIT" if "i < Suc (unat h)" for i
  proof -
    consider "i < nNumUsed ht" | "nNumUsed ht \<le> i" "i < unat h" | "i = unat h" using \<open>i < Suc (unat h)\<close> by linarith
    then show ?thesis
      using ar(3-5) data_invD(6)[OF d] assms(4) by cases (auto simp: proper_def)
  qed
  have pb: "b_h (ar ! i) = of_nat i \<and> b_key (ar ! i) = None" if "i \<in> set (live_of ht @ [unat h])" for i
  proof (cases "i = unat h")
    case False
    with that have "i \<in> set (live_of ht)" by simp
    then show ?thesis using ar(3)[of i] assms(1) by (auto simp: packed_inv_def live_idx_set)
  qed (simp add: ar(6,7))
  have "data_inv ?r"
    using d assms(6) ar(2) l uninit by (simp add: data_inv_def ar(1))
  then have "packed_inv ?r"
    using assms(1) pb l by (simp add: packed_inv_def ar(1))
  then show ?thesis
    using e fresh assms(2,3,7,8) ar(5-7)
    by (simp add: bkey_def ins_spec_def ar(1) ht_inv_def alist_put_fresh read_zptr_def map_of_eq_None_iff[THEN iffD2])
qed

lemma ins_spec_add_index:
  assumes "grown ht0 ht" "proper v" "Inl h \<notin> fst ` set (elems ht0)"
  shows "ins_spec ht0 (Inl h) v (add_index_to_hash ht h v)"
proof -
  let ?b = "\<lparr>b_val = v, b_next = 0, b_h = h, b_key = None\<rparr>"
  let ?nf = "next_free_after (nNextFreeElement ht) h"
  have e: "add_index_to_hash ht h v =
      ((add_bucket ?b ht)\<lparr>nNextFreeElement := ?nf\<rparr>, Some (PBucket (nNumUsed ht)))"
    using grown_length[OF assms(1)] by (rule add_index_to_hash_eq)
  have "ins_spec ht0 (Inl h) v ((add_bucket ?b ht)\<lparr>nNextFreeElement := ?nf, flag_static_keys := sk\<rparr>,
      Some (PBucket (nNumUsed ht)))" for sk
    using assms by (intro ins_spec_add_bucket) (auto simp: bkey_def key_hash_ok_def)
  from this[of "flag_static_keys ((add_bucket ?b ht)\<lparr>nNextFreeElement := ?nf\<rparr>)"] show ?thesis
    unfolding e self_update .
qed

lemma packed_grow_inv:
  assumes "packed_inv ht" "nTableSize ht < 2 ^ 30"
  shows "\<exists>ht'. zend_hash_packed_grow ht = Inr ht' \<and> packed_inv ht' \<and> nTableSize ht' = 2 * nTableSize ht
    \<and> elems ht' = elems ht \<and> nNumUsed ht' = nNumUsed ht \<and> dtor_log ht' = dtor_log ht
    \<and> flag_packed ht' = flag_packed ht \<and> flag_uninitialized ht' = flag_uninitialized ht"
proof -
  have d: "data_inv ht" using assms(1) by (simp add: packed_inv_def)
  note dd = data_invD[OF d]
  have sz: "size_ok (2 * nTableSize ht)" "u32_double (nTableSize ht) = 2 * nTableSize ht"
    using size_ok_double[OF dd(1) assms(2)] by auto
  let ?h = "ht\<lparr>nTableSize := 2 * nTableSize ht, arData := take (nNumUsed ht) (arData ht)
      @ replicate (2 * nTableSize ht - nNumUsed ht) uninit_bucket\<rparr>"
  have g: "zend_hash_packed_grow ht = Inr ?h"
    using assms(2) by (simp add: zend_hash_packed_grow_def HT_MAX_SIZE_def sz Let_def)
  have su: "same_used ht ?h" using dd(2,3) by (simp add: same_used_def nth_append)
  have "data_inv ?h"
    using d sz(1) su same_usedD(2)[OF su] by (auto simp: data_inv_def same_used_def)
  moreover have "b_h (arData ?h ! i) = of_nat i \<and> b_key (arData ?h ! i) = None" if "i \<in> set (live_of ht)" for i
    using that assms(1) su by (auto simp: packed_inv_def same_used_def live_idx_set)
  ultimately have "packed_inv ?h"
    using assms(1) same_usedD(2)[OF su] by (simp add: packed_inv_def)
  then show ?thesis using g same_usedD(3)[OF su] by simp
qed

lemma packed_init_inv:
  assumes "uninit_inv ht"
  shows "packed_inv (zend_hash_real_init_packed_ex ht)" "elems (zend_hash_real_init_packed_ex ht) = elems ht"
  using assms by (simp_all add: uninit_inv_def packed_inv_def data_inv_def zend_hash_real_init_packed_ex_def
      HT_HASH_RESET_PACKED_def elems_def live_idx_def)

lemma packed_convert_grown:
  assumes "packed_inv ht" "\<not> flag_uninitialized ht" "size_ok sz" "nTableSize ht \<le> sz" "nNumOfElements ht < sz"
  shows "grown ht (zend_hash_packed_to_hash (ht\<lparr>nTableSize := sz\<rparr>))"
  using packed_to_hash_mixed[OF assms(1-4)] assms(5) by (simp add: grown_def)

lemma live_hole_less:
  assumes "i < nNumUsed ht" "b_val (arData ht ! i) = IS_UNDEF"
  shows "length (live_of ht) < nNumUsed ht"
proof -
  have "length (filter (live (arData ht)) [0..<nNumUsed ht]) < length [0..<nNumUsed ht]"
    using assms by (intro length_filter_less[of i]) (auto simp: live_def)
  then show ?thesis by (simp add: live_idx_def)
qed

lemma index_absent_packed:
  assumes "packed_inv ht" "flag_packed ht" "\<not> flag_uninitialized ht" "proper v" "nTableSize ht < 2 ^ 30"
    "idx_of ht (Inl h) = None" "nNumUsed ht = unat h \<or> \<not> (HASH_ADD_NEW \<in> flag \<and> HASH_ADD_NEXT \<in> flag)"
  shows "\<exists>r. zend_hash_index_add_or_update_i ht h v flag = Inr r \<and> ins_spec ht (Inl h) v r"
proof -
  have d: "data_inv ht" using assms(1) by (simp add: packed_inv_def)
  note dd = data_invD[OF d]
  have fresh: "Inl h \<notin> fst ` set (elems ht)" using assms(6) by (simp add: idx_of_None_iff)
  have sz2: "size_ok (2 * nTableSize ht)" "u32_double (nTableSize ht) = 2 * nTableSize ht"
    using size_ok_double[OF dd(1) assms(5)] by auto
  have le: "nNumOfElements ht \<le> nNumUsed ht" using dd(4) live_idx_length by simp
  consider (hole) "unat h < nNumUsed ht" | (room) "nNumUsed ht \<le> unat h" "unat h < nTableSize ht"
    | (grow) "nNumUsed ht \<le> unat h" "nTableSize ht \<le> unat h" "unat h div 2 < nTableSize ht \<and> nTableSize ht div 2 < nNumOfElements ht"
    | (conv) "nNumUsed ht \<le> unat h" "nTableSize ht \<le> unat h" "\<not> (unat h div 2 < nTableSize ht \<and> nTableSize ht div 2 < nNumOfElements ht)"
    by linarith
  then show ?thesis
  proof cases
    case hole
    have u: "b_val (arData ht ! unat h) = IS_UNDEF"
      using assms(6) packed_idx_of(1)[OF assms(1), of h] hole by (auto split: if_splits)
    have "grown ht (zend_hash_packed_to_hash (ht\<lparr>nTableSize := nTableSize ht\<rparr>))"
      using assms(1,3) dd live_hole_less[OF hole u] by (intro packed_convert_grown) auto
    then have "ins_spec ht (Inl h) v (add_index_to_hash (zend_hash_packed_to_hash ht) h v)"
      using ins_spec_add_index[OF _ assms(4) fresh] by simp
    then show ?thesis using assms(2) hole u by (simp add: zend_hash_index_add_or_update_i_def)
  next
    case room
    then show ?thesis using assms add_to_packed_spec[OF assms(1-4) room refl refl assms(7)]
      by (simp add: zend_hash_index_add_or_update_i_def)
  next
    case grow
    obtain ht' where g: "zend_hash_packed_grow ht = Inr ht'" "packed_inv ht'" "nTableSize ht' = 2 * nTableSize ht"
      "elems ht' = elems ht" "nNumUsed ht' = nNumUsed ht" "dtor_log ht' = dtor_log ht" "flag_packed ht'"
      "\<not> flag_uninitialized ht'"
      using packed_grow_inv[OF assms(1,5)] assms(2,3) by auto
    have gp: "pDestructor ht' = pDestructor ht"
      using g(1) by (auto simp: zend_hash_packed_grow_def Let_def split: if_splits)
    have "ins_spec ht (Inl h) v (add_to_packed ht' h v flag)"
      using g grow assms(4,7) by (intro add_to_packed_spec) auto
    then show ?thesis using g(1) grow assms(2) by (simp add: zend_hash_index_add_or_update_i_def)
  next
    case conv
    let ?sz = "if nTableSize ht \<le> nNumUsed ht then 2 * nTableSize ht else nTableSize ht"
    have "0 < nTableSize ht" using size_ok_bounds[OF dd(1)] by simp
    then have "grown ht (zend_hash_packed_to_hash (ht\<lparr>nTableSize := ?sz\<rparr>))"
      using assms(1,3) dd(1,2) le sz2 by (intro packed_convert_grown) auto
    then have s: "ins_spec ht (Inl h) v (add_index_to_hash (zend_hash_packed_to_hash (ht\<lparr>nTableSize := ?sz\<rparr>)) h v)"
      by (rule ins_spec_add_index[OF _ assms(4) fresh])
    have "(if nTableSize ht \<le> nNumUsed ht then ht\<lparr>nTableSize := u32_double (nTableSize ht)\<rparr> else ht) = ht\<lparr>nTableSize := ?sz\<rparr>"
      using sz2 by simp
    then have "zend_hash_index_add_or_update_i ht h v flag =
        Inr (add_index_to_hash (zend_hash_packed_to_hash (ht\<lparr>nTableSize := ?sz\<rparr>)) h v)"
      using conv assms(2) by (simp only: zend_hash_index_add_or_update_i_def Let_def not_less[symmetric]) simp
    then show ?thesis using s by blast
  qed
qed

lemma index_absent:
  assumes "ht_inv ht" "proper v" "nTableSize ht < 2 ^ 30" "idx_of ht (Inl h) = None"
    "nNumUsed ht = unat h \<or> \<not> (HASH_ADD_NEW \<in> flag \<and> HASH_ADD_NEXT \<in> flag)"
  shows "\<exists>r. zend_hash_index_add_or_update_i ht h v flag = Inr r \<and> ins_spec ht (Inl h) v r"
  using assms(1)
proof (cases rule: ht_inv_cases)
  case uninit
  have fresh: "Inl h \<notin> fst ` set (elems ht)" using assms(4) by (simp add: idx_of_None_iff)
  let ?p = "zend_hash_real_init_packed_ex ht"
  have f: "nTableSize ?p = nTableSize ht" "flag_packed ?p" "\<not> flag_uninitialized ?p" "nNumUsed ?p = nNumUsed ht"
    "dtor_log ?p = dtor_log ht"
    by (simp_all add: zend_hash_real_init_packed_ex_def HT_HASH_RESET_PACKED_def)
  have z: "nNumUsed ht = 0" using uninit(3) by (simp add: uninit_inv_def)
  show ?thesis
  proof (cases "unat h < nTableSize ht")
    case True
    have "ins_spec ht (Inl h) v (add_to_packed ?p h v flag)"
      using packed_init_inv[OF uninit(3)] f z True assms(2,5) by (intro add_to_packed_spec) auto
    then show ?thesis using uninit True by (simp add: zend_hash_index_add_or_update_i_def)
  next
    case False
    then show ?thesis using uninit ins_spec_add_index[OF grown_real_init_mixed[OF uninit(3)] assms(2) fresh]
      by (simp add: zend_hash_index_add_or_update_i_def)
  qed
next
  case packed
  then show ?thesis using assms by (intro index_absent_packed) auto
next
  case mixed
  have fresh: "Inl h \<notin> fst ` set (elems ht)" using assms(4) by (simp add: idx_of_None_iff)
  obtain ht' where h: "ZEND_HASH_IF_FULL_DO_RESIZE ht = Inr ht'" "grown ht ht'"
    using converted_full[of ht ht] assms(3) mixed by (auto simp: converted_def)
  have "zend_hash_index_find_bucket ht h = None"
    using assms(4) find_key_mixed[OF mixed(3)] by (simp add: index_find_bucket_key)
  then have "zend_hash_index_add_or_update_i ht h v flag = Inr (add_index_to_hash ht' h v)"
    using mixed h(1) by (simp add: zend_hash_index_add_or_update_i_def)
  then show ?thesis using ins_spec_add_index[OF h(2) assms(2) fresh] by blast
qed

lemma index_present:
  assumes "ht_inv ht" "idx_of ht (Inl h) = Some p" "HASH_ADD_NEW \<notin> flag"
  shows "zend_hash_index_add_or_update_i ht h v flag = Inr (replace_index ht p v flag)"
  using assms(1)
proof (cases rule: ht_inv_cases)
  case uninit
  then show ?thesis using assms(2) by (simp add: idx_of_def live_idx_def uninit_inv_def)
next
  case packed
  then show ?thesis using assms(2) packed_idx_of(1)[OF packed(3)]
    by (auto simp: zend_hash_index_add_or_update_i_def split: if_splits)
next
  case mixed
  then show ?thesis using assms(2,3) find_key_mixed[OF mixed(3)]
    by (simp add: zend_hash_index_add_or_update_i_def index_find_bucket_key)
qed

end
