(* ===== verification/ZendHashDel.thy ===== *)
theory ZendHashDel
  imports ZendHashMap
begin

text \<open>
  Deletion: unlinking a bucket from its collision chain, moving the internal pointer and
  the iterators off it, and dropping the deleted tail of the bucket array.
\<close>

section \<open>The fields after a deletion\<close>

lemma trim_used_le: "trim_used ar n \<le> n"
  by (induction n) auto

lemma trim_used_undef: "trim_used ar n \<le> i \<Longrightarrow> i < n \<Longrightarrow> b_val (ar ! i) = IS_UNDEF"
  by (induction n) (auto simp: less_Suc_eq split: if_splits)

text \<open>The table with bucket \<open>idx\<close> unlinked, before its value is dropped.\<close>

definition unlink :: "'v HashTable \<Rightarrow> nat \<Rightarrow> nat option \<Rightarrow> 'v HashTable" where
  "unlink ht idx prev =
     (if flag_packed ht then ht
      else case prev of
          Some q \<Rightarrow> upd_bucket q (\<lambda>b. b\<lparr>b_next := b_next (arData ht ! idx)\<rparr>) ht
        | None \<Rightarrow> HT_HASH_set (nIndex (b_h (arData ht ! idx)) (nTableMask ht)) (b_next (arData ht ! idx)) ht)"

lemma unlink_fields [simp]:
  "nTableMask (unlink ht idx prev) = nTableMask ht" "nNumUsed (unlink ht idx prev) = nNumUsed ht"
  "nTableSize (unlink ht idx prev) = nTableSize ht" "nNumOfElements (unlink ht idx prev) = nNumOfElements ht"
  "length (arData (unlink ht idx prev)) = length (arData ht)"
  "length (ht_hash (unlink ht idx prev)) = length (ht_hash ht)"
  "flag_packed (unlink ht idx prev) = flag_packed ht"
  "flag_uninitialized (unlink ht idx prev) = flag_uninitialized ht"
  "dtor_log (unlink ht idx prev) = dtor_log ht" "pDestructor (unlink ht idx prev) = pDestructor ht"
  "nNextFreeElement (unlink ht idx prev) = nNextFreeElement ht"
  "ind_slots (unlink ht idx prev) = ind_slots ht"
  by (simp_all add: unlink_def upd_bucket_def HT_HASH_set_def split: option.split)

lemma unlink_data:
  "b_val (arData (unlink ht idx prev) ! j) = b_val (arData ht ! j)"
  "b_h (arData (unlink ht idx prev) ! j) = b_h (arData ht ! j)"
  "b_key (arData (unlink ht idx prev) ! j) = b_key (arData ht ! j)"
  by (simp_all add: unlink_def upd_bucket_def HT_HASH_set_def nth_update_cases split: option.split)

definition used_after_del :: "'v HashTable \<Rightarrow> nat \<Rightarrow> nat" where
  "used_after_del ht idx =
     (if nNumUsed ht - 1 = idx then trim_used (arData ht) (nNumUsed ht - 1) else nNumUsed ht)"

lemma trim_used_cong:
  "(\<And>i. i < n \<Longrightarrow> b_val (ar ! i) = b_val (ar' ! i)) \<Longrightarrow> trim_used ar n = trim_used ar' n"
  by (induction n) auto

lemma move_positions_eq:
  "\<exists>p its. (if nInternalPointer u = idx \<or> HT_HAS_ITERATORS u then
       let new_idx = next_used u (idx + 1);
           u' = (if nInternalPointer u = idx then u\<lparr>nInternalPointer := new_idx\<rparr> else u)
       in zend_hash_iterators_update u' idx new_idx
     else u) = u\<lparr>nInternalPointer := p, ht_iterators := its\<rparr>"
proof -
  have self: "u = u\<lparr>nInternalPointer := nInternalPointer u, ht_iterators := ht_iterators u\<rparr>" by simp
  obtain its where a: "zend_hash_iterators_update (u\<lparr>nInternalPointer := next_used u (idx + 1)\<rparr>) idx (next_used u (idx + 1))
      = u\<lparr>nInternalPointer := next_used u (idx + 1), ht_iterators := its\<rparr>"
    using iterators_update_eq by blast
  obtain its' where "zend_hash_iterators_update u idx (next_used u (idx + 1)) = u\<lparr>ht_iterators := its'\<rparr>"
    using iterators_update_eq by blast
  then have b: "zend_hash_iterators_update u idx (next_used u (idx + 1))
      = u\<lparr>nInternalPointer := nInternalPointer u, ht_iterators := its'\<rparr>" by simp
  consider "nInternalPointer u = idx" | "nInternalPointer u \<noteq> idx" "HT_HAS_ITERATORS u"
    | "nInternalPointer u \<noteq> idx" "\<not> HT_HAS_ITERATORS u" by blast
  then show ?thesis
  proof cases
    case 1 then show ?thesis using a by (simp only: simp_thms if_True Let_def) blast
  next
    case 2 then show ?thesis using b by (simp only: simp_thms if_False if_True Let_def) blast
  next
    case 3 then show ?thesis using self by (simp only: simp_thms if_False) blast
  qed
qed

text \<open>Everything a deletion leaves behind, up to the internal pointer and the iterators.\<close>

lemma del_el_ex_eq:
  "\<exists>p its. zend_hash_del_el_ex ht idx prev =
     call_pDestructor (b_val (arData ht ! idx))
       (upd_bucket idx (\<lambda>b. b\<lparr>b_val := IS_UNDEF\<rparr>)
         ((unlink ht idx prev)\<lparr>nNumOfElements := nNumOfElements ht - 1, ht_iterators := its,
            nNumUsed := used_after_del ht idx, nInternalPointer := p\<rparr>))"
proof -
  let ?u = "(unlink ht idx prev)\<lparr>nNumOfElements := nNumOfElements ht - 1\<rparr>"
  define h3 where "h3 = (if nInternalPointer ?u = idx \<or> HT_HAS_ITERATORS ?u then
                   let new_idx = next_used ?u (idx + 1);
                       ht2' = (if nInternalPointer ?u = idx then ?u\<lparr>nInternalPointer := new_idx\<rparr> else ?u)
                   in zend_hash_iterators_update ht2' idx new_idx
                 else ?u)"
  define h4 where "h4 = (if nNumUsed h3 - 1 = idx then
                   let n = trim_used (arData h3) (nNumUsed h3 - 1)
                   in h3\<lparr>nNumUsed := n, nInternalPointer := min (nInternalPointer h3) n\<rparr>
                 else h3)"
  have e: "zend_hash_del_el_ex ht idx prev = call_pDestructor (b_val (arData ht ! idx))
       (upd_bucket idx (\<lambda>b. b\<lparr>b_val := IS_UNDEF\<rparr>) h4)"
    by (simp only: zend_hash_del_el_ex_def Let_def h4_def h3_def unlink_fields flip: unlink_def)
  have "\<exists>p its. h3 = ?u\<lparr>nInternalPointer := p, ht_iterators := its\<rparr>"
    unfolding h3_def by (rule move_positions_eq)
  then obtain p its where h3: "h3 = ?u\<lparr>nInternalPointer := p, ht_iterators := its\<rparr>" by blast
  have t: "trim_used (arData (unlink ht idx prev)) n = trim_used (arData ht) n" for n
    by (rule trim_used_cong) (simp add: unlink_data)
  have "\<exists>p. h4 = (unlink ht idx prev)\<lparr>nNumOfElements := nNumOfElements ht - 1, ht_iterators := its,
            nNumUsed := used_after_del ht idx, nInternalPointer := p\<rparr>"
  proof (cases "nNumUsed ht - 1 = idx")
    case True
    then show ?thesis unfolding h4_def h3 used_after_del_def Let_def
      by (intro exI[of _ "min p (trim_used (arData ht) (nNumUsed ht - 1))"]) (simp add: t)
  next
    case False
    have "nNumUsed ht = nNumUsed (unlink ht idx prev)" by simp
    with False show ?thesis unfolding h4_def h3 used_after_del_def Let_def
      by (intro exI[of _ p]) (simp del: unlink_fields)
  qed
  then show ?thesis unfolding e by metis
qed


section \<open>What a deletion leaves\<close>

text \<open>The result of deleting bucket \<open>idx\<close>, given where the positions went.\<close>

definition deleted :: "'v HashTable \<Rightarrow> nat \<Rightarrow> nat option \<Rightarrow> nat \<Rightarrow> HashTableIterator list \<Rightarrow> 'v HashTable" where
  "deleted ht idx prev p its = call_pDestructor (b_val (arData ht ! idx))
       (upd_bucket idx (\<lambda>b. b\<lparr>b_val := IS_UNDEF\<rparr>)
         ((unlink ht idx prev)\<lparr>nNumOfElements := nNumOfElements ht - 1, ht_iterators := its,
            nNumUsed := used_after_del ht idx, nInternalPointer := p\<rparr>))"

lemma deleted_fields [simp]:
  "nTableMask (deleted ht idx prev p its) = nTableMask ht"
  "nNumUsed (deleted ht idx prev p its) = used_after_del ht idx"
  "nTableSize (deleted ht idx prev p its) = nTableSize ht"
  "nNumOfElements (deleted ht idx prev p its) = nNumOfElements ht - 1"
  "length (arData (deleted ht idx prev p its)) = length (arData ht)"
  "ht_hash (deleted ht idx prev p its) = ht_hash (unlink ht idx prev)"
  "flag_packed (deleted ht idx prev p its) = flag_packed ht"
  "flag_uninitialized (deleted ht idx prev p its) = flag_uninitialized ht"
  "pDestructor (deleted ht idx prev p its) = pDestructor ht"
  "ind_slots (deleted ht idx prev p its) = ind_slots ht"
  "nNextFreeElement (deleted ht idx prev p its) = nNextFreeElement ht"
  "dtor_log (deleted ht idx prev p its) =
     (if pDestructor ht then dtor_log ht @ [b_val (arData ht ! idx)] else dtor_log ht)"
  by (simp_all add: deleted_def call_pDestructor_def upd_bucket_def)

lemma deleted_data:
  assumes "idx < length (arData ht)"
  shows "b_val (arData (deleted ht idx prev p its) ! j) = (if j = idx then IS_UNDEF else b_val (arData ht ! j))"
    "b_h (arData (deleted ht idx prev p its) ! j) = b_h (arData ht ! j)"
    "b_key (arData (deleted ht idx prev p its) ! j) = b_key (arData ht ! j)"
    "b_next (arData (deleted ht idx prev p its) ! j) = b_next (arData (unlink ht idx prev) ! j)"
  using assms
  by (auto simp: deleted_def call_pDestructor_def upd_bucket_def nth_update_cases unlink_data)

lemma used_after_del_le: "idx < nNumUsed ht \<Longrightarrow> used_after_del ht idx \<le> nNumUsed ht"
  using trim_used_le[of "arData ht" "nNumUsed ht - 1"] by (auto simp: used_after_del_def)

lemma used_after_del_undef:
  "used_after_del ht idx \<le> i \<Longrightarrow> i < nNumUsed ht \<Longrightarrow> i \<noteq> idx \<Longrightarrow> b_val (arData ht ! i) = IS_UNDEF"
  by (auto simp: used_after_del_def intro: trim_used_undef split: if_splits)

lemma deleted_live:
  assumes "idx < nNumUsed ht" "idx < length (arData ht)"
  shows "live_of (deleted ht idx prev p its) = filter (\<lambda>i. i \<noteq> idx) (live_of ht)"
proof -
  let ?ar = "arData (deleted ht idx prev p its)"
  have "live_idx ?ar (used_after_del ht idx) = live_idx ?ar (nNumUsed ht)"
    unfolding live_idx_def using used_after_del_undef[of ht idx] assms
    by (intro filter_upt_le[symmetric] used_after_del_le) (auto simp: live_def deleted_data)
  also have "\<dots> = filter (\<lambda>i. i \<noteq> idx) (live_of ht)"
    unfolding live_idx_def filter_filter using assms
    by (intro filter_cong) (auto simp: live_def deleted_data)
  finally show ?thesis by simp
qed

lemma deleted_entry:
  assumes "idx < length (arData ht)" "i \<noteq> idx"
  shows "bkey (arData (deleted ht idx prev p its) ! i) = bkey (arData ht ! i)"
    "entry (arData (deleted ht idx prev p its) ! i) = entry (arData ht ! i)"
  using assms by (simp_all add: entry_def bkey_def deleted_data split: option.split)

lemma deleted_elems:
  assumes "idx \<in> set (live_of ht)" "idx < length (arData ht)" "distinct (map fst (elems ht))"
  shows "elems (deleted ht idx prev p its) = alist_del (bkey (arData ht ! idx)) (elems ht)"
proof -
  have idx: "idx < nNumUsed ht" using assms(1) by (simp add: live_idx_set)
  have k: "bkey (arData ht ! i) = bkey (arData ht ! idx) \<longleftrightarrow> i = idx" if "i \<in> set (live_of ht)" for i
    using assms that by (auto simp: map_fst_elems distinct_map inj_on_def)
  have "elems (deleted ht idx prev p its) = map (\<lambda>i. entry (arData ht ! i)) (filter (\<lambda>i. i \<noteq> idx) (live_of ht))"
    unfolding elems_def deleted_live[OF idx assms(2)] using assms(2) deleted_entry(2) by auto
  also have "filter (\<lambda>i. i \<noteq> idx) (live_of ht)
      = filter (\<lambda>i. fst (entry (arData ht ! i)) \<noteq> bkey (arData ht ! idx)) (live_of ht)"
    using k by (intro filter_cong) (auto simp: entry_def)
  finally show ?thesis by (simp add: alist_del_def elems_def filter_map comp_def)
qed

lemma length_filter_neq:
  "distinct xs \<Longrightarrow> x \<in> set xs \<Longrightarrow> length (filter (\<lambda>i. i \<noteq> x) xs) = length xs - 1"
proof (induction xs)
  case (Cons a xs)
  then show ?case
  proof (cases "a = x")
    case True
    then have "filter (\<lambda>i. i \<noteq> x) xs = xs" using Cons.prems by (auto simp: filter_id_conv)
    with True show ?thesis by simp
  next
    case False
    then have "length xs \<noteq> 0" using Cons.prems by auto
    with False Cons show ?thesis by simp
  qed
qed simp

lemma deleted_data_inv:
  assumes "data_inv ht" "idx \<in> set (live_of ht)"
  shows "data_inv (deleted ht idx prev p its)"
proof -
  note d = data_invD[OF assms(1)]
  have idx: "idx < nNumUsed ht" using assms(2) by (simp add: live_idx_set)
  have idx2: "idx < length (arData ht)" using idx d by simp
  show ?thesis unfolding data_inv_def deleted_live[OF idx idx2]
  proof (intro conjI allI impI)
    show "nNumUsed (deleted ht idx prev p its) \<le> nTableSize (deleted ht idx prev p its)"
      using used_after_del_le[OF idx] d(2) by simp
    fix i assume "i < nNumUsed (deleted ht idx prev p its)"
    then have "i < nNumUsed ht" using used_after_del_le[OF idx] by simp
    then show "b_val (arData (deleted ht idx prev p its) ! i) \<noteq> UNINIT" using d(6) idx2 by (simp add: deleted_data)
  qed (use d assms(2) in \<open>simp_all add: length_filter_neq\<close>)
qed

lemma deleted_packed:
  assumes "packed_inv ht" "flag_packed ht" "idx \<in> set (live_of ht)"
  shows "packed_inv (deleted ht idx None p its)"
proof -
  have d: "data_inv ht" using assms(1) by (simp add: packed_inv_def)
  have idx: "idx < nNumUsed ht" using assms(3) by (simp add: live_idx_set)
  have idx2: "idx < length (arData ht)" using idx data_invD(2,3)[OF d] by simp
  show ?thesis unfolding packed_inv_def deleted_live[OF idx idx2]
    using assms deleted_data_inv[OF d assms(3)] idx2
    by (auto simp: packed_inv_def unlink_def deleted_data)
qed

section \<open>Unlinking keeps the chains\<close>

definition cell_chain :: "'v HashTable \<Rightarrow> nat \<Rightarrow> nat list \<Rightarrow> nat list" where
  "cell_chain ht s L = rev (filter (\<lambda>i. cell_of ht i = s) L)"

lemma cell_of_deleted: "idx < length (arData ht) \<Longrightarrow> cell_of (deleted ht idx prev p its) i = cell_of ht i"
  by (simp add: cell_of_def hash_cell_def deleted_data)

lemma chains_ok_deleted:
  assumes "chains_ok ht L" "distinct L" "\<not> flag_packed ht" "idx < length (arData ht)"
    and split: "cell_chain ht (cell_of ht idx) L = xs @ idx # ys"
    and prev: "prev = (if xs = [] then None else Some (last xs))"
  shows "chains_ok (deleted ht idx prev p its) (filter (\<lambda>i. i \<noteq> idx) L)"
  unfolding chains_ok_def
proof (intro allI impI)
  let ?ht = "deleted ht idx prev p its" and ?c = "cell_of ht idx" and ?n = "b_next (arData ht ! idx)"
  fix s assume "s < length (ht_hash ?ht)"
  then have s: "s < length (ht_hash ht)" by simp
  have d: "distinct (xs @ idx # ys)" using assms(2) split by (metis cell_chain_def distinct_filter distinct_rev)
  have c: "chain (arData ht) (ht_hash ht ! s) (cell_chain ht s L)"
    using chains_okD[OF assms(1) s] by (simp add: cell_chain_def)
  have f: "rev (filter (\<lambda>i. cell_of ?ht i = s) (filter (\<lambda>i. i \<noteq> idx) L)) = filter (\<lambda>i. i \<noteq> idx) (cell_chain ht s L)"
    using assms(4) by (simp add: cell_of_deleted cell_chain_def rev_filter conj_commute)
  have next_eq: "b_next (arData ?ht ! i) = (if prev = Some i \<and> i < length (arData ht) then ?n else b_next (arData ht ! i))" for i
    using assms(3,4)
    by (auto simp: deleted_data unlink_def upd_bucket_def HT_HASH_set_def nth_update_cases split: option.split)
  have hd_eq: "ht_hash ?ht ! s = (if prev = None \<and> s = ?c then ?n else ht_hash ht ! s)"
    using assms(3,4) s
    by (auto simp: unlink_def upd_bucket_def HT_HASH_set_def nth_update_cases cell_of_def split: option.split)
  show "chain (arData ?ht) (ht_hash ?ht ! s) (rev (filter (\<lambda>i. cell_of ?ht i = s) (filter (\<lambda>i. i \<noteq> idx) L)))"
  proof (cases "s = ?c")
    case False
    have "i \<notin> set (cell_chain ht s L)" if "prev = Some i" for i
    proof -
      have "i \<in> set (cell_chain ht ?c L)" using that prev split by (auto split: if_splits)
      then show ?thesis using False by (auto simp: cell_chain_def)
    qed
    then have "chain (arData ?ht) (ht_hash ht ! s) (cell_chain ht s L) = chain (arData ht) (ht_hash ht ! s) (cell_chain ht s L)"
      using next_eq by (intro chain_cong) auto
    moreover have "filter (\<lambda>i. i \<noteq> idx) (cell_chain ht s L) = cell_chain ht s L"
      using False by (auto simp: filter_id_conv cell_chain_def)
    ultimately show ?thesis using c False f hd_eq by simp
  next
    case True
    have rest: "filter (\<lambda>i. i \<noteq> idx) (cell_chain ht s L) = xs @ ys"
    proof -
      have "filter (\<lambda>i. i \<noteq> idx) xs = xs" "filter (\<lambda>i. i \<noteq> idx) ys = ys"
        using d by (auto simp: filter_id_conv)
      then show ?thesis using True split by simp
    qed
    have c': "chain (arData ht) (ht_hash ht ! s) (xs @ idx # ys)" using c True split by simp
    show ?thesis
    proof (cases "xs = []")
      case xs: True
      have "chain (arData ?ht) ?n ys = chain (arData ht) ?n ys"
        using next_eq prev xs by (intro chain_cong) auto
      then show ?thesis using c' f rest hd_eq prev xs True by simp
    next
      case xs: False
      let ?b = "(arData ht ! last xs)\<lparr>b_next := ?n\<rparr>"
      have l: "last xs < length (arData ht)" using chain_members[OF c'] xs by simp
      have "chain ((arData ht)[last xs := ?b]) (ht_hash ht ! s) (xs @ ys)"
        using chain_unlink[OF c' xs d] by simp
      moreover have "chain (arData ?ht) (ht_hash ht ! s) (xs @ ys) = chain ((arData ht)[last xs := ?b]) (ht_hash ht ! s) (xs @ ys)"
        using next_eq prev xs l by (intro chain_cong) (auto simp: nth_update_cases)
      ultimately show ?thesis using f rest hd_eq prev xs by simp
    qed
  qed
qed

lemma deleted_mixed:
  assumes "mixed_inv ht" "\<not> flag_packed ht" "idx \<in> set (live_of ht)"
    and "cell_chain ht (cell_of ht idx) (live_of ht) = xs @ idx # ys"
    and "prev = (if xs = [] then None else Some (last xs))"
  shows "mixed_inv (deleted ht idx prev p its)"
proof -
  note m = mixed_invD[OF assms(1)]
  have idx: "idx < nNumUsed ht" using assms(3) by (simp add: live_idx_set)
  have idx2: "idx < length (arData ht)" using idx data_invD(2,3)[OF m(1)] by simp
  have "key_hash_ok (arData (deleted ht idx prev p its) ! i)" if "i \<in> set (live_of ht)" for i
    using m(5)[OF that] idx2 by (simp add: key_hash_ok_def deleted_data split: option.splits)
  then have "keys_inv (deleted ht idx prev p its)"
    using distinct_alist_del[OF m(4)]
    by (simp add: keys_inv_def deleted_elems[OF assms(3) idx2 m(4)] deleted_live[OF idx idx2, simplified])
  moreover have "mask_inv (deleted ht idx prev p its)" using m(2) by (simp add: mask_inv_def)
  moreover have "chains_ok (deleted ht idx prev p its) (filter (\<lambda>i. i \<noteq> idx) (live_of ht))"
    using chains_ok_deleted[OF m(3) live_idx_distinct assms(2) idx2 assms(4,5)] .
  ultimately show ?thesis
    using deleted_data_inv[OF m(1) assms(3)] deleted_live[OF idx idx2] by (simp add: mixed_inv_def)
qed

section \<open>The deletion operations\<close>

text \<open>What a deletion of the value of key \<open>k\<close> promises.\<close>

definition del_spec :: "'v HashTable \<Rightarrow> hkey \<Rightarrow> 'v HashTable \<Rightarrow> bool" where
  "del_spec ht k ht' \<longleftrightarrow> ht_inv ht' \<and> elems ht' = alist_del k (elems ht)
     \<and> nTableSize ht' = nTableSize ht \<and> pDestructor ht' = pDestructor ht
     \<and> nNextFreeElement ht' = nNextFreeElement ht \<and> ind_slots ht' = ind_slots ht
     \<and> dtor_log ht' = dtor_log ht @ (if pDestructor ht then [the (map_of (elems ht) k)] else [])"

lemma del_spec_deleted:
  assumes "distinct (map fst (elems ht))" "idx \<in> set (live_of ht)" "idx < length (arData ht)"
    and "ht_inv (deleted ht idx prev p its)"
  shows "del_spec ht (bkey (arData ht ! idx)) (deleted ht idx prev p its)"
proof -
  have "idx_of ht (bkey (arData ht ! idx)) = Some idx" using idx_of_Some_iff assms by blast
  then show ?thesis using assms by (simp add: del_spec_def deleted_elems map_of_elems)
qed

lemma live_length: "data_inv ht \<Longrightarrow> idx \<in> set (live_of ht) \<Longrightarrow> idx < length (arData ht)"
  using data_invD(2,3)[of ht] by (simp add: live_idx_set)

lemma del_el_ex_packed:
  assumes "packed_inv ht" "flag_packed ht" "\<not> flag_uninitialized ht" "idx \<in> set (live_of ht)"
  shows "del_spec ht (bkey (arData ht ! idx)) (zend_hash_del_el_ex ht idx None)"
proof -
  obtain p its where e: "zend_hash_del_el_ex ht idx None = deleted ht idx None p its"
    using del_el_ex_eq unfolding deleted_def by blast
  have "data_inv ht" using assms(1) by (simp add: packed_inv_def)
  moreover have "ht_inv (deleted ht idx None p its)"
    using deleted_packed[OF assms(1,2,4)] assms(2,3) by (simp add: ht_inv_def)
  ultimately show ?thesis unfolding e
    using del_spec_deleted live_length assms(4) packed_keys(2)[OF assms(1)] by (metis keys_inv_def)
qed

lemma del_el_ex_mixed:
  assumes "mixed_inv ht" "\<not> flag_packed ht" "\<not> flag_uninitialized ht" "idx \<in> set (live_of ht)"
    and "cell_chain ht (cell_of ht idx) (live_of ht) = xs @ idx # ys"
  shows "del_spec ht (bkey (arData ht ! idx))
           (zend_hash_del_el_ex ht idx (if xs = [] then None else Some (last xs)))"
proof -
  let ?prev = "if xs = [] then None else Some (last xs)"
  obtain p its where e: "zend_hash_del_el_ex ht idx ?prev = deleted ht idx ?prev p its"
    using del_el_ex_eq unfolding deleted_def by blast
  have "ht_inv (deleted ht idx ?prev p its)"
    using deleted_mixed[OF assms(1,2,4,5) refl] assms(2,3) by (simp add: ht_inv_def)
  then show ?thesis unfolding e
    using del_spec_deleted live_length mixed_invD(1,4)[OF assms(1)] assms(4) by metis
qed

lemma cell_chain_key: "key_hash_ok (arData ht ! idx) \<Longrightarrow>
    cell_chain ht (cell_of ht idx) (live_of ht) = key_chain ht (bkey (arData ht ! idx))"
  by (simp add: cell_chain_def key_chain_def cell_of_def bkey_hash)

lemma cell_chain_split:
  assumes "mixed_inv ht" "idx \<in> set (live_of ht)"
  obtains xs ys where "key_chain ht (bkey (arData ht ! idx)) = xs @ idx # ys"
    "cell_chain ht (cell_of ht idx) (live_of ht) = xs @ idx # ys"
    "distinct (xs @ idx # ys)" "length xs < chain_fuel ht"
    "chain (arData ht) (HT_HASH ht (nIndex (b_h (arData ht ! idx)) (nTableMask ht))) (xs @ idx # ys)"
proof -
  let ?k = "bkey (arData ht ! idx)"
  have "idx \<in> set (key_chain ht ?k)" using key_chain_member(1)[OF assms] by blast
  then obtain xs ys where s: "key_chain ht ?k = xs @ idx # ys" by (meson split_list)
  moreover have ok: "key_hash_ok (arData ht ! idx)" using mixed_invD(5)[OF assms] .
  moreover have "length xs < chain_fuel ht" using key_chain_length[OF assms(1), of ?k] s by simp
  moreover have "distinct (xs @ idx # ys)" using key_chain_member(3)[OF assms(1), of ?k] s by simp
  ultimately show ?thesis using that key_chain_chain[OF assms(1), of ?k] cell_chain_key bkey_hash by metis
qed

text \<open>The chain searches of the deletions: the bucket of the key together with its predecessor.\<close>

lemma search_prev:
  assumes "mixed_inv ht"
  shows "idx_of ht k = None \<Longrightarrow> find_chain_prev (chain_fuel ht) (kmatch k) (arData ht) None
            (HT_HASH ht (nIndex (khash k) (nTableMask ht))) = None"
    and "idx_of ht k = Some idx \<Longrightarrow> \<exists>xs ys. cell_chain ht (cell_of ht idx) (live_of ht) = xs @ idx # ys
          \<and> find_chain_prev (chain_fuel ht) (kmatch k) (arData ht) None
              (HT_HASH ht (nIndex (khash k) (nTableMask ht))) = Some (idx, if xs = [] then None else Some (last xs))"
proof -
  note m = mixed_invD[OF assms]
  have len: "length (arData ht) \<le> HT_INVALID_IDX" using data_invD(5)[OF m(1)] by simp
  have match: "kmatch k (arData ht ! i) \<longleftrightarrow> bkey (arData ht ! i) = k" if "i \<in> set (key_chain ht k)" for i
    using m(5) key_chain_member(2)[OF assms that] kmatch_iff by blast
  have live: "i \<in> set (live_of ht)" if "i \<in> set (key_chain ht k)" for i
    using key_chain_member(2)[OF assms that] .
  { assume "idx_of ht k = None"
    then have "\<not> kmatch k (arData ht ! i)" if "i \<in> set (key_chain ht k)" for i
      using match[OF that] live[OF that] by (auto simp: idx_of_def find_None_iff)
    then show "find_chain_prev (chain_fuel ht) (kmatch k) (arData ht) None
            (HT_HASH ht (nIndex (khash k) (nTableMask ht))) = None"
      using find_chain_prev_None[OF key_chain_chain[OF assms, of k] key_chain_length[OF assms] len] by blast }
  assume "idx_of ht k = Some idx"
  then have idx: "idx \<in> set (live_of ht)" "bkey (arData ht ! idx) = k"
    using idx_of_Some_iff[OF m(4)] by auto
  obtain xs ys where s: "key_chain ht k = xs @ idx # ys"
    "cell_chain ht (cell_of ht idx) (live_of ht) = xs @ idx # ys"
    "distinct (xs @ idx # ys)" "length xs < chain_fuel ht"
    using cell_chain_split[OF assms idx(1)] idx(2) by metis
  have "\<not> kmatch k (arData ht ! j)" if "j \<in> set xs" for j
  proof
    assume "kmatch k (arData ht ! j)"
    then have "idx_of ht k = Some j" using match live s(1) that idx_of_Some_iff[OF m(4)] by simp
    then show False using \<open>idx_of ht k = Some idx\<close> s(3) that by auto
  qed
  moreover have "kmatch k (arData ht ! idx)" using match s(1) idx(2) by simp
  ultimately have "find_chain_prev (chain_fuel ht) (kmatch k) (arData ht) None
            (HT_HASH ht (nIndex (khash k) (nTableMask ht))) = Some (idx, if xs = [] then None else Some (last xs))"
    using find_chain_prev_Some[OF key_chain_chain[OF assms, of k, unfolded s(1)] s(4) len] by blast
  then show "\<exists>xs ys. cell_chain ht (cell_of ht idx) (live_of ht) = xs @ idx # ys
          \<and> find_chain_prev (chain_fuel ht) (kmatch k) (arData ht) None
              (HT_HASH ht (nIndex (khash k) (nTableMask ht))) = Some (idx, if xs = [] then None else Some (last xs))"
    using s(2) by blast
qed

lemma del_matching_mixed:
  assumes "mixed_inv ht" "\<not> flag_packed ht" "\<not> flag_uninitialized ht"
  shows "idx_of ht k = None \<Longrightarrow> del_matching ht (kmatch k) (khash k) = (ht, False)"
    and "idx_of ht k \<noteq> None \<Longrightarrow> \<exists>ht'. del_matching ht (kmatch k) (khash k) = (ht', True) \<and> del_spec ht k ht'"
proof -
  show "idx_of ht k = None \<Longrightarrow> del_matching ht (kmatch k) (khash k) = (ht, False)"
    using search_prev(1)[OF assms(1)] by (simp add: del_matching_def)
  assume "idx_of ht k \<noteq> None"
  then obtain idx where idx: "idx_of ht k = Some idx" by blast
  then have l: "idx \<in> set (live_of ht)" "bkey (arData ht ! idx) = k"
    using idx_of_Some_iff[OF mixed_invD(4)[OF assms(1)]] by auto
  from search_prev(2)[OF assms(1) idx] l del_el_ex_mixed[OF assms l(1)]
  show "\<exists>ht'. del_matching ht (kmatch k) (khash k) = (ht', True) \<and> del_spec ht k ht'"
    by (auto simp: del_matching_def)
qed

lemma del_matching_empty:
  assumes "nTableMask ht = HT_MIN_MASK" "ht_hash ht = [HT_INVALID_IDX, HT_INVALID_IDX]"
  shows "del_matching ht P h = (ht, False)"
  using HT_HASH_empty[OF assms] by (simp add: del_matching_def chain_fuel_def)

lemma elems_empty_idx: "nNumUsed ht = 0 \<Longrightarrow> idx_of ht k = None"
  by (simp add: idx_of_def live_idx_def)

lemma idx_of_packed_str: "packed_inv ht \<Longrightarrow> idx_of ht (Inr str) = None"
  by (auto simp: packed_inv_def idx_of_def find_None_iff bkey_def)

text \<open>A deletion by key: what it reports and what it leaves.\<close>

definition del_result :: "'v HashTable \<Rightarrow> hkey \<Rightarrow> 'v HashTable \<times> bool \<Rightarrow> bool" where
  "del_result ht k r \<longleftrightarrow> (if k \<in> fst ` set (elems ht) then snd r \<and> del_spec ht k (fst r) else r = (ht, False))"

lemma del_matching_result:
  assumes "mixed_inv ht" "\<not> flag_packed ht" "\<not> flag_uninitialized ht"
  shows "del_result ht k (del_matching ht (kmatch k) (khash k))"
proof (cases "idx_of ht k")
  case None
  then show ?thesis using del_matching_mixed(1)[OF assms None] idx_of_None_iff[of ht k] by (simp add: del_result_def)
next
  case (Some i)
  then show ?thesis using del_matching_mixed(2)[OF assms, of k] idx_of_None_iff[of ht k] by (auto simp: del_result_def)
qed

lemma str_del_result:
  assumes "ht_inv ht"
  shows "del_result ht (Inr str) (zend_hash_str_del ht str)"
proof -
  have e: "zend_hash_str_del ht str = del_matching ht (kmatch (Inr str)) (khash (Inr str))"
    by (simp add: zend_hash_str_del_def kmatch_def khash_def Let_def)
  from assms show ?thesis
  proof (cases rule: ht_inv_cases)
    case uninit
    then show ?thesis using elems_empty_idx[of ht "Inr str"] idx_of_None_iff[of ht "Inr str"]
      by (auto simp: e uninit_inv_def del_matching_empty del_result_def)
  next
    case packed
    then show ?thesis using idx_of_packed_str[of ht str] idx_of_None_iff[of ht "Inr str"]
      by (auto simp: e packed_inv_def del_matching_empty del_result_def)
  next
    case mixed
    then show ?thesis unfolding e by (intro del_matching_result) auto
  qed
qed

lemma zend_hash_del_str: "zend_hash_del ht key = zend_hash_str_del ht (ZSTR_VAL key)"
  by (simp add: zend_hash_del_def zend_hash_str_del_def zend_string_hash_val_def)

lemma index_del_result:
  assumes "ht_inv ht"
  shows "del_result ht (Inl h) (zend_hash_index_del ht h)"
  using assms
proof (cases rule: ht_inv_cases)
  case uninit
  then show ?thesis using elems_empty_idx[of ht "Inl h"] idx_of_None_iff[of ht "Inl h"]
    by (auto simp: zend_hash_index_del_def uninit_inv_def del_matching_empty del_result_def)
next
  case packed
  show ?thesis
  proof (cases "unat h < nNumUsed ht \<and> b_val (arData ht ! unat h) \<noteq> IS_UNDEF")
    case True
    then have "idx_of ht (Inl h) = Some (unat h)" using packed_idx_of(1)[of ht h] packed by simp
    moreover from this have "unat h \<in> set (live_of ht)" "bkey (arData ht ! unat h) = Inl h"
      using idx_of_Some_iff ht_inv_distinct[OF assms] by blast+
    ultimately show ?thesis
      using del_el_ex_packed[of ht "unat h"] packed True idx_of_None_iff[of ht "Inl h"]
      by (auto simp: zend_hash_index_del_def del_result_def)
  next
    case False
    then have "idx_of ht (Inl h) = None" using packed_idx_of(1)[of ht h] packed by auto
    then show ?thesis using False packed idx_of_None_iff[of ht "Inl h"]
      by (auto simp: zend_hash_index_del_def del_result_def)
  qed
next
  case mixed
  then show ?thesis using del_matching_result[of ht "Inl h"]
    by (simp add: zend_hash_index_del_def kmatch_def khash_def)
qed

text \<open>\<open>_zend_hash_del_el\<close> searches the predecessor itself.\<close>

lemma del_el_spec:
  assumes "ht_inv ht" "idx \<in> set (live_of ht)"
  shows "del_spec ht (bkey (arData ht ! idx)) (zend_hash_del_el ht idx)"
  using assms(1)
proof (cases rule: ht_inv_cases)
  case uninit
  then show ?thesis using assms(2) by (simp add: uninit_inv_def live_idx_def)
next
  case packed
  then show ?thesis using del_el_ex_packed assms(2) by (simp add: zend_hash_del_el_def Let_def)
next
  case mixed
  then obtain xs ys where s: "cell_chain ht (cell_of ht idx) (live_of ht) = xs @ idx # ys"
    "distinct (xs @ idx # ys)" "length xs < chain_fuel ht"
    "chain (arData ht) (HT_HASH ht (nIndex (b_h (arData ht ! idx)) (nTableMask ht))) (xs @ idx # ys)"
    using cell_chain_split assms(2) by metis
  let ?i = "HT_HASH ht (nIndex (b_h (arData ht ! idx)) (nTableMask ht))"
  have "xs = [] \<longleftrightarrow> ?i = idx" using s(2,4) by (cases xs) auto
  moreover have "find_prev (chain_fuel ht) (arData ht) idx ?i = last xs" if "xs \<noteq> []"
    using find_prev_eq[OF s(4) that s(3)] s(2) by simp
  ultimately have "zend_hash_del_el ht idx = zend_hash_del_el_ex ht idx (if xs = [] then None else Some (last xs))"
    using mixed by (auto simp: zend_hash_del_el_def Let_def)
  then show ?thesis using del_el_ex_mixed[OF _ _ _ assms(2) s(1)] mixed by simp
qed

end
