(* ===== verification/ZendArray.thy ===== *)
theory ZendArray
  imports ZendHashDel
begin

text \<open>
  The PHP array as the rest of the engine sees it. The locale \<open>ordered_array\<close> states what
  a client of an insertion-ordered map relies on (lookup, update, deletion, all phrased
  on the list of elements in iteration order) and derives the laws of arrays from it; it
  is interpreted on the functions of zend_hash.c. The theory also holds the properties of
  the individual functions: which element each finds, stores or removes, what it reports,
  and what it hands to the destructor.
\<close>

section \<open>The interface\<close>

locale ordered_array =
  fixes inv :: "'t \<Rightarrow> bool" and els :: "'t \<Rightarrow> ('k \<times> 'v) list"
    and room :: "'t \<Rightarrow> bool" and storable :: "'v \<Rightarrow> bool"
    and lookup :: "'t \<Rightarrow> 'k \<Rightarrow> 'v option"
    and put :: "'t \<Rightarrow> 'k \<Rightarrow> 'v \<Rightarrow> zend_error + 't"
    and remove :: "'t \<Rightarrow> 'k \<Rightarrow> 't \<times> bool"
  assumes keys_distinct: "inv t \<Longrightarrow> distinct (map fst (els t))"
    and lookup_els: "inv t \<Longrightarrow> lookup t k = map_of (els t) k"
    and put_els: "inv t \<Longrightarrow> room t \<Longrightarrow> storable v \<Longrightarrow>
      \<exists>t'. put t k v = Inr t' \<and> inv t' \<and> els t' = alist_put k v (els t)"
    and remove_els: "inv t \<Longrightarrow> inv (fst (remove t k)) \<and> els (fst (remove t k)) = alist_del k (els t)
      \<and> snd (remove t k) = (k \<in> fst ` set (els t))"
begin

lemma lookup_put:
  assumes "inv t" "room t" "storable v"
  shows "\<exists>t'. put t k v = Inr t' \<and> inv t' \<and> lookup t' j = (if j = k then Some v else lookup t j)"
  using put_els[OF assms, of k] assms(1) by (auto simp: lookup_els)

lemma lookup_remove:
  "inv t \<Longrightarrow> lookup (fst (remove t k)) j = (if j = k then None else lookup t j)"
  using remove_els[of t k] by (auto simp: lookup_els)

lemma remove_absent: "inv t \<Longrightarrow> lookup t k = None \<Longrightarrow> els (fst (remove t k)) = els t"
  using remove_els[of t k]
  by (auto simp: lookup_els map_of_eq_None_iff alist_del_def filter_id_conv image_iff)

lemma remove_put_fresh:
  assumes "inv t" "room t" "storable v" "lookup t k = None" "put t k v = Inr t'"
  shows "els (fst (remove t' k)) = els t"
proof -
  have f: "k \<notin> fst ` set (els t)" using assms(1,4) by (simp add: lookup_els map_of_eq_None_iff)
  have t': "inv t'" "els t' = els t @ [(k, v)]"
    using put_els[OF assms(1-3), of k] assms(5) alist_put_fresh[OF f] by auto
  show ?thesis using remove_els[OF t'(1), of k] t'(2) f
    by (auto simp: alist_del_def filter_id_conv image_iff)
qed

end

section \<open>The interface on the hash table\<close>

text \<open>Array accesses choose the function by the kind of key, as the compiler's handlers do.\<close>

definition array_find :: "'v HashTable \<Rightarrow> hkey \<Rightarrow> zptr option" where
  "array_find ht k = (case k of Inl h \<Rightarrow> zend_hash_index_find ht h | Inr str \<Rightarrow> zend_hash_str_find ht str)"

definition array_get :: "'v HashTable \<Rightarrow> hkey \<Rightarrow> 'v zval option" where
  "array_get ht k = map_option (read_zptr ht) (array_find ht k)"

definition array_update :: "'v HashTable \<Rightarrow> hkey \<Rightarrow> 'v zval \<Rightarrow> zend_error + ('v HashTable \<times> zptr option)" where
  "array_update ht k v =
     (case k of Inl h \<Rightarrow> zend_hash_index_update ht h v | Inr str \<Rightarrow> zend_hash_str_update ht str v)"

definition array_put :: "'v HashTable \<Rightarrow> hkey \<Rightarrow> 'v zval \<Rightarrow> zend_error + 'v HashTable" where
  "array_put ht k v = (case array_update ht k v of Inl e \<Rightarrow> Inl e | Inr (ht', _) \<Rightarrow> Inr ht')"

definition array_del :: "'v HashTable \<Rightarrow> hkey \<Rightarrow> 'v HashTable \<times> bool" where
  "array_del ht k = (case k of Inl h \<Rightarrow> zend_hash_index_del ht h | Inr str \<Rightarrow> zend_hash_str_del ht str)"

abbreviation has_room :: "'v HashTable \<Rightarrow> bool" where
  "has_room ht \<equiv> nTableSize ht < 2 ^ 30"

lemma str_find_elems: "ht_inv ht \<Longrightarrow>
    map_option (read_zptr ht) (zend_hash_str_find ht str) = map_of (elems ht) (Inr str)"
  by (simp add: zend_hash_str_find_def str_find_bucket_key find_key_str map_of_elems
      option.map_comp comp_def read_zptr_def)

lemma find_str_find: "zend_hash_find ht key = zend_hash_str_find ht (ZSTR_VAL key)"
  by (simp add: zend_hash_find_def zend_hash_str_find_def str_find_bucket_key find_bucket_key)

lemma index_find_elems: "ht_inv ht \<Longrightarrow>
    map_option (read_zptr ht) (zend_hash_index_find ht h) = map_of (elems ht) (Inl h)"
  by (simp add: index_find_idx map_of_elems option.map_comp comp_def read_zptr_def)

lemma update_spec:
  assumes "ht_inv ht" "proper v" "has_room ht"
  shows "\<exists>r. zend_hash_update ht key v = Inr r \<and> ins_spec ht (Inr (ZSTR_VAL key)) v r"
proof (cases "idx_of ht (Inr (ZSTR_VAL key))")
  case None
  then show ?thesis using add_or_update_absent[OF assms] by (simp add: zend_hash_update_def)
next
  case (Some p)
  then show ?thesis using add_or_update_present[OF assms(1) Some] update_found_spec[OF assms(1) Some assms(2)]
    by (simp add: zend_hash_update_def)
qed

lemma str_update_spec:
  assumes "ht_inv ht" "proper v" "has_room ht"
  shows "\<exists>r. zend_hash_str_update ht str v = Inr r \<and> ins_spec ht (Inr str) v r"
proof (cases "idx_of ht (Inr str)")
  case None
  then show ?thesis using str_add_or_update_absent[OF assms] by (simp add: zend_hash_str_update_def)
next
  case (Some p)
  then show ?thesis using str_add_or_update_present[OF assms(1) Some] update_found_spec[OF assms(1) Some assms(2)]
    by (simp add: zend_hash_str_update_def)
qed

lemma replace_index_spec:
  assumes "ht_inv ht" "idx_of ht (Inl h) = Some p" "proper v"
  shows "ins_spec ht (Inl h) v (replace_index ht p v {HASH_UPDATE})"
  using store_spec[OF assms(1) _ assms(3)] assms(2) idx_of_Some_iff[OF ht_inv_distinct[OF assms(1)]]
  by (simp add: replace_index_def)

lemma index_update_spec:
  assumes "ht_inv ht" "proper v" "has_room ht"
  shows "\<exists>r. zend_hash_index_update ht h v = Inr r \<and> ins_spec ht (Inl h) v r"
proof (cases "idx_of ht (Inl h)")
  case None
  then show ?thesis using index_absent[OF assms] by (simp add: zend_hash_index_update_def)
next
  case (Some p)
  then show ?thesis using index_present[OF assms(1) Some] replace_index_spec[OF assms(1) Some assms(2)]
    by (simp add: zend_hash_index_update_def)
qed

lemma array_update_spec:
  assumes "ht_inv ht" "proper v" "has_room ht"
  shows "\<exists>r. array_update ht k v = Inr r \<and> ins_spec ht k v r"
  using str_update_spec[OF assms] index_update_spec[OF assms] by (cases k) (simp_all add: array_update_def)

lemma array_del_result: "ht_inv ht \<Longrightarrow> del_result ht k (array_del ht k)"
  using str_del_result index_del_result by (cases k) (auto simp: array_del_def)

lemma alist_del_absent: "k \<notin> fst ` set xs \<Longrightarrow> alist_del k xs = xs"
  by (auto simp: alist_del_def filter_id_conv image_iff)

interpretation zarr: ordered_array ht_inv elems has_room proper array_get array_put array_del
proof unfold_locales
  fix ht :: "'v HashTable" and k v
  show "ht_inv ht \<Longrightarrow> distinct (map fst (elems ht))" by (rule ht_inv_distinct)
  show "ht_inv ht \<Longrightarrow> array_get ht k = map_of (elems ht) k"
    by (cases k) (simp_all add: array_get_def array_find_def str_find_elems index_find_elems)
  show "ht_inv ht \<Longrightarrow> has_room ht \<Longrightarrow> proper v \<Longrightarrow>
      \<exists>t'. array_put ht k v = Inr t' \<and> ht_inv t' \<and> elems t' = alist_put k v (elems ht)"
    using array_update_spec[of ht v k] by (auto simp: array_put_def ins_spec_def split: prod.split)
  show "ht_inv ht \<Longrightarrow> ht_inv (fst (array_del ht k)) \<and> elems (fst (array_del ht k)) = alist_del k (elems ht)
      \<and> snd (array_del ht k) = (k \<in> fst ` set (elems ht))"
    using array_del_result[of ht k] by (auto simp: del_result_def del_spec_def alist_del_absent split: if_splits)
qed

lemma ht_inv_empty_array [simp]: "ht_inv zend_empty_array" "elems zend_empty_array = []"
  "nTableSize zend_empty_array = 8"
  by (auto simp: ht_inv_def uninit_inv_def zend_empty_array_def elems_def live_idx_def size_ok_def
      HT_MIN_SIZE_def intro!: exI[of _ "3::nat"])

section \<open>Properties of the single functions\<close>

text \<open>A table for the witnesses, built by the model: \<open>["a" => 1]\<close>.\<close>

definition demo_table :: "nat HashTable" where
  "demo_table = (case array_put zend_empty_array (Inr ''a'') (ZVAL 1) of Inr t \<Rightarrow> t | Inl _ \<Rightarrow> zend_empty_array)"

lemma demo_table [simp]: "ht_inv demo_table" "elems demo_table = [(Inr ''a'', ZVAL 1)]"
  using zarr.put_els[of "zend_empty_array :: nat HashTable" "ZVAL 1" "Inr ''a''"]
  by (auto simp: demo_table_def proper_def)

lemma idx_of_present: "ht_inv ht \<Longrightarrow> k \<in> fst ` set (elems ht) \<longleftrightarrow> (\<exists>p. idx_of ht k = Some p)"
  using idx_of_None_iff[of ht k] by auto

text \<open>C5: in a consistent table the lookups by \<open>zend_string\<close>, by C string and by integer find
  exactly the value the table holds under that key, in packed and in hash form; the
  bounded chain walk never gives up on a present key.\<close>

theorem lookups_find_elements:
  assumes "ht_inv ht"
  shows "map_option (read_zptr ht) (zend_hash_find ht key) = map_of (elems ht) (Inr (ZSTR_VAL key))
    \<and> map_option (read_zptr ht) (zend_hash_str_find ht str) = map_of (elems ht) (Inr str)
    \<and> map_option (read_zptr ht) (zend_hash_index_find ht h) = map_of (elems ht) (Inl h)"
  using str_find_elems[OF assms] index_find_elems[OF assms] by (simp add: find_str_find)

theorem lookups_find_elements_witness:
  "ht_inv demo_table \<and> map_option (read_zptr demo_table) (zend_hash_str_find demo_table ''a'') = Some (ZVAL 1)
   \<and> zend_hash_index_find demo_table 7 = None"
  using lookups_find_elements[of demo_table "\<lparr>ZSTR_VAL = ''a'', ZSTR_IS_INTERNED = False\<rparr>" "''a''" 7] by simp

text \<open>C3: \<open>zend_hash_update\<close> succeeds while the table may still grow: it keeps the table
  consistent, replaces the value of a present key in its position or appends the pair,
  returns a pointer to the stored value, and destroys exactly the replaced value.\<close>

theorem update_stores:
  assumes "ht_inv ht" "proper v" "nTableSize ht < 2 ^ 30"
  shows "\<exists>ht' i. zend_hash_update ht key v = Inr (ht', Some (PBucket i)) \<and> ht_inv ht'
    \<and> elems ht' = alist_put (Inr (ZSTR_VAL key)) v (elems ht) \<and> read_zptr ht' (PBucket i) = v
    \<and> dtor_log ht' = dtor_log ht @ (if pDestructor ht then
         (case map_of (elems ht) (Inr (ZSTR_VAL key)) of None \<Rightarrow> [] | Some old \<Rightarrow> [old]) else [])"
  using update_spec[OF assms, of key] by (force simp: ins_spec_def)

theorem update_stores_witness:
  "\<exists>ht' i. zend_hash_update zend_empty_array \<lparr>ZSTR_VAL = ''a'', ZSTR_IS_INTERNED = False\<rparr> (ZVAL (1::nat))
     = Inr (ht', Some (PBucket i)) \<and> ht_inv ht' \<and> elems ht' = [(Inr ''a'', ZVAL 1)]
     \<and> read_zptr ht' (PBucket i) = ZVAL 1"
  using update_stores[of "zend_empty_array :: nat HashTable" "ZVAL 1" "\<lparr>ZSTR_VAL = ''a'', ZSTR_IS_INTERNED = False\<rparr>"]
  by (auto simp: proper_def)

text \<open>\<open>zend_hash_add\<close> never overwrites: it returns \<open>NULL\<close> and leaves the table alone when the
  key is present, and appends the pair when it is absent.\<close>

theorem add_never_overwrites:
  assumes "ht_inv ht" "proper v" "nTableSize ht < 2 ^ 30 \<or> Inr (ZSTR_VAL key) \<in> fst ` set (elems ht)"
  shows "if Inr (ZSTR_VAL key) \<in> fst ` set (elems ht) then zend_hash_add ht key v = Inr (ht, None)
    else \<exists>ht' i. zend_hash_add ht key v = Inr (ht', Some (PBucket i)) \<and> ht_inv ht'
      \<and> elems ht' = elems ht @ [(Inr (ZSTR_VAL key), v)] \<and> dtor_log ht' = dtor_log ht"
proof (cases "idx_of ht (Inr (ZSTR_VAL key))")
  case None
  then have k: "Inr (ZSTR_VAL key) \<notin> fst ` set (elems ht)" by (simp add: idx_of_None_iff)
  then show ?thesis using add_or_update_absent[OF assms(1,2) _ None, of "{HASH_ADD}"] assms(3)
    by (force simp: zend_hash_add_def ins_spec_def alist_put_fresh map_of_eq_None_iff[THEN iffD2])
next
  case (Some p)
  then have "Inr (ZSTR_VAL key) \<in> fst ` set (elems ht)" using idx_of_present[OF assms(1)] by blast
  then show ?thesis using add_or_update_present[OF assms(1) Some, of "{HASH_ADD}" v]
    by (simp add: zend_hash_add_def update_found_def)
qed

theorem add_never_overwrites_witness:
  "zend_hash_add demo_table \<lparr>ZSTR_VAL = ''a'', ZSTR_IS_INTERNED = True\<rparr> (ZVAL 9) = Inr (demo_table, None)"
  using add_never_overwrites[of demo_table "ZVAL 9" "\<lparr>ZSTR_VAL = ''a'', ZSTR_IS_INTERNED = True\<rparr>"]
  by (simp add: proper_def)

text \<open>C4: \<open>zend_hash_index_update\<close> stores under an integer key in every layout: in a packed
  table (filling the gap with undefined buckets or growing it), by converting to a hash
  when the index is out of range or fills a hole, or in a hash table.\<close>

theorem index_update_stores:
  assumes "ht_inv ht" "proper v" "nTableSize ht < 2 ^ 30"
  shows "\<exists>ht' i. zend_hash_index_update ht h v = Inr (ht', Some (PBucket i)) \<and> ht_inv ht'
    \<and> elems ht' = alist_put (Inl h) v (elems ht) \<and> read_zptr ht' (PBucket i) = v
    \<and> dtor_log ht' = dtor_log ht @ (if pDestructor ht then
         (case map_of (elems ht) (Inl h) of None \<Rightarrow> [] | Some old \<Rightarrow> [old]) else [])"
  using index_update_spec[OF assms, of h] by (force simp: ins_spec_def)

theorem index_update_stores_witness:
  "\<exists>ht' i. zend_hash_index_update zend_empty_array 3 (ZVAL (1::nat)) = Inr (ht', Some (PBucket i))
     \<and> ht_inv ht' \<and> elems ht' = [(Inl 3, ZVAL 1)] \<and> read_zptr ht' (PBucket i) = ZVAL 1"
  using index_update_stores[of "zend_empty_array :: nat HashTable" "ZVAL 1" 3] by (auto simp: proper_def)

text \<open>\<open>zend_hash_next_index_insert\<close> appends under the next free integer key, and returns
  \<open>NULL\<close> without changing anything when that key is taken (the counter is exhausted).\<close>

theorem next_index_insert_appends:
  assumes "ht_inv ht" "proper v" "nTableSize ht < 2 ^ 30"
  shows "if Inl (nNextFreeElement ht) \<in> fst ` set (elems ht) then zend_hash_next_index_insert ht v = Inr (ht, None)
    else \<exists>ht' i. zend_hash_next_index_insert ht v = Inr (ht', Some (PBucket i)) \<and> ht_inv ht'
      \<and> elems ht' = elems ht @ [(Inl (nNextFreeElement ht), v)]"
proof (cases "idx_of ht (Inl (nNextFreeElement ht))")
  case None
  then have k: "Inl (nNextFreeElement ht) \<notin> fst ` set (elems ht)" by (simp add: idx_of_None_iff)
  then show ?thesis using index_absent[OF assms None, of "{HASH_ADD, HASH_ADD_NEXT}"]
    by (force simp: zend_hash_next_index_insert_def ins_spec_def alist_put_fresh)
next
  case (Some p)
  then have "Inl (nNextFreeElement ht) \<in> fst ` set (elems ht)" using idx_of_present[OF assms(1)] by blast
  then show ?thesis using index_present[OF assms(1) Some, of "{HASH_ADD, HASH_ADD_NEXT}" v]
    by (simp add: zend_hash_next_index_insert_def replace_index_def)
qed

theorem next_index_insert_appends_witness:
  "\<exists>ht' i. zend_hash_next_index_insert zend_empty_array (ZVAL (1::nat)) = Inr (ht', Some (PBucket i))
     \<and> ht_inv ht' \<and> elems ht' = [(Inl 0, ZVAL 1)]"
proof -
  have "nNextFreeElement (zend_empty_array :: nat HashTable) = 0" by (simp add: zend_empty_array_def)
  then show ?thesis using next_index_insert_appends[of "zend_empty_array :: nat HashTable" "ZVAL 1"]
    by (auto simp: proper_def)
qed

text \<open>C6: deletion by string or integer key reports \<open>FAILURE\<close> and changes nothing when the key
  is absent; otherwise it reports \<open>SUCCESS\<close>, removes that element and no other, keeps the
  order of the rest and the collision chains, and destroys the removed value.\<close>

theorem deletions_remove_element:
  assumes "ht_inv ht"
  shows "(if Inr (ZSTR_VAL key) \<in> fst ` set (elems ht)
      then \<exists>ht'. zend_hash_del ht key = (ht', True) \<and> ht_inv ht' \<and> elems ht' = alist_del (Inr (ZSTR_VAL key)) (elems ht)
        \<and> dtor_log ht' = dtor_log ht @ (if pDestructor ht then [the (map_of (elems ht) (Inr (ZSTR_VAL key)))] else [])
      else zend_hash_del ht key = (ht, False))
   \<and> (if Inl h \<in> fst ` set (elems ht)
      then \<exists>ht'. zend_hash_index_del ht h = (ht', True) \<and> ht_inv ht' \<and> elems ht' = alist_del (Inl h) (elems ht)
        \<and> dtor_log ht' = dtor_log ht @ (if pDestructor ht then [the (map_of (elems ht) (Inl h))] else [])
      else zend_hash_index_del ht h = (ht, False))"
proof
  let ?P = "\<lambda>r k. (if k \<in> fst ` set (elems ht)
      then \<exists>ht'. r = (ht', True) \<and> ht_inv ht' \<and> elems ht' = alist_del k (elems ht)
        \<and> dtor_log ht' = dtor_log ht @ (if pDestructor ht then [the (map_of (elems ht) k)] else [])
      else r = (ht, False))"
  have p: "del_result ht k r \<Longrightarrow> ?P r k" for k r
    by (cases r; cases "k \<in> fst ` set (elems ht)") (simp_all add: del_result_def del_spec_def del: if_image_distrib image_iff)
  show "?P (zend_hash_del ht key) (Inr (ZSTR_VAL key))"
    unfolding zend_hash_del_str by (rule p[OF str_del_result[OF assms]])
  show "?P (zend_hash_index_del ht h) (Inl h)" by (rule p[OF index_del_result[OF assms]])
qed

theorem deletions_remove_element_witness:
  "(\<exists>ht'. zend_hash_del demo_table \<lparr>ZSTR_VAL = ''a'', ZSTR_IS_INTERNED = True\<rparr> = (ht', True) \<and> elems ht' = [])
   \<and> zend_hash_index_del demo_table 0 = (demo_table, False)"
  using deletions_remove_element[of demo_table "\<lparr>ZSTR_VAL = ''a'', ZSTR_IS_INTERNED = True\<rparr>" 0]
  by (auto simp: alist_del_def)

text \<open>C7: array semantics across functions: after an update the key reads as the new value and
  every other key as before; after a deletion the key is gone and every other key reads
  as before; deleting a key that was just added restores the elements and their order.\<close>

theorem array_laws:
  assumes "ht_inv ht" "proper v" "nTableSize ht < 2 ^ 30"
  shows "\<exists>ht'. array_put ht k v = Inr ht' \<and> array_get ht' j = (if j = k then Some v else array_get ht j)
    \<and> array_get (fst (array_del ht' k)) j = (if j = k then None else array_get ht j)
    \<and> (array_get ht k = None \<longrightarrow> elems (fst (array_del ht' k)) = elems ht)"
proof -
  obtain ht' where h: "array_put ht k v = Inr ht'" "ht_inv ht'"
    "array_get ht' j = (if j = k then Some v else array_get ht j)"
    using zarr.lookup_put[OF assms(1,3,2)] by blast
  moreover have "array_get (fst (array_del ht' k)) j = (if j = k then None else array_get ht j)"
    using zarr.lookup_remove[OF h(2)] h(3) by simp
  ultimately show ?thesis using zarr.remove_put_fresh[OF assms(1,3,2)] by blast
qed

theorem array_laws_witness:
  "\<exists>ht'. array_put (zend_empty_array :: nat HashTable) (Inl 2) (ZVAL 1) = Inr ht' \<and> array_get ht' (Inl 2) = Some (ZVAL 1)
    \<and> array_get (fst (array_del ht' (Inl 2))) (Inl 2) = None"
  using array_laws[of "zend_empty_array :: nat HashTable" "ZVAL 1" "Inl 2" "Inl 2"] by (auto simp: proper_def)

text \<open>C18: a rehash keeps every element and their order, leaves the table consistent, and packs
  the buckets so that none is unused below \<open>nNumUsed\<close>.\<close>

theorem rehash_compacts:
  assumes "ht_inv ht" "\<not> flag_packed ht" "\<not> flag_uninitialized ht"
  shows "ht_inv (zend_hash_rehash ht) \<and> elems (zend_hash_rehash ht) = elems ht
    \<and> nNumUsed (zend_hash_rehash ht) = nNumOfElements ht"
proof -
  have m: "mixed_inv ht" using assms by (simp add: ht_inv_def)
  have k: "keys_inv ht" using m by (simp add: mixed_inv_def)
  note r = rehash_mixed[OF mixed_invD(1,2)[OF m] k assms(3)]
  show ?thesis using r assms(2,3) by (simp add: ht_inv_def rehash_frame_def)
qed

theorem rehash_compacts_witness:
  "ht_inv (zend_hash_rehash demo_table) \<and> elems (zend_hash_rehash demo_table) = [(Inr ''a'', ZVAL 1)]"
proof -
  have p: "idx_of demo_table (Inr ''a'') \<noteq> None" using idx_of_None_iff[of demo_table "Inr ''a''"] by auto
  then have "\<not> flag_packed demo_table" "\<not> flag_uninitialized demo_table"
    using idx_of_str_mixed[of demo_table "''a''"] by auto
  then show ?thesis using rehash_compacts[of demo_table] by simp
qed

end
