(* ===== verification/ZendHashOps.thy ===== *)
theory ZendHashOps
  imports ZendArray
begin

text \<open>
  The remaining operations of zend_hash.c: pairs, counting, external iterators, changing
  the key of a bucket, discarding a tail, destruction and cleaning, the callbacks
  (apply), copy, duplication and merge, the positions of the internal pointer, sorting,
  comparison, minimum and maximum, numeric string keys and the conversions between symbol
  tables and property tables. Definitions only; the theorems are in the theories that
  import this one.
\<close>

section \<open>Entry points\<close>

definition zend_hash_add_or_update ::
  "'v HashTable \<Rightarrow> zend_string \<Rightarrow> 'v zval \<Rightarrow> hash_flag set \<Rightarrow> zend_error + ('v HashTable \<times> zptr option)" where
  "zend_hash_add_or_update ht key pData flag =
     (if flag = {HASH_ADD} then zend_hash_add ht key pData
      else if flag = {HASH_ADD_NEW} then zend_hash_add_new ht key pData
      else if flag = {HASH_UPDATE} then zend_hash_update ht key pData
      else zend_hash_update_ind ht key pData)"

definition zend_hash_str_update_ind :: "'v HashTable \<Rightarrow> string \<Rightarrow> 'v zval \<Rightarrow> zend_error + ('v HashTable \<times> zptr option)" where
  "zend_hash_str_update_ind ht str pData =
     zend_hash_str_add_or_update_i ht str (zend_inline_hash_func str) pData {HASH_UPDATE, HASH_UPDATE_INDIRECT}"

definition zend_hash_str_add_new :: "'v HashTable \<Rightarrow> string \<Rightarrow> 'v zval \<Rightarrow> zend_error + ('v HashTable \<times> zptr option)" where
  "zend_hash_str_add_new ht str pData =
     zend_hash_str_add_or_update_i ht str (zend_inline_hash_func str) pData {HASH_ADD_NEW}"

definition zend_hash_str_add_or_update ::
  "'v HashTable \<Rightarrow> string \<Rightarrow> 'v zval \<Rightarrow> hash_flag set \<Rightarrow> zend_error + ('v HashTable \<times> zptr option)" where
  "zend_hash_str_add_or_update ht str pData flag =
     (if flag = {HASH_ADD} then zend_hash_str_add ht str pData
      else if flag = {HASH_ADD_NEW} then zend_hash_str_add_new ht str pData
      else if flag = {HASH_UPDATE} then zend_hash_str_update ht str pData
      else zend_hash_str_update_ind ht str pData)"

text \<open>\<open>null\<close> is the value \<open>ZVAL_NULL\<close> makes.\<close>

definition zend_hash_index_add_empty_element :: "'v \<Rightarrow> 'v HashTable \<Rightarrow> zend_ulong \<Rightarrow> zend_error + ('v HashTable \<times> zptr option)" where
  "zend_hash_index_add_empty_element null ht h = zend_hash_index_add ht h (ZVAL null)"

definition zend_hash_add_empty_element :: "'v \<Rightarrow> 'v HashTable \<Rightarrow> zend_string \<Rightarrow> zend_error + ('v HashTable \<times> zptr option)" where
  "zend_hash_add_empty_element null ht key = zend_hash_add ht key (ZVAL null)"

definition zend_hash_str_add_empty_element :: "'v \<Rightarrow> 'v HashTable \<Rightarrow> string \<Rightarrow> zend_error + ('v HashTable \<times> zptr option)" where
  "zend_hash_str_add_empty_element null ht str = zend_hash_str_add ht str (ZVAL null)"

definition zend_hash_index_add_or_update ::
  "'v HashTable \<Rightarrow> zend_ulong \<Rightarrow> 'v zval \<Rightarrow> hash_flag set \<Rightarrow> zend_error + ('v HashTable \<times> zptr option)" where
  "zend_hash_index_add_or_update ht h pData flag =
     (if flag = {HASH_ADD} then zend_hash_index_add ht h pData
      else if flag = {HASH_ADD, HASH_ADD_NEW} then zend_hash_index_add_new ht h pData
      else if flag = {HASH_ADD, HASH_ADD_NEXT} then zend_hash_next_index_insert ht pData
      else if flag = {HASH_ADD, HASH_ADD_NEW, HASH_ADD_NEXT} then zend_hash_next_index_insert_new ht pData
      else zend_hash_index_update ht h pData)"

section \<open>Pairs, counting, discarding\<close>

definition zend_new_pair :: "'v HashTable \<Rightarrow> nat \<Rightarrow> 'v zval \<Rightarrow> 'v zval \<Rightarrow> zend_error + 'v HashTable" where
  "zend_new_pair eg a val1 val2 =
     (case zend_hash_init_int eg a HT_MIN_SIZE True of Inl e \<Rightarrow> Inl e | Inr ht \<Rightarrow>
        let ht1 = zend_hash_real_init_packed_ex (ht\<lparr>nNumUsed := 2, nNumOfElements := 2, nNextFreeElement := 2\<rparr>);
            ht2 = upd_bucket 0 (\<lambda>b. b\<lparr>b_val := val1, b_h := 0, b_key := None\<rparr>) ht1
        in Inr (upd_bucket 1 (\<lambda>b. b\<lparr>b_val := val2, b_h := 1, b_key := None\<rparr>) ht2))"

text \<open>Drop the buckets from \<open>n\<close> on; walking downwards, each is the head of its chain.\<close>

fun discard_down :: "nat \<Rightarrow> nat \<Rightarrow> 'v HashTable \<Rightarrow> 'v HashTable" where
  "discard_down n 0 ht = ht"
| "discard_down n (Suc p) ht =
     (if Suc p \<le> n then ht
      else if b_val (arData ht ! p) = IS_UNDEF then discard_down n p ht
      else discard_down n p
        (HT_HASH_set (nIndex (b_h (arData ht ! p)) (nTableMask ht)) (b_next (arData ht ! p))
          (ht\<lparr>nNumOfElements := nNumOfElements ht - 1\<rparr>)))"

definition zend_hash_discard :: "'v HashTable \<Rightarrow> nat \<Rightarrow> 'v HashTable" where
  "zend_hash_discard ht n = discard_down n (nNumUsed ht) (ht\<lparr>nNumUsed := n\<rparr>)"

definition empty_ind :: "'v HashTable \<Rightarrow> 'v zval \<Rightarrow> bool" where
  "empty_ind ht v = (case v of IS_INDIRECT s \<Rightarrow> ind_slots ht s = IS_UNDEF | _ \<Rightarrow> False)"

definition used_vals :: "'v HashTable \<Rightarrow> 'v zval list" where
  "used_vals ht = map b_val (take (nNumUsed ht) (arData ht))"

definition zend_array_recalc_elements :: "'v HashTable \<Rightarrow> nat" where
  "zend_array_recalc_elements ht =
     foldl (\<lambda>num v. if empty_ind ht v then num - 1 else num) (nNumOfElements ht) (used_vals ht)"

text \<open>\<open>symtab\<close> tells whether the table is the executor's symbol table.\<close>

definition zend_array_count :: "bool \<Rightarrow> 'v HashTable \<Rightarrow> 'v HashTable \<times> nat" where
  "zend_array_count symtab ht =
     (if flag_has_empty_ind ht then
        let num = zend_array_recalc_elements ht
        in (if nNumOfElements ht = num then ht\<lparr>flag_has_empty_ind := False\<rparr> else ht, num)
      else if symtab then (ht, zend_array_recalc_elements ht)
      else (ht, nNumOfElements ht))"

section \<open>External iterators\<close>

definition HT_ITERATORS_OVERFLOW :: "'v HashTable \<Rightarrow> bool" where
  "HT_ITERATORS_OVERFLOW ht \<longleftrightarrow> nIteratorsCount ht = 255"

definition inc_iterators :: "'v HashTable \<Rightarrow> 'v HashTable" where
  "inc_iterators ht = (if HT_ITERATORS_OVERFLOW ht then ht
     else ht\<lparr>nIteratorsCount := (nIteratorsCount ht + 1) mod 256\<rparr>)"

definition dec_iterators :: "'v HashTable \<Rightarrow> 'v HashTable" where
  "dec_iterators ht = (if HT_ITERATORS_OVERFLOW ht then ht
     else ht\<lparr>nIteratorsCount := (nIteratorsCount ht + 255) mod 256\<rparr>)"

fun first_free_iter :: "nat \<Rightarrow> HashTableIterator list \<Rightarrow> nat option" where
  "first_free_iter i [] = None"
| "first_free_iter i (it # its) = (if it_ht it = ITER_NULL then Some i else first_free_iter (Suc i) its)"

definition null_iter :: HashTableIterator where
  "null_iter = \<lparr>it_ht = ITER_NULL, it_pos = 0\<rparr>"

definition zend_hash_iterator_add :: "'v HashTable \<Rightarrow> nat \<Rightarrow> 'v HashTable \<times> nat" where
  "zend_hash_iterator_add ht pos =
     (let ht1 = inc_iterators ht; it = \<lparr>it_ht = ITER_HT (ht_addr ht), it_pos = pos\<rparr>
      in case first_free_iter 0 (ht_iterators ht1) of
           Some idx \<Rightarrow> (ht1\<lparr>ht_iterators := (ht_iterators ht1)[idx := it],
                            ht_iterators_used := max (ht_iterators_used ht1) (idx + 1)\<rparr>, idx)
         | None \<Rightarrow> let idx = length (ht_iterators ht1)
                   in (ht1\<lparr>ht_iterators := ht_iterators ht1 @ it # replicate 7 null_iter,
                           ht_iterators_used := idx + 1\<rparr>, idx))"

text \<open>
  The iterator \<open>idx\<close> is re-seated on the table \<open>ht\<close> when it belongs to another one. The
  other table is a separate object: what happens to its iterator count is the second
  result (\<open>Some a\<close>: the table at address \<open>a\<close> loses an iterator, unless its count has
  overflowed).
\<close>

definition zend_hash_iterator_pos :: "nat \<Rightarrow> 'v HashTable \<Rightarrow> 'v HashTable \<times> nat option \<times> nat" where
  "zend_hash_iterator_pos idx ht =
     (let it = ht_iterators ht ! idx
      in if it_ht it \<noteq> ITER_HT (ht_addr ht) then
           let left = (case it_ht it of ITER_HT a \<Rightarrow> Some a | _ \<Rightarrow> None);
               ht1 = inc_iterators ht;
               pos = next_used ht1 (nInternalPointer ht1)
           in (ht1\<lparr>ht_iterators := (ht_iterators ht1)[idx := \<lparr>it_ht = ITER_HT (ht_addr ht), it_pos = pos\<rparr>]\<rparr>, left, pos)
         else (ht, None, it_pos it))"

fun trim_iters :: "HashTableIterator list \<Rightarrow> nat \<Rightarrow> nat" where
  "trim_iters its 0 = 0"
| "trim_iters its (Suc i) = (if it_ht (its ! i) = ITER_NULL then trim_iters its i else Suc i)"

definition zend_hash_iterator_del :: "nat \<Rightarrow> 'v HashTable \<Rightarrow> 'v HashTable" where
  "zend_hash_iterator_del idx ht =
     (let it = ht_iterators ht ! idx;
          ht1 = (if it_ht it = ITER_HT (ht_addr ht) then dec_iterators ht else ht);
          its = (ht_iterators ht1)[idx := it\<lparr>it_ht := ITER_NULL\<rparr>];
          ht2 = ht1\<lparr>ht_iterators := its\<rparr>
      in if idx + 1 = ht_iterators_used ht2 then ht2\<lparr>ht_iterators_used := trim_iters its idx\<rparr> else ht2)"

section \<open>Changing the key of a bucket\<close>

text \<open>The place in a chain, ordered by decreasing index, after which bucket \<open>idx\<close> belongs.\<close>

fun insert_after :: "nat \<Rightarrow> 'v Bucket list \<Rightarrow> nat \<Rightarrow> nat \<Rightarrow> nat" where
  "insert_after 0 ar idx i = i"
| "insert_after (Suc n) ar idx i =
     (if b_next (ar ! i) \<noteq> HT_INVALID_IDX \<and> idx < b_next (ar ! i)
      then insert_after n ar idx (b_next (ar ! i)) else i)"

definition unlink_bucket :: "nat \<Rightarrow> 'v HashTable \<Rightarrow> 'v HashTable" where
  "unlink_bucket idx ht =
     (let b = arData ht ! idx; ni = nIndex (b_h b) (nTableMask ht); i = HT_HASH ht ni
      in if i = idx then HT_HASH_set ni (b_next b) ht
         else upd_bucket (find_prev (chain_fuel ht) (arData ht) idx i) (\<lambda>p. p\<lparr>b_next := b_next b\<rparr>) ht)"

definition relink_bucket :: "nat \<Rightarrow> zend_string \<Rightarrow> 'v HashTable \<Rightarrow> 'v HashTable" where
  "relink_bucket idx key ht =
     (let h = zend_string_hash_val key;
          ht1 = upd_bucket idx (\<lambda>b. b\<lparr>b_key := Some key, b_h := h\<rparr>) ht;
          ni = nIndex h (nTableMask ht1); i = HT_HASH ht1 ni
      in if i = HT_INVALID_IDX \<or> i < idx
         then HT_HASH_set ni idx (upd_bucket idx (\<lambda>b. b\<lparr>b_next := i\<rparr>) ht1)
         else let p = insert_after (chain_fuel ht1) (arData ht1) idx i;
                  ht2 = upd_bucket idx (\<lambda>b. b\<lparr>b_next := b_next (arData ht1 ! p)\<rparr>) ht1
              in upd_bucket p (\<lambda>b. b\<lparr>b_next := idx\<rparr>) ht2)"

definition zend_hash_set_bucket_key :: "'v HashTable \<Rightarrow> nat \<Rightarrow> zend_string \<Rightarrow> 'v HashTable \<times> zptr option" where
  "zend_hash_set_bucket_key ht b key =
     (case zend_hash_find_bucket ht key of
        Some p \<Rightarrow> (ht, if p = b then Some (PBucket p) else None)
      | None \<Rightarrow> (relink_bucket b key (unlink_bucket b (note_key key ht)), Some (PBucket b)))"

section \<open>Destruction and cleaning\<close>

text \<open>
  The loops over the used buckets differ in the release of the keys, which is reference
  counting. With holes, undefined buckets are skipped; without, every bucket is handed
  to the destructor untested.
\<close>

definition run_destructors :: "'v HashTable \<Rightarrow> 'v HashTable" where
  "run_destructors ht =
     (if pDestructor ht then
        ht\<lparr>dtor_log := dtor_log ht @ (if HT_IS_WITHOUT_HOLES ht then used_vals ht
                                      else filter (\<lambda>v. v \<noteq> IS_UNDEF) (used_vals ht))\<rparr>
      else ht)"

definition free_data :: "'v HashTable \<Rightarrow> 'v HashTable" where
  "free_data ht = ht\<lparr>arData := [], ht_hash := []\<rparr>"

definition zend_hash_destroy :: "'v HashTable \<Rightarrow> 'v HashTable" where
  "zend_hash_destroy ht =
     (if nNumUsed ht \<noteq> 0 then free_data (zend_hash_iterators_remove (run_destructors ht))
      else if flag_uninitialized ht then ht else free_data ht)"

text \<open>\<open>i_zval_ptr_dtor\<close> ignores undefined values, which the first loop does not test for.\<close>

definition zval_ptr_dtors :: "'v HashTable \<Rightarrow> 'v HashTable" where
  "zval_ptr_dtors ht =
     (if flag_packed ht \<or> flag_static_keys ht \<or> \<not> HT_IS_WITHOUT_HOLES ht
      then ht\<lparr>dtor_log := dtor_log ht @ filter (\<lambda>v. v \<noteq> IS_UNDEF) (used_vals ht)\<rparr>
      else ht\<lparr>dtor_log := dtor_log ht @ used_vals ht\<rparr>)"

definition zend_array_destroy :: "'v HashTable \<Rightarrow> 'v HashTable" where
  "zend_array_destroy ht = zend_hash_iterators_remove
     (if nNumUsed ht \<noteq> 0 then
        (if \<not> pDestructor ht then zend_hash_destroy ht else free_data (zval_ptr_dtors ht))
      else if flag_uninitialized ht then ht else free_data ht)"

definition zero_counts :: "'v HashTable \<Rightarrow> 'v HashTable" where
  "zero_counts ht = ht\<lparr>nNumUsed := 0, nNumOfElements := 0, nNextFreeElement := 0, nInternalPointer := 0\<rparr>"

definition zend_hash_clean :: "'v HashTable \<Rightarrow> 'v HashTable" where
  "zend_hash_clean ht = zero_counts
     (if nNumUsed ht \<noteq> 0 then
        let ht1 = run_destructors ht in if flag_packed ht1 then ht1 else HT_HASH_RESET ht1
      else ht)"

definition zend_symtable_clean :: "'v HashTable \<Rightarrow> 'v HashTable" where
  "zend_symtable_clean ht = zero_counts
     (if nNumUsed ht \<noteq> 0 then HT_HASH_RESET (zval_ptr_dtors ht) else ht)"

section \<open>Callbacks\<close>

text \<open>
  A callback receives the key and the value of a bucket and may replace the value; its
  integer result is a pair of bits (\<open>ZEND_HASH_APPLY_REMOVE\<close>, \<open>ZEND_HASH_APPLY_STOP\<close>).
  What it does outside the table is the state \<open>'s\<close>.
\<close>

type_synonym ('s, 'v) apply_func = "'s \<Rightarrow> hkey \<Rightarrow> 'v zval \<Rightarrow> 's \<times> 'v zval \<times> bool \<times> bool"

definition apply_one :: "('s, 'v) apply_func \<Rightarrow> 's \<Rightarrow> nat \<Rightarrow> 'v HashTable \<Rightarrow> 's \<times> 'v HashTable \<times> bool" where
  "apply_one f s idx ht =
     (let (s', v, remove, stop) = f s (bkey (arData ht ! idx)) (b_val (arData ht ! idx));
          ht1 = upd_bucket idx (\<lambda>b. b\<lparr>b_val := v\<rparr>) ht
      in (s', if remove then zend_hash_del_el ht1 idx else ht1, stop))"

lemma nNumUsed_del_el: "nNumUsed (zend_hash_del_el ht idx) \<le> nNumUsed ht"
proof -
  obtain prev where "zend_hash_del_el ht idx = zend_hash_del_el_ex ht idx prev"
    by (simp add: zend_hash_del_el_def Let_def)
  then obtain p its where "zend_hash_del_el ht idx = deleted ht idx prev p its"
    using del_el_ex_eq unfolding deleted_def by metis
  then show ?thesis using trim_used_le[of "arData ht" "nNumUsed ht - 1"] by (auto simp: used_after_del_def)
qed

lemma nNumUsed_upd_bucket [simp]: "nNumUsed (upd_bucket i f ht) = nNumUsed ht"
  by (simp add: upd_bucket_def)

lemma nNumUsed_apply_one: "apply_one f s idx ht = (s', ht', stop) \<Longrightarrow> nNumUsed ht' \<le> nNumUsed ht"
  using nNumUsed_del_el[of "upd_bucket idx g ht" idx for g]
  by (auto simp: apply_one_def Let_def split: prod.splits if_splits)

function apply_from :: "('s, 'v) apply_func \<Rightarrow> 's \<Rightarrow> nat \<Rightarrow> 'v HashTable \<Rightarrow> 's \<times> 'v HashTable" where
  "apply_from f s idx ht =
     (if idx < nNumUsed ht then
        if b_val (arData ht ! idx) = IS_UNDEF then apply_from f s (Suc idx) ht
        else case apply_one f s idx ht of (s', ht', stop) \<Rightarrow>
          if stop then (s', ht') else apply_from f s' (Suc idx) ht'
      else (s, ht))"
  by pat_completeness auto
termination
  by (relation "measure (\<lambda>(f, s, idx, ht). nNumUsed ht - idx)") (auto dest!: nNumUsed_apply_one[OF sym])

declare apply_from.simps [simp del]

definition zend_hash_apply_with_arguments :: "('s, 'v) apply_func \<Rightarrow> 's \<Rightarrow> 'v HashTable \<Rightarrow> 's \<times> 'v HashTable" where
  "zend_hash_apply_with_arguments f s ht = apply_from f s 0 ht"

definition zend_hash_apply ::
  "('s \<Rightarrow> 'v zval \<Rightarrow> 's \<times> 'v zval \<times> bool \<times> bool) \<Rightarrow> 's \<Rightarrow> 'v HashTable \<Rightarrow> 's \<times> 'v HashTable" where
  "zend_hash_apply f s ht = apply_from (\<lambda>s _. f s) s 0 ht"

definition zend_hash_apply_with_argument ::
  "('s \<Rightarrow> 'v zval \<Rightarrow> 'a \<Rightarrow> 's \<times> 'v zval \<times> bool \<times> bool) \<Rightarrow> 'a \<Rightarrow> 's \<Rightarrow> 'v HashTable \<Rightarrow> 's \<times> 'v HashTable" where
  "zend_hash_apply_with_argument f arg s ht = apply_from (\<lambda>s _ v. f s v arg) s 0 ht"

fun reverse_apply_from ::
  "('s \<Rightarrow> 'v zval \<Rightarrow> 's \<times> 'v zval \<times> bool \<times> bool) \<Rightarrow> 's \<Rightarrow> nat \<Rightarrow> 'v HashTable \<Rightarrow> 's \<times> 'v HashTable" where
  "reverse_apply_from f s 0 ht = (s, ht)"
| "reverse_apply_from f s (Suc idx) ht =
     (if b_val (arData ht ! idx) = IS_UNDEF then reverse_apply_from f s idx ht
      else case apply_one (\<lambda>s _. f s) s idx ht of (s', ht', stop) \<Rightarrow>
        if stop then (s', ht') else reverse_apply_from f s' idx ht')"

definition zend_hash_reverse_apply ::
  "('s \<Rightarrow> 'v zval \<Rightarrow> 's \<times> 'v zval \<times> bool \<times> bool) \<Rightarrow> 's \<Rightarrow> 'v HashTable \<Rightarrow> 's \<times> 'v HashTable" where
  "zend_hash_reverse_apply f s ht = reverse_apply_from f s (nNumUsed ht) ht"

text \<open>Graceful destruction deletes the elements one by one, so the table stays usable meanwhile.\<close>

function del_from :: "nat \<Rightarrow> 'v HashTable \<Rightarrow> 'v HashTable" where
  "del_from idx ht =
     (if idx < nNumUsed ht then
        if b_val (arData ht ! idx) = IS_UNDEF then del_from (Suc idx) ht
        else del_from (Suc idx) (zend_hash_del_el ht idx)
      else ht)"
  by pat_completeness auto
termination
proof (relation "measure (\<lambda>(idx, ht). nNumUsed ht - idx)")
  fix idx and ht :: "'v HashTable"
  assume "idx < nNumUsed ht" "b_val (arData ht ! idx) \<noteq> IS_UNDEF"
  then show "((Suc idx, zend_hash_del_el ht idx), idx, ht) \<in> measure (\<lambda>(idx, ht). nNumUsed ht - idx)"
    using nNumUsed_del_el[of ht idx] by auto
qed auto

declare del_from.simps [simp del]

definition zend_hash_graceful_destroy :: "'v HashTable \<Rightarrow> 'v HashTable" where
  "zend_hash_graceful_destroy ht =
     (let ht1 = del_from 0 ht in if flag_uninitialized ht1 then ht1 else free_data ht1)"

fun del_down :: "nat \<Rightarrow> 'v HashTable \<Rightarrow> 'v HashTable" where
  "del_down 0 ht = ht"
| "del_down (Suc idx) ht =
     (if b_val (arData ht ! idx) = IS_UNDEF then del_down idx ht else del_down idx (zend_hash_del_el ht idx))"

definition zend_hash_graceful_reverse_destroy :: "'v HashTable \<Rightarrow> 'v HashTable" where
  "zend_hash_graceful_reverse_destroy ht =
     (let ht1 = del_down (nNumUsed ht) ht in if flag_uninitialized ht1 then ht1 else free_data ht1)"

section \<open>Copy, duplication and merge\<close>

definition resolve_ind :: "'v HashTable \<Rightarrow> 'v zval \<Rightarrow> 'v zval" where
  "resolve_ind ht v = (case v of IS_INDIRECT s \<Rightarrow> ind_slots ht s | _ \<Rightarrow> v)"

text \<open>The copy constructor, when there is one, works on the stored entry.\<close>

definition run_copy_ctor :: "('v zval \<Rightarrow> 'v zval) option \<Rightarrow> zptr option \<Rightarrow> 'v HashTable \<Rightarrow> 'v HashTable" where
  "run_copy_ctor ctor p ht =
     (case (ctor, p) of (Some c, Some q) \<Rightarrow> write_zptr q (c (read_zptr ht q)) ht | _ \<Rightarrow> ht)"

fun copy_from :: "('v zval \<Rightarrow> 'v zval) option \<Rightarrow> 'v HashTable \<Rightarrow> nat list \<Rightarrow> 'v HashTable \<Rightarrow> zend_error + 'v HashTable" where
  "copy_from ctor source [] target = Inr target"
| "copy_from ctor source (idx # is) target =
     (let p = arData source ! idx; data = resolve_ind source (b_val p)
      in if b_val p = IS_UNDEF \<or> data = IS_UNDEF then copy_from ctor source is target
         else case (case b_key p of Some key \<Rightarrow> zend_hash_update target key data
                    | None \<Rightarrow> zend_hash_index_update target (b_h p) data) of
             Inl e \<Rightarrow> Inl e
           | Inr (target', new_entry) \<Rightarrow> copy_from ctor source is (run_copy_ctor ctor new_entry target'))"

definition zend_hash_copy ::
  "'v HashTable \<Rightarrow> 'v HashTable \<Rightarrow> ('v zval \<Rightarrow> 'v zval) option \<Rightarrow> zend_error + 'v HashTable" where
  "zend_hash_copy target source ctor = copy_from ctor source [0..<nNumUsed source] target"

text \<open>
  \<open>deref\<close> stands for the reference counting in the middle of \<open>zend_array_dup_element\<close>: a
  value that is a reference nobody else holds is replaced by the value it refers to.
\<close>

definition dup_data :: "'v HashTable \<Rightarrow> bool \<Rightarrow> bool \<Rightarrow> 'v zval \<Rightarrow> 'v zval option" where
  "dup_data source packed with_holes v =
     (if with_holes then
        let data = (if packed then v else resolve_ind source v)
        in if data = IS_UNDEF then None else Some data
      else if packed then Some v
      else case v of
          IS_INDIRECT s \<Rightarrow> if ind_slots source s = IS_UNDEF then None else Some (ind_slots source s)
        | _ \<Rightarrow> Some v)"

definition zend_array_dup_element ::
  "('v zval \<Rightarrow> 'v zval) \<Rightarrow> 'v HashTable \<Rightarrow> 'v HashTable \<Rightarrow> nat \<Rightarrow> nat \<Rightarrow> bool \<Rightarrow> bool \<Rightarrow> 'v HashTable option" where
  "zend_array_dup_element deref source target p q packed with_holes =
     (let b = arData source ! p
      in case dup_data source packed with_holes (b_val b) of
           None \<Rightarrow> None
         | Some data \<Rightarrow>
             let t1 = upd_bucket q (\<lambda>r. r\<lparr>b_val := deref data, b_h := b_h b,
                        b_key := (if packed then None else b_key b)\<rparr>) target
             in Some (if packed then t1 else link_bucket q t1))"

fun zend_array_dup_packed_elements ::
  "('v zval \<Rightarrow> 'v zval) \<Rightarrow> 'v HashTable \<Rightarrow> bool \<Rightarrow> nat list \<Rightarrow> 'v HashTable \<Rightarrow> 'v HashTable" where
  "zend_array_dup_packed_elements deref source with_holes [] target = target"
| "zend_array_dup_packed_elements deref source with_holes (p # ps) target =
     zend_array_dup_packed_elements deref source with_holes ps
       (case zend_array_dup_element deref source target p p True with_holes of
          Some t \<Rightarrow> t
        | None \<Rightarrow> if with_holes then upd_bucket p (\<lambda>b. b\<lparr>b_val := IS_UNDEF\<rparr>) target else target)"

text \<open>The inner loop of \<open>zend_array_dup_elements\<close>, entered at the first hole.\<close>

fun dup_after_hole ::
  "('v zval \<Rightarrow> 'v zval) \<Rightarrow> 'v HashTable \<Rightarrow> bool \<Rightarrow> nat list \<Rightarrow> nat \<Rightarrow> 'v HashTable \<Rightarrow> 'v HashTable \<times> nat" where
  "dup_after_hole deref source with_holes [] target_idx target = (target, target_idx)"
| "dup_after_hole deref source with_holes (idx # is) target_idx target =
     (case zend_array_dup_element deref source target idx target_idx False with_holes of
        Some t \<Rightarrow> dup_after_hole deref source with_holes is (target_idx + 1)
          (if nInternalPointer source = idx then t\<lparr>nInternalPointer := target_idx\<rparr> else t)
      | None \<Rightarrow> dup_after_hole deref source with_holes is target_idx target)"

fun zend_array_dup_elements ::
  "('v zval \<Rightarrow> 'v zval) \<Rightarrow> 'v HashTable \<Rightarrow> bool \<Rightarrow> nat list \<Rightarrow> nat \<Rightarrow> 'v HashTable \<Rightarrow> 'v HashTable \<times> nat" where
  "zend_array_dup_elements deref source with_holes [] end target = (target, end)"
| "zend_array_dup_elements deref source with_holes (idx # is) end target =
     (case zend_array_dup_element deref source target idx idx False with_holes of
        None \<Rightarrow> dup_after_hole deref source with_holes is idx target
      | Some t \<Rightarrow> zend_array_dup_elements deref source with_holes is end t)"

definition dup_header :: "nat \<Rightarrow> 'v HashTable \<Rightarrow> 'v HashTable" where
  "dup_header a source = source\<lparr>ht_addr := a, pDestructor := True, nIteratorsCount := 0\<rparr>"

definition zend_array_dup :: "('v zval \<Rightarrow> 'v zval) \<Rightarrow> bool \<Rightarrow> nat \<Rightarrow> 'v HashTable \<Rightarrow> 'v HashTable" where
  "zend_array_dup deref immutable a source =
     (let h = dup_header a source;
          pos = (if nInternalPointer source < nNumUsed source then nInternalPointer source else 0);
          fresh = replicate (nTableSize source) uninit_bucket
      in if nNumOfElements source = 0 then
           h\<lparr>flag_packed := False, flag_uninitialized := True, flag_static_keys := False,
             flag_has_empty_ind := False, nTableMask := HT_MIN_MASK, nNumUsed := 0, nNumOfElements := 0,
             nInternalPointer := 0, nTableSize := HT_MIN_SIZE, arData := [],
             ht_hash := [HT_INVALID_IDX, HT_INVALID_IDX]\<rparr>
         else if immutable then
           h\<lparr>arData := take (nNumUsed source) (arData source)
               @ replicate (nTableSize source - nNumUsed source) uninit_bucket\<rparr>
         else if flag_packed source then
           zend_array_dup_packed_elements deref source (\<not> HT_IS_WITHOUT_HOLES h) [0..<nNumUsed source]
             (HT_HASH_RESET_PACKED (h\<lparr>nTableMask := HT_MIN_MASK, nInternalPointer := pos, arData := fresh\<rparr>))
         else
           let (t, idx) = zend_array_dup_elements deref source (\<not> HT_IS_WITHOUT_HOLES source)
                 [0..<nNumUsed source] (nNumUsed source)
                 (HT_HASH_RESET (h\<lparr>nInternalPointer := pos, arData := fresh\<rparr>))
           in t\<lparr>nNumUsed := idx, nNumOfElements := idx\<rparr>)"

fun merge_from ::
  "('v zval \<Rightarrow> 'v zval) option \<Rightarrow> bool \<Rightarrow> 'v HashTable \<Rightarrow> nat list \<Rightarrow> 'v HashTable \<Rightarrow> zend_error + 'v HashTable" where
  "merge_from ctor overwrite source [] target = Inr target"
| "merge_from ctor overwrite source (idx # is) target =
     (let p = arData source ! idx; s = resolve_ind source (b_val p); f = (if overwrite then HASH_UPDATE else HASH_ADD)
      in if s = IS_UNDEF then merge_from ctor overwrite source is target
         else case (case b_key p of
                 Some key \<Rightarrow> zend_hash_add_or_update_i target key s {f, HASH_UPDATE_INDIRECT}
               | None \<Rightarrow> zend_hash_index_add_or_update_i target (b_h p) s {f}) of
             Inl e \<Rightarrow> Inl e
           | Inr (target', t) \<Rightarrow> merge_from ctor overwrite source is (run_copy_ctor ctor t target'))"

definition zend_hash_merge ::
  "'v HashTable \<Rightarrow> 'v HashTable \<Rightarrow> ('v zval \<Rightarrow> 'v zval) option \<Rightarrow> bool \<Rightarrow> zend_error + 'v HashTable" where
  "zend_hash_merge target source ctor overwrite =
     merge_from ctor overwrite source [0..<nNumUsed source] target"

text \<open>
  \<open>zend_hash_merge_ex\<close> asks a checker for each element. It stores with \<open>zend_hash_update\<close>
  whatever the kind of the key, so the source may hold string keys only: an integer key
  is a null pointer there, the third outcome below.
\<close>

datatype 'a outcome = Done 'a | Fails zend_error | NullDeref

fun merge_ex_from ::
  "('v zval \<Rightarrow> 'v zval) option \<Rightarrow> ('v HashTable \<Rightarrow> 'v zval \<Rightarrow> hkey \<Rightarrow> bool) \<Rightarrow> 'v HashTable \<Rightarrow> nat list
     \<Rightarrow> 'v HashTable \<Rightarrow> 'v HashTable outcome" where
  "merge_ex_from ctor chk source [] target = Done target"
| "merge_ex_from ctor chk source (idx # is) target =
     (let p = arData source ! idx
      in if b_val p = IS_UNDEF \<or> \<not> chk target (b_val p) (bkey p) then merge_ex_from ctor chk source is target
         else case b_key p of None \<Rightarrow> NullDeref
           | Some key \<Rightarrow> (case zend_hash_update target key (b_val p) of Inl e \<Rightarrow> Fails e
               | Inr (target', t) \<Rightarrow> merge_ex_from ctor chk source is (run_copy_ctor ctor t target')))"

definition zend_hash_merge_ex ::
  "'v HashTable \<Rightarrow> 'v HashTable \<Rightarrow> ('v zval \<Rightarrow> 'v zval) option \<Rightarrow> ('v HashTable \<Rightarrow> 'v zval \<Rightarrow> hkey \<Rightarrow> bool)
     \<Rightarrow> 'v HashTable outcome" where
  "zend_hash_merge_ex target source ctor chk = merge_ex_from ctor chk source [0..<nNumUsed source] target"

section \<open>Positions\<close>

text \<open>A position is a bucket index; \<open>nNumUsed\<close> is the position past the end.\<close>

definition zend_hash_get_valid_pos :: "'v HashTable \<Rightarrow> nat \<Rightarrow> nat" where
  "zend_hash_get_valid_pos ht pos = next_used ht pos"

definition zend_hash_get_current_pos :: "'v HashTable \<Rightarrow> nat" where
  "zend_hash_get_current_pos ht = zend_hash_get_valid_pos ht (nInternalPointer ht)"

definition zend_hash_internal_pointer_reset_ex :: "'v HashTable \<Rightarrow> nat" where
  "zend_hash_internal_pointer_reset_ex ht = zend_hash_get_valid_pos ht 0"

fun prev_used :: "'v HashTable \<Rightarrow> nat \<Rightarrow> nat option" where
  "prev_used ht 0 = None"
| "prev_used ht (Suc idx) = (if b_val (arData ht ! idx) \<noteq> IS_UNDEF then Some idx else prev_used ht idx)"

definition zend_hash_internal_pointer_end_ex :: "'v HashTable \<Rightarrow> nat" where
  "zend_hash_internal_pointer_end_ex ht =
     (case prev_used ht (nNumUsed ht) of Some idx \<Rightarrow> idx | None \<Rightarrow> nNumUsed ht)"

text \<open>The moves return the new position, or \<open>None\<close> for \<open>FAILURE\<close>.\<close>

definition zend_hash_move_forward_ex :: "'v HashTable \<Rightarrow> nat \<Rightarrow> nat option" where
  "zend_hash_move_forward_ex ht pos =
     (let idx = zend_hash_get_valid_pos ht pos
      in if idx < nNumUsed ht then Some (next_used ht (idx + 1)) else None)"

definition zend_hash_move_backwards_ex :: "'v HashTable \<Rightarrow> nat \<Rightarrow> nat option" where
  "zend_hash_move_backwards_ex ht pos =
     (if pos < nNumUsed ht
      then Some (case prev_used ht pos of Some idx \<Rightarrow> idx | None \<Rightarrow> nNumUsed ht) else None)"

datatype current_key = HASH_KEY_IS_STRING zend_string | HASH_KEY_IS_LONG zend_ulong | HASH_KEY_NON_EXISTENT

definition zend_hash_get_current_key_ex :: "'v HashTable \<Rightarrow> nat \<Rightarrow> current_key" where
  "zend_hash_get_current_key_ex ht pos =
     (let idx = zend_hash_get_valid_pos ht pos
      in if idx < nNumUsed ht then
           (case b_key (arData ht ! idx) of Some key \<Rightarrow> HASH_KEY_IS_STRING key
            | None \<Rightarrow> HASH_KEY_IS_LONG (b_h (arData ht ! idx)))
         else HASH_KEY_NON_EXISTENT)"

definition zend_hash_get_current_data_ex :: "'v HashTable \<Rightarrow> nat \<Rightarrow> zptr option" where
  "zend_hash_get_current_data_ex ht pos =
     (let idx = zend_hash_get_valid_pos ht pos
      in if idx < nNumUsed ht then Some (PBucket idx) else None)"

text \<open>The key as a value, and its type alone.\<close>

datatype key_zval = KEY_NULL | KEY_STRING zend_string | KEY_LONG zend_ulong

definition zend_hash_get_current_key_zval_ex :: "'v HashTable \<Rightarrow> nat \<Rightarrow> key_zval" where
  "zend_hash_get_current_key_zval_ex ht pos =
     (let idx = zend_hash_get_valid_pos ht pos
      in if nNumUsed ht \<le> idx then KEY_NULL
         else case b_key (arData ht ! idx) of Some key \<Rightarrow> KEY_STRING key | None \<Rightarrow> KEY_LONG (b_h (arData ht ! idx)))"

datatype key_type = TYPE_STRING | TYPE_LONG | TYPE_NON_EXISTENT

definition zend_hash_get_current_key_type_ex :: "'v HashTable \<Rightarrow> nat \<Rightarrow> key_type" where
  "zend_hash_get_current_key_type_ex ht pos =
     (let idx = zend_hash_get_valid_pos ht pos
      in if idx < nNumUsed ht then (case b_key (arData ht ! idx) of Some _ \<Rightarrow> TYPE_STRING | None \<Rightarrow> TYPE_LONG)
         else TYPE_NON_EXISTENT)"

text \<open>
  Re-seating an iterator on an array held by a variable: an array other variables share
  (\<open>shared\<close>: its reference count is above one) is duplicated first, to address \<open>a\<close>. The second
  result is the table whose iterator count is decremented; the test that guards the
  decrement looks at the array, not at that table.
\<close>

definition zend_hash_iterator_pos_ex ::
  "('v zval \<Rightarrow> 'v zval) \<Rightarrow> bool \<Rightarrow> bool \<Rightarrow> nat \<Rightarrow> nat \<Rightarrow> 'v HashTable \<Rightarrow> 'v HashTable \<times> nat option \<times> nat" where
  "zend_hash_iterator_pos_ex deref immutable shared a idx ht =
     (let it = ht_iterators ht ! idx
      in if it_ht it \<noteq> ITER_HT (ht_addr ht) then
           let left = (case it_ht it of ITER_HT b \<Rightarrow> if HT_ITERATORS_OVERFLOW ht then None else Some b | _ \<Rightarrow> None);
               ht1 = inc_iterators (if shared then zend_array_dup deref immutable a ht else ht);
               pos = next_used ht1 (nInternalPointer ht1)
           in (ht1\<lparr>ht_iterators := (ht_iterators ht1)[idx := \<lparr>it_ht = ITER_HT (ht_addr ht1), it_pos = pos\<rparr>]\<rparr>, left, pos)
         else (ht, None, it_pos it))"

text \<open>Lookups with the hash already computed, and in a table known not to be packed.\<close>

definition zend_hash_find_known_hash :: "'v HashTable \<Rightarrow> zend_string \<Rightarrow> zend_ulong \<Rightarrow> zptr option" where
  "zend_hash_find_known_hash ht key h =
     map_option PBucket (find_chain (chain_fuel ht) (str_key_matches (ZSTR_VAL key) h) (arData ht)
       (HT_HASH ht (nIndex h (nTableMask ht))))"

definition zend_hash_index_find_hash :: "'v HashTable \<Rightarrow> zend_ulong \<Rightarrow> zptr option" where
  "zend_hash_index_find_hash ht h = map_option PBucket (zend_hash_index_find_bucket ht h)"

section \<open>Sorting, comparison, extrema\<close>

definition zend_hash_bucket_swap :: "'v Bucket \<Rightarrow> 'v Bucket \<Rightarrow> 'v Bucket \<times> 'v Bucket" where
  "zend_hash_bucket_swap p q =
     (p\<lparr>b_val := b_val q, b_h := b_h q, b_key := b_key q\<rparr>, q\<lparr>b_val := b_val p, b_h := b_h p, b_key := b_key p\<rparr>)"

definition zend_hash_bucket_renum_swap :: "'v Bucket \<Rightarrow> 'v Bucket \<Rightarrow> 'v Bucket \<times> 'v Bucket" where
  "zend_hash_bucket_renum_swap p q = (p\<lparr>b_val := b_val q\<rparr>, q\<lparr>b_val := b_val p\<rparr>)"

definition zend_hash_bucket_packed_swap :: "'v Bucket \<Rightarrow> 'v Bucket \<Rightarrow> 'v Bucket \<times> 'v Bucket" where
  "zend_hash_bucket_packed_swap p q =
     (p\<lparr>b_val := b_val q, b_h := b_h q\<rparr>, q\<lparr>b_val := b_val p, b_h := b_h p\<rparr>)"

text \<open>Slide the defined buckets down over the holes.\<close>

fun close_holes :: "nat list \<Rightarrow> nat \<Rightarrow> 'v Bucket list \<Rightarrow> 'v Bucket list \<times> nat" where
  "close_holes [] i ar = (ar, i)"
| "close_holes (j # js) i ar =
     (if b_val (ar ! j) = IS_UNDEF then close_holes js i ar
      else close_holes js (i + 1) (if i \<noteq> j then ar[i := ar ! j] else ar))"

definition renumber_buckets :: "nat \<Rightarrow> 'v Bucket list \<Rightarrow> 'v Bucket list" where
  "renumber_buckets i ar =
     map (\<lambda>j. (ar ! j)\<lparr>b_h := of_nat j, b_key := None\<rparr>) [0..<i] @ drop i ar"

definition zend_hash_sort_ex ::
  "'v HashTable \<Rightarrow> (('v Bucket \<Rightarrow> 'v Bucket \<Rightarrow> 'v Bucket \<times> 'v Bucket) \<Rightarrow> 'v Bucket list \<Rightarrow> 'v Bucket list)
     \<Rightarrow> bool \<Rightarrow> 'v HashTable" where
  "zend_hash_sort_ex ht sortf renumber =
     (if \<not> nNumOfElements ht > 1 \<and> \<not> (renumber \<and> nNumOfElements ht > 0) then ht
      else
        let (ar, i) = (if HT_IS_WITHOUT_HOLES ht then (arData ht, nNumUsed ht)
                       else close_holes [0..<nNumUsed ht] 0 (arData ht));
            swp = (if renumber then zend_hash_bucket_renum_swap
                   else if flag_packed ht then zend_hash_bucket_packed_swap else zend_hash_bucket_swap);
            sorted = sortf swp (take i ar) @ drop i ar;
            ht1 = ht\<lparr>arData := (if renumber then renumber_buckets i sorted else sorted),
                     nNumUsed := i, nInternalPointer := 0,
                     nNextFreeElement := (if renumber then of_nat i else nNextFreeElement ht)\<rparr>
        in if flag_packed ht1 then (if renumber then ht1 else zend_hash_packed_to_hash ht1)
           else if renumber then zend_hash_to_packed ht1
           else zend_hash_rehash ht1)"

fun memcmp :: "string \<Rightarrow> string \<Rightarrow> int" where
  "memcmp (a # as) (b # bs) = (if a = b then memcmp as bs else of_char a - of_char b)"
| "memcmp _ _ = 0"

definition compare_keys :: "'v Bucket \<Rightarrow> 'v Bucket \<Rightarrow> int" where
  "compare_keys p1 p2 =
     (case (b_key p1, b_key p2) of
        (None, None) \<Rightarrow> if b_h p1 = b_h p2 then 0 else if b_h p2 < b_h p1 then 1 else - 1
      | (Some k1, Some k2) \<Rightarrow>
          if length (ZSTR_VAL k1) \<noteq> length (ZSTR_VAL k2)
          then (if length (ZSTR_VAL k2) < length (ZSTR_VAL k1) then 1 else - 1)
          else memcmp (ZSTR_VAL k1) (ZSTR_VAL k2)
      | (Some _, None) \<Rightarrow> 1
      | (None, Some _) \<Rightarrow> - 1)"

definition compare_data :: "('v zval \<Rightarrow> 'v zval \<Rightarrow> int) \<Rightarrow> 'v zval \<Rightarrow> 'v zval \<Rightarrow> int" where
  "compare_data compar d1 d2 =
     (if d1 = IS_UNDEF then (if d2 \<noteq> IS_UNDEF then - 1 else 0)
      else if d2 = IS_UNDEF then 1 else compar d1 d2)"

fun compare_from ::
  "('v zval \<Rightarrow> 'v zval \<Rightarrow> int) \<Rightarrow> bool \<Rightarrow> 'v HashTable \<Rightarrow> 'v HashTable \<Rightarrow> nat list \<Rightarrow> nat \<Rightarrow> int" where
  "compare_from compar ordered ht1 ht2 [] idx2 = 0"
| "compare_from compar ordered ht1 ht2 (idx1 # is) idx2 =
     (let p1 = arData ht1 ! idx1
      in if b_val p1 = IS_UNDEF then compare_from compar ordered ht1 ht2 is idx2
         else if ordered then
           let j = next_used ht2 idx2; p2 = arData ht2 ! j; c = compare_keys p1 p2
           in if c \<noteq> 0 then c
              else let r = compare_data compar (resolve_ind ht1 (b_val p1)) (resolve_ind ht2 (b_val p2))
                   in if r \<noteq> 0 then r else compare_from compar ordered ht1 ht2 is (j + 1)
         else
           case (case b_key p1 of None \<Rightarrow> zend_hash_index_find ht2 (b_h p1) | Some key \<Rightarrow> zend_hash_find ht2 key) of
             None \<Rightarrow> 1
           | Some q \<Rightarrow>
               let r = compare_data compar (resolve_ind ht1 (b_val p1)) (resolve_ind ht2 (read_zptr ht2 q))
               in if r \<noteq> 0 then r else compare_from compar ordered ht1 ht2 is idx2)"

definition zend_hash_compare_impl ::
  "'v HashTable \<Rightarrow> 'v HashTable \<Rightarrow> ('v zval \<Rightarrow> 'v zval \<Rightarrow> int) \<Rightarrow> bool \<Rightarrow> int" where
  "zend_hash_compare_impl ht1 ht2 compar ordered =
     (if nNumOfElements ht1 \<noteq> nNumOfElements ht2
      then (if nNumOfElements ht2 < nNumOfElements ht1 then 1 else - 1)
      else compare_from compar ordered ht1 ht2 [0..<nNumUsed ht1] 0)"

text \<open>\<open>compar\<close> compares the buckets \<open>res\<close> and \<open>p\<close>; \<open>flag\<close> asks for the maximum.\<close>

fun minmax_from :: "('v Bucket \<Rightarrow> 'v Bucket \<Rightarrow> int) \<Rightarrow> bool \<Rightarrow> 'v Bucket list \<Rightarrow> nat list \<Rightarrow> nat \<Rightarrow> nat" where
  "minmax_from compar flag ar [] res = res"
| "minmax_from compar flag ar (idx # is) res =
     (if b_val (ar ! idx) = IS_UNDEF then minmax_from compar flag ar is res
      else let c = compar (ar ! res) (ar ! idx)
           in minmax_from compar flag ar is (if (if flag then c < 0 else c > 0) then idx else res))"

definition zend_hash_minmax :: "'v HashTable \<Rightarrow> ('v Bucket \<Rightarrow> 'v Bucket \<Rightarrow> int) \<Rightarrow> bool \<Rightarrow> zptr option" where
  "zend_hash_minmax ht compar flag =
     (if nNumOfElements ht = 0 then None
      else let idx = next_used ht 0
           in if nNumUsed ht \<le> idx then None
              else Some (PBucket (minmax_from compar flag (arData ht) [idx..<nNumUsed ht] idx)))"

end
