(* ===== verification/ZendHashIter.thy ===== *)
theory ZendHashIter
  imports ZendHashOps
begin

text \<open>
  Walking an array: the internal-pointer functions enumerate the elements in order, the
  callbacks of \<open>zend_hash_apply\<close> work on the table as a fold with filter works on the list
  of elements, and the destruction routines hand every value to the destructor exactly
  once, in the order they promise.
\<close>

section \<open>Live positions from an index on\<close>

definition live_from :: "'v HashTable \<Rightarrow> nat \<Rightarrow> nat list" where
  "live_from ht i = filter (live (arData ht)) [i..<nNumUsed ht]"

definition elems_from :: "'v HashTable \<Rightarrow> nat \<Rightarrow> (hkey \<times> 'v zval) list" where
  "elems_from ht i = map (\<lambda>j. entry (arData ht ! j)) (live_from ht i)"

definition elems_below :: "'v HashTable \<Rightarrow> nat \<Rightarrow> (hkey \<times> 'v zval) list" where
  "elems_below ht i = map (\<lambda>j. entry (arData ht ! j)) (filter (\<lambda>j. j < i) (live_of ht))"

lemma live_from_0: "live_from ht 0 = live_of ht"
  by (simp add: live_from_def live_idx_def)

lemma elems_from_0: "elems_from ht 0 = elems ht" "elems_below ht 0 = []"
  by (simp_all add: elems_from_def elems_below_def elems_def live_from_0)

lemma live_from_filter: "live_from ht i = filter (\<lambda>j. i \<le> j) (live_of ht)"
proof (cases "i \<le> nNumUsed ht")
  case True
  then have "[0..<nNumUsed ht] = [0..<i] @ [i..<nNumUsed ht]" by (metis le0 le_add_diff_inverse upt_add_eq_append)
  moreover have "filter (\<lambda>j. i \<le> j) (filter P [0..<i]) = []" "filter (\<lambda>j. i \<le> j) (filter P [i..<n]) = filter P [i..<n]" for P n
    by (auto simp: filter_empty_conv intro!: filter_cong)
  ultimately show ?thesis by (simp add: live_from_def live_idx_def del: filter_filter)
next
  case False
  then show ?thesis by (auto simp: live_from_def live_idx_def filter_empty_conv)
qed

lemma live_of_split: "live_of ht = filter (\<lambda>j. j < i) (live_of ht) @ live_from ht i"
proof (cases "i \<le> nNumUsed ht")
  case True
  then have "[0..<nNumUsed ht] = [0..<i] @ [i..<nNumUsed ht]" by (metis le0 le_add_diff_inverse upt_add_eq_append)
  moreover have "filter (\<lambda>j. j < i) (filter P [i..<n]) = []" "filter (\<lambda>j. j < i) (filter P [0..<i]) = filter P [0..<i]" for P n
    by (auto simp: filter_empty_conv intro!: filter_cong)
  ultimately show ?thesis by (simp add: live_from_def live_idx_def del: filter_filter)
next
  case False
  then show ?thesis by (auto simp: live_from_def live_idx_def intro!: filter_cong)
qed

lemma elems_split: "elems ht = elems_below ht i @ elems_from ht i"
  unfolding elems_def elems_below_def elems_from_def map_append[symmetric] live_of_split[symmetric] ..

lemma live_from_step:
  "i < nNumUsed ht \<Longrightarrow> live_from ht i = (if b_val (arData ht ! i) = IS_UNDEF then [] else [i]) @ live_from ht (Suc i)"
  by (simp add: live_from_def upt_conv_Cons live_def)

lemma live_from_end: "nNumUsed ht \<le> i \<Longrightarrow> live_from ht i = []"
  by (simp add: live_from_def)

lemma next_used_live:
  "next_used ht i = (case live_from ht i of [] \<Rightarrow> max i (nNumUsed ht) | j # _ \<Rightarrow> j)"
proof (induction ht i rule: next_used.induct)
  case (1 ht i)
  show ?case
  proof (cases "i < nNumUsed ht")
    case True
    show ?thesis using 1 True live_from_step[OF True] by (subst next_used.simps) (auto split: list.split)
  next
    case False
    then show ?thesis by (subst next_used.simps) (simp add: live_from_end)
  qed
qed

lemma live_from_Cons:
  assumes "live_from ht i = j # js"
  shows "i \<le> j" "j < nNumUsed ht" "b_val (arData ht ! j) \<noteq> IS_UNDEF" "live_from ht (Suc j) = js" "live_from ht j = j # js"
proof -
  have j: "j \<in> set (live_from ht i)" using assms by simp
  then show ij: "i \<le> j" "j < nNumUsed ht" "b_val (arData ht ! j) \<noteq> IS_UNDEF" by (auto simp: live_from_def live_def)
  then have sp: "live_from ht i = filter (live (arData ht)) [i..<j] @ live_from ht j"
    unfolding live_from_def filter_append[symmetric] by (metis le_add_diff_inverse less_imp_le upt_add_eq_append)
  have lj: "live_from ht j = j # live_from ht (Suc j)" using live_from_step[OF ij(2)] ij(3) by simp
  have "filter (live (arData ht)) [i..<j] = []"
  proof (rule ccontr)
    assume "filter (live (arData ht)) [i..<j] \<noteq> []"
    then obtain a as where a: "filter (live (arData ht)) [i..<j] = a # as" by (cases "filter (live (arData ht)) [i..<j]") auto
    then have "a \<in> set (filter (live (arData ht)) [i..<j])" by simp
    then have "a < j" by simp
    then show False using sp a assms by simp
  qed
  then show "live_from ht (Suc j) = js" "live_from ht j = j # js" using sp lj assms by simp_all
qed

section \<open>Positions\<close>

text \<open>The position after \<open>n\<close> successful moves.\<close>

fun moves :: "('v HashTable \<Rightarrow> nat \<Rightarrow> nat option) \<Rightarrow> nat \<Rightarrow> 'v HashTable \<Rightarrow> nat \<Rightarrow> nat option" where
  "moves move 0 ht pos = Some pos"
| "moves move (Suc n) ht pos = (case move ht pos of None \<Rightarrow> None | Some p \<Rightarrow> moves move n ht p)"

definition pos_of :: "'v HashTable \<Rightarrow> nat list \<Rightarrow> nat" where
  "pos_of ht js = (case js of [] \<Rightarrow> nNumUsed ht | j # _ \<Rightarrow> j)"

lemma valid_pos: "pos \<le> nNumUsed ht \<Longrightarrow> zend_hash_get_valid_pos ht pos = pos_of ht (live_from ht pos)"
  by (auto simp: zend_hash_get_valid_pos_def next_used_live pos_of_def max_def split: list.split)

lemma live_from_pos_of: "live_from ht i = js \<Longrightarrow> live_from ht (pos_of ht js) = js \<and> pos_of ht js \<le> nNumUsed ht"
proof (cases js)
  case (Cons j ks)
  assume "live_from ht i = js"
  then show ?thesis using live_from_Cons(2,5)[of ht i j ks] Cons by (simp add: pos_of_def)
qed (simp add: pos_of_def live_from_end)

lemma forward_step:
  assumes "live_from ht pos = js" "pos \<le> nNumUsed ht"
  shows "zend_hash_move_forward_ex ht pos = (case js of [] \<Rightarrow> None | j # ks \<Rightarrow> Some (pos_of ht ks))"
proof (cases js)
  case Nil
  then show ?thesis using assms valid_pos[OF assms(2)] by (simp add: zend_hash_move_forward_ex_def pos_of_def)
next
  case (Cons j ks)
  note l = live_from_Cons[OF assms(1)[unfolded Cons]]
  have "next_used ht (j + 1) = pos_of ht ks"
    using l(2,4) by (auto simp: next_used_live pos_of_def max_def split: list.split)
  then show ?thesis using assms Cons valid_pos[OF assms(2)] l(2)
    by (simp add: zend_hash_move_forward_ex_def pos_of_def)
qed

lemma forward_moves:
  "live_from ht pos = js \<Longrightarrow> pos \<le> nNumUsed ht \<Longrightarrow> n \<le> length js \<Longrightarrow>
     moves zend_hash_move_forward_ex n ht (pos_of ht js) = Some (pos_of ht (drop n js))"
proof (induction n arbitrary: pos js)
  case (Suc n)
  then obtain j ks where js: "js = j # ks" by (cases js) auto
  have p: "live_from ht (pos_of ht js) = js" "pos_of ht js \<le> nNumUsed ht" using live_from_pos_of[OF Suc.prems(1)] by auto
  have k: "live_from ht (Suc j) = ks" "j < nNumUsed ht" using live_from_Cons[OF Suc.prems(1)[unfolded js]] by auto
  show ?case using forward_step[OF p] Suc.IH[OF k(1)] k(2) Suc.prems(3) js by simp
qed simp

lemma prev_used_live: "n \<le> nNumUsed ht \<Longrightarrow> prev_used ht n =
    (if live_idx (arData ht) n = [] then None else Some (last (live_idx (arData ht) n)))"
proof (induction n)
  case (Suc n)
  have "live_idx (arData ht) (Suc n) = live_idx (arData ht) n @ (if b_val (arData ht ! n) = IS_UNDEF then [] else [n])"
    by (simp add: live_idx_def live_def)
  then show ?case using Suc by simp
qed (simp add: live_idx_def)

lemma live_split:
  assumes "j \<in> set (live_of ht)"
  shows "live_of ht = live_idx (arData ht) j @ j # live_from ht (Suc j)"
proof -
  have j: "j < nNumUsed ht" "live (arData ht) j" using assms by (auto simp: live_idx_def)
  then have "[0..<nNumUsed ht] = [0..<j] @ j # [Suc j..<nNumUsed ht]"
    by (metis le0 le_add_diff_inverse less_imp_le upt_add_eq_append upt_conv_Cons)
  then show ?thesis using j(2) by (simp add: live_idx_def live_from_def)
qed

lemma live_idx_nth_prefix:
  assumes "k < length (live_of ht)" "live_of ht ! k = j"
  shows "live_idx (arData ht) j = take k (live_of ht)" "j < nNumUsed ht"
proof -
  have m: "j \<in> set (live_of ht)" using assms nth_mem by blast
  then show "j < nNumUsed ht" by (simp add: live_idx_set)
  note sp = live_split[OF m]
  define n where "n = length (live_idx (arData ht) j)"
  have "live_of ht ! n = j" "n < length (live_of ht)"
    using arg_cong[OF sp, of "\<lambda>xs. xs ! n"] arg_cong[OF sp, of length] by (simp_all add: n_def)
  then have "k = n" using assms nth_eq_iff_index_eq[OF live_idx_distinct, of k "arData ht" "nNumUsed ht" n] by simp
  then show "live_idx (arData ht) j = take k (live_of ht)" using arg_cong[OF sp, of "take k"] by (simp add: n_def)
qed

text \<open>The \<open>k\<close>-th position counted from the front, past the end for \<open>k = length (elems ht)\<close>.\<close>

definition nth_pos :: "'v HashTable \<Rightarrow> nat \<Rightarrow> nat" where
  "nth_pos ht k = pos_of ht (drop k (live_of ht))"

lemma nth_pos_live: "k < length (live_of ht) \<Longrightarrow> nth_pos ht k = live_of ht ! k"
  by (simp add: nth_pos_def pos_of_def Cons_nth_drop_Suc[symmetric])

lemma backward_step:
  assumes "k < length (live_of ht)"
  shows "zend_hash_move_backwards_ex ht (nth_pos ht k)
     = Some (if k = 0 then nNumUsed ht else nth_pos ht (k - 1))"
proof -
  note l = live_idx_nth_prefix[OF assms refl]
  have "last (take k (live_of ht)) = live_of ht ! (k - 1)" if k0: "k \<noteq> 0"
  proof -
    obtain m where "k = Suc m" using not0_implies_Suc[OF k0] by blast
    then show ?thesis using assms by (simp add: take_Suc_conv_app_nth)
  qed
  moreover have "live_of ht \<noteq> []" using assms by auto
  ultimately show ?thesis using l assms
    by (simp add: zend_hash_move_backwards_ex_def nth_pos_live prev_used_live less_imp_le take_eq_Nil)
qed

lemma backward_moves:
  "n \<le> k \<Longrightarrow> k < length (live_of ht) \<Longrightarrow> moves zend_hash_move_backwards_ex n ht (nth_pos ht k) = Some (nth_pos ht (k - n))"
proof (induction n arbitrary: k)
  case (Suc n)
  have "moves zend_hash_move_backwards_ex n ht (nth_pos ht (k - 1)) = Some (nth_pos ht (k - 1 - n))"
    using Suc.prems by (intro Suc.IH) auto
  then show ?case using backward_step[OF Suc.prems(2)] Suc.prems by simp
qed simp

lemma length_elems: "length (elems ht) = length (live_of ht)"
  by (simp add: elems_def)

lemma elems_nth: "k < length (live_of ht) \<Longrightarrow> elems ht ! k = entry (arData ht ! nth_pos ht k)"
  by (simp add: elems_def nth_pos_live)

lemma pos_last: "zend_hash_internal_pointer_end_ex ht =
    (if live_of ht = [] then nNumUsed ht else nth_pos ht (length (live_of ht) - 1))"
  by (simp add: zend_hash_internal_pointer_end_ex_def prev_used_live nth_pos_live last_conv_nth)

text \<open>What the key function reports for a bucket.\<close>

definition key_report :: "'v Bucket \<Rightarrow> current_key" where
  "key_report b = (case b_key b of Some key \<Rightarrow> HASH_KEY_IS_STRING key | None \<Rightarrow> HASH_KEY_IS_LONG (b_h b))"

lemma current_at:
  assumes "k < length (live_of ht)"
  shows "zend_hash_get_current_key_ex ht (nth_pos ht k) = key_report (arData ht ! nth_pos ht k)"
    "zend_hash_get_current_data_ex ht (nth_pos ht k) = Some (PBucket (nth_pos ht k))"
    "zend_hash_get_current_key_zval_ex ht (nth_pos ht k) = (case key_report (arData ht ! nth_pos ht k) of
       HASH_KEY_IS_STRING key \<Rightarrow> KEY_STRING key | HASH_KEY_IS_LONG h \<Rightarrow> KEY_LONG h | HASH_KEY_NON_EXISTENT \<Rightarrow> KEY_NULL)"
    "zend_hash_get_current_key_type_ex ht (nth_pos ht k) = (case bkey (arData ht ! nth_pos ht k) of Inr _ \<Rightarrow> TYPE_STRING | Inl _ \<Rightarrow> TYPE_LONG)"
proof -
  have m: "nth_pos ht k \<in> set (live_of ht)" using assms by (simp add: nth_pos_live)
  then have l: "nth_pos ht k < nNumUsed ht" by (simp add: live_idx_set)
  have "next_used ht (nth_pos ht k) = nth_pos ht k"
    using m by (subst next_used.simps) (simp add: live_idx_set)
  with l show "zend_hash_get_current_key_ex ht (nth_pos ht k) = key_report (arData ht ! nth_pos ht k)"
    "zend_hash_get_current_data_ex ht (nth_pos ht k) = Some (PBucket (nth_pos ht k))"
    "zend_hash_get_current_key_zval_ex ht (nth_pos ht k) = (case key_report (arData ht ! nth_pos ht k) of
       HASH_KEY_IS_STRING key \<Rightarrow> KEY_STRING key | HASH_KEY_IS_LONG h \<Rightarrow> KEY_LONG h | HASH_KEY_NON_EXISTENT \<Rightarrow> KEY_NULL)"
    "zend_hash_get_current_key_type_ex ht (nth_pos ht k) = (case bkey (arData ht ! nth_pos ht k) of Inr _ \<Rightarrow> TYPE_STRING | Inl _ \<Rightarrow> TYPE_LONG)"
    by (simp_all add: zend_hash_get_current_key_ex_def zend_hash_get_current_data_ex_def key_report_def
        zend_hash_get_valid_pos_def zend_hash_get_current_key_zval_ex_def zend_hash_get_current_key_type_ex_def bkey_def
        Let_def split: option.split)
qed

section \<open>Callbacks\<close>

text \<open>What running a callback over an array means on the list of its elements.\<close>

fun apply_elems :: "('s, 'v) apply_func \<Rightarrow> 's \<Rightarrow> (hkey \<times> 'v zval) list \<Rightarrow> 's \<times> (hkey \<times> 'v zval) list" where
  "apply_elems f s [] = (s, [])"
| "apply_elems f s ((k, v) # xs) =
     (case f s k v of (s', v', remove, stop) \<Rightarrow>
        let kept = (if remove then [] else [(k, v')])
        in if stop then (s', kept @ xs)
           else case apply_elems f s' xs of (s'', ys) \<Rightarrow> (s'', kept @ ys))"

lemma ht_inv_data: "ht_inv ht \<Longrightarrow> i \<in> set (live_of ht) \<Longrightarrow> data_inv ht"
  by (auto simp: ht_inv_def uninit_inv_def packed_inv_def mixed_inv_def live_idx_set split: if_splits)

lemma live_of_write:
  assumes "proper v" "i \<in> set (live_of ht)"
  shows "live_of (upd_bucket i (\<lambda>b. b\<lparr>b_val := v\<rparr>) ht) = live_of ht"
  using assms unfolding live_idx_def
  by (auto simp: live_def upd_bucket_def nth_update_cases proper_def split: if_splits intro!: filter_cong)

lemma write_step:
  assumes "ht_inv ht" "i \<in> set (live_of ht)" "proper v"
  defines "ht' \<equiv> upd_bucket i (\<lambda>b. b\<lparr>b_val := v\<rparr>) ht"
  shows "ht_inv ht'" "live_of ht' = live_of ht" "entry (arData ht' ! i) = (bkey (arData ht ! i), v)"
    "j \<noteq> i \<Longrightarrow> arData ht' ! j = arData ht ! j" "pDestructor ht' = pDestructor ht" "dtor_log ht' = dtor_log ht"
proof -
  note d = ht_inv_data[OF assms(1,2)]
  have i: "i < length (arData ht)" using assms(2) data_invD(2,3)[OF d] by (auto simp: live_idx_set)
  have "\<not> flag_uninitialized ht" using assms(1,2) by (auto simp: ht_inv_def uninit_inv_def live_idx_set)
  then show "ht_inv ht'" using assms(1) write_inv(2,3)[OF assms(2,3) d]
    by (auto simp: ht_inv_def ht'_def upd_bucket_def split: if_splits)
  show "live_of ht' = live_of ht" unfolding ht'_def by (rule live_of_write[OF assms(3,2)])
  show "entry (arData ht' ! i) = (bkey (arData ht ! i), v)" using i by (simp add: ht'_def upd_bucket_def entry_def)
qed (auto simp: ht'_def upd_bucket_def)

lemma del_el_step:
  assumes "ht_inv ht" "i \<in> set (live_of ht)"
  defines "ht' \<equiv> zend_hash_del_el ht i"
  shows "ht_inv ht'" "live_of ht' = filter (\<lambda>j. j \<noteq> i) (live_of ht)"
    "j \<noteq> i \<Longrightarrow> entry (arData ht' ! j) = entry (arData ht ! j)" "pDestructor ht' = pDestructor ht"
    "dtor_log ht' = dtor_log ht @ (if pDestructor ht then [b_val (arData ht ! i)] else [])"
    "b_val (arData ht' ! j) = (if j = i then IS_UNDEF else b_val (arData ht ! j))"
proof -
  note d = ht_inv_data[OF assms(1,2)]
  have i: "i < length (arData ht)" "i < nNumUsed ht" using assms(2) data_invD(2,3)[OF d] by (auto simp: live_idx_set)
  obtain prev where "ht' = zend_hash_del_el_ex ht i prev" unfolding ht'_def by (simp add: zend_hash_del_el_def Let_def)
  then obtain p its where e: "ht' = deleted ht i prev p its" using del_el_ex_eq unfolding deleted_def by metis
  show "ht_inv ht'" using del_el_spec[OF assms(1,2)] by (simp add: del_spec_def ht'_def)
  show "live_of ht' = filter (\<lambda>j. j \<noteq> i) (live_of ht)" unfolding e by (rule deleted_live[OF i(2,1)])
  show "j \<noteq> i \<Longrightarrow> entry (arData ht' ! j) = entry (arData ht ! j)" unfolding e by (rule deleted_entry(2)[OF i(1)])
  show "pDestructor ht' = pDestructor ht"
    "dtor_log ht' = dtor_log ht @ (if pDestructor ht then [b_val (arData ht ! i)] else [])" unfolding e by simp_all
  show "b_val (arData ht' ! j) = (if j = i then IS_UNDEF else b_val (arData ht ! j))"
    unfolding e by (rule deleted_data(1)[OF i(1)])
qed

text \<open>The table after a callback at position \<open>i\<close>: \<open>kept\<close> is what remains of that element.\<close>

definition kept_at :: "'v HashTable \<Rightarrow> nat \<Rightarrow> (hkey \<times> 'v zval) list \<Rightarrow> 'v HashTable \<Rightarrow> bool" where
  "kept_at ht i kept ht' \<longleftrightarrow> ht_inv ht' \<and> elems_below ht' i = elems_below ht i
     \<and> elems_from ht' i = kept @ elems_from ht (Suc i) \<and> elems_from ht' (Suc i) = elems_from ht (Suc i)
     \<and> (\<forall>j. j \<noteq> i \<longrightarrow> b_val (arData ht' ! j) = b_val (arData ht ! j))
     \<and> (\<forall>j \<in> set (live_of ht). j \<noteq> i \<longrightarrow> j \<in> set (live_of ht'))"

lemma elems_from_live:
  assumes "i \<in> set (live_of ht)"
  shows "elems_from ht i = entry (arData ht ! i) # elems_from ht (Suc i)"
  using assms live_from_step[of i ht] by (simp add: elems_from_def live_idx_set)

lemma elems_from_undef: "i < nNumUsed ht \<Longrightarrow> b_val (arData ht ! i) = IS_UNDEF \<Longrightarrow> elems_from ht (Suc i) = elems_from ht i"
  using live_from_step[of i ht] by (simp add: elems_from_def)

lemma elems_below_Suc:
  "elems_from ht i = xs @ elems_from ht (Suc i) \<Longrightarrow> elems_below ht (Suc i) = elems_below ht i @ xs"
  using elems_split[of ht i] elems_split[of ht "Suc i"] by simp

lemma kept_at_below: "kept_at ht i kept ht' \<Longrightarrow> elems_below ht' (Suc i) = elems_below ht i @ kept"
  using elems_below_Suc[of ht' i kept] by (simp add: kept_at_def)

lemma kept_write:
  assumes "ht_inv ht" "i \<in> set (live_of ht)" "proper v"
  shows "kept_at ht i [(bkey (arData ht ! i), v)] (upd_bucket i (\<lambda>b. b\<lparr>b_val := v\<rparr>) ht)"
proof -
  let ?ht = "upd_bucket i (\<lambda>b. b\<lparr>b_val := v\<rparr>) ht"
  note w = write_step[OF assms]
  have s: "elems_from ?ht (Suc i) = elems_from ht (Suc i)"
    unfolding elems_from_def live_from_filter w(2) by (intro map_cong refl) (auto simp: w(4))
  have "elems_from ?ht i = (bkey (arData ht ! i), v) # elems_from ht (Suc i)"
    using elems_from_live[of i ?ht] assms(2) w(2,3) s by simp
  moreover have "elems_below ?ht i = elems_below ht i"
    unfolding elems_below_def w(2) by (intro map_cong refl) (auto simp: w(4))
  ultimately show ?thesis using w(1,2,4) s by (simp add: kept_at_def)
qed

lemma kept_del:
  assumes "ht_inv ht" "i \<in> set (live_of ht)"
  shows "kept_at ht i [] (zend_hash_del_el ht i)"
proof -
  let ?ht = "zend_hash_del_el ht i"
  note w = del_el_step[OF assms]
  have f: "filter P (filter (\<lambda>j. j \<noteq> i) xs) = filter P xs" if "\<not> P i" for P xs
    using that by (induction xs) auto
  have f1: "filter (\<lambda>j. Suc i \<le> j) (filter (\<lambda>j. j \<noteq> i) xs) = filter (\<lambda>j. Suc i \<le> j) xs"
    and f2: "filter (\<lambda>j. j < i) (filter (\<lambda>j. j \<noteq> i) xs) = filter (\<lambda>j. j < i) xs" for xs
    by (rule f; simp)+
  have g: "filter (\<lambda>j. i \<le> j) (filter (\<lambda>j. j \<noteq> i) xs) = filter (\<lambda>j. Suc i \<le> j) xs" for xs
    by (induction xs) auto
  have s: "elems_from ?ht (Suc i) = elems_from ht (Suc i)"
    unfolding elems_from_def live_from_filter w(2) f1
    by (intro map_cong refl) (auto simp: w(3))
  have "elems_from ?ht i = elems_from ht (Suc i)"
    unfolding elems_from_def live_from_filter w(2) g by (intro map_cong refl) (auto simp: w(3))
  moreover have "elems_below ?ht i = elems_below ht i"
    unfolding elems_below_def w(2) f2 by (intro map_cong refl) (auto simp: w(3))
  ultimately show ?thesis using w(1,2,6) s by (simp add: kept_at_def)
qed

text \<open>A callback that never stores an undefined value.\<close>

definition proper_callback :: "('s, 'v) apply_func \<Rightarrow> bool" where
  "proper_callback f \<longleftrightarrow> (\<forall>s k v. proper v \<longrightarrow> proper (fst (snd (f s k v))))"

lemma ht_inv_proper: "ht_inv ht \<Longrightarrow> i \<in> set (live_of ht) \<Longrightarrow> proper (b_val (arData ht ! i))"
  using data_invD(6)[OF ht_inv_data, of ht i] by (auto simp: proper_def live_idx_set)

lemma apply_one_step:
  assumes "ht_inv ht" "i \<in> set (live_of ht)" "proper_callback f"
    "f s (bkey (arData ht ! i)) (b_val (arData ht ! i)) = (s', v, remove, stop)"
  shows "\<exists>ht'. apply_one f s i ht = (s', ht', stop) \<and> kept_at ht i (if remove then [] else [(bkey (arData ht ! i), v)]) ht'"
proof -
  have v: "proper v" using assms(3,4) ht_inv_proper[OF assms(1,2)] unfolding proper_callback_def
    by (metis fst_conv snd_conv)
  let ?ht = "upd_bucket i (\<lambda>b. b\<lparr>b_val := v\<rparr>) ht"
  have k: "kept_at ht i [(bkey (arData ht ! i), v)] ?ht" by (rule kept_write[OF assms(1,2) v])
  have i: "i \<in> set (live_of ?ht)" using write_step(2)[OF assms(1,2) v] assms(2) by simp
  have "kept_at ?ht i [] (zend_hash_del_el ?ht i)" using k i by (intro kept_del) (simp_all add: kept_at_def)
  then have "kept_at ht i [] (zend_hash_del_el ?ht i)" using k by (simp add: kept_at_def)
  then show ?thesis using k assms(4) by (simp add: apply_one_def)
qed

lemma entry_live: "entry (arData ht ! i) = (bkey (arData ht ! i), b_val (arData ht ! i))"
  by (simp add: entry_def)

lemma apply_from_refines:
  "proper_callback f \<Longrightarrow> ht_inv ht \<Longrightarrow> \<exists>ht'. apply_from f s i ht = (fst (apply_elems f s (elems_from ht i)), ht')
    \<and> ht_inv ht' \<and> elems ht' = elems_below ht i @ snd (apply_elems f s (elems_from ht i))"
proof (induction f s i ht rule: apply_from.induct[case_names step])
  case (step f s i ht)
  consider (past) "\<not> i < nNumUsed ht" | (hole) "i < nNumUsed ht" "b_val (arData ht ! i) = IS_UNDEF"
    | (live) "i < nNumUsed ht" "b_val (arData ht ! i) \<noteq> IS_UNDEF" by blast
  then show ?case
  proof cases
    case past
    then have "elems_from ht i = []" by (simp add: elems_from_def live_from_end)
    then show ?thesis using past step.prems elems_split[of ht i] by (subst apply_from.simps) simp
  next
    case hole
    then show ?thesis using step.IH(1)[OF hole step.prems] elems_from_undef[OF hole] elems_below_Suc[of ht i "[]"]
      by (subst apply_from.simps) simp
  next
    case live
    then have i: "i \<in> set (live_of ht)" by (simp add: live_idx_set)
    obtain s' v remove stop where f: "f s (bkey (arData ht ! i)) (b_val (arData ht ! i)) = (s', v, remove, stop)"
      by (metis prod_cases4)
    let ?kept = "if remove then [] else [(bkey (arData ht ! i), v)]"
    obtain ht1 where a: "apply_one f s i ht = (s', ht1, stop)" and k: "kept_at ht i ?kept ht1"
      using apply_one_step[OF step.prems(2) i step.prems(1) f] by blast
    have e: "elems_from ht i = (bkey (arData ht ! i), b_val (arData ht ! i)) # elems_from ht (Suc i)"
      using elems_from_live[OF i] by (simp add: entry_def)
    have k': "ht_inv ht1" "elems ht1 = elems_below ht i @ ?kept @ elems_from ht (Suc i)"
      "elems_from ht1 (Suc i) = elems_from ht (Suc i)" "elems_below ht1 (Suc i) = elems_below ht i @ ?kept"
      using k kept_at_below[OF k] elems_split[of ht1 i] by (simp_all add: kept_at_def)
    show ?thesis
    proof (cases stop)
      case True
      then show ?thesis using live a k'(1,2) f unfolding e by (subst apply_from.simps) simp
    next
      case False
      have "\<exists>ht'. apply_from f s' (Suc i) ht1 = (fst (apply_elems f s' (elems_from ht1 (Suc i))), ht') \<and> ht_inv ht'
        \<and> elems ht' = elems_below ht1 (Suc i) @ snd (apply_elems f s' (elems_from ht1 (Suc i)))"
        by (rule step.IH(2)[OF live a[symmetric] refl False step.prems(1) k'(1)])
      then show ?thesis using live a f False unfolding e k'(3,4)
        by (subst apply_from.simps) (auto split: prod.splits)
    qed
  qed
qed

text \<open>Downward walks: buckets above a trimmed \<open>nNumUsed\<close> read as undefined and are skipped.\<close>

definition tail_undef :: "nat \<Rightarrow> 'v HashTable \<Rightarrow> bool" where
  "tail_undef n ht \<longleftrightarrow> (\<forall>j < n. b_val (arData ht ! j) \<noteq> IS_UNDEF \<longrightarrow> j \<in> set (live_of ht))"

lemma tail_undef_used: "tail_undef (nNumUsed ht) ht"
  by (simp add: tail_undef_def live_idx_set)

lemma kept_tail_undef: "tail_undef (Suc n) ht \<Longrightarrow> kept_at ht n kept ht' \<Longrightarrow> tail_undef n ht'"
  by (auto simp: tail_undef_def kept_at_def)

lemma below_live:
  assumes "n \<in> set (live_of ht)"
  shows "elems_below ht (Suc n) = elems_below ht n @ [(bkey (arData ht ! n), b_val (arData ht ! n))]"
  using elems_below_Suc[of ht n] elems_from_live[OF assms] by (simp add: entry_def)

lemma walk_undef:
  assumes "b_val (arData ht ! n) = IS_UNDEF"
  shows "elems_below ht (Suc n) = elems_below ht n" "elems_from ht (Suc n) = elems_from ht n"
proof -
  have s: "live_from ht (Suc n) = live_from ht n"
  proof (cases "n < nNumUsed ht")
    case True
    then show ?thesis using live_from_step[of n ht] assms by simp
  qed (simp add: live_from_end)
  then show "elems_from ht (Suc n) = elems_from ht n" by (simp add: elems_from_def)
  then show "elems_below ht (Suc n) = elems_below ht n" using elems_below_Suc[of ht n "[]"] by simp
qed

lemma tail_undef_Suc: "tail_undef (Suc n) ht \<Longrightarrow> tail_undef n ht"
  by (simp add: tail_undef_def)

lemma reverse_apply_from_refines:
  assumes "proper_callback (\<lambda>s (_ :: hkey). f s)"
  shows "ht_inv ht \<Longrightarrow> tail_undef n ht \<Longrightarrow> \<exists>ht'. reverse_apply_from f s n ht
      = (fst (apply_elems (\<lambda>s _. f s) s (rev (elems_below ht n))), ht') \<and> ht_inv ht'
    \<and> elems ht' = rev (snd (apply_elems (\<lambda>s _. f s) s (rev (elems_below ht n)))) @ elems_from ht n"
proof (induction n arbitrary: s ht)
  case 0
  then show ?case using elems_from_0[of ht] by simp
next
  case (Suc n)
  show ?case
  proof (cases "b_val (arData ht ! n) = IS_UNDEF")
    case True
    then show ?thesis using Suc.IH[OF Suc.prems(1) tail_undef_Suc[OF Suc.prems(2)]] walk_undef[of ht n] by simp
  next
    case False
    then have n: "n \<in> set (live_of ht)" using Suc.prems(2) by (simp add: tail_undef_def)
    obtain s' v remove stop where f: "f s (b_val (arData ht ! n)) = (s', v, remove, stop)"
      by (metis prod_cases4)
    let ?kept = "if remove then [] else [(bkey (arData ht ! n), v)]"
    obtain ht1 where a: "apply_one (\<lambda>s _. f s) s n ht = (s', ht1, stop)" and k: "kept_at ht n ?kept ht1"
      using apply_one_step[OF Suc.prems(1) n assms f] by blast
    have k': "ht_inv ht1" "elems_below ht1 n = elems_below ht n" "elems_from ht1 n = ?kept @ elems_from ht (Suc n)"
      using k by (simp_all add: kept_at_def)
    show ?thesis
    proof (cases stop)
      case True
      then show ?thesis using False a k' f elems_split[of ht1 n] by (simp add: below_live[OF n])
    next
      case False
      from Suc.IH[OF k'(1) kept_tail_undef[OF Suc.prems(2) k], of s']
      show ?thesis using \<open>b_val (arData ht ! n) \<noteq> IS_UNDEF\<close> False a f
        by (auto simp: below_live[OF n] k'(2,3) split: prod.splits)
    qed
  qed
qed

section \<open>Destruction\<close>

lemma elems_values: "map snd (elems_from ht i) = map (\<lambda>j. b_val (arData ht ! j)) (live_from ht i)"
  by (simp add: elems_from_def entry_def)

definition destroyed :: "'v HashTable \<Rightarrow> 'v zval list \<Rightarrow> 'v HashTable \<Rightarrow> bool" where
  "destroyed ht vs ht' \<longleftrightarrow> dtor_log ht' = dtor_log ht @ (if pDestructor ht then vs else [])"

lemma del_from_destroys:
  "ht_inv ht \<Longrightarrow> ht_inv (del_from i ht) \<and> elems (del_from i ht) = elems_below ht i
     \<and> destroyed ht (map snd (elems_from ht i)) (del_from i ht)"
proof (induction i ht rule: del_from.induct[case_names step])
  case (step i ht)
  consider (past) "\<not> i < nNumUsed ht" | (hole) "i < nNumUsed ht" "b_val (arData ht ! i) = IS_UNDEF"
    | (live) "i < nNumUsed ht" "b_val (arData ht ! i) \<noteq> IS_UNDEF" by blast
  then show ?case
  proof cases
    case past
    then have "elems_from ht i = []" by (simp add: elems_from_def live_from_end)
    then show ?thesis using past step.prems elems_split[of ht i] by (simp add: del_from.simps destroyed_def)
  next
    case hole
    then show ?thesis using step.IH(1)[OF hole step.prems] walk_undef[OF hole(2)] by (simp add: del_from.simps[of i])
  next
    case live
    then have i: "i \<in> set (live_of ht)" by (simp add: live_idx_set)
    note k = kept_del[OF step.prems i] and d = del_el_step[OF step.prems i]
    have "elems_from ht i = (bkey (arData ht ! i), b_val (arData ht ! i)) # elems_from ht (Suc i)"
      using elems_from_live[OF i] by (simp add: entry_def)
    then show ?thesis using step.IH(2)[OF live d(1)] kept_at_below[OF k] k d(4,5) live
      by (simp add: del_from.simps[of i] kept_at_def destroyed_def)
  qed
qed

lemma del_down_destroys:
  "ht_inv ht \<Longrightarrow> tail_undef n ht \<Longrightarrow> ht_inv (del_down n ht) \<and> elems (del_down n ht) = elems_from ht n
     \<and> destroyed ht (rev (map snd (elems_below ht n))) (del_down n ht)"
proof (induction n arbitrary: ht)
  case 0
  then show ?case using elems_from_0[of ht] by (simp add: destroyed_def)
next
  case (Suc n)
  show ?case
  proof (cases "b_val (arData ht ! n) = IS_UNDEF")
    case True
    then show ?thesis using Suc.IH[OF Suc.prems(1) tail_undef_Suc[OF Suc.prems(2)]] walk_undef[of ht n] by simp
  next
    case False
    then have n: "n \<in> set (live_of ht)" using Suc.prems(2) by (simp add: tail_undef_def)
    note k = kept_del[OF Suc.prems(1) n] and d = del_el_step[OF Suc.prems(1) n]
    show ?thesis using Suc.IH[OF d(1) kept_tail_undef[OF Suc.prems(2) k]] k d(4,5) False
      by (simp add: kept_at_def destroyed_def below_live[OF n])
  qed
qed

lemma used_vals_live: "nNumUsed ht \<le> length (arData ht) \<Longrightarrow>
    filter (\<lambda>v. v \<noteq> IS_UNDEF) (used_vals ht) = map snd (elems ht)"
proof -
  assume n: "nNumUsed ht \<le> length (arData ht)"
  have "used_vals ht = map (\<lambda>i. b_val (arData ht ! i)) [0..<nNumUsed ht]"
    by (rule nth_equalityI) (use n in \<open>simp_all add: used_vals_def\<close>)
  then show ?thesis by (simp add: elems_def entry_def filter_map comp_def live_idx_def live_def[abs_def])
qed

lemma ht_inv_used: "ht_inv ht \<Longrightarrow> nNumUsed ht \<le> length (arData ht) \<and> nNumOfElements ht = length (live_of ht)"
  by (auto simp: ht_inv_def uninit_inv_def packed_inv_def mixed_inv_def data_inv_def live_idx_def split: if_splits)

lemma used_vals_full:
  assumes "ht_inv ht" "HT_IS_WITHOUT_HOLES ht"
  shows "used_vals ht = map snd (elems ht)"
proof -
  have "filter (\<lambda>v. v \<noteq> IS_UNDEF) (used_vals ht) = used_vals ht"
  proof (rule filter_True, rule ballI, rule ccontr)
    fix v assume "v \<in> set (used_vals ht)" "\<not> v \<noteq> IS_UNDEF"
    then obtain i where "i < nNumUsed ht" "b_val (arData ht ! i) = IS_UNDEF"
      using ht_inv_used[OF assms(1)] by (auto simp: used_vals_def in_set_conv_nth)
    then show False using live_hole_less[of i ht] ht_inv_used[OF assms(1)] assms(2) by (simp add: HT_IS_WITHOUT_HOLES_def)
  qed
  then show ?thesis using used_vals_live ht_inv_used[OF assms(1)] by metis
qed

lemma run_destructors_eq:
  "ht_inv ht \<Longrightarrow> run_destructors ht = ht\<lparr>dtor_log := dtor_log ht @ (if pDestructor ht then map snd (elems ht) else [])\<rparr>"
  using used_vals_live[of ht] used_vals_full[of ht] ht_inv_used[of ht] by (simp add: run_destructors_def)

lemma zval_ptr_dtors_eq: "ht_inv ht \<Longrightarrow> zval_ptr_dtors ht = ht\<lparr>dtor_log := dtor_log ht @ map snd (elems ht)\<rparr>"
  using used_vals_live[of ht] used_vals_full[of ht] ht_inv_used[of ht] by (simp add: zval_ptr_dtors_def)

lemma elems_unused: "nNumUsed ht = 0 \<Longrightarrow> elems ht = []"
  by (simp add: elems_def live_idx_def)

lemma dtor_log_frame [simp]:
  "dtor_log (free_data ht) = dtor_log ht" "dtor_log (zend_hash_iterators_remove ht) = dtor_log ht"
  "dtor_log (zero_counts ht) = dtor_log ht" "dtor_log (HT_HASH_RESET ht) = dtor_log ht"
  by (simp_all add: free_data_def zend_hash_iterators_remove_def map_iterators_def zero_counts_def HT_HASH_RESET_def)

text \<open>A cleaned table is consistent and empty, and keeps its memory.\<close>

lemma ht_inv_cleaned:
  assumes "ht_inv ht"
  shows "flag_packed ht \<or> flag_uninitialized ht \<Longrightarrow> ht_inv (zero_counts ht)"
    "\<not> flag_packed ht \<Longrightarrow> \<not> flag_uninitialized ht \<Longrightarrow> ht_inv (zero_counts (HT_HASH_RESET ht))"
proof -
  show "ht_inv (zero_counts ht)" if "flag_packed ht \<or> flag_uninitialized ht"
    using assms that by (auto simp: ht_inv_def uninit_inv_def packed_inv_def data_inv_def live_idx_def zero_counts_def split: if_splits)
  assume m: "\<not> flag_packed ht" "\<not> flag_uninitialized ht"
  let ?c = "zero_counts (HT_HASH_RESET ht)"
  have i: "mixed_inv ht" using assms m by (simp add: ht_inv_def)
  have l: "live_of ?c = []" "elems ?c = []" by (simp_all add: zero_counts_def live_idx_def elems_def)
  have "data_inv ?c" using mixed_invD(1)[OF i] l(1) by (simp add: data_inv_def zero_counts_def HT_HASH_RESET_def)
  moreover have "mask_inv ?c" using mixed_invD(2)[OF i]
    by (simp add: mask_inv_def zero_counts_def HT_HASH_RESET_def hash_len_of_size)
  moreover have "chains_ok ?c (live_of ?c)" unfolding l by (simp add: chains_ok_def zero_counts_def HT_HASH_RESET_def)
  ultimately have "mixed_inv ?c" using l by (simp add: mixed_inv_def keys_inv_def)
  then show "ht_inv ?c" using m by (simp add: ht_inv_def zero_counts_def HT_HASH_RESET_def)
qed

text \<open>C21: every destruction routine hands each value of a consistent table to the destructor
  exactly once, when there is one: in iteration order, or in reverse order for
  \<open>zend_hash_graceful_reverse_destroy\<close>.\<close>

theorem destruction_runs_each_destructor_once:
  assumes "ht_inv ht"
  shows "dtor_log (zend_hash_destroy ht) = dtor_log ht @ (if pDestructor ht then map snd (elems ht) else [])
    \<and> dtor_log (zend_array_destroy ht) = dtor_log ht @ (if pDestructor ht then map snd (elems ht) else [])
    \<and> dtor_log (zend_hash_graceful_destroy ht) = dtor_log ht @ (if pDestructor ht then map snd (elems ht) else [])
    \<and> dtor_log (zend_hash_graceful_reverse_destroy ht)
        = dtor_log ht @ (if pDestructor ht then rev (map snd (elems ht)) else [])"
proof (intro conjI)
  have full: "elems_below ht (nNumUsed ht) = elems ht" using elems_split[of ht "nNumUsed ht"]
    by (simp add: elems_from_def live_from_end)
  show d: "dtor_log (zend_hash_destroy ht) = dtor_log ht @ (if pDestructor ht then map snd (elems ht) else [])"
    using run_destructors_eq[OF assms] elems_unused[of ht] by (simp add: zend_hash_destroy_def)
  then show "dtor_log (zend_array_destroy ht) = dtor_log ht @ (if pDestructor ht then map snd (elems ht) else [])"
    using zval_ptr_dtors_eq[OF assms] elems_unused[of ht] by (simp add: zend_array_destroy_def)
  show "dtor_log (zend_hash_graceful_destroy ht) = dtor_log ht @ (if pDestructor ht then map snd (elems ht) else [])"
    using del_from_destroys[OF assms, of 0] by (simp add: zend_hash_graceful_destroy_def Let_def destroyed_def elems_from_0)
  show "dtor_log (zend_hash_graceful_reverse_destroy ht)
        = dtor_log ht @ (if pDestructor ht then rev (map snd (elems ht)) else [])"
    using del_down_destroys[OF assms tail_undef_used]
    by (simp add: zend_hash_graceful_reverse_destroy_def Let_def destroyed_def full)
qed

theorem destruction_runs_each_destructor_once_witness:
  "ht_inv demo_table \<and> dtor_log (zend_hash_graceful_destroy demo_table)
     = dtor_log demo_table @ (if pDestructor demo_table then [ZVAL 1] else [])"
  using destruction_runs_each_destructor_once[of demo_table] by simp

lemma cleaned:
  assumes "ht_inv ht" "t = zend_hash_clean ht \<or> (\<not> flag_packed ht \<and> pDestructor ht \<and> t = zend_symtable_clean ht)"
  shows "ht_inv t \<and> elems t = [] \<and> nNextFreeElement t = 0 \<and> nTableSize t = nTableSize ht
    \<and> nNumOfElements t = 0 \<and> flag_packed t = flag_packed ht \<and> flag_uninitialized t = flag_uninitialized ht
    \<and> dtor_log t = dtor_log ht @ (if pDestructor ht then map snd (elems ht) else [])"
proof -
  define l where "l = dtor_log ht @ (if pDestructor ht then map snd (elems ht) else [])"
  have i: "ht_inv (ht\<lparr>dtor_log := l\<rparr>)" using assms(1) by simp
  consider (unused) "nNumUsed ht = 0" "t = zero_counts ht"
    | (packed) "flag_packed ht" "t = zero_counts (ht\<lparr>dtor_log := l\<rparr>)"
    | (mixed) "nNumUsed ht \<noteq> 0" "\<not> flag_packed ht" "t = zero_counts (HT_HASH_RESET (ht\<lparr>dtor_log := l\<rparr>))"
    using assms(2) run_destructors_eq[OF assms(1)] zval_ptr_dtors_eq[OF assms(1)]
    by (cases "nNumUsed ht = 0"; cases "flag_packed ht"; auto simp: zend_hash_clean_def zend_symtable_clean_def Let_def l_def)
  then show ?thesis
  proof cases
    case unused
    have z: "nNumOfElements ht = 0" using ht_inv_used[OF assms(1)] unused(1) by (simp add: live_idx_def)
    then have t: "t = ht\<lparr>nNextFreeElement := 0, nInternalPointer := 0\<rparr>" using unused by (simp add: zero_counts_def)
    show ?thesis unfolding t using assms(1) elems_unused[OF unused(1)] z
      by (simp only: ht_inv_frame) (simp add: elems_def)
  next
    case packed
    have "ht_inv t" unfolding packed(2) by (rule ht_inv_cleaned(1)[OF i]) (simp add: packed(1))
    then show ?thesis unfolding packed(2) by (simp add: l_def zero_counts_def elems_unused)
  next
    case mixed
    have "\<not> flag_uninitialized ht" using assms(1) mixed(1) by (auto simp: ht_inv_def uninit_inv_def)
    then have "ht_inv t" unfolding mixed(3) by (intro ht_inv_cleaned(2)[OF i]) (simp_all add: mixed(2))
    then show ?thesis unfolding mixed(3) by (simp add: l_def zero_counts_def elems_unused HT_HASH_RESET_def)
  qed
qed

text \<open>Cleaning destroys every value once and leaves a consistent empty table, which hands out
  integer keys from 0 again.\<close>

theorem clean_empties:
  assumes "ht_inv ht" "t = zend_hash_clean ht \<or> (\<not> flag_packed ht \<and> pDestructor ht \<and> t = zend_symtable_clean ht)"
  shows "ht_inv t \<and> elems t = [] \<and> nNextFreeElement t = 0 \<and> nTableSize t = nTableSize ht
    \<and> dtor_log t = dtor_log ht @ (if pDestructor ht then map snd (elems ht) else [])"
  using cleaned[OF assms] by blast

theorem clean_empties_witness:
  "ht_inv demo_table \<and> ht_inv (zend_hash_clean demo_table) \<and> elems (zend_hash_clean demo_table) = []"
  using clean_empties[of demo_table "zend_hash_clean demo_table"] by simp

text \<open>C19: the callback functions work on a table as a fold with filter works on the list of its
  elements: the callback sees each element once, in order (in reverse order for
  \<open>zend_hash_reverse_apply\<close>), up to the first stop; the values it stores replace the old
  ones in place, the elements it asks to remove are gone, and the table stays consistent
  although it is modified during the walk.\<close>

theorem apply_refines_list:
  assumes "ht_inv ht" "\<And>s k v. proper v \<Longrightarrow> proper (fst (snd (f s k v)))"
    "\<And>s v. proper v \<Longrightarrow> proper (fst (snd (g s v)))"
  shows "(\<exists>ht'. zend_hash_apply_with_arguments f s ht = (fst (apply_elems f s (elems ht)), ht') \<and> ht_inv ht'
      \<and> elems ht' = snd (apply_elems f s (elems ht)))
    \<and> (\<exists>ht'. zend_hash_apply g s ht = (fst (apply_elems (\<lambda>s _. g s) s (elems ht)), ht') \<and> ht_inv ht'
      \<and> elems ht' = snd (apply_elems (\<lambda>s _. g s) s (elems ht)))
    \<and> (\<exists>ht'. zend_hash_reverse_apply g s ht = (fst (apply_elems (\<lambda>s _. g s) s (rev (elems ht))), ht') \<and> ht_inv ht'
      \<and> elems ht' = rev (snd (apply_elems (\<lambda>s _. g s) s (rev (elems ht)))))"
proof (intro conjI)
  have f: "proper_callback f" "proper_callback (\<lambda>s (_ :: hkey). g s)" using assms(2,3) by (simp_all add: proper_callback_def)
  show "\<exists>ht'. zend_hash_apply_with_arguments f s ht = (fst (apply_elems f s (elems ht)), ht') \<and> ht_inv ht'
      \<and> elems ht' = snd (apply_elems f s (elems ht))"
    using apply_from_refines[OF f(1) assms(1), of s 0] by (simp add: zend_hash_apply_with_arguments_def elems_from_0)
  show "\<exists>ht'. zend_hash_apply g s ht = (fst (apply_elems (\<lambda>s _. g s) s (elems ht)), ht') \<and> ht_inv ht'
      \<and> elems ht' = snd (apply_elems (\<lambda>s _. g s) s (elems ht))"
    using apply_from_refines[OF f(2) assms(1), of s 0] by (simp add: zend_hash_apply_def elems_from_0)
  have "elems_below ht (nNumUsed ht) = elems ht" "elems_from ht (nNumUsed ht) = []" using elems_split[of ht "nNumUsed ht"]
    by (simp_all add: elems_from_def live_from_end)
  then show "\<exists>ht'. zend_hash_reverse_apply g s ht = (fst (apply_elems (\<lambda>s _. g s) s (rev (elems ht))), ht') \<and> ht_inv ht'
      \<and> elems ht' = rev (snd (apply_elems (\<lambda>s _. g s) s (rev (elems ht))))"
    using reverse_apply_from_refines[OF f(2) assms(1) tail_undef_used, of s] by (simp add: zend_hash_reverse_apply_def)
qed

theorem apply_refines_list_witness:
  "\<exists>ht'. zend_hash_apply (\<lambda>s v. (s + 1, v, True, False)) (0 :: nat) demo_table = (1, ht') \<and> ht_inv ht' \<and> elems ht' = []"
  using apply_refines_list[of demo_table "\<lambda>s k v. (s + 1, v, True, False)" "\<lambda>s v. (s + 1, v, True, False)" "0 :: nat"]
  by simp

text \<open>C20: moving forward from the first position, or backward from the last, visits exactly the
  elements in iteration order, skipping holes; at each position the key and data
  functions report that element; past the end they report nothing and moving fails.\<close>

theorem positions_enumerate_elements:
  "(\<forall>k < length (elems ht). \<exists>p. moves zend_hash_move_forward_ex k ht (zend_hash_internal_pointer_reset_ex ht) = Some p
      \<and> moves zend_hash_move_backwards_ex (length (elems ht) - 1 - k) ht (zend_hash_internal_pointer_end_ex ht) = Some p
      \<and> zend_hash_get_current_data_ex ht p = Some (PBucket p) \<and> read_zptr ht (PBucket p) = snd (elems ht ! k)
      \<and> (case zend_hash_get_current_key_ex ht p of
           HASH_KEY_IS_STRING key \<Rightarrow> fst (elems ht ! k) = Inr (ZSTR_VAL key)
         | HASH_KEY_IS_LONG h \<Rightarrow> fst (elems ht ! k) = Inl h
         | HASH_KEY_NON_EXISTENT \<Rightarrow> False)
      \<and> zend_hash_get_current_key_zval_ex ht p = (case zend_hash_get_current_key_ex ht p of
           HASH_KEY_IS_STRING key \<Rightarrow> KEY_STRING key | HASH_KEY_IS_LONG h \<Rightarrow> KEY_LONG h | HASH_KEY_NON_EXISTENT \<Rightarrow> KEY_NULL)
      \<and> zend_hash_get_current_key_type_ex ht p = (case fst (elems ht ! k) of Inr _ \<Rightarrow> TYPE_STRING | Inl _ \<Rightarrow> TYPE_LONG))
   \<and> moves zend_hash_move_forward_ex (length (elems ht)) ht (zend_hash_internal_pointer_reset_ex ht) = Some (nNumUsed ht)
   \<and> zend_hash_get_current_data_ex ht (nNumUsed ht) = None
   \<and> zend_hash_get_current_key_ex ht (nNumUsed ht) = HASH_KEY_NON_EXISTENT
   \<and> zend_hash_move_forward_ex ht (nNumUsed ht) = None \<and> zend_hash_move_backwards_ex ht (nNumUsed ht) = None"
proof (intro conjI allI impI)
  have r: "zend_hash_internal_pointer_reset_ex ht = pos_of ht (live_of ht)"
    by (simp add: zend_hash_internal_pointer_reset_ex_def valid_pos live_from_0)
  have fwd: "moves zend_hash_move_forward_ex k ht (zend_hash_internal_pointer_reset_ex ht) = Some (nth_pos ht k)"
    if "k \<le> length (live_of ht)" for k
    using forward_moves[OF live_from_0 le0 that] r by (simp add: nth_pos_def)
  show "moves zend_hash_move_forward_ex (length (elems ht)) ht (zend_hash_internal_pointer_reset_ex ht) = Some (nNumUsed ht)"
    using fwd[of "length (live_of ht)"] by (simp add: length_elems nth_pos_def pos_of_def)
  have "next_used ht (nNumUsed ht) = nNumUsed ht" by (subst next_used.simps) simp
  then show "zend_hash_get_current_data_ex ht (nNumUsed ht) = None"
    "zend_hash_get_current_key_ex ht (nNumUsed ht) = HASH_KEY_NON_EXISTENT" "zend_hash_move_forward_ex ht (nNumUsed ht) = None"
    by (simp_all add: zend_hash_get_current_data_ex_def zend_hash_get_current_key_ex_def zend_hash_get_valid_pos_def
        zend_hash_move_forward_ex_def Let_def)
  show "zend_hash_move_backwards_ex ht (nNumUsed ht) = None" by (simp add: zend_hash_move_backwards_ex_def)
  fix k assume "k < length (elems ht)"
  then have k: "k < length (live_of ht)" by (simp add: length_elems)
  let ?p = "nth_pos ht k"
  have "moves zend_hash_move_backwards_ex (length (elems ht) - 1 - k) ht (zend_hash_internal_pointer_end_ex ht) = Some ?p"
    using backward_moves[of "length (live_of ht) - 1 - k" "length (live_of ht) - 1" ht] k
    by (auto simp: length_elems pos_last)
  then show "\<exists>p. moves zend_hash_move_forward_ex k ht (zend_hash_internal_pointer_reset_ex ht) = Some p
      \<and> moves zend_hash_move_backwards_ex (length (elems ht) - 1 - k) ht (zend_hash_internal_pointer_end_ex ht) = Some p
      \<and> zend_hash_get_current_data_ex ht p = Some (PBucket p) \<and> read_zptr ht (PBucket p) = snd (elems ht ! k)
      \<and> (case zend_hash_get_current_key_ex ht p of
           HASH_KEY_IS_STRING key \<Rightarrow> fst (elems ht ! k) = Inr (ZSTR_VAL key)
         | HASH_KEY_IS_LONG h \<Rightarrow> fst (elems ht ! k) = Inl h
         | HASH_KEY_NON_EXISTENT \<Rightarrow> False)
      \<and> zend_hash_get_current_key_zval_ex ht p = (case zend_hash_get_current_key_ex ht p of
           HASH_KEY_IS_STRING key \<Rightarrow> KEY_STRING key | HASH_KEY_IS_LONG h \<Rightarrow> KEY_LONG h | HASH_KEY_NON_EXISTENT \<Rightarrow> KEY_NULL)
      \<and> zend_hash_get_current_key_type_ex ht p = (case fst (elems ht ! k) of Inr _ \<Rightarrow> TYPE_STRING | Inl _ \<Rightarrow> TYPE_LONG)"
    using fwd[of k] k current_at[OF k] elems_nth[OF k]
    by (intro exI[of _ ?p]) (auto simp: key_report_def entry_def bkey_def read_zptr_def split: option.split)
qed

theorem positions_enumerate_elements_witness:
  "\<exists>p. moves zend_hash_move_forward_ex 0 demo_table (zend_hash_internal_pointer_reset_ex demo_table) = Some p
     \<and> read_zptr demo_table (PBucket p) = ZVAL 1"
  using positions_enumerate_elements[of demo_table] by auto

end
