(* ===== verification/ZendHashSeq.thy ===== *)
theory ZendHashSeq
  imports ZendHashIter
begin

text \<open>
  Sequences of array operations. How much a single insertion may enlarge a table bounds
  the size reached by any sequence of them, so that a bounded number of operations never
  runs into the size limit; every sequence of operations on a table is then simulated by
  the same sequence on the ordered list of its elements, and copying and merging are
  folds over the source's elements.
\<close>

section \<open>Growth of a table\<close>

definition flat :: "'v HashTable \<Rightarrow> bool" where
  "flat ht \<longleftrightarrow> flag_packed ht \<or> flag_uninitialized ht"

text \<open>The fields a rehash leaves alone, whatever the state of the table.\<close>

definition header :: "'v HashTable \<Rightarrow> nat \<times> nat \<times> bool \<times> bool \<times> bool \<times> (nat \<Rightarrow> 'v zval)" where
  "header ht = (nTableSize ht, nNumOfElements ht, flag_packed ht, flag_uninitialized ht, pDestructor ht, ind_slots ht)"

lemma header_small [simp]:
  "header (upd_bucket i f ht) = header ht" "header (HT_HASH_set ni x ht) = header ht"
  "header (HT_HASH_RESET ht) = header ht" "header (map_iterators g ht) = header ht"
  "header (ht\<lparr>nNumUsed := n\<rparr>) = header ht" "header (ht\<lparr>nInternalPointer := n\<rparr>) = header ht"
  "header (ht\<lparr>flag_static_keys := b\<rparr>) = header ht" "header (ht\<lparr>nNextFreeElement := h\<rparr>) = header ht"
  "header (ht\<lparr>dtor_log := l\<rparr>) = header ht"
  by (simp_all add: header_def upd_bucket_def HT_HASH_set_def HT_HASH_RESET_def map_iterators_def)

lemma header_link [simp]: "header (link_bucket i ht) = header ht"
  by (simp add: link_bucket_def Let_def)

lemma header_links: "header (link_buckets is ht) = header ht"
  by (induction "is" arbitrary: ht) simp_all

lemma header_iterators [simp]:
  "header (zend_hash_iterators_update ht a b) = header ht" "header (zend_hash_iterators_update0 ht a b) = header ht"
  by (simp_all add: zend_hash_iterators_update_def zend_hash_iterators_update0_def)

lemma header_move_iterators: "header (fst (rehash_move_iterators n i j pos ht)) = header ht"
  by (induction n arbitrary: pos ht) (simp_all add: Let_def)

lemma header_compact: "header (fst (rehash_compact is j pos ht)) = header ht"
proof (induction "is" arbitrary: j pos ht)
  case (Cons i "is")
  show ?case
  proof (cases "b_val (arData ht ! i) = IS_UNDEF")
    case False
    define ht2 where "ht2 = compact_move i j ht"
    define ht3 where "ht3 = (if nInternalPointer ht2 = i then ht2\<lparr>nInternalPointer := j\<rparr> else ht2)"
    define q where "q = (if HT_HAS_ITERATORS ht3 \<and> pos \<le> i then rehash_move_iterators (i + 1) i j pos ht3 else (ht3, pos))"
    have "rehash_compact (i # is) j pos ht = rehash_compact is (j + 1) (snd q) (fst q)"
      using False by (simp add: Let_def case_prod_beta q_def ht3_def ht2_def del: rehash_move_iterators.simps)
    moreover have "header (fst q) = header ht" using header_move_iterators[of "i + 1" i j pos ht3]
      by (simp add: q_def ht3_def ht2_def compact_move_def del: rehash_move_iterators.simps)
    ultimately show ?thesis using Cons by simp
  qed (use Cons in simp)
qed simp

lemma header_scan: "header (rehash_scan is ht) = header ht"
proof (induction "is" arbitrary: ht)
  case (Cons i "is")
  then show ?case using header_compact[of "is" i "zend_hash_iterators_lower_pos ht 0" ht] by (simp add: Let_def case_prod_beta)
qed simp

lemma header_rehash [simp]: "header (zend_hash_rehash ht) = header ht"
proof -
  let ?r = "HT_HASH_RESET ht"
  have "header (link_buckets is ?r) = header ht" "header (rehash_scan is ?r) = header ht" for "is"
    by (simp_all add: header_links header_scan)
  then show ?thesis unfolding zend_hash_rehash_def Let_def by (simp split: if_split)
qed

lemma headerD:
  assumes "header ht' = header ht"
  shows "nTableSize ht' = nTableSize ht" "nNumOfElements ht' = nNumOfElements ht" "flag_packed ht' = flag_packed ht"
    "flag_uninitialized ht' = flag_uninitialized ht" "pDestructor ht' = pDestructor ht" "ind_slots ht' = ind_slots ht"
  using assms by (simp_all add: header_def)

text \<open>
  What one insertion may do to the size: nothing, or double it when the table is at least
  half full, or double it while turning a packed table into a hash table.
\<close>

definition grow_step :: "'v HashTable \<Rightarrow> 'v HashTable \<Rightarrow> bool" where
  "grow_step ht ht' \<longleftrightarrow> nNumOfElements ht' \<le> nNumOfElements ht + 1 \<and> (flat ht' \<longrightarrow> flat ht)
     \<and> pDestructor ht' = pDestructor ht
     \<and> (nTableSize ht' = nTableSize ht \<or> nTableSize ht' \<le> 2 * nTableSize ht
           \<and> (nTableSize ht \<le> 2 * nNumOfElements ht \<or> flat ht \<and> \<not> flat ht'))"

abbreviation count_one :: "'v HashTable \<Rightarrow> 'v HashTable" where
  "count_one ht \<equiv> ht\<lparr>nNumOfElements := nNumOfElements ht + 1\<rparr>"

lemma header_add:
  "header (fst (add_to_hash ht key h v)) = header (count_one ht)"
  "header (fst (add_index_to_hash ht h v)) = header (count_one ht)"
  by (simp_all add: add_to_hash_def add_index_to_hash_def Let_def header_def upd_bucket_def HT_HASH_set_def)

lemma header_fold_undef: "header (fold (\<lambda>q. upd_bucket q f) qs ht) = header ht"
  by (induction qs arbitrary: ht) simp_all

lemma header_add_packed: "header (fst (add_to_packed ht h v flag)) = header (count_one ht)"
proof -
  define ht1 where "ht1 = (if \<not> (HASH_ADD_NEW \<in> flag \<and> HASH_ADD_NEXT \<in> flag) \<and> nNumUsed ht < unat h
     then fold (\<lambda>q. upd_bucket q (\<lambda>b. b\<lparr>b_val := IS_UNDEF\<rparr>)) [nNumUsed ht..<unat h] ht else ht)"
  have "header ht1 = header ht" by (simp add: ht1_def header_fold_undef)
  note f = headerD[OF this]
  have "fst (add_to_packed ht h v flag) = upd_bucket (unat h) (\<lambda>b. b\<lparr>b_h := h, b_key := None, b_val := v\<rparr>)
      (ht1\<lparr>nNextFreeElement := h + 1, nNumUsed := unat h + 1, nNumOfElements := nNumOfElements ht1 + 1\<rparr>)"
    by (simp add: add_to_packed_def Let_def ht1_def)
  then show ?thesis using f by (simp add: header_def upd_bucket_def)
qed

lemma header_store: "p = PBucket i \<Longrightarrow> header (fst (store_zval p v ht)) = header ht"
  by (simp add: store_zval_def write_zptr_def call_pDestructor_def header_def upd_bucket_def)

lemma header_packed_to_hash: "header (zend_hash_packed_to_hash ht) = header (ht\<lparr>flag_packed := False\<rparr>)"
  by (simp add: zend_hash_packed_to_hash_def) (simp add: header_def move_data_def)

lemma header_init:
  "header (zend_hash_real_init_mixed_ex ht) = header (ht\<lparr>flag_packed := False, flag_uninitialized := False\<rparr>)"
  "header (zend_hash_real_init_packed_ex ht) = header (ht\<lparr>flag_packed := True, flag_uninitialized := False\<rparr>)"
  by (simp_all add: zend_hash_real_init_mixed_ex_def zend_hash_real_init_packed_ex_def HT_HASH_RESET_PACKED_def)
    (simp_all add: header_def)

lemma header_note_key [simp]: "header (note_key key ht) = header ht"
  by (simp add: note_key_def)

lemma u32_double_le: "u32_double n \<le> 2 * n"
  by (simp add: u32_double_def)

text \<open>The size test before a bucket is added.\<close>

lemma full_resize_header:
  assumes "ZEND_HASH_IF_FULL_DO_RESIZE ht = Inr ht'"
  shows "header ht' = header ht \<or> nTableSize ht \<le> 2 * nNumOfElements ht
     \<and> header ht' = header (ht\<lparr>nTableSize := u32_double (nTableSize ht)\<rparr>)"
proof (cases "nTableSize ht \<le> nNumUsed ht \<and> \<not> nNumOfElements ht + nNumOfElements ht div 32 < nNumUsed ht")
  case True
  then have "ht' = zend_hash_rehash (move_data (ht\<lparr>nTableSize := u32_double (nTableSize ht),
       nTableMask := HT_SIZE_TO_MASK (u32_double (nTableSize ht))\<rparr>))"
    using assms by (simp add: ZEND_HASH_IF_FULL_DO_RESIZE_def zend_hash_do_resize_def Let_def split: if_splits)
  then have "header ht' = header (ht\<lparr>nTableSize := u32_double (nTableSize ht)\<rparr>)"
    by simp (simp add: header_def move_data_def)
  moreover have "nTableSize ht \<le> 2 * nNumOfElements ht" using True by linarith
  ultimately show ?thesis by blast
next
  case False
  then have "ht' = ht \<or> ht' = zend_hash_rehash ht"
    using assms by (auto simp: ZEND_HASH_IF_FULL_DO_RESIZE_def zend_hash_do_resize_def split: if_splits)
  then show ?thesis by auto
qed

lemma grow_step_same: "header ht' = header ht \<Longrightarrow> grow_step ht ht'"
  by (auto simp: grow_step_def flat_def header_def)

text \<open>A bucket is added to \<open>ht1\<close>, which stems from \<open>ht\<close> and is a hash table.\<close>

lemma grow_step_resized:
  assumes "(case ZEND_HASH_IF_FULL_DO_RESIZE ht1 of Inl e \<Rightarrow> Inl e | Inr ht2 \<Rightarrow> Inr (add ht2)) = Inr (ht', r)"
    "\<And>x. header (fst (add x)) = header (count_one x)"
    "nTableSize ht1 = nTableSize ht" "nNumOfElements ht1 = nNumOfElements ht" "pDestructor ht1 = pDestructor ht" "\<not> flat ht1"
  shows "grow_step ht ht'"
proof -
  obtain ht2 where h: "ZEND_HASH_IF_FULL_DO_RESIZE ht1 = Inr ht2" "add ht2 = (ht', r)"
    using assms(1) by (auto split: sum.splits)
  have "header ht' = header (count_one ht2)" using assms(2)[of ht2] h(2) by simp
  then show ?thesis using full_resize_header[OF h(1)] assms(3-) u32_double_le[of "nTableSize ht"]
    by (auto simp: grow_step_def flat_def header_def)
qed

lemma update_found_header: "HASH_UPDATE_INDIRECT \<notin> flag \<Longrightarrow> header (fst (update_found ht p v flag)) = header ht"
  by (auto simp: update_found_def header_store split: zval.split)

lemma add_or_update_grow:
  assumes "zend_hash_add_or_update_i ht key v flag = Inr (ht', r)" "HASH_UPDATE_INDIRECT \<notin> flag"
  shows "grow_step ht ht'"
proof -
  have resized: "grow_step ht ht'"
    if "resize_and_add ht1 key v = Inr (ht', r)" "nTableSize ht1 = nTableSize ht" "nNumOfElements ht1 = nNumOfElements ht"
      "pDestructor ht1 = pDestructor ht" "\<not> flat ht1" for ht1
    using that by (intro grow_step_resized[where ?ht1.0 = ht1 and add = "\<lambda>x. add_to_hash x key (zend_string_hash_val key) v"])
      (simp_all add: resize_and_add_def header_add)
  consider (uninit) "flag_uninitialized ht" | (packed) "\<not> flag_uninitialized ht" "flag_packed ht"
    | (found) p where "\<not> flat ht" "update_found ht p v flag = (ht', r)"
    | (absent) "\<not> flat ht" "resize_and_add (note_key key ht) key v = Inr (ht', r)"
    using assms(1) by (auto simp: zend_hash_add_or_update_i_def flat_def split: if_splits option.splits)
  then show ?thesis
  proof cases
    case uninit
    let ?i = "note_key key (zend_hash_real_init_mixed_ex ht)"
    have "header ht' = header (count_one ?i)"
      using assms(1) uninit header_add(1)[of ?i key "zend_string_hash_val key" v]
      by (simp add: zend_hash_add_or_update_i_def)
    then show ?thesis using headerD[OF header_init(1)[of ht]] headerD[OF header_note_key[of key "zend_hash_real_init_mixed_ex ht"]] uninit
      by (simp add: grow_step_def flat_def header_def)
  next
    case packed
    let ?i = "note_key key (zend_hash_packed_to_hash ht)"
    have "resize_and_add ?i key v = Inr (ht', r)" using assms(1) packed by (simp add: zend_hash_add_or_update_i_def)
    from resized[OF this] show ?thesis
      using headerD[OF header_packed_to_hash[of ht]] headerD[OF header_note_key[of key "zend_hash_packed_to_hash ht"]] packed
      by (simp add: flat_def)
  next
    case found
    then show ?thesis using update_found_header[OF assms(2), of ht p v] by (metis fst_conv grow_step_same)
  next
    case absent
    from resized[OF absent(2)] show ?thesis using absent(1) headerD[OF header_note_key[of key ht]] by (simp add: flat_def)
  qed
qed

lemma str_add_or_update_grow:
  assumes "zend_hash_str_add_or_update_i ht str h v flag = Inr (ht', r)" "HASH_UPDATE_INDIRECT \<notin> flag"
  shows "grow_step ht ht'"
proof -
  define key where "key = \<lparr>ZSTR_VAL = str, ZSTR_IS_INTERNED = False\<rparr>"
  define add where "add = (\<lambda>ht. let (ht1, r) = add_to_hash ht key h v in (ht1\<lparr>flag_static_keys := False\<rparr>, r))"
  define radd where "radd = (\<lambda>ht. case ZEND_HASH_IF_FULL_DO_RESIZE ht of Inl e \<Rightarrow> Inl e | Inr ht' \<Rightarrow> Inr (add ht'))"
  have e: "zend_hash_str_add_or_update_i ht str h v flag =
      (if flag_uninitialized ht then Inr (add (zend_hash_real_init_mixed_ex ht))
         else if flag_packed ht then radd (zend_hash_packed_to_hash ht)
         else if HASH_ADD_NEW \<notin> flag then
           (case zend_hash_str_find_bucket ht str h of Some p \<Rightarrow> Inr (update_found ht p v flag) | None \<Rightarrow> radd ht)
         else radd ht)"
    by (simp only: zend_hash_str_add_or_update_i_def Let_def key_def add_def radd_def)
  have a: "header (fst (add x)) = header (count_one x)" for x
    using header_add(1)[of x key h v] by (simp add: add_def case_prod_beta)
  have resized: "grow_step ht ht'"
    if "radd ht1 = Inr (ht', r)" "nTableSize ht1 = nTableSize ht" "nNumOfElements ht1 = nNumOfElements ht"
      "pDestructor ht1 = pDestructor ht" "\<not> flat ht1" for ht1
    using that a by (intro grow_step_resized[where ?ht1.0 = ht1 and add = add]) (simp_all add: radd_def)
  consider (uninit) "flag_uninitialized ht" "add (zend_hash_real_init_mixed_ex ht) = (ht', r)"
    | (packed) "\<not> flag_uninitialized ht" "flag_packed ht" "radd (zend_hash_packed_to_hash ht) = Inr (ht', r)"
    | (found) p where "update_found ht p v flag = (ht', r)"
    | (absent) "\<not> flat ht" "radd ht = Inr (ht', r)"
    using assms(1) unfolding e by (auto simp: flat_def split: if_splits option.splits)
  then show ?thesis
  proof cases
    case uninit
    then have "header ht' = header (count_one (zend_hash_real_init_mixed_ex ht))" using a by (metis fst_conv)
    then show ?thesis using headerD[OF header_init(1)[of ht]] uninit by (simp add: grow_step_def flat_def header_def)
  next
    case packed
    then show ?thesis using headerD[OF header_packed_to_hash[of ht]] by (intro resized) (simp_all add: flat_def)
  next
    case found
    then show ?thesis using update_found_header[OF assms(2), of ht p v] by (metis fst_conv grow_step_same)
  next
    case absent
    then show ?thesis by (intro resized) simp_all
  qed
qed

lemma index_packed_grow:
  assumes "zend_hash_index_add_or_update_i ht h v flag = Inr (ht', r)" "flag_packed ht" "\<not> flag_uninitialized ht"
  shows "grow_step ht ht'"
proof -
  have to_hash: "grow_step ht ht'"
    if "add_index_to_hash (zend_hash_packed_to_hash (ht\<lparr>nTableSize := n\<rparr>)) h v = (ht', r)" "n \<le> 2 * nTableSize ht" for n
    using that assms(2,3) headerD[OF header_packed_to_hash[of "ht\<lparr>nTableSize := n\<rparr>"]]
      header_add(2)[of "zend_hash_packed_to_hash (ht\<lparr>nTableSize := n\<rparr>)" h v]
    by (auto simp: grow_step_def flat_def header_def)
  consider (repl) p where "replace_index ht p v flag = (ht', r)"
    | (conv) "add_index_to_hash (zend_hash_packed_to_hash (ht\<lparr>nTableSize := nTableSize ht\<rparr>)) h v = (ht', r)"
    | (fits) "add_to_packed ht h v flag = (ht', r)"
    | (grow) ht1 where "zend_hash_packed_grow ht = Inr ht1" "nTableSize ht div 2 < nNumOfElements ht" "add_to_packed ht1 h v flag = (ht', r)"
    | (double) "add_index_to_hash (zend_hash_packed_to_hash (ht\<lparr>nTableSize := u32_double (nTableSize ht)\<rparr>)) h v = (ht', r)"
    using assms(1,2) by (auto simp: zend_hash_index_add_or_update_i_def Let_def split: if_splits sum.splits)
  then show ?thesis
  proof cases
    case repl
    have "header (fst (replace_index ht p v flag)) = header ht" by (simp add: replace_index_def header_store)
    then show ?thesis using repl by (metis fst_conv grow_step_same)
  next
    case fits
    then show ?thesis using header_add_packed[of ht h v flag] by (auto simp: grow_step_def flat_def header_def)
  next
    case grow
    have "header ht1 = header (ht\<lparr>nTableSize := u32_double (nTableSize ht)\<rparr>)"
      using grow(1) by (auto simp: zend_hash_packed_grow_def Let_def header_def split: if_splits)
    then show ?thesis using grow(2,3) header_add_packed[of ht1 h v flag] u32_double_le[of "nTableSize ht"]
      by (auto simp: grow_step_def flat_def header_def)
  qed (use to_hash[of "nTableSize ht"] to_hash[OF _ u32_double_le] in simp_all)
qed

lemma index_add_or_update_grow:
  assumes "zend_hash_index_add_or_update_i ht h v flag = Inr (ht', r)" "\<not> (flag_packed ht \<and> flag_uninitialized ht)"
  shows "grow_step ht ht'"
proof -
  consider (packed) "flag_packed ht" "\<not> flag_uninitialized ht"
    | (init_packed) "flag_uninitialized ht" "add_to_packed (zend_hash_real_init_packed_ex ht) h v flag = (ht', r)"
    | (init_mixed) "flag_uninitialized ht" "add_index_to_hash (zend_hash_real_init_mixed_ex ht) h v = (ht', r)"
    | (found) p where "\<not> flat ht" "replace_index ht p v flag = (ht', r)"
    | (absent) "\<not> flat ht"
        "(case ZEND_HASH_IF_FULL_DO_RESIZE ht of Inl e \<Rightarrow> Inl e | Inr ht2 \<Rightarrow> Inr (add_index_to_hash ht2 h v)) = Inr (ht', r)"
    using assms by (auto simp: zend_hash_index_add_or_update_i_def flat_def split: if_splits option.splits sum.splits)
  then show ?thesis
  proof cases
    case packed
    then show ?thesis by (rule index_packed_grow[OF assms(1)])
  next
    case init_packed
    then show ?thesis using header_add_packed[of "zend_hash_real_init_packed_ex ht" h v flag] headerD[OF header_init(2)[of ht]]
      by (auto simp: grow_step_def flat_def header_def)
  next
    case init_mixed
    then show ?thesis using header_add(2)[of "zend_hash_real_init_mixed_ex ht" h v] headerD[OF header_init(1)[of ht]]
      by (auto simp: grow_step_def flat_def header_def)
  next
    case found
    have "header (fst (replace_index ht p v flag)) = header ht" by (simp add: replace_index_def header_store)
    then show ?thesis using found by (metis fst_conv grow_step_same)
  next
    case absent
    then show ?thesis by (intro grow_step_resized[OF absent(2)]) (simp_all add: header_add)
  qed
qed

section \<open>Capacity\<close>

text \<open>
  A table that started with \<open>S\<close> buckets and never held more than \<open>n\<close> elements: the bound on
  its size that every operation preserves.
\<close>

definition within :: "nat \<Rightarrow> nat \<Rightarrow> 'v HashTable \<Rightarrow> bool" where
  "within S n ht \<longleftrightarrow> nNumOfElements ht \<le> n \<and> nTableSize ht \<le> (if flat ht then 1 else 2) * max S (4 * n)"

lemma within_grow:
  assumes "within S n ht" "grow_step ht ht'"
  shows "within S (Suc n) ht'"
proof -
  define M M' where "M = max S (4 * n)" and "M' = max S (4 * Suc n)"
  have m: "M \<le> M'" "4 * n \<le> M'" by (simp_all add: M_def M'_def)
  note w = assms(1)[unfolded within_def, folded M_def] and g = assms(2)[unfolded grow_step_def]
  have "nTableSize ht' \<le> (if flat ht' then 1 else 2) * M'"
    using w g m by (cases "flat ht"; cases "flat ht'"; simp; linarith)
  then show ?thesis using w g by (simp add: within_def M'_def)
qed

lemma within_mono: "within S n ht \<Longrightarrow> n \<le> m \<Longrightarrow> within S m ht"
  by (auto simp: within_def split: if_splits)

lemma within_room: "within S n ht \<Longrightarrow> S < 2 ^ 29 \<Longrightarrow> n < 2 ^ 27 \<Longrightarrow> has_room ht"
  by (auto simp: within_def split: if_splits)

lemma ht_inv_flags: "ht_inv ht \<Longrightarrow> \<not> (flag_packed ht \<and> flag_uninitialized ht)"
  by (auto simp: ht_inv_def)

lemma array_put_grow: "ht_inv ht \<Longrightarrow> array_put ht k v = Inr ht' \<Longrightarrow> grow_step ht ht'"
  using str_add_or_update_grow index_add_or_update_grow ht_inv_flags
  by (fastforce simp: array_put_def array_update_def zend_hash_index_update_def zend_hash_str_update_def split: sum.splits)

end
