(* ===== verification/ZendNumericKey.thy ===== *)
theory ZendNumericKey
  imports ZendArray
begin

text \<open>
  Numeric string keys. PHP arrays treat a string that is the canonical decimal form of a
  64-bit integer as that integer: the recogniser \<open>_zend_handle_numeric_str_ex\<close> of
  zend_hash.c with its inline front end, the printer \<open>zend_long_to_str\<close> of
  zend_operators.c, and the symbol-table functions of zend_hash.h built on them. The two
  directions are proved inverse to each other.
\<close>

section \<open>Definitions\<close>

definition schar :: "char \<Rightarrow> int" where
  "schar c = (if of_char c < (128::int) then of_char c else of_char c - 256)"

definition is_digit :: "char \<Rightarrow> bool" where
  "is_digit c \<longleftrightarrow> schar c \<le> 57 \<and> 48 \<le> schar c"

definition MAX_LENGTH_OF_LONG :: nat where "MAX_LENGTH_OF_LONG = 20"

text \<open>The loop of the recogniser from the second digit on; a word multiplication may wrap.\<close>

fun numeric_loop :: "zend_ulong \<Rightarrow> string \<Rightarrow> zend_ulong option" where
  "numeric_loop idx [] = Some idx"
| "numeric_loop idx (c # cs) =
     (if is_digit c then numeric_loop (idx * 10 + (char_val c - 48)) cs else None)"

text \<open>
  \<open>None\<close> is the return value 0. The front end never calls the function on a string
  without a digit in front (the code would run past the end there).
\<close>

definition zend_handle_numeric_str_ex :: "string \<Rightarrow> zend_ulong option" where
  "zend_handle_numeric_str_ex key =
     (let neg = (key \<noteq> [] \<and> hd key = CHR ''-''); tmp = (if neg then tl key else key)
      in case tmp of [] \<Rightarrow> None
         | c # cs \<Rightarrow>
             if (c = CHR ''0'' \<and> length key > 1) \<or> length tmp > MAX_LENGTH_OF_LONG - 1 then None
             else case numeric_loop (char_val c - 48) cs of
                 None \<Rightarrow> None
               | Some idx \<Rightarrow>
                   if neg then (if ZEND_LONG_MAX < idx - 1 then None else Some (0 - idx))
                   else if ZEND_LONG_MAX < idx then None else Some idx)"

definition zend_handle_numeric_str :: "string \<Rightarrow> zend_ulong option" where
  "zend_handle_numeric_str key =
     (case key of [] \<Rightarrow> None
      | c # cs \<Rightarrow>
          if 57 < schar c then None
          else if schar c < 48 then
            (if c \<noteq> CHR ''-'' then None
             else case cs of [] \<Rightarrow> None | d # ds \<Rightarrow>
               if is_digit d then zend_handle_numeric_str_ex key else None)
          else zend_handle_numeric_str_ex key)"

text \<open>The printer fills a buffer from its end; \<open>buf\<close> is what has been written.\<close>

function zend_print_ulong_to_buf :: "zend_ulong \<Rightarrow> string \<Rightarrow> string" where
  "zend_print_ulong_to_buf num buf =
     (let buf' = char_of (unat (num mod 10) + 48) # buf; num' = num div 10
      in if 0 < num' then zend_print_ulong_to_buf num' buf' else buf')"
  by pat_completeness auto
termination
proof (relation "measure (\<lambda>(num, buf). unat num)")
  fix num :: zend_ulong and x buf num'
  assume a: "(num' :: zend_ulong) = num div 10" "0 < num'"
  have "unat (num div 10) = unat num div 10" by (simp add: unat_div)
  moreover have "0 < unat (num div 10)" using a by (simp add: unat_gt_0 word_gt_0)
  ultimately show "((num', x), num, buf) \<in> measure (\<lambda>(num, buf). unat num)" using a(1) by auto
qed simp

declare zend_print_ulong_to_buf.simps [simp del]

definition zend_print_long_to_buf :: "zend_ulong \<Rightarrow> string" where
  "zend_print_long_to_buf num =
     (if sint num < 0 then CHR ''-'' # zend_print_ulong_to_buf (NOT num + 1) []
      else zend_print_ulong_to_buf num [])"

definition zend_long_to_str :: "zend_ulong \<Rightarrow> zend_string" where
  "zend_long_to_str num =
     (if num \<le> 9 then \<lparr>ZSTR_VAL = [char_of (48 + unat num)], ZSTR_IS_INTERNED = True\<rparr>
      else \<lparr>ZSTR_VAL = zend_print_long_to_buf num, ZSTR_IS_INTERNED = False\<rparr>)"

text \<open>The array key a string stands for, and the symbol-table functions.\<close>

definition symtable_key :: "string \<Rightarrow> hkey" where
  "symtable_key s = (case zend_handle_numeric_str s of Some idx \<Rightarrow> Inl idx | None \<Rightarrow> Inr s)"

definition zend_symtable_update :: "'v HashTable \<Rightarrow> zend_string \<Rightarrow> 'v zval \<Rightarrow> zend_error + ('v HashTable \<times> zptr option)" where
  "zend_symtable_update ht key pData =
     (case zend_handle_numeric_str (ZSTR_VAL key) of Some idx \<Rightarrow> zend_hash_index_update ht idx pData
      | None \<Rightarrow> zend_hash_update ht key pData)"

definition zend_symtable_find :: "'v HashTable \<Rightarrow> zend_string \<Rightarrow> zptr option" where
  "zend_symtable_find ht key =
     (case zend_handle_numeric_str (ZSTR_VAL key) of Some idx \<Rightarrow> zend_hash_index_find ht idx
      | None \<Rightarrow> zend_hash_find ht key)"

definition zend_symtable_del :: "'v HashTable \<Rightarrow> zend_string \<Rightarrow> 'v HashTable \<times> bool" where
  "zend_symtable_del ht key =
     (case zend_handle_numeric_str (ZSTR_VAL key) of Some idx \<Rightarrow> zend_hash_index_del ht idx
      | None \<Rightarrow> zend_hash_del ht key)"

section \<open>Decimal numerals\<close>

definition digit :: "nat \<Rightarrow> char" where "digit d = char_of (48 + d)"

definition dval :: "char \<Rightarrow> nat" where "dval c = of_char c - 48"

fun nat_dec :: "nat \<Rightarrow> string" where
  "nat_dec n = (if n < 10 then [digit n] else nat_dec (n div 10) @ [digit (n mod 10)])"

declare nat_dec.simps [simp del]

definition dec_val :: "string \<Rightarrow> nat" where
  "dec_val s = foldl (\<lambda>a c. a * 10 + dval c) 0 s"

lemma of_char_int: "(of_char c :: int) = int (of_char c)"
  by (simp add: of_nat_of_char)

lemma is_digit_iff: "is_digit c \<longleftrightarrow> 48 \<le> (of_char c :: nat) \<and> (of_char c :: nat) \<le> 57"
proof -
  define n where "n = (of_char c :: nat)"
  have "n < 256" by (simp add: n_def)
  moreover have "(of_char c :: int) = int n" by (simp add: n_def of_char_int)
  ultimately show ?thesis by (auto simp: is_digit_def schar_def n_def[symmetric])
qed

lemma digit_props: "d < 10 \<Longrightarrow> is_digit (digit d) \<and> dval (digit d) = d"
  by (simp add: is_digit_iff digit_def dval_def)

lemma digit_0: "digit 0 = CHR ''0''"
  by (rule of_char_eqI[where 'a=nat]) (simp add: digit_def)

lemma digit_dval: "is_digit c \<Longrightarrow> digit (dval c) = c \<and> dval c < 10"
  by (auto simp: is_digit_iff digit_def dval_def)

lemma char_val_digit: "is_digit c \<Longrightarrow> char_val c - 48 = of_nat (dval c)"
proof -
  assume "is_digit c"
  then have b: "48 \<le> (of_char c :: nat)" "(of_char c :: nat) \<le> 57" by (auto simp: is_digit_iff)
  have "char_val c = of_nat (of_char c)"
    using b by (simp add: char_val_def of_char_int)
  then show ?thesis using b by (simp add: dval_def of_nat_diff)
qed

lemma dec_val_snoc [simp]: "dec_val (s @ [c]) = dec_val s * 10 + dval c" "dec_val [] = 0"
  by (simp_all add: dec_val_def)

lemma numeric_loop_digits:
  "numeric_loop (of_nat a) cs =
     (if list_all is_digit cs then Some (of_nat (foldl (\<lambda>a c. a * 10 + dval c) a cs)) else None)"
proof (induction cs arbitrary: a)
  case (Cons c cs)
  then show ?case using char_val_digit[of c] Cons[of "a * 10 + dval c"] by simp
qed simp

lemma numeric_loop_dec:
  "is_digit c \<Longrightarrow> numeric_loop (char_val c - 48) cs =
     (if list_all is_digit cs then Some (of_nat (dec_val (c # cs))) else None)"
  using numeric_loop_digits[of "dval c" cs] by (simp add: char_val_digit dec_val_def)

lemma dec_val_bound: "list_all is_digit s \<Longrightarrow> dec_val s < 10 ^ length s"
proof (induction s rule: rev_induct)
  case (snoc c s)
  then show ?case using digit_dval[of c] by simp
qed simp

text \<open>The canonical numeral of a number, and that it is the only one.\<close>

lemma nat_dec_props:
  "list_all is_digit (nat_dec n) \<and> dec_val (nat_dec n) = n \<and> nat_dec n \<noteq> []
   \<and> (hd (nat_dec n) = CHR ''0'' \<longrightarrow> n = 0)"
proof (induction n rule: nat_dec.induct)
  case (1 n)
  have z: "digit d = CHR ''0'' \<Longrightarrow> d < 10 \<Longrightarrow> d = 0" for d
    using digit_props[of d] by (simp add: dval_def)
  show ?case
  proof (cases "n < 10")
    case True
    then have "nat_dec n = [digit n]" by (simp add: nat_dec.simps)
    then show ?thesis using True digit_props[of n] z[of n] by (simp add: dec_val_def)
  next
    case False
    then have e: "nat_dec n = nat_dec (n div 10) @ [digit (n mod 10)]" by (subst nat_dec.simps) simp
    have "n div 10 \<noteq> 0" using False by simp
    then show ?thesis using 1 False digit_props[of "n mod 10"] by (auto simp: e)
  qed
qed

lemma nat_dec_length: "n < 10 ^ Suc k \<Longrightarrow> length (nat_dec n) \<le> Suc k"
proof (induction k arbitrary: n)
  case 0
  then show ?case by (simp add: nat_dec.simps)
next
  case (Suc k)
  show ?case
  proof (cases "n < 10")
    case True
    then show ?thesis by (simp add: nat_dec.simps)
  next
    case False
    have "n div 10 < 10 ^ Suc k" using Suc.prems by (simp add: div_less_iff_less_mult mult.commute)
    then show ?thesis using Suc.IH False by (subst nat_dec.simps) simp
  qed
qed

lemma nat_dec_unique:
  "list_all is_digit s \<Longrightarrow> s \<noteq> [] \<Longrightarrow> hd s = CHR ''0'' \<longrightarrow> length s = 1 \<Longrightarrow> nat_dec (dec_val s) = s"
proof (induction s rule: rev_induct)
  case (snoc c s)
  then have c: "digit (dval c) = c" "dval c < 10" using digit_dval by auto
  show ?case
  proof (cases "s = []")
    case True
    then show ?thesis using c by (simp add: nat_dec.simps dec_val_def)
  next
    case False
    then have s: "list_all is_digit s" "hd s \<noteq> CHR ''0''" using snoc.prems by auto
    then have ih: "nat_dec (dec_val s) = s" using snoc.IH False by simp
    have "dec_val s \<noteq> 0"
    proof
      assume "dec_val s = 0"
      then have "s = [digit 0]" using ih by (simp add: nat_dec.simps)
      then show False using s(2) digit_0 by simp
    qed
    then show ?thesis using ih c by (subst nat_dec.simps) simp
  qed
qed simp

lemma print_ulong_nat_dec: "zend_print_ulong_to_buf num buf = nat_dec (unat num) @ buf"
proof (induction num buf rule: zend_print_ulong_to_buf.induct)
  case (1 num buf)
  have d: "unat (num div 10) = unat num div 10" "unat (num mod 10) = unat num mod 10"
    by (simp_all add: unat_div unat_mod)
  have c: "char_of (unat (num mod 10) + 48) = digit (unat num mod 10)" by (simp add: d digit_def add.commute)
  show ?case
  proof (cases "0 < num div 10")
    case True
    then have "\<not> unat num < 10" using d(1) by (auto simp: word_gt_0 unat_eq_0[symmetric] simp del: unat_eq_zero)
    then show ?thesis using 1[OF refl refl True] True c d(1)
      by (subst zend_print_ulong_to_buf.simps, subst nat_dec.simps) (simp add: Let_def)
  next
    case False
    then have "unat num div 10 = 0" using d(1) by (simp add: word_gt_0)
    then have "unat num < 10" by simp
    then show ?thesis using False c by (subst zend_print_ulong_to_buf.simps) (simp add: Let_def nat_dec.simps)
  qed
qed

section \<open>Printing and recognising\<close>

lemma long_max: "ZEND_LONG_MAX = of_nat (2 ^ 63 - 1)" "unat ZEND_LONG_MAX = 2 ^ 63 - 1"
  by (simp_all add: ZEND_LONG_MAX_def)

lemma sint_neg: "sint (w :: zend_ulong) < 0 \<longleftrightarrow> 2 ^ 63 \<le> unat w"
proof -
  have u: "uint w < 2 ^ 64" "0 \<le> uint w" using uint_lt2p[of w] by simp_all
  then have "uint w div 2 ^ 63 < 2" by (simp add: div_less_iff_less_mult)
  then have "uint w div 2 ^ 63 = 0 \<or> uint w div 2 ^ 63 = 1"
    using u(2) by (smt (verit) pos_imp_zdiv_nonneg_iff zero_less_power)
  then have b: "bit (uint w) 63 \<longleftrightarrow> 2 ^ 63 \<le> uint w"
    unfolding bit_iff_odd by (auto simp: zdiv_eq_0_iff)
  have t: "take_bit 64 (uint w) = uint w" using u by (simp add: take_bit_int_eq_self_iff)
  have "sint w = signed_take_bit 63 (uint w)" using sint_uint[of w] by simp
  also have "\<dots> = take_bit 64 (uint w) - 2 ^ 64 * of_bool (bit (uint w) 63)"
    by (simp add: signed_take_bit_eq_take_bit_minus)
  finally have s: "sint w = uint w - 2 ^ 64 * of_bool (2 ^ 63 \<le> uint w)" unfolding t b .
  have n: "2 ^ 63 \<le> uint w \<longleftrightarrow> 2 ^ 63 \<le> unat w"
  proof -
    have "uint w = int (unat w)" by simp
    moreover have "2 ^ 63 \<le> int (unat w) \<longleftrightarrow> 2 ^ 63 \<le> unat w"
      by (metis of_nat_le_iff of_nat_numeral of_nat_power)
    ultimately show ?thesis by (simp only:)
  qed
  show ?thesis unfolding n[symmetric]
  proof (cases "2 ^ 63 \<le> uint w")
    case True
    have "sint w = uint w - 2 ^ 64" unfolding s by (simp only: True of_bool_eq mult_1_right)
    then show "(sint w < 0) = (2 ^ 63 \<le> uint w)" using u(1) True by linarith
  next
    case False
    have "sint w = uint w" unfolding s by (simp only: False of_bool_eq mult_zero_right diff_zero)
    then show "(sint w < 0) = (2 ^ 63 \<le> uint w)" using u(2) False by linarith
  qed
qed

lemma unat_uminus64: "w \<noteq> 0 \<Longrightarrow> unat (- w :: zend_ulong) = 2 ^ 64 - unat w"
proof -
  assume "w \<noteq> 0"
  have l: "unat w < 2 ^ 64" using unsigned_less[of w, where 'a=nat] by simp
  have "0 < unat w" using \<open>w \<noteq> 0\<close> by (simp add: unat_gt_0)
  have "of_nat (2 ^ 64 - unat w) + w = of_nat (2 ^ 64 - unat w + unat w)" by simp
  also have "\<dots> = 0" using l by simp
  finally have "- w = of_nat (2 ^ 64 - unat w)" by (simp add: eq_neg_iff_add_eq_0[symmetric])
  then show ?thesis using \<open>0 < unat w\<close> unat_of_nat_less_power[where 'a=64, of "2 ^ 64 - unat w"] by simp
qed

lemma long_to_str_eq:
  "ZSTR_VAL (zend_long_to_str w) =
     (if sint w < 0 then CHR ''-'' # nat_dec (unat (- w)) else nat_dec (unat w))"
proof (cases "w \<le> 9")
  case True
  then have u: "unat w \<le> 9" by (simp add: word_le_nat_alt)
  then show ?thesis using True sint_neg[of w] by (simp add: zend_long_to_str_def nat_dec.simps digit_def)
next
  case False
  then show ?thesis
    by (simp add: zend_long_to_str_def zend_print_long_to_buf_def print_ulong_nat_dec not_eq_complement)
qed

text \<open>The recogniser on a string of digits, plain and after a minus sign.\<close>

lemma digit_bounds: "is_digit c \<Longrightarrow> \<not> 57 < schar c \<and> \<not> schar c < 48 \<and> c \<noteq> CHR ''-''"
  by (auto simp: is_digit_def schar_def)

lemma recognise_plain:
  assumes "is_digit c"
  shows "zend_handle_numeric_str (c # cs) =
    (if (c = CHR ''0'' \<and> cs \<noteq> []) \<or> length cs > 18 \<or> \<not> list_all is_digit cs \<or> 2 ^ 63 \<le> dec_val (c # cs) then None
     else Some (of_nat (dec_val (c # cs))))"
proof (cases "length cs \<le> 18 \<and> list_all is_digit cs")
  case True
  then have "dec_val (c # cs) < 10 ^ length (c # cs)" using assms by (intro dec_val_bound) simp
  also have "(10::nat) ^ length (c # cs) \<le> 10 ^ 19" using True by (intro power_increasing) auto
  finally have "dec_val (c # cs) < 2 ^ 64" by simp
  then have "unat (of_nat (dec_val (c # cs)) :: zend_ulong) = dec_val (c # cs)"
    by (intro unat_of_nat_less_power) simp
  then have "ZEND_LONG_MAX < (of_nat (dec_val (c # cs)) :: zend_ulong) \<longleftrightarrow> 2 ^ 63 \<le> dec_val (c # cs)"
    by (auto simp: word_less_nat_alt long_max(2))
  then show ?thesis using True assms digit_bounds[OF assms] numeric_loop_dec[OF assms, of cs]
    by (auto simp: zend_handle_numeric_str_def zend_handle_numeric_str_ex_def MAX_LENGTH_OF_LONG_def Let_def)
next
  case False
  then show ?thesis using assms digit_bounds[OF assms] numeric_loop_dec[OF assms, of cs]
    by (auto simp: zend_handle_numeric_str_def zend_handle_numeric_str_ex_def MAX_LENGTH_OF_LONG_def Let_def)
qed

lemma recognise_minus:
  assumes "is_digit c"
  shows "zend_handle_numeric_str (CHR ''-'' # c # cs) =
    (if c = CHR ''0'' \<or> length cs > 18 \<or> \<not> list_all is_digit cs \<or> 2 ^ 63 < dec_val (c # cs) then None
     else Some (- of_nat (dec_val (c # cs))))"
proof (cases "length cs \<le> 18 \<and> list_all is_digit cs \<and> c \<noteq> CHR ''0''")
  case True
  then have "dec_val (c # cs) < 10 ^ length (c # cs)" using assms by (intro dec_val_bound) simp
  also have "(10::nat) ^ length (c # cs) \<le> 10 ^ 19" using True by (intro power_increasing) auto
  finally have v: "dec_val (c # cs) < 2 ^ 64" by simp
  have "dec_val (c # cs) \<noteq> 0"
  proof
    assume z: "dec_val (c # cs) = 0"
    have "nat_dec (dec_val (c # cs)) = c # cs" using True assms by (intro nat_dec_unique) auto
    then show False using z True digit_0 by (simp add: nat_dec.simps)
  qed
  then have "of_nat (dec_val (c # cs)) - 1 = (of_nat (dec_val (c # cs) - 1) :: zend_ulong)" by (simp add: of_nat_diff)
  moreover have "unat (of_nat (dec_val (c # cs) - 1) :: zend_ulong) = dec_val (c # cs) - 1"
    using v by (intro unat_of_nat_less_power) simp
  ultimately have "ZEND_LONG_MAX < (of_nat (dec_val (c # cs)) - 1 :: zend_ulong) \<longleftrightarrow> 2 ^ 63 < dec_val (c # cs)"
    by (auto simp: word_less_nat_alt long_max(2))
  then show ?thesis using True assms numeric_loop_dec[OF assms, of cs]
    by (auto simp: zend_handle_numeric_str_def zend_handle_numeric_str_ex_def MAX_LENGTH_OF_LONG_def Let_def schar_def)
next
  case False
  then show ?thesis using assms numeric_loop_dec[OF assms, of cs]
    by (auto simp: zend_handle_numeric_str_def zend_handle_numeric_str_ex_def MAX_LENGTH_OF_LONG_def Let_def schar_def)
qed

section \<open>Properties\<close>

lemma long_to_str_numeric:
  "zend_handle_numeric_str (ZSTR_VAL (zend_long_to_str w)) = Some w"
proof -
  have split: "\<exists>c cs. nat_dec n = c # cs \<and> is_digit c \<and> list_all is_digit cs \<and> dec_val (c # cs) = n
      \<and> (c = CHR ''0'' \<longrightarrow> n = 0) \<and> (n < 2 ^ 64 \<longrightarrow> length cs \<le> 19) \<and> (n \<le> 2 ^ 63 \<longrightarrow> length cs \<le> 18)" for n
    using nat_dec_props[of n] nat_dec_length[of n 19] nat_dec_length[of n 18] by (cases "nat_dec n") auto
  show ?thesis
  proof (cases "sint w < 0")
    case True
    then have "2 ^ 63 \<le> unat w" "w \<noteq> 0" using sint_neg[of w] by auto
    then have n: "unat (- w) \<le> 2 ^ 63" "unat (- w) \<noteq> 0"
      using unat_uminus64[of w] unsigned_less[of w, where 'a=nat] by auto
    moreover obtain c cs where "nat_dec (unat (- w)) = c # cs" "is_digit c" "list_all is_digit cs"
      "dec_val (c # cs) = unat (- w)" "c = CHR ''0'' \<longrightarrow> unat (- w) = 0" "length cs \<le> 18"
      using split[of "unat (- w)"] n by auto
    ultimately show ?thesis using True recognise_minus[of c cs] by (simp add: long_to_str_eq)
  next
    case False
    then have n: "unat w < 2 ^ 63" using sint_neg[of w] by auto
    moreover obtain c cs where "nat_dec (unat w) = c # cs" "is_digit c" "list_all is_digit cs"
      "dec_val (c # cs) = unat w" "c = CHR ''0'' \<longrightarrow> unat w = 0" "length cs \<le> 18"
      using split[of "unat w"] n by auto
    moreover from this have "c = CHR ''0'' \<longrightarrow> cs = []"
      by (metis digit_0 list.sel(3) nat_dec.simps zero_less_numeral)
    ultimately show ?thesis using False recognise_plain[of c cs] by (simp add: long_to_str_eq)
  qed
qed

text \<open>C22: every 64-bit integer printed by \<open>zend_long_to_str\<close> is recognised as a numeric key and
  read back as the same integer, the smallest one (\<open>-9223372036854775808\<close>) included.\<close>

theorem numeric_key_roundtrip:
  "zend_handle_numeric_str (ZSTR_VAL (zend_long_to_str w)) = Some w"
  by (rule long_to_str_numeric)

text \<open>C23: only canonical numerals are numeric keys: a string accepted as the integer \<open>w\<close> is
  the string \<open>zend_long_to_str\<close> prints for \<open>w\<close>, so no two different strings and no string
  and its integer can name two elements of an array.\<close>

theorem numeric_key_canonical:
  assumes "zend_handle_numeric_str s = Some w"
  shows "s = ZSTR_VAL (zend_long_to_str w)"
proof -
  obtain c cs where s: "s = c # cs" using assms by (cases s) (auto simp: zend_handle_numeric_str_def)
  show ?thesis
  proof (cases "is_digit c")
    case True
    have r: "\<not> (c = CHR ''0'' \<and> cs \<noteq> [])" "list_all is_digit cs" "dec_val s < 2 ^ 63" "w = of_nat (dec_val s)"
      using assms recognise_plain[OF True, of cs] s by (auto split: if_splits)
    have u: "unat w = dec_val s" using r(3,4) unat_of_nat_less_power[where 'a=64, of "dec_val s"] by simp
    have "nat_dec (dec_val s) = s" using r True s by (intro nat_dec_unique) auto
    then show ?thesis using u r(3) sint_neg[of w] by (simp add: long_to_str_eq)
  next
    case False
    then have c: "c = CHR ''-''" using assms s
      by (auto simp: zend_handle_numeric_str_def is_digit_def split: if_splits list.splits)
    then obtain d ds where d: "cs = d # ds" "is_digit d"
      using assms s by (auto simp: zend_handle_numeric_str_def schar_def split: if_splits list.splits)
    have r: "d \<noteq> CHR ''0''" "list_all is_digit ds" "dec_val cs \<le> 2 ^ 63" "w = - of_nat (dec_val cs)"
      using assms recognise_minus[OF d(2), of ds] s c d(1) by (auto split: if_splits)
    have nd: "nat_dec (dec_val cs) = cs" using r d by (intro nat_dec_unique) auto
    have nz: "dec_val cs \<noteq> 0"
    proof
      assume "dec_val cs = 0"
      then have "cs = [digit 0]" using nd by (simp add: nat_dec.simps)
      then show False using r(1) d(1) digit_0 by simp
    qed
    have v: "unat (of_nat (dec_val cs) :: zend_ulong) = dec_val cs"
      using r(3) by (intro unat_of_nat_less_power) simp
    then have m: "unat (- w) = dec_val cs" using r(4) by simp
    have "of_nat (dec_val cs) \<noteq> (0 :: zend_ulong)" using v nz by auto
    then have "unat w = 2 ^ 64 - dec_val cs" using unat_uminus64[of "of_nat (dec_val cs)"] v r(4) by simp
    then have "sint w < 0" using r(3) sint_neg[of w] by simp
    then show ?thesis using m nd s c by (simp add: long_to_str_eq)
  qed
qed

theorem numeric_key_canonical_witness:
  "zend_handle_numeric_str ''-12'' = Some (- 12) \<and> ''-12'' = ZSTR_VAL (zend_long_to_str (- 12))"
proof -
  have a: "zend_handle_numeric_str ''-12'' = Some (- 12)"
    by (simp add: zend_handle_numeric_str_def zend_handle_numeric_str_ex_def schar_def is_digit_def
        char_val_def MAX_LENGTH_OF_LONG_def ZEND_LONG_MAX_def)
  show ?thesis using a numeric_key_canonical[OF a] by simp
qed

lemma symtable_update_spec:
  assumes "ht_inv ht" "proper v" "nTableSize ht < 2 ^ 30"
  shows "\<exists>r. zend_symtable_update ht key v = Inr r \<and> ins_spec ht (symtable_key (ZSTR_VAL key)) v r"
  using index_update_spec[OF assms] update_spec[OF assms, of key]
  by (simp add: zend_symtable_update_def symtable_key_def split: option.split)

lemma symtable_del_result:
  assumes "ht_inv ht"
  shows "del_result ht (symtable_key (ZSTR_VAL key)) (zend_symtable_del ht key)"
  using index_del_result[OF assms] str_del_result[OF assms, of "ZSTR_VAL key"]
  by (simp add: zend_symtable_del_def symtable_key_def zend_hash_del_str split: option.split)

lemma symtable_find_elems:
  "ht_inv ht \<Longrightarrow> map_option (read_zptr ht) (zend_symtable_find ht key) = map_of (elems ht) (symtable_key (ZSTR_VAL key))"
  by (simp add: zend_symtable_find_def symtable_key_def index_find_elems find_str_find str_find_elems split: option.split)

text \<open>The symbol-table functions treat a string key as the integer it spells, or else as
  the string: what is stored under one spelling is found and deleted under the same array
  key by every access path.\<close>

theorem symtable_functions_use_key:
  assumes "ht_inv ht" "proper v" "nTableSize ht < 2 ^ 30"
  shows "(\<exists>ht' i. zend_symtable_update ht key v = Inr (ht', Some (PBucket i)) \<and> ht_inv ht'
      \<and> elems ht' = alist_put (symtable_key (ZSTR_VAL key)) v (elems ht)
      \<and> map_option (read_zptr ht') (zend_symtable_find ht' key) = Some v)
    \<and> elems (fst (zend_symtable_del ht key)) = alist_del (symtable_key (ZSTR_VAL key)) (elems ht)"
proof -
  have "elems (fst (zend_symtable_del ht key)) = alist_del (symtable_key (ZSTR_VAL key)) (elems ht)"
    using symtable_del_result[OF assms(1), of key]
    by (auto simp: del_result_def del_spec_def alist_del_absent split: if_splits)
  moreover obtain ht' i where u: "zend_symtable_update ht key v = Inr (ht', Some (PBucket i))" "ht_inv ht'"
    "elems ht' = alist_put (symtable_key (ZSTR_VAL key)) v (elems ht)"
    using symtable_update_spec[OF assms, of key] unfolding ins_spec_def by (metis prod.collapse)
  ultimately show ?thesis using symtable_find_elems[OF u(2), of key] by simp
qed

theorem symtable_functions_use_key_witness:
  "\<exists>ht' i. zend_symtable_update zend_empty_array (zend_long_to_str 7) (ZVAL (1::nat)) = Inr (ht', Some (PBucket i))
     \<and> elems ht' = [(Inl 7, ZVAL 1)]"
proof -
  have "ZSTR_VAL (zend_long_to_str 7) = ''7''"
    by (simp add: zend_long_to_str_def) (rule of_char_eqI[where 'a=nat], simp)
  then have "zend_handle_numeric_str (ZSTR_VAL (zend_long_to_str 7)) = Some 7"
    by (simp add: zend_handle_numeric_str_def zend_handle_numeric_str_ex_def schar_def is_digit_def
        char_val_def MAX_LENGTH_OF_LONG_def ZEND_LONG_MAX_def)
  then have "symtable_key (ZSTR_VAL (zend_long_to_str 7)) = Inl 7" by (simp add: symtable_key_def)
  then show ?thesis
    using symtable_functions_use_key[of "zend_empty_array :: nat HashTable" "ZVAL 1" "zend_long_to_str 7"]
    by (auto simp: proper_def)
qed

end
