(* ===== verification/ZendHashSize.thy ===== *)
theory ZendHashSize
  imports ZendHash
begin

text \<open>
  The arithmetic the hash table rests on: the rounding of table sizes to powers of two,
  in the branch that uses the processor's bit scan and in the portable one, the masks
  made from the sizes, and the string hash with its loop unrolled eight times.
\<close>

section \<open>Powers of two\<close>

lemma bit_top: "unat w < 2 ^ Suc n \<Longrightarrow> n < 32 \<Longrightarrow> bit (w :: u32) n \<longleftrightarrow> 2 ^ n \<le> unat w"
proof -
  assume a: "unat w < 2 ^ Suc n" "n < 32"
  have "bit w n \<longleftrightarrow> bit (unat w) n" using a(2) by (simp add: bit_unsigned_iff)
  then have "bit w n \<longleftrightarrow> odd (unat w div 2 ^ n)" by (simp add: bit_iff_odd)
  moreover have "unat w div 2 ^ n < 2" using a(1) by (simp add: div_less_iff_less_mult)
  moreover have "unat w div 2 ^ n = 0 \<longleftrightarrow> unat w < 2 ^ n" by (simp add: div_eq_0_iff)
  ultimately show ?thesis by (metis even_zero less_2_cases linorder_not_less odd_one One_nat_def)
qed

lemma clz_from_highest:
  assumes "unat w < 2 ^ n" "n \<le> 32" "w \<noteq> 0"
  shows "\<exists>k < n. clz_from n w = 31 - k \<and> 2 ^ k \<le> unat w \<and> unat w < 2 ^ Suc k"
  using assms
proof (induction n)
  case 0
  then show ?case by (simp add: unat_gt_0[symmetric] del: unat_gt_0)
next
  case (Suc n)
  show ?case
  proof (cases "bit w n")
    case True
    then show ?thesis using Suc.prems bit_top[of w n] by (intro exI[of _ n]) simp
  next
    case False
    then have "unat w < 2 ^ n" using Suc.prems bit_top[of w n] by simp
    with Suc False show ?thesis by (auto intro: less_SucI)
  qed
qed

lemma xor_31: "k < 32 \<Longrightarrow> unat ((of_nat (31 - k) :: u32) XOR 0x1f) = k"
proof -
  have "\<forall>k\<in>set [0..<32]. unat ((of_nat (31 - k) :: u32) XOR 0x1f) = k" by code_simp
  then show "k < 32 \<Longrightarrow> unat ((of_nat (31 - k) :: u32) XOR 0x1f) = k" by simp
qed

lemma pred_word:
  assumes "8 < n" "n < HT_MAX_SIZE"
  shows "unat (of_nat n - 1 :: u32) = n - 1" "of_nat n - 1 \<noteq> (0 :: u32)"
proof -
  have e: "of_nat n - 1 = (of_nat (n - 1) :: u32)" using assms by (simp add: of_nat_diff)
  show u: "unat (of_nat n - 1 :: u32) = n - 1" unfolding e
    using assms by (intro unat_of_nat_less_power) (simp add: HT_MAX_SIZE_def)
  show "of_nat n - 1 \<noteq> (0 :: u32)"
  proof
    assume "of_nat n - 1 = (0 :: u32)"
    then have "unat (of_nat n - 1 :: u32) = 0" by simp
    then show False using u assms(1) by linarith
  qed
qed

lemma highest_bit:
  assumes "8 < n" "n < HT_MAX_SIZE"
  obtains k where "3 \<le> k" "k \<le> 30" "2 ^ k < n" "n \<le> 2 ^ Suc k" "builtin_clz (of_nat n - 1) = 31 - k"
proof -
  note u = pred_word[OF assms]
  have "unat (of_nat n - 1 :: u32) < 2 ^ 32" using u assms by (simp add: HT_MAX_SIZE_def)
  then obtain k where k: "k < 32" "builtin_clz (of_nat n - 1) = 31 - k" "2 ^ k \<le> n - 1" "n - 1 < 2 ^ Suc k"
    using clz_from_highest[of "of_nat n - 1" 32] u unfolding builtin_clz_def by auto
  have "\<not> k < 3"
  proof
    assume "k < 3"
    then have "(2::nat) ^ Suc k \<le> 2 ^ 3" by (intro power_increasing) auto
    then show False using k(4) assms(1) by simp
  qed
  moreover have "\<not> 30 < k"
  proof
    assume "30 < k"
    then have "(2::nat) ^ 31 \<le> 2 ^ k" by (intro power_increasing) auto
    then show False using k(3) assms by (simp add: HT_MAX_SIZE_def)
  qed
  ultimately show thesis using that[of k] k assms(1) by simp
qed

lemma check_size_power:
  assumes "8 < n" "n < HT_MAX_SIZE"
  obtains k where "3 \<le> k" "k \<le> 30" "2 ^ k < n" "n \<le> 2 ^ Suc k" "zend_hash_check_size n = Inr (2 ^ Suc k)"
proof -
  obtain k where k: "3 \<le> k" "k \<le> 30" "2 ^ k < n" "n \<le> 2 ^ Suc k" "builtin_clz (of_nat n - 1) = 31 - k"
    using highest_bit[OF assms] by metis
  have "push_bit k (2 :: u32) = 2 ^ Suc k" by (simp add: push_bit_eq_mult)
  then have "unat (push_bit (unat ((of_nat (31 - k) :: u32) XOR 0x1f)) (2 :: u32)) = 2 ^ Suc k"
    using xor_31[of k] k(2) unat_power32[of "Suc k"] by simp
  then have "zend_hash_check_size n = Inr (2 ^ Suc k)"
    using assms k(5) by (simp add: zend_hash_check_size_def HT_MIN_SIZE_def)
  then show thesis using that k by blast
qed

section \<open>Smearing the highest bit\<close>

text \<open>The top \<open>c\<close> bits up to position \<open>k\<close> are set, nothing above.\<close>

definition smeared :: "nat \<Rightarrow> nat \<Rightarrow> u32 \<Rightarrow> bool" where
  "smeared k c w \<longleftrightarrow> (\<forall>j. bit w j \<longrightarrow> j \<le> k) \<and> (\<forall>j. j \<le> k \<longrightarrow> k < j + c \<longrightarrow> bit w j)"

lemma smeared_step: assumes "smeared k c w" shows "smeared k (c + c) (w OR drop_bit c w)"
  unfolding smeared_def
proof (intro conjI allI impI)
  fix j assume "bit (w OR drop_bit c w) j"
  then have "bit w j \<or> bit w (c + j)" by (simp add: bit_or_iff bit_drop_bit_eq)
  then show "j \<le> k" using assms by (auto simp: smeared_def)
next
  fix j assume j: "j \<le> k" "k < j + (c + c)"
  then have "k < j + c \<or> (c + j \<le> k \<and> k < (c + j) + c)" by linarith
  then have "bit w j \<or> bit w (c + j)" using assms j(1) by (auto simp: smeared_def)
  then show "bit (w OR drop_bit c w) j" by (simp add: bit_or_iff bit_drop_bit_eq)
qed

lemma smeared_full: "smeared k 32 w \<Longrightarrow> k < 32 \<Longrightarrow> w = mask (Suc k)"
  by (rule bit_word_eqI) (auto simp: smeared_def bit_mask_iff)

lemma smeared_start: assumes "unat w < 2 ^ Suc k" "2 ^ k \<le> unat w" "k < 32" shows "smeared k 1 w"
  unfolding smeared_def
proof (intro conjI allI impI)
  fix j assume b: "bit w j"
  have "bit (unat w) j" using b by (simp add: bit_unsigned_iff)
  then have "2 ^ j \<le> unat w" by (metis bit_iff_odd div_less even_zero not_less)
  with assms(1) have "(2::nat) ^ j < 2 ^ Suc k" by linarith
  then show "j \<le> k" using power_less_imp_less_exp[of "2::nat" j "Suc k"] by simp
next
  fix j assume "j \<le> k" "k < j + 1"
  then have "j = k" by simp
  then show "bit w j" using bit_top[of w k] assms by simp
qed

lemma smear_word:
  assumes "unat n0 < 2 ^ Suc k" "2 ^ k \<le> unat n0" "k \<le> 30"
  shows "(let n1 = n0 OR drop_bit 1 n0; n2 = n1 OR drop_bit 2 n1; n3 = n2 OR drop_bit 4 n2;
            n4 = n3 OR drop_bit 8 n3; n5 = n4 OR drop_bit 16 n4 in unat (n5 + 1 :: u32)) = 2 ^ Suc k"
proof -
  let ?step = "\<lambda>c w. w OR drop_bit c w :: u32"
  have "smeared k 1 n0" using assms by (intro smeared_start) auto
  then have "smeared k 2 (?step 1 n0)" using smeared_step[of k 1] by (simp only: one_add_one)
  then have "smeared k 4 (?step 2 (?step 1 n0))" using smeared_step[of k 2] by (metis numeral_Bit0)
  then have "smeared k 8 (?step 4 (?step 2 (?step 1 n0)))" using smeared_step[of k 4] by (metis numeral_Bit0)
  then have "smeared k 16 (?step 8 (?step 4 (?step 2 (?step 1 n0))))" using smeared_step[of k 8] by (metis numeral_Bit0)
  then have "smeared k 32 (?step 16 (?step 8 (?step 4 (?step 2 (?step 1 n0)))))"
    using smeared_step[of k 16] by (metis numeral_Bit0)
  then have "?step 16 (?step 8 (?step 4 (?step 2 (?step 1 n0)))) = mask (Suc k)"
    using assms(3) by (intro smeared_full) auto
  moreover have "mask (Suc k) + 1 = (2 ^ Suc k :: u32)" by (simp add: mask_eq_exp_minus_1)
  ultimately show ?thesis unfolding Let_def using unat_power32[of "Suc k"] assms(3) by simp
qed

section \<open>Properties\<close>

text \<open>Every requested size below the limit is rounded up to the least power of two
  that holds it and is at least the minimum size 8.\<close>

theorem check_size_least:
  assumes "n < HT_MAX_SIZE"
  shows "\<exists>k. zend_hash_check_size n = Inr (2 ^ k) \<and> n \<le> 2 ^ k \<and> 8 \<le> (2::nat) ^ k
           \<and> (\<forall>j. 3 \<le> j \<and> n \<le> 2 ^ j \<longrightarrow> k \<le> j)"
proof (cases "n \<le> 8")
  case True
  then show ?thesis by (intro exI[of _ 3]) (simp add: zend_hash_check_size_def HT_MIN_SIZE_def)
next
  case False
  then obtain k where k: "3 \<le> k" "2 ^ k < n" "n \<le> 2 ^ Suc k" "zend_hash_check_size n = Inr (2 ^ Suc k)"
    using check_size_power[of n] assms by (metis linorder_not_le)
  have "Suc k \<le> j" if "n \<le> 2 ^ j" for j
  proof -
    have "(2::nat) ^ k < 2 ^ j" using that k(2) by linarith
    then show ?thesis using power_less_imp_less_exp[of "2::nat" k j] by simp
  qed
  then show ?thesis using k False by (intro exI[of _ "Suc k"]) auto
qed

theorem check_size_least_witness:
  "\<exists>k. zend_hash_check_size 1000 = Inr (2 ^ k) \<and> 1000 \<le> (2::nat) ^ k \<and> 8 \<le> (2::nat) ^ k
     \<and> (\<forall>j. 3 \<le> j \<and> 1000 \<le> (2::nat) ^ j \<longrightarrow> k \<le> j)"
  using check_size_least[of 1000] by (simp add: HT_MAX_SIZE_def)

text \<open>The branch compiled for processors with a bit-scan instruction and the portable
  branch that smears the highest bit agree on every size, the refused ones included.\<close>

theorem check_size_branches_agree:
  "zend_hash_check_size_portable n = zend_hash_check_size n"
proof (cases "8 < n \<and> n < HT_MAX_SIZE")
  case True
  then have n: "8 < n" "n < HT_MAX_SIZE" by auto
  obtain k where k: "3 \<le> k" "k \<le> 30" "2 ^ k < n" "n \<le> 2 ^ Suc k" "zend_hash_check_size n = Inr (2 ^ Suc k)"
    using check_size_power[OF n] .
  have "unat (of_nat n - 1 :: u32) < 2 ^ Suc k" "2 ^ k \<le> unat (of_nat n - 1 :: u32)"
    using pred_word(1)[OF n] k(3,4) n(1) by linarith+
  then show ?thesis using smear_word[of "of_nat n - 1" k] k(2,5) n
    by (simp add: zend_hash_check_size_portable_def HT_MIN_SIZE_def Let_def)
next
  case False
  then show ?thesis
    by (auto simp: zend_hash_check_size_portable_def zend_hash_check_size_def HT_MIN_SIZE_def)
qed

text \<open>The unrolled string hash is the plain times-33 fold over the bytes with the top bit
  set, so the hash of no string is 0, the value that marks a hash not yet computed.\<close>

theorem hash_func_unrolled:
  "zend_inline_hash_func str = foldl (\<lambda>h c. h * 33 + char_val c) 5381 str OR 0x8000000000000000
   \<and> zend_inline_hash_func str \<noteq> 0"
proof -
  have loop: "zend_inline_hash_loop h s = foldl (\<lambda>h c. h * 33 + char_val c) h s" for h s
    by (induction h s rule: zend_inline_hash_loop.induct) (simp_all add: algebra_simps)
  have "bit (w OR 0x8000000000000000 :: zend_ulong) 63" for w
    by (simp add: bit_or_iff)
  then have "zend_inline_hash_func str \<noteq> 0" unfolding zend_inline_hash_func_def by (metis bit_0_eq bot_apply bot_bool_def)
  then show ?thesis by (simp add: zend_inline_hash_func_def loop)
qed

text \<open>The largest size the engine accepts has an empty hash area: the mask of a table of
  \<open>HT_MAX_SIZE\<close> buckets wraps around to 0, and \<open>zend_hash_check_size\<close> returns that size for
  every request above \<open>2 ^ 30\<close>.\<close>

theorem max_size_mask_wraps:
  "zend_hash_check_size (2 ^ 30 + 1) = Inr HT_MAX_SIZE \<and> HT_SIZE_TO_MASK HT_MAX_SIZE = 0
   \<and> HT_HASH_LEN (HT_SIZE_TO_MASK HT_MAX_SIZE) = 0"
proof -
  have n: "8 < (2::nat) ^ 30 + 1" "(2::nat) ^ 30 + 1 < HT_MAX_SIZE" by (simp_all add: HT_MAX_SIZE_def)
  obtain k where k: "k \<le> 30" "(2::nat) ^ 30 + 1 \<le> 2 ^ Suc k" "zend_hash_check_size (2 ^ 30 + 1) = Inr (2 ^ Suc k)"
    using check_size_power[OF n] by metis
  have "30 < Suc k"
    using k(2) by (intro power_less_imp_less_exp[of "2::nat" 30 "Suc k"]) linarith+
  then have "k = 30" using k(1) by simp
  then show ?thesis using k(3) by (simp add: HT_MAX_SIZE_def HT_SIZE_TO_MASK_def HT_HASH_LEN_def)
qed

end
