(* ===== verification/ZendArrayRun.thy ===== *)
theory ZendArrayRun
  imports ZendHashSeq ZendNumericKey ZendHashSize
begin

text \<open>
  Programs on arrays. An array operation is one of the calls the engine makes on a table;
  \<open>exec_op\<close> runs it on the hash table, \<open>op_spec\<close> says what it may do to the list of
  elements. Every table that operations can reach from a new one is consistent and
  bounded, no operation on it fails, and each step is a step of the specification.
\<close>

section \<open>Operations\<close>

datatype 'v array_op =
    Update zend_string "'v zval" | StrUpdate string "'v zval" | IndexUpdate zend_ulong "'v zval"
  | SymUpdate zend_string "'v zval" | Add zend_string "'v zval" | StrAdd string "'v zval" | IndexAdd zend_ulong "'v zval"
  | NextInsert "'v zval" | Del zend_string | StrDel string | IndexDel zend_ulong | SymDel zend_string
  | Rehash | Clean

definition table_of :: "zend_error + ('v HashTable \<times> zptr option) \<Rightarrow> zend_error + 'v HashTable" where
  "table_of r = map_sum id fst r"

fun exec_op :: "'v HashTable \<Rightarrow> 'v array_op \<Rightarrow> zend_error + 'v HashTable" where
  "exec_op ht (Update key v) = table_of (zend_hash_update ht key v)"
| "exec_op ht (StrUpdate str v) = table_of (zend_hash_str_update ht str v)"
| "exec_op ht (IndexUpdate h v) = table_of (zend_hash_index_update ht h v)"
| "exec_op ht (SymUpdate key v) = table_of (zend_symtable_update ht key v)"
| "exec_op ht (Add key v) = table_of (zend_hash_add ht key v)"
| "exec_op ht (StrAdd str v) = table_of (zend_hash_str_add ht str v)"
| "exec_op ht (IndexAdd h v) = table_of (zend_hash_index_add ht h v)"
| "exec_op ht (NextInsert v) = table_of (zend_hash_next_index_insert ht v)"
| "exec_op ht (Del key) = Inr (fst (zend_hash_del ht key))"
| "exec_op ht (StrDel str) = Inr (fst (zend_hash_str_del ht str))"
| "exec_op ht (IndexDel h) = Inr (fst (zend_hash_index_del ht h))"
| "exec_op ht (SymDel key) = Inr (fst (zend_symtable_del ht key))"
| "exec_op ht Rehash = Inr (if flat ht then ht else zend_hash_rehash ht)"
| "exec_op ht Clean = Inr (zend_hash_clean ht)"

fun op_value :: "'v array_op \<Rightarrow> 'v zval option" where
  "op_value (Update key v) = Some v"
| "op_value (StrUpdate str v) = Some v"
| "op_value (IndexUpdate h v) = Some v"
| "op_value (SymUpdate key v) = Some v"
| "op_value (Add key v) = Some v"
| "op_value (StrAdd str v) = Some v"
| "op_value (IndexAdd h v) = Some v"
| "op_value (NextInsert v) = Some v"
| "op_value _ = None"

definition op_ok :: "'v array_op \<Rightarrow> bool" where
  "op_ok op \<longleftrightarrow> (case op_value op of None \<Rightarrow> True | Some v \<Rightarrow> proper v)"

section \<open>Specification\<close>

text \<open>Adding keeps a present element; the key of an append is the only thing left open.\<close>

definition alist_add :: "'k \<Rightarrow> 'v \<Rightarrow> ('k \<times> 'v) list \<Rightarrow> ('k \<times> 'v) list" where
  "alist_add k v xs = (if k \<in> fst ` set xs then xs else xs @ [(k, v)])"

inductive op_spec :: "(hkey \<times> 'v zval) list \<Rightarrow> 'v array_op \<Rightarrow> (hkey \<times> 'v zval) list \<Rightarrow> bool" where
  spec_update: "op_spec xs (Update key v) (alist_put (Inr (ZSTR_VAL key)) v xs)"
| spec_str_update: "op_spec xs (StrUpdate str v) (alist_put (Inr str) v xs)"
| spec_index_update: "op_spec xs (IndexUpdate h v) (alist_put (Inl h) v xs)"
| spec_sym_update: "op_spec xs (SymUpdate key v) (alist_put (symtable_key (ZSTR_VAL key)) v xs)"
| spec_add: "op_spec xs (Add key v) (alist_add (Inr (ZSTR_VAL key)) v xs)"
| spec_str_add: "op_spec xs (StrAdd str v) (alist_add (Inr str) v xs)"
| spec_index_add: "op_spec xs (IndexAdd h v) (alist_add (Inl h) v xs)"
| spec_next: "op_spec xs (NextInsert v) (alist_add (Inl h) v xs)"
| spec_del: "op_spec xs (Del key) (alist_del (Inr (ZSTR_VAL key)) xs)"
| spec_str_del: "op_spec xs (StrDel str) (alist_del (Inr str) xs)"
| spec_index_del: "op_spec xs (IndexDel h) (alist_del (Inl h) xs)"
| spec_sym_del: "op_spec xs (SymDel key) (alist_del (symtable_key (ZSTR_VAL key)) xs)"
| spec_rehash: "op_spec xs Rehash xs"
| spec_clean: "op_spec xs Clean []"

inductive_simps op_spec_simps:
  "op_spec xs (Update key v) ys" "op_spec xs (IndexUpdate h v) ys" "op_spec xs (Add key v) ys" "op_spec xs (NextInsert v) ys"
  "op_spec xs (Del key) ys" "op_spec xs Rehash ys" "op_spec xs Clean ys"

section \<open>One step\<close>

text \<open>The step of an operation: it succeeds, keeps the invariant and the bound, and meets the specification.\<close>

definition good_step :: "nat \<Rightarrow> nat \<Rightarrow> 'v HashTable \<Rightarrow> (hkey \<times> 'v zval) list \<Rightarrow> zend_error + 'v HashTable \<Rightarrow> bool" where
  "good_step S n ht xs r \<longleftrightarrow> (\<exists>ht'. r = Inr ht' \<and> ht_inv ht' \<and> within S (Suc n) ht' \<and> elems ht' = xs)"

lemma good_update:
  assumes "within S n ht" "\<exists>r. f = Inr r \<and> ins_spec ht k v r" "\<And>ht' r. f = Inr (ht', r) \<Longrightarrow> grow_step ht ht'"
  shows "good_step S n ht (alist_put k v (elems ht)) (table_of f)"
proof -
  obtain ht' r where f: "f = Inr (ht', r)" "ins_spec ht k v (ht', r)" using assms(2) by (metis surj_pair)
  then show ?thesis using within_grow[OF assms(1) assms(3)[OF f(1)]]
    by (simp add: good_step_def table_of_def ins_spec_def)
qed

lemma good_add:
  assumes "within S n ht" "ht_inv ht" "\<And>ht' r. f = Inr (ht', r) \<Longrightarrow> grow_step ht ht'"
    "idx_of ht k = None \<Longrightarrow> \<exists>r. f = Inr r \<and> ins_spec ht k v r" "\<And>p. idx_of ht k = Some p \<Longrightarrow> f = Inr (ht, None)"
  shows "good_step S n ht (alist_add k v (elems ht)) (table_of f)"
proof (cases "idx_of ht k")
  case None
  then have "k \<notin> fst ` set (elems ht)" by (simp add: idx_of_None_iff)
  then show ?thesis using good_update[OF assms(1) assms(4)[OF None] assms(3)] by (simp add: alist_add_def alist_put_fresh)
next
  case (Some p)
  then have "k \<in> fst ` set (elems ht)" using idx_of_present[OF assms(2)] by blast
  then show ?thesis using assms(5)[OF Some] assms(2) within_mono[OF assms(1), of "Suc n"]
    by (simp add: good_step_def table_of_def alist_add_def)
qed

lemma within_frame:
  "within S n ht \<Longrightarrow> nTableSize ht' = nTableSize ht \<Longrightarrow> nNumOfElements ht' \<le> nNumOfElements ht
     \<Longrightarrow> flat ht' = flat ht \<Longrightarrow> within S n ht'"
  by (auto simp: within_def)

lemma flat_del_el_ex: "flat (zend_hash_del_el_ex ht idx prev) = flat ht"
proof -
  obtain p its where "zend_hash_del_el_ex ht idx prev = deleted ht idx prev p its"
    using del_el_ex_eq unfolding deleted_def by metis
  then show ?thesis by (simp add: flat_def)
qed

lemma flat_dels:
  "flat (fst (zend_hash_str_del ht str)) = flat ht" "flat (fst (zend_hash_index_del ht h)) = flat ht"
  by (auto simp: zend_hash_str_del_def zend_hash_index_del_def del_matching_def flat_del_el_ex Let_def split: option.split)

lemma ht_inv_count: "ht_inv ht \<Longrightarrow> nNumOfElements ht = length (elems ht)"
  using ht_inv_used[of ht] by (simp add: length_elems)

lemma good_del:
  assumes "within S n ht" "ht_inv ht" "del_result ht k r" "flat (fst r) = flat ht"
  shows "good_step S n ht (alist_del k (elems ht)) (Inr (fst r))"
proof -
  have r: "ht_inv (fst r)" "elems (fst r) = alist_del k (elems ht)" "nTableSize (fst r) = nTableSize ht"
    using assms(2,3) by (auto simp: del_result_def del_spec_def alist_del_absent split: if_splits)
  have "length (alist_del k (elems ht)) \<le> length (elems ht)" by (simp add: alist_del_def)
  then have "nNumOfElements (fst r) \<le> nNumOfElements ht" using ht_inv_count r(1,2) assms(2) by metis
  then have "within S n (fst r)" using within_frame[OF assms(1) r(3)] assms(4) by simp
  then show ?thesis using r within_mono[of S n "fst r" "Suc n"] by (simp add: good_step_def)
qed

lemma good_rehash:
  assumes "within S n ht" "ht_inv ht"
  shows "good_step S n ht (elems ht) (Inr (if flat ht then ht else zend_hash_rehash ht))"
proof (cases "flat ht")
  case True
  then show ?thesis using assms within_mono[OF assms(1), of "Suc n"] by (simp add: good_step_def)
next
  case False
  then have m: "mixed_inv ht" "\<not> flag_uninitialized ht" "\<not> flag_packed ht" using assms(2) by (auto simp: ht_inv_def flat_def)
  have k: "keys_inv ht" using m(1) by (simp add: mixed_inv_def)
  note h = headerD[OF header_rehash[of ht]]
  have "ht_inv (zend_hash_rehash ht)" "elems (zend_hash_rehash ht) = elems ht"
    using rehash_mixed[OF mixed_invD(1,2)[OF m(1)] k m(2)] m(2,3) by (simp_all add: ht_inv_def rehash_frame_def)
  moreover have "within S n (zend_hash_rehash ht)" by (rule within_frame[OF assms(1)]) (simp_all add: h flat_def)
  ultimately show ?thesis using False within_mono[of S n _ "Suc n"] by (simp add: good_step_def)
qed

lemma good_clean:
  assumes "within S n ht" "ht_inv ht"
  shows "good_step S n ht [] (Inr (zend_hash_clean ht))"
proof -
  note c = cleaned[OF assms(2) disjI1[OF refl]]
  have "within S n (zend_hash_clean ht)" by (rule within_frame[OF assms(1)]) (use c in \<open>simp_all add: flat_def\<close>)
  then show ?thesis using c within_mono[of S n _ "Suc n"] by (simp add: good_step_def)
qed

lemma update_present_add:
  assumes "ht_inv ht"
  shows "idx_of ht (Inr (ZSTR_VAL key)) = Some p \<Longrightarrow> zend_hash_add ht key v = Inr (ht, None)"
    "idx_of ht (Inr str) = Some p \<Longrightarrow> zend_hash_str_add ht str v = Inr (ht, None)"
    "idx_of ht (Inl h) = Some p \<Longrightarrow> HASH_ADD \<in> flag \<Longrightarrow> HASH_ADD_NEW \<notin> flag \<Longrightarrow>
      zend_hash_index_add_or_update_i ht h v flag = Inr (ht, None)"
  using add_or_update_present[OF assms, of key p "{HASH_ADD}" v] str_add_or_update_present[OF assms, of str p "{HASH_ADD}" v]
    index_present[OF assms, of h p flag v]
  by (simp_all add: zend_hash_add_def zend_hash_str_add_def update_found_def replace_index_def)

lemma grow_entry_points:
  assumes "ht_inv ht"
  shows "zend_hash_update ht key v = Inr (ht', r) \<Longrightarrow> grow_step ht ht'" "zend_hash_add ht key v = Inr (ht', r) \<Longrightarrow> grow_step ht ht'"
    "zend_hash_str_update ht str v = Inr (ht', r) \<Longrightarrow> grow_step ht ht'" "zend_hash_str_add ht str v = Inr (ht', r) \<Longrightarrow> grow_step ht ht'"
    "zend_hash_index_update ht h v = Inr (ht', r) \<Longrightarrow> grow_step ht ht'" "zend_hash_index_add ht h v = Inr (ht', r) \<Longrightarrow> grow_step ht ht'"
    "zend_hash_next_index_insert ht v = Inr (ht', r) \<Longrightarrow> grow_step ht ht'"
    "zend_symtable_update ht key v = Inr (ht', r) \<Longrightarrow> grow_step ht ht'"
  using add_or_update_grow[of ht key v _ ht' r] str_add_or_update_grow[of ht str _ v _ ht' r]
    index_add_or_update_grow[of ht _ v _ ht' r] ht_inv_flags[OF assms]
  by (simp_all add: zend_hash_update_def zend_hash_add_def zend_hash_str_update_def zend_hash_str_add_def
      zend_hash_index_update_def zend_hash_index_add_def zend_hash_next_index_insert_def zend_symtable_update_def
      split: option.splits)

lemma exec_op_good:
  assumes "ht_inv ht" "within S n ht" "has_room ht" "op_ok op"
  shows "\<exists>xs. op_spec (elems ht) op xs \<and> good_step S n ht xs (exec_op ht op)"
proof (cases op)
  case (Update key v)
  then have v: "proper v" using assms(4) by (simp add: op_ok_def)
  have "good_step S n ht (alist_put (Inr (ZSTR_VAL key)) v (elems ht)) (table_of (zend_hash_update ht key v))"
    by (rule good_update[OF assms(2) update_spec[OF assms(1) v assms(3)]]) (rule grow_entry_points(1)[OF assms(1)])
  then show ?thesis unfolding Update exec_op.simps using spec_update by blast
next
  case (StrUpdate str v)
  then have v: "proper v" using assms(4) by (simp add: op_ok_def)
  have "good_step S n ht (alist_put (Inr str) v (elems ht)) (table_of (zend_hash_str_update ht str v))"
    by (rule good_update[OF assms(2) str_update_spec[OF assms(1) v assms(3)]]) (rule grow_entry_points(3)[OF assms(1)])
  then show ?thesis unfolding StrUpdate exec_op.simps using spec_str_update by blast
next
  case (IndexUpdate h v)
  then have v: "proper v" using assms(4) by (simp add: op_ok_def)
  have "good_step S n ht (alist_put (Inl h) v (elems ht)) (table_of (zend_hash_index_update ht h v))"
    by (rule good_update[OF assms(2) index_update_spec[OF assms(1) v assms(3)]]) (rule grow_entry_points(5)[OF assms(1)])
  then show ?thesis unfolding IndexUpdate exec_op.simps using spec_index_update by blast
next
  case (SymUpdate key v)
  then have v: "proper v" using assms(4) by (simp add: op_ok_def)
  have "good_step S n ht (alist_put (symtable_key (ZSTR_VAL key)) v (elems ht)) (table_of (zend_symtable_update ht key v))"
    by (rule good_update[OF assms(2) symtable_update_spec[OF assms(1) v assms(3)]]) (rule grow_entry_points(8)[OF assms(1)])
  then show ?thesis unfolding SymUpdate exec_op.simps using spec_sym_update by blast
next
  case (Add key v)
  then have v: "proper v" using assms(4) by (simp add: op_ok_def)
  have "good_step S n ht (alist_add (Inr (ZSTR_VAL key)) v (elems ht)) (table_of (zend_hash_add ht key v))"
    using add_or_update_absent[OF assms(1) v assms(3), of key "{HASH_ADD}"]
    by (intro good_add[OF assms(2,1)] grow_entry_points(2)[OF assms(1)] update_present_add(1)[OF assms(1)])
      (auto simp: zend_hash_add_def)
  then show ?thesis unfolding Add exec_op.simps using spec_add by blast
next
  case (StrAdd str v)
  then have v: "proper v" using assms(4) by (simp add: op_ok_def)
  have "good_step S n ht (alist_add (Inr str) v (elems ht)) (table_of (zend_hash_str_add ht str v))"
    using str_add_or_update_absent[OF assms(1) v assms(3), of str "{HASH_ADD}"]
    by (intro good_add[OF assms(2,1)] grow_entry_points(4)[OF assms(1)] update_present_add(2)[OF assms(1)])
      (auto simp: zend_hash_str_add_def)
  then show ?thesis unfolding StrAdd exec_op.simps using spec_str_add by blast
next
  case (IndexAdd h v)
  then have v: "proper v" using assms(4) by (simp add: op_ok_def)
  have "good_step S n ht (alist_add (Inl h) v (elems ht)) (table_of (zend_hash_index_add ht h v))"
    using index_absent[OF assms(1) v assms(3), of h "{HASH_ADD}"] update_present_add(3)[OF assms(1), of h _ "{HASH_ADD}" v]
    by (intro good_add[OF assms(2,1)] grow_entry_points(6)[OF assms(1)]) (auto simp: zend_hash_index_add_def)
  then show ?thesis unfolding IndexAdd exec_op.simps using spec_index_add by blast
next
  case (NextInsert v)
  then have v: "proper v" using assms(4) by (simp add: op_ok_def)
  have "good_step S n ht (alist_add (Inl (nNextFreeElement ht)) v (elems ht)) (table_of (zend_hash_next_index_insert ht v))"
    using index_absent[OF assms(1) v assms(3), of "nNextFreeElement ht" "{HASH_ADD, HASH_ADD_NEXT}"]
      update_present_add(3)[OF assms(1), of "nNextFreeElement ht" _ "{HASH_ADD, HASH_ADD_NEXT}" v]
    by (intro good_add[OF assms(2,1)] grow_entry_points(7)[OF assms(1)]) (auto simp: zend_hash_next_index_insert_def)
  then show ?thesis unfolding NextInsert exec_op.simps using spec_next by blast
next
  case (Del key)
  show ?thesis unfolding Del exec_op.simps zend_hash_del_str
    by (rule exI, rule conjI[OF spec_del], rule good_del[OF assms(2,1) str_del_result[OF assms(1)]]) (rule flat_dels)
next
  case (StrDel str)
  show ?thesis unfolding StrDel exec_op.simps
    by (rule exI, rule conjI[OF spec_str_del], rule good_del[OF assms(2,1) str_del_result[OF assms(1)]]) (rule flat_dels)
next
  case (IndexDel h)
  show ?thesis unfolding IndexDel exec_op.simps
    by (rule exI, rule conjI[OF spec_index_del], rule good_del[OF assms(2,1) index_del_result[OF assms(1)]]) (rule flat_dels)
next
  case (SymDel key)
  have "flat (fst (zend_symtable_del ht key)) = flat ht"
    by (simp add: zend_symtable_del_def zend_hash_del_str flat_dels split: option.split)
  then show ?thesis unfolding SymDel exec_op.simps
    by - (rule exI, rule conjI[OF spec_sym_del], rule good_del[OF assms(2,1) symtable_del_result[OF assms(1)]])
next
  case Rehash
  show ?thesis unfolding Rehash exec_op.simps by (rule exI, rule conjI[OF spec_rehash], rule good_rehash[OF assms(2,1)])
next
  case Clean
  show ?thesis unfolding Clean exec_op.simps by (rule exI, rule conjI[OF spec_clean], rule good_clean[OF assms(2,1)])
qed

section \<open>Reachable tables\<close>

text \<open>Tables reached by \<open>n\<close> operations from a new one of at most \<open>S\<close> buckets.\<close>

inductive reachable :: "nat \<Rightarrow> nat \<Rightarrow> 'v HashTable \<Rightarrow> bool" for S :: nat where
  reach_new: "zend_new_array eg a nSize = Inr ht \<Longrightarrow> nTableSize ht \<le> S \<Longrightarrow> reachable S 0 ht"
| reach_step: "reachable S n ht \<Longrightarrow> op_ok op \<Longrightarrow> exec_op ht op = Inr ht' \<Longrightarrow> reachable S (Suc n) ht'"

lemma new_array_inv:
  assumes "zend_new_array eg a nSize = Inr ht" "nTableSize ht < 2 ^ 30"
  shows "ht_inv ht \<and> elems ht = [] \<and> nNumOfElements ht = 0 \<and> flat ht \<and> nTableSize ht \<ge> nSize"
proof -
  obtain sz where sz: "zend_hash_check_size nSize = Inr sz" and ht: "nTableSize ht = sz" "uninit_inv ht = size_ok sz"
    "flag_uninitialized ht" "\<not> flag_packed ht" "elems ht = []" "nNumOfElements ht = 0"
    using assms(1) by (auto simp: zend_new_array_def zend_hash_init_int_def uninit_inv_def elems_def live_idx_def split: sum.splits)
  have "nSize < HT_MAX_SIZE"
    using sz by (auto simp: zend_hash_check_size_def HT_MIN_SIZE_def HT_MAX_SIZE_def split: if_splits)
  have "size_ok sz \<and> nSize \<le> sz"
  proof (cases "8 < nSize")
    case True
    obtain k where k: "3 \<le> k" "k \<le> 30" "nSize \<le> 2 ^ Suc k" "zend_hash_check_size nSize = Inr (2 ^ Suc k)"
      using check_size_power[OF True \<open>nSize < HT_MAX_SIZE\<close>] by metis
    then have "sz = 2 ^ Suc k" using sz by simp
    moreover have "Suc k < 30" using assms(2) ht(1) calculation by (intro power_less_imp_less_exp[of "2::nat" "Suc k" 30]) simp_all
    ultimately show ?thesis using k by (auto simp: size_ok_def intro!: exI[of _ "Suc k"])
  next
    case False
    then show ?thesis using sz by (auto simp: zend_hash_check_size_def size_ok_def HT_MIN_SIZE_def intro!: exI[of _ "3::nat"])
  qed
  then show ?thesis using ht by (simp add: ht_inv_def flat_def)
qed

lemma reachable_inv:
  "reachable S n ht \<Longrightarrow> S < 2 ^ 29 \<Longrightarrow> n \<le> 2 ^ 27 \<Longrightarrow> ht_inv ht \<and> within S n ht"
proof (induction rule: reachable.induct)
  case (reach_new eg a nSize ht)
  then show ?case using new_array_inv[OF reach_new(1)] by (simp add: within_def)
next
  case (reach_step n ht op ht')
  then have i: "ht_inv ht" "within S n ht" by auto
  have "has_room ht" using within_room[OF i(2)] reach_step.prems by simp
  then show ?case using exec_op_good[OF i _ reach_step.hyps(2)] reach_step.hyps(3) by (auto simp: good_step_def)
qed

text \<open>C2: every table the array operations reach from a new array is consistent, and its memory
  is bounded by its history: after \<open>n\<close> operations it has at most \<open>n\<close> elements and at most
  \<open>8 n\<close> buckets, or twice the buckets it started with.\<close>

theorem reachable_tables_consistent:
  assumes "reachable S n ht" "S < 2 ^ 29" "n \<le> 2 ^ 27"
  shows "ht_inv ht \<and> nNumOfElements ht = length (elems ht) \<and> length (elems ht) \<le> n
    \<and> nTableSize ht \<le> max (2 * S) (8 * n)"
  using reachable_inv[OF assms] ht_inv_count[of ht] by (auto simp: within_def split: if_splits)

theorem reachable_tables_consistent_witness:
  "\<exists>ht :: nat HashTable. reachable 8 0 ht \<and> ht_inv ht \<and> length (elems ht) \<le> 0"
proof -
  obtain ht :: "nat HashTable" where h: "zend_new_array zend_empty_array 1 8 = Inr ht" "nTableSize ht = 8"
    by (simp add: zend_new_array_def zend_hash_init_int_def zend_hash_check_size_def HT_MIN_SIZE_def)
  then have "reachable 8 0 ht" by (intro reach_new[OF h(1)]) simp
  then show ?thesis using reachable_tables_consistent[of 8 0 ht] by auto
qed

section \<open>Programs\<close>

fun exec_ops :: "'v HashTable \<Rightarrow> 'v array_op list \<Rightarrow> zend_error + 'v HashTable" where
  "exec_ops ht [] = Inr ht"
| "exec_ops ht (op # ops) = (case exec_op ht op of Inl e \<Rightarrow> Inl e | Inr ht' \<Rightarrow> exec_ops ht' ops)"

inductive ops_spec :: "(hkey \<times> 'v zval) list \<Rightarrow> 'v array_op list \<Rightarrow> (hkey \<times> 'v zval) list \<Rightarrow> bool" where
  ops_done: "ops_spec xs [] xs"
| ops_step: "op_spec xs op ys \<Longrightarrow> ops_spec ys ops zs \<Longrightarrow> ops_spec xs (op # ops) zs"

inductive_simps ops_spec_simps: "ops_spec xs [] ys" "ops_spec xs (op # ops) ys"

lemma exec_ops_simulated:
  "ht_inv ht \<Longrightarrow> within S n ht \<Longrightarrow> S < 2 ^ 29 \<Longrightarrow> n + length ops \<le> 2 ^ 27 \<Longrightarrow> list_all op_ok ops \<Longrightarrow>
     \<exists>ht'. exec_ops ht ops = Inr ht' \<and> ht_inv ht' \<and> within S (n + length ops) ht' \<and> ops_spec (elems ht) ops (elems ht')"
proof (induction ops arbitrary: ht n)
  case Nil
  then show ?case by (auto intro: ops_done)
next
  case (Cons op ops)
  have "has_room ht" using within_room[OF Cons.prems(2,3)] Cons.prems(4) by simp
  then obtain xs where x: "op_spec (elems ht) op xs" "good_step S n ht xs (exec_op ht op)"
    using exec_op_good[OF Cons.prems(1,2)] Cons.prems(5) by auto
  then obtain ht1 where h: "exec_op ht op = Inr ht1" "ht_inv ht1" "within S (Suc n) ht1" "elems ht1 = xs"
    by (auto simp: good_step_def)
  obtain ht' where "exec_ops ht1 ops = Inr ht'" "ht_inv ht'" "within S (Suc n + length ops) ht'" "ops_spec (elems ht1) ops (elems ht')"
    using Cons.IH[OF h(2,3) Cons.prems(3)] Cons.prems(4,5) by auto
  then show ?case using h x(1) by (auto intro!: ops_step)
qed

text \<open>C1: any program of array operations (updates and additions by string, integer and numeric
  string keys, appends, deletions, rehashes, cleaning) run on a new array terminates
  without error for up to \<open>2 ^ 27\<close> operations, and does to the elements exactly what the
  ordered-map specification allows.\<close>

theorem array_programs_simulated:
  assumes "zend_new_array eg a nSize = Inr ht" "nTableSize ht < 2 ^ 29" "length ops \<le> 2 ^ 27"
    "list_all op_ok ops"
  shows "\<exists>ht'. exec_ops ht ops = Inr ht' \<and> ht_inv ht' \<and> ops_spec [] ops (elems ht')"
proof -
  have i: "ht_inv ht" "elems ht = []" "within (nTableSize ht) 0 ht"
    using new_array_inv[OF assms(1)] assms(2) by (auto simp: within_def)
  show ?thesis using exec_ops_simulated[OF i(1,3) assms(2) _ assms(4)] assms(3) i(2) by auto
qed

theorem array_programs_simulated_witness:
  "\<exists>ht ht' :: nat HashTable. zend_new_array zend_empty_array 1 8 = Inr ht
     \<and> exec_ops ht [IndexUpdate 5 (ZVAL 1), Update \<lparr>ZSTR_VAL = ''k'', ZSTR_IS_INTERNED = False\<rparr> (ZVAL 2), Rehash,
          IndexUpdate 5 (ZVAL 3), Add \<lparr>ZSTR_VAL = ''k'', ZSTR_IS_INTERNED = True\<rparr> (ZVAL 4)] = Inr ht'
     \<and> elems ht' = [(Inl 5, ZVAL 3), (Inr ''k'', ZVAL 2)]"
proof -
  obtain ht :: "nat HashTable" where h: "zend_new_array zend_empty_array 1 8 = Inr ht" "nTableSize ht = 8"
    by (simp add: zend_new_array_def zend_hash_init_int_def zend_hash_check_size_def HT_MIN_SIZE_def)
  let ?ops = "[IndexUpdate 5 (ZVAL 1), Update \<lparr>ZSTR_VAL = ''k'', ZSTR_IS_INTERNED = False\<rparr> (ZVAL 2), Rehash,
          IndexUpdate 5 (ZVAL 3), Add \<lparr>ZSTR_VAL = ''k'', ZSTR_IS_INTERNED = True\<rparr> (ZVAL 4)]"
  obtain ht' where "exec_ops ht ?ops = Inr ht'" "ops_spec [] ?ops (elems ht')"
    using array_programs_simulated[OF h(1), of ?ops] h(2) by (auto simp: op_ok_def proper_def)
  then show ?thesis using h(1) by (auto simp: ops_spec_simps op_spec_simps alist_add_def)
qed

end
