(* ===== verification/ZendHashCopy.thy ===== *)
theory ZendHashCopy
  imports ZendArrayRun
begin

text \<open>
  Copying one array into another, merging arrays, duplicating an array on write, and the
  conversions between symbol tables (integer and string keys) and property tables (string
  keys only): each is a fold of the ordered-map updates over the elements of the source.
\<close>

section \<open>Elements as a client reads them\<close>

text \<open>Indirect elements stand for the slot they point to; an undefined slot is no element.\<close>

definition resolved :: "'v HashTable \<Rightarrow> (hkey \<times> 'v zval) list" where
  "resolved ht = filter (\<lambda>p. snd p \<noteq> IS_UNDEF) (map (apsnd (resolve_ind ht)) (elems ht))"

definition put_all :: "('k \<times> 'v) list \<Rightarrow> ('k \<times> 'v) list \<Rightarrow> ('k \<times> 'v) list" where
  "put_all es xs = fold (\<lambda>(k, v). alist_put k v) es xs"

definition add_all_new :: "('k \<times> 'v) list \<Rightarrow> ('k \<times> 'v) list \<Rightarrow> ('k \<times> 'v) list" where
  "add_all_new es xs = fold (\<lambda>(k, v). alist_add k v) es xs"

lemma alist_put_twice [simp]: "alist_put k w (alist_put k v xs) = alist_put k w xs"
  by (induction k v xs rule: alist_put.induct) simp_all

lemma alist_put_add_twice: "k \<notin> fst ` set xs \<Longrightarrow> alist_put k w (xs @ [(k, v)]) = xs @ [(k, w)]"
  by (induction xs) auto

definition ctor_val :: "('v zval \<Rightarrow> 'v zval) option \<Rightarrow> 'v zval \<Rightarrow> 'v zval" where
  "ctor_val ctor v = (case ctor of None \<Rightarrow> v | Some c \<Rightarrow> c v)"

text \<open>The copy constructor works on the bucket just stored.\<close>

lemma ctor_spec:
  assumes "ins_spec ht k v (t, p)" "proper v" "proper (ctor_val ctor v)"
  shows "ht_inv (run_copy_ctor ctor p t) \<and> elems (run_copy_ctor ctor p t) = alist_put k (ctor_val ctor v) (elems ht)
    \<and> header (run_copy_ctor ctor p t) = header t"
proof -
  obtain i where i: "p = Some (PBucket i)" "b_val (arData t ! i) = v" "i < nNumUsed t" "bkey (arData t ! i) = k"
    and t: "ht_inv t" "elems t = alist_put k v (elems ht)"
    using assms(1) by (auto simp: ins_spec_def read_zptr_def)
  have l: "i \<in> set (live_of t)" using i assms(2) by (simp add: live_idx_set proper_def)
  show ?thesis
  proof (cases ctor)
    case None
    then show ?thesis using t by (simp add: run_copy_ctor_def ctor_val_def)
  next
    case (Some c)
    have e: "run_copy_ctor ctor p t = upd_bucket i (\<lambda>b. b\<lparr>b_val := c v\<rparr>) t"
      using Some i by (simp add: run_copy_ctor_def write_zptr_def read_zptr_def)
    have c: "proper (c v)" using assms(3) Some by (simp add: ctor_val_def)
    have "i < length (arData t)" using i(3) ht_inv_used[OF t(1)] by simp
    then have "elems (upd_bucket i (\<lambda>b. b\<lparr>b_val := c v\<rparr>) t) = alist_put k (c v) (elems t)"
      using elems_write(2)[OF l c ht_inv_distinct[OF t(1)]] i(4) by simp
    then show ?thesis unfolding e using write_step(1)[OF t(1) l c] t(2) Some by (simp add: ctor_val_def)
  qed
qed

lemma within_header: "header ht' = header ht \<Longrightarrow> within S n ht' = within S n ht"
  by (simp add: within_def flat_def header_def)

lemma within_start: "within (nTableSize ht) (nNumOfElements ht) ht"
  by (simp add: within_def max_def)

section \<open>Copy\<close>

lemma bucket_update_spec:
  assumes "ht_inv ht" "within S n ht" "has_room ht" "proper v"
  shows "\<exists>t q. (case b_key p of Some key \<Rightarrow> zend_hash_update ht key v | None \<Rightarrow> zend_hash_index_update ht (b_h p) v) = Inr (t, q)
    \<and> ins_spec ht (bkey p) v (t, q) \<and> within S (Suc n) t"
proof (cases "b_key p")
  case None
  obtain t q where "zend_hash_index_update ht (b_h p) v = Inr (t, q)" "ins_spec ht (bkey p) v (t, q)"
    using index_update_spec[OF assms(1,4,3), of "b_h p"] None by (auto simp: bkey_def)
  then show ?thesis using None within_grow[OF assms(2) grow_entry_points(5)[OF assms(1)]] by auto
next
  case (Some key)
  obtain t q where "zend_hash_update ht key v = Inr (t, q)" "ins_spec ht (bkey p) v (t, q)"
    using update_spec[OF assms(1,4,3), of key] Some by (auto simp: bkey_def)
  then show ?thesis using Some within_grow[OF assms(2) grow_entry_points(1)[OF assms(1)]] by auto
qed

definition resolved_at :: "'v HashTable \<Rightarrow> nat list \<Rightarrow> (hkey \<times> 'v zval) list" where
  "resolved_at ht is = filter (\<lambda>p. snd p \<noteq> IS_UNDEF)
     (map (\<lambda>i. (bkey (arData ht ! i), resolve_ind ht (b_val (arData ht ! i)))) (filter (live (arData ht)) is))"

lemma resolved_at_Nil [simp]: "resolved_at ht [] = []"
  by (simp add: resolved_at_def)

lemma resolved_at_Cons: "resolved_at ht (i # is) =
    (if b_val (arData ht ! i) = IS_UNDEF \<or> resolve_ind ht (b_val (arData ht ! i)) = IS_UNDEF then []
     else [(bkey (arData ht ! i), resolve_ind ht (b_val (arData ht ! i)))]) @ resolved_at ht is"
  by (simp add: resolved_at_def live_def)

lemma resolved_all: "resolved_at ht [0..<nNumUsed ht] = resolved ht"
  by (simp add: resolved_at_def resolved_def elems_def live_idx_def entry_def comp_def)

lemma put_all_Cons [simp]: "put_all ((k, v) # es) xs = put_all es (alist_put k v xs)" "put_all [] xs = xs"
  by (simp_all add: put_all_def)

abbreviation all_proper :: "('v zval \<Rightarrow> 'v zval) option \<Rightarrow> (hkey \<times> 'v zval) list \<Rightarrow> bool" where
  "all_proper ctor es \<equiv> list_all (\<lambda>p. proper (snd p) \<and> proper (ctor_val ctor (snd p))) es"

lemma copy_from_spec:
  "ht_inv target \<Longrightarrow> within S n target \<Longrightarrow> S < 2 ^ 29 \<Longrightarrow> n + length (resolved_at source is) \<le> 2 ^ 27 \<Longrightarrow>
   all_proper ctor (resolved_at source is) \<Longrightarrow>
     \<exists>t. copy_from ctor source is target = Inr t \<and> ht_inv t
       \<and> elems t = put_all (map (apsnd (ctor_val ctor)) (resolved_at source is)) (elems target)"
proof (induction "is" arbitrary: target n)
  case (Cons i "is")
  let ?b = "arData source ! i"
  let ?v = "resolve_ind source (b_val ?b)"
  show ?case
  proof (cases "b_val ?b = IS_UNDEF \<or> ?v = IS_UNDEF")
    case True
    then show ?thesis using Cons.IH[OF Cons.prems(1,2,3)] Cons.prems(4,5) by (auto simp: resolved_at_Cons Let_def)
  next
    case False
    have v: "proper ?v" "proper (ctor_val ctor ?v)" using Cons.prems(5) False by (auto simp: resolved_at_Cons)
    have "has_room target" using within_room[OF Cons.prems(2,3)] Cons.prems(4) False by (simp add: resolved_at_Cons)
    then obtain t q where t: "(case b_key ?b of Some key \<Rightarrow> zend_hash_update target key ?v
          | None \<Rightarrow> zend_hash_index_update target (b_h ?b) ?v) = Inr (t, q)"
      "ins_spec target (bkey ?b) ?v (t, q)" "within S (Suc n) t"
      using bucket_update_spec[OF Cons.prems(1,2) _ v(1)] by blast
    note c = ctor_spec[OF t(2) v]
    have "within S (Suc n) (run_copy_ctor ctor q t)" using t(3) within_header c by metis
    then have "\<exists>u. copy_from ctor source is (run_copy_ctor ctor q t) = Inr u \<and> ht_inv u
        \<and> elems u = put_all (map (apsnd (ctor_val ctor)) (resolved_at source is)) (elems (run_copy_ctor ctor q t))"
      using Cons.IH[of "run_copy_ctor ctor q t" "Suc n"] c Cons.prems(3,4,5) False by (auto simp: resolved_at_Cons)
    then show ?thesis using False t(1) c by (simp add: resolved_at_Cons Let_def)
  qed
qed simp

text \<open>\<open>zend_hash_copy\<close> always succeeds within the size limit and puts every element of the
  source, read through indirections and passed through the copy constructor, into the
  target: present keys are replaced in place, new ones appended in the source's order.\<close>

theorem copy_puts_all:
  assumes "ht_inv target" "nTableSize target < 2 ^ 29" "nNumOfElements target + length (resolved source) \<le> 2 ^ 27"
    "all_proper ctor (resolved source)"
  shows "\<exists>t. zend_hash_copy target source ctor = Inr t \<and> ht_inv t
    \<and> elems t = put_all (map (apsnd (ctor_val ctor)) (resolved source)) (elems target)"
  unfolding zend_hash_copy_def using copy_from_spec[OF assms(1) within_start assms(2), of source "[0..<nNumUsed source]" ctor] assms(3,4)
  by (simp add: resolved_all)

lemma demo_table_size: "nTableSize demo_table < 2 ^ 29" "nNumOfElements demo_table = 1" "resolved demo_table = [(Inr ''a'', ZVAL 1)]"
proof -
  obtain t where t: "array_put (zend_empty_array :: nat HashTable) (Inr ''a'') (ZVAL 1) = Inr t"
    using zarr.put_els[of "zend_empty_array :: nat HashTable" "ZVAL 1" "Inr ''a''"] by (auto simp: proper_def)
  then have "grow_step (zend_empty_array :: nat HashTable) demo_table"
    using array_put_grow[OF _ t] by (simp add: demo_table_def)
  then show "nTableSize demo_table < 2 ^ 29" by (auto simp: grow_step_def)
  show "nNumOfElements demo_table = 1" using ht_inv_count[of demo_table] by simp
  show "resolved demo_table = [(Inr ''a'', ZVAL 1)]" by (simp add: resolved_def resolve_ind_def)
qed

theorem copy_puts_all_witness:
  "\<exists>t. zend_hash_copy demo_table demo_table (Some (\<lambda>v. ZVAL 2)) = Inr t \<and> ht_inv t \<and> elems t = [(Inr ''a'', ZVAL 2)]"
  using copy_puts_all[of demo_table demo_table "Some (\<lambda>v. ZVAL 2)"] demo_table_size by (simp add: proper_def ctor_val_def)

section \<open>Merge\<close>

definition no_ind :: "'v zval \<Rightarrow> bool" where
  "no_ind v \<longleftrightarrow> (case v of IS_INDIRECT s \<Rightarrow> False | _ \<Rightarrow> True)"

abbreviation direct :: "(hkey \<times> 'v zval) list \<Rightarrow> bool" where
  "direct xs \<equiv> list_all (\<lambda>p. no_ind (snd p)) xs"

definition merge_put :: "bool \<Rightarrow> 'k \<Rightarrow> 'v \<Rightarrow> ('k \<times> 'v) list \<Rightarrow> ('k \<times> 'v) list" where
  "merge_put overwrite k v xs = (if overwrite then alist_put k v xs else alist_add k v xs)"

definition merge_all :: "bool \<Rightarrow> ('k \<times> 'v) list \<Rightarrow> ('k \<times> 'v) list \<Rightarrow> ('k \<times> 'v) list" where
  "merge_all overwrite es xs = fold (\<lambda>(k, v). merge_put overwrite k v) es xs"

lemma merge_all_Cons [simp]:
  "merge_all ow ((k, v) # es) xs = merge_all ow es (merge_put ow k v xs)" "merge_all ow [] xs = xs"
  by (simp_all add: merge_all_def)

lemma list_all_alist_put: "list_all P xs \<Longrightarrow> P (k, v) \<Longrightarrow> list_all P (alist_put k v xs)"
  by (induction k v xs rule: alist_put.induct) auto

lemma direct_merge_put: "direct xs \<Longrightarrow> no_ind v \<Longrightarrow> direct (merge_put ow k v xs)"
  by (simp add: merge_put_def alist_add_def list_all_alist_put)

lemma direct_live: "direct (elems ht) \<Longrightarrow> i \<in> set (live_of ht) \<Longrightarrow> no_ind (b_val (arData ht ! i))"
  by (auto simp: elems_def entry_def list_all_iff)

lemma update_found_direct: "no_ind (b_val (arData ht ! p)) \<Longrightarrow> update_found ht p v {f, HASH_UPDATE_INDIRECT} = update_found ht p v {f}"
  by (auto simp: update_found_def no_ind_def split: zval.splits)

lemma add_or_update_direct:
  assumes "ht_inv ht" "direct (elems ht)" "f \<noteq> HASH_ADD_NEW"
  shows "zend_hash_add_or_update_i ht key v {f, HASH_UPDATE_INDIRECT} = zend_hash_add_or_update_i ht key v {f}"
proof (cases "zend_hash_find_bucket ht key")
  case None
  then show ?thesis using assms(3) by (simp add: zend_hash_add_or_update_i_def)
next
  case (Some p)
  then have i: "idx_of ht (Inr (ZSTR_VAL key)) = Some p"
    using find_key_str[OF assms(1), of "ZSTR_VAL key"] by (simp add: find_bucket_key)
  then have "p \<in> set (live_of ht)" using idx_of_Some_iff[OF ht_inv_distinct[OF assms(1)]] by blast
  then show ?thesis using Some assms(3) update_found_direct[OF direct_live[OF assms(2)]]
    by (simp add: zend_hash_add_or_update_i_def)
qed

definition merge_store :: "bool \<Rightarrow> 'v HashTable \<Rightarrow> 'v Bucket \<Rightarrow> 'v zval \<Rightarrow> zend_error + ('v HashTable \<times> zptr option)" where
  "merge_store overwrite target p s = (case b_key p of
       Some key \<Rightarrow> zend_hash_add_or_update_i target key s {if overwrite then HASH_UPDATE else HASH_ADD, HASH_UPDATE_INDIRECT}
     | None \<Rightarrow> zend_hash_index_add_or_update_i target (b_h p) s {if overwrite then HASH_UPDATE else HASH_ADD})"

lemma merge_store_step:
  assumes "ht_inv ht" "within S n ht" "has_room ht" "proper v" "proper (ctor_val ctor v)" "direct (elems ht)"
  shows "\<exists>t q. merge_store ow ht p v = Inr (t, q) \<and> ht_inv (run_copy_ctor ctor q t)
    \<and> within S (Suc n) (run_copy_ctor ctor q t)
    \<and> elems (run_copy_ctor ctor q t) = merge_put ow (bkey p) (ctor_val ctor v) (elems ht)"
proof (cases "ow \<or> idx_of ht (bkey p) = None")
  case True
  have "\<exists>t q. merge_store ow ht p v = Inr (t, q) \<and> ins_spec ht (bkey p) v (t, q) \<and> within S (Suc n) t"
  proof (cases ow)
    case True
    then show ?thesis using bucket_update_spec[OF assms(1-4), of p] add_or_update_direct[OF assms(1,6), of HASH_UPDATE _ v]
      by (simp add: merge_store_def zend_hash_update_def zend_hash_index_update_def cong: option.case_cong)
  next
    case False
    then have k: "idx_of ht (bkey p) = None" using \<open>ow \<or> idx_of ht (bkey p) = None\<close> by simp
    show ?thesis
    proof (cases "b_key p")
      case None
      obtain t q where "zend_hash_index_add ht (b_h p) v = Inr (t, q)" "ins_spec ht (bkey p) v (t, q)"
        using index_absent[OF assms(1,4,3), of "b_h p" "{HASH_ADD}"] None k by (auto simp: bkey_def zend_hash_index_add_def)
      then show ?thesis using None False within_grow[OF assms(2) grow_entry_points(6)[OF assms(1)]]
        by (simp add: merge_store_def zend_hash_index_add_def)
    next
      case (Some key)
      obtain t q where "zend_hash_add ht key v = Inr (t, q)" "ins_spec ht (bkey p) v (t, q)"
        using add_or_update_absent[OF assms(1,4,3), of key "{HASH_ADD}"] Some k by (auto simp: bkey_def zend_hash_add_def)
      then show ?thesis using Some False within_grow[OF assms(2) grow_entry_points(2)[OF assms(1)]]
          add_or_update_direct[OF assms(1,6), of HASH_ADD key v]
        by (simp add: merge_store_def zend_hash_add_def)
    qed
  qed
  then obtain t q where t: "merge_store ow ht p v = Inr (t, q)" "ins_spec ht (bkey p) v (t, q)" "within S (Suc n) t" by blast
  have "merge_put ow (bkey p) w (elems ht) = alist_put (bkey p) w (elems ht)" for w
    using True by (auto simp: merge_put_def alist_add_def idx_of_None_iff alist_put_fresh)
  then show ?thesis using t ctor_spec[OF t(2) assms(4,5)] within_header by metis
next
  case False
  then obtain i where i: "idx_of ht (bkey p) = Some i" "\<not> ow" by auto
  then have k: "bkey p \<in> fst ` set (elems ht)" using idx_of_present[OF assms(1)] by blast
  have "merge_store ow ht p v = Inr (ht, None)"
    using i update_present_add(1,3)[OF assms(1)] add_or_update_direct[OF assms(1,6), of HASH_ADD _ v]
    by (cases "b_key p") (auto simp: merge_store_def bkey_def zend_hash_add_def)
  then show ?thesis using i k assms(1) within_mono[OF assms(2), of "Suc n"]
    by (cases ctor) (simp_all add: merge_put_def alist_add_def run_copy_ctor_def)
qed

text \<open>The merge loop tests the resolved value only; the two tests agree because nothing resolves
  to a defined value from an undefined one.\<close>

lemma merge_from_Cons: "merge_from ctor ow source (i # is) target =
    (let p = arData source ! i; s = resolve_ind source (b_val p)
     in if s = IS_UNDEF then merge_from ctor ow source is target
        else case merge_store ow target p s of Inl e \<Rightarrow> Inl e
          | Inr (target', t) \<Rightarrow> merge_from ctor ow source is (run_copy_ctor ctor t target'))"
  by (simp add: Let_def merge_store_def)

declare merge_from.simps(2) [simp del]

lemma resolve_undef: "b_val p = IS_UNDEF \<Longrightarrow> resolve_ind ht (b_val p) = IS_UNDEF"
  by (simp add: resolve_ind_def)

lemma merge_from_spec:
  "ht_inv target \<Longrightarrow> within S n target \<Longrightarrow> S < 2 ^ 29 \<Longrightarrow> n + length (resolved_at source is) \<le> 2 ^ 27 \<Longrightarrow>
   all_proper ctor (resolved_at source is) \<Longrightarrow> direct (elems target) \<Longrightarrow>
   list_all (\<lambda>p. no_ind (ctor_val ctor (snd p))) (resolved_at source is) \<Longrightarrow>
     \<exists>t. merge_from ctor ow source is target = Inr t \<and> ht_inv t
       \<and> elems t = merge_all ow (map (apsnd (ctor_val ctor)) (resolved_at source is)) (elems target)"
proof (induction "is" arbitrary: target n)
  case (Cons i "is")
  let ?b = "arData source ! i"
  let ?v = "resolve_ind source (b_val ?b)"
  show ?case
  proof (cases "?v = IS_UNDEF")
    case True
    then show ?thesis using Cons.IH[OF Cons.prems(1,2,3)] Cons.prems(4-) by (auto simp: resolved_at_Cons merge_from_Cons Let_def)
  next
    case False
    then have nu: "b_val ?b \<noteq> IS_UNDEF" using resolve_undef by blast
    have v: "proper ?v" "proper (ctor_val ctor ?v)" "no_ind (ctor_val ctor ?v)"
      using Cons.prems(5,7) False nu by (auto simp: resolved_at_Cons)
    have "has_room target" using within_room[OF Cons.prems(2,3)] Cons.prems(4) False nu by (simp add: resolved_at_Cons)
    then obtain t q where t: "merge_store ow target ?b ?v = Inr (t, q)" "ht_inv (run_copy_ctor ctor q t)"
      "within S (Suc n) (run_copy_ctor ctor q t)"
      "elems (run_copy_ctor ctor q t) = merge_put ow (bkey ?b) (ctor_val ctor ?v) (elems target)"
      using merge_store_step[OF Cons.prems(1,2) _ v(1,2) Cons.prems(6)] by blast
    have "direct (elems (run_copy_ctor ctor q t))" unfolding t(4) by (rule direct_merge_put[OF Cons.prems(6) v(3)])
    then have "\<exists>u. merge_from ctor ow source is (run_copy_ctor ctor q t) = Inr u \<and> ht_inv u
        \<and> elems u = merge_all ow (map (apsnd (ctor_val ctor)) (resolved_at source is)) (elems (run_copy_ctor ctor q t))"
      using Cons.IH[OF t(2,3) Cons.prems(3)] Cons.prems(4,5,7) False nu by (auto simp: resolved_at_Cons)
    then show ?thesis using False nu t(1,4) by (simp add: resolved_at_Cons merge_from_Cons Let_def)
  qed
qed simp

text \<open>Merging arrays that hold no indirect elements of their own always succeeds within the
  size limit: with \<open>overwrite\<close> every element of the source is put into the target, without it
  only those whose key the target does not have, each in the source's order.\<close>

theorem merge_merges_all:
  assumes "ht_inv target" "nTableSize target < 2 ^ 29" "nNumOfElements target + length (resolved source) \<le> 2 ^ 27"
    "all_proper ctor (resolved source)" "direct (elems target)"
    "list_all (\<lambda>p. no_ind (ctor_val ctor (snd p))) (resolved source)"
  shows "\<exists>t. zend_hash_merge target source ctor overwrite = Inr t \<and> ht_inv t
    \<and> elems t = merge_all overwrite (map (apsnd (ctor_val ctor)) (resolved source)) (elems target)"
  unfolding zend_hash_merge_def
  using merge_from_spec[OF assms(1) within_start assms(2), of source "[0..<nNumUsed source]" ctor overwrite] assms(3-)
  by (simp add: resolved_all)

theorem merge_merges_all_witness:
  "\<exists>t. zend_hash_merge demo_table demo_table (Some (\<lambda>v. ZVAL 2)) False = Inr t \<and> ht_inv t \<and> elems t = [(Inr ''a'', ZVAL 1)]"
  using merge_merges_all[of demo_table demo_table "Some (\<lambda>v. ZVAL 2)" False] demo_table_size
  by (simp add: proper_def ctor_val_def no_ind_def merge_put_def alist_add_def)

section \<open>Symbol tables and property tables\<close>

text \<open>
  The two conversions of zend_hash.c, over an allocator that places the new table at
  address \<open>a\<close>. \<open>deref\<close> is the reference counting of the values: a reference nobody else
  holds is replaced by the value it refers to.
\<close>

fun proptable_from :: "('v zval \<Rightarrow> 'v zval) \<Rightarrow> 'v Bucket list \<Rightarrow> 'v HashTable \<Rightarrow> zend_error + 'v HashTable" where
  "proptable_from deref [] new_ht = Inr new_ht"
| "proptable_from deref (p # ps) new_ht =
     (if b_val p = IS_UNDEF then proptable_from deref ps new_ht
      else let str_key = (case b_key p of None \<Rightarrow> zend_long_to_str (b_h p) | Some k \<Rightarrow> k)
           in case zend_hash_update new_ht str_key (deref (b_val p)) of
                Inl e \<Rightarrow> Inl e | Inr (t, _) \<Rightarrow> proptable_from deref ps t)"

definition zend_symtable_to_proptable :: "('v zval \<Rightarrow> 'v zval) \<Rightarrow> nat \<Rightarrow> 'v HashTable \<Rightarrow> zend_error + 'v HashTable" where
  "zend_symtable_to_proptable deref a ht =
     (let used = take (nNumUsed ht) (arData ht)
      in if flag_packed ht \<or> (\<exists>p \<in> set used. b_val p \<noteq> IS_UNDEF \<and> b_key p = None)
         then (case zend_new_array ht a (nNumOfElements ht) of Inl e \<Rightarrow> Inl e | Inr new_ht \<Rightarrow> proptable_from deref used new_ht)
         else Inr ht)"

fun symtable_from :: "('v zval \<Rightarrow> 'v zval) \<Rightarrow> 'v HashTable \<Rightarrow> 'v Bucket list \<Rightarrow> 'v HashTable \<Rightarrow> zend_error + 'v HashTable" where
  "symtable_from deref ht [] new_ht = Inr new_ht"
| "symtable_from deref ht (p # ps) new_ht =
     (let zv = resolve_ind ht (b_val p)
      in if zv = IS_UNDEF then symtable_from deref ht ps new_ht
         else case (case b_key p of None \<Rightarrow> zend_hash_index_update new_ht (b_h p) (deref zv)
                    | Some k \<Rightarrow> (case zend_handle_numeric_str (ZSTR_VAL k) of
                        Some num_key \<Rightarrow> zend_hash_index_update new_ht num_key (deref zv)
                      | None \<Rightarrow> zend_hash_update new_ht k (deref zv))) of
                Inl e \<Rightarrow> Inl e | Inr (t, _) \<Rightarrow> symtable_from deref ht ps t)"

definition zend_proptable_to_symtable ::
  "('v zval \<Rightarrow> 'v zval) \<Rightarrow> bool \<Rightarrow> nat \<Rightarrow> bool \<Rightarrow> 'v HashTable \<Rightarrow> zend_error + 'v HashTable" where
  "zend_proptable_to_symtable deref immutable a always_duplicate ht =
     (let used = take (nNumUsed ht) (arData ht)
      in if \<exists>p \<in> set used. b_val p \<noteq> IS_UNDEF
              \<and> (case b_key p of None \<Rightarrow> False | Some k \<Rightarrow> zend_handle_numeric_str (ZSTR_VAL k) \<noteq> None)
         then (case zend_new_array ht a (nNumOfElements ht) of Inl e \<Rightarrow> Inl e | Inr new_ht \<Rightarrow> symtable_from deref ht used new_ht)
         else if always_duplicate then Inr (zend_array_dup deref immutable a ht)
         else Inr ht)"

text \<open>Both loops store one element after the other into a new table.\<close>

fun store_loop :: "('b \<Rightarrow> 'v HashTable \<Rightarrow> zend_error + ('v HashTable \<times> zptr option)) \<Rightarrow> 'b list \<Rightarrow> 'v HashTable \<Rightarrow> zend_error + 'v HashTable" where
  "store_loop st [] t = Inr t"
| "store_loop st (x # xs) t = (case st x t of Inl e \<Rightarrow> Inl e | Inr (t', _) \<Rightarrow> store_loop st xs t')"

lemma store_loop_spec:
  assumes "\<And>x t. x \<in> set xs \<Longrightarrow> ht_inv t \<Longrightarrow> has_room t \<Longrightarrow>
      \<exists>t' q. st x t = Inr (t', q) \<and> ins_spec t (kf x) (vf x) (t', q) \<and> grow_step t t'"
  shows "ht_inv t \<Longrightarrow> within S n t \<Longrightarrow> S < 2 ^ 29 \<Longrightarrow> n + length xs \<le> 2 ^ 27 \<Longrightarrow>
     \<exists>t'. store_loop st xs t = Inr t' \<and> ht_inv t' \<and> elems t' = put_all (map (\<lambda>x. (kf x, vf x)) xs) (elems t)"
  using assms
proof (induction xs arbitrary: t n)
  case (Cons x xs)
  have "has_room t" using within_room[OF Cons.prems(2,3)] Cons.prems(4) by simp
  then obtain t' q where t': "st x t = Inr (t', q)" "ins_spec t (kf x) (vf x) (t', q)" "grow_step t t'"
    using Cons.prems(5)[of x t] Cons.prems(1) by auto
  then have i: "ht_inv t'" "elems t' = alist_put (kf x) (vf x) (elems t)" by (simp_all add: ins_spec_def)
  then show ?case using Cons.IH[OF i(1) within_grow[OF Cons.prems(2) t'(3)] Cons.prems(3) _ Cons.prems(5)] Cons.prems(4) t'(1) by simp
qed simp

lemma put_all_fresh: "distinct (map fst (xs @ es)) \<Longrightarrow> put_all es xs = xs @ es"
proof (induction es arbitrary: xs)
  case (Cons e es)
  obtain k v where e: "e = (k, v)" by (cases e)
  have "k \<notin> fst ` set xs" using Cons.prems e by auto
  then show ?case using Cons.IH[of "xs @ [(k, v)]"] Cons.prems e by (simp add: alist_put_fresh)
qed simp

lemma new_array_room:
  assumes "nSize \<le> 2 ^ 27"
  shows "\<exists>ht. zend_new_array eg a nSize = Inr ht \<and> nTableSize ht < 2 ^ 29 \<and> ht_inv ht \<and> elems ht = [] \<and> within (nTableSize ht) 0 ht"
proof -
  have "\<exists>sz. zend_hash_check_size nSize = Inr sz \<and> sz < 2 ^ 29"
  proof (cases "8 < nSize")
    case True
    then obtain k where k: "2 ^ k < nSize" "zend_hash_check_size nSize = Inr (2 ^ Suc k)"
      using check_size_power[of nSize] assms by (auto simp: HT_MAX_SIZE_def)
    then have "(2::nat) ^ k < 2 ^ 27" using assms by linarith
    then show ?thesis using k(2) by simp
  qed (simp add: zend_hash_check_size_def HT_MIN_SIZE_def)
  then obtain ht where ht: "zend_new_array eg a nSize = Inr ht" "nTableSize ht < 2 ^ 29"
    by (auto simp: zend_new_array_def zend_hash_init_int_def)
  then show ?thesis using new_array_inv[OF ht(1)] by (auto simp: within_def)
qed

lemma used_buckets:
  assumes "nNumUsed ht \<le> length (arData ht)"
  shows "filter (\<lambda>p. b_val p \<noteq> IS_UNDEF) (take (nNumUsed ht) (arData ht)) = map (\<lambda>i. arData ht ! i) (live_of ht)"
proof -
  have "take (nNumUsed ht) (arData ht) = map (\<lambda>i. arData ht ! i) [0..<nNumUsed ht]"
    by (rule nth_equalityI) (use assms in simp_all)
  then show ?thesis by (simp add: filter_map comp_def live_idx_def live_def[abs_def])
qed

definition prop_str :: "'v Bucket \<Rightarrow> zend_string" where
  "prop_str p = (case b_key p of None \<Rightarrow> zend_long_to_str (b_h p) | Some k \<Rightarrow> k)"

lemma proptable_from_loop: "proptable_from deref ps t
    = store_loop (\<lambda>p t. zend_hash_update t (prop_str p) (deref (b_val p))) (filter (\<lambda>p. b_val p \<noteq> IS_UNDEF) ps) t"
  by (induction ps arbitrary: t) (auto simp: prop_str_def split: sum.split)

definition sym_store :: "'v Bucket \<Rightarrow> 'v zval \<Rightarrow> 'v HashTable \<Rightarrow> zend_error + ('v HashTable \<times> zptr option)" where
  "sym_store p v t = (case b_key p of None \<Rightarrow> zend_hash_index_update t (b_h p) v
     | Some k \<Rightarrow> (case zend_handle_numeric_str (ZSTR_VAL k) of
         Some num_key \<Rightarrow> zend_hash_index_update t num_key v | None \<Rightarrow> zend_hash_update t k v))"

lemma symtable_from_loop: "symtable_from deref ht ps t
    = store_loop (\<lambda>p. sym_store p (deref (resolve_ind ht (b_val p)))) (filter (\<lambda>p. resolve_ind ht (b_val p) \<noteq> IS_UNDEF) ps) t"
  by (induction ps arbitrary: t) (auto simp: sym_store_def Let_def split: sum.split)

text \<open>Keys of the two kinds of table: an integer as a string, a numeric string as an integer.\<close>

definition key_str :: "hkey \<Rightarrow> string" where
  "key_str k = (case k of Inl h \<Rightarrow> ZSTR_VAL (zend_long_to_str h) | Inr s \<Rightarrow> s)"

definition norm_key :: "hkey \<Rightarrow> hkey" where
  "norm_key k = (case k of Inl h \<Rightarrow> Inl h | Inr s \<Rightarrow> symtable_key s)"

lemma symtable_key_str: "norm_key k = k \<Longrightarrow> symtable_key (key_str k) = k"
  by (auto simp: norm_key_def key_str_def symtable_key_def long_to_str_numeric split: sum.splits option.splits)

lemma key_str_inj: "norm_key k = k \<Longrightarrow> norm_key j = j \<Longrightarrow> key_str k = key_str j \<Longrightarrow> k = j"
  by (metis symtable_key_str)

lemma prop_str_key: "ZSTR_VAL (prop_str p) = key_str (bkey p)"
  by (simp add: prop_str_def key_str_def bkey_def split: option.split)

lemma elems_buckets: "elems ht = map entry (map (\<lambda>i. arData ht ! i) (live_of ht))"
  by (simp add: elems_def)

lemma to_proptable_spec:
  assumes "ht_inv ht" "nNumOfElements ht \<le> 2 ^ 27" "list_all (\<lambda>p. deref (snd p) = snd p \<and> norm_key (fst p) = fst p) (elems ht)"
  shows "\<exists>p. zend_symtable_to_proptable deref a ht = Inr p \<and> ht_inv p \<and> elems p = map (apfst (Inr \<circ> key_str)) (elems ht)"
proof -
  let ?bs = "map (\<lambda>i. arData ht ! i) (live_of ht)"
  have used: "filter (\<lambda>p. b_val p \<noteq> IS_UNDEF) (take (nNumUsed ht) (arData ht)) = ?bs"
    using used_buckets ht_inv_used[OF assms(1)] by blast
  have b: "deref (b_val q) = b_val q \<and> norm_key (bkey q) = bkey q \<and> proper (b_val q)" if "q \<in> set ?bs" for q
    using that assms(3) ht_inv_proper[OF assms(1)] by (auto simp: elems_buckets entry_def list_all_iff)
  show ?thesis
  proof (cases "flag_packed ht \<or> (\<exists>p \<in> set (take (nNumUsed ht) (arData ht)). b_val p \<noteq> IS_UNDEF \<and> b_key p = None)")
    case True
    obtain t where t: "zend_new_array ht a (nNumOfElements ht) = Inr t" "nTableSize t < 2 ^ 29" "ht_inv t" "elems t = []"
      "within (nTableSize t) 0 t" using new_array_room[OF assms(2)] by blast
    have st: "\<exists>t' q. zend_hash_update u (prop_str x) (deref (b_val x)) = Inr (t', q)
        \<and> ins_spec u (Inr (key_str (bkey x))) (b_val x) (t', q) \<and> grow_step u t'"
      if "x \<in> set ?bs" "ht_inv u" "has_room u" for x u
      using update_spec[OF that(2) _ that(3), of "b_val x" "prop_str x"] b[OF that(1)] grow_entry_points(1)[OF that(2)]
      by (auto simp: prop_str_key)
    have n: "0 + length ?bs \<le> 2 ^ 27" using assms(2) ht_inv_used[OF assms(1)] by simp
    obtain p where p: "store_loop (\<lambda>p t. zend_hash_update t (prop_str p) (deref (b_val p))) ?bs t = Inr p" "ht_inv p"
      "elems p = put_all (map (\<lambda>x. (Inr (key_str (bkey x)), b_val x)) ?bs) (elems t)"
      using store_loop_spec[where kf = "\<lambda>x. Inr (key_str (bkey x))" and vf = b_val, OF st t(3,5,2) n] by blast
    have "inj_on (\<lambda>i. bkey (arData ht ! i)) (set (live_of ht))" "distinct (live_of ht)"
      using ht_inv_distinct[OF assms(1)] by (auto simp: elems_buckets entry_def comp_def distinct_map)
    then have "distinct (map (\<lambda>x. Inr (key_str (bkey x)) :: hkey) ?bs)"
      using b key_str_inj by (simp add: comp_def distinct_map inj_on_def)
    then have "elems p = map (apfst (Inr \<circ> key_str)) (elems ht)"
      using p(3) t(4) put_all_fresh[of "[]" "map (\<lambda>x. (Inr (key_str (bkey x)), b_val x)) ?bs"]
      by (simp add: elems_buckets[of ht] entry_def comp_def)
    then show ?thesis using True p(1,2) t(1) by (simp add: zend_symtable_to_proptable_def proptable_from_loop used Let_def)
  next
    case False
    have "Inr (key_str (bkey q)) = bkey q" if "q \<in> set ?bs" for q
    proof -
      have "q \<in> set (filter (\<lambda>p. b_val p \<noteq> IS_UNDEF) (take (nNumUsed ht) (arData ht)))" using that used by simp
      then show ?thesis using False by (auto simp: bkey_def key_str_def)
    qed
    then have "elems ht = map (apfst (Inr \<circ> key_str)) (elems ht)"
      unfolding elems_buckets map_map by (intro map_cong refl) (auto simp: entry_def)
    then show ?thesis using False assms(1) by (auto simp: zend_symtable_to_proptable_def Let_def)
  qed
qed

lemma resolve_direct: "no_ind v \<Longrightarrow> resolve_ind ht v = v"
  by (simp add: no_ind_def resolve_ind_def split: zval.splits)

lemma sym_store_spec:
  assumes "ht_inv t" "has_room t" "proper v"
  shows "\<exists>t' q. sym_store p v t = Inr (t', q) \<and> ins_spec t (norm_key (bkey p)) v (t', q) \<and> grow_step t t'"
proof (cases "norm_key (bkey p)")
  case (Inl h)
  then have e: "sym_store p v t = zend_hash_index_update t h v"
    by (auto simp: sym_store_def norm_key_def bkey_def symtable_key_def split: option.splits)
  show ?thesis using index_update_spec[OF assms(1,3,2), of h] grow_entry_points(5)[OF assms(1)] by (auto simp: e Inl)
next
  case (Inr str)
  then obtain k where k: "b_key p = Some k" "zend_handle_numeric_str (ZSTR_VAL k) = None" "str = ZSTR_VAL k"
    by (auto simp: norm_key_def bkey_def symtable_key_def split: option.splits)
  then have e: "sym_store p v t = zend_hash_update t k v" by (simp add: sym_store_def)
  show ?thesis using update_spec[OF assms(1,3,2), of k] grow_entry_points(1)[OF assms(1)] by (auto simp: e Inr k(3))
qed

lemma to_symtable_spec:
  assumes "ht_inv ht" "nNumOfElements ht \<le> 2 ^ 27" "list_all (\<lambda>p. deref (snd p) = snd p \<and> no_ind (snd p)) (elems ht)"
    "distinct (map (norm_key \<circ> fst) (elems ht))"
  shows "\<exists>t. zend_proptable_to_symtable deref immutable a False ht = Inr t \<and> ht_inv t \<and> elems t = map (apfst norm_key) (elems ht)"
proof -
  let ?bs = "map (\<lambda>i. arData ht ! i) (live_of ht)" and ?used = "take (nNumUsed ht) (arData ht)"
  have used: "filter (\<lambda>p. b_val p \<noteq> IS_UNDEF) ?used = ?bs"
    using used_buckets ht_inv_used[OF assms(1)] by blast
  have b: "deref (b_val q) = b_val q \<and> resolve_ind ht (b_val q) = b_val q \<and> proper (b_val q)" if "q \<in> set ?bs" for q
    using that assms(3) ht_inv_proper[OF assms(1)]
    by (auto simp: elems_buckets entry_def list_all_iff resolve_direct)
  have "resolve_ind ht (b_val q) \<noteq> IS_UNDEF \<longleftrightarrow> b_val q \<noteq> IS_UNDEF" if "q \<in> set ?used" for q
  proof (cases "b_val q = IS_UNDEF")
    case False
    then have "q \<in> set ?bs" using that unfolding used[symmetric] by simp
    then show ?thesis using b by simp
  qed (simp add: resolve_ind_def)
  then have used': "filter (\<lambda>p. resolve_ind ht (b_val p) \<noteq> IS_UNDEF) ?used = ?bs"
    unfolding used[symmetric] by (intro filter_cong refl)
  let ?num = "\<exists>p \<in> set ?used. b_val p \<noteq> IS_UNDEF \<and> (case b_key p of None \<Rightarrow> False | Some k \<Rightarrow> zend_handle_numeric_str (ZSTR_VAL k) \<noteq> None)"
  show ?thesis
  proof (cases ?num)
    case True
    obtain t where t: "zend_new_array ht a (nNumOfElements ht) = Inr t" "nTableSize t < 2 ^ 29" "ht_inv t" "elems t = []"
      "within (nTableSize t) 0 t" using new_array_room[OF assms(2)] by blast
    have st: "\<exists>t' q. sym_store x (deref (resolve_ind ht (b_val x))) u = Inr (t', q)
        \<and> ins_spec u (norm_key (bkey x)) (b_val x) (t', q) \<and> grow_step u t'"
      if "x \<in> set ?bs" "ht_inv u" "has_room u" for x u
      using sym_store_spec[OF that(2,3), of "b_val x" x] b[OF that(1)] by simp
    have n: "0 + length ?bs \<le> 2 ^ 27" using assms(2) ht_inv_used[OF assms(1)] by simp
    obtain p where p: "store_loop (\<lambda>p. sym_store p (deref (resolve_ind ht (b_val p)))) ?bs t = Inr p" "ht_inv p"
      "elems p = put_all (map (\<lambda>x. (norm_key (bkey x), b_val x)) ?bs) (elems t)"
      using store_loop_spec[where kf = "\<lambda>x. norm_key (bkey x)" and vf = b_val, OF st t(3,5,2) n] by blast
    have "elems p = map (apfst norm_key) (elems ht)"
      using p(3) t(4) put_all_fresh[of "[]" "map (\<lambda>x. (norm_key (bkey x), b_val x)) ?bs"] assms(4)
      by (simp add: elems_buckets[of ht] entry_def comp_def)
    then show ?thesis using True p(1,2) t(1) by (simp add: zend_proptable_to_symtable_def symtable_from_loop used' Let_def)
  next
    case False
    have "norm_key (bkey q) = bkey q" if "q \<in> set ?bs" for q
    proof -
      have "q \<in> set (filter (\<lambda>p. b_val p \<noteq> IS_UNDEF) ?used)" using that used by simp
      then have "case b_key q of None \<Rightarrow> True | Some k \<Rightarrow> zend_handle_numeric_str (ZSTR_VAL k) = None"
        using False by (cases "b_key q") fastforce+
      then show ?thesis by (auto simp: norm_key_def bkey_def symtable_key_def split: option.splits)
    qed
    then have "elems ht = map (apfst norm_key) (elems ht)"
      unfolding elems_buckets map_map by (intro map_cong refl) (auto simp: entry_def)
    moreover have "zend_proptable_to_symtable deref immutable a False ht = Inr ht"
      unfolding zend_proptable_to_symtable_def Let_def if_not_P[OF False] by simp
    ultimately show ?thesis using assms(1) by simp
  qed
qed

text \<open>C12: an array whose string keys are not integers in disguise, as PHP arrays are, becomes a
  property table with the same values in the same order under string keys only, and that
  property table converts back to the array. The values are direct ones that reference
  counting leaves alone.\<close>

theorem proptable_roundtrip:
  assumes "ht_inv ht" "nNumOfElements ht \<le> 2 ^ 27"
    "list_all (\<lambda>(k, v). norm_key k = k \<and> no_ind v \<and> deref v = v) (elems ht)"
  shows "\<exists>p t. zend_symtable_to_proptable deref a ht = Inr p \<and> ht_inv p
      \<and> elems p = map (\<lambda>(k, v). (Inr (key_str k), v)) (elems ht)
      \<and> zend_proptable_to_symtable deref immutable b False p = Inr t \<and> ht_inv t \<and> elems t = elems ht"
proof -
  have k: "list_all (\<lambda>p. norm_key (fst p) = fst p \<and> no_ind (snd p) \<and> deref (snd p) = snd p) (elems ht)"
    using assms(3) by (auto simp: list_all_iff)
  obtain p where p: "zend_symtable_to_proptable deref a ht = Inr p" "ht_inv p" "elems p = map (apfst (Inr \<circ> key_str)) (elems ht)"
    using to_proptable_spec[OF assms(1,2), of deref a] k by (auto simp: list_all_iff)
  have bk: "map (apfst norm_key) (elems p) = elems ht"
    unfolding p(3) map_map using k by (intro map_idI) (auto simp: list_all_iff norm_key_def symtable_key_str[unfolded norm_key_def])
  have "map (norm_key \<circ> fst) (elems p) = map fst (elems ht)" using arg_cong[OF bk, of "map fst"] by (simp add: comp_def)
  then have d: "distinct (map (norm_key \<circ> fst) (elems p))" using ht_inv_distinct[OF assms(1)] by simp
  have n: "nNumOfElements p \<le> 2 ^ 27" using assms(2) ht_inv_count[OF p(2)] ht_inv_count[OF assms(1)] p(3) by simp
  have "list_all (\<lambda>p. deref (snd p) = snd p \<and> no_ind (snd p)) (elems p)" unfolding p(3) using k by (auto simp: list_all_iff)
  from to_symtable_spec[OF p(2) n this d, of immutable b] obtain t where
    t: "zend_proptable_to_symtable deref immutable b False p = Inr t" "ht_inv t" "elems t = elems ht" using bk by auto
  from t show ?thesis using p by (auto simp: apfst_def map_prod_def comp_def case_prod_beta)
qed

theorem proptable_roundtrip_witness:
  "\<exists>p t. zend_symtable_to_proptable id 1 demo_table = Inr p \<and> elems p = [(Inr ''a'', ZVAL 1)]
     \<and> zend_proptable_to_symtable id False 2 False p = Inr t \<and> elems t = elems demo_table"
proof -
  have "norm_key (Inr ''a'') = Inr ''a''"
    by (simp add: norm_key_def symtable_key_def zend_handle_numeric_str_def schar_def is_digit_def)
  then show ?thesis using proptable_roundtrip[of demo_table id 1 False 2] demo_table_size(2)
    by (auto simp: no_ind_def key_str_def)
qed

end
