(* ===== verification/ZendHashDup.thy ===== *)
theory ZendHashDup
  imports ZendHashCopy
begin

text \<open>
  Duplication of an array, the copy that separates a shared array before it is written.
  The packed loop, the hash loop with its change of mode at the first hole, the bitwise
  copy of immutable arrays and the empty array all give an array with the same elements.
\<close>

section \<open>A hash table built bucket by bucket\<close>

definition dcore :: "('v zval \<Rightarrow> 'v zval) \<Rightarrow> 'v Bucket \<Rightarrow> 'v zval \<times> zend_ulong \<times> zend_string option" where
  "dcore deref b = (deref (b_val b), b_h b, b_key b)"

text \<open>The first \<open>j\<close> buckets of \<open>t\<close> are linked copies of the buckets \<open>L\<close> of the source.\<close>

definition dup_upto :: "('v zval \<Rightarrow> 'v zval) \<Rightarrow> 'v HashTable \<Rightarrow> 'v HashTable \<Rightarrow> nat list \<Rightarrow> 'v HashTable \<Rightarrow> nat \<Rightarrow> bool" where
  "dup_upto deref source t0 L t j \<longleftrightarrow> mask_inv t \<and> chains_ok t [0..<j] \<and> rehash_frame t0 t
     \<and> map (\<lambda>k. core (arData t ! k)) [0..<j] = map (\<lambda>i. dcore deref (arData source ! i)) L"

lemma dup_element_undef:
  "b_val (arData source ! i) = IS_UNDEF \<Longrightarrow> with_holes \<Longrightarrow> zend_array_dup_element deref source t i j packed with_holes = None"
  by (simp add: zend_array_dup_element_def dup_data_def resolve_ind_def Let_def)

lemma dup_element_live:
  assumes "b_val (arData source ! i) \<noteq> IS_UNDEF" "no_ind (b_val (arData source ! i))"
  shows "zend_array_dup_element deref source t i j packed with_holes =
    Some (let t1 = upd_bucket j (\<lambda>r. r\<lparr>b_val := deref (b_val (arData source ! i)), b_h := b_h (arData source ! i),
                 b_key := (if packed then None else b_key (arData source ! i))\<rparr>) t
          in if packed then t1 else link_bucket j t1)"
proof -
  have "dup_data source packed with_holes (b_val (arData source ! i)) = Some (b_val (arData source ! i))"
    using assms resolve_direct[OF assms(2)] by (auto simp: dup_data_def no_ind_def split: zval.splits)
  then show ?thesis by (simp add: zend_array_dup_element_def Let_def)
qed

lemma dup_hash_step:
  assumes "dup_upto deref source t0 L t j" "j < length (arData t)"
    "b_val (arData source ! i) \<noteq> IS_UNDEF" "no_ind (b_val (arData source ! i))"
  shows "\<exists>t'. zend_array_dup_element deref source t i j False with_holes = Some t' \<and> dup_upto deref source t0 (L @ [i]) t' (Suc j)"
proof -
  let ?b = "arData source ! i"
  let ?h = "upd_bucket j (\<lambda>r. r\<lparr>b_val := deref (b_val ?b), b_h := b_h ?b, b_key := b_key ?b\<rparr>) t"
  note d = assms(1)[unfolded dup_upto_def]
  have "chains_ok ?h [0..<j]" by (rule chains_ok_cong[of t]) (use d in \<open>auto simp: upd_bucket_def nth_update_cases\<close>)
  then have c: "chains_ok (link_bucket j ?h) ([0..<j] @ [j])"
    using d assms(2) by (intro chains_ok_link) (auto simp: upd_bucket_def mask_inv_def)
  have core: "core (arData ?h ! k) = (if k = j then dcore deref ?b else core (arData t ! k))" for k
    using assms(2) by (simp add: upd_bucket_def nth_update_cases core_def dcore_def)
  then have m: "map (\<lambda>k. core (arData ?h ! k)) [0..<j] = map (\<lambda>k. core (arData t ! k)) [0..<j]"
    by (intro map_cong) auto
  have f: "rehash_frame t (link_bucket j ?h)" by (simp add: rehash_frame_def upd_bucket_def)
  have "dup_upto deref source t0 (L @ [i]) (link_bucket j ?h) (Suc j)"
    using c m d rehash_frame_trans[OF _ f] rehash_frame_mask[OF f] by (simp add: dup_upto_def core)
  then show ?thesis using dup_element_live[OF assms(3,4)] by (simp add: Let_def)
qed

lemma dup_upto_pointer: "dup_upto deref source t0 L (t\<lparr>nInternalPointer := p\<rparr>) j = dup_upto deref source t0 L t j"
  by (simp add: dup_upto_def mask_inv_def rehash_frame_def)

lemma dup_upto_length: "dup_upto deref source t0 L t j \<Longrightarrow> length L = j"
proof -
  assume "dup_upto deref source t0 L t j"
  then have "map (\<lambda>k. core (arData t ! k)) [0..<j] = map (\<lambda>i. dcore deref (arData source ! i)) L" by (simp add: dup_upto_def)
  then have "length (map (\<lambda>k. core (arData t ! k)) [0..<j]) = length (map (\<lambda>i. dcore deref (arData source ! i)) L)" by (rule arg_cong)
  then show ?thesis by simp
qed

text \<open>The two loops: before the first hole the index is kept, after it the copies close up.\<close>

abbreviation direct_at :: "'v HashTable \<Rightarrow> nat list \<Rightarrow> bool" where
  "direct_at source is \<equiv> list_all (\<lambda>i. b_val (arData source ! i) \<noteq> IS_UNDEF \<longrightarrow> no_ind (b_val (arData source ! i))) is"

lemma dup_after_hole_spec:
  assumes "dup_upto deref source t0 L t j" "j + length is \<le> length (arData t0)" "direct_at source is"
  shows "\<exists>t'. dup_after_hole deref source True is j t = (t', j + length (filter (live (arData source)) is))
    \<and> dup_upto deref source t0 (L @ filter (live (arData source)) is) t' (j + length (filter (live (arData source)) is))"
  using assms
proof (induction "is" arbitrary: L t j)
  case (Cons i "is")
  have len: "length (arData t) = length (arData t0)" using Cons.prems(1) by (simp add: dup_upto_def rehash_frame_def)
  show ?case
  proof (cases "b_val (arData source ! i) = IS_UNDEF")
    case True
    then show ?thesis using Cons.IH[OF Cons.prems(1)] Cons.prems(2,3) dup_element_undef[OF True] by (simp add: live_def)
  next
    case False
    obtain t1 where t1: "zend_array_dup_element deref source t i j False True = Some t1" "dup_upto deref source t0 (L @ [i]) t1 (Suc j)"
      using dup_hash_step[OF Cons.prems(1), of i True] Cons.prems(2,3) False len by auto
    define t2 where "t2 = (if nInternalPointer source = i then t1\<lparr>nInternalPointer := j\<rparr> else t1)"
    have "dup_upto deref source t0 (L @ [i]) t2 (Suc j)" using t1(2) by (simp add: t2_def dup_upto_pointer)
    from Cons.IH[OF this] Cons.prems(2,3) False t1(1) show ?thesis by (simp add: live_def t2_def)
  qed
qed simp

lemma dup_elements_spec:
  assumes "dup_upto deref source t0 [0..<a] t a" "n \<le> length (arData t0)" "a \<le> n" "direct_at source [a..<n]"
    "\<not> with_holes \<Longrightarrow> filter (live (arData source)) [a..<n] = [a..<n]"
  shows "\<exists>t' m. zend_array_dup_elements deref source with_holes [a..<n] n t = (t', m)
    \<and> m = a + length (filter (live (arData source)) [a..<n])
    \<and> dup_upto deref source t0 ([0..<a] @ filter (live (arData source)) [a..<n]) t' m"
  using assms
proof (induction "n - a" arbitrary: a t)
  case 0
  then show ?case by simp
next
  case (Suc d)
  then have an: "a < n" "[a..<n] = a # [Suc a..<n]" by (auto simp: upt_conv_Cons)
  have len: "length (arData t) = length (arData t0)" using Suc.prems(1) by (simp add: dup_upto_def rehash_frame_def)
  show ?case
  proof (cases "b_val (arData source ! a) = IS_UNDEF")
    case True
    have wh: with_holes
    proof (rule ccontr)
      assume "\<not> with_holes"
      then have "a \<in> set (filter (live (arData source)) [a..<n])" using Suc.prems(5) an(1) by simp
      then show False using True by (simp add: live_def)
    qed
    from dup_after_hole_spec[OF Suc.prems(1), of "[Suc a..<n]"] Suc.prems(2,4) an True wh dup_element_undef[OF True, of True]
    show ?thesis by (auto simp: live_def)
  next
    case False
    obtain t1 where t1: "zend_array_dup_element deref source t a a False with_holes = Some t1" "dup_upto deref source t0 [0..<Suc a] t1 (Suc a)"
      using dup_hash_step[OF Suc.prems(1), of a with_holes] Suc.prems(2,4) an False len by auto
    have "\<exists>t' m. zend_array_dup_elements deref source with_holes [Suc a..<n] n t1 = (t', m)
      \<and> m = Suc a + length (filter (live (arData source)) [Suc a..<n])
      \<and> dup_upto deref source t0 ([0..<Suc a] @ filter (live (arData source)) [Suc a..<n]) t' m"
      using Suc.prems(2,4,5) Suc.hyps(2) an False by (intro Suc.hyps(1)[OF _ t1(2)]) (auto simp: live_def)
    then show ?thesis using an False t1(1) by (simp add: live_def)
  qed
qed

text \<open>Closing the table: the copies are all it holds.\<close>

lemma built_mixed:
  assumes "dup_upto deref source t0 L t n" "size_ok (nTableSize t)" "n \<le> nTableSize t" "length (arData t) = nTableSize t"
    "\<And>i. i \<in> set L \<Longrightarrow> proper (deref (b_val (arData source ! i))) \<and> key_hash_ok (arData source ! i)"
    "distinct (map (\<lambda>i. bkey (arData source ! i)) L)"
  defines "r \<equiv> t\<lparr>nNumUsed := n, nNumOfElements := n\<rparr>"
  shows "mixed_inv r" "elems r = map (\<lambda>i. (bkey (arData source ! i), deref (b_val (arData source ! i)))) L"
proof -
  note d = assms(1)[unfolded dup_upto_def]
  have l: "length L = n" by (rule dup_upto_length[OF assms(1)])
  have c: "core (arData t ! k) = dcore deref (arData source ! (L ! k))" if "k < n" for k
  proof -
    have "map (\<lambda>k. core (arData t ! k)) [0..<n] ! k = map (\<lambda>i. dcore deref (arData source ! i)) L ! k" using d by simp
    then show ?thesis using that l by simp
  qed
  have f: "b_val (arData t ! k) = deref (b_val (arData source ! (L ! k)))" "b_h (arData t ! k) = b_h (arData source ! (L ! k))"
    "b_key (arData t ! k) = b_key (arData source ! (L ! k))" if "k < n" for k
    using c[OF that] by (simp_all add: core_def dcore_def)
  have p: "proper (b_val (arData t ! k))" "key_hash_ok (arData t ! k)" if "k < n" for k
    using f[OF that] assms(5)[of "L ! k"] that l by (simp_all add: key_hash_ok_def cong: option.case_cong)
  have lv: "live_of r = [0..<n]"
  proof -
    have "filter (live (arData t)) [0..<n] = [0..<n]" using p by (intro filter_True) (auto simp: live_def proper_def)
    then show ?thesis by (simp add: r_def live_idx_def)
  qed
  have e: "entry (arData t ! k) = (bkey (arData source ! (L ! k)), deref (b_val (arData source ! (L ! k))))" if "k < n" for k
    using f[OF that] by (simp add: entry_def bkey_def cong: option.case_cong)
  have "elems r = map (\<lambda>k. (bkey (arData source ! (L ! k)), deref (b_val (arData source ! (L ! k))))) [0..<n]"
    unfolding elems_def lv using e by (intro map_cong) (auto simp: r_def)
  also have "\<dots> = map (\<lambda>i. (bkey (arData source ! i), deref (b_val (arData source ! i)))) (map ((!) L) [0..<length L])"
    by (simp add: comp_def l)
  finally show el: "elems r = map (\<lambda>i. (bkey (arData source ! i), deref (b_val (arData source ! i)))) L"
    by (simp only: map_nth)
  have "data_inv r" unfolding data_inv_def lv using assms(2-4) p by (auto simp: r_def proper_def)
  moreover have "mask_inv r" using d by (simp add: r_def mask_inv_def)
  moreover have "keys_inv r" unfolding keys_inv_def lv el using assms(6) p by (auto simp: r_def comp_def)
  moreover have "chains_ok r [0..<n]" using d by (simp add: r_def)
  ultimately show "mixed_inv r" unfolding mixed_inv_def lv by simp
qed

lemma direct_elems_at: "direct (elems ht) \<Longrightarrow> direct_at ht [0..<nNumUsed ht]"
  by (auto simp: elems_def entry_def list_all_iff live_idx_set)

lemma no_holes_live:
  assumes "ht_inv ht" "HT_IS_WITHOUT_HOLES ht"
  shows "live_of ht = [0..<nNumUsed ht]"
proof -
  have "live (arData ht) i" if "i < nNumUsed ht" for i
    using live_hole_less[OF that] ht_inv_used[OF assms(1)] assms(2) by (auto simp: live_def HT_IS_WITHOUT_HOLES_def)
  then show ?thesis unfolding live_idx_def by (intro filter_True) simp
qed

definition dup_elems :: "('v zval \<Rightarrow> 'v zval) \<Rightarrow> 'v HashTable \<Rightarrow> (hkey \<times> 'v zval) list" where
  "dup_elems deref ht = map (\<lambda>i. (bkey (arData ht ! i), deref (b_val (arData ht ! i)))) (live_of ht)"

lemma dup_elems_eq: "dup_elems deref ht = map (apsnd deref) (elems ht)"
  by (simp add: dup_elems_def elems_def entry_def)

lemma dup_hash:
  assumes "ht_inv source" "\<not> flag_packed source" "\<not> flag_uninitialized source" "direct (elems source)"
    "list_all (\<lambda>p. proper (deref (snd p))) (elems source)" "nNumOfElements source \<noteq> 0"
  shows "ht_inv (zend_array_dup deref False a source) \<and> elems (zend_array_dup deref False a source) = map (apsnd deref) (elems source)"
proof -
  have m: "mixed_inv source" using assms(1-3) by (simp add: ht_inv_def)
  note d = data_invD[OF mixed_invD(1)[OF m]]
  let ?pos = "if nInternalPointer source < nNumUsed source then nInternalPointer source else 0"
  define h where "h = (dup_header a source)\<lparr>nInternalPointer := ?pos, arData := replicate (nTableSize source) uninit_bucket\<rparr>"
  define t0 where "t0 = HT_HASH_RESET h"
  have mh: "mask_inv h" using mixed_invD(2)[OF m] by (simp add: h_def dup_header_def mask_inv_def)
  then have "dup_upto deref source t0 [] t0 0" using chains_ok_after_reset[OF mh] by (simp add: dup_upto_def t0_def)
  then have u: "dup_upto deref source t0 [0..<0] t0 0" by simp
  have t0: "nTableSize t0 = nTableSize source" "length (arData t0) = nTableSize source" "\<not> flag_packed t0" "\<not> flag_uninitialized t0"
    using assms(2,3) by (simp_all add: t0_def h_def dup_header_def HT_HASH_RESET_def)
  have wh: "\<not> \<not> HT_IS_WITHOUT_HOLES source \<Longrightarrow> filter (live (arData source)) [0..<nNumUsed source] = [0..<nNumUsed source]"
    using no_holes_live[OF assms(1)] by (simp add: live_idx_def)
  obtain t n where t: "zend_array_dup_elements deref source (\<not> HT_IS_WITHOUT_HOLES source) [0..<nNumUsed source] (nNumUsed source) t0 = (t, n)"
    "n = length (live_of source)" "dup_upto deref source t0 (live_of source) t n"
    using dup_elements_spec[OF u _ _ direct_elems_at[OF assms(4)], where with_holes = "\<not> HT_IS_WITHOUT_HOLES source"] d(2) t0(2) wh
    by (auto simp: live_idx_def)
  have fr: "nTableSize t = nTableSize source" "length (arData t) = nTableSize t" "\<not> flag_packed t" "\<not> flag_uninitialized t"
    using t(3) t0 by (simp_all add: dup_upto_def rehash_frame_def)
  let ?r = "t\<lparr>nNumUsed := n, nNumOfElements := n\<rparr>"
  have ds: "distinct (map (\<lambda>i. bkey (arData source ! i)) (live_of source))"
    using mixed_invD(4)[OF m] by (simp add: map_fst_elems)
  have nt: "n \<le> nTableSize t" using t(2) fr(1) d(2) live_idx_length[of "arData source" "nNumUsed source"] by simp
  have pr: "proper (deref (b_val (arData source ! i))) \<and> key_hash_ok (arData source ! i)" if "i \<in> set (live_of source)" for i
    using that assms(5) mixed_invD(5)[OF m] by (auto simp: elems_def entry_def list_all_iff)
  have "size_ok (nTableSize t)" using fr(1) d(1) by simp
  note bm = built_mixed[OF t(3) this nt fr(2) pr ds]
  have "zend_array_dup deref False a source = ?r"
    using assms(2,6) t(1) by (simp add: zend_array_dup_def Let_def t0_def h_def)
  then show ?thesis using bm fr(3,4) dup_elems_eq[of deref source] by (simp add: ht_inv_def dup_elems_def)
qed

section \<open>The packed loop\<close>

definition packed_copy :: "('v zval \<Rightarrow> 'v zval) \<Rightarrow> 'v HashTable \<Rightarrow> nat \<Rightarrow> 'v Bucket \<Rightarrow> 'v Bucket" where
  "packed_copy deref source i b =
     (if b_val (arData source ! i) = IS_UNDEF then b\<lparr>b_val := IS_UNDEF\<rparr>
      else b\<lparr>b_val := deref (b_val (arData source ! i)), b_h := b_h (arData source ! i), b_key := None\<rparr>)"

lemma dup_packed_step:
  assumes "b_val (arData source ! i) = IS_UNDEF \<longrightarrow> with_holes" "b_val (arData source ! i) \<noteq> IS_UNDEF \<longrightarrow> no_ind (b_val (arData source ! i))"
  shows "zend_array_dup_packed_elements deref source with_holes (i # is) t
    = zend_array_dup_packed_elements deref source with_holes is (upd_bucket i (packed_copy deref source i) t)"
proof (cases "b_val (arData source ! i) = IS_UNDEF")
  case True
  then show ?thesis using assms(1) dup_element_undef[OF True, of with_holes] by (simp add: packed_copy_def[abs_def])
next
  case False
  then show ?thesis using assms(2) dup_element_live[OF False] by (simp add: packed_copy_def[abs_def])
qed

lemma dup_packed_elements_eq:
  assumes "list_all (\<lambda>i. (b_val (arData source ! i) = IS_UNDEF \<longrightarrow> with_holes)
      \<and> (b_val (arData source ! i) \<noteq> IS_UNDEF \<longrightarrow> no_ind (b_val (arData source ! i)))) is"
    "distinct is" "\<And>i. i \<in> set is \<Longrightarrow> i < length (arData t)"
  shows "\<exists>ar. zend_array_dup_packed_elements deref source with_holes is t = t\<lparr>arData := ar\<rparr> \<and> length ar = length (arData t)
    \<and> (\<forall>i. ar ! i = (if i \<in> set is then packed_copy deref source i (arData t ! i) else arData t ! i))"
  using assms
proof (induction "is" arbitrary: t)
  case Nil
  then show ?case by (intro exI[of _ "arData t"]) simp
next
  case (Cons i "is")
  let ?t = "upd_bucket i (packed_copy deref source i) t"
  obtain ar where ar: "zend_array_dup_packed_elements deref source with_holes is ?t = ?t\<lparr>arData := ar\<rparr>"
    "length ar = length (arData t)" "\<forall>i. ar ! i = (if i \<in> set is then packed_copy deref source i (arData ?t ! i) else arData ?t ! i)"
    using Cons.IH[of ?t] Cons.prems by (auto simp: upd_bucket_def)
  have "zend_array_dup_packed_elements deref source with_holes (i # is) t = t\<lparr>arData := ar\<rparr>"
    using ar(1) dup_packed_step[of source i with_holes deref "is" t] Cons.prems(1) by (simp add: upd_bucket_def)
  moreover have "ar ! k = (if k \<in> set (i # is) then packed_copy deref source k (arData t ! k) else arData t ! k)" for k
    using ar(3) Cons.prems(2,3) by (auto simp: upd_bucket_def nth_update_cases)
  ultimately show ?case using ar(2) by blast
qed

lemma dup_packed:
  assumes "ht_inv source" "flag_packed source" "direct (elems source)" "list_all (\<lambda>p. proper (deref (snd p))) (elems source)"
    "nNumOfElements source \<noteq> 0"
  shows "ht_inv (zend_array_dup deref False a source) \<and> elems (zend_array_dup deref False a source) = map (apsnd deref) (elems source)"
proof -
  have pi: "packed_inv source" "\<not> flag_uninitialized source" using assms(1,2) by (auto simp: ht_inv_def split: if_splits)
  then have di: "data_inv source" by (simp add: packed_inv_def)
  note d = data_invD[OF di]
  let ?pos = "if nInternalPointer source < nNumUsed source then nInternalPointer source else 0"
  define t0 where "t0 = HT_HASH_RESET_PACKED ((dup_header a source)\<lparr>nTableMask := HT_MIN_MASK, nInternalPointer := ?pos,
      arData := replicate (nTableSize source) uninit_bucket\<rparr>)"
  have wh: "HT_IS_WITHOUT_HOLES (dup_header a source) = HT_IS_WITHOUT_HOLES source"
    by (simp add: HT_IS_WITHOUT_HOLES_def dup_header_def)
  have "b_val (arData source ! i) \<noteq> IS_UNDEF" if "HT_IS_WITHOUT_HOLES source" "i < nNumUsed source" for i
  proof -
    have "i \<in> set (live_of source)" using no_holes_live[OF assms(1) that(1)] that(2) by simp
    then show ?thesis by (simp add: live_idx_set)
  qed
  then have all: "list_all (\<lambda>i. (b_val (arData source ! i) = IS_UNDEF \<longrightarrow> \<not> HT_IS_WITHOUT_HOLES source)
      \<and> (b_val (arData source ! i) \<noteq> IS_UNDEF \<longrightarrow> no_ind (b_val (arData source ! i)))) [0..<nNumUsed source]"
    using direct_elems_at[OF assms(3)] by (auto simp: list_all_iff)
  obtain ar where ar: "zend_array_dup_packed_elements deref source (\<not> HT_IS_WITHOUT_HOLES source) [0..<nNumUsed source] t0 = t0\<lparr>arData := ar\<rparr>"
    "length ar = nTableSize source"
    "\<forall>i. ar ! i = (if i \<in> set [0..<nNumUsed source] then packed_copy deref source i (arData t0 ! i) else arData t0 ! i)"
    using dup_packed_elements_eq[OF all, of t0 deref] d(2) by (auto simp: t0_def HT_HASH_RESET_PACKED_def)
  let ?r = "t0\<lparr>arData := ar\<rparr>"
  have e: "zend_array_dup deref False a source = ?r"
    using assms(2,5) ar(1) by (simp add: zend_array_dup_def Let_def wh t0_def)
  have b: "ar ! i = packed_copy deref source i (arData t0 ! i)" if "i < nNumUsed source" for i using ar(3) that by simp
  have pr: "proper (deref (b_val (arData source ! i)))" if "i \<in> set (live_of source)" for i
    using that assms(4) by (auto simp: elems_def entry_def list_all_iff)
  have used: "nNumUsed ?r = nNumUsed source" by (simp add: t0_def HT_HASH_RESET_PACKED_def dup_header_def)
  have lv: "live_of ?r = live_of source" unfolding used unfolding live_idx_def
    using b pr by (intro filter_cong) (auto simp: live_def packed_copy_def proper_def live_idx_set)
  have cp: "ar ! i = (arData t0 ! i)\<lparr>b_val := deref (b_val (arData source ! i)), b_h := b_h (arData source ! i), b_key := None\<rparr>"
    "b_key (arData source ! i) = None" "b_h (arData source ! i) = of_nat i"
    if "i \<in> set (live_of source)" for i using that b pi(1) by (auto simp: live_idx_set packed_copy_def packed_inv_def)
  have "elems ?r = map (apsnd deref) (elems source)"
    unfolding elems_def lv map_map using cp by (intro map_cong) (auto simp: entry_def bkey_def)
  moreover have "data_inv ?r" unfolding data_inv_def lv unfolding used
    using d ar(2) b pr by (auto simp: t0_def HT_HASH_RESET_PACKED_def dup_header_def packed_copy_def proper_def live_idx_set)
  then have "packed_inv ?r" unfolding packed_inv_def lv using cp by (simp add: t0_def HT_HASH_RESET_PACKED_def)
  then have "ht_inv ?r" using assms(2) pi(2) by (simp add: ht_inv_def t0_def HT_HASH_RESET_PACKED_def dup_header_def)
  ultimately show ?thesis unfolding e by blast
qed

section \<open>Immutable and empty arrays\<close>

lemma dup_immutable:
  assumes "ht_inv source" "nNumOfElements source \<noteq> 0"
  shows "ht_inv (zend_array_dup deref True a source) \<and> elems (zend_array_dup deref True a source) = elems source"
proof -
  let ?r = "(dup_header a source)\<lparr>arData := take (nNumUsed source) (arData source)
       @ replicate (nTableSize source - nNumUsed source) uninit_bucket\<rparr>"
  have e: "zend_array_dup deref True a source = ?r" using assms(2) by (simp add: zend_array_dup_def Let_def)
  have init: "\<not> flag_uninitialized source" using assms by (auto simp: ht_inv_def uninit_inv_def)
  then have di: "data_inv source" using assms(1) by (auto simp: ht_inv_def packed_inv_def mixed_inv_def split: if_splits)
  note d = data_invD[OF di]
  have nth: "arData ?r ! i = arData source ! i" if "i < nNumUsed source" for i
    using that d(2,3) by (simp add: nth_append)
  have len: "length (arData ?r) = nTableSize source" using d(2,3) by simp
  have used: "nNumUsed ?r = nNumUsed source" by (simp add: dup_header_def)
  have lv: "live_of ?r = live_of source" unfolding used unfolding live_idx_def
    using nth by (intro filter_cong) (auto simp: live_def)
  have lt: "i < nNumUsed source" if "i \<in> set (live_of source)" for i using that by (simp add: live_idx_set)
  have el: "elems ?r = elems source" unfolding elems_def lv using nth lt by (intro map_cong) auto
  have f: "nTableSize ?r = nTableSize source" "nNumOfElements ?r = nNumOfElements source" "nTableMask ?r = nTableMask source"
    "ht_hash ?r = ht_hash source" "flag_packed ?r = flag_packed source" "flag_uninitialized ?r = flag_uninitialized source"
    by (simp_all add: dup_header_def)
  have dr: "data_inv ?r" unfolding data_inv_def lv f len unfolding used using d nth by simp
  have "ht_inv ?r"
  proof (cases "flag_packed source")
    case True
    then have "packed_inv source" using assms(1) init by (simp add: ht_inv_def)
    then have "packed_inv ?r" unfolding packed_inv_def lv f using dr nth lt by (simp add: packed_inv_def)
    then show ?thesis unfolding ht_inv_def f using True init by simp
  next
    case False
    then have m: "mixed_inv source" using assms(1) init by (simp add: ht_inv_def)
    have "chains_ok ?r (live_of source)"
      by (rule chains_ok_cong[OF mixed_invD(3)[OF m] f(4,3)]) (use len d(3) nth lt in auto)
    moreover have "mask_inv ?r" using mixed_invD(2)[OF m] unfolding mask_inv_def f by simp
    moreover have "keys_inv ?r" unfolding keys_inv_def lv el using mixed_invD(4,5)[OF m] nth lt by simp
    ultimately have "mixed_inv ?r" unfolding mixed_inv_def lv using dr by simp
    then show ?thesis unfolding ht_inv_def f using False init by simp
  qed
  then show ?thesis unfolding e using el by blast
qed

lemma dup_empty:
  assumes "ht_inv source" "nNumOfElements source = 0"
  shows "ht_inv (zend_array_dup deref immutable a source) \<and> elems (zend_array_dup deref immutable a source) = elems source"
proof -
  have "elems source = []" using ht_inv_count[OF assms(1)] assms(2) by simp
  moreover have "size_ok HT_MIN_SIZE" by (auto simp: size_ok_def HT_MIN_SIZE_def intro!: exI[of _ "3::nat"])
  ultimately show ?thesis using assms(2)
    by (simp add: zend_array_dup_def Let_def ht_inv_def uninit_inv_def dup_header_def elems_def live_idx_def)
qed

text \<open>C11: the duplicate of an array is a consistent array with the same keys in the same order
  and the values, unshared references replaced by what they refer to; the duplicate of an
  immutable array has the very same elements.\<close>

theorem dup_preserves_elements:
  assumes "ht_inv source" "direct (elems source)" "list_all (\<lambda>(k, v). proper (deref v)) (elems source)"
  shows "ht_inv (zend_array_dup deref immutable a source)
    \<and> elems (zend_array_dup deref immutable a source) = (if immutable then elems source else map (\<lambda>(k, v). (k, deref v)) (elems source))"
proof -
  have m: "map (\<lambda>(k, v). (k, deref v)) (elems source) = map (apsnd deref) (elems source)" by auto
  have p: "list_all (\<lambda>p. proper (deref (snd p))) (elems source)" using assms(3) by (auto simp: list_all_iff)
  consider (empty) "nNumOfElements source = 0" | (imm) "nNumOfElements source \<noteq> 0" immutable
    | (packed) "nNumOfElements source \<noteq> 0" "\<not> immutable" "flag_packed source"
    | (hash) "nNumOfElements source \<noteq> 0" "\<not> immutable" "\<not> flag_packed source" by blast
  then show ?thesis
  proof cases
    case empty
    then have "elems source = []" using ht_inv_count[OF assms(1)] by simp
    then show ?thesis using dup_empty[OF assms(1) empty] by simp
  next
    case imm
    then show ?thesis using dup_immutable[OF assms(1)] by simp
  next
    case packed
    then show ?thesis using dup_packed[OF assms(1) _ assms(2) p] by (simp add: m)
  next
    case hash
    then have "\<not> flag_uninitialized source" using assms(1) by (auto simp: ht_inv_def uninit_inv_def)
    then show ?thesis using hash dup_hash[OF assms(1) _ _ assms(2) p] by (simp add: m)
  qed
qed

theorem dup_preserves_elements_witness:
  "ht_inv (zend_array_dup (\<lambda>v. ZVAL 7) False 3 demo_table) \<and> elems (zend_array_dup (\<lambda>v. ZVAL 7) False 3 demo_table) = [(Inr ''a'', ZVAL 7)]"
  using dup_preserves_elements[of demo_table "\<lambda>v. ZVAL 7" False 3] by (simp add: no_ind_def proper_def)

end
