(* ===== verification/ZendHashSort.thy ===== *)
theory ZendHashSort
  imports ZendHashOps ZendSort "HOL-Library.Product_Lexorder" "HOL-Library.List_Lexorder"
begin

text \<open>
  Sorting an array: \<open>zend_hash_sort_ex\<close> with the engine's \<open>zend_sort\<close>. The bucket swaps
  exchange parts of buckets; the interpretations of \<open>swaps_part\<close> reduce them to full
  swaps of what the comparison sees, and the order of \<open>zend_hash_compare\<close> on keys is shown
  to be a total preorder (\<open>compare_order\<close>).
\<close>

section \<open>Bucket swaps\<close>

interpretation bucket: swaps_part core "\<lambda>x y. c (core x) (core y)" zend_hash_bucket_swap c xswap for c
  by unfold_locales (simp_all add: core_def zend_hash_bucket_swap_def xswap_def)

interpretation renum: swaps_part b_val "\<lambda>x y. c (b_val x) (b_val y)" zend_hash_bucket_renum_swap c xswap for c
  by unfold_locales (simp_all add: zend_hash_bucket_renum_swap_def xswap_def)

text \<open>
  A packed bucket has no string key, and \<open>zend_hash_bucket_packed_swap\<close> exchanges the rest.
  \<open>unkeyed\<close> makes such a bucket from the exchanged part and the link that stays.
\<close>

definition unkeyed :: "('v zval \<times> zend_ulong) \<times> nat \<Rightarrow> 'v Bucket" where
  "unkeyed t = \<lparr>b_val = fst (fst t), b_next = snd t, b_h = snd (fst t), b_key = None\<rparr>"

definition swap_fst :: "'a \<times> 'b \<Rightarrow> 'a \<times> 'b \<Rightarrow> ('a \<times> 'b) \<times> ('a \<times> 'b)" where
  "swap_fst x y = ((fst y, snd x), (fst x, snd y))"

interpretation unkeyed: swaps_part unkeyed "\<lambda>x y. c (unkeyed x) (unkeyed y)" swap_fst c zend_hash_bucket_packed_swap for c
  by unfold_locales (simp_all add: unkeyed_def swap_fst_def zend_hash_bucket_packed_swap_def)

interpretation unkeyed_core: swaps_part "\<lambda>t. core (unkeyed t)" "\<lambda>x y. c (core (unkeyed x)) (core (unkeyed y))"
    swap_fst c xswap for c
  by unfold_locales (simp_all add: core_def unkeyed_def swap_fst_def xswap_def)

lemma packed_swap_sort:
  assumes "\<And>b. b \<in> set xs \<Longrightarrow> b_key b = None"
  shows "map core (zend_sort (\<lambda>x y. c (core x) (core y)) zend_hash_bucket_packed_swap 0 (length xs) xs)
    = zend_sort c xswap 0 (length xs) (map core xs)"
proof -
  define ts where "ts = map (\<lambda>b. ((b_val b, b_h b), b_next b)) xs"
  have xs: "xs = map unkeyed ts" using assms by (auto simp: ts_def unkeyed_def intro!: nth_equalityI)
  have u: "zend_sort (\<lambda>x y. c (core x) (core y)) zend_hash_bucket_packed_swap 0 (length ts) (map unkeyed ts)
      = map unkeyed (zend_sort (\<lambda>x y. c (core (unkeyed x)) (core (unkeyed y))) swap_fst 0 (length ts) ts)"
    using unkeyed.zend_sort_part[of 0 "length ts" ts "\<lambda>x y. c (core x) (core y)"] by simp
  have "map core (zend_sort (\<lambda>x y. c (core x) (core y)) zend_hash_bucket_packed_swap 0 (length ts) (map unkeyed ts))
      = map (\<lambda>t. core (unkeyed t)) (zend_sort (\<lambda>x y. c (core (unkeyed x)) (core (unkeyed y))) swap_fst 0 (length ts) ts)"
    unfolding u by (simp add: comp_def)
  also have "\<dots> = zend_sort c xswap 0 (length ts) (map core (map unkeyed ts))"
    using unkeyed_core.zend_sort_part[of 0 "length ts" ts c] by (simp add: comp_def)
  finally show ?thesis by (simp add: xs)
qed

section \<open>Closing the holes\<close>

lemma close_holes_ok:
  assumes "close_holes [j..<n] i ar = (ar', i')" "i \<le> j" "n \<le> length ar"
  shows "length ar' = length ar \<and> i' = i + length (filter (live ar) [j..<n])
    \<and> take i' ar' = take i ar @ map ((!) ar) (filter (live ar) [j..<n])"
  using assms
proof (induction "n - j" arbitrary: i j ar)
  case 0
  then show ?case by simp
next
  case (Suc d)
  then have jn: "j < n" "[j..<n] = j # [Suc j..<n]" by (auto simp: upt_conv_Cons)
  have d: "d = n - Suc j" using Suc.hyps(2) by simp
  show ?case
  proof (cases "live ar j")
    case False
    then have "close_holes [Suc j..<n] i ar = (ar', i')" using Suc.prems(1) jn by (simp add: live_def)
    from Suc.hyps(1)[OF d this] have "length ar' = length ar \<and> i' = i + length (filter (live ar) [Suc j..<n])
      \<and> take i' ar' = take i ar @ map ((!) ar) (filter (live ar) [Suc j..<n])" using Suc.prems(2,3) by auto
    then show ?thesis using jn False by auto
  next
    case True
    let ?ar = "ar[i := ar ! j]"
    have "(if i \<noteq> j then ar[i := ar ! j] else ar) = ?ar" by simp
    then have e: "close_holes [Suc j..<n] (Suc i) ?ar = (ar', i')" using Suc.prems(1) jn True by (simp add: live_def)
    have same: "?ar ! k = ar ! k" if "Suc j \<le> k" for k using that Suc.prems(2) by simp
    then have f: "filter (live ?ar) [Suc j..<n] = filter (live ar) [Suc j..<n]"
      by (intro filter_cong) (auto simp: live_def)
    have m: "map ((!) ?ar) (filter (live ar) [Suc j..<n]) = map ((!) ar) (filter (live ar) [Suc j..<n])"
      using same by auto
    have t: "take (Suc i) ?ar = take i ar @ [ar ! j]"
      using Suc.prems jn by (simp add: take_Suc_conv_app_nth)
    have "length ar' = length ?ar \<and> i' = Suc i + length (filter (live ?ar) [Suc j..<n])
      \<and> take i' ar' = take (Suc i) ?ar @ map ((!) ?ar) (filter (live ?ar) [Suc j..<n])"
      using Suc.hyps(1)[OF d e] Suc.prems(2,3) by auto
    then show ?thesis unfolding f m t using jn True by auto
  qed
qed

text \<open>The buckets the sort works on: the live ones, in order.\<close>

definition live_buckets :: "'v HashTable \<Rightarrow> 'v Bucket list" where
  "live_buckets ht = map ((!) (arData ht)) (live_of ht)"

lemma sort_front:
  assumes "data_inv ht"
  obtains ar where
    "(if HT_IS_WITHOUT_HOLES ht then (arData ht, nNumUsed ht) else close_holes [0..<nNumUsed ht] 0 (arData ht))
       = (ar, nNumOfElements ht)"
    "length ar = length (arData ht)" "take (nNumOfElements ht) ar = live_buckets ht" "nNumOfElements ht \<le> length ar"
proof -
  note d = data_invD[OF assms]
  have le: "nNumUsed ht \<le> length (arData ht)" using d by simp
  show thesis
  proof (cases "HT_IS_WITHOUT_HOLES ht")
    case True
    then have n: "length (filter (live (arData ht)) [0..<nNumUsed ht]) = length [0..<nNumUsed ht]"
      using d(4) by (simp add: HT_IS_WITHOUT_HOLES_def live_idx_def)
    then have "live_of ht = [0..<nNumUsed ht]"
      unfolding live_idx_def by (metis filter_id_conv length_filter_less less_irrefl)
    then have "live_buckets ht = take (nNumUsed ht) (arData ht)"
      using le by (auto simp: live_buckets_def intro!: nth_equalityI)
    then show thesis using that[of "arData ht"] True le by (simp add: HT_IS_WITHOUT_HOLES_def)
  next
    case False
    obtain ar i where c: "close_holes [0..<nNumUsed ht] 0 (arData ht) = (ar, i)" by fastforce
    from close_holes_ok[OF c _ le] have "length ar = length (arData ht)" "i = nNumOfElements ht"
      "take i ar = live_buckets ht" by (auto simp: d(4) live_idx_def live_buckets_def)
    then show thesis using that[of ar] c False d live_idx_length[of "arData ht" "nNumUsed ht"] le by simp
  qed
qed

section \<open>The sorted table\<close>

text \<open>What the parts the sort moves determine.\<close>

definition core_entry :: "'v zval \<times> zend_ulong \<times> zend_string option \<Rightarrow> hkey \<times> 'v zval" where
  "core_entry t = (case snd (snd t) of None \<Rightarrow> Inl (fst (snd t)) | Some k \<Rightarrow> Inr (ZSTR_VAL k), fst t)"

definition core_hash_ok :: "'v zval \<times> zend_ulong \<times> zend_string option \<Rightarrow> bool" where
  "core_hash_ok t = (case snd (snd t) of None \<Rightarrow> True | Some k \<Rightarrow> fst (snd t) = zend_string_hash_val k)"

lemma core_views: "entry b = core_entry (core b)" "key_hash_ok b = core_hash_ok (core b)" "b_val b = fst (core b)"
  by (simp_all add: entry_def bkey_def core_entry_def core_def core_hash_ok_def key_hash_ok_def split: option.split)

lemma entry_core: "entry = core_entry \<circ> core"
  by (rule ext) (simp add: core_views(1))

lemma elems_live_buckets: "elems ht = map entry (live_buckets ht)"
  by (simp add: elems_def live_buckets_def)

text \<open>Any rearrangement of the live buckets, put in front, is again good data for a table.\<close>

lemma front_table:
  assumes "data_inv ht" "(\<forall>i \<in> set (live_of ht). key_hash_ok (arData ht ! i)) \<and> distinct (map fst (elems ht))"
    "mset (map core S) = mset (map core (live_buckets ht))" "length S + length R = nTableSize ht"
    and ht1: "arData ht1 = S @ R" "nNumUsed ht1 = length S" "nNumOfElements ht1 = nNumOfElements ht"
      "nTableSize ht1 = nTableSize ht"
  shows "data_inv ht1" "keys_inv ht1" "live_buckets ht1 = S" "mset (elems ht1) = mset (elems ht)"
proof -
  note d = data_invD[OF assms(1)]
  have len: "length S = nNumOfElements ht"
    using arg_cong[OF assms(3), of size] d(4) by (simp add: live_buckets_def)
  have good: "b_val b \<noteq> IS_UNDEF" "b_val b \<noteq> UNINIT" "key_hash_ok b" if b: "b \<in> set S" for b
  proof -
    obtain i where i: "i \<in> set (live_of ht)" "core b = core (arData ht ! i)"
      using mset_eq_setD[OF assms(3)] b by (force simp: live_buckets_def)
    then show "b_val b \<noteq> IS_UNDEF" "b_val b \<noteq> UNINIT" "key_hash_ok b"
      using d(6) assms(2) core_views(2,3)[of b] core_views(2,3)[of "arData ht ! i"] by (auto simp: live_idx_set)
  qed
  have nth: "arData ht1 ! i = S ! i" if "i < length S" for i using that ht1(1) by (simp add: nth_append)
  have l: "live_of ht1 = [0..<length S]"
    unfolding live_idx_def using good(1) nth ht1(2) by (auto simp: filter_id_conv live_def)
  show lb: "live_buckets ht1 = S" unfolding live_buckets_def l using nth by (auto intro!: nth_equalityI)
  have u: "\<forall>i < nNumUsed ht1. b_val (arData ht1 ! i) \<noteq> UNINIT" using good(2) nth ht1(2) by auto
  then show "data_inv ht1" using d len assms(4) ht1 l by (simp add: data_inv_def)
  have "mset (map core_entry (map core S)) = mset (map core_entry (map core (live_buckets ht)))"
    using assms(3) by (metis mset_map)
  then show m: "mset (elems ht1) = mset (elems ht)"
    unfolding elems_live_buckets lb entry_core by simp
  have "mset (map fst (elems ht1)) = mset (map fst (elems ht))" using arg_cong[OF m, of "image_mset fst"] by simp
  then have "distinct (map fst (elems ht1))" using assms(2) mset_eq_imp_distinct_iff by blast
  then show "keys_inv ht1" using good(3) nth by (auto simp: keys_inv_def l)
qed

lemma sort_full:
  assumes "compare_order c"
  shows "mset (zend_sort c xswap 0 (length ts) ts) = mset ts"
    and "sorted_wrt (\<lambda>x y. \<not> c x y > 0) (zend_sort c xswap 0 (length ts) ts)"
    and "length (zend_sort c xswap 0 (length ts) ts) = length ts"
proof -
  let ?ys = "zend_sort c xswap 0 (length ts) ts"
  have r: "rearr 0 (length ts) ts ?ys" "compare_order.seg_sorted c 0 (length ts) ?ys"
    using compare_order.zend_sort_ok[OF assms, of 0 "length ts" ts] by simp_all
  show m: "mset ?ys = mset ts" using r(1) by (simp add: rearr_def)
  show "length ?ys = length ts" using rearr_length[OF r(1)] .
  then show "sorted_wrt (\<lambda>x y. \<not> c x y > 0) ?ys" using r(2)
    by (simp add: sorted_wrt_iff_nth_less compare_order.seg_sorted_def[OF assms] compare_order.le_def[OF assms])
qed

lemma bucket_swap_sort:
  "map core (zend_sort (\<lambda>x y. c (core x) (core y)) zend_hash_bucket_swap 0 (length xs) xs)
    = zend_sort c xswap 0 (length xs) (map core xs)"
  using bucket.zend_sort_part[of 0 "length xs" xs c] by simp

lemma live_buckets_packed: "packed_inv ht \<Longrightarrow> b \<in> set (live_buckets ht) \<Longrightarrow> b_key b = None"
  by (auto simp: live_buckets_def packed_inv_def)

lemma sort_keys:
  assumes "ht_inv ht" "\<not> flag_uninitialized ht"
  shows "data_inv ht" "(\<forall>i \<in> set (live_of ht). key_hash_ok (arData ht ! i)) \<and> distinct (map fst (elems ht))"
proof -
  show "data_inv ht" using assms by (auto simp: ht_inv_def packed_inv_def mixed_inv_def split: if_splits)
  have "key_hash_ok (arData ht ! i)" if "i \<in> set (live_of ht)" for i
    using assms that by (auto simp: ht_inv_def packed_inv_def mixed_inv_def keys_inv_def key_hash_ok_def split: if_splits)
  then show "(\<forall>i \<in> set (live_of ht). key_hash_ok (arData ht ! i)) \<and> distinct (map fst (elems ht))"
    using ht_inv_distinct[OF assms(1)] by blast
qed

text \<open>The table after the sort, before its hash area is rebuilt.\<close>

definition sorted_data :: "'v HashTable \<Rightarrow> 'v Bucket list \<Rightarrow> 'v HashTable" where
  "sorted_data ht ar = ht\<lparr>arData := ar, nNumUsed := nNumOfElements ht, nInternalPointer := 0\<rparr>"

text \<open>Both ways of rebuilding it keep the elements in their new order.\<close>

lemma rebuild_sorted:
  assumes "ht_inv ht" "\<not> flag_uninitialized ht" "data_inv (sorted_data ht ar)" "keys_inv (sorted_data ht ar)"
  defines "ht1 \<equiv> sorted_data ht ar"
  defines "ht' \<equiv> (if flag_packed ht then zend_hash_packed_to_hash ht1 else zend_hash_rehash ht1)"
  shows "ht_inv ht'" "elems ht' = elems ht1" "dtor_log ht' = dtor_log ht" "\<not> flag_packed ht'"
proof -
  have "mixed_inv ht' \<and> elems ht' = elems ht1 \<and> dtor_log ht' = dtor_log ht \<and> \<not> flag_packed ht' \<and> \<not> flag_uninitialized ht'"
  proof (cases "flag_packed ht")
    case True
    have d: "data_inv (ht1\<lparr>flag_packed := False\<rparr>)" "keys_inv (ht1\<lparr>flag_packed := False\<rparr>)"
      "elems (ht1\<lparr>flag_packed := False\<rparr>) = elems ht1"
      using assms(3,4) by (simp_all add: ht1_def data_inv_def keys_inv_def elems_def)
    have s: "size_ok (nTableSize ht1)" using data_invD(1)[OF assms(3)] by (simp add: ht1_def)
    have e: "ht' = zend_hash_rehash (move_data (ht1\<lparr>flag_packed := False, nTableSize := nTableSize ht1,
        nTableMask := HT_SIZE_TO_MASK (nTableSize ht1)\<rparr>))"
      using True by (simp add: ht'_def zend_hash_packed_to_hash_def)
    show ?thesis using move_rehash[OF d(1,2) _ s] assms(2) d(3) unfolding e by (simp add: ht1_def sorted_data_def)
  next
    case False
    then have "mask_inv ht1" using assms(1,2) by (simp add: ht_inv_def mixed_inv_def mask_inv_def ht1_def sorted_data_def)
    then show ?thesis using rehash_mixed[of ht1] assms(2-4) False
      by (auto simp: ht'_def ht1_def rehash_frame_def) (simp_all add: sorted_data_def)
  qed
  then show "ht_inv ht'" "elems ht' = elems ht1" "dtor_log ht' = dtor_log ht" "\<not> flag_packed ht'"
    by (simp_all add: ht_inv_def)
qed

lemma hash_sort_table:
  assumes "ht_inv ht" "compare_order c"
  defines "cmp \<equiv> \<lambda>x y. c (core x) (core y)"
  defines "ht' \<equiv> zend_hash_sort_ex ht (\<lambda>swp xs. zend_sort cmp swp 0 (length xs) xs) False"
  shows "ht_inv ht'" "mset (elems ht') = mset (elems ht)" "dtor_log ht' = dtor_log ht"
    "\<exists>ts. elems ht' = map core_entry ts \<and> sorted_wrt (\<lambda>x y. \<not> c x y > 0) ts"
proof -
  have "ht_inv ht' \<and> mset (elems ht') = mset (elems ht) \<and> dtor_log ht' = dtor_log ht
    \<and> (\<exists>ts. elems ht' = map core_entry ts \<and> sorted_wrt (\<lambda>x y. \<not> c x y > 0) ts)"
  proof (cases "nNumOfElements ht > 1")
    case False
    then have e: "ht' = ht" by (simp add: ht'_def zend_hash_sort_ex_def)
    have "length (elems ht) \<le> 1" using False assms(1)
      by (auto simp: ht_inv_def packed_inv_def mixed_inv_def uninit_inv_def data_inv_def elems_def live_idx_def split: if_splits)
    then have "sorted_wrt (\<lambda>x y. \<not> c x y > 0) (map core (live_buckets ht))"
      by (auto simp: sorted_wrt_iff_nth_less elems_live_buckets)
    moreover have "elems ht = map core_entry (map core (live_buckets ht))"
      by (simp add: elems_live_buckets core_views(1))
    ultimately show ?thesis using e assms(1) by blast
  next
    case True
    then have u: "\<not> flag_uninitialized ht" using assms(1) by (auto simp: ht_inv_def uninit_inv_def)
    note k = sort_keys[OF assms(1) u]
    obtain ar where ar: "(if HT_IS_WITHOUT_HOLES ht then (arData ht, nNumUsed ht)
        else close_holes [0..<nNumUsed ht] 0 (arData ht)) = (ar, nNumOfElements ht)"
      "length ar = length (arData ht)" "take (nNumOfElements ht) ar = live_buckets ht" "nNumOfElements ht \<le> length ar"
      by (rule sort_front[OF k(1)])
    let ?n = "nNumOfElements ht" and ?xs = "live_buckets ht"
    have lx: "length ?xs = ?n" "min (length ar) ?n = ?n" using data_invD(4)[OF k(1)] ar(4) by (simp_all add: live_buckets_def)
    define S where "S = zend_sort cmp (if flag_packed ht then zend_hash_bucket_packed_swap else zend_hash_bucket_swap) 0 (length ?xs) ?xs"
    have cS: "map core S = zend_sort c xswap 0 (length (map core ?xs)) (map core ?xs)"
      using packed_swap_sort[of ?xs c] bucket_swap_sort[of c ?xs] live_buckets_packed[of ht] assms(1) u
      by (auto simp: S_def cmp_def ht_inv_def)
    note so = sort_full[OF assms(2), of "map core ?xs", folded cS]
    have lS: "length S = ?n" using so(3) lx by simp
    let ?ar = "S @ drop ?n ar"
    have e: "ht' = (if flag_packed ht then zend_hash_packed_to_hash (sorted_data ht ?ar) else zend_hash_rehash (sorted_data ht ?ar))"
      using True ar(1,3) lx by (simp add: ht'_def zend_hash_sort_ex_def Let_def sorted_data_def S_def)
    note f = front_table[OF k so(1), of "drop ?n ar" "sorted_data ht ?ar"]
    have f1: "data_inv (sorted_data ht ?ar)" "keys_inv (sorted_data ht ?ar)" "live_buckets (sorted_data ht ?ar) = S"
      "mset (elems (sorted_data ht ?ar)) = mset (elems ht)"
      using f lS ar(2,4) data_invD(3)[OF k(1)] by (simp_all add: sorted_data_def)
    note r = rebuild_sorted[OF assms(1) u f1(1,2), folded e]
    have "elems ht' = map core_entry (map core S)"
      using r(2) f1(3) by (simp add: elems_live_buckets core_views(1))
    moreover have "mset (elems ht') = mset (elems ht)" using r(2) f1(4) by simp
    ultimately show ?thesis using r(1,3) so(2) by blast
  qed
  then show "ht_inv ht'" "mset (elems ht') = mset (elems ht)" "dtor_log ht' = dtor_log ht"
    "\<exists>ts. elems ht' = map core_entry ts \<and> sorted_wrt (\<lambda>x y. \<not> c x y > 0) ts" by blast+
qed

section \<open>Renumbering\<close>

lemma numbered_front:
  assumes "size_ok (nTableSize ht1)" "arData ht1 = S @ R" "length S + length R = nTableSize ht1"
    "nNumUsed ht1 = length S" "nNumOfElements ht1 = length S" "nTableMask ht1 = HT_MIN_MASK"
    "ht_hash ht1 = [HT_INVALID_IDX, HT_INVALID_IDX]"
    and good: "\<And>j. j < length S \<Longrightarrow> b_h (S ! j) = of_nat j \<and> b_key (S ! j) = None \<and> proper (b_val (S ! j))"
  shows "packed_inv ht1" "elems ht1 = map (\<lambda>j. (Inl (of_nat j), b_val (S ! j))) [0..<length S]"
proof -
  have nth: "arData ht1 ! i = S ! i" if "i < length S" for i using that assms(2) by (simp add: nth_append)
  have l: "live_of ht1 = [0..<length S]"
    unfolding live_idx_def using good nth assms(4) by (auto simp: filter_id_conv live_def proper_def)
  show "packed_inv ht1" using assms nth l by (auto simp: packed_inv_def data_inv_def proper_def)
  show "elems ht1 = map (\<lambda>j. (Inl (of_nat j), b_val (S ! j))) [0..<length S]"
    using nth good by (auto simp: elems_def l entry_def bkey_def)
qed

lemma hash_renumber_table:
  assumes "ht_inv ht" "compare_order c" "nNumOfElements ht > 0"
  defines "cmp \<equiv> \<lambda>x y. c (b_val x) (b_val y)"
  defines "ht' \<equiv> zend_hash_sort_ex ht (\<lambda>swp xs. zend_sort cmp swp 0 (length xs) xs) True"
  shows "\<exists>vs. ht_inv ht' \<and> flag_packed ht' \<and> elems ht' = map (\<lambda>j. (Inl (of_nat j), vs ! j)) [0..<length vs]
    \<and> sorted_wrt (\<lambda>x y. \<not> c x y > 0) vs \<and> mset vs = mset (map snd (elems ht))
    \<and> nNextFreeElement ht' = of_nat (length vs) \<and> dtor_log ht' = dtor_log ht"
proof -
  have u: "\<not> flag_uninitialized ht" using assms(1,3) by (auto simp: ht_inv_def uninit_inv_def)
  note k = sort_keys[OF assms(1) u]
  note d = data_invD[OF k(1)]
  obtain ar where ar: "(if HT_IS_WITHOUT_HOLES ht then (arData ht, nNumUsed ht)
      else close_holes [0..<nNumUsed ht] 0 (arData ht)) = (ar, nNumOfElements ht)"
    "length ar = length (arData ht)" "take (nNumOfElements ht) ar = live_buckets ht" "nNumOfElements ht \<le> length ar"
    by (rule sort_front[OF k(1)])
  let ?n = "nNumOfElements ht" and ?xs = "live_buckets ht"
  have lx: "length ?xs = ?n" "min (length ar) ?n = ?n" using d(4) ar(4) by (simp_all add: live_buckets_def)
  define S where "S = zend_sort cmp zend_hash_bucket_renum_swap 0 (length ?xs) ?xs"
  have vS: "map b_val S = zend_sort c xswap 0 (length (map b_val ?xs)) (map b_val ?xs)" and lS: "length S = ?n"
    using renum.zend_sort_part[of 0 "length ?xs" ?xs c] lx by (simp_all add: S_def cmp_def)
  note so = sort_full[OF assms(2), of "map b_val ?xs", folded vS]
  have pr: "proper (b_val (S ! j))" if "j < ?n" for j
  proof -
    have "b_val (S ! j) \<in> set (map b_val ?xs)" using mset_eq_setD[OF so(1)] that lS by (metis list.set_map nth_mem image_eqI)
    then obtain i where "i < nNumUsed ht" "b_val (S ! j) = b_val (arData ht ! i)" "b_val (arData ht ! i) \<noteq> IS_UNDEF"
      by (auto simp: live_buckets_def live_idx_set)
    then show ?thesis using d(6)[of i] by (simp add: proper_def)
  qed
  define S1 where "S1 = map (\<lambda>j. (S ! j)\<lparr>b_h := of_nat j, b_key := None\<rparr>) [0..<?n]"
  have rn: "renumber_buckets ?n (S @ drop ?n ar) = S1 @ drop ?n ar"
    using lS by (auto simp: renumber_buckets_def S1_def nth_append)
  let ?h = "ht\<lparr>arData := S1 @ drop ?n ar, nNumUsed := ?n, nInternalPointer := 0, nNextFreeElement := of_nat ?n\<rparr>"
  have e: "ht' = (if flag_packed ht then ?h else zend_hash_to_packed ?h)"
    using assms(3) ar(1,3) lx rn by (simp add: ht'_def zend_hash_sort_ex_def Let_def S_def)
  obtain R where R: "arData ht' = S1 @ R" "length S1 + length R = nTableSize ht'"
    using e ar(2,4) d(3) lx by (cases "flag_packed ht") (auto simp: zend_hash_to_packed_def HT_HASH_RESET_PACKED_def S1_def)
  have l1: "length S1 = ?n" and v1: "b_val (S1 ! j) = map b_val S ! j" if "j < ?n" for j using that lS by (simp_all add: S1_def)
  have fld: "flag_packed ht'" "\<not> flag_uninitialized ht'" "nNumUsed ht' = ?n" "nNumOfElements ht' = ?n" "nTableMask ht' = HT_MIN_MASK"
    "ht_hash ht' = [HT_INVALID_IDX, HT_INVALID_IDX]" "nTableSize ht' = nTableSize ht" "nNextFreeElement ht' = of_nat ?n"
    "dtor_log ht' = dtor_log ht"
    using e u assms(1) by (auto simp: zend_hash_to_packed_def HT_HASH_RESET_PACKED_def ht_inv_def packed_inv_def)
  have p: "packed_inv ht'" "elems ht' = map (\<lambda>j. (Inl (of_nat j), b_val (S1 ! j))) [0..<length S1]"
    using numbered_front[OF _ R] d(1) fld pr lS by (simp_all add: S1_def)
  have "elems ht' = map (\<lambda>j. (Inl (of_nat j), map b_val S ! j)) [0..<length (map b_val S)]"
    unfolding p(2) using lS by (simp add: S1_def)
  moreover have "mset (map b_val S) = mset (map snd (elems ht))"
    using so(1) by (simp add: elems_live_buckets entry_def comp_def)
  moreover have "ht_inv ht'" using p(1) fld by (simp add: ht_inv_def)
  ultimately show ?thesis using so(2) fld lS by (intro exI[of _ "map b_val S"]) simp
qed

section \<open>The order of keys\<close>

text \<open>Integer keys come before string keys; strings are ordered by length, then by bytes.\<close>

definition key_rank :: "'v Bucket \<Rightarrow> nat \<times> nat \<times> nat list" where
  "key_rank b = (case b_key b of None \<Rightarrow> (0, unat (b_h b), [])
     | Some k \<Rightarrow> (1, length (ZSTR_VAL k), map of_char (ZSTR_VAL k)))"

lemma of_char_less: "(of_char b :: int) < of_char a \<longleftrightarrow> (of_char b :: nat) < of_char a"
  using of_nat_less_iff[where 'a=int, of "of_char b" "of_char a"] unfolding of_nat_of_char .

lemma memcmp_pos:
  "length a = length b \<Longrightarrow> memcmp a b > 0 \<longleftrightarrow> (map of_char b :: nat list) < map of_char a"
  by (induction a b rule: memcmp.induct) (auto simp: of_char_less)

lemma memcmp_zero: "length a = length b \<Longrightarrow> memcmp a b = 0 \<longleftrightarrow> a = b"
  by (induction a b rule: memcmp.induct) auto

lemma compare_keys_pos: "compare_keys p q > 0 \<longleftrightarrow> key_rank q < key_rank p"
  by (auto simp: compare_keys_def key_rank_def memcmp_pos word_less_nat_alt split: option.split)

lemma compare_keys_zero: "compare_keys p q = 0 \<longleftrightarrow> bkey p = bkey q"
  by (auto simp: compare_keys_def bkey_def memcmp_zero split: option.split)

lemma memcmp_neg: "length a = length b \<Longrightarrow> memcmp b a = - memcmp a b"
  by (induction a b rule: memcmp.induct) auto

lemma compare_keys_neg: "compare_keys q p = - compare_keys p q"
  using memcmp_neg[of "ZSTR_VAL (the (b_key p))" "ZSTR_VAL (the (b_key q))"]
  by (auto simp: compare_keys_def split: option.split)

interpretation keyorder: compare_order compare_keys
  by unfold_locales (auto simp: compare_keys_pos)

section \<open>Properties\<close>

text \<open>A packed table \<open>[0 => 6, 2 => 9, 3 => 4]\<close> with a hole, for the witnesses.\<close>

definition demo_list :: "int HashTable" where
  "demo_list = zend_empty_array\<lparr>flag_packed := True, flag_uninitialized := False, flag_static_keys := True,
     arData := [\<lparr>b_val = ZVAL 6, b_next = 0, b_h = 0, b_key = None\<rparr>, \<lparr>b_val = IS_UNDEF, b_next = 0, b_h = 1, b_key = None\<rparr>,
       \<lparr>b_val = ZVAL 9, b_next = 0, b_h = 2, b_key = None\<rparr>, \<lparr>b_val = ZVAL 4, b_next = 0, b_h = 3, b_key = None\<rparr>]
       @ replicate 4 uninit_bucket,
     nNumUsed := 4, nNumOfElements := 3, nNextFreeElement := 4\<rparr>"

definition val_cmp :: "int zval \<Rightarrow> int zval \<Rightarrow> int" where
  "val_cmp x y = (case (x, y) of (ZVAL a, ZVAL b) \<Rightarrow> a - b | (ZVAL _, _) \<Rightarrow> 1 | (_, ZVAL _) \<Rightarrow> - 1 | _ \<Rightarrow> 0)"

lemma upt_four: "[0..<4] = [0, 1, 2, 3 :: nat]"
  by (simp add: upt_rec)

lemma demo_live: "live_of demo_list = [0, 2, 3]"
  by (simp add: live_idx_def demo_list_def upt_four live_def numeral_2_eq_2 numeral_3_eq_3)

lemma demo_list [simp]: "ht_inv demo_list" "elems demo_list = [(Inl 0, ZVAL 6), (Inl 2, ZVAL 9), (Inl 3, ZVAL 4)]"
  "nNumOfElements demo_list = 3"
proof -
  show "elems demo_list = [(Inl 0, ZVAL 6), (Inl 2, ZVAL 9), (Inl 3, ZVAL 4)]"
    unfolding elems_def demo_live by (simp add: demo_list_def entry_def bkey_def numeral_2_eq_2 numeral_3_eq_3)
  show n: "nNumOfElements demo_list = 3" by (simp add: demo_list_def)
  have "size_ok 8" by (auto simp: size_ok_def intro!: exI[of _ "3::nat"])
  moreover have "\<forall>i < 4. b_val (arData demo_list ! i) \<noteq> UNINIT"
    by (simp add: demo_list_def numeral_eq_Suc All_less_Suc)
  ultimately have "data_inv demo_list" unfolding data_inv_def demo_live
    by (simp add: demo_list_def zend_empty_array_def HT_MIN_SIZE_def)
  moreover have "\<forall>i \<in> set (live_of demo_list). b_h (arData demo_list ! i) = of_nat i \<and> b_key (arData demo_list ! i) = None"
    unfolding demo_live by (simp add: demo_list_def numeral_2_eq_2 numeral_3_eq_3)
  ultimately show "ht_inv demo_list"
    by (simp add: ht_inv_def packed_inv_def) (simp add: demo_list_def zend_empty_array_def)
qed

text \<open>C8: \<open>zend_hash_sort_ex\<close> with the engine's sort and a comparison that is a total preorder on
  value and key keeps the table consistent, keeps exactly the same pairs of key and value, and
  leaves them in ascending order; holes are closed and nothing is destroyed.\<close>

theorem hash_sort_sorts:
  assumes "ht_inv ht" "\<And>x y. c x y > 0 \<Longrightarrow> \<not> c y x > 0"
    "\<And>x y z. \<not> c x y > 0 \<Longrightarrow> \<not> c y z > 0 \<Longrightarrow> \<not> c x z > 0"
  defines "ht' \<equiv> zend_hash_sort_ex ht (\<lambda>swp xs. zend_sort (\<lambda>x y. c (core x) (core y)) swp 0 (length xs) xs) False"
  shows "ht_inv ht' \<and> mset (elems ht') = mset (elems ht) \<and> dtor_log ht' = dtor_log ht
    \<and> (\<exists>ts. elems ht' = map core_entry ts \<and> sorted_wrt (\<lambda>x y. \<not> c x y > 0) ts)"
proof -
  have "compare_order c" using assms(2,3) by unfold_locales
  from hash_sort_table[OF assms(1) this] show ?thesis by (simp add: ht'_def)
qed

lemma val_cmp_order: "val_cmp x y > 0 \<Longrightarrow> \<not> val_cmp y x > 0" "\<not> val_cmp x y > 0 \<Longrightarrow> \<not> val_cmp y z > 0 \<Longrightarrow> \<not> val_cmp x z > 0"
  by (auto simp: val_cmp_def split: zval.splits)

theorem hash_sort_sorts_witness:
  "mset (elems (zend_hash_sort_ex demo_list
       (\<lambda>swp xs. zend_sort (\<lambda>x y. val_cmp (fst (core x)) (fst (core y))) swp 0 (length xs) xs) False))
     = mset [(Inl 0, ZVAL 6), (Inl 2, ZVAL 9), (Inl 3, ZVAL 4)]"
  using hash_sort_sorts[of demo_list "\<lambda>x y. val_cmp (fst x) (fst y)", OF demo_list(1) val_cmp_order,
    THEN conjunct2, THEN conjunct1] unfolding demo_list(2) .

text \<open>With \<open>renumber\<close> and a comparison of values, \<open>zend_hash_sort_ex\<close> turns every non-empty
  array into a packed list: the values in ascending order under the keys 0, 1, 2, ... with the
  next free key after them.\<close>

theorem hash_sort_renumbers:
  assumes "ht_inv ht" "nNumOfElements ht > 0" "\<And>x y. c x y > 0 \<Longrightarrow> \<not> c y x > 0"
    "\<And>x y z. \<not> c x y > 0 \<Longrightarrow> \<not> c y z > 0 \<Longrightarrow> \<not> c x z > 0"
  defines "ht' \<equiv> zend_hash_sort_ex ht (\<lambda>swp xs. zend_sort (\<lambda>x y. c (b_val x) (b_val y)) swp 0 (length xs) xs) True"
  shows "\<exists>vs. ht_inv ht' \<and> flag_packed ht' \<and> elems ht' = map (\<lambda>j. (Inl (of_nat j), vs ! j)) [0..<length vs]
    \<and> sorted_wrt (\<lambda>x y. \<not> c x y > 0) vs \<and> mset vs = mset (map snd (elems ht))
    \<and> nNextFreeElement ht' = of_nat (length vs) \<and> dtor_log ht' = dtor_log ht"
proof -
  have "compare_order c" using assms(3,4) by unfold_locales
  from hash_renumber_table[OF assms(1) this assms(2)] show ?thesis by (simp add: ht'_def)
qed

theorem hash_sort_renumbers_witness:
  "\<exists>vs. ht_inv (zend_hash_sort_ex demo_list (\<lambda>swp xs. zend_sort (\<lambda>x y. val_cmp (b_val x) (b_val y)) swp 0 (length xs) xs) True)
    \<and> sorted_wrt (\<lambda>x y. \<not> val_cmp x y > 0) vs \<and> mset vs = mset [ZVAL 6, ZVAL 9, ZVAL 4]"
proof -
  have "0 < nNumOfElements demo_list" by simp
  note h = hash_sort_renumbers[of demo_list val_cmp, OF demo_list(1) this val_cmp_order]
  show ?thesis using h unfolding demo_list(2) list.map snd_conv
    by - (rule exE, assumption, (erule conjE)+, rule exI, rule conjI, assumption, rule conjI)
qed

text \<open>The key order of the ordered array comparison is a total order on keys: equal exactly
  for equal keys (integer keys by value, string keys by content), antisymmetric and transitive.\<close>

theorem key_order_total:
  "(compare_keys p q = 0 \<longleftrightarrow> bkey p = bkey q) \<and> compare_keys q p = - compare_keys p q
   \<and> \<not> (\<not> compare_keys p q > 0 \<and> \<not> compare_keys q r > 0 \<and> compare_keys p r > 0)"
  using compare_keys_zero compare_keys_neg keyorder.le_trans[of p q r] by blast

end
