(* ===== verification/ZendHashCmp.thy ===== *)
theory ZendHashCmp
  imports ZendHashDup ZendHashSort
begin

text \<open>
  Comparison and extrema: two arrays compare equal exactly when they hold the same elements,
  in the same order if the order counts, and the minimum or maximum found is the first
  extremal element.
\<close>

section \<open>Comparison\<close>

text \<open>
  \<open>zend_hash_compare\<close> guards against arrays that contain themselves: \<open>recursive\<close> is the
  recursion flag of \<open>ht1\<close>, which is set before and cleared after the comparison proper.
\<close>

definition zend_hash_compare ::
  "bool \<Rightarrow> 'v HashTable \<Rightarrow> 'v HashTable \<Rightarrow> ('v zval \<Rightarrow> 'v zval \<Rightarrow> int) \<Rightarrow> bool \<Rightarrow> zend_error + int" where
  "zend_hash_compare recursive ht1 ht2 compar ordered =
     (if ht_addr ht1 = ht_addr ht2 then Inr 0
      else if recursive then Inl E_NESTING_LEVEL
      else Inr (zend_hash_compare_impl ht1 ht2 compar ordered))"

lemma compare_data_zero:
  assumes "\<And>v w. compar v w = 0 \<longleftrightarrow> v = w"
  shows "compare_data compar v w = 0 \<longleftrightarrow> v = w"
  using assms by (auto simp: compare_data_def)

lemma next_used_Cons: "live_from ht i = j # js \<Longrightarrow> next_used ht i = j"
  by (simp add: next_used_live)

lemma compare_ordered:
  assumes "\<And>v w. compar v w = 0 \<longleftrightarrow> v = w" "direct (elems ht1)" "direct (elems ht2)"
  shows "a \<le> nNumUsed ht1 \<Longrightarrow> length (live_from ht1 a) = length (live_from ht2 b) \<Longrightarrow>
    compare_from compar True ht1 ht2 [a..<nNumUsed ht1] b = 0 \<longleftrightarrow> elems_from ht1 a = elems_from ht2 b"
proof (induction "nNumUsed ht1 - a" arbitrary: a b)
  case 0
  then show ?case by (simp add: elems_from_def live_from_end)
next
  case (Suc n)
  then have a: "a < nNumUsed ht1" "[a..<nNumUsed ht1] = a # [Suc a..<nNumUsed ht1]" by (auto simp: upt_conv_Cons)
  show ?case
  proof (cases "b_val (arData ht1 ! a) = IS_UNDEF")
    case True
    have "live_from ht1 (Suc a) = live_from ht1 a" using live_from_step[OF a(1)] True by simp
    then show ?thesis using Suc.hyps(1)[of "Suc a" b] Suc.hyps(2) Suc.prems a True walk_undef(2)[OF True] by simp
  next
    case False
    then have la: "a \<in> set (live_of ht1)" using a(1) by (simp add: live_idx_set)
    have f1: "live_from ht1 a = a # live_from ht1 (Suc a)" using live_from_step[OF a(1)] False by simp
    then obtain j js where j: "live_from ht2 b = j # js" using Suc.prems(2) by (cases "live_from ht2 b") auto
    note lj = live_from_Cons[OF j]
    have lj2: "j \<in> set (live_of ht2)" using lj by (simp add: live_idx_set)
    have e2: "elems_from ht2 b = entry (arData ht2 ! j) # elems_from ht2 (Suc j)" using j lj(4) by (simp add: elems_from_def)
    have r: "resolve_ind ht1 (b_val (arData ht1 ! a)) = b_val (arData ht1 ! a)"
      "resolve_ind ht2 (b_val (arData ht2 ! j)) = b_val (arData ht2 ! j)"
      using resolve_direct direct_live[OF assms(2) la] direct_live[OF assms(3) lj2] by blast+
    have IH: "compare_from compar True ht1 ht2 [Suc a..<nNumUsed ht1] (Suc j) = 0 \<longleftrightarrow> elems_from ht1 (Suc a) = elems_from ht2 (Suc j)"
      using Suc.hyps(1)[of "Suc a" "Suc j"] Suc.hyps(2) Suc.prems(2) a f1 j lj(4) by simp
    have "compare_from compar True ht1 ht2 [a..<nNumUsed ht1] b = 0 \<longleftrightarrow>
        compare_keys (arData ht1 ! a) (arData ht2 ! j) = 0
        \<and> compare_data compar (b_val (arData ht1 ! a)) (b_val (arData ht2 ! j)) = 0
        \<and> compare_from compar True ht1 ht2 [Suc a..<nNumUsed ht1] (Suc j) = 0"
      using False r by (simp add: a(2) next_used_Cons[OF j] Let_def)
    then show ?thesis unfolding IH compare_keys_zero compare_data_zero[of compar, OF assms(1)] e2 elems_from_live[OF la]
      by (auto simp: entry_def)
  qed
qed

lemma find_bucket_elems:
  assumes "ht_inv ht"
  shows "map_option (read_zptr ht) (case b_key p of None \<Rightarrow> zend_hash_index_find ht (b_h p) | Some key \<Rightarrow> zend_hash_find ht key)
    = map_of (elems ht) (bkey p)"
  by (simp add: bkey_def index_find_elems[OF assms] find_str_find str_find_elems[OF assms] split: option.split)

lemma compare_unordered:
  assumes "\<And>v w. compar v w = 0 \<longleftrightarrow> v = w" "direct (elems ht1)" "direct (elems ht2)" "ht_inv ht2"
  shows "set is \<subseteq> {..<nNumUsed ht1} \<Longrightarrow> compare_from compar False ht1 ht2 is b = 0 \<longleftrightarrow>
    (\<forall>i \<in> set is. i \<in> set (live_of ht1) \<longrightarrow> map_of (elems ht2) (bkey (arData ht1 ! i)) = Some (b_val (arData ht1 ! i)))"
proof (induction "is")
  case (Cons i "is")
  let ?p = "arData ht1 ! i"
  let ?f = "case b_key ?p of None \<Rightarrow> zend_hash_index_find ht2 (b_h ?p) | Some key \<Rightarrow> zend_hash_find ht2 key"
  note f = find_bucket_elems[OF assms(4), of ?p]
  show ?case
  proof (cases "b_val ?p = IS_UNDEF")
    case True
    then show ?thesis using Cons by (simp add: live_idx_set)
  next
    case False
    then have l: "i \<in> set (live_of ht1)" using Cons.prems by (simp add: live_idx_set)
    have r1: "resolve_ind ht1 (b_val ?p) = b_val ?p" by (rule resolve_direct[OF direct_live[OF assms(2) l]])
    show ?thesis
    proof (cases ?f)
      case None
      then show ?thesis using f False l by (simp add: Let_def)
    next
      case (Some q)
      have m: "map_of (elems ht2) (bkey ?p) = Some (read_zptr ht2 q)" using f Some by simp
      then have "no_ind (read_zptr ht2 q)" using assms(3) map_of_SomeD[OF m] by (auto simp: list_all_iff)
      then have "resolve_ind ht2 (read_zptr ht2 q) = read_zptr ht2 q" by (rule resolve_direct)
      then have "compare_from compar False ht1 ht2 (i # is) b = 0 \<longleftrightarrow> b_val ?p = read_zptr ht2 q \<and> compare_from compar False ht1 ht2 is b = 0"
        using Some False r1 compare_data_zero[of compar, OF assms(1)] by (simp add: Let_def)
      then show ?thesis using Cons m l by auto
    qed
  qed
qed simp

lemma sub_map_eq:
  assumes "distinct (map fst xs)" "distinct (map fst ys)" "length xs = length ys" "set xs \<subseteq> set ys"
  shows "map_of xs = map_of ys"
proof -
  have "card (set xs) = length xs" "card (set ys) = length ys" using assms(1,2) by (simp_all add: distinct_map distinct_card)
  then have "set xs = set ys" using assms(3,4) by (intro card_subset_eq) simp_all
  then show ?thesis using assms(1,2) by (intro map_of_inject_set[THEN iffD2]) simp_all
qed

lemma unordered_iff:
  assumes "ht_inv ht1" "ht_inv ht2" "length (elems ht1) = length (elems ht2)"
  shows "(\<forall>i \<in> set (live_of ht1). map_of (elems ht2) (bkey (arData ht1 ! i)) = Some (b_val (arData ht1 ! i)))
    \<longleftrightarrow> map_of (elems ht1) = map_of (elems ht2)" (is "?L \<longleftrightarrow> ?R")
proof
  assume ?L
  then have "set (elems ht1) \<subseteq> set (elems ht2)" by (auto simp: elems_def[of ht1] entry_def dest: map_of_SomeD)
  then show ?R using sub_map_eq[OF ht_inv_distinct[OF assms(1)] ht_inv_distinct[OF assms(2)] assms(3)] by simp
next
  assume R: ?R
  show ?L
  proof
    fix i assume "i \<in> set (live_of ht1)"
    then have "(bkey (arData ht1 ! i), b_val (arData ht1 ! i)) \<in> set (elems ht1)" by (auto simp: elems_def entry_def)
    then show "map_of (elems ht2) (bkey (arData ht1 ! i)) = Some (b_val (arData ht1 ! i))"
      using R map_of_is_SomeI[OF ht_inv_distinct[OF assms(1)]] by simp
  qed
qed

text \<open>C13: with a comparison function that returns 0 exactly on equal values, two different arrays
  compare equal in order exactly when they have the same elements in the same order, and
  without order exactly when they have the same keys with the same values; an array being
  compared inside itself is reported as a nesting error.\<close>

theorem compare_decides_equality:
  assumes "ht_inv ht1" "ht_inv ht2" "direct (elems ht1)" "direct (elems ht2)" "ht_addr ht1 \<noteq> ht_addr ht2"
    "\<And>v w. compar v w = 0 \<longleftrightarrow> v = w"
  shows "(zend_hash_compare False ht1 ht2 compar True = Inr 0 \<longleftrightarrow> elems ht1 = elems ht2)
    \<and> (zend_hash_compare False ht1 ht2 compar False = Inr 0 \<longleftrightarrow> map_of (elems ht1) = map_of (elems ht2))
    \<and> zend_hash_compare True ht1 ht2 compar ordered = Inl E_NESTING_LEVEL"
proof -
  have c: "nNumOfElements ht1 = length (elems ht1)" "nNumOfElements ht2 = length (elems ht2)"
    using ht_inv_count assms(1,2) by blast+
  have o: "length (elems ht1) = length (elems ht2) \<Longrightarrow>
      compare_from compar True ht1 ht2 [0..<nNumUsed ht1] 0 = 0 \<longleftrightarrow> elems ht1 = elems ht2"
    using compare_ordered[OF assms(6,3,4), of 0 0] by (simp add: elems_from_0 live_from_0 length_elems)
  have s: "set [0..<nNumUsed ht1] \<subseteq> {..<nNumUsed ht1}" by auto
  have u: "length (elems ht1) = length (elems ht2) \<Longrightarrow>
      compare_from compar False ht1 ht2 [0..<nNumUsed ht1] 0 = 0 \<longleftrightarrow> map_of (elems ht1) = map_of (elems ht2)"
    using compare_unordered[OF assms(6,3,4,2) s, of 0] unordered_iff[OF assms(1,2)] by (auto simp: live_idx_set)
  have "length (elems ht1) = length (elems ht2)" if "map_of (elems ht1) = map_of (elems ht2)"
  proof -
    have "fst ` set (elems ht1) = fst ` set (elems ht2)" using that by (metis dom_map_of_conv_image_fst)
    then show ?thesis using ht_inv_distinct[OF assms(1)] ht_inv_distinct[OF assms(2)] by (metis distinct_card length_map set_map)
  qed
  then show ?thesis using o u assms(5) by (auto simp: zend_hash_compare_def zend_hash_compare_impl_def c)
qed

lemma addr_frame:
  "ht_inv (ht\<lparr>ht_addr := a\<rparr>) = ht_inv ht" "elems (ht\<lparr>ht_addr := a\<rparr>) = elems ht"
  by (simp_all add: ht_inv_def packed_inv_def mixed_inv_def data_inv_def mask_inv_def keys_inv_def uninit_inv_def chains_ok_def
      cell_of_def hash_cell_def elems_def)

theorem compare_decides_equality_witness:
  "zend_hash_compare False demo_table (demo_table\<lparr>ht_addr := Suc (ht_addr demo_table)\<rparr>) (\<lambda>v w. if v = w then 0 else 1) True = Inr 0"
  using compare_decides_equality[of demo_table "demo_table\<lparr>ht_addr := Suc (ht_addr demo_table)\<rparr>" "\<lambda>v w. if v = w then 0 else 1"]
  by (simp add: addr_frame no_ind_def)

section \<open>Extrema\<close>

definition better :: "('v Bucket \<Rightarrow> 'v Bucket \<Rightarrow> int) \<Rightarrow> bool \<Rightarrow> 'v Bucket \<Rightarrow> 'v Bucket \<Rightarrow> bool" where
  "better compar flag p res \<longleftrightarrow> (if flag then compar res p < 0 else compar res p > 0)"

lemma minmax_from_spec:
  assumes "\<And>x y. better compar flag x y \<Longrightarrow> \<not> better compar flag y x"
    "\<And>x y z. \<not> better compar flag x y \<Longrightarrow> \<not> better compar flag y z \<Longrightarrow> \<not> better compar flag x z"
  shows "sorted_wrt (<) (res # is) \<Longrightarrow> \<exists>r. minmax_from compar flag ar is res = r \<and> r \<in> insert res (set (filter (live ar) is))
    \<and> (\<forall>i \<in> insert res (set (filter (live ar) is)). \<not> better compar flag (ar ! i) (ar ! r)
          \<and> (i < r \<longrightarrow> better compar flag (ar ! r) (ar ! i)))"
proof (induction "is" arbitrary: res)
  case Nil
  then show ?case using assms(1) by auto
next
  case (Cons i "is")
  show ?case
  proof (cases "live ar i")
    case False
    then show ?thesis using Cons.IH[of res] Cons.prems by (simp add: live_def)
  next
    case True
    show ?thesis
    proof (cases "better compar flag (ar ! i) (ar ! res)")
      case b: True
      have e: "minmax_from compar flag ar (i # is) res = minmax_from compar flag ar is i"
        using True b by (simp add: live_def better_def Let_def)
      obtain r where r: "minmax_from compar flag ar is i = r" "r \<in> insert i (set (filter (live ar) is))"
        "\<forall>k \<in> insert i (set (filter (live ar) is)). \<not> better compar flag (ar ! k) (ar ! r) \<and> (k < r \<longrightarrow> better compar flag (ar ! r) (ar ! k))"
        using Cons.IH[of i] Cons.prems by auto
      have "\<not> better compar flag (ar ! i) (ar ! r)" using r(3) by blast
      then have "better compar flag (ar ! r) (ar ! res)" using b assms(2) by blast
      moreover from this have "\<not> better compar flag (ar ! res) (ar ! r)" using assms(1) by blast
      ultimately show ?thesis using e r True by auto
    next
      case b: False
      have e: "minmax_from compar flag ar (i # is) res = minmax_from compar flag ar is res"
        using True b by (simp add: live_def better_def Let_def)
      obtain r where r: "minmax_from compar flag ar is res = r" "r \<in> insert res (set (filter (live ar) is))"
        "\<forall>k \<in> insert res (set (filter (live ar) is)). \<not> better compar flag (ar ! k) (ar ! r) \<and> (k < r \<longrightarrow> better compar flag (ar ! r) (ar ! k))"
        using Cons.IH[of res] Cons.prems by auto
      have n: "\<not> better compar flag (ar ! i) (ar ! r)" using r(3) b assms(2) by blast
      have "better compar flag (ar ! r) (ar ! i)" if "i < r"
      proof -
        have "r \<noteq> res" using that Cons.prems by auto
        then have "res < r" using r(2) Cons.prems by auto
        then have "better compar flag (ar ! r) (ar ! res)" using r(3) by blast
        then show ?thesis using b assms(2) by blast
      qed
      then show ?thesis using e r True n by auto
    qed
  qed
qed

text \<open>\<open>zend_hash_minmax\<close> returns \<open>NULL\<close> for an empty array and otherwise the value of the first
  minimal element (maximal for \<open>flag\<close>): no element is better, and every earlier one is
  strictly worse.\<close>

theorem minmax_finds_first_extremum:
  assumes "ht_inv ht" "\<And>x y. better compar flag x y \<Longrightarrow> \<not> better compar flag y x"
    "\<And>x y z. \<not> better compar flag x y \<Longrightarrow> \<not> better compar flag y z \<Longrightarrow> \<not> better compar flag x z"
  shows "if elems ht = [] then zend_hash_minmax ht compar flag = None
    else \<exists>r \<in> set (live_of ht). zend_hash_minmax ht compar flag = Some (PBucket r)
      \<and> (\<forall>i \<in> set (live_of ht). \<not> better compar flag (arData ht ! i) (arData ht ! r)
            \<and> (i < r \<longrightarrow> better compar flag (arData ht ! r) (arData ht ! i)))"
proof (cases "live_of ht")
  case Nil
  then show ?thesis using ht_inv_used[OF assms(1)] by (simp add: elems_def zend_hash_minmax_def)
next
  case (Cons j js)
  have lf: "live_from ht 0 = j # js" using Cons by (simp add: live_from_0)
  note l = live_from_Cons[OF lf]
  have f: "filter (live (arData ht)) [j..<nNumUsed ht] = j # js" using l(5) by (simp add: live_from_def)
  then have fj: "j # filter (live (arData ht)) [Suc j..<nNumUsed ht] = j # js"
    using l(2,3) by (simp add: upt_conv_Cons live_def)
  have lj: "live (arData ht) j" using l(3) by (simp add: live_def)
  have self: "\<not> better compar flag (arData ht ! j) (arData ht ! j)" using assms(2) by blast
  have "sorted_wrt (<) (j # [Suc j..<nNumUsed ht])" by auto
  from minmax_from_spec[OF assms(2,3) this] obtain r where r: "minmax_from compar flag (arData ht) [Suc j..<nNumUsed ht] j = r"
    "r \<in> set (live_of ht)" "\<forall>i \<in> set (live_of ht). \<not> better compar flag (arData ht ! i) (arData ht ! r)
       \<and> (i < r \<longrightarrow> better compar flag (arData ht ! r) (arData ht ! i))"
    using fj Cons by auto
  have "minmax_from compar flag (arData ht) [j..<nNumUsed ht] j = r"
    using r(1) l(2) lj self by (simp add: upt_conv_Cons live_def better_def Let_def)
  moreover have "next_used ht 0 = j" using lf by (rule next_used_Cons)
  moreover have "nNumOfElements ht \<noteq> 0" using ht_inv_used[OF assms(1)] Cons by simp
  ultimately have "zend_hash_minmax ht compar flag = Some (PBucket r)" using l(2) by (simp add: zend_hash_minmax_def Let_def)
  then show ?thesis using r(2,3) Cons by (auto simp: elems_def)
qed

theorem minmax_finds_first_extremum_witness:
  "\<exists>r \<in> set (live_of demo_table). zend_hash_minmax demo_table (\<lambda>p q. int (length (ZSTR_VAL (the (b_key p)))) - int (length (ZSTR_VAL (the (b_key q))))) False = Some (PBucket r)"
  using minmax_finds_first_extremum[of demo_table "\<lambda>p q. int (length (ZSTR_VAL (the (b_key p)))) - int (length (ZSTR_VAL (the (b_key q))))" False]
  by (auto simp: better_def)

end
