(* ===== verification/PyPhpBridge.thy ===== *)
theory PyPhpBridge
  imports ZendHashCopy
begin

text \<open>
  The extension that connects PHP code to the Python client: the conversions between PHP
  values and Python objects (PyPhpBridge.cpp) and the wrapper class whose methods call the
  Python functions (deep_client_php_wrapper.cpp). PHP arrays are the ordered maps that the
  theories on zend_hash.c refine; assignments \<open>phpArray[key] = v\<close> go through the
  symbol-table update of the engine, as PHP-CPP (value.cpp) does it.
\<close>

section \<open>Values\<close>

text \<open>\<open>'f\<close> are C doubles, \<open>'u\<close> Python strings; both are handled by conversion functions only.\<close>

datatype ('f, 'u) pyobj =
    PyLong int | PyBool bool | PyFloat 'f | PyUnicode 'u
  | PyList "('f, 'u) pyobj list" | PyDict "(('f, 'u) pyobj \<times> ('f, 'u) pyobj) list"
  | PyTuple | PySet | PyFrozenSet | PyBytes | PyByteArray | PyMemoryView | PyCallable | PyOther

datatype 'f phpval =
    PhpUndefined | PhpNull | PhpBool bool | PhpNumeric zend_ulong | PhpFloat 'f | PhpString string
  | PhpArray "(hkey \<times> 'f phpval) list" | PhpObject

text \<open>A Python exception is known by the text of \<open>str(exc)\<close>, \<open>None\<close> when that fails itself.\<close>

type_synonym py_exc = "string option"

text \<open>
  The functions of the Python C API the bridge calls are parameters: \<open>PyUnicode_AsUTF8\<close>
  (\<open>None\<close> when the string cannot be encoded), \<open>PyUnicode_DecodeUTF8\<close> with the \<open>replace\<close>
  handler, \<open>PyUnicode_DecodeFSDefault\<close>, \<open>PyLong_AsLong\<close> (\<open>None\<close> when the number does not fit a
  \<open>long\<close>), the exceptions these leave pending when they fail, and the conversion of a 64-bit
  integer to a double.
\<close>

record ('f, 'u) py_api =
  AsUTF8 :: "'u \<Rightarrow> string option"
  DecodeUTF8 :: "string \<Rightarrow> 'u"
  DecodeFSDefault :: "string \<Rightarrow> 'u"
  AsLong :: "int \<Rightarrow> zend_ulong option"
  double_of :: "int \<Rightarrow> 'f"
  utf8_exc :: "'u \<Rightarrow> py_exc"
  not_str_exc :: py_exc
  overflow_exc :: py_exc

text \<open>The value of \<open>PyLong_AsLong\<close> is -1 when it fails; the bridge does not look at the pending exception.\<close>

definition PyLong_AsLong :: "('f, 'u) py_api \<Rightarrow> int \<Rightarrow> zend_ulong" where
  "PyLong_AsLong api n = (case AsLong api n of Some w \<Rightarrow> w | None \<Rightarrow> - 1)"

text \<open>A C string ends at its first null character.\<close>

definition cstr :: "string \<Rightarrow> string" where
  "cstr s = takeWhile (\<lambda>c. c \<noteq> CHR 0x00) s"

text \<open>The constructor \<open>Php::Value(const char * )\<close>.\<close>

definition value_of_cstr :: "string option \<Rightarrow> 'f phpval" where
  "value_of_cstr p = (case p of None \<Rightarrow> PhpNull | Some s \<Rightarrow> PhpString (cstr s))"

section \<open>Assignments to array elements (PHP-CPP)\<close>

text \<open>\<open>setType(Type::Array)\<close>; the targets of the loops are null or an array, never an object.\<close>

definition setType_array :: "'f phpval \<Rightarrow> (hkey \<times> 'f phpval) list" where
  "setType_array arr = (case arr of PhpArray xs \<Rightarrow> xs | PhpNull \<Rightarrow> [] | PhpUndefined \<Rightarrow> [] | _ \<Rightarrow> [(Inl 0, arr)])"

text \<open>\<open>Value::set(const char *key, int size, value)\<close>; keys that start with a null character are refused.\<close>

definition set_str :: "'f phpval \<Rightarrow> string \<Rightarrow> 'f phpval \<Rightarrow> 'f phpval" where
  "set_str arr key v =
     PhpArray (if key \<noteq> [] \<and> hd key = CHR 0x00 then setType_array arr
               else alist_put (symtable_key key) v (setType_array arr))"

text \<open>\<open>Value::set(const Value &key, value)\<close> for the two kinds of key \<open>value_of_cstr\<close> makes; \<open>NULL\<close> reads as "".\<close>

definition set_value :: "'f phpval \<Rightarrow> 'f phpval \<Rightarrow> 'f phpval \<Rightarrow> 'f phpval" where
  "set_value arr key v = (case key of PhpString s \<Rightarrow> set_str arr s v | _ \<Rightarrow> set_str arr [] v)"

text \<open>An index is narrowed to \<open>int\<close> and then extended to the integer key.\<close>

definition int_index :: "nat \<Rightarrow> zend_ulong" where
  "int_index i = scast (of_nat i :: u32)"

definition set_index :: "'f phpval \<Rightarrow> nat \<Rightarrow> 'f phpval \<Rightarrow> 'f phpval" where
  "set_index arr i v = PhpArray (alist_put (Inl (int_index i)) v (setType_array arr))"

section \<open>Python to PHP\<close>

definition key_utf8 :: "('f, 'u) py_api \<Rightarrow> ('f, 'u) pyobj \<Rightarrow> string option" where
  "key_utf8 api k = (case k of PyUnicode u \<Rightarrow> AsUTF8 api u | _ \<Rightarrow> None)"

text \<open>The stores of the two loops, once the values are converted; the result starts as a null value.\<close>

definition store_dict :: "('f, 'u) py_api \<Rightarrow> (('f, 'u) pyobj \<times> 'f phpval) list \<Rightarrow> 'f phpval" where
  "store_dict api kvs = fold (\<lambda>(k, v) arr. set_value arr (value_of_cstr (key_utf8 api k)) v) kvs PhpNull"

definition store_list :: "'f phpval list \<Rightarrow> 'f phpval" where
  "store_list vs = fold (\<lambda>(i, v) arr. set_index arr i v) (enumerate 0 vs) PhpNull"

text \<open>The chain of type tests in the loops; a bool passes \<open>PyLong_Check\<close>.\<close>

fun convertPyValue :: "('f, 'u) py_api \<Rightarrow> ('f, 'u) pyobj \<Rightarrow> 'f phpval" where
  "convertPyValue api (PyLong n) = PhpNumeric (PyLong_AsLong api n)"
| "convertPyValue api (PyBool b) = PhpNumeric (if b then 1 else 0)"
| "convertPyValue api (PyFloat d) = PhpFloat d"
| "convertPyValue api (PyUnicode u) = value_of_cstr (AsUTF8 api u)"
| "convertPyValue api (PyDict kvs) = store_dict api (map (\<lambda>(k, v). (k, convertPyValue api v)) kvs)"
| "convertPyValue api (PyList xs) = store_list (map (convertPyValue api) xs)"
| "convertPyValue api _ = PhpNull"

text \<open>
  The error indicator after the conversion of a value. The loops never read it, and a failing
  call of \<open>PyUnicode_AsUTF8\<close> or \<open>PyLong_AsLong\<close> replaces what it held.
\<close>

definition long_err :: "('f, 'u) py_api \<Rightarrow> int \<Rightarrow> py_exc option \<Rightarrow> py_exc option" where
  "long_err api n e = (case AsLong api n of Some w \<Rightarrow> e | None \<Rightarrow> Some (overflow_exc api))"

definition utf8_err :: "('f, 'u) py_api \<Rightarrow> ('f, 'u) pyobj \<Rightarrow> py_exc option \<Rightarrow> py_exc option" where
  "utf8_err api k e =
     (case k of PyUnicode u \<Rightarrow> (case AsUTF8 api u of Some s \<Rightarrow> e | None \<Rightarrow> Some (utf8_exc api u)) | _ \<Rightarrow> Some (not_str_exc api))"

fun convertPyValue_err :: "('f, 'u) py_api \<Rightarrow> ('f, 'u) pyobj \<Rightarrow> py_exc option \<Rightarrow> py_exc option" where
  "convertPyValue_err api (PyLong n) e = long_err api n e"
| "convertPyValue_err api (PyUnicode u) e = utf8_err api (PyUnicode u) e"
| "convertPyValue_err api (PyDict kvs) e = fold (\<lambda>(k, v) e. convertPyValue_err api v (utf8_err api k e)) kvs e"
| "convertPyValue_err api (PyList xs) e = fold (convertPyValue_err api) xs e"
| "convertPyValue_err api _ e = e"

definition convertPyDictToPhpArray ::
  "('f, 'u) py_api \<Rightarrow> (('f, 'u) pyobj \<times> ('f, 'u) pyobj) list \<Rightarrow> py_exc option \<Rightarrow> 'f phpval \<times> py_exc option" where
  "convertPyDictToPhpArray api kvs e = (store_dict api (map (\<lambda>(k, v). (k, convertPyValue api v)) kvs), convertPyValue_err api (PyDict kvs) e)"

definition convertPyListToPhpArray :: "('f, 'u) py_api \<Rightarrow> ('f, 'u) pyobj list \<Rightarrow> py_exc option \<Rightarrow> 'f phpval \<times> py_exc option" where
  "convertPyListToPhpArray api xs e = (store_list (map (convertPyValue api) xs), convertPyValue_err api (PyList xs) e)"

section \<open>PHP to Python\<close>

text \<open>The errors are \<open>Php::Exception\<close>s with their message.\<close>

abbreviation undefined_error :: string where
  "undefined_error \<equiv> ''Runtime error, variable undefined''"

definition isAssociativeArray :: "'f phpval \<Rightarrow> bool" where
  "isAssociativeArray v =
     (case v of PhpArray xs \<Rightarrow> list_ex (\<lambda>(k, _). case k of Inl _ \<Rightarrow> False | Inr _ \<Rightarrow> True) xs | _ \<Rightarrow> False)"

text \<open>The loops of the array conversions; the results of the elements' conversions come with their keys.\<close>

fun convertPhpArrayToPyDict ::
  "('f, 'u) py_api \<Rightarrow> (hkey \<times> (string + ('f, 'u) pyobj)) list \<Rightarrow> (('f, 'u) pyobj \<times> ('f, 'u) pyobj) list \<Rightarrow> string + ('f, 'u) pyobj" where
  "convertPhpArrayToPyDict api [] d = Inr (PyDict d)"
| "convertPhpArrayToPyDict api ((k, r) # rs) d =
     (case r of Inl e \<Rightarrow> Inl e
      | Inr v \<Rightarrow> convertPhpArrayToPyDict api rs (alist_put (PyUnicode (DecodeUTF8 api (key_str k))) v d))"

fun gather :: "(string + 'a) list \<Rightarrow> string + 'a list" where
  "gather [] = Inr []"
| "gather (r # rs) = (case r of Inl e \<Rightarrow> Inl e | Inr v \<Rightarrow> (case gather rs of Inl e \<Rightarrow> Inl e | Inr vs \<Rightarrow> Inr (v # vs)))"

definition convertPhpArrayToPyList :: "(hkey \<times> (string + ('f, 'u) pyobj)) list \<Rightarrow> string + ('f, 'u) pyobj" where
  "convertPhpArrayToPyList rs =
     (case gather (map (\<lambda>i. case map_of rs (Inl (int_index i)) of None \<Rightarrow> Inl undefined_error | Some r \<Rightarrow> r) [0..<length rs]) of
        Inl e \<Rightarrow> Inl e | Inr vs \<Rightarrow> Inr (PyList vs))"

fun convertPhpValueToPyObject :: "('f, 'u) py_api \<Rightarrow> 'f phpval \<Rightarrow> string + ('f, 'u) pyobj" where
  "convertPhpValueToPyObject api (PhpNumeric w) = Inr (PyFloat (double_of api (sint w)))"
| "convertPhpValueToPyObject api (PhpString s) = Inr (PyUnicode (DecodeFSDefault api (cstr s)))"
| "convertPhpValueToPyObject api (PhpArray xs) =
     (let rs = map (\<lambda>(k, v). (k, convertPhpValueToPyObject api v)) xs
      in if xs = [] then Inr (PyList [])
         else if isAssociativeArray (PhpArray xs) then convertPhpArrayToPyDict api rs []
         else convertPhpArrayToPyList rs)"
| "convertPhpValueToPyObject api _ = Inl undefined_error"

section \<open>Round trip\<close>

text \<open>
  Values that survive the way to Python and back: strings without null characters that the
  API encodes as it decoded them, and non-empty arrays, either with the keys 0, 1, 2 and so on in
  this order, or with at least one string key and all keys with these properties.
\<close>

definition clean_str :: "('f, 'u) py_api \<Rightarrow> (string \<Rightarrow> 'u) \<Rightarrow> string \<Rightarrow> bool" where
  "clean_str api dec s \<longleftrightarrow> CHR 0x00 \<notin> set s \<and> AsUTF8 api (dec s) = Some s"

fun plain :: "('f, 'u) py_api \<Rightarrow> 'f phpval \<Rightarrow> bool" where
  "plain api (PhpNumeric w) = True"
| "plain api (PhpString s) = clean_str api (DecodeFSDefault api) s"
| "plain api (PhpArray xs) =
     (xs \<noteq> [] \<and> list_all (\<lambda>(k, v). plain api v) xs
      \<and> (if list_all isl (map fst xs)
          then length xs < 2 ^ 31 \<and> map fst xs = map (\<lambda>i. Inl (of_nat i)) [0..<length xs]
          else distinct (map fst xs) \<and> list_all (\<lambda>(k, v). norm_key k = k \<and> clean_str api (DecodeUTF8 api) (key_str k)) xs))"
| "plain api _ = False"

text \<open>Python has the numbers as floats.\<close>

fun float_numbers :: "('f, 'u) py_api \<Rightarrow> 'f phpval \<Rightarrow> 'f phpval" where
  "float_numbers api (PhpNumeric w) = PhpFloat (double_of api (sint w))"
| "float_numbers api (PhpArray xs) = PhpArray (map (\<lambda>(k, v). (k, float_numbers api v)) xs)"
| "float_numbers api v = v"

lemma isAssociativeArray_iff: "isAssociativeArray (PhpArray xs) \<longleftrightarrow> \<not> list_all isl (map fst xs)"
  unfolding isAssociativeArray_def phpval.case by (induction xs) (auto split: sum.splits)

lemma fold_same: "(\<And>x e. x \<in> set xs \<Longrightarrow> f x e = e) \<Longrightarrow> fold f xs e = e"
  by (induction xs) simp_all

lemma cstr_clean: "CHR 0x00 \<notin> set s \<Longrightarrow> cstr s = s"
  by (auto simp: cstr_def takeWhile_eq_all_conv)

lemma int_index_small: "i < 2 ^ 31 \<Longrightarrow> int_index i = of_nat i"
proof -
  assume i: "i < 2 ^ 31"
  have "signed_take_bit 31 (int i) = int i" by (rule signed_take_bit_int_eq_self) (use i in simp_all)
  then show ?thesis by (simp add: int_index_def signed_of_nat)
qed

lemma gather_Inr: "gather (map (\<lambda>i. Inr (f i)) is) = Inr (map f is)"
  by (induction "is") simp_all

lemma dict_loop:
  "distinct (map fst (d @ map (\<lambda>(k, v). (PyUnicode (DecodeUTF8 api (key_str k)), v)) kvs)) \<Longrightarrow>
     convertPhpArrayToPyDict api (map (\<lambda>(k, v). (k, Inr v)) kvs) d
       = Inr (PyDict (d @ map (\<lambda>(k, v). (PyUnicode (DecodeUTF8 api (key_str k)), v)) kvs))"
proof (induction kvs arbitrary: d)
  case (Cons kv kvs)
  obtain k v where kv: "kv = (k, v)" by (cases kv)
  let ?k = "PyUnicode (DecodeUTF8 api (key_str k))"
  have "?k \<notin> fst ` set d" using Cons.prems kv by auto
  then show ?case using Cons.IH[of "d @ [(?k, v)]"] Cons.prems kv by (simp add: alist_put_fresh)
qed simp

lemma dict_store:
  assumes "list_all (\<lambda>(k, v). norm_key k = k \<and> clean_str api (DecodeUTF8 api) (key_str k)) kvs"
    "distinct (map fst (setType_array arr @ kvs))"
  shows "setType_array (fold (\<lambda>(k, v) arr. set_value arr (value_of_cstr (key_utf8 api k)) v)
      (map (\<lambda>(k, v). (PyUnicode (DecodeUTF8 api (key_str k)), v)) kvs) arr) = setType_array arr @ kvs
    \<and> (kvs \<noteq> [] \<longrightarrow> (\<exists>xs. fold (\<lambda>(k, v) arr. set_value arr (value_of_cstr (key_utf8 api k)) v)
      (map (\<lambda>(k, v). (PyUnicode (DecodeUTF8 api (key_str k)), v)) kvs) arr = PhpArray xs))"
  using assms
proof (induction kvs arbitrary: arr)
  case (Cons kv kvs)
  obtain k v where kv: "kv = (k, v)" by (cases kv)
  have c: "norm_key k = k" "CHR 0x00 \<notin> set (key_str k)" "AsUTF8 api (DecodeUTF8 api (key_str k)) = Some (key_str k)"
    using Cons.prems(1) kv by (auto simp: clean_str_def)
  have "k \<notin> fst ` set (setType_array arr)" using Cons.prems(2) kv by auto
  moreover have "\<not> (key_str k \<noteq> [] \<and> hd (key_str k) = CHR 0x00)" using c(2) by (metis hd_in_set)
  ultimately have s: "set_value arr (value_of_cstr (key_utf8 api (PyUnicode (DecodeUTF8 api (key_str k))))) v
      = PhpArray (setType_array arr @ [(k, v)])"
    using c by (auto simp: set_value_def value_of_cstr_def key_utf8_def set_str_def cstr_clean symtable_key_str alist_put_fresh)
  let ?arr = "PhpArray (setType_array arr @ [(k, v)])"
  have "setType_array ?arr = setType_array arr @ [(k, v)]" by (simp add: setType_array_def)
  then show ?case using Cons.IH[of ?arr] Cons.prems kv s by (cases kvs) auto
qed simp

lemma list_store:
  assumes "n + length vs \<le> 2 ^ 31" "distinct (map fst (setType_array arr @ map (\<lambda>(i, v). (Inl (of_nat i), v)) (enumerate n vs)))"
  shows "setType_array (fold (\<lambda>(i, v) arr. set_index arr i v) (enumerate n vs) arr)
      = setType_array arr @ map (\<lambda>(i, v). (Inl (of_nat i), v)) (enumerate n vs)
    \<and> (vs \<noteq> [] \<longrightarrow> (\<exists>xs. fold (\<lambda>(i, v) arr. set_index arr i v) (enumerate n vs) arr = PhpArray xs))"
  using assms
proof (induction vs arbitrary: n arr)
  case (Cons v vs)
  have "Inl (of_nat n) \<notin> fst ` set (setType_array arr)" using Cons.prems(2) by auto
  then have s: "set_index arr n v = PhpArray (setType_array arr @ [(Inl (of_nat n), v)])"
    using int_index_small[of n] Cons.prems(1) by (simp add: set_index_def alist_put_fresh)
  let ?arr = "PhpArray (setType_array arr @ [(Inl (of_nat n), v)])"
  have "setType_array ?arr = setType_array arr @ [(Inl (of_nat n), v)]" by (simp add: setType_array_def)
  then show ?case using Cons.IH[of "Suc n" ?arr] Cons.prems s by (cases vs) auto
qed simp

lemma setType_PhpArray: "v = PhpArray xs \<Longrightarrow> v = PhpArray (setType_array v)"
  by (simp add: setType_array_def)

lemma distinct_int_keys:
  assumes "n \<le> 2 ^ 31"
  shows "distinct (map (\<lambda>i. Inl (of_nat i) :: hkey) [0..<n])"
proof -
  have "inj_on (\<lambda>i. Inl (of_nat i) :: hkey) {0..<n}" using assms of_nat_64_inj by (auto simp: inj_on_def)
  then show ?thesis by (simp add: distinct_map)
qed

lemma list_back:
  assumes "vs \<noteq> []" "length vs < 2 ^ 31"
  shows "store_list vs = PhpArray (map (\<lambda>i. (Inl (of_nat i), vs ! i)) [0..<length vs])"
proof -
  have e: "map (\<lambda>(i, v). (Inl (of_nat i) :: hkey, v)) (enumerate 0 vs) = map (\<lambda>i. (Inl (of_nat i), vs ! i)) [0..<length vs]"
    by (rule nth_equalityI) (simp_all add: nth_enumerate_eq)
  have "distinct (map fst (map (\<lambda>i. (Inl (of_nat i) :: hkey, vs ! i)) [0..<length vs]))"
    using distinct_int_keys[of "length vs"] assms(2) by (simp add: comp_def)
  then have "setType_array (store_list vs) = map (\<lambda>i. (Inl (of_nat i), vs ! i)) [0..<length vs]" "\<exists>xs. store_list vs = PhpArray xs"
    using list_store[of 0 vs PhpNull] assms unfolding store_list_def by (auto simp: e) (simp_all add: setType_array_def)
  then show ?thesis using setType_PhpArray by metis
qed

lemma dict_back:
  assumes "kvs \<noteq> []" "list_all (\<lambda>(k, v). norm_key k = k \<and> clean_str api (DecodeUTF8 api) (key_str k)) kvs" "distinct (map fst kvs)"
  shows "store_dict api (map (\<lambda>(k, v). (PyUnicode (DecodeUTF8 api (key_str k)), v)) kvs) = PhpArray kvs"
  using dict_store[OF assms(2), of PhpNull] assms(1,3) unfolding store_dict_def by (auto simp: setType_array_def)

lemma list_forth:
  assumes "map fst kvs = map (\<lambda>i. Inl (of_nat i)) [0..<length kvs]" "length kvs < 2 ^ 31"
  shows "convertPhpArrayToPyList (map (\<lambda>(k, v). (k, Inr v)) kvs) = Inr (PyList (map snd kvs))"
proof -
  let ?rs = "map (\<lambda>(k, v). (k, Inr v :: string + ('a, 'b) pyobj)) kvs"
  have d: "distinct (map fst ?rs)" using distinct_int_keys[of "length kvs"] assms by (simp add: comp_def case_prod_beta)
  have "map_of ?rs (Inl (int_index i)) = Some (Inr (snd (kvs ! i)))" if "i < length kvs" for i
  proof -
    have "fst (kvs ! i) = Inl (of_nat i)" using arg_cong[OF assms(1), of "\<lambda>l. l ! i"] that by simp
    then have "(Inl (int_index i), Inr (snd (kvs ! i))) \<in> set ?rs" using that assms(2) int_index_small[of i]
      by (auto simp: in_set_conv_nth case_prod_beta intro!: image_eqI[of _ _ "kvs ! i"])
    then show ?thesis using d by (rule map_of_is_SomeI[rotated])
  qed
  then have e: "map (\<lambda>i. case map_of ?rs (Inl (int_index i)) of None \<Rightarrow> Inl undefined_error | Some r \<Rightarrow> r) [0..<length ?rs]
      = map (\<lambda>i. Inr (snd (kvs ! i))) [0..<length kvs]" by (intro map_cong) auto
  have "map (\<lambda>i. snd (kvs ! i)) [0..<length kvs] = map snd kvs" by (rule nth_equalityI) simp_all
  then show ?thesis unfolding convertPhpArrayToPyList_def e gather_Inr by simp
qed

lemma distinct_PyUnicode: "distinct us \<Longrightarrow> distinct (map PyUnicode us)"
  by (induction us) auto

lemma dict_forth:
  fixes api :: "('f, 'u) py_api" and kvs :: "(hkey \<times> ('f, 'u) pyobj) list"
  assumes "list_all (\<lambda>(k, v). norm_key k = k \<and> clean_str api (DecodeUTF8 api) (key_str k)) kvs" "distinct (map fst kvs)"
  shows "convertPhpArrayToPyDict api (map (\<lambda>(k, v). (k, Inr v)) kvs) [] = Inr (PyDict (map (\<lambda>(k, v). (PyUnicode (DecodeUTF8 api (key_str k)), v)) kvs))"
proof -
  have "inj_on (\<lambda>k. DecodeUTF8 api (key_str k)) (fst ` set kvs)"
  proof (rule inj_onI)
    fix j k assume jk: "j \<in> fst ` set kvs" "k \<in> fst ` set kvs" "DecodeUTF8 api (key_str j) = DecodeUTF8 api (key_str k)"
    then have "norm_key j = j" "norm_key k = k" "AsUTF8 api (DecodeUTF8 api (key_str j)) = Some (key_str j)"
      "AsUTF8 api (DecodeUTF8 api (key_str k)) = Some (key_str k)"
      using assms(1) by (fastforce simp: list_all_iff clean_str_def)+
    then show "j = k" using jk(3) by (metis option.inject key_str_inj)
  qed
  then have "distinct (map (\<lambda>k. DecodeUTF8 api (key_str k)) (map fst kvs))"
    using assms(2) unfolding distinct_map[of "\<lambda>k. DecodeUTF8 api (key_str k)" "map fst kvs"] set_map by (rule conjI[rotated])
  then have "distinct (map PyUnicode (map (\<lambda>k. DecodeUTF8 api (key_str k)) (map fst kvs)) :: ('f, 'u) pyobj list)"
    by (rule distinct_PyUnicode)
  also have "map PyUnicode (map (\<lambda>k. DecodeUTF8 api (key_str k)) (map fst kvs))
      = map fst (map (\<lambda>(k, v). (PyUnicode (DecodeUTF8 api (key_str k)) :: ('f, 'u) pyobj, v)) kvs)" by auto
  finally have "distinct (map fst (map (\<lambda>(k, v). (PyUnicode (DecodeUTF8 api (key_str k)) :: ('f, 'u) pyobj, v)) kvs))" .
  then show ?thesis using dict_loop[of "[]" api kvs] by simp
qed

text \<open>
  A PHP value made of strings, numbers and non-empty arrays, lists or associative ones, comes
  back from Python as the same value with the same keys in the same order, except that
  integers come back as floats.
\<close>

lemma conversion_roundtrip:
  assumes "plain api v"
  shows "\<exists>obj. convertPhpValueToPyObject api v = Inr obj \<and> convertPyValue api obj = float_numbers api v \<and> convertPyValue_err api obj = id"
  using assms
proof (induction v)
  case (PhpNumeric w)
  then show ?case by (auto simp: fun_eq_iff)
next
  case (PhpString s)
  then have c: "CHR 0x00 \<notin> set s" "AsUTF8 api (DecodeFSDefault api s) = Some s" by (simp_all add: clean_str_def)
  then show ?case by (simp add: cstr_clean value_of_cstr_def utf8_err_def fun_eq_iff)
next
  case (PhpArray xs)
  have ne: "xs \<noteq> []" using PhpArray.prems by simp
  have IH: "\<exists>obj. convertPhpValueToPyObject api v = Inr obj \<and> convertPyValue api obj = float_numbers api v \<and> convertPyValue_err api obj = id"
    if "(k, v) \<in> set xs" for k v
  proof -
    have "plain api v" using PhpArray.prems that by (auto simp: list_all_iff)
    then show ?thesis using PhpArray.IH[OF that, of v] by (simp add: id_def)
  qed
  define out where "out v = (SOME obj. convertPhpValueToPyObject api v = Inr obj \<and> convertPyValue api obj = float_numbers api v \<and> convertPyValue_err api obj = id)" for v
  have o: "convertPhpValueToPyObject api v = Inr (out v)" "convertPyValue api (out v) = float_numbers api v" "convertPyValue_err api (out v) = id"
    if "(k, v) \<in> set xs" for k v
    using someI_ex[OF IH[OF that]] unfolding out_def by auto
  define kvs where "kvs = map (\<lambda>(k, v). (k, out v)) xs"
  have rs: "map (\<lambda>(k, v). (k, convertPhpValueToPyObject api v)) xs = map (\<lambda>(k, v). (k, Inr v)) kvs"
    unfolding kvs_def map_map using o(1) by (intro map_cong) auto
  have keys: "map fst kvs = map fst xs" by (auto simp: kvs_def)
  have err: "convertPyValue_err api v = id" if "(k, v) \<in> set kvs" for k v using that o(3) by (auto simp: kvs_def)
  have conv: "map (\<lambda>(k, v). (k, convertPyValue api v)) kvs = map (\<lambda>(k, v). (k, float_numbers api v)) xs"
    unfolding kvs_def map_map using o(2) by (intro map_cong) auto
  show ?case
  proof (cases "isAssociativeArray (PhpArray xs)")
    case True
    have a: "list_all (\<lambda>(k, v). norm_key k = k \<and> clean_str api (DecodeUTF8 api) (key_str k)) xs" "distinct (map fst xs)"
      using PhpArray.prems True by (auto simp: isAssociativeArray_iff)
    have ak: "list_all (\<lambda>(k, v). norm_key k = k \<and> clean_str api (DecodeUTF8 api) (key_str k)) kvs"
      using a(1) by (auto simp: kvs_def list_all_iff)
    let ?fs = "map (\<lambda>(k, v). (k, float_numbers api v)) xs"
    have af: "list_all (\<lambda>(k, v). norm_key k = k \<and> clean_str api (DecodeUTF8 api) (key_str k)) ?fs" "distinct (map fst ?fs)"
      using a by (auto simp: list_all_iff comp_def case_prod_beta)
    let ?obj = "PyDict (map (\<lambda>(k, v). (PyUnicode (DecodeUTF8 api (key_str k)), v)) kvs)"
    have "convertPhpValueToPyObject api (PhpArray xs) = Inr ?obj"
      using True ne rs dict_forth[OF ak] a(2) keys by (simp add: Let_def)
    moreover have e: "map (\<lambda>(k, v). (k, convertPyValue api v)) (map (\<lambda>(k, v). (PyUnicode (DecodeUTF8 api (key_str k)), v)) kvs)
        = map (\<lambda>(k, v). (PyUnicode (DecodeUTF8 api (key_str k)), v)) ?fs" unfolding conv[symmetric] by (simp add: comp_def case_prod_beta)
    moreover have "convertPyValue api ?obj = PhpArray ?fs"
      unfolding convertPyValue.simps e by (rule dict_back) (use af ne in simp_all)
    moreover have "convertPyValue_err api ?obj e = e" for e
    proof -
      have k: "utf8_err api (PyUnicode (DecodeUTF8 api (key_str k))) e = e" if "(k, v) \<in> set kvs" for k v e
        using ak that by (auto simp: list_all_iff clean_str_def utf8_err_def)
      show ?thesis unfolding convertPyValue_err.simps by (rule fold_same) (use k err in \<open>fastforce simp: case_prod_beta\<close>)
    qed
    ultimately show ?thesis by (intro exI[of _ ?obj] conjI) (simp_all add: fun_eq_iff)
  next
    case False
    then have l: "length xs < 2 ^ 31" "map fst xs = map (\<lambda>i. Inl (of_nat i)) [0..<length xs]" using PhpArray.prems by (auto simp: isAssociativeArray_iff)
    have len: "length kvs = length xs" by (simp add: kvs_def)
    have f: "convertPhpValueToPyObject api (PhpArray xs) = Inr (PyList (map snd kvs))"
      using False ne rs list_forth[of kvs] l keys len by (simp add: Let_def)
    have vs: "map (convertPyValue api) (map snd kvs) = map (\<lambda>(k, v). float_numbers api v) xs"
      using arg_cong[OF conv, of "map snd"] by (simp add: comp_def case_prod_beta)
    have "map (\<lambda>i. (Inl (of_nat i) :: hkey, map (\<lambda>(k, v). float_numbers api v) xs ! i)) [0..<length xs] = map (\<lambda>(k, v). (k, float_numbers api v)) xs"
    proof (rule nth_equalityI)
      fix i assume "i < length (map (\<lambda>i. (Inl (of_nat i) :: hkey, map (\<lambda>(k, v). float_numbers api v) xs ! i)) [0..<length xs])"
      then have i: "i < length xs" by simp
      have "fst (xs ! i) = Inl (of_nat i)" using arg_cong[OF l(2), of "\<lambda>l. l ! i"] i by simp
      then show "map (\<lambda>i. (Inl (of_nat i) :: hkey, map (\<lambda>(k, v). float_numbers api v) xs ! i)) [0..<length xs] ! i
          = map (\<lambda>(k, v). (k, float_numbers api v)) xs ! i" using i by (simp add: case_prod_beta)
    qed simp
    moreover have "convertPyValue_err api (PyList (map snd kvs)) e = e" for e
      unfolding convertPyValue_err.simps by (rule fold_same) (use err in auto)
    ultimately show ?thesis using f list_back[of "map (\<lambda>(k, v). float_numbers api v) xs"] ne l(1) vs by (simp add: fun_eq_iff)
  qed
qed simp_all


section \<open>Values that cannot be passed\<close>

text \<open>
  What a value must be to be accepted, in terms of PHP values only: an integer or a string, an
  array with at least one string key whose values are all accepted, or an array with integer
  keys only that has, for each number \<open>i\<close> below its size, an accepted value under the key
  that \<open>i\<close> is as a signed 32-bit integer.
\<close>

definition signed_32 :: "nat \<Rightarrow> int" where
  "signed_32 i = (int i + 2 ^ 31) mod 2 ^ 32 - 2 ^ 31"

lemma int_index_signed: "int_index i = of_int (signed_32 i)"
proof -
  have "sint (of_nat i :: u32) = signed_take_bit 31 (int i)" by (simp add: sint_sbintrunc' signed_of_nat)
  also have "\<dots> = signed_32 i" by (simp add: signed_take_bit_eq_take_bit_shift take_bit_eq_mod signed_32_def)
  finally show ?thesis by (simp add: int_index_def scast_eq)
qed

fun convertible :: "'f phpval \<Rightarrow> bool" where
  "convertible (PhpNumeric w) = True"
| "convertible (PhpString s) = True"
| "convertible (PhpArray xs) =
     (let cs = map (\<lambda>(k, v). (k, convertible v)) xs
      in if list_all isl (map fst xs) then list_all (\<lambda>i. map_of cs (Inl (of_int (signed_32 i))) = Some True) [0..<length xs]
         else list_all snd cs)"
| "convertible _ = False"

lemma gather_error:
  assumes "\<And>r. r \<in> set rs \<Longrightarrow> (\<exists>v. r = Inr v) \<or> r = Inl e"
  shows "(\<exists>vs. gather rs = Inr vs) \<and> list_all (\<lambda>r. r \<noteq> Inl e) rs \<or> gather rs = Inl e \<and> \<not> list_all (\<lambda>r. r \<noteq> Inl e) rs"
  using assms
proof (induction rs)
  case (Cons r rs)
  then show ?case using Cons.prems[of r] by (auto split: sum.splits)
qed simp

lemma dict_error:
  assumes "\<And>k r. (k, r) \<in> set rs \<Longrightarrow> (\<exists>v. r = Inr v) \<or> r = Inl e"
  shows "(\<exists>v. convertPhpArrayToPyDict api rs d = Inr v) \<and> list_all (\<lambda>(k, r). r \<noteq> Inl e) rs
    \<or> convertPhpArrayToPyDict api rs d = Inl e \<and> \<not> list_all (\<lambda>(k, r). r \<noteq> Inl e) rs"
  using assms
proof (induction rs arbitrary: d)
  case (Cons kr rs)
  obtain k r where kr: "kr = (k, r)" by (cases kr)
  have IH: "(\<exists>v. convertPhpArrayToPyDict api rs d = Inr v) \<and> list_all (\<lambda>(k, r). r \<noteq> Inl e) rs
    \<or> convertPhpArrayToPyDict api rs d = Inl e \<and> \<not> list_all (\<lambda>(k, r). r \<noteq> Inl e) rs" for d
    using Cons.IH Cons.prems by (meson list.set_intros(2))
  have "(\<exists>v. r = Inr v) \<or> r = Inl e" using Cons.prems kr by auto
  then show ?case using IH[of "alist_put (PyUnicode (DecodeUTF8 api (key_str k))) (projr r) d"] kr by auto
qed simp

lemma list_error:
  assumes "\<And>k r. (k, r) \<in> set rs \<Longrightarrow> (\<exists>v. r = Inr v) \<or> r = Inl undefined_error"
  shows "(\<exists>v. convertPhpArrayToPyList rs = Inr v)
      \<and> list_all (\<lambda>i. \<exists>v. map_of rs (Inl (int_index i)) = Some (Inr v)) [0..<length rs]
    \<or> convertPhpArrayToPyList rs = Inl undefined_error
      \<and> \<not> list_all (\<lambda>i. \<exists>v. map_of rs (Inl (int_index i)) = Some (Inr v)) [0..<length rs]"
proof -
  let ?r = "\<lambda>i. case map_of rs (Inl (int_index i)) of None \<Rightarrow> Inl undefined_error | Some r \<Rightarrow> r"
  have r: "(\<exists>v. ?r i = Inr v) \<or> ?r i = Inl undefined_error" for i
    using assms by (cases "map_of rs (Inl (int_index i))") (auto dest!: map_of_SomeD)
  have "list_all (\<lambda>r. r \<noteq> Inl undefined_error) (map ?r [0..<length rs])
      = list_all (\<lambda>i. \<exists>v. map_of rs (Inl (int_index i)) = Some (Inr v)) [0..<length rs]"
    unfolding list.pred_map comp_def
  proof (intro list.pred_cong refl)
    fix i
    show "(?r i \<noteq> Inl undefined_error) = (\<exists>v. map_of rs (Inl (int_index i)) = Some (Inr v))"
      using r[of i] by (cases "map_of rs (Inl (int_index i))") auto
  qed
  moreover have "(\<exists>vs. gather (map ?r [0..<length rs]) = Inr vs) \<and> list_all (\<lambda>r. r \<noteq> Inl undefined_error) (map ?r [0..<length rs])
      \<or> gather (map ?r [0..<length rs]) = Inl undefined_error \<and> \<not> list_all (\<lambda>r. r \<noteq> Inl undefined_error) (map ?r [0..<length rs])"
    by (rule gather_error) (use r in auto)
  ultimately show ?thesis unfolding convertPhpArrayToPyList_def by auto
qed

lemma conversion_total:
  "(\<exists>obj. convertPhpValueToPyObject api v = Inr obj) \<and> convertible v
    \<or> convertPhpValueToPyObject api v = Inl undefined_error \<and> \<not> convertible v"
proof (induction v)
  case (PhpArray xs)
  define rs where "rs = map (\<lambda>(k, v). (k, convertPhpValueToPyObject api v)) xs"
  define cs where "cs = map (\<lambda>(k, v). (k, convertible v)) xs"
  have IH: "(\<exists>obj. convertPhpValueToPyObject api v = Inr obj) \<and> convertible v
      \<or> convertPhpValueToPyObject api v = Inl undefined_error \<and> \<not> convertible v" if "(k, v) \<in> set xs" for k v
    using PhpArray.IH[OF that, of v] by simp
  then have ok: "(\<exists>v. r = Inr v) \<or> r = Inl undefined_error" if "(k, r) \<in> set rs" for k r
    using that unfolding rs_def by fastforce
  have all: "list_all (\<lambda>(k, r). r \<noteq> Inl undefined_error) rs = list_all snd cs"
    unfolding rs_def cs_def list_all_iff using IH by fastforce
  have "map_of cs k = map_option (\<lambda>r. r \<noteq> Inl undefined_error) (map_of rs k)" for k
    unfolding rs_def cs_def using IH by (induction xs) fastforce+
  then have look: "map_of cs k = Some True \<longleftrightarrow> (\<exists>v. map_of rs k = Some (Inr v))" for k
    using ok map_of_SomeD[of rs k] by (cases "map_of rs k") fastforce+
  show ?case
  proof (cases "xs = [] \<or> isAssociativeArray (PhpArray xs)")
    case True
    then show ?thesis using dict_error[of rs undefined_error api "[]"] ok all
      by (auto simp: Let_def isAssociativeArray_iff simp flip: rs_def cs_def)
  next
    case False
    have "length rs = length xs" by (simp add: rs_def)
    then show ?thesis using False list_error[of rs] ok look
      by (simp add: Let_def isAssociativeArray_iff int_index_signed flip: rs_def cs_def)
  qed
qed simp_all

text \<open>C15: a PHP value either becomes a Python object or is refused with the exception "Runtime
  error, variable undefined", and it is refused exactly when it is, or contains, a null, a
  boolean, a float or an object, or contains an array with
  integer keys only that lacks one of the indices below its size. (Indices are narrowed to
  signed 32-bit integers.)\<close>

theorem bridge_refuses_exactly:
  "(\<exists>obj. convertPhpValueToPyObject api v = Inr obj) = convertible v
    \<and> convertPhpValueToPyObject api v \<in> {Inl undefined_error} \<union> range Inr"
  using conversion_total[of api v] by auto

end
