(* ===== verification/DeepClientWrapper.thy ===== *)
theory DeepClientWrapper
  imports PyPhpBridge
begin

text \<open>
  The class \<open>DeepClientPhpWrapper\<close> (deep_client_php_wrapper.cpp): it imports the Python module
  once, keeps the token and the address, and passes each query to a function of the module.
  The Python interpreter is outside the program: it has an error indicator and a state \<open>'w\<close>,
  and the API functions that work on it are parameters. The module deep_client_interface.py
  is part of the program and is modelled as functions on such states.
\<close>

section \<open>The interpreter as the wrapper sees it\<close>

record 'w interp =
  py_err :: "py_exc option"
  py_state :: 'w

text \<open>
  The functions of the Python C API that the wrapper calls are parameters, on module objects
  \<open>'m\<close> and attribute objects \<open>'g\<close>. \<open>Py_BuildValue("s", ...)\<close> decodes UTF-8 strictly and gives
  \<open>NULL\<close> when that fails.
\<close>

record ('f, 'u, 'w, 'm, 'g) wrapper_api = "('f, 'u) py_api" +
  BuildValue_s :: "string \<Rightarrow> 'u option"
  print_value :: "'f phpval \<Rightarrow> string"
  PyObject_GetAttrString :: "'m \<Rightarrow> string \<Rightarrow> 'w interp \<Rightarrow> 'g option \<times> 'w interp"
  PyCallable_Check :: "'g \<Rightarrow> bool"
  PyObject_CallObject :: "'g \<Rightarrow> ('f, 'u) pyobj list \<Rightarrow> 'w interp \<Rightarrow> ('f, 'u) pyobj option \<times> 'w interp"
  PyErr_Print :: "'w interp \<Rightarrow> 'w interp"

text \<open>
  What their documentation says, as far as the wrapper relies on it. \<open>PyObject_GetAttrString\<close>
  returns the attribute; \<open>PyObject_CallObject\<close>, called with no exception pending, runs the
  function and returns its result, or \<open>NULL\<close> with the exception pending; \<open>PyErr_Print\<close>
  clears the error indicator. A call with an exception pending is left open.
\<close>

type_synonym ('f, 'u, 'w) pyfun = "('f, 'u) pyobj list \<Rightarrow> 'w \<Rightarrow> (py_exc + ('f, 'u) pyobj) \<times> 'w"

definition outcome :: "(py_exc + ('f, 'u) pyobj) \<times> 'w \<Rightarrow> 'w interp \<Rightarrow> ('f, 'u) pyobj option \<times> 'w interp" where
  "outcome r i =
     (case r of (Inl exc, w) \<Rightarrow> (None, i\<lparr>py_err := Some exc, py_state := w\<rparr>) | (Inr obj, w) \<Rightarrow> (Some obj, i\<lparr>py_state := w\<rparr>))"

definition provides :: "('f, 'u, 'w, 'm, 'g) wrapper_api \<Rightarrow> 'm \<Rightarrow> string \<Rightarrow> ('f, 'u, 'w) pyfun \<Rightarrow> bool" where
  "provides api m name f \<longleftrightarrow>
     (\<exists>g. PyCallable_Check api g \<and> (\<forall>i. PyObject_GetAttrString api m name i = (Some g, i))
       \<and> (\<forall>args i. py_err i = None \<longrightarrow> PyObject_CallObject api g args i = outcome (f args (py_state i)) i))"

definition print_clears :: "('f, 'u, 'w, 'm, 'g) wrapper_api \<Rightarrow> bool" where
  "print_clears api \<longleftrightarrow> (\<forall>i. py_err i \<noteq> None \<longrightarrow> py_err (PyErr_Print api i) = None)"

datatype wrapper_error = PhpException string | UndefinedBehaviour

definition getPythonErrorText :: "'w interp \<Rightarrow> string" where
  "getPythonErrorText i = (case py_err i of Some (Some text) \<Rightarrow> text | _ \<Rightarrow> ''Unknown runtime error'')"

section \<open>The class\<close>

record 'm DeepClientPhpWrapper =
  token :: string
  url :: string
  deepClientModule :: "'m option"

text \<open>The constructor of the C++ object; \<open>import_module\<close> is \<open>PyImport_ImportModule\<close> after \<open>Py_Initialize\<close>.\<close>

definition initializePython ::
  "('f, 'u, 'w, 'm, 'g) wrapper_api \<Rightarrow> ('w interp \<Rightarrow> 'm option \<times> 'w interp) \<Rightarrow> 'w interp
    \<Rightarrow> (wrapper_error + 'm DeepClientPhpWrapper) \<times> 'w interp" where
  "initializePython api import_module i =
     (case import_module i of
        (None, i) \<Rightarrow> (Inl (PhpException ''Failed to import required Python modules''), PyErr_Print api i)
      | (Some m, i) \<Rightarrow> (Inr \<lparr>token = [], url = [], deepClientModule = Some m\<rparr>, i))"

definition isNull :: "'f phpval \<Rightarrow> bool" where
  "isNull v = (case v of PhpNull \<Rightarrow> True | _ \<Rightarrow> False)"

text \<open>\<open>zval_get_string\<close>; \<open>print_value\<close> stands for the printing of doubles and objects.\<close>

definition stringValue :: "('f, 'u, 'w, 'm, 'g) wrapper_api \<Rightarrow> 'f phpval \<Rightarrow> string" where
  "stringValue api v =
     (case v of PhpString s \<Rightarrow> s | PhpNumeric w \<Rightarrow> ZSTR_VAL (zend_long_to_str w)
      | PhpBool b \<Rightarrow> (if b then ''1'' else []) | PhpArray _ \<Rightarrow> ''Array''
      | PhpFloat d \<Rightarrow> print_value api v | PhpObject \<Rightarrow> print_value api v | _ \<Rightarrow> [])"

definition wrapper_construct ::
  "('f, 'u, 'w, 'm, 'g) wrapper_api \<Rightarrow> 'f phpval list \<Rightarrow> 'm DeepClientPhpWrapper
    \<Rightarrow> wrapper_error + 'm DeepClientPhpWrapper" where
  "wrapper_construct api params this =
     (if length params < 2 \<or> isNull (params ! 0) \<or> isNull (params ! 1)
      then Inl (PhpException ''Both token and url are required.'')
      else Inr (this\<lparr>token := stringValue api (params ! 0), url := stringValue api (params ! 1)\<rparr>))"

text \<open>
  The arguments of the call. A token or address that is not UTF-8 puts a null pointer into
  \<open>PyTuple_Pack\<close>; a query that cannot be converted throws before the call.
\<close>

definition pack_args ::
  "('f, 'u, 'w, 'm, 'g) wrapper_api \<Rightarrow> 'm DeepClientPhpWrapper \<Rightarrow> 'f phpval \<Rightarrow> 'f phpval \<Rightarrow> wrapper_error + ('f, 'u) pyobj list" where
  "pack_args api this query query2 =
     (case convertPhpValueToPyObject (py_api.truncate api) query of
        Inl e \<Rightarrow> Inl (PhpException e)
      | Inr q \<Rightarrow>
          (case (if isNull query2 then Inr [] else map_sum id (\<lambda>q2. [q2]) (convertPhpValueToPyObject (py_api.truncate api) query2)) of
             Inl e \<Rightarrow> Inl (PhpException e)
           | Inr qs \<Rightarrow>
               (case (BuildValue_s api (cstr (token this)), BuildValue_s api (cstr (url this))) of
                  (Some t, Some u) \<Rightarrow> Inr (PyUnicode t # PyUnicode u # q # qs)
                | _ \<Rightarrow> Inl UndefinedBehaviour)))"

text \<open>The chain of type tests on the result; \<open>PyBool\<close> objects are caught by \<open>PyLong_Check\<close>.\<close>

definition convert_result ::
  "('f, 'u, 'w, 'm, 'g) wrapper_api \<Rightarrow> ('f, 'u) pyobj \<Rightarrow> 'w interp \<Rightarrow> (wrapper_error + 'f phpval) \<times> 'w interp" where
  "convert_result api r i =
     (case r of
        PyLong n \<Rightarrow> (Inr (PhpNumeric (PyLong_AsLong (py_api.truncate api) n)), i\<lparr>py_err := long_err (py_api.truncate api) n (py_err i)\<rparr>)
      | PyBool b \<Rightarrow> (Inr (PhpNumeric (if b then 1 else 0)), i)
      | PyFloat d \<Rightarrow> (Inr (PhpFloat d), i)
      | PyUnicode u \<Rightarrow>
          (Inl (case AsUTF8 api u of None \<Rightarrow> UndefinedBehaviour | Some s \<Rightarrow> PhpException (cstr s)),
           i\<lparr>py_err := utf8_err (py_api.truncate api) (PyUnicode u) (py_err i)\<rparr>)
      | PyList xs \<Rightarrow> (case convertPyListToPhpArray (py_api.truncate api) xs (py_err i) of (v, e) \<Rightarrow> (Inr v, i\<lparr>py_err := e\<rparr>))
      | PyTuple \<Rightarrow> (Inr (PhpString ''Tuple''), i)
      | PyDict kvs \<Rightarrow> (case convertPyDictToPhpArray (py_api.truncate api) kvs (py_err i) of (v, e) \<Rightarrow> (Inr v, i\<lparr>py_err := e\<rparr>))
      | PySet \<Rightarrow> (Inr (PhpString ''Set''), i) | PyFrozenSet \<Rightarrow> (Inr (PhpString ''FrozenSet''), i)
      | PyBytes \<Rightarrow> (Inr (PhpString ''Bytes''), i) | PyByteArray \<Rightarrow> (Inr (PhpString ''ByteArray''), i)
      | PyMemoryView \<Rightarrow> (Inr (PhpString ''MemoryView''), i) | PyCallable \<Rightarrow> (Inr (PhpString ''Callable''), i)
      | PyOther \<Rightarrow> (Inl (PhpException (getPythonErrorText i)), i))"

definition call_python_function ::
  "('f, 'u, 'w, 'm, 'g) wrapper_api \<Rightarrow> 'm DeepClientPhpWrapper \<Rightarrow> string \<Rightarrow> 'f phpval \<Rightarrow> 'f phpval \<Rightarrow> 'w interp
    \<Rightarrow> (wrapper_error + 'f phpval) \<times> 'w interp" where
  "call_python_function api this function_name query query2 i =
     (case deepClientModule this of
        None \<Rightarrow> (Inl (PhpException ''Failed to import required Python modules''), i)
      | Some m \<Rightarrow>
          (case PyObject_GetAttrString api m function_name i of
             (pyFunc, i) \<Rightarrow>
               if pyFunc \<noteq> None \<and> PyCallable_Check api (the pyFunc) then
                 (case pack_args api this query query2 of
                    Inl e \<Rightarrow> (Inl e, i)
                  | Inr args \<Rightarrow>
                      (case PyObject_CallObject api (the pyFunc) args i of
                         (Some r, i) \<Rightarrow> convert_result api r i
                       | (None, i) \<Rightarrow> (let i = PyErr_Print api i in (Inl (PhpException (getPythonErrorText i)), i))))
               else (Inl (PhpException ''Failed to load required Python modules''), PyErr_Print api i)))"

text \<open>The methods; all but \<open>id\<close> pass one query.\<close>

definition wrapper_select where
  "wrapper_select api this query = call_python_function api this ''select'' query PhpNull"

definition wrapper_insert where
  "wrapper_insert api this query = call_python_function api this ''insert'' query PhpNull"

definition wrapper_update where
  "wrapper_update api this query = call_python_function api this ''update'' query PhpNull"

definition wrapper_deleteFunc where
  "wrapper_deleteFunc api this query = call_python_function api this ''delete'' query PhpNull"

definition wrapper_serial where
  "wrapper_serial api this query = call_python_function api this ''serial'' query PhpNull"

definition wrapper_id where
  "wrapper_id api this query query2 = call_python_function api this ''id'' query query2"

section \<open>The Python module\<close>

text \<open>
  deep_client_interface.py: one client is made from the first token and address and kept in a
  global variable; errors of the client's methods become strings. The client itself (the
  package \<open>deepclient\<close>) is the parameter \<open>client_method\<close>; it runs on a state \<open>'e\<close> and raises a
  connection error or another exception. \<open>no_options\<close> is the default argument \<open>{}\<close>.
\<close>

datatype client_error = ClientConnectorError | OtherError string

record ('f, 'u, 'e) client_env =
  client_method :: "string \<Rightarrow> 'u \<times> 'u \<Rightarrow> ('f, 'u) pyobj list \<Rightarrow> 'e \<Rightarrow> (client_error + ('f, 'u) pyobj) \<times> 'e"
  is_empty :: "'u \<Rightarrow> bool"
  str_literal :: "string \<Rightarrow> 'u"
  argument_error :: "string \<Rightarrow> string"

record ('u, 'e) client_state =
  global_deep_client :: "('u \<times> 'u) option"
  outside :: 'e

definition make_deep_client ::
  "('f, 'u, 'e) client_env \<Rightarrow> 'u \<Rightarrow> 'u \<Rightarrow> ('u, 'e) client_state \<Rightarrow> (py_exc + 'u \<times> 'u) \<times> ('u, 'e) client_state" where
  "make_deep_client env tok u w =
     (case global_deep_client w of
        Some c \<Rightarrow> (Inr c, w)
      | None \<Rightarrow>
          if is_empty env tok then (Inl (Some ''No token provided''), w)
          else if is_empty env u then (Inl (Some ''No url provided''), w)
          else (Inr (tok, u), w\<lparr>global_deep_client := Some (tok, u)\<rparr>))"

definition handle_error :: "client_error \<Rightarrow> string" where
  "handle_error e = (case e of ClientConnectorError \<Rightarrow> ''Cannot connect to host'' | OtherError s \<Rightarrow> s)"

definition execute_async ::
  "('f, 'u, 'e) client_env \<Rightarrow> string \<Rightarrow> 'u \<times> 'u \<Rightarrow> ('f, 'u) pyobj list \<Rightarrow> ('u, 'e) client_state
    \<Rightarrow> (py_exc + ('f, 'u) pyobj) \<times> ('u, 'e) client_state" where
  "execute_async env name c args w =
     (case client_method env name c args (outside w) of
        (Inl e, x) \<Rightarrow> (Inr (PyUnicode (str_literal env (handle_error e))), w\<lparr>outside := x\<rparr>)
      | (Inr r, x) \<Rightarrow> (Inr r, w\<lparr>outside := x\<rparr>))"

text \<open>
  The common body of the module's functions. \<open>required\<close> counts the parameters after the token
  and the address that have no default, \<open>defaults\<close> are the values of the others, and \<open>rest\<close>
  says that further arguments are accepted (\<open>*path\<close>).
\<close>

definition interface_function ::
  "('f, 'u, 'e) client_env \<Rightarrow> string \<Rightarrow> nat \<Rightarrow> ('f, 'u) pyobj list \<Rightarrow> bool \<Rightarrow> ('f, 'u) pyobj list \<Rightarrow> ('u, 'e) client_state
    \<Rightarrow> (py_exc + ('f, 'u) pyobj) \<times> ('u, 'e) client_state" where
  "interface_function env name required defaults rest args w =
     (case args of
        PyUnicode tok # PyUnicode u # exps \<Rightarrow>
          if length exps < required \<or> \<not> rest \<and> required + length defaults < length exps
          then (Inl (Some (argument_error env name)), w)
          else (case make_deep_client env tok u w of
                  (Inl exc, w) \<Rightarrow> (Inl exc, w)
                | (Inr c, w) \<Rightarrow> execute_async env name c (exps @ drop (length exps - required) defaults) w)
      | _ \<Rightarrow> (Inl (Some (argument_error env name)), w))"

text \<open>The functions the wrapper looks up.\<close>

definition deep_client_interface :: "('f, 'u, 'e) client_env \<Rightarrow> string \<Rightarrow> ('f, 'u, ('u, 'e) client_state) pyfun option" where
  "deep_client_interface env = map_of
     [(''select'', interface_function env ''select'' 1 [PyDict []] False),
      (''insert'', interface_function env ''insert'' 1 [PyDict []] False),
      (''update'', interface_function env ''update'' 2 [PyDict []] False),
      (''delete'', interface_function env ''delete'' 1 [PyDict []] False),
      (''serial'', interface_function env ''serial'' 1 [] False),
      (''id'', interface_function env ''id'' 1 [] True)]"

section \<open>What a caller sees\<close>

lemma print_text: "print_clears api \<Longrightarrow> py_err i \<noteq> None \<Longrightarrow> getPythonErrorText (PyErr_Print api i) = ''Unknown runtime error''"
  by (simp add: print_clears_def getPythonErrorText_def)

text \<open>A call of a function that the module provides.\<close>

lemma call_provided:
  assumes "deepClientModule this = Some m" "provides api m name f" "print_clears api" "py_err i = None"
  shows "call_python_function api this name query query2 i =
    (case pack_args api this query query2 of
       Inl e \<Rightarrow> (Inl e, i)
     | Inr args \<Rightarrow>
         (case f args (py_state i) of
            (Inl exc, w) \<Rightarrow> (Inl (PhpException ''Unknown runtime error''), PyErr_Print api (i\<lparr>py_err := Some exc, py_state := w\<rparr>))
          | (Inr r, w) \<Rightarrow> convert_result api r (i\<lparr>py_state := w\<rparr>)))"
proof -
  obtain g where g: "PyCallable_Check api g" "\<And>i. PyObject_GetAttrString api m name i = (Some g, i)"
      "\<And>args. PyObject_CallObject api g args i = outcome (f args (py_state i)) i"
    using assms(2,4) unfolding provides_def by blast
  show ?thesis using assms(1,3) g
    by (simp add: call_python_function_def outcome_def Let_def print_text split: sum.split prod.split)
qed

text \<open>The queries reach Python converted and after the token and the address.\<close>

lemma pack_args_one:
  assumes "BuildValue_s api (cstr (token this)) = Some t" "BuildValue_s api (cstr (url this)) = Some u"
    "convertPhpValueToPyObject (py_api.truncate api) query = Inr q"
  shows "pack_args api this query PhpNull = Inr [PyUnicode t, PyUnicode u, q]"
  using assms by (simp add: pack_args_def isNull_def)

lemma dict_object: "convertPhpArrayToPyDict api rs d = Inr q \<Longrightarrow> \<exists>e. q = PyDict e"
  by (induction api rs d rule: convertPhpArrayToPyDict.induct) (auto split: sum.splits)

lemma array_object:
  "convertPhpValueToPyObject api (PhpArray xs) = Inr q \<Longrightarrow> (\<exists>l. q = PyList l) \<or> (\<exists>d. q = PyDict d)"
  by (auto simp: Let_def convertPhpArrayToPyList_def dest: dict_object split: if_splits sum.splits)

text \<open>C14: an array passed to a Python function that returns its query comes back as the same array
  with the same keys in the same order, at every depth, with integers as floats, and no
  exception is left pending, for arrays that are built from integers, strings without null
  characters and non-empty arrays that either have exactly the keys 0, 1, 2 and so on in this
  order or have at least one string key, when the Python API encodes the strings and keys as it
  decoded them. (Arrays with other integer keys are refused or reordered, empty arrays become null.)\<close>

theorem wrapper_echo_roundtrip:
  assumes "deepClientModule this = Some m" "provides api m name f" "print_clears api" "py_err i = None"
    "BuildValue_s api (cstr (token this)) = Some t" "BuildValue_s api (cstr (url this)) = Some u"
    "plain (py_api.truncate api) (PhpArray xs)" "\<And>q w. f [PyUnicode t, PyUnicode u, q] w = (Inr q, w)"
  shows "call_python_function api this name (PhpArray xs) PhpNull i
    = (Inr (float_numbers (py_api.truncate api) (PhpArray xs)), i)"
proof -
  obtain q where q: "convertPhpValueToPyObject (py_api.truncate api) (PhpArray xs) = Inr q"
    "convertPyValue (py_api.truncate api) q = float_numbers (py_api.truncate api) (PhpArray xs)" "convertPyValue_err (py_api.truncate api) q = id"
    using conversion_roundtrip[OF assms(7)] by auto
  have "(\<exists>l. q = PyList l) \<or> (\<exists>d. q = PyDict d)" using q(1) by (rule array_object)
  then have "convert_result api q i = (Inr (float_numbers (py_api.truncate api) (PhpArray xs)), i)"
    using q(2,3) by (auto simp: convert_result_def convertPyListToPhpArray_def convertPyDictToPhpArray_def)
  then show ?thesis unfolding call_provided[OF assms(1-4)] pack_args_one[OF assms(5,6) q(1)] using assms(8) by simp
qed

text \<open>An interpreter for the examples: a module is a function from names to Python functions, and
  the API functions do what their documentation says.\<close>

definition sample_api :: "(int, string, 'w, string \<Rightarrow> (int, string, 'w) pyfun option, (int, string, 'w) pyfun) wrapper_api" where
  "sample_api = \<lparr>AsUTF8 = Some, DecodeUTF8 = id, DecodeFSDefault = id, AsLong = (\<lambda>n. if - (2 ^ 63) \<le> n \<and> n < 2 ^ 63 then Some (of_int n) else None),
     double_of = id, utf8_exc = (\<lambda>_. None), not_str_exc = None, overflow_exc = None, BuildValue_s = Some, print_value = (\<lambda>_. []),
     PyObject_GetAttrString = (\<lambda>m name i. case m name of None \<Rightarrow> (None, i\<lparr>py_err := Some (Some name)\<rparr>) | Some f \<Rightarrow> (Some f, i)),
     PyCallable_Check = (\<lambda>_. True), PyObject_CallObject = (\<lambda>f args i. outcome (f args (py_state i)) i), PyErr_Print = (\<lambda>i. i\<lparr>py_err := None\<rparr>)\<rparr>"

lemma sample_api_documented: "print_clears sample_api" "m name = Some f \<Longrightarrow> provides sample_api m name f"
  by (auto simp: print_clears_def provides_def sample_api_def)

lemma sample_api_values:
  "AsUTF8 sample_api = Some" "BuildValue_s sample_api = Some"
  "py_api.truncate sample_api = \<lparr>AsUTF8 = Some, DecodeUTF8 = id, DecodeFSDefault = id,
     AsLong = (\<lambda>n. if - (2 ^ 63) \<le> n \<and> n < 2 ^ 63 then Some (of_int n) else None), double_of = id, utf8_exc = (\<lambda>_. None), not_str_exc = None, overflow_exc = None\<rparr>"
  by (simp_all add: sample_api_def py_api.truncate_def)

theorem wrapper_echo_roundtrip_witness:
  "call_python_function sample_api \<lparr>token = ''t'', url = ''u'', deepClientModule = Some (\<lambda>_. Some (\<lambda>args w. (Inr (args ! 2), w)))\<rparr> ''select''
      (PhpArray [(Inr ''a'', PhpString ''b''), (Inl 7, PhpArray [(Inl 0, PhpNumeric 5)])]) PhpNull \<lparr>py_err = None, py_state = ()\<rparr>
    = (Inr (PhpArray [(Inr ''a'', PhpString ''b''), (Inl 7, PhpArray [(Inl 0, PhpFloat 5)])]), \<lparr>py_err = None, py_state = ()\<rparr>)"
proof -
  let ?f = "\<lambda>args w. (Inr (args ! 2), w)"
  have p: "plain (py_api.truncate sample_api) (PhpArray [(Inr ''a'', PhpString ''b''), (Inl 7, PhpArray [(Inl 0, PhpNumeric 5)])])"
    by (simp add: sample_api_values clean_str_def norm_key_def key_str_def symtable_key_def
      zend_handle_numeric_str_def schar_def zend_long_to_str_def char_of_def)
  have s: "provides sample_api (\<lambda>_. Some ?f) ''select'' ?f" by (rule sample_api_documented) simp
  show ?thesis
    using wrapper_echo_roundtrip[where this = "\<lparr>token = ''t'', url = ''u'', deepClientModule = Some (\<lambda>_. Some ?f)\<rparr>"
        and i = "\<lparr>py_err = None, py_state = ()\<rparr>", OF _ s sample_api_documented(1) _ _ _ p]
    by (simp add: sample_api_values cstr_def)
qed

text \<open>C16: what a failing call gives the PHP caller, when no Python exception is pending before it. When the query cannot be
  converted, Python is not called and the exception is the conversion's. When the Python function raises, the
  exception is "Unknown runtime error", whatever the text of the Python exception. When it
  returns a string, the exception is that string.\<close>

theorem wrapper_call_errors:
  assumes "deepClientModule this = Some m" "provides api m name f" "print_clears api" "py_err i = None"
    "BuildValue_s api (cstr (token this)) = Some t" "BuildValue_s api (cstr (url this)) = Some u"
  shows "case convertPhpValueToPyObject (py_api.truncate api) query of
      Inl e \<Rightarrow> \<not> convertible query \<and> call_python_function api this name query PhpNull i = (Inl (PhpException undefined_error), i)
    | Inr q \<Rightarrow>
        (case f [PyUnicode t, PyUnicode u, q] (py_state i) of
           (Inl exc, w) \<Rightarrow> call_python_function api this name query PhpNull i
             = (Inl (PhpException ''Unknown runtime error''), PyErr_Print api (i\<lparr>py_err := Some exc, py_state := w\<rparr>))
         | (Inr r, w) \<Rightarrow> \<forall>x s. r = PyUnicode x \<and> AsUTF8 api x = Some s \<longrightarrow>
             call_python_function api this name query PhpNull i = (Inl (PhpException (cstr s)), i\<lparr>py_state := w\<rparr>))"
proof (cases "convertPhpValueToPyObject (py_api.truncate api) query")
  case (Inl e)
  then show ?thesis using conversion_total[of "py_api.truncate api" query] unfolding call_provided[OF assms(1-4)]
    by (auto simp: pack_args_def)
next
  case (Inr q)
  have "AsUTF8 (py_api.truncate api) = AsUTF8 api" by (simp add: py_api.truncate_def)
  then show ?thesis using Inr unfolding call_provided[OF assms(1-4)] pack_args_one[OF assms(5,6) Inr]
    by (auto simp: convert_result_def utf8_err_def assms(4) split: prod.splits sum.splits)
qed

theorem wrapper_call_errors_witness:
  "call_python_function sample_api \<lparr>token = ''t'', url = ''u'', deepClientModule = Some (\<lambda>_. Some (\<lambda>args w. (Inl (Some ''no such link''), Suc w)))\<rparr> ''select''
      (PhpString ''q'') PhpNull \<lparr>py_err = None, py_state = 0\<rparr>
    = (Inl (PhpException ''Unknown runtime error''), \<lparr>py_err = None, py_state = 1\<rparr>)"
proof -
  let ?f = "\<lambda>args w. (Inl (Some ''no such link''), Suc w)"
  have s: "provides sample_api (\<lambda>_. Some ?f) ''select'' ?f" by (rule sample_api_documented) simp
  show ?thesis
    using wrapper_call_errors[where this = "\<lparr>token = ''t'', url = ''u'', deepClientModule = Some (\<lambda>_. Some ?f)\<rparr>" and query = "PhpString ''q''"
        and i = "\<lparr>py_err = None, py_state = 0\<rparr>", OF _ s sample_api_documented(1)]
    by (simp add: sample_api_values cstr_def) (simp add: sample_api_def)
qed

section \<open>The wrapper on the module\<close>

text \<open>The object Python returns for the outcome of a client method.\<close>

definition client_reply :: "('f, 'u, 'e) client_env \<Rightarrow> client_error + ('f, 'u) pyobj \<Rightarrow> ('f, 'u) pyobj" where
  "client_reply env r = (case r of Inl e \<Rightarrow> PyUnicode (str_literal env (handle_error e)) | Inr obj \<Rightarrow> obj)"

lemma execute_async_reply:
  "execute_async env name c args w =
     (Inr (client_reply env (fst (client_method env name c args (outside w)))),
      w\<lparr>outside := snd (client_method env name c args (outside w))\<rparr>)"
  by (simp add: execute_async_def client_reply_def split: prod.splits sum.splits)

definition provides_interface :: "('f, 'u, ('u, 'e) client_state, 'm, 'g) wrapper_api \<Rightarrow> 'm \<Rightarrow> ('f, 'u, 'e) client_env \<Rightarrow> bool" where
  "provides_interface api m env \<longleftrightarrow> (\<forall>name f. deep_client_interface env name = Some f \<longrightarrow> provides api m name f)"

text \<open>The client that serves a call: the kept one, or a new one for the token and the address.\<close>

definition serving_client :: "'u \<Rightarrow> 'u \<Rightarrow> ('u, 'e) client_state \<Rightarrow> 'u \<times> 'u" where
  "serving_client t u w = (case global_deep_client w of Some c \<Rightarrow> c | None \<Rightarrow> (t, u))"

lemma client_state_parts:
  fixes w :: "('u, 'e) client_state"
  shows "w\<lparr>global_deep_client := a, outside := b\<rparr> = \<lparr>global_deep_client = a, outside = b\<rparr>"
  by (cases w) simp

lemma make_deep_client_serving:
  assumes "global_deep_client w \<noteq> None \<or> \<not> is_empty env t \<and> \<not> is_empty env u"
  shows "make_deep_client env t u w = (Inr (serving_client t u w), w\<lparr>global_deep_client := Some (serving_client t u w)\<rparr>)"
  using assms by (cases w) (auto simp: make_deep_client_def serving_client_def split: option.split)

text \<open>C17: on the interface module, with no Python exception pending, \<open>update\<close> never reaches the client: the
  wrapper passes it one query and the Python function requires two, so every convertible query
  ends in the exception "Unknown runtime error", and the state of the module is not touched, whether a client is
  kept or not. Queries of \<open>select\<close>, \<open>insert\<close> and \<open>delete\<close> go, with empty options, to the client
  that is kept in the module, whatever token and address this wrapper has; only when none is
  kept, a client for this token and address is made and kept, provided both are not empty. The result is what
  \<open>convert_result\<close> makes of the client's reply or error text, with the exceptions that leaves pending.\<close>

theorem wrapper_client_shared:
  assumes "deepClientModule this = Some m" "provides_interface api m env" "print_clears api" "py_err i = None"
    "BuildValue_s api (cstr (token this)) = Some t" "BuildValue_s api (cstr (url this)) = Some u"
    "convertPhpValueToPyObject (py_api.truncate api) query = Inr q"
  defines "c \<equiv> serving_client t u (py_state i)"
  shows "wrapper_update api this query i
      = (Inl (PhpException ''Unknown runtime error''), PyErr_Print api (i\<lparr>py_err := Some (Some (argument_error env ''update''))\<rparr>))
    \<and> (global_deep_client (py_state i) \<noteq> None \<or> \<not> is_empty env t \<and> \<not> is_empty env u \<longrightarrow>
        (\<forall>(name, meth) \<in> {(''select'', wrapper_select), (''insert'', wrapper_insert), (''delete'', wrapper_deleteFunc)}.
           meth api this query i =
             convert_result api (client_reply env (fst (client_method env name c [q, PyDict []] (outside (py_state i)))))
               (i\<lparr>py_state := \<lparr>global_deep_client = Some c, outside = snd (client_method env name c [q, PyDict []] (outside (py_state i)))\<rparr>\<rparr>)))"
proof -
  have p: "provides api m name f" if "deep_client_interface env name = Some f" for name f
    using assms(2) that by (simp add: provides_interface_def)
  have call: "call_python_function api this name query PhpNull i =
      (case f [PyUnicode t, PyUnicode u, q] (py_state i) of
         (Inl exc, w) \<Rightarrow> (Inl (PhpException ''Unknown runtime error''), PyErr_Print api (i\<lparr>py_err := Some exc, py_state := w\<rparr>))
       | (Inr r, w) \<Rightarrow> convert_result api r (i\<lparr>py_state := w\<rparr>))"
    if "deep_client_interface env name = Some f" for name f
    unfolding call_provided[OF assms(1) p[OF that] assms(3,4)] pack_args_one[OF assms(5-7)] by simp
  have "wrapper_update api this query i
      = (Inl (PhpException ''Unknown runtime error''), PyErr_Print api (i\<lparr>py_err := Some (Some (argument_error env ''update''))\<rparr>))"
  proof -
    have f: "deep_client_interface env ''update'' = Some (interface_function env ''update'' 2 [PyDict []] False)" by (simp add: deep_client_interface_def)
    show ?thesis unfolding wrapper_update_def call[OF f] by (simp add: interface_function_def)
  qed
  moreover have "call_python_function api this name query PhpNull i =
      convert_result api (client_reply env (fst (client_method env name c [q, PyDict []] (outside (py_state i)))))
        (i\<lparr>py_state := \<lparr>global_deep_client = Some c, outside = snd (client_method env name c [q, PyDict []] (outside (py_state i)))\<rparr>\<rparr>)"
    if k: "global_deep_client (py_state i) \<noteq> None \<or> \<not> is_empty env t \<and> \<not> is_empty env u"
      and f: "deep_client_interface env name = Some (interface_function env name 1 [PyDict []] False)" for name
    unfolding call[OF f] using make_deep_client_serving[OF k] by (simp add: interface_function_def execute_async_reply c_def client_state_parts)
  ultimately show ?thesis
    by (simp add: wrapper_select_def wrapper_insert_def wrapper_deleteFunc_def deep_client_interface_def)
qed

theorem wrapper_client_shared_witness:
  "wrapper_select sample_api
      \<lparr>token = ''second'', url = ''u'', deepClientModule = Some (deep_client_interface
        \<lparr>client_method = \<lambda>name c args e. (Inr (PyList [PyUnicode (fst c)]), Suc e), is_empty = (=) [], str_literal = id, argument_error = id\<rparr>)\<rparr>
      (PhpString ''q'') \<lparr>py_err = None, py_state = \<lparr>global_deep_client = Some (''first'', ''u''), outside = 0\<rparr>\<rparr>
    = (Inr (PhpArray [(Inl 0, PhpString ''first'')]), \<lparr>py_err = None, py_state = \<lparr>global_deep_client = Some (''first'', ''u''), outside = 1\<rparr>\<rparr>)"
proof -
  let ?env = "\<lparr>client_method = \<lambda>name c args e. (Inr (PyList [PyUnicode (fst c)]), Suc e), is_empty = (=) [], str_literal = id, argument_error = id\<rparr>"
  have s: "provides_interface sample_api (deep_client_interface ?env) ?env"
    unfolding provides_interface_def using sample_api_documented(2) by blast
  show ?thesis
    using wrapper_client_shared[where this = "\<lparr>token = ''second'', url = ''u'', deepClientModule = Some (deep_client_interface ?env)\<rparr>" and query = "PhpString ''q''"
        and i = "\<lparr>py_err = None, py_state = \<lparr>global_deep_client = Some (''first'', ''u''), outside = 0\<rparr>\<rparr>", OF _ s sample_api_documented(1)]
    by (simp add: sample_api_values cstr_def convert_result_def client_reply_def serving_client_def convertPyListToPhpArray_def store_list_def set_index_def
      int_index_def setType_array_def value_of_cstr_def utf8_err_def)
qed

end
