(* ===== verification/PhpLevenshtein.thy ===== *)
theory PhpLevenshtein
  imports Prelude
begin

text \<open>
  The edit distance of ext/standard/levenshtein.c: two rows of a table of costs, kept as
  64-bit integers that are compared as signed ones, against edit scripts with integer costs.
\<close>

section \<open>The code\<close>

definition LEVENSHTEIN_MAX_LENGTH :: nat where
  "LEVENSHTEIN_MAX_LENGTH = 255"

text \<open>One cell of the new row: \<open>c0\<close> and the two comparisons.\<close>

definition lev_cell ::
  "zend_ulong \<Rightarrow> zend_ulong \<Rightarrow> zend_ulong \<Rightarrow> char \<Rightarrow> string \<Rightarrow> zend_ulong list \<Rightarrow> zend_ulong list \<Rightarrow> nat \<Rightarrow> zend_ulong" where
  "lev_cell cost_ins cost_rep cost_del a s2 p1 p2 i2 =
     (let c0 = p1 ! i2 + (if a = s2 ! i2 then 0 else cost_rep);
          c1 = p1 ! (i2 + 1) + cost_del;
          c0 = (if c1 <s c0 then c1 else c0);
          c2 = p2 ! i2 + cost_ins
      in if c2 <s c0 then c2 else c0)"

definition lev_row ::
  "zend_ulong \<Rightarrow> zend_ulong \<Rightarrow> zend_ulong \<Rightarrow> char \<Rightarrow> string \<Rightarrow> zend_ulong list \<Rightarrow> zend_ulong list \<Rightarrow> zend_ulong list" where
  "lev_row cost_ins cost_rep cost_del a s2 p1 p2 =
     fold (\<lambda>i2 p2. p2[i2 + 1 := lev_cell cost_ins cost_rep cost_del a s2 p1 p2 i2]) [0..<length s2]
       (p2[0 := p1 ! 0 + cost_del])"

text \<open>\<open>mem\<close> is the content of the memory for the second row, which is not initialised.\<close>

definition reference_levdist ::
  "(nat \<Rightarrow> zend_ulong) \<Rightarrow> string \<Rightarrow> string \<Rightarrow> zend_ulong \<Rightarrow> zend_ulong \<Rightarrow> zend_ulong \<Rightarrow> zend_ulong" where
  "reference_levdist mem s1 s2 cost_ins cost_rep cost_del =
     (let l1 = length s1; l2 = length s2
      in if l1 = 0 then of_nat l2 * cost_ins
         else if l2 = 0 then of_nat l1 * cost_del
         else if l1 > LEVENSHTEIN_MAX_LENGTH \<or> l2 > LEVENSHTEIN_MAX_LENGTH then - 1
         else let p1 = map (\<lambda>i2. of_nat i2 * cost_ins) [0..<l2 + 1];
                  p2 = map mem [0..<l2 + 1]
              in fst (fold (\<lambda>i1 (p1, p2). (lev_row cost_ins cost_rep cost_del (s1 ! i1) s2 p1 p2, p1)) [0..<l1] (p1, p2)) ! l2)"

text \<open>The PHP function: its three forms, the warnings it gives, and its result.\<close>

datatype lev_args =
    Lev2 string string
  | Lev5 string string zend_ulong zend_ulong zend_ulong
  | Lev3 string string string

definition custom_levdist :: "string list \<times> zend_ulong" where
  "custom_levdist = ([''The general Levenshtein support is not there yet''], - 1)"

definition levenshtein :: "(nat \<Rightarrow> zend_ulong) \<Rightarrow> lev_args \<Rightarrow> string list \<times> zend_ulong" where
  "levenshtein mem args =
     (let (ws, distance) =
        (case args of
           Lev2 str1 str2 \<Rightarrow> ([], reference_levdist mem str1 str2 1 1 1)
         | Lev5 str1 str2 cost_ins cost_rep cost_del \<Rightarrow> ([], reference_levdist mem str1 str2 cost_ins cost_rep cost_del)
         | Lev3 str1 str2 callback_name \<Rightarrow> custom_levdist)
      in if distance <s 0 \<and> (case args of Lev3 _ _ _ \<Rightarrow> False | _ \<Rightarrow> True) then (ws @ [''Argument string(s) too long''], distance)
         else (ws, distance))"

section \<open>Edit scripts\<close>

text \<open>
  \<open>edits ci cr cd s t c\<close>: some sequence of insertions, replacements of a character by a
  different one, and deletions turns \<open>s\<close> into \<open>t\<close> and costs \<open>c\<close>.
\<close>

inductive edits :: "int \<Rightarrow> int \<Rightarrow> int \<Rightarrow> string \<Rightarrow> string \<Rightarrow> int \<Rightarrow> bool" for ci cr cd where
  empty: "edits ci cr cd [] [] 0"
| keep: "edits ci cr cd s t c \<Longrightarrow> edits ci cr cd (s @ [x]) (t @ [x]) c"
| replace: "edits ci cr cd s t c \<Longrightarrow> x \<noteq> y \<Longrightarrow> edits ci cr cd (s @ [x]) (t @ [y]) (c + cr)"
| ins: "edits ci cr cd s t c \<Longrightarrow> edits ci cr cd s (t @ [y]) (c + ci)"
| del: "edits ci cr cd s t c \<Longrightarrow> edits ci cr cd (s @ [x]) t (c + cd)"

text \<open>The least cost, by recursion on the reversed strings.\<close>

fun least_cost :: "int \<Rightarrow> int \<Rightarrow> int \<Rightarrow> string \<Rightarrow> string \<Rightarrow> int" where
  "least_cost ci cr cd [] ys = int (length ys) * ci"
| "least_cost ci cr cd (x # xs) [] = least_cost ci cr cd xs [] + cd"
| "least_cost ci cr cd (x # xs) (y # ys) =
     min (min (least_cost ci cr cd xs ys + (if x = y then 0 else cr)) (least_cost ci cr cd xs (y # ys) + cd))
         (least_cost ci cr cd (x # xs) ys + ci)"

lemma least_cost_ins: "least_cost ci cr cd xs (y # ys) \<le> least_cost ci cr cd xs ys + ci"
  by (cases xs) (auto simp: algebra_simps)

lemma least_cost_del: "least_cost ci cr cd (x # xs) ys \<le> least_cost ci cr cd xs ys + cd"
  by (cases ys) auto

lemma least_cost_le: "edits ci cr cd s t c \<Longrightarrow> least_cost ci cr cd (rev s) (rev t) \<le> c"
proof (induction rule: edits.induct)
  case (ins s t c y)
  then show ?case using least_cost_ins[of ci cr cd "rev s" y "rev t"] by simp
next
  case (del s t c x)
  then show ?case using least_cost_del[of ci cr cd x "rev s" "rev t"] by simp
qed auto

lemma edits_insert_all: "edits ci cr cd [] ys (int (length ys) * ci)"
proof (induction ys rule: rev_induct)
  case (snoc y ys)
  then show ?case using edits.ins[OF snoc, of y] by (simp add: algebra_simps)
qed (simp add: edits.empty)

lemma least_cost_edits: "edits ci cr cd (rev xs) (rev ys) (least_cost ci cr cd xs ys)"
proof (induction ci cr cd xs ys rule: least_cost.induct)
  case (1 ci cr cd ys)
  show ?case using edits_insert_all[of ci cr cd "rev ys"] by simp
next
  case (2 ci cr cd x xs)
  then show ?case using edits.del by fastforce
next
  case (3 ci cr cd x xs y ys)
  have "edits ci cr cd (rev xs @ [x]) (rev ys @ [y]) (least_cost ci cr cd xs ys + (if x = y then 0 else cr))"
    using 3(1) edits.keep edits.replace by (cases "x = y") auto
  moreover have "edits ci cr cd (rev xs @ [x]) (rev ys @ [y]) (least_cost ci cr cd xs (y # ys) + cd)" using edits.del[OF 3(2)] by simp
  moreover have "edits ci cr cd (rev xs @ [x]) (rev ys @ [y]) (least_cost ci cr cd (x # xs) ys + ci)" using edits.ins[OF 3(3)] by simp
  ultimately show ?case by (simp add: min_def)
qed

section \<open>The table holds the least costs\<close>

text \<open>The costs stay far from the ends of the 64-bit range.\<close>

lemma least_cost_bound:
  assumes "\<bar>ci\<bar> \<le> m" "\<bar>cr\<bar> \<le> m" "\<bar>cd\<bar> \<le> m"
  shows "\<bar>least_cost ci cr cd xs ys\<bar> \<le> int (length xs + length ys) * m"
  using assms
proof (induction ci cr cd xs ys rule: least_cost.induct)
  case (1 ci cr cd ys)
  then show ?case by (simp add: abs_mult mult_left_mono)
next
  case (2 ci cr cd x xs)
  then show ?case by (auto simp: algebra_simps)
next
  case (3 ci cr cd x xs y ys)
  let ?k = "int (length xs + length ys) * m"
  have "0 \<le> m" using 3(4) by simp
  moreover have "\<bar>least_cost ci cr cd xs ys\<bar> \<le> ?k" "\<bar>least_cost ci cr cd xs (y # ys)\<bar> \<le> ?k + m"
    "\<bar>least_cost ci cr cd (x # xs) ys\<bar> \<le> ?k + m"
    using 3 by (auto simp: algebra_simps)
  moreover have "int (length (x # xs) + length (y # ys)) * m = ?k + 2 * m" by (simp add: algebra_simps)
  ultimately show ?case using 3(4-6) unfolding least_cost.simps min_def by (auto split: if_splits)
qed

lemma sint_of_int_small: "\<bar>x\<bar> < 2 ^ 63 \<Longrightarrow> sint (of_int x :: zend_ulong) = x"
  by (simp add: signed_of_int signed_take_bit_int_eq_self)

text \<open>The cell computes the recursion on the least costs of the prefixes.\<close>

lemma lev_cell_least:
  fixes ci cr cd :: zend_ulong
  assumes m: "\<bar>sint ci\<bar> \<le> 2 ^ 53" "\<bar>sint cr\<bar> \<le> 2 ^ 53" "\<bar>sint cd\<bar> \<le> 2 ^ 53" and l: "length xs + length ys \<le> 510"
    and p: "p1 ! j = of_int (least_cost (sint ci) (sint cr) (sint cd) xs ys)"
      "p1 ! (j + 1) = of_int (least_cost (sint ci) (sint cr) (sint cd) xs (b # ys))"
      "p2 ! j = of_int (least_cost (sint ci) (sint cr) (sint cd) (a # xs) ys)" "t ! j = b"
  shows "lev_cell ci cr cd a t p1 p2 j = of_int (least_cost (sint ci) (sint cr) (sint cd) (a # xs) (b # ys))"
proof -
  let ?l = "least_cost (sint ci) (sint cr) (sint cd)"
  have "int (length xs + length ys) * 2 ^ 53 \<le> 510 * 2 ^ 53" using l by simp
  then have b: "\<bar>?l xs ys\<bar> \<le> 510 * 2 ^ 53" "\<bar>?l xs (b # ys)\<bar> \<le> 511 * 2 ^ 53" "\<bar>?l (a # xs) ys\<bar> \<le> 511 * 2 ^ 53"
    using least_cost_bound[OF m, of xs ys] least_cost_bound[OF m, of xs "b # ys"] least_cost_bound[OF m, of "a # xs" ys] by auto
  have w: "of_int x + k = of_int (x + sint k)" for x :: int and k :: zend_ulong by simp
  have z: "(if a = b then 0 else cr) = of_int (if a = b then 0 else sint cr)" by simp
  define u v w where "u = ?l xs ys + (if a = b then 0 else sint cr)" and "v = ?l xs (b # ys) + sint cd" and "w = ?l (a # xs) ys + sint ci"
  have "\<bar>u\<bar> < 2 ^ 63" "\<bar>v\<bar> < 2 ^ 63" "\<bar>w\<bar> < 2 ^ 63" using b m unfolding u_def v_def w_def by (auto split: if_splits)
  then have s: "sint (of_int u :: zend_ulong) = u" "sint (of_int v :: zend_ulong) = v" "sint (of_int w :: zend_ulong) = w"
    by (simp_all add: sint_of_int_small)
  have "p1 ! j + (if a = t ! j then 0 else cr) = of_int u" "p1 ! (j + 1) + cd = of_int v" "p2 ! j + ci = of_int w"
    using p by (simp_all add: u_def v_def w_def)
  then have "lev_cell ci cr cd a t p1 p2 j = of_int (min (min u v) w)"
    unfolding lev_cell_def Let_def by (auto simp: word_sless_alt s min_def)
  then show ?thesis by (simp add: u_def v_def w_def)
qed

text \<open>Row \<open>i\<close> of the table.\<close>

definition cost_row :: "zend_ulong \<Rightarrow> zend_ulong \<Rightarrow> zend_ulong \<Rightarrow> string \<Rightarrow> string \<Rightarrow> nat \<Rightarrow> zend_ulong list" where
  "cost_row ci cr cd s t i =
     map (\<lambda>j. of_int (least_cost (sint ci) (sint cr) (sint cd) (rev (take i s)) (rev (take j t)))) [0..<length t + 1]"

lemma length_cost_row [simp]: "length (cost_row ci cr cd s t i) = length t + 1"
  by (simp add: cost_row_def)

lemma cost_row_nth:
  "j \<le> length t \<Longrightarrow> cost_row ci cr cd s t i ! j = of_int (least_cost (sint ci) (sint cr) (sint cd) (rev (take i s)) (rev (take j t)))"
  unfolding cost_row_def by (subst nth_map) (simp_all del: upt_Suc)

lemma rev_take_Suc: "i < length s \<Longrightarrow> rev (take (Suc i) s) = s ! i # rev (take i s)"
  by (simp add: take_Suc_conv_app_nth)

lemma lev_row_step:
  assumes m: "\<bar>sint ci\<bar> \<le> 2 ^ 53" "\<bar>sint cr\<bar> \<le> 2 ^ 53" "\<bar>sint cd\<bar> \<le> 2 ^ 53"
    and l: "i < length s" "length s \<le> 255" "length t \<le> 255" "length p2 = length t + 1"
  shows "lev_row ci cr cd (s ! i) t (cost_row ci cr cd s t i) p2 = cost_row ci cr cd s t (Suc i)"
proof -
  let ?f = "\<lambda>j p2. p2[j + 1 := lev_cell ci cr cd (s ! i) t (cost_row ci cr cd s t i) p2 j]"
  let ?p = "p2[0 := cost_row ci cr cd s t i ! 0 + cd]"
  have row: "length (fold ?f [0..<n] ?p) = length t + 1 \<and> (\<forall>j \<le> n. fold ?f [0..<n] ?p ! j = cost_row ci cr cd s t (Suc i) ! j)"
    if "n \<le> length t" for n
    using that
  proof (induction n)
    case 0
    then show ?case using l by (simp add: cost_row_nth rev_take_Suc)
  next
    case (Suc n)
    let ?q = "fold ?f [0..<n] ?p"
    have q: "length ?q = length t + 1" "\<And>j. j \<le> n \<Longrightarrow> ?q ! j = cost_row ci cr cd s t (Suc i) ! j" using Suc by auto
    have "lev_cell ci cr cd (s ! i) t (cost_row ci cr cd s t i) ?q n
        = of_int (least_cost (sint ci) (sint cr) (sint cd) (s ! i # rev (take i s)) (t ! n # rev (take n t)))"
      by (rule lev_cell_least[OF m]) (use l q Suc.prems in \<open>simp_all add: cost_row_nth rev_take_Suc\<close>)
    also have "\<dots> = cost_row ci cr cd s t (Suc i) ! Suc n" using l(1) Suc.prems by (simp add: cost_row_nth rev_take_Suc)
    finally show ?case using q Suc.prems by (auto simp: nth_list_update le_Suc_eq)
  qed
  show ?thesis unfolding lev_row_def using row[of "length t"] by (intro nth_equalityI) auto
qed

lemma lev_rows:
  assumes m: "\<bar>sint ci\<bar> \<le> 2 ^ 53" "\<bar>sint cr\<bar> \<le> 2 ^ 53" "\<bar>sint cd\<bar> \<le> 2 ^ 53"
    and l: "length s \<le> 255" "length t \<le> 255" "length p2 = length t + 1" "n \<le> length s"
  shows "\<exists>q. length q = length t + 1 \<and> fold (\<lambda>i (p1, p2). (lev_row ci cr cd (s ! i) t p1 p2, p1)) [0..<n] (cost_row ci cr cd s t 0, p2)
    = (cost_row ci cr cd s t n, q)"
  using l(4)
proof (induction n)
  case 0
  then show ?case using l(3) by auto
next
  case (Suc n)
  then show ?case using lev_row_step[OF m _ l(1,2)] by fastforce
qed

text \<open>The shortcuts for an empty string agree with the recursion.\<close>

lemma least_cost_Nil2: "least_cost ci cr cd xs [] = int (length xs) * cd"
  by (induction xs) (auto simp: algebra_simps)

lemma levdist_least_cost:
  assumes m: "\<bar>sint ci\<bar> \<le> 2 ^ 53" "\<bar>sint cr\<bar> \<le> 2 ^ 53" "\<bar>sint cd\<bar> \<le> 2 ^ 53" and l: "length s \<le> 255" "length t \<le> 255"
  shows "reference_levdist mem s t ci cr cd = of_int (least_cost (sint ci) (sint cr) (sint cd) (rev s) (rev t))"
proof (cases "s = [] \<or> t = []")
  case True
  then show ?thesis by (auto simp: reference_levdist_def Let_def least_cost_Nil2)
next
  case False
  have "map (\<lambda>j. of_nat j * ci) [0..<length t + 1] = cost_row ci cr cd s t 0"
    by (rule nth_equalityI) (auto simp: cost_row_nth simp del: upt_Suc)
  moreover obtain q where "fold (\<lambda>i (p1, p2). (lev_row ci cr cd (s ! i) t p1 p2, p1)) [0..<length s]
      (cost_row ci cr cd s t 0, map mem [0..<length t + 1]) = (cost_row ci cr cd s t (length s), q)"
    using lev_rows[OF m l, of "map mem [0..<length t + 1]" "length s"] by auto
  ultimately show ?thesis using False l
    by (simp add: reference_levdist_def Let_def LEVENSHTEIN_MAX_LENGTH_def cost_row_nth del: upt_Suc)
qed

text \<open>C38: for strings of up to 255 characters and costs of absolute value up to \<open>2 ^ 53\<close>,
  \<open>reference_levdist\<close> returns the cost of some edit script from the first string to the
  second, and no edit script is cheaper. The content of the uninitialised memory does not matter.\<close>

theorem levenshtein_minimal:
  assumes "\<bar>sint ci\<bar> \<le> 2 ^ 53" "\<bar>sint cr\<bar> \<le> 2 ^ 53" "\<bar>sint cd\<bar> \<le> 2 ^ 53" "length s \<le> 255" "length t \<le> 255"
  shows "edits (sint ci) (sint cr) (sint cd) s t (sint (reference_levdist mem s t ci cr cd))
    \<and> (\<forall>c. edits (sint ci) (sint cr) (sint cd) s t c \<longrightarrow> sint (reference_levdist mem s t ci cr cd) \<le> c)"
proof -
  let ?l = "least_cost (sint ci) (sint cr) (sint cd) (rev s) (rev t)"
  have "\<bar>?l\<bar> \<le> int (length (rev s) + length (rev t)) * 2 ^ 53" by (rule least_cost_bound[OF assms(1-3)])
  also have "\<dots> \<le> 510 * 2 ^ 53" using assms(4,5) by simp
  finally have "sint (reference_levdist mem s t ci cr cd) = ?l"
    unfolding levdist_least_cost[OF assms] by (intro sint_of_int_small) simp
  then show ?thesis using least_cost_edits[of "sint ci" "sint cr" "sint cd" "rev s" "rev t"] least_cost_le by auto
qed

theorem levenshtein_minimal_witness:
  "edits 1 3 1 ''cat'' ''cup'' 4 \<and> \<not> edits 1 3 1 ''cat'' ''cup'' 3"
proof -
  have "reference_levdist (\<lambda>_. 0) ''cat'' ''cup'' 1 3 1 = 4" by (simp add: levdist_least_cost)
  then show ?thesis using levenshtein_minimal[of 1 3 1 "''cat''" "''cup''" "\<lambda>_. 0"] by fastforce
qed

end
