(* ===== verification/PhpCalBase.thy ===== *)
theory PhpCalBase
  imports Prelude
begin

text \<open>
  What the calendars share: dates, the narrowing of integers to \<open>int\<close>, and the contract of a
  calendar.
\<close>

type_synonym date = "int \<times> int \<times> int"

definition c_int :: "int \<Rightarrow> int" where
  "c_int x = signed_take_bit 31 x"

lemma c_int_id: "- (2 ^ 31) \<le> x \<Longrightarrow> x < 2 ^ 31 \<Longrightarrow> c_int x = x"
  unfolding c_int_def by (rule signed_take_bit_int_eq_self) simp_all

text \<open>
  What a calendar promises on the day numbers from \<open>first\<close> to \<open>last\<close>: the next day number has
  the next date, and a date leads back to its day number.
\<close>

locale calendar =
  fixes to_date :: "int \<Rightarrow> date" and of_date :: "int \<Rightarrow> int \<Rightarrow> int \<Rightarrow> int" and succ_day :: "date \<Rightarrow> date" and first last :: int
  assumes advance: "first \<le> s \<Longrightarrow> s < last \<Longrightarrow> to_date (s + 1) = succ_day (to_date s)"
    and recover: "first \<le> s \<Longrightarrow> s \<le> last \<Longrightarrow> (case to_date s of (y, m, d) \<Rightarrow> of_date y m d) = s"
begin

lemma advance_by: "first \<le> s \<Longrightarrow> s + int n \<le> last \<Longrightarrow> to_date (s + int n) = (succ_day ^^ n) (to_date s)"
proof (induction n)
  case (Suc n)
  have "to_date (s + int n + 1) = succ_day (to_date (s + int n))" by (rule advance) (use Suc.prems in simp_all)
  then have "to_date (s + int (Suc n)) = succ_day (to_date (s + int n))" by (simp add: ac_simps)
  then show ?case using Suc by simp
qed simp

lemma dates_distinct: "first \<le> s \<Longrightarrow> s \<le> last \<Longrightarrow> first \<le> t \<Longrightarrow> t \<le> last \<Longrightarrow> to_date s = to_date t \<Longrightarrow> s = t"
  using recover[of s] recover[of t] by metis

lemma days_between:
  assumes "first \<le> s" "s + int n \<le> last" "to_date s = (y, m, d)" "(succ_day ^^ n) (y, m, d) = (y', m', d')"
  shows "of_date y' m' d' - of_date y m d = int n"
proof -
  have "to_date (s + int n) = (y', m', d')" using advance_by[OF assms(1,2)] assms(3,4) by simp
  then show ?thesis using recover[of "s + int n"] recover[of s] assms by auto
qed

end

end
