(* ===== verification/PhpJewish.thy ===== *)
theory PhpJewish
  imports PhpCalBase
begin

text \<open>
  The Jewish calendar (ext/calendar/jewish.c): the new moon of Tishri, computed in parts of an
  hour (halakim), and the rules that postpone the first day of the year give the start of every
  year; the lengths of the months follow from the distance of two such days.
\<close>

unbundle bit_operations_syntax

section \<open>The code\<close>

definition HALAKIM_PER_DAY :: int where "HALAKIM_PER_DAY = 25920"

definition HALAKIM_PER_LUNAR_CYCLE :: int where "HALAKIM_PER_LUNAR_CYCLE = 29 * 25920 + 13753"

definition HALAKIM_PER_METONIC_CYCLE :: int where "HALAKIM_PER_METONIC_CYCLE = (29 * 25920 + 13753) * (12 * 19 + 7)"

definition JEWISH_SDN_OFFSET :: int where "JEWISH_SDN_OFFSET = 347997"

definition JEWISH_SDN_MAX :: int where "JEWISH_SDN_MAX = 324542846"

definition NEW_MOON_OF_CREATION :: int where "NEW_MOON_OF_CREATION = 31524"

definition NOON :: int where "NOON = 18 * 1080"

definition AM3_11_20 :: int where "AM3_11_20 = 9 * 1080 + 204"

definition AM9_32_43 :: int where "AM9_32_43 = 15 * 1080 + 589"

lemmas jewish_constants = HALAKIM_PER_DAY_def HALAKIM_PER_LUNAR_CYCLE_def HALAKIM_PER_METONIC_CYCLE_def
  JEWISH_SDN_OFFSET_def JEWISH_SDN_MAX_def NEW_MOON_OF_CREATION_def NOON_def AM3_11_20_def AM9_32_43_def

definition monthsPerYear :: "int list" where
  "monthsPerYear = [12, 12, 13, 12, 12, 13, 12, 13, 12, 12, 13, 12, 12, 13, 12, 12, 13, 12, 13]"

definition yearOffset :: "int list" where
  "yearOffset = [0, 12, 24, 37, 49, 61, 74, 86, 99, 111, 123, 136, 148, 160, 173, 185, 197, 210, 222]"

definition Tishri1 :: "int \<Rightarrow> int \<Rightarrow> int \<Rightarrow> int" where
  "Tishri1 metonicYear moladDay moladHalakim =
     (let tishri1 = moladDay;
          dow = tishri1 mod 7;
          leapYear = (metonicYear \<in> {2, 5, 7, 10, 13, 16, 18});
          lastWasLeapYear = (metonicYear \<in> {3, 6, 8, 11, 14, 17, 0});
          (tishri1, dow) =
            (if moladHalakim \<ge> NOON \<or> (\<not> leapYear \<and> dow = 2 \<and> moladHalakim \<ge> AM3_11_20)
                \<or> (lastWasLeapYear \<and> dow = 1 \<and> moladHalakim \<ge> AM9_32_43)
             then (tishri1 + 1, if dow + 1 = 7 then 0 else dow + 1) else (tishri1, dow))
      in if dow = 3 \<or> dow = 5 \<or> dow = 0 then tishri1 + 1 else tishri1)"

text \<open>
  A division of a 48-bit number in pieces of 16 bits, in unsigned 64-bit arithmetic; the
  products with \<open>metonicCycle\<close> are of type \<open>int\<close>.
\<close>

definition MoladOfMetonicCycle :: "int \<Rightarrow> int \<times> int" where
  "MoladOfMetonicCycle metonicCycle =
     (let r1 = NEW_MOON_OF_CREATION;
          r1 = take_bit 64 (r1 + c_int (metonicCycle * (HALAKIM_PER_METONIC_CYCLE AND 65535)));
          r2 = drop_bit 16 r1;
          r2 = take_bit 64 (r2 + c_int (metonicCycle * (drop_bit 16 HALAKIM_PER_METONIC_CYCLE AND 65535)));
          d2 = r2 div HALAKIM_PER_DAY;
          r2 = r2 - d2 * HALAKIM_PER_DAY;
          r1 = take_bit 64 (push_bit 16 r2) OR (r1 AND 65535);
          d1 = r1 div HALAKIM_PER_DAY;
          r1 = r1 - d1 * HALAKIM_PER_DAY
      in (take_bit 64 (push_bit 16 d2) OR d1, r1))"

text \<open>Adding a span of halakim to a molad.\<close>

definition add_halakim :: "int \<Rightarrow> int \<times> int \<Rightarrow> int \<times> int" where
  "add_halakim h = (\<lambda>(moladDay, moladHalakim).
     (moladDay + (moladHalakim + h) div HALAKIM_PER_DAY, (moladHalakim + h) mod HALAKIM_PER_DAY))"

text \<open>The two loops of \<open>FindTishriMolad\<close>.\<close>

function cycle_loop :: "int \<Rightarrow> int \<Rightarrow> int \<times> int \<Rightarrow> int \<times> int \<times> int" where
  "cycle_loop inputDay metonicCycle (moladDay, moladHalakim) =
     (if moladDay < inputDay - 6940 + 310
      then cycle_loop inputDay (metonicCycle + 1) (add_halakim HALAKIM_PER_METONIC_CYCLE (moladDay, moladHalakim))
      else (metonicCycle, moladDay, moladHalakim))"
  by pat_completeness auto

termination
proof (relation "measures [\<lambda>(_, _, (_, h)). if h < 0 then 1 else 0, \<lambda>(i, _, (d, _)). nat (i - 6630 - d)]")
  fix inputDay metonicCycle moladDay moladHalakim :: int
  assume "moladDay < inputDay - 6940 + 310"
  moreover have "0 \<le> moladHalakim \<Longrightarrow> (0 + 25920) div 25920 \<le> (moladHalakim + HALAKIM_PER_METONIC_CYCLE) div HALAKIM_PER_DAY"
    unfolding jewish_constants by (rule zdiv_mono1) simp_all
  ultimately show "((inputDay, metonicCycle + 1, add_halakim HALAKIM_PER_METONIC_CYCLE (moladDay, moladHalakim)),
      (inputDay, metonicCycle, (moladDay, moladHalakim)))
      \<in> measures [\<lambda>(_, _, (_, h)). if h < 0 then 1 else 0, \<lambda>(i, _, (d, _)). nat (i - 6630 - d)]"
    by (auto simp: add_halakim_def HALAKIM_PER_DAY_def)
qed simp

fun year_loop :: "nat \<Rightarrow> int \<Rightarrow> int \<Rightarrow> int \<times> int \<Rightarrow> int \<times> int \<times> int" where
  "year_loop 0 inputDay metonicYear (moladDay, moladHalakim) = (metonicYear, moladDay, moladHalakim)"
| "year_loop (Suc n) inputDay metonicYear (moladDay, moladHalakim) =
     (if moladDay > inputDay - 74 then (metonicYear, moladDay, moladHalakim)
      else year_loop n inputDay (metonicYear + 1)
        (add_halakim (HALAKIM_PER_LUNAR_CYCLE * monthsPerYear ! nat metonicYear) (moladDay, moladHalakim)))"

text \<open>The results are \<open>metonicCycle\<close>, \<open>metonicYear\<close>, \<open>moladDay\<close> and \<open>moladHalakim\<close>.\<close>

definition FindTishriMolad :: "int \<Rightarrow> int \<times> int \<times> int \<times> int" where
  "FindTishriMolad inputDay =
     (let metonicCycle = c_int ((inputDay + 310) div 6940);
          (metonicCycle, moladDay, moladHalakim) = cycle_loop inputDay metonicCycle (MoladOfMetonicCycle metonicCycle);
          (metonicYear, moladDay, moladHalakim) = year_loop 18 inputDay 0 (moladDay, moladHalakim)
      in (metonicCycle, metonicYear, moladDay, moladHalakim))"

text \<open>The results are \<open>metonicYear\<close>, \<open>moladDay\<close>, \<open>moladHalakim\<close> and \<open>tishri1\<close>.\<close>

definition FindStartOfYear :: "int \<Rightarrow> int \<times> int \<times> int \<times> int" where
  "FindStartOfYear year =
     (let metonicCycle = (year - 1) div 19; metonicYear = (year - 1) mod 19;
          (moladDay, moladHalakim) = add_halakim (HALAKIM_PER_LUNAR_CYCLE * yearOffset ! nat metonicYear) (MoladOfMetonicCycle metonicCycle)
      in (metonicYear, moladDay, moladHalakim, c_int (Tishri1 metonicYear moladDay moladHalakim)))"

text \<open>The end of \<open>SdnToJewish\<close>: Heshvan or Kislev, once the length of the year is known.\<close>

definition heshvan_kislev :: "int \<Rightarrow> int \<Rightarrow> int \<Rightarrow> int \<Rightarrow> date" where
  "heshvan_kislev year inputDay tishri1 tishri1After =
     (let yearLength = tishri1After - tishri1;
          day = inputDay - tishri1 - 29
      in if yearLength = 355 \<or> yearLength = 385
         then (if day \<le> 30 then (year, 2, day) else (year, 3, day - 30))
         else (if day \<le> 29 then (year, 2, day) else (year, 3, day - 29)))"

definition SdnToJewish :: "int \<Rightarrow> date" where
  "SdnToJewish sdn =
     (if sdn \<le> JEWISH_SDN_OFFSET \<or> sdn > JEWISH_SDN_MAX then (0, 0, 0)
      else
        let inputDay = sdn - JEWISH_SDN_OFFSET;
            (metonicCycle, metonicYear, day, halakim) = FindTishriMolad inputDay;
            tishri1 = c_int (Tishri1 metonicYear day halakim)
        in if inputDay \<ge> tishri1 then
             let year = metonicCycle * 19 + metonicYear + 1
             in if inputDay < tishri1 + 59 then
                  (if inputDay < tishri1 + 30 then (year, 1, inputDay - tishri1 + 1) else (year, 2, inputDay - tishri1 - 29))
                else
                  let (day, halakim) = add_halakim (HALAKIM_PER_LUNAR_CYCLE * monthsPerYear ! nat metonicYear) (day, halakim);
                      tishri1After = c_int (Tishri1 ((metonicYear + 1) mod 19) day halakim)
                  in heshvan_kislev year inputDay tishri1 tishri1After
           else
             let year = metonicCycle * 19 + metonicYear
             in if inputDay \<ge> tishri1 - 177 then
                  (if inputDay > tishri1 - 30 then (year, 13, inputDay - tishri1 + 30)
                   else if inputDay > tishri1 - 60 then (year, 12, inputDay - tishri1 + 60)
                   else if inputDay > tishri1 - 89 then (year, 11, inputDay - tishri1 + 89)
                   else if inputDay > tishri1 - 119 then (year, 10, inputDay - tishri1 + 119)
                   else if inputDay > tishri1 - 148 then (year, 9, inputDay - tishri1 + 148)
                   else (year, 8, inputDay - tishri1 + 178))
                else
                  let d7 = inputDay - tishri1 + 207;
                      leap = (monthsPerYear ! nat ((year - 1) mod 19) = 13);
                      d6 = d7 + 30;
                      d5 = (if leap then d6 + 30 else d7 + 30);
                      d4 = d5 + 29
                  in if d7 > 0 then (year, 7, d7)
                     else if leap \<and> d6 > 0 then (year, 6, d6)
                     else if d5 > 0 then (year, 5, d5)
                     else if d4 > 0 then (year, 4, d4)
                     else
                       let tishri1After = tishri1;
                           (metonicCycle, metonicYear, day, halakim) = FindTishriMolad (day - 365);
                           tishri1 = c_int (Tishri1 metonicYear day halakim)
                       in heshvan_kislev year inputDay tishri1 tishri1After)"

definition JewishToSdn :: "int \<Rightarrow> int \<Rightarrow> int \<Rightarrow> int" where
  "JewishToSdn year month day =
     (if year \<le> 0 \<or> day \<le> 0 \<or> day > 30 then 0
      else if month = 1 \<or> month = 2 then
        let (metonicYear, moladDay, moladHalakim, tishri1) = FindStartOfYear year
        in (if month = 1 then tishri1 + day - 1 else tishri1 + day + 29) + JEWISH_SDN_OFFSET
      else if month = 3 then
        let (metonicYear, moladDay, moladHalakim, tishri1) = FindStartOfYear year;
            (moladDay, moladHalakim) = add_halakim (HALAKIM_PER_LUNAR_CYCLE * monthsPerYear ! nat metonicYear) (moladDay, moladHalakim);
            tishri1After = c_int (Tishri1 ((metonicYear + 1) mod 19) moladDay moladHalakim);
            yearLength = tishri1After - tishri1
        in (if yearLength = 355 \<or> yearLength = 385 then tishri1 + day + 59 else tishri1 + day + 58) + JEWISH_SDN_OFFSET
      else if month = 4 \<or> month = 5 \<or> month = 6 then
        let (_, _, _, tishri1After) = FindStartOfYear (c_int (year + 1));
            lengthOfAdarIAndII = (if monthsPerYear ! nat ((year - 1) mod 19) = 12 then 29 else 59)
        in (if month = 4 then tishri1After + day - lengthOfAdarIAndII - 237
            else if month = 5 then tishri1After + day - lengthOfAdarIAndII - 208
            else tishri1After + day - lengthOfAdarIAndII - 178) + JEWISH_SDN_OFFSET
      else
        let (_, _, _, tishri1After) = FindStartOfYear (c_int (year + 1))
        in if month = 7 then tishri1After + day - 207 + JEWISH_SDN_OFFSET
           else if month = 8 then tishri1After + day - 178 + JEWISH_SDN_OFFSET
           else if month = 9 then tishri1After + day - 148 + JEWISH_SDN_OFFSET
           else if month = 10 then tishri1After + day - 119 + JEWISH_SDN_OFFSET
           else if month = 11 then tishri1After + day - 89 + JEWISH_SDN_OFFSET
           else if month = 12 then tishri1After + day - 60 + JEWISH_SDN_OFFSET
           else if month = 13 then tishri1After + day - 30 + JEWISH_SDN_OFFSET
           else 0)"

section \<open>The molad\<close>

text \<open>
  The new moon that starts year \<open>y\<close>: so many lunar months after the creation, in halakim, split
  into a day and a time of day.
\<close>

definition months_before :: "int \<Rightarrow> int" where
  "months_before y = (y - 1) div 19 * 235 + yearOffset ! nat ((y - 1) mod 19)"

definition molad_halakim :: "int \<Rightarrow> int" where
  "molad_halakim y = NEW_MOON_OF_CREATION + HALAKIM_PER_LUNAR_CYCLE * months_before y"

definition split_day :: "int \<Rightarrow> int \<times> int" where
  "split_day h = (h div HALAKIM_PER_DAY, h mod HALAKIM_PER_DAY)"

lemma add_halakim_split_day: "add_halakim h (split_day n) = split_day (n + h)"
proof -
  have "n + h = (n mod 25920 + h) + n div 25920 * 25920" by simp
  then have "(n + h) div 25920 = n div 25920 + (n mod 25920 + h) div 25920" by (metis div_mult_self1 numeral_eq_iff zero_neq_numeral)
  then show ?thesis by (simp add: add_halakim_def split_day_def HALAKIM_PER_DAY_def mod_simps)
qed

lemma int_push_or: "0 \<le> b \<Longrightarrow> b < 65536 \<Longrightarrow> push_bit 16 a OR b = a * 65536 + (b :: int)"
  using concat_bit_eq[of 16 b a] by (simp add: concat_bit_def take_bit_int_eq_self push_bit_eq_mult or.commute)

lemma int_and_65535: "x AND 65535 = x mod (65536 :: int)"
  using take_bit_eq_mask[of 16 x] by (simp add: mask_eq_exp_minus_1 take_bit_int_def)

lemma int_take_bit_id: "0 \<le> x \<Longrightarrow> x < 2 ^ 64 \<Longrightarrow> take_bit 64 x = (x :: int)"
  by (rule take_bit_int_eq_self) simp_all

lemma MoladOfMetonicCycle_eq:
  assumes "0 \<le> c" "c \<le> 46713"
  shows "MoladOfMetonicCycle c = split_day (31524 + c * 179876755)"
proof -
  define r1 where "r1 = 31524 + c * 45971"
  define r2 where "r2 = r1 div 65536 + c * 2744"
  define d2 where "d2 = r2 div 25920"
  define r1' where "r1' = r2 mod 25920 * 65536 + r1 mod 65536"
  have r1: "0 \<le> r1" "r1 < 2 ^ 32" using assms by (simp_all add: r1_def)
  have r2: "0 \<le> r2" "r2 < 2 ^ 28" using assms r1 by (simp_all add: r2_def div_less_iff_less_mult) 
  have d2: "0 \<le> d2" "d2 < 65536" using r2 by (simp_all add: d2_def div_less_iff_less_mult)
  have rem: "0 \<le> r2 mod 25920" "r2 mod 25920 < 25920" "0 \<le> r1 mod 65536" "r1 mod 65536 < 65536" by simp_all
  have r1': "0 \<le> r1'" "r1' < 25920 * 65536" using rem unfolding r1'_def by linarith+
  have d1: "0 \<le> r1' div 25920" "r1' div 25920 < 65536" using r1' by (simp_all add: div_less_iff_less_mult)
  have "31524 + c * 179876755 = r2 * 65536 + r1 mod 65536" by (simp add: r2_def r1_def algebra_simps)
  also have "r2 = d2 * 25920 + r2 mod 25920" by (simp add: d2_def)
  finally have total: "31524 + c * 179876755 = r1' + (d2 * 65536) * 25920" by (simp add: r1'_def algebra_simps)
  have k: "HALAKIM_PER_METONIC_CYCLE AND 65535 = 45971" "drop_bit 16 HALAKIM_PER_METONIC_CYCLE AND 65535 = 2744"
    unfolding int_and_65535 drop_bit_eq_div jewish_constants by simp_all
  have "c_int (c * 45971) = c * 45971" "c_int (c * 2744) = c * 2744" using assms by (simp_all add: c_int_id)
  then have s1: "take_bit 64 (NEW_MOON_OF_CREATION + c_int (c * 45971)) = r1" "drop_bit 16 r1 = r1 div 65536"
      "take_bit 64 (r1 div 65536 + c_int (c * 2744)) = r2"
    using r1 r2 by (simp_all add: NEW_MOON_OF_CREATION_def r1_def r2_def int_take_bit_id drop_bit_eq_div)
  have s2: "r2 - d2 * 25920 = r2 mod 25920" "r1' - r1' div 25920 * 25920 = r1' mod 25920"
    by (simp_all add: d2_def minus_div_mult_eq_mod)
  have "take_bit 64 (push_bit 16 (r2 mod 25920)) = push_bit 16 (r2 mod 25920)" "take_bit 64 (push_bit 16 d2) = push_bit 16 d2"
    using rem d2 by (simp_all add: int_take_bit_id push_bit_eq_mult)
  then have s3: "take_bit 64 (push_bit 16 (r2 mod 25920)) OR (r1 AND 65535) = r1'"
      "take_bit 64 (push_bit 16 d2) OR r1' div 25920 = d2 * 65536 + r1' div 25920"
    using rem d1 by (simp_all add: int_push_or int_and_65535 r1'_def)
  have "MoladOfMetonicCycle c = (d2 * 65536 + r1' div 25920, r1' mod 25920)"
    by (simp only: MoladOfMetonicCycle_def Let_def k s1 s2 s3 HALAKIM_PER_DAY_def d2_def[symmetric])
  also have "\<dots> = split_day (31524 + c * 179876755)"
    unfolding total split_day_def HALAKIM_PER_DAY_def by (simp only: div_mult_self1 mod_mult_self1)
  finally show ?thesis .
qed

section \<open>The years\<close>

definition leap_index :: "int \<Rightarrow> bool" where
  "leap_index m \<longleftrightarrow> monthsPerYear ! nat m = 13"

definition jewish_leap :: "int \<Rightarrow> bool" where
  "jewish_leap y \<longleftrightarrow> leap_index ((y - 1) mod 19)"

lemma metonic_cases:
  assumes "0 \<le> m" "m < (19 :: int)"
  shows "m = 0 \<or> m = 1 \<or> m = 2 \<or> m = 3 \<or> m = 4 \<or> m = 5 \<or> m = 6 \<or> m = 7 \<or> m = 8 \<or> m = 9 \<or> m = 10 \<or> m = 11 \<or> m = 12
    \<or> m = 13 \<or> m = 14 \<or> m = 15 \<or> m = 16 \<or> m = 17 \<or> m = 18"
  using assms by presburger

lemma metonic_split: "0 \<le> m \<Longrightarrow> m < 19 \<Longrightarrow> (19 * c + m) div 19 = c \<and> (19 * c + m) mod 19 = (m :: int)"
  by (simp add: int_div_pos_eq[of _ _ c m] int_mod_pos_eq[of _ _ c m])

lemma year_split: obtains c m where "y - 1 = 19 * c + m" "0 \<le> m" "m < 19" "c = (y - 1) div 19" "m = (y - 1) mod (19 :: int)"
proof
  show "y - 1 = 19 * ((y - 1) div 19) + (y - 1) mod 19" by simp
qed simp_all

lemma table_facts:
  assumes "0 \<le> m" "m < 19"
  shows "monthsPerYear ! nat m = (if leap_index m then 13 else 12)"
    and "yearOffset ! nat m + monthsPerYear ! nat m = (if m = 18 then 235 else yearOffset ! nat (m + 1))"
    and "m \<in> {2, 5, 7, 10, 13, 16, 18} \<longleftrightarrow> leap_index m"
    and "(m + 1) mod 19 \<in> {3, 6, 8, 11, 14, 17, 0} \<longleftrightarrow> leap_index m"
    and "0 \<le> yearOffset ! nat m" and "yearOffset ! nat m \<le> 222"
    and "leap_index m \<Longrightarrow> \<not> leap_index ((m + 1) mod 19)"
  using metonic_cases[OF assms] by (elim disjE; simp add: leap_index_def monthsPerYear_def yearOffset_def)+

lemma metonic_succ: "y mod 19 = ((y - 1) mod 19 + 1) mod (19 :: int)"
  by (simp add: mod_simps)

lemma months_before_succ: "months_before (y + 1) = months_before y + (if jewish_leap y then 13 else 12)"
proof -
  obtain c m where y: "y - 1 = 19 * c + m" and m: "0 \<le> m" "m < 19" by (rule year_split)
  then have e: "y + 1 - 1 = 19 * c + (m + 1)" by simp
  show ?thesis
  proof (cases "m = 18")
    case True
    then have "(y + 1 - 1) div 19 = c + 1" "(y + 1 - 1) mod 19 = 0" using e metonic_split[of 0 "c + 1"] by simp_all
    then show ?thesis using y m True metonic_split[OF m, of c] table_facts(1,2)[OF m]
      by (auto simp: months_before_def jewish_leap_def yearOffset_def)
  next
    case False
    then have "(y + 1 - 1) div 19 = c" "(y + 1 - 1) mod 19 = m + 1" unfolding e using m metonic_split[of "m + 1" c] by simp_all
    then show ?thesis using y m False metonic_split[OF m, of c] table_facts(1,2)[OF m]
      by (auto simp: months_before_def jewish_leap_def)
  qed
qed

lemma molad_succ: "molad_halakim (y + 1) = molad_halakim y + HALAKIM_PER_LUNAR_CYCLE * monthsPerYear ! nat ((y - 1) mod 19)"
  using months_before_succ[of y] table_facts(1)[of "(y - 1) mod 19"]
  by (simp add: molad_halakim_def jewish_leap_def algebra_simps)

definition molad_day :: "int \<Rightarrow> int" where
  "molad_day y = molad_halakim y div HALAKIM_PER_DAY"

definition molad_time :: "int \<Rightarrow> int" where
  "molad_time y = molad_halakim y mod HALAKIM_PER_DAY"

definition new_year :: "int \<Rightarrow> int" where
  "new_year y = Tishri1 ((y - 1) mod 19) (molad_day y) (molad_time y)"

definition year_length :: "int \<Rightarrow> int" where
  "year_length y = new_year (y + 1) - new_year y"

lemma molad_next:
  "molad_day (y + 1) = molad_day y + (if jewish_leap y then 383 else 354)
      + (if molad_time y + (if jewish_leap y then 23269 else 9516) \<ge> 25920 then 1 else 0)"
  "molad_time (y + 1) = molad_time y + (if jewish_leap y then 23269 else 9516)
      - (if molad_time y + (if jewish_leap y then 23269 else 9516) \<ge> 25920 then 25920 else 0)"
proof -
  define l where "l = (if jewish_leap y then 9950629 else 9185196 :: int)"
  define q where "q = molad_day y + (if jewish_leap y then 383 else 354) + (if molad_time y + (if jewish_leap y then 23269 else 9516) \<ge> 25920 then 1 else 0)"
  define r where "r = molad_time y + (if jewish_leap y then 23269 else 9516)
      - (if molad_time y + (if jewish_leap y then 23269 else 9516) \<ge> 25920 then 25920 else 0)"
  have h: "molad_halakim (y + 1) = molad_halakim y + l"
    using table_facts(1)[of "(y - 1) mod 19"] by (simp add: molad_succ jewish_leap_def l_def HALAKIM_PER_LUNAR_CYCLE_def)
  have t: "0 \<le> molad_time y" "molad_time y < 25920" "molad_halakim y = 25920 * molad_day y + molad_time y"
    by (simp_all add: molad_time_def molad_day_def HALAKIM_PER_DAY_def)
  then have "molad_halakim (y + 1) = 25920 * q + r" "0 \<le> r" "r < 25920"
    unfolding h by (auto simp: q_def r_def l_def)
  then have "molad_day (y + 1) = q" "molad_time (y + 1) = r"
    unfolding molad_day_def molad_time_def HALAKIM_PER_DAY_def
    using int_div_pos_eq[of "molad_halakim (y + 1)" 25920 q r] int_mod_pos_eq[of "molad_halakim (y + 1)" 25920 q r] by simp_all
  then show "molad_day (y + 1) = molad_day y + (if jewish_leap y then 383 else 354)
      + (if molad_time y + (if jewish_leap y then 23269 else 9516) \<ge> 25920 then 1 else 0)"
    "molad_time (y + 1) = molad_time y + (if jewish_leap y then 23269 else 9516)
      - (if molad_time y + (if jewish_leap y then 23269 else 9516) \<ge> 25920 then 25920 else 0)"
    by (simp_all add: q_def r_def)
qed

text \<open>How far the rules move the first day of a year, by the day of the week and the time of the molad.\<close>

definition delay :: "bool \<Rightarrow> bool \<Rightarrow> int \<Rightarrow> int \<Rightarrow> int" where
  "delay leap last_leap dow hal =
     (if hal \<ge> 19440 \<or> (\<not> leap \<and> dow = 2 \<and> hal \<ge> 9924) \<or> (last_leap \<and> dow = 1 \<and> hal \<ge> 16789)
      then (if dow = 2 \<or> dow = 4 \<or> dow = 6 then 2 else 1) else (if dow = 0 \<or> dow = 3 \<or> dow = 5 then 1 else 0))"

lemma dow_cases: "(d :: int) mod 7 = 0 \<or> d mod 7 = 1 \<or> d mod 7 = 2 \<or> d mod 7 = 3 \<or> d mod 7 = 4 \<or> d mod 7 = 5 \<or> d mod 7 = 6"
  by presburger

lemma Tishri1_delay:
  assumes "0 \<le> m" "m < 19"
  shows "Tishri1 m d h = d + delay (leap_index m) (leap_index ((m - 1) mod 19)) (d mod 7) h"
proof -
  have "((m - 1) mod 19 + 1) mod 19 = m" using assms by (simp add: mod_simps)
  then have "m \<in> {3, 6, 8, 11, 14, 17, 0} \<longleftrightarrow> leap_index ((m - 1) mod 19)" using table_facts(4)[of "(m - 1) mod 19"] by simp
  then show ?thesis
    unfolding Tishri1_def delay_def Let_def table_facts(3)[OF assms] jewish_constants
    using dow_cases[of d] by (elim disjE; simp)
qed

lemma new_year_delay: "new_year y = molad_day y + delay (jewish_leap y) (jewish_leap (y - 1)) (molad_day y mod 7) (molad_time y)"
proof -
  have "((y - 1) mod 19 - 1) mod 19 = (y - 1 - 1) mod 19" by (simp add: mod_simps)
  then show ?thesis using Tishri1_delay[of "(y - 1) mod 19"] by (simp add: new_year_def jewish_leap_def)
qed

lemma delay_bounds: "0 \<le> delay a b d h" "delay a b d h \<le> 2"
  by (simp_all add: delay_def)

lemma leap_isolated: "jewish_leap y \<Longrightarrow> \<not> jewish_leap (y + 1)"
  using table_facts(7)[of "(y - 1) mod 19"] metonic_succ[of y] by (simp add: jewish_leap_def)

lemma molad_time_bounds: "0 \<le> molad_time y" "molad_time y < 25920"
  by (simp_all add: molad_time_def HALAKIM_PER_DAY_def)

lemma delay_difference:
  assumes d: "d = 0 \<or> d = 1 \<or> d = 2 \<or> d = 3 \<or> d = 4 \<or> d = 5 \<or> d = (6 :: int)" and h: "0 \<le> h" "h < 25920"
  shows "h < 16404 \<Longrightarrow> delay b False ((d + 354) mod 7) (h + 9516) - delay False a d h \<in> {-1, 0, 1}"
    and "16404 \<le> h \<Longrightarrow> 1 + delay b False ((d + 355) mod 7) (h - 16404) - delay False a d h \<in> {-1, 0, 1}"
    and "h < 2651 \<Longrightarrow> delay False True ((d + 383) mod 7) (h + 23269) - delay True a d h \<in> {0, 1, 2}"
    and "2651 \<le> h \<Longrightarrow> 1 + delay False True ((d + 384) mod 7) (h - 2651) - delay True a d h \<in> {0, 1, 2}"
  using d h by (elim disjE; simp add: delay_def)+

lemma year_length_delay:
  assumes "molad_day (y + 1) = molad_day y + k"
  shows "year_length y = k + delay (jewish_leap (y + 1)) (jewish_leap y) ((molad_day y mod 7 + k) mod 7) (molad_time (y + 1))
    - delay (jewish_leap y) (jewish_leap (y - 1)) (molad_day y mod 7) (molad_time y)"
  unfolding year_length_def new_year_delay[of y] new_year_delay[of "y + 1"] assms mod_add_left_eq by simp

lemma common_year_length:
  assumes "\<not> jewish_leap y"
  shows "year_length y \<in> {353, 354, 355}"
proof (cases "molad_time y < 16404")
  case True
  then have "molad_day (y + 1) = molad_day y + 354" "molad_time (y + 1) = molad_time y + 9516"
    using molad_next[of y] assms by simp_all
  then show ?thesis using delay_difference(1)[OF dow_cases molad_time_bounds True, of "jewish_leap (y + 1)" "molad_day y" "jewish_leap (y - 1)"] assms
    year_length_delay by auto
next
  case False
  then have n: "molad_day (y + 1) = molad_day y + 355" "molad_time (y + 1) = molad_time y - 16404"
    using molad_next[of y] assms by simp_all
  note year_length_delay[OF n(1)]
  then show ?thesis using delay_difference(2)[OF dow_cases molad_time_bounds, of y "jewish_leap (y + 1)" "molad_day y" "jewish_leap (y - 1)"] n assms False
    by auto
qed

lemma leap_year_length:
  assumes "jewish_leap y"
  shows "year_length y \<in> {383, 384, 385}"
proof (cases "molad_time y < 2651")
  case True
  then have n: "molad_day (y + 1) = molad_day y + 383" "molad_time (y + 1) = molad_time y + 23269"
    using molad_next[of y] assms by simp_all
  note year_length_delay[OF n(1)]
  then show ?thesis using delay_difference(3)[OF dow_cases molad_time_bounds True, of "molad_day y" "jewish_leap (y - 1)"] leap_isolated[OF assms] n assms
    by auto
next
  case False
  then have n: "molad_day (y + 1) = molad_day y + 384" "molad_time (y + 1) = molad_time y - 2651"
    using molad_next[of y] assms by simp_all
  note year_length_delay[OF n(1)]
  then show ?thesis using delay_difference(4)[OF dow_cases molad_time_bounds, of y "molad_day y" "jewish_leap (y - 1)"] leap_isolated[OF assms] n assms False
    by auto
qed

section \<open>Finding the molad of a day\<close>

lemma cycle_year: "0 \<le> m \<Longrightarrow> m < 19 \<Longrightarrow> (19 * c + m + 1 - 1) mod 19 = m" "0 \<le> m \<Longrightarrow> m < 19 \<Longrightarrow> (19 * c + m + 1 - 1) div 19 = (c :: int)"
  using metonic_split[of m c] by simp_all

lemma molad_at:
  assumes "0 \<le> m" "m < 19"
  shows "molad_halakim (19 * c + m + 1) = 31524 + c * 179876755 + 765433 * yearOffset ! nat m"
  unfolding molad_halakim_def months_before_def cycle_year[OF assms] jewish_constants by (simp add: algebra_simps)

lemma split_day_molad: "split_day (molad_halakim y) = (molad_day y, molad_time y)"
  by (simp add: split_day_def molad_day_def molad_time_def)

lemma Molad_cycle: "0 \<le> c \<Longrightarrow> c \<le> 46713 \<Longrightarrow> MoladOfMetonicCycle c = (molad_day (19 * c + 1), molad_time (19 * c + 1))"
  using molad_at[of 0 c] by (simp add: MoladOfMetonicCycle_eq yearOffset_def flip: split_day_molad)

lemma add_molad:
  "n = molad_halakim z - molad_halakim y \<Longrightarrow> add_halakim n (molad_day y, molad_time y) = (molad_day z, molad_time z)"
  by (simp add: add_halakim_split_day flip: split_day_molad)

lemma add_year:
  assumes "0 \<le> m" "m < 19"
  shows "add_halakim (HALAKIM_PER_LUNAR_CYCLE * monthsPerYear ! nat m) (molad_day (19 * c + m + 1), molad_time (19 * c + m + 1))
    = (molad_day (19 * c + m + 2), molad_time (19 * c + m + 2))"
  using molad_succ[of "19 * c + m + 1"] cycle_year(1)[OF assms, of c] by (intro add_molad) (simp add: add.assoc)

lemma add_cycle:
  "add_halakim HALAKIM_PER_METONIC_CYCLE (molad_day (19 * c + 1), molad_time (19 * c + 1)) = (molad_day (19 * (c + 1) + 1), molad_time (19 * (c + 1) + 1))"
  using molad_at[of 0 c] molad_at[of 0 "c + 1"] by (intro add_molad) (simp add: HALAKIM_PER_METONIC_CYCLE_def)

lemma molad_day_succ: "molad_day y + 354 \<le> molad_day (y + 1)" "molad_day (y + 1) \<le> molad_day y + 384"
  using molad_next(1)[of y] by (simp_all split: if_splits)

lemma molad_day_mono: "y \<le> z \<Longrightarrow> molad_day y + 354 * (z - y) \<le> molad_day z"
proof (induction z rule: int_ge_induct)
  case (step z)
  then show ?case using molad_day_succ(1)[of z] by simp
qed simp

lemma cycle_bounds:
  "molad_day (19 * (c + 1) + 1) \<le> molad_day (19 * c + 1) + 6940"
  "molad_day (19 * c + 1) + 6555 \<le> molad_day (19 * c + 19)"
  "molad_day (19 * c) + 383 \<le> molad_day (19 * c + 1)"
proof -
  have d: "molad_halakim y = 25920 * molad_day y + molad_time y" for y by (simp add: molad_day_def molad_time_def HALAKIM_PER_DAY_def)
  show "molad_day (19 * (c + 1) + 1) \<le> molad_day (19 * c + 1) + 6940"
    using d[of "19 * c + 1"] d[of "19 * (c + 1) + 1"] molad_time_bounds[of "19 * c + 1"] molad_time_bounds[of "19 * (c + 1) + 1"]
      molad_at[of 0 c] molad_at[of 0 "c + 1"] by simp
  have "molad_halakim (19 * c + 19) = 169957650 + c * 179876755" using molad_at[of 18 c] by (simp add: ac_simps yearOffset_def)
  then show "molad_day (19 * c + 1) + 6555 \<le> molad_day (19 * c + 19)"
    using d[of "19 * c + 1"] d[of "19 * c + 19"] molad_time_bounds[of "19 * c + 1"] molad_time_bounds[of "19 * c + 19"]
      molad_at[of 0 c] by (simp add: yearOffset_def)
  have "jewish_leap (19 * c)" using metonic_split[of 18 "c - 1"] by (simp add: jewish_leap_def leap_index_def monthsPerYear_def)
  then show "molad_day (19 * c) + 383 \<le> molad_day (19 * c + 1)" using molad_next(1)[of "19 * c"] by simp
qed

lemma cycle_estimate: "0 \<le> c \<Longrightarrow> molad_day (19 * c + 1) \<le> 6940 * c + 1"
  using molad_at[of 0 c] zdiv_mono1[of "31524 + c * 179876755" "25919 + (6940 * c + 1) * 25920" 25920]
  by (simp add: molad_day_def HALAKIM_PER_DAY_def yearOffset_def)

lemma cycle_loop_result:
  "\<exists>e. c \<le> e \<and> cycle_loop i c (molad_day (19 * c + 1), molad_time (19 * c + 1)) = (e, molad_day (19 * e + 1), molad_time (19 * e + 1))
     \<and> i - 6630 \<le> molad_day (19 * e + 1) \<and> (e = c \<or> molad_day (19 * e + 1) \<le> i + 309)"
proof (induction "nat (i - 6630 - molad_day (19 * c + 1))" arbitrary: c rule: less_induct)
  case less
  show ?case
  proof (cases "molad_day (19 * c + 1) < i - 6630")
    case True
    have "molad_day (19 * c + 1) + 383 \<le> molad_day (19 * (c + 1) + 1)"
      using molad_day_mono[of "19 * c + 1" "19 * (c + 1) + 1"] by simp
    then obtain e where "c + 1 \<le> e" "i - 6630 \<le> molad_day (19 * e + 1)" "e = c + 1 \<or> molad_day (19 * e + 1) \<le> i + 309"
        "cycle_loop i (c + 1) (molad_day (19 * (c + 1) + 1), molad_time (19 * (c + 1) + 1)) = (e, molad_day (19 * e + 1), molad_time (19 * e + 1))"
      using less[of "c + 1"] True by auto
    then show ?thesis using True add_cycle[of c] cycle_bounds(1)[of c] by (intro exI[of _ e]) (auto simp del: cycle_loop.simps simp: cycle_loop.simps[of i c])
  next
    case False
    then show ?thesis by (intro exI[of _ c]) simp
  qed
qed

lemma year_loop_result:
  assumes "0 \<le> m" "m + int n = 18"
  shows "\<exists>k. m \<le> k \<and> k \<le> 18 \<and> year_loop n i m (molad_day (19 * c + m + 1), molad_time (19 * c + m + 1))
        = (k, molad_day (19 * c + k + 1), molad_time (19 * c + k + 1))
      \<and> (i - 74 < molad_day (19 * c + k + 1) \<or> k = 18) \<and> (k = m \<or> molad_day (19 * c + k) \<le> i - 74)"
  using assms
proof (induction n arbitrary: m)
  case (Suc n)
  show ?case
  proof (cases "i - 74 < molad_day (19 * c + m + 1)")
    case False
    obtain k where "m + 1 \<le> k" "k \<le> 18" "i - 74 < molad_day (19 * c + k + 1) \<or> k = 18" "k = m + 1 \<or> molad_day (19 * c + k) \<le> i - 74"
        "year_loop n i (m + 1) (molad_day (19 * c + (m + 1) + 1), molad_time (19 * c + (m + 1) + 1))
        = (k, molad_day (19 * c + k + 1), molad_time (19 * c + k + 1))"
      using Suc.IH[of "m + 1"] Suc.prems by auto
    moreover have "19 * c + (m + 1) + 1 = 19 * c + m + 2" by simp
    ultimately show ?thesis using False Suc.prems add_year[of m c] by (intro exI[of _ k]) (auto simp: add.assoc)
  qed (use Suc.prems in \<open>intro exI[of _ m], simp\<close>)
next
  case 0
  then show ?case by (intro exI[of _ m]) auto
qed

text \<open>
  The year whose molad is found for a day: the day is at most 75 days after the molad, that is
  in the first three months, or after the first two months of the year before.
\<close>

definition near_molad :: "int \<Rightarrow> int \<Rightarrow> bool" where
  "near_molad i y \<longleftrightarrow> 1 \<le> y \<and> i \<le> molad_day y + 75 \<and> (y = 1 \<or> molad_day (y - 1) + 70 \<le> i)"

lemma FindTishriMolad_near:
  assumes "- 310 \<le> i" "i \<le> 324194849"
  shows "\<exists>c m. FindTishriMolad i = (c, m, molad_day (19 * c + m + 1), molad_time (19 * c + m + 1))
     \<and> 0 \<le> c \<and> 0 \<le> m \<and> m < 19 \<and> near_molad i (19 * c + m + 1)"
proof -
  define e where "e = (i + 310) div 6940"
  have e: "0 \<le> e" "e \<le> 46713" "6940 * e \<le> i + 310"
    using assms zdiv_mono1[of "i + 310" 324195159 6940] by (simp_all add: e_def pos_imp_zdiv_nonneg_iff)
  obtain c where c: "e \<le> c" "cycle_loop i e (molad_day (19 * e + 1), molad_time (19 * e + 1)) = (c, molad_day (19 * c + 1), molad_time (19 * c + 1))"
      "i - 6630 \<le> molad_day (19 * c + 1)" "c = e \<or> molad_day (19 * c + 1) \<le> i + 309"
    using cycle_loop_result[of e i] by auto
  obtain m where m: "0 \<le> m" "m \<le> 18" "year_loop 18 i 0 (molad_day (19 * c + 1), molad_time (19 * c + 1))
        = (m, molad_day (19 * c + m + 1), molad_time (19 * c + m + 1))"
      "i - 74 < molad_day (19 * c + m + 1) \<or> m = 18" "m = 0 \<or> molad_day (19 * c + m) \<le> i - 74"
    using year_loop_result[of 0 18 i c] by auto
  have "c_int e = e" using e by (simp add: c_int_id)
  then have 1: "FindTishriMolad i = (c, m, molad_day (19 * c + m + 1), molad_time (19 * c + m + 1))"
    unfolding FindTishriMolad_def Let_def e_def[symmetric] using c m e by (simp add: Molad_cycle)
  have 2: "i \<le> molad_day (19 * c + m + 1) + 75" using m(4) c(3) cycle_bounds(2)[of c] by (auto simp: ac_simps)
  have "molad_day (19 * c + 1) \<le> i + 311" using c(4) cycle_estimate[OF e(1)] e(3) by auto
  then have "molad_day (19 * c + m) + 70 \<le> i" using m(5) cycle_bounds(3)[of c] by auto
  then show ?thesis using 1 2 e(1) c(1) m(1,2) by (auto simp: near_molad_def)
qed

lemma near_molad_before:
  assumes "near_molad (molad_day y - 365) z" "2 \<le> y"
  shows "z = y - 1"
proof -
  have "\<not> y \<le> z" using assms molad_day_mono[of "y - 1" "z - 1"] molad_day_succ(2)[of "y - 1"] by (auto simp: near_molad_def)
  moreover have "\<not> z \<le> y - 2"
    using assms molad_day_mono[of z "y - 2"] molad_day_succ(1)[of "y - 2"] molad_day_succ(1)[of "y - 1"] by (auto simp: near_molad_def)
  ultimately show ?thesis by simp
qed

section \<open>The months\<close>

definition heshvan :: "int \<Rightarrow> int" where
  "heshvan y = (if year_length y = 355 \<or> year_length y = 385 then 30 else 29)"

definition kislev :: "int \<Rightarrow> int" where
  "kislev y = (if year_length y = 353 \<or> year_length y = 383 then 29 else 30)"

definition jewish_month_length :: "int \<Rightarrow> int \<Rightarrow> int" where
  "jewish_month_length y m =
     (if m = 2 then heshvan y else if m = 3 then kislev y else if m = 6 then (if jewish_leap y then 30 else 0)
      else if m = 1 \<or> m = 5 \<or> m = 8 \<or> m = 10 \<or> m = 12 then 30 else 29)"

definition jewish_month_start :: "int \<Rightarrow> int \<Rightarrow> int" where
  "jewish_month_start y m = new_year y + sum_list (map (jewish_month_length y) [1..m - 1])"

definition jewish_valid :: "date \<Rightarrow> bool" where
  "jewish_valid = (\<lambda>(y, m, d). 1 \<le> y \<and> 1 \<le> m \<and> m \<le> 13 \<and> 1 \<le> d \<and> d \<le> jewish_month_length y m)"

text \<open>The day after a date: Adar I, month 6, is skipped in a common year.\<close>

definition jewish_next :: "date \<Rightarrow> date" where
  "jewish_next = (\<lambda>(y, m, d).
     if d < jewish_month_length y m then (y, m, d + 1)
     else if m = 13 then (y + 1, 1, 1)
     else if m = 5 \<and> \<not> jewish_leap y then (y, 7, 1)
     else (y, m + 1, 1))"

lemma jewish_month_start_first: "jewish_month_start y 1 = new_year y"
  by (simp add: jewish_month_start_def)

lemma jewish_month_start_succ: "1 \<le> m \<Longrightarrow> jewish_month_start y (m + 1) = jewish_month_start y m + jewish_month_length y m"
  using upto_rec2[of 1 m] by (simp add: jewish_month_start_def)

lemma year_end: "new_year (y + 1) = new_year y + heshvan y + kislev y + (if jewish_leap y then 325 else 295)"
  using common_year_length[of y] leap_year_length[of y]
  by (cases "jewish_leap y") (auto simp: heshvan_def kislev_def year_length_def)

lemma jewish_month_start_from_first:
  "jewish_month_start y 2 = new_year y + 30" "jewish_month_start y 3 = new_year y + 30 + heshvan y"
  "jewish_month_start y 4 = new_year y + 30 + heshvan y + kislev y"
  by (simp_all add: jewish_month_start_def jewish_month_length_def upto_code upto_aux_rec)

lemma jewish_month_start_from_last:
  "jewish_month_start y 5 = new_year (y + 1) - (if jewish_leap y then 266 else 236)" 
  "jewish_month_start y 6 = new_year (y + 1) - (if jewish_leap y then 236 else 206)"
  "jewish_month_start y 7 = new_year (y + 1) - 206" "jewish_month_start y 8 = new_year (y + 1) - 177"
  "jewish_month_start y 9 = new_year (y + 1) - 147" "jewish_month_start y 10 = new_year (y + 1) - 118"
  "jewish_month_start y 11 = new_year (y + 1) - 88" "jewish_month_start y 12 = new_year (y + 1) - 59"
  "jewish_month_start y 13 = new_year (y + 1) - 29" "jewish_month_start y 14 = new_year (y + 1)"
  "jewish_month_start y 4 = new_year (y + 1) - (if jewish_leap y then 295 else 265)"
  by (simp_all add: jewish_month_start_def jewish_month_length_def year_end upto_code upto_aux_rec)

lemma jewish_month_length_nonneg: "0 \<le> jewish_month_length y m"
  by (simp add: jewish_month_length_def heshvan_def kislev_def)

lemma jewish_month_start_mono: "m \<le> n \<Longrightarrow> 1 \<le> m \<Longrightarrow> jewish_month_start y m \<le> jewish_month_start y n"
proof (induction n rule: int_ge_induct)
  case (step n)
  then show ?case using jewish_month_start_succ[of n y] jewish_month_length_nonneg[of y n] by simp
qed simp

lemma new_year_mono: "y \<le> z \<Longrightarrow> new_year y \<le> new_year z"
proof (induction z rule: int_ge_induct)
  case (step z)
  then show ?case using year_end[of z] by (auto simp: heshvan_def kislev_def split: if_splits)
qed simp

definition jewish_number :: "date \<Rightarrow> int" where
  "jewish_number = (\<lambda>(y, m, d). jewish_month_start y m + d - 1)"

lemma jewish_number_bounds:
  assumes "jewish_valid (y, m, d)"
  shows "new_year y \<le> jewish_number (y, m, d)" "jewish_number (y, m, d) < new_year (y + 1)"
    "jewish_month_start y m \<le> jewish_number (y, m, d)" "jewish_number (y, m, d) < jewish_month_start y (m + 1)"
  using assms jewish_month_start_mono[of 1 m y] jewish_month_start_mono[of "m + 1" 14 y] jewish_month_start_succ[of m y]
  by (simp_all add: jewish_valid_def jewish_number_def jewish_month_start_first jewish_month_start_from_last)

lemma jewish_number_less:
  assumes "jewish_valid (y, m, d)" "jewish_valid (y', m', d')" "y < y' \<or> y = y' \<and> m < m'"
  shows "jewish_number (y, m, d) < jewish_number (y', m', d')"
  using jewish_number_bounds[OF assms(1)] jewish_number_bounds[OF assms(2)] assms(3) new_year_mono[of "y + 1" y']
    jewish_month_start_mono[of "m + 1" m' y] assms(1) by (auto simp: jewish_valid_def)

lemma jewish_number_inj:
  assumes "jewish_valid (y, m, d)" "jewish_valid (y', m', d')" "jewish_number (y, m, d) = jewish_number (y', m', d')"
  shows "(y, m, d) = (y', m', d')"
proof -
  have "y = y'" "m = m'"
    using jewish_number_less[OF assms(1,2)] jewish_number_less[OF assms(2,1)] assms(3) by (metis linorder_less_linear order_less_irrefl)+
  then show ?thesis using assms(3) by (simp add: jewish_number_def)
qed

lemma jewish_next_valid:
  assumes "jewish_valid (y, m, d)"
  shows "jewish_valid (jewish_next (y, m, d)) \<and> jewish_number (jewish_next (y, m, d)) = jewish_number (y, m, d) + 1"
proof -
  have "heshvan y \<in> {29, 30}" "kislev y \<in> {29, 30}" by (simp_all add: heshvan_def kislev_def)
  moreover have "jewish_month_start (y + 1) 1 = jewish_month_start y 13 + jewish_month_length y 13"
    using jewish_month_start_succ[of 13 y] by (simp add: jewish_month_start_first jewish_month_start_from_last)
  moreover have "jewish_month_start y 7 = jewish_month_start y 5 + jewish_month_length y 5" if "\<not> jewish_leap y"
    using that by (simp add: jewish_month_start_from_last jewish_month_length_def)
  ultimately show ?thesis using assms jewish_month_start_succ[of m y]
    by (auto simp: jewish_next_def jewish_valid_def jewish_number_def jewish_month_length_def)
qed

section \<open>The conversions\<close>

lemma new_year_near: "molad_day y \<le> new_year y" "new_year y \<le> molad_day y + 2"
  using delay_bounds[of "jewish_leap y" "jewish_leap (y - 1)" "molad_day y mod 7" "molad_time y"]
  by (simp_all add: new_year_delay)

lemma first_new_year: "new_year 1 = 1"
  by (simp add: new_year_delay molad_day_def molad_time_def molad_halakim_def months_before_def jewish_constants
      yearOffset_def delay_def)

lemma Tishri1_new_year: "0 \<le> m \<Longrightarrow> m < 19 \<Longrightarrow> Tishri1 m (molad_day (19 * c + m + 1)) (molad_time (19 * c + m + 1)) = new_year (19 * c + m + 1)"
  using cycle_year(1)[of m c] by (simp add: new_year_def)

lemma Tishri1_next_year:
  assumes "0 \<le> m" "m < 19"
  shows "Tishri1 ((m + 1) mod 19) (molad_day (19 * c + m + 2)) (molad_time (19 * c + m + 2)) = new_year (19 * c + m + 2)"
proof -
  have "19 * c + m + 2 - 1 = m + 1 + 19 * c" by simp
  then have "(19 * c + m + 2 - 1) mod 19 = (m + 1) mod 19" by (simp only: mod_mult_self2)
  then show ?thesis by (simp add: new_year_def)
qed

lemma heshvan_kislev_eq:
  "heshvan_kislev y i (new_year y) (new_year (y + 1)) =
     (if i < jewish_month_start y 3 then (y, 2, i - jewish_month_start y 2 + 1) else (y, 3, i - jewish_month_start y 3 + 1))"
  by (auto simp: heshvan_kislev_def Let_def jewish_month_start_from_first heshvan_def year_length_def)

text \<open>The date that the code finds is a date of the calendar with the number of the day.\<close>

lemma start_of_year_case:
  assumes "new_year y \<le> i" "i \<le> new_year y + 75" "1 \<le> y"
  shows "i < new_year y + 30 \<Longrightarrow> jewish_valid (y, 1, i - new_year y + 1) \<and> jewish_number (y, 1, i - new_year y + 1) = i"
    and "new_year y + 30 \<le> i \<Longrightarrow> i < new_year y + 59 \<Longrightarrow> jewish_valid (y, 2, i - new_year y - 29) \<and> jewish_number (y, 2, i - new_year y - 29) = i"
    and "new_year y + 59 \<le> i \<Longrightarrow> jewish_valid (heshvan_kislev y i (new_year y) (new_year (y + 1)))
      \<and> jewish_number (heshvan_kislev y i (new_year y) (new_year (y + 1))) = i"
  using assms unfolding heshvan_kislev_eq
  by (auto simp: jewish_valid_def jewish_number_def jewish_month_length_def jewish_month_start_first jewish_month_start_from_first heshvan_def kislev_def)

definition numbered :: "int \<Rightarrow> date \<Rightarrow> bool" where
  "numbered i dt \<longleftrightarrow> jewish_valid dt \<and> jewish_number dt = i"

lemma end_of_year_case:
  assumes "i < new_year (y + 1)" "1 \<le> y"
  shows "i > new_year (y + 1) - 30 \<Longrightarrow> numbered i (y, 13, i - new_year (y + 1) + 30)"
    and "i \<le> new_year (y + 1) - 30 \<Longrightarrow> i > new_year (y + 1) - 60 \<Longrightarrow> numbered i (y, 12, i - new_year (y + 1) + 60)"
    and "i \<le> new_year (y + 1) - 60 \<Longrightarrow> i > new_year (y + 1) - 89 \<Longrightarrow> numbered i (y, 11, i - new_year (y + 1) + 89)"
    and "i \<le> new_year (y + 1) - 89 \<Longrightarrow> i > new_year (y + 1) - 119 \<Longrightarrow> numbered i (y, 10, i - new_year (y + 1) + 119)"
    and "i \<le> new_year (y + 1) - 119 \<Longrightarrow> i > new_year (y + 1) - 148 \<Longrightarrow> numbered i (y, 9, i - new_year (y + 1) + 148)"
    and "i \<le> new_year (y + 1) - 148 \<Longrightarrow> i \<ge> new_year (y + 1) - 177 \<Longrightarrow> numbered i (y, 8, i - new_year (y + 1) + 178)"
    and "i < new_year (y + 1) - 177 \<Longrightarrow> i - new_year (y + 1) + 207 > 0 \<Longrightarrow> numbered i (y, 7, i - new_year (y + 1) + 207)"
    and "jewish_leap y \<Longrightarrow> i - new_year (y + 1) + 207 \<le> 0 \<Longrightarrow> 237 + (i - new_year (y + 1)) > 0 \<Longrightarrow> numbered i (y, 6, 237 + (i - new_year (y + 1)))"
    and "jewish_leap y \<Longrightarrow> 237 + (i - new_year (y + 1)) \<le> 0 \<Longrightarrow> 267 + (i - new_year (y + 1)) > 0 \<Longrightarrow> numbered i (y, 5, 267 + (i - new_year (y + 1)))"
    and "jewish_leap y \<Longrightarrow> 267 + (i - new_year (y + 1)) \<le> 0 \<Longrightarrow> 296 + (i - new_year (y + 1)) > 0 \<Longrightarrow> numbered i (y, 4, 296 + (i - new_year (y + 1)))"
    and "\<not> jewish_leap y \<Longrightarrow> i - new_year (y + 1) + 207 \<le> 0 \<Longrightarrow> 237 + (i - new_year (y + 1)) > 0 \<Longrightarrow> numbered i (y, 5, 237 + (i - new_year (y + 1)))"
    and "\<not> jewish_leap y \<Longrightarrow> 237 + (i - new_year (y + 1)) \<le> 0 \<Longrightarrow> 266 + (i - new_year (y + 1)) > 0 \<Longrightarrow> numbered i (y, 4, 266 + (i - new_year (y + 1)))"
  using assms by (simp_all add: numbered_def jewish_valid_def jewish_number_def jewish_month_length_def jewish_month_start_from_last)

lemma end_of_year_kislev:
  assumes "1 \<le> y" "new_year y + 68 \<le> i" "(if jewish_leap y then 296 else 266) + (i - new_year (y + 1)) \<le> 0"
  shows "numbered i (heshvan_kislev y i (new_year y) (new_year (y + 1)))"
  using assms unfolding heshvan_kislev_eq numbered_def
  by (auto simp: jewish_valid_def jewish_number_def jewish_month_length_def jewish_month_start_from_first heshvan_def kislev_def year_end split: if_splits)

lemma c_int_new_year: "1 \<le> y \<Longrightarrow> molad_day y \<le> 2000000000 \<Longrightarrow> c_int (new_year y) = new_year y"
  using new_year_near(2)[of y] new_year_mono[of 1 y] first_new_year by (intro c_int_id) simp_all

lemma SdnToJewish_numbered:
  assumes "JEWISH_SDN_OFFSET < s" "s \<le> JEWISH_SDN_MAX"
  shows "numbered (s - JEWISH_SDN_OFFSET) (SdnToJewish s)"
proof -
  define i where "i = s - JEWISH_SDN_OFFSET"
  have i: "1 \<le> i" "i \<le> 324194849" using assms by (simp_all add: i_def JEWISH_SDN_OFFSET_def JEWISH_SDN_MAX_def)
  obtain c m where f: "FindTishriMolad i = (c, m, molad_day (19 * c + m + 1), molad_time (19 * c + m + 1))"
      and cm: "0 \<le> c" "0 \<le> m" "m < 19" and near: "near_molad i (19 * c + m + 1)"
    using FindTishriMolad_near[of i] i by auto
  define y where "y = 19 * c + m + 1"
  have y2: "19 * c + m + 2 = y + 1" and year1: "c * 19 + m + 1 = y" by (simp_all add: y_def)
  have day: "molad_day y \<le> i + 314"
    using near i molad_day_succ(2)[of "y - 1"] new_year_near(1)[of 1] first_new_year unfolding y_def[symmetric] near_molad_def by auto
  have ids: "c_int (new_year y) = new_year y" "c_int (new_year (y + 1)) = new_year (y + 1)"
    using near day i molad_day_succ(2)[of y] unfolding y_def[symmetric] near_molad_def by (auto intro!: c_int_new_year)
  have s: "\<not> (s \<le> JEWISH_SDN_OFFSET \<or> s > JEWISH_SDN_MAX)" using assms by simp
  note T = Tishri1_new_year[OF cm(2,3), of c, folded y_def] Tishri1_next_year[OF cm(2,3), of c, unfolded y2]
  show ?thesis
  proof (cases "i \<ge> new_year y")
    case True
    then have "i \<le> new_year y + 75" "1 \<le> y" using near new_year_near(1)[of y] unfolding y_def[symmetric] near_molad_def by auto
    note r = start_of_year_case[OF True this]
    have "SdnToJewish s = (if i < new_year y + 59 then (if i < new_year y + 30 then (y, 1, i - new_year y + 1) else (y, 2, i - new_year y - 29))
        else heshvan_kislev y i (new_year y) (new_year (y + 1)))"
      using True cm add_year[OF cm(2,3), of c, unfolded y2, folded y_def] year1
      unfolding SdnToJewish_def i_def[symmetric] Let_def f y_def[symmetric] by (simp add: s T ids)
    then show ?thesis using r by (auto simp: numbered_def i_def[symmetric])
  next
    case False
    define z where "z = y - 1"
    then have z: "y = z + 1" by simp
    have "y \<noteq> 1" using False i first_new_year by auto
    then have y1: "1 \<le> z" "new_year z + 68 \<le> i" using near new_year_near(2)[of z] unfolding y_def[symmetric] near_molad_def z_def by auto
    have year: "c * 19 + m = z" by (simp add: z_def y_def)
    have leap: "monthsPerYear ! nat ((z - 1) mod 19) = 13 \<longleftrightarrow> jewish_leap z" by (simp add: jewish_leap_def leap_index_def)
    obtain c' m' where f': "FindTishriMolad (molad_day y - 365) = (c', m', molad_day (19 * c' + m' + 1), molad_time (19 * c' + m' + 1))"
        and cm': "0 \<le> c'" "0 \<le> m'" "m' < 19" and near': "near_molad (molad_day y - 365) (19 * c' + m' + 1)"
      using FindTishriMolad_near[of "molad_day y - 365"] molad_day_mono[of 1 y] day i new_year_near(2)[of 1] first_new_year y1 z by auto
    have y': "19 * c' + m' + 1 = z" using near_molad_before[OF near'] y1 z by simp
    note T' = Tishri1_new_year[OF cm'(2,3), of c', unfolded y']
    have id': "c_int (new_year z) = new_year z" using day i y1 new_year_near(1)[of z] by (intro c_int_new_year) auto
    have inner: "(case FindTishriMolad (molad_day y - 365) of (metonicCycle, metonicYear, day, halakim) \<Rightarrow>
         heshvan_kislev z i (c_int (Tishri1 metonicYear day halakim)) (new_year y)) = heshvan_kislev z i (new_year z) (new_year y)"
      by (simp add: f' y' T' id')
    show ?thesis
      unfolding SdnToJewish_def i_def[symmetric] Let_def f y_def[symmetric]
      using False end_of_year_case[of i z, folded z] end_of_year_kislev[OF y1, folded z] y1
      by (simp add: s T ids year leap inner)
  qed
qed

lemma c_int_new_year_small:
  assumes "1 \<le> y" "y \<le> 887566"
  shows "c_int (new_year y) = new_year y"
proof -
  have "molad_day y \<le> molad_day 887566" using molad_day_mono[OF assms(2)] assms(2) by simp
  also have "\<dots> \<le> 2000000000" by (simp add: molad_day_def molad_halakim_def months_before_def jewish_constants yearOffset_def)
  finally show ?thesis using assms by (simp add: c_int_new_year)
qed

lemma FindStartOfYear_eq:
  assumes "1 \<le> y" "y \<le> 887566"
  shows "FindStartOfYear y = ((y - 1) mod 19, molad_day y, molad_time y, new_year y)"
proof -
  obtain c m where y: "y - 1 = 19 * c + m" and m: "0 \<le> m" "m < 19" and c: "c = (y - 1) div 19" "m = (y - 1) mod 19" by (rule year_split)
  have y': "19 * c + m + 1 = y" using y by simp
  have cb: "0 \<le> c" "c \<le> 46713" using assms y m by simp_all
  have add: "add_halakim (HALAKIM_PER_LUNAR_CYCLE * yearOffset ! nat m) (MoladOfMetonicCycle c) = (molad_day y, molad_time y)"
    unfolding Molad_cycle[OF cb] using molad_at[of 0 c] molad_at[OF m, of c]
    by (intro add_molad) (simp add: y' yearOffset_def HALAKIM_PER_LUNAR_CYCLE_def)
  show ?thesis
    unfolding FindStartOfYear_def Let_def c(1)[symmetric] c(2)[symmetric] add
    using c_int_new_year_small[OF assms] by (simp add: new_year_def flip: c(2))
qed

lemma JewishToSdn_eq:
  assumes y: "1 \<le> y" and y': "y \<le> 887565" and m: "1 \<le> m" "m \<le> 13" and d: "1 \<le> d" "d \<le> 30"
  shows "JewishToSdn y m d = jewish_number (y, m, d) + JEWISH_SDN_OFFSET"
proof -
  have start: "FindStartOfYear y = ((y - 1) mod 19, molad_day y, molad_time y, new_year y)"
      "FindStartOfYear (c_int (y + 1)) = (y mod 19, molad_day (y + 1), molad_time (y + 1), new_year (y + 1))"
    using y y' FindStartOfYear_eq[of y] FindStartOfYear_eq[of "y + 1"] by (simp_all add: c_int_id)
  have year: "add_halakim (HALAKIM_PER_LUNAR_CYCLE * monthsPerYear ! nat ((y - 1) mod 19)) (molad_day y, molad_time y)
      = (molad_day (y + 1), molad_time (y + 1))"
    by (rule add_molad) (simp add: molad_succ)
  have tishri: "c_int (Tishri1 (((y - 1) mod 19 + 1) mod 19) (molad_day (y + 1)) (molad_time (y + 1))) = new_year (y + 1)"
    using c_int_new_year_small[of "y + 1"] y y' by (simp add: new_year_def mod_simps)
  have leap: "monthsPerYear ! nat ((y - 1) mod 19) = 12 \<longleftrightarrow> \<not> jewish_leap y"
    using table_facts(1)[of "(y - 1) mod 19"] by (simp add: jewish_leap_def)
  have "m = 1 \<or> m = 2 \<or> m = 3 \<or> m = 4 \<or> m = 5 \<or> m = 6 \<or> m = 7 \<or> m = 8 \<or> m = 9 \<or> m = 10 \<or> m = 11 \<or> m = 12 \<or> m = 13"
    using m by presburger
  then show ?thesis
    using y d by (elim disjE; simp add: JewishToSdn_def Let_def start year tishri leap jewish_number_def jewish_month_start_first
        jewish_month_start_from_first(1,2) jewish_month_start_from_last heshvan_def year_length_def)
qed

lemma JewishToSdn_new_year: "1 \<le> y \<Longrightarrow> y \<le> 887566 \<Longrightarrow> JewishToSdn y 1 1 = new_year y + JEWISH_SDN_OFFSET"
  by (simp add: JewishToSdn_def FindStartOfYear_eq)

lemma jewish_valid_day: "jewish_valid (y, m, d) \<Longrightarrow> d \<le> 30"
  by (auto simp: jewish_valid_def jewish_month_length_def heshvan_def kislev_def split: if_splits)

lemma jewish_advance:
  assumes "347998 \<le> s" "s < 324542846"
  shows "SdnToJewish (s + 1) = jewish_next (SdnToJewish s)"
proof -
  obtain y m d y' m' d' where dt: "SdnToJewish s = (y, m, d)" "SdnToJewish (s + 1) = (y', m', d')" by (metis prod_cases3)
  have n: "numbered (s - JEWISH_SDN_OFFSET) (y, m, d)" "numbered (s + 1 - JEWISH_SDN_OFFSET) (y', m', d')"
    using SdnToJewish_numbered[of s] SdnToJewish_numbered[of "s + 1"] assms dt by (simp_all add: jewish_constants)
  obtain y2 m2 d2 where nx: "jewish_next (y, m, d) = (y2, m2, d2)" by (metis prod_cases3)
  then have "jewish_valid (y2, m2, d2)" "jewish_number (y2, m2, d2) = jewish_number (y, m, d) + 1"
    using jewish_next_valid[of y m d] n by (auto simp: numbered_def)
  then have "(y', m', d') = (y2, m2, d2)" using n by (intro jewish_number_inj) (auto simp: numbered_def)
  then show ?thesis by (simp add: dt nx)
qed

lemma jewish_last_year: "new_year 887566 = 324180278"
  by (simp add: new_year_delay molad_day_def molad_time_def molad_halakim_def months_before_def jewish_constants jewish_leap_def
      leap_index_def monthsPerYear_def yearOffset_def delay_def)

lemma jewish_recover:
  assumes "347998 \<le> s" "s \<le> 324528274"
  shows "(case SdnToJewish s of (y, m, d) \<Rightarrow> JewishToSdn y m d) = s"
proof -
  obtain y m d where dt: "SdnToJewish s = (y, m, d)" by (metis prod_cases3)
  then have n: "jewish_valid (y, m, d)" "jewish_number (y, m, d) = s - JEWISH_SDN_OFFSET"
    using SdnToJewish_numbered[of s] assms by (simp_all add: numbered_def jewish_constants)
  have "\<not> 887566 \<le> y"
    using new_year_mono[of 887566 y] jewish_number_bounds(1)[OF n(1)] n(2) assms by (auto simp: jewish_last_year JEWISH_SDN_OFFSET_def)
  then have "JewishToSdn y m d = jewish_number (y, m, d) + JEWISH_SDN_OFFSET"
    using n(1) jewish_valid_day[OF n(1)] by (intro JewishToSdn_eq) (auto simp: jewish_valid_def)
  then show ?thesis using n(2) dt by simp
qed

interpretation jewish: calendar SdnToJewish JewishToSdn jewish_next 347998 324528274
proof
  show "347998 \<le> s \<Longrightarrow> s < 324528274 \<Longrightarrow> SdnToJewish (s + 1) = jewish_next (SdnToJewish s)" for s by (simp add: jewish_advance)
qed (rule jewish_recover)

lemma jewish_month_days:
  assumes "1 \<le> y" "y \<le> 887565" "1 \<le> m" "m \<le> 13"
  shows "(if m = 13 then JewishToSdn (y + 1) 1 1 else JewishToSdn y (m + 1) 1) - JewishToSdn y m 1 = jewish_month_length y m"
  using assms jewish_month_start_succ[of m y] jewish_month_start_from_last(10)[of y]
  by (cases "m = 13") (auto simp: JewishToSdn_eq JewishToSdn_new_year jewish_number_def)

text \<open>
  The last day that \<open>SdnToJewish\<close> accepts has a date, but the way back multiplies the number of
  its metonic cycle, 46715 or more, by 45971 in type \<open>int\<close>, which overflows from cycle 46714 on.
\<close>

lemma jewish_max_not_recovered: "SdnToJewish JEWISH_SDN_MAX = (887605, 12, 13)" "JewishToSdn 887605 12 13 < 0"
  by code_simp+

end
