(* ===== verification/PhpCalendar.thy ===== *)
theory PhpCalendar
  imports PhpJewish
begin

text \<open>
  The calendar extension: the conversions between day numbers and dates of the Gregorian
  (gregor.c), Julian (julian.c) and French republican calendar (french.c), beside the Jewish one
  of \<open>PhpJewish\<close>, the day of the week (dow.c) and the functions of calendar.c that use them. Numbers are integers; where the
  code keeps a value in an \<open>int\<close>, the narrowing is written out.
\<close>

definition ZLONG_MAX :: int where
  "ZLONG_MAX = 2 ^ 63 - 1"

definition INT_MAX :: int where
  "INT_MAX = 2 ^ 31 - 1"

definition INT_MIN :: int where
  "INT_MIN = - (2 ^ 31)"

section \<open>The code\<close>

text \<open>
  The month and day of a day of the year that starts with March, and the numbering of the
  years around the birth of Christ; both are the same lines in gregor.c and julian.c.
\<close>

definition march_date :: "int \<Rightarrow> int \<Rightarrow> date" where
  "march_date year dayOfYear =
     (let temp = dayOfYear * 5 - 3;
          month = temp div 153;
          day = temp mod 153 div 5 + 1;
          (year, month) = (if month < 10 then (year, month + 3) else (c_int (year + 1), month - 9));
          year = c_int (year - 4800);
          year = (if year \<le> 0 then c_int (year - 1) else year)
      in (year, month, day))"

definition SdnToGregorian :: "int \<Rightarrow> date" where
  "SdnToGregorian sdn =
     (if sdn \<le> 0 \<or> sdn > (ZLONG_MAX - 4 * 32045) div 4 then (0, 0, 0)
      else let temp = (sdn + 32045) * 4 - 1;
               century = c_int (temp div 146097);
               temp = temp mod 146097 div 4 * 4 + 3;
               year = c_int (c_int (century * 100) + temp div 1461);
               dayOfYear = temp mod 1461 div 4 + 1
           in march_date year dayOfYear)"

text \<open>The year that starts with March, and its month, of a date.\<close>

definition march_year :: "int \<Rightarrow> int \<Rightarrow> int \<times> int" where
  "march_year inputYear inputMonth =
     (let year = (if inputYear < 0 then c_int (inputYear + 4801) else c_int (inputYear + 4800))
      in if inputMonth > 2 then (year, inputMonth - 3) else (year - 1, inputMonth + 9))"

definition GregorianToSdn :: "int \<Rightarrow> int \<Rightarrow> int \<Rightarrow> int" where
  "GregorianToSdn inputYear inputMonth inputDay =
     (if inputYear = 0 \<or> inputYear < - 4714 \<or> inputMonth \<le> 0 \<or> inputMonth > 12 \<or> inputDay \<le> 0 \<or> inputDay > 31 then 0
      else if inputYear = - 4714 \<and> (inputMonth < 11 \<or> inputMonth = 11 \<and> inputDay < 25) then 0
      else let (year, month) = march_year inputYear inputMonth
           in year div 100 * 146097 div 4 + year mod 100 * 1461 div 4 + (month * 153 + 2) div 5 + inputDay - 32045)"

definition SdnToJulian :: "int \<Rightarrow> date" where
  "SdnToJulian sdn =
     (if sdn \<le> 0 then (0, 0, 0)
      else if sdn > (ZLONG_MAX - 32083 * 4 + 1) div 4 then (0, 0, 0)
      else let temp = sdn * 4 + (32083 * 4 - 1);
               yearl = temp div 1461
           in if yearl > INT_MAX \<or> yearl < INT_MIN then (0, 0, 0)
              else let year = c_int yearl;
                       dayOfYear = temp mod 1461 div 4 + 1
                   in march_date year dayOfYear)"

definition JulianToSdn :: "int \<Rightarrow> int \<Rightarrow> int \<Rightarrow> int" where
  "JulianToSdn inputYear inputMonth inputDay =
     (if inputYear = 0 \<or> inputYear < - 4713 \<or> inputMonth \<le> 0 \<or> inputMonth > 12 \<or> inputDay \<le> 0 \<or> inputDay > 31 then 0
      else if inputYear = - 4713 \<and> inputMonth = 1 \<and> inputDay = 1 then 0
      else let (year, month) = march_year inputYear inputMonth
           in year * 1461 div 4 + (month * 153 + 2) div 5 + inputDay - 32083)"

definition SdnToFrench :: "int \<Rightarrow> date" where
  "SdnToFrench sdn =
     (if sdn < 2375840 \<or> sdn > 2380952 then (0, 0, 0)
      else let temp = (sdn - 2375474) * 4 - 1;
               dayOfYear = temp mod 1461 div 4
           in (temp div 1461, dayOfYear div 30 + 1, dayOfYear mod 30 + 1))"

definition FrenchToSdn :: "int \<Rightarrow> int \<Rightarrow> int \<Rightarrow> int" where
  "FrenchToSdn year month day =
     (if year < 1 \<or> year > 14 \<or> month < 1 \<or> month > 13 \<or> day < 1 \<or> day > 30 then 0
      else year * 1461 div 4 + (month - 1) * 30 + day + 2375474)"

text \<open>The remainder of C has the sign of the dividend.\<close>

definition c_rem :: "int \<Rightarrow> int \<Rightarrow> int" where
  "c_rem a b = (if 0 \<le> a then a mod b else - (- a mod b))"

definition DayOfWeek :: "int \<Rightarrow> int" where
  "DayOfWeek sdn = (let dow = c_rem (sdn + 1) 7 in if dow \<ge> 0 then dow else dow + 7)"

text \<open>calendar.c: the table of calendars and two functions on it.\<close>

datatype cal_name_type_t = CAL_GREGORIAN | CAL_JULIAN | CAL_JEWISH | CAL_FRENCH

record cal_entry_t =
  to_jd :: "int \<Rightarrow> int \<Rightarrow> int \<Rightarrow> int"
  from_jd :: "int \<Rightarrow> date"
  num_months :: int
  max_days_in_month :: int

definition cal_conversion_table :: "cal_name_type_t \<Rightarrow> cal_entry_t" where
  "cal_conversion_table cal =
     (case cal of
        CAL_GREGORIAN \<Rightarrow> \<lparr>to_jd = GregorianToSdn, from_jd = SdnToGregorian, num_months = 12, max_days_in_month = 31\<rparr>
      | CAL_JULIAN \<Rightarrow> \<lparr>to_jd = JulianToSdn, from_jd = SdnToJulian, num_months = 12, max_days_in_month = 31\<rparr>
      | CAL_JEWISH \<Rightarrow> \<lparr>to_jd = JewishToSdn, from_jd = SdnToJewish, num_months = 13, max_days_in_month = 30\<rparr>
      | CAL_FRENCH \<Rightarrow> \<lparr>to_jd = FrenchToSdn, from_jd = SdnToFrench, num_months = 13, max_days_in_month = 30\<rparr>)"

definition days_in_month :: "cal_name_type_t \<Rightarrow> int \<Rightarrow> int \<Rightarrow> int option" where
  "days_in_month cal month year =
     (let calendar = cal_conversion_table cal;
          sdn_start = to_jd calendar (c_int year) (c_int month) 1
      in if sdn_start = 0 then None
         else let sdn_next = to_jd calendar (c_int year) (c_int (1 + month)) 1;
                  sdn_next =
                    (if sdn_next \<noteq> 0 then sdn_next
                     else if year = - 1 then to_jd calendar 1 1 1
                     else let sdn_next = to_jd calendar (c_int (year + 1)) 1 1
                          in if cal = CAL_FRENCH \<and> sdn_next = 0 then 2380953 else sdn_next)
              in Some (sdn_next - sdn_start))"

text \<open>The PHP functions take the number of the calendar and return \<open>FALSE\<close>, here \<open>None\<close>, for any other number.\<close>

definition cal_of_id :: "int \<Rightarrow> cal_name_type_t option" where
  "cal_of_id cal =
     (if cal < 0 \<or> cal \<ge> 4 then None
      else Some (if cal = 0 then CAL_GREGORIAN else if cal = 1 then CAL_JULIAN else if cal = 2 then CAL_JEWISH else CAL_FRENCH))"

definition cal_days_in_month :: "int \<Rightarrow> int \<Rightarrow> int \<Rightarrow> int option" where
  "cal_days_in_month cal month year =
     (case cal_of_id cal of None \<Rightarrow> None | Some c \<Rightarrow> days_in_month c month year)"

definition cal_to_jd :: "int \<Rightarrow> int \<Rightarrow> int \<Rightarrow> int \<Rightarrow> int option" where
  "cal_to_jd cal month day year =
     (case cal_of_id cal of None \<Rightarrow> None
      | Some c \<Rightarrow> Some (to_jd (cal_conversion_table c) (c_int year) (c_int month) (c_int day)))"

section \<open>Calendars by their rules\<close>

text \<open>Years without a year 0: the year before 1 is -1. The leap-year rules count it as 0.\<close>

definition astro :: "int \<Rightarrow> int" where
  "astro y = (if y < 0 then y + 1 else y)"

definition next_year :: "int \<Rightarrow> int" where
  "next_year y = (if y = - 1 then 1 else y + 1)"

definition gregorian_leap :: "int \<Rightarrow> bool" where
  "gregorian_leap y \<longleftrightarrow> astro y mod 4 = 0 \<and> (astro y mod 100 \<noteq> 0 \<or> astro y mod 400 = 0)"

definition julian_leap :: "int \<Rightarrow> bool" where
  "julian_leap y \<longleftrightarrow> astro y mod 4 = 0"

definition month_length :: "(int \<Rightarrow> bool) \<Rightarrow> int \<Rightarrow> int \<Rightarrow> int" where
  "month_length leap y m = (if m = 2 then (if leap y then 29 else 28) else if m \<in> {4, 6, 9, 11} then 30 else 31)"

definition french_month_length :: "int \<Rightarrow> int \<Rightarrow> int" where
  "french_month_length y m = (if m \<le> 12 then 30 else if y mod 4 = 3 then 6 else 5)"

definition next_day :: "(int \<Rightarrow> int \<Rightarrow> int) \<Rightarrow> int \<Rightarrow> date \<Rightarrow> date" where
  "next_day len months = (\<lambda>(y, m, d).
     if d < len y m then (y, m, d + 1) else if m < months then (y, m + 1, 1) else (next_year y, 1, 1))"

section \<open>Cycles of four\<close>

text \<open>
  Four periods of \<open>k\<close> days and a leap day, \<open>K = 4 * k + 1\<close> days in all: the quotient of
  \<open>4 * t + 3\<close> by \<open>K\<close> counts the periods before day \<open>t\<close>, the quarter of the remainder the days
  in the period.
\<close>

lemma unsplit4:
  fixes k :: int
  assumes "K = 4 * k + 1" "0 \<le> b" "b \<le> 3" "0 \<le> r" "4 * r + 3 - b < K" "t = K * a + k * b + r"
  shows "(4 * t + 3) div K = 4 * a + b" "(4 * t + 3) mod K div 4 = r"
proof -
  have e: "4 * t + 3 = K * (4 * a + b) + (4 * r + 3 - b)" using assms(1,6) by (simp add: algebra_simps)
  have m: "0 \<le> 4 * r + 3 - b" using assms by simp
  show "(4 * t + 3) div K = 4 * a + b" by (rule int_div_pos_eq[OF e m assms(5)])
  have "(4 * t + 3) mod K = 4 * r + 3 - b" by (rule int_mod_pos_eq[OF e m assms(5)])
  moreover have "(4 * r + 3 - b) div 4 = r" using assms(2,3) by presburger
  ultimately show "(4 * t + 3) mod K div 4 = r" by simp
qed

lemma quarter_div:
  fixes k :: int
  assumes "0 \<le> b" "b \<le> 3"
  shows "(4 * a + b) * (4 * k + 1) div 4 = (4 * k + 1) * a + k * b"
  by (rule int_div_pos_eq[of _ _ _ b]) (use assms in \<open>simp_all add: algebra_simps\<close>)

lemma split4:
  fixes k :: int
  assumes "K = 4 * k + 1" "0 < k"
  obtains a b r where "0 \<le> b" "b \<le> 3" "0 \<le> r" "4 * r + 3 - b < K" "t = K * a + k * b + r"
proof -
  define q m where "q = (4 * t + 3) div K" and "m = (4 * t + 3) mod K"
  have "0 < K" using assms by simp
  then have qm: "4 * t + 3 = K * q + m" "0 \<le> m" "m < K" by (simp_all add: q_def m_def)
  have "4 * t + 3 = 4 * (k * q) + (q + m)" using qm(1) assms(1) by (simp add: algebra_simps)
  then have "m mod 4 = 3 - q mod 4" by presburger
  then have m: "m = 4 * (m div 4) + 3 - q mod 4" by presburger
  define a b r where "a = q div 4" and "b = q mod 4" and "r = m div 4"
  then have d: "q = 4 * a + b" "m = 4 * r + 3 - b" "0 \<le> b" "b \<le> 3" "0 \<le> r" using m qm(2) by simp_all
  have "4 * t = 4 * (K * a + k * b + r)" using qm(1) unfolding d(1,2) assms(1) by (simp add: algebra_simps)
  then have "t = K * a + k * b + r" by simp
  moreover have "4 * r + 3 - b < K" using qm(3) d(2) by simp
  ultimately show ?thesis using d(3-5) that by blast
qed

lemmas unsplit_century = unsplit4[of 146097 36524, simplified]
  and unsplit_year = unsplit4[of 1461 365, simplified]
  and quarter_century = quarter_div[where k = 36524, simplified] and quarter_year = quarter_div[where k = 365, simplified]

section \<open>Years that start with March\<close>

text \<open>Month and day of a day of the year, both counted from 0 in March.\<close>

definition march_md :: "int \<Rightarrow> int \<times> int" where
  "march_md doy = ((doy * 5 + 2) div 153, (doy * 5 + 2) mod 153 div 5 + 1)"

definition march_length :: "int \<Rightarrow> int" where
  "march_length mm = (if mm = 11 then 29 else if mm \<in> {1, 3, 6, 8} then 30 else 31)"

definition md_ok :: "int \<Rightarrow> bool" where
  "md_ok doy = (case march_md doy of (mm, dd) \<Rightarrow>
     0 \<le> mm \<and> mm \<le> 11 \<and> 1 \<le> dd \<and> dd \<le> march_length mm \<and> (mm * 153 + 2) div 5 + dd = doy + 1
     \<and> (if dd < march_length mm then march_md (doy + 1) = (mm, dd + 1) else mm < 11 \<longrightarrow> march_md (doy + 1) = (mm + 1, 1))
     \<and> (mm = 11 \<longleftrightarrow> 337 \<le> doy))"

lemma md_table: "list_all md_ok [0..365]"
  by code_simp

lemma md_ok: "0 \<le> doy \<Longrightarrow> doy \<le> 365 \<Longrightarrow> md_ok doy"
  using md_table by (simp add: list_all_iff)

text \<open>The year shown for a count of years from -4800.\<close>

definition shown_year :: "int \<Rightarrow> int" where
  "shown_year Y = (if Y - 4800 \<le> 0 then Y - 4801 else Y - 4800)"

definition mdate :: "int \<Rightarrow> int \<Rightarrow> date" where
  "mdate Y doy = (case march_md doy of (mm, dd) \<Rightarrow>
     if mm < 10 then (shown_year Y, mm + 3, dd) else (shown_year (Y + 1), mm - 9, dd))"

lemma march_date_mdate:
  assumes "0 \<le> Y" "Y < 2 ^ 31 - 1" "0 \<le> doy" "doy \<le> 365"
  shows "march_date Y (doy + 1) = mdate Y doy"
proof -
  have "c_int (Y + 1) = Y + 1" "c_int (Y - 4800) = Y - 4800" "c_int (Y - 4800 - 1) = Y - 4801"
    "c_int (Y + 1 - 4800) = Y - 4799" "c_int (Y - 4799 - 1) = Y - 4800" using assms by (auto intro!: c_int_id)
  moreover have t: "(doy + 1) * 5 - 3 = doy * 5 + 2" by simp
  ultimately show ?thesis unfolding march_date_def mdate_def march_md_def shown_year_def Let_def t by auto
qed

lemma march_year_mdate:
  assumes "0 \<le> Y" "Y < 2 ^ 31 - 4801" "0 \<le> doy" "doy \<le> 365"
  shows "case mdate Y doy of (y, m, d) \<Rightarrow> march_year y m = (Y, fst (march_md doy)) \<and> d = snd (march_md doy)
    \<and> 1 \<le> m \<and> m \<le> 12 \<and> 1 \<le> d \<and> d \<le> 31 \<and> y \<noteq> 0"
proof -
  have c: "c_int Y = Y" "c_int (Y + 1) = Y + 1" using assms by (auto intro!: c_int_id)
  obtain mm dd where md: "march_md doy = (mm, dd)" by (cases "march_md doy")
  have "0 \<le> mm" "mm \<le> 11" "1 \<le> dd" "dd \<le> march_length mm" using md_ok[OF assms(3,4)] md by (simp_all add: md_ok_def)
  moreover have "march_length mm \<le> 31" by (simp add: march_length_def)
  ultimately show ?thesis using md c by (auto simp: mdate_def march_year_def shown_year_def Let_def algebra_simps)
qed

lemma astro_shown: "astro (shown_year Y) = Y - 4800"
  by (simp add: astro_def shown_year_def)

lemma next_shown: "next_year (shown_year Y) = shown_year (Y + 1)"
  by (auto simp: next_year_def shown_year_def)

text \<open>The rules of the months, day by day.\<close>

lemma march_step:
  assumes "0 \<le> doy" "doy < 364 \<or> doy = 364 \<and> leap (shown_year (Y + 1))"
  shows "next_day (month_length leap) 12 (mdate Y doy) = mdate Y (doy + 1)"
proof -
  obtain mm dd where md: "march_md doy = (mm, dd)" by (cases "march_md doy")
  have ok: "md_ok doy" using assms by (intro md_ok) auto
  then have r: "0 \<le> mm" "mm \<le> 11" "dd \<le> march_length mm" "mm = 11 \<Longrightarrow> 154 * 11 + doy = 0 \<or> dd = doy - 336"
    using md by (simp_all add: md_ok_def)
  have n: "if dd < march_length mm then march_md (doy + 1) = (mm, dd + 1) else mm < 11 \<longrightarrow> march_md (doy + 1) = (mm + 1, 1)"
    using ok md by (simp add: md_ok_def)
  consider "dd < march_length mm" "march_md (doy + 1) = (mm, dd + 1)" | "dd = march_length mm" "mm < 11" "march_md (doy + 1) = (mm + 1, 1)"
    | "dd = march_length mm" "mm = 11" using n r by (cases "mm = 11") (auto split: if_splits)
  then show ?thesis
  proof cases
    case 1
    then have "mm = 11 \<Longrightarrow> dd < 28 \<or> leap (shown_year (Y + 1))" using r(4) assms by (auto simp: march_length_def)
    then have "dd < month_length leap (if mm < 10 then shown_year Y else shown_year (Y + 1)) (if mm < 10 then mm + 3 else mm - 9)"
      using 1(1) r(1,2) by (auto simp: month_length_def march_length_def split: if_splits)
    then show ?thesis using 1(2) md by (simp add: next_day_def mdate_def split: if_splits)
  next
    case 2
    then have "dd = month_length leap (if mm < 10 then shown_year Y else shown_year (Y + 1)) (if mm < 10 then mm + 3 else mm - 9)"
      using r(1) by (auto simp: month_length_def march_length_def split: if_splits)
    then show ?thesis using 2(2,3) md by (auto simp: next_day_def mdate_def next_shown)
  next
    case 3
    then show ?thesis using r(4) assms by (auto simp: march_length_def)
  qed
qed

lemma march_wrap:
  assumes "doy = 364 \<and> \<not> leap (shown_year (Y + 1)) \<or> doy = 365"
  shows "next_day (month_length leap) 12 (mdate Y doy) = mdate (Y + 1) 0"
proof -
  have "march_md 364 = (11, 28)" "march_md 365 = (11, 29)" "march_md 0 = (0, 1)" by code_simp+
  then show ?thesis using assms by (auto simp: next_day_def mdate_def month_length_def)
qed

section \<open>The Gregorian calendar\<close>

text \<open>The year and day of the year of a day counted from 1 March -4800, as the code computes them.\<close>

definition greg :: "int \<Rightarrow> date" where
  "greg t = (let R = (4 * t + 3) mod 146097 div 4
     in mdate (100 * ((4 * t + 3) div 146097) + (4 * R + 3) div 1461) ((4 * R + 3) mod 1461 div 4))"

definition greg_sdn :: "int \<Rightarrow> int \<Rightarrow> int" where
  "greg_sdn Y doy = Y div 100 * 146097 div 4 + Y mod 100 * 1461 div 4 + doy - 32044"

text \<open>The parts of a day: centuries, years and days in cycles of four.\<close>

definition greg_parts :: "int \<Rightarrow> int \<Rightarrow> int \<Rightarrow> int \<Rightarrow> int \<Rightarrow> int \<Rightarrow> bool" where
  "greg_parts t a b e f doy \<longleftrightarrow> 0 \<le> b \<and> b \<le> 3 \<and> 0 \<le> f \<and> f \<le> 3 \<and> 0 \<le> doy \<and> 4 * doy + 3 - f < 1461
     \<and> 0 \<le> 1461 * e + 365 * f + doy \<and> 4 * (1461 * e + 365 * f + doy) + 3 - b < 146097
     \<and> t = 146097 * a + 36524 * b + (1461 * e + 365 * f + doy)"

lemma greg_parts_greg:
  assumes "greg_parts t a b e f doy"
  shows "greg t = mdate (100 * (4 * a + b) + (4 * e + f)) doy"
    "(4 * t + 3) div 146097 = 4 * a + b" "(4 * t + 3) mod 146097 div 4 = 1461 * e + 365 * f + doy"
    "(4 * (1461 * e + 365 * f + doy) + 3) div 1461 = 4 * e + f" "(4 * (1461 * e + 365 * f + doy) + 3) mod 1461 div 4 = doy"
proof -
  let ?R = "1461 * e + 365 * f + doy"
  show c: "(4 * t + 3) div 146097 = 4 * a + b" "(4 * t + 3) mod 146097 div 4 = ?R"
    using assms unfolding greg_parts_def by (intro unsplit_century; simp)+
  show y: "(4 * ?R + 3) div 1461 = 4 * e + f" "(4 * ?R + 3) mod 1461 div 4 = doy"
    using assms unfolding greg_parts_def by (intro unsplit_year; simp)+
  show "greg t = mdate (100 * (4 * a + b) + (4 * e + f)) doy" unfolding greg_def c y Let_def ..
qed

lemma greg_parts_ex: obtains a b e f doy where "greg_parts t a b e f doy"
proof -
  obtain a b r where c: "0 \<le> b" "b \<le> 3" "0 \<le> r" "4 * r + 3 - b < 146097" "t = 146097 * a + 36524 * b + r" by (rule split4[of 146097 36524 t]) simp_all
  obtain e f d where y: "0 \<le> f" "f \<le> 3" "0 \<le> d" "4 * d + 3 - f < 1461" "r = 1461 * e + 365 * f + d" by (rule split4[of 1461 365 r]) simp_all
  have "greg_parts t a b e f d" using c y by (simp add: greg_parts_def)
  then show ?thesis by (rule that)
qed

lemma mod_eq_0_full: "0 < y \<Longrightarrow> y \<le> n \<Longrightarrow> (n * x + y) mod n = 0 \<longleftrightarrow> y = n" for n :: int
  by (cases "y = n") simp_all

lemma greg_leap:
  assumes "0 \<le> b" "b \<le> 3" "0 \<le> f" "f \<le> 3" "0 \<le> e" "e \<le> 24"
  shows "gregorian_leap (shown_year (100 * (4 * a + b) + (4 * e + f) + 1)) \<longleftrightarrow> f = 3 \<and> (e = 24 \<longrightarrow> b = 3)"
proof -
  let ?A = "100 * (4 * a + b) + (4 * e + f) + 1 - 4800"
  have A: "?A = 4 * (100 * a + 25 * b + e - 1200) + (f + 1)" by simp
  have "?A mod 4 = 0 \<longleftrightarrow> f + 1 = 4" unfolding A by (rule mod_eq_0_full) (use assms(3,4) in simp_all)
  then have "?A mod 4 = 0 \<longleftrightarrow> f = 3" by simp
  moreover have "?A mod 100 = 0 \<longleftrightarrow> e = 24" if "f = 3"
  proof -
    have A: "?A = 100 * (4 * a + b - 48) + (4 * e + 4)" using that by simp
    have "?A mod 100 = 0 \<longleftrightarrow> 4 * e + 4 = 100" unfolding A by (rule mod_eq_0_full) (use assms(5,6) in simp_all)
    then show ?thesis by simp
  qed
  moreover have "?A mod 400 = 0 \<longleftrightarrow> b = 3" if "f = 3" "e = 24"
  proof -
    have A: "?A = 400 * (a - 12) + (100 * b + 100)" using that by simp
    have "?A mod 400 = 0 \<longleftrightarrow> 100 * b + 100 = 400" unfolding A by (rule mod_eq_0_full) (use assms(1,2) in simp_all)
    then show ?thesis by simp
  qed
  ultimately show ?thesis unfolding gregorian_leap_def astro_shown by metis
qed

lemma greg_advance: "greg (t + 1) = next_day (month_length gregorian_leap) 12 (greg t)"
proof -
  obtain a b e f doy where g: "greg_parts t a b e f doy" by (rule greg_parts_ex)
  let ?Y = "100 * (4 * a + b) + (4 * e + f)" and ?R = "1461 * e + 365 * f + doy"
  have b: "0 \<le> b" "b \<le> 3" "0 \<le> f" "f \<le> 3" "0 \<le> doy" "4 * doy + 3 - f < 1461" "0 \<le> ?R" "4 * ?R + 3 - b < 146097"
    "t = 146097 * a + 36524 * b + ?R" using g by (simp_all add: greg_parts_def)
  have e: "0 \<le> e" "e \<le> 24" using b by auto
  note leap = greg_leap[OF b(1-4) e, of a]
  consider (day) "4 * (?R + 1) + 3 - b < 146097" "4 * (doy + 1) + 3 - f < 1461"
    | (year) "4 * (?R + 1) + 3 - b < 146097" "\<not> 4 * (doy + 1) + 3 - f < 1461"
    | (century) "\<not> 4 * (?R + 1) + 3 - b < 146097" by blast
  then show ?thesis
  proof cases
    case day
    have "greg_parts (t + 1) a b e f (doy + 1)" using b day by (simp add: greg_parts_def)
    moreover have "doy < 364 \<or> doy = 364 \<and> f = 3 \<and> (e = 24 \<longrightarrow> b = 3)" using b day by auto
    ultimately show ?thesis using greg_parts_greg(1) g march_step[OF b(5), of gregorian_leap ?Y] leap by simp
  next
    case year
    have d: "doy = 364 \<and> f \<noteq> 3 \<or> doy = 365 \<and> f = 3" using b(3,4,6) year(2) by presburger
    then have "greg_parts (t + 1) a b (if f = 3 then e + 1 else e) (if f = 3 then 0 else f + 1) 0"
      using b year(1) by (auto simp: greg_parts_def)
    with d show ?thesis using greg_parts_greg(1) g march_wrap[of doy gregorian_leap ?Y] leap by (auto simp: algebra_simps)
  next
    case century
    have "greg_parts (t + 1) (if b = 3 then a + 1 else a) (if b = 3 then 0 else b + 1) 0 0 0" using b century by (auto simp: greg_parts_def)
    moreover have "f = 3 \<and> e = 24 \<and> (doy = 364 \<and> b \<noteq> 3 \<or> doy = 365)"
    proof -
      have R: "?R = (if b = 3 then 36524 else 36523)" using b(1,2,8) century by auto
      then have "\<not> e \<le> 23" using b(4,6) by (auto split: if_splits)
      then have e: "e = 24" using e by simp
      then have "\<not> f \<le> 2" using R b(6) by (auto split: if_splits)
      then have "f = 3" using b by simp
      then show ?thesis using R e by (auto split: if_splits)
    qed
    ultimately show ?thesis using greg_parts_greg(1) g march_wrap[of doy gregorian_leap ?Y] leap by (auto simp: algebra_simps)
  qed
qed

lemma SdnToGregorian_greg:
  assumes "0 < sdn" "sdn \<le> 2 ^ 39"
  shows "SdnToGregorian sdn = greg (sdn + 32044)"
proof -
  let ?t = "sdn + 32044"
  obtain a b e f doy where g: "greg_parts ?t a b e f doy" by (rule greg_parts_ex)
  have bd: "0 \<le> b" "b \<le> 3" "0 \<le> f" "f \<le> 3" "0 \<le> doy" "doy \<le> 365" "0 \<le> e" "e \<le> 24" "0 \<le> a" "a \<le> 3763000"
    using g assms by (auto simp: greg_parts_def)
  have t: "(sdn + 32045) * 4 - 1 = 4 * ?t + 3" by simp
  have w: "R div 4 * 4 + 3 = 4 * (R div 4) + 3" for R :: int by simp
  have y: "100 * (4 * a + b) + (4 * e + f) = (4 * a + b) * 100 + (4 * e + f)" by simp
  have "c_int (4 * a + b) = 4 * a + b" "c_int ((4 * a + b) * 100) = (4 * a + b) * 100"
    "c_int ((4 * a + b) * 100 + (4 * e + f)) = (4 * a + b) * 100 + (4 * e + f)" using bd by (auto intro!: c_int_id)
  moreover have "march_date ((4 * a + b) * 100 + (4 * e + f)) (doy + 1) = mdate ((4 * a + b) * 100 + (4 * e + f)) doy"
    using bd by (intro march_date_mdate) auto
  moreover have "\<not> (sdn \<le> 0 \<or> sdn > (ZLONG_MAX - 4 * 32045) div 4)" using assms by (simp add: ZLONG_MAX_def)
  ultimately show ?thesis unfolding SdnToGregorian_def Let_def t w greg_parts_greg[OF g] y by simp
qed

text \<open>Day 1 is 25 November -4714, so the date of a day number passes the checks of the way back.\<close>

lemma first_gregorian:
  assumes "mdate Y doy = (y, m, d)" "md_ok doy" "(fst (march_md doy) * 153 + 2) div 5 + d = doy + 1"
    "87 < Y \<or> Y = 87 \<and> 269 \<le> doy"
  shows "\<not> (y < - 4714 \<or> y = - 4714 \<and> (m < 11 \<or> m = 11 \<and> d < 25))"
proof -
  obtain mm dd where md: "march_md doy = (mm, dd)" by (cases "march_md doy")
  have mm: "0 \<le> mm" "(mm * 153 + 2) div 5 + d = doy + 1" "d \<le> 31"
    using assms(1-3) md by (auto simp: md_ok_def march_length_def mdate_def split: if_splits)
  have y: "y = (if mm < 10 then shown_year Y else shown_year (Y + 1))" "m = (if mm < 10 then mm + 3 else mm - 9)"
    using assms(1) md by (auto simp: mdate_def split: if_splits)
  show ?thesis
  proof (cases "Y = 87 \<and> mm < 10")
    case True
    then have "270 \<le> (mm * 153 + 2) div 5 + d" using mm assms(4) by simp
    moreover have "5 * ((mm * 153 + 2) div 5) \<le> mm * 153 + 2" by simp
    ultimately have "8 \<le> mm \<and> (mm = 8 \<longrightarrow> 25 \<le> d)" using mm(3) by auto
    then show ?thesis using y True by (auto simp: shown_year_def)
  next
    case False
    then show ?thesis using y assms(4) by (auto simp: shown_year_def split: if_splits)
  qed
qed

lemma gregorian_sdn:
  assumes "0 < sdn" "sdn \<le> 2 ^ 39"
  shows "(case SdnToGregorian sdn of (y, m, d) \<Rightarrow> GregorianToSdn y m d) = sdn"
proof -
  obtain a b e f doy where g: "greg_parts (sdn + 32044) a b e f doy" by (rule greg_parts_ex)
  let ?Y = "100 * (4 * a + b) + (4 * e + f)"
  have bd: "0 \<le> b" "b \<le> 3" "0 \<le> f" "f \<le> 3" "0 \<le> doy" "doy \<le> 365" "0 \<le> e" "e \<le> 24" "0 \<le> a" "a \<le> 3763000"
    "sdn + 32044 = 146097 * a + 36524 * b + (1461 * e + 365 * f + doy)"
    using g assms by (auto simp: greg_parts_def)
  obtain y m d where ymd: "mdate ?Y doy = (y, m, d)" by (cases "mdate ?Y doy")
  have s: "SdnToGregorian sdn = (y, m, d)" using SdnToGregorian_greg[OF assms] greg_parts_greg(1)[OF g] ymd by simp
  have my: "march_year y m = (?Y, fst (march_md doy))" "d = snd (march_md doy)" "1 \<le> m" "m \<le> 12" "1 \<le> d" "d \<le> 31" "y \<noteq> 0"
    using march_year_mdate[of ?Y doy] bd ymd by auto
  have "md_ok doy" using bd by (intro md_ok)
  then have doy: "(fst (march_md doy) * 153 + 2) div 5 + d = doy + 1" using my(2) by (auto simp: md_ok_def)
  have Y: "?Y div 100 = 4 * a + b" "?Y mod 100 = 4 * e + f"
    using bd by (auto intro!: int_div_pos_eq[of _ _ _ "4 * e + f"] int_mod_pos_eq[of _ _ "4 * a + b"])
  note c = quarter_century[OF bd(1,2), of a] quarter_year[OF bd(3,4), of e]
  have "\<not> (y < - 4714 \<or> y = - 4714 \<and> (m < 11 \<or> m = 11 \<and> d < 25))"
  proof (rule first_gregorian[OF ymd \<open>md_ok doy\<close> doy])
    show "87 < ?Y \<or> ?Y = 87 \<and> 269 \<le> doy"
    proof (cases "a = 0 \<and> b = 0")
      case True
      then have "32045 \<le> 1461 * e + 365 * f + doy" using bd(11) assms(1) by simp
      moreover have "4 * e + f = 87 \<Longrightarrow> e = 21 \<and> f = 3" using bd(3,4) by presburger
      ultimately show ?thesis using True bd(3,6) by auto
    next
      case False
      then have "1 \<le> 4 * a + b" using bd(1,9) by auto
      then show ?thesis using bd(3,7) by auto
    qed
  qed
  then show ?thesis unfolding s using my doy Y c bd(11) by (auto simp: GregorianToSdn_def)
qed

interpretation gregorian: calendar SdnToGregorian GregorianToSdn "next_day (month_length gregorian_leap) 12" 1 "2 ^ 39"
proof
  fix s :: int
  assume "1 \<le> s" "s < 2 ^ 39"
  then show "SdnToGregorian (s + 1) = next_day (month_length gregorian_leap) 12 (SdnToGregorian s)"
    using greg_advance[of "s + 32044"] SdnToGregorian_greg[of s] SdnToGregorian_greg[of "s + 1"] by (simp add: ac_simps)
qed (simp add: gregorian_sdn)

section \<open>The Julian calendar\<close>

definition jul :: "int \<Rightarrow> date" where
  "jul t = mdate ((4 * t + 3) div 1461) ((4 * t + 3) mod 1461 div 4)"

definition jul_parts :: "int \<Rightarrow> int \<Rightarrow> int \<Rightarrow> int \<Rightarrow> bool" where
  "jul_parts t e f doy \<longleftrightarrow> 0 \<le> f \<and> f \<le> 3 \<and> 0 \<le> doy \<and> 4 * doy + 3 - f < 1461 \<and> t = 1461 * e + 365 * f + doy"

lemma jul_parts_jul:
  assumes "jul_parts t e f doy"
  shows "(4 * t + 3) div 1461 = 4 * e + f" "(4 * t + 3) mod 1461 div 4 = doy" "jul t = mdate (4 * e + f) doy"
proof -
  show y: "(4 * t + 3) div 1461 = 4 * e + f" "(4 * t + 3) mod 1461 div 4 = doy"
    using assms unfolding jul_parts_def by (intro unsplit_year; simp)+
  show "jul t = mdate (4 * e + f) doy" unfolding jul_def y ..
qed

lemma jul_parts_ex: obtains e f doy where "jul_parts t e f doy"
proof -
  obtain e f d where "0 \<le> f" "f \<le> 3" "0 \<le> d" "4 * d + 3 - f < 1461" "t = 1461 * e + 365 * f + d" by (rule split4[of 1461 365 t]) simp_all
  then show ?thesis using that[of e f d] by (simp add: jul_parts_def)
qed

lemma jul_leap:
  assumes "0 \<le> f" "f \<le> 3"
  shows "julian_leap (shown_year (4 * e + f + 1)) \<longleftrightarrow> f = 3"
proof -
  have A: "4 * e + f + 1 - 4800 = 4 * (e - 1200) + (f + 1)" by simp
  have "(4 * e + f + 1 - 4800) mod 4 = 0 \<longleftrightarrow> f + 1 = 4" unfolding A by (rule mod_eq_0_full) (use assms in simp_all)
  then show ?thesis unfolding julian_leap_def astro_shown by simp
qed

lemma jul_advance: "jul (t + 1) = next_day (month_length julian_leap) 12 (jul t)"
proof -
  obtain e f doy where g: "jul_parts t e f doy" by (rule jul_parts_ex)
  then have b: "0 \<le> f" "f \<le> 3" "0 \<le> doy" "4 * doy + 3 - f < 1461" by (simp_all add: jul_parts_def)
  note leap = jul_leap[OF b(1,2), of e]
  show ?thesis
  proof (cases "4 * (doy + 1) + 3 - f < 1461")
    case True
    then have "jul_parts (t + 1) e f (doy + 1)" "doy < 364 \<or> doy = 364 \<and> f = 3" using g b by (auto simp: jul_parts_def)
    then show ?thesis using jul_parts_jul(3) g march_step[OF b(3), of julian_leap "4 * e + f"] leap by simp
  next
    case False
    then have d: "doy = 364 \<and> f \<noteq> 3 \<or> doy = 365 \<and> f = 3" using b(1,2,4) False by presburger
    then have "jul_parts (t + 1) (if f = 3 then e + 1 else e) (if f = 3 then 0 else f + 1) 0" using g by (auto simp: jul_parts_def)
    with d show ?thesis using jul_parts_jul(3) g march_wrap[of doy julian_leap "4 * e + f"] leap by (auto simp: algebra_simps)
  qed
qed

lemma SdnToJulian_jul:
  assumes "0 < sdn" "sdn \<le> 2 ^ 39"
  shows "SdnToJulian sdn = jul (sdn + 32082)"
proof -
  let ?t = "sdn + 32082"
  obtain e f doy where g: "jul_parts ?t e f doy" by (rule jul_parts_ex)
  have bd: "0 \<le> f" "f \<le> 3" "0 \<le> doy" "doy \<le> 365" "0 \<le> e" "e \<le> 376300000" using g assms by (auto simp: jul_parts_def)
  have t: "sdn * 4 + (32083 * 4 - 1) = 4 * ?t + 3" by simp
  have "c_int (4 * e + f) = 4 * e + f" using bd by (auto intro!: c_int_id)
  moreover have "march_date (4 * e + f) (doy + 1) = mdate (4 * e + f) doy" using bd by (intro march_date_mdate) auto
  moreover have "\<not> sdn > (ZLONG_MAX - 32083 * 4 + 1) div 4" using assms by (simp add: ZLONG_MAX_def)
  ultimately show ?thesis unfolding SdnToJulian_def Let_def t jul_parts_jul[OF g] using assms(1) bd by (simp add: INT_MAX_def INT_MIN_def)
qed

text \<open>Day 1 is 2 January -4713.\<close>

lemma first_julian:
  assumes "mdate Y doy = (y, m, d)" "md_ok doy" "(fst (march_md doy) * 153 + 2) div 5 + d = doy + 1"
    "87 < Y \<or> Y = 87 \<and> 307 \<le> doy"
  shows "\<not> (y < - 4713 \<or> y = - 4713 \<and> m = 1 \<and> d = 1)"
proof -
  obtain mm dd where md: "march_md doy = (mm, dd)" by (cases "march_md doy")
  have mm: "0 \<le> mm" "(mm * 153 + 2) div 5 + d = doy + 1" "d \<le> 31"
    using assms(1-3) md by (auto simp: md_ok_def march_length_def mdate_def split: if_splits)
  have y: "y = (if mm < 10 then shown_year Y else shown_year (Y + 1))" "m = (if mm < 10 then mm + 3 else mm - 9)"
    using assms(1) md by (auto simp: mdate_def split: if_splits)
  show ?thesis
  proof (cases "Y = 87")
    case True
    then have d: "308 \<le> (mm * 153 + 2) div 5 + d" using mm assms(4) by simp
    moreover have "5 * ((mm * 153 + 2) div 5) \<le> mm * 153 + 2" by simp
    ultimately have "10 \<le> mm" using mm(3) by linarith
    moreover have "mm = 10 \<Longrightarrow> 2 \<le> d" using d by simp
    ultimately show ?thesis using y True by (auto simp: shown_year_def)
  next
    case False
    then show ?thesis using y assms(4) mm(1) by (auto simp: shown_year_def split: if_splits)
  qed
qed

lemma julian_sdn:
  assumes "0 < sdn" "sdn \<le> 2 ^ 39"
  shows "(case SdnToJulian sdn of (y, m, d) \<Rightarrow> JulianToSdn y m d) = sdn"
proof -
  obtain e f doy where g: "jul_parts (sdn + 32082) e f doy" by (rule jul_parts_ex)
  let ?Y = "4 * e + f"
  have bd: "0 \<le> f" "f \<le> 3" "0 \<le> doy" "doy \<le> 365" "0 \<le> e" "e \<le> 376300000" "sdn + 32082 = 1461 * e + 365 * f + doy"
    using g assms by (auto simp: jul_parts_def)
  obtain y m d where ymd: "mdate ?Y doy = (y, m, d)" by (cases "mdate ?Y doy")
  have s: "SdnToJulian sdn = (y, m, d)" using SdnToJulian_jul[OF assms] jul_parts_jul(3)[OF g] ymd by simp
  have my: "march_year y m = (?Y, fst (march_md doy))" "d = snd (march_md doy)" "1 \<le> m" "m \<le> 12" "1 \<le> d" "d \<le> 31" "y \<noteq> 0"
    using march_year_mdate[of ?Y doy] bd ymd by auto
  have "md_ok doy" using bd by (intro md_ok)
  then have doy: "(fst (march_md doy) * 153 + 2) div 5 + d = doy + 1" using my(2) by (auto simp: md_ok_def)
  have "\<not> (y < - 4713 \<or> y = - 4713 \<and> m = 1 \<and> d = 1)"
  proof (rule first_julian[OF ymd \<open>md_ok doy\<close> doy])
    have "32083 \<le> 1461 * e + 365 * f + doy" using bd(7) assms(1) by simp
    moreover have "4 * e + f = 87 \<Longrightarrow> e = 21 \<and> f = 3" using bd(1,2) by presburger
    ultimately show "87 < ?Y \<or> ?Y = 87 \<and> 307 \<le> doy" using bd(1,4) by auto
  qed
  then show ?thesis unfolding s using my doy bd(7) quarter_year[OF bd(1,2), of e] by (auto simp: JulianToSdn_def)
qed

interpretation julian: calendar SdnToJulian JulianToSdn "next_day (month_length julian_leap) 12" 1 "2 ^ 39"
proof
  fix s :: int
  assume "1 \<le> s" "s < 2 ^ 39"
  then show "SdnToJulian (s + 1) = next_day (month_length julian_leap) 12 (SdnToJulian s)"
    using jul_advance[of "s + 32082"] SdnToJulian_jul[of s] SdnToJulian_jul[of "s + 1"] by (simp add: ac_simps)
qed (simp add: julian_sdn)

section \<open>The French republican calendar\<close>

lemma succ_div_mod30:
  "(x + 1) div 30 = (if x mod 30 = 29 then x div 30 + 1 else x div 30)"
  "(x + 1) mod 30 = (if x mod 30 = 29 then 0 else x mod 30 + 1)" for x :: int
proof -
  obtain q k where x: "x = 30 * q + k" "0 \<le> k" "k < 30" by (metis mult_div_mod_eq pos_mod_bound pos_mod_sign zero_less_numeral)
  then have "x div 30 = q" "x mod 30 = k" by simp_all
  moreover have "(x + 1) div 30 = (if k = 29 then q + 1 else q)"
    by (rule int_div_pos_eq[of _ _ _ "if k = 29 then 0 else k + 1"]) (use x in auto)
  moreover have "(x + 1) mod 30 = (if k = 29 then 0 else k + 1)"
    by (rule int_mod_pos_eq[of _ _ "if k = 29 then q + 1 else q"]) (use x in auto)
  ultimately show "(x + 1) div 30 = (if x mod 30 = 29 then x div 30 + 1 else x div 30)"
    "(x + 1) mod 30 = (if x mod 30 = 29 then 0 else x mod 30 + 1)" by simp_all
qed

lemma SdnToFrench_parts:
  assumes "2375840 \<le> sdn" "sdn \<le> 2380952" "jul_parts (sdn - 2375475) e f doy"
  shows "SdnToFrench sdn = (4 * e + f, doy div 30 + 1, doy mod 30 + 1)" "1 \<le> 4 * e + f" "4 * e + f \<le> 14"
proof -
  have t: "(sdn - 2375474) * 4 - 1 = 4 * (sdn - 2375475) + 3" by simp
  show "SdnToFrench sdn = (4 * e + f, doy div 30 + 1, doy mod 30 + 1)"
    unfolding SdnToFrench_def Let_def t jul_parts_jul[OF assms(3)] using assms(1,2) by simp
  have b: "0 \<le> f" "f \<le> 3" "0 \<le> doy" "doy \<le> 365" "365 \<le> 1461 * e + 365 * f + doy" "1461 * e + 365 * f + doy \<le> 5477" "4 * doy + 3 - f < 1461"
    using assms by (auto simp: jul_parts_def)
  have e: "0 \<le> e" "e \<le> 3" using b by linarith+
  show "1 \<le> 4 * e + f" using b e by (cases "e = 0 \<and> f = 0") auto
  show "4 * e + f \<le> 14" using b e by (cases "e = 3 \<and> f = 3") auto
qed

interpretation french: calendar SdnToFrench FrenchToSdn "next_day french_month_length 13" 2375840 2380952
proof
  fix s :: int
  assume s: "2375840 \<le> s" "s < 2380952"
  obtain e f doy where g: "jul_parts (s - 2375475) e f doy" by (rule jul_parts_ex)
  then have b: "0 \<le> f" "f \<le> 3" "0 \<le> doy" "4 * doy + 3 - f < 1461" by (simp_all add: jul_parts_def)
  have m4: "(4 * e + f) mod 4 = f" using b by simp
  have date: "SdnToFrench s = (4 * e + f, doy div 30 + 1, doy mod 30 + 1)" "1 \<le> 4 * e + f" using SdnToFrench_parts(1,2)[OF _ _ g] s by auto
  show "SdnToFrench (s + 1) = next_day french_month_length 13 (SdnToFrench s)"
  proof (cases "4 * (doy + 1) + 3 - f < 1461")
    case True
    then have "jul_parts (s + 1 - 2375475) e f (doy + 1)" using g by (auto simp: jul_parts_def)
    then have n: "SdnToFrench (s + 1) = (4 * e + f, (doy + 1) div 30 + 1, (doy + 1) mod 30 + 1)" using SdnToFrench_parts(1) s by simp
    have doy: "doy \<le> 363 \<or> doy = 364 \<and> f = 3" using True b by auto
    define q k where qk_def: "q = doy div 30" "k = doy mod 30"
    have "doy = 30 * q + k" unfolding qk_def by simp
    then have qk: "30 * q + k \<le> 363 \<or> 30 * q + k = 364 \<and> f = 3" "0 \<le> k" "k < 30" using doy unfolding qk_def by simp_all
    note n = n[unfolded succ_div_mod30, folded qk_def] and date = date(1)[folded qk_def]
    have "k + 1 < french_month_length (4 * e + f) (q + 1)" if "k \<noteq> 29"
    proof (cases "q \<le> 11")
      case True
      then show ?thesis using that qk by (simp add: french_month_length_def)
    next
      case False
      then have "360 \<le> 30 * q" by simp
      then have "k \<le> 3 \<or> k \<le> 4 \<and> f = 3" using qk(1) by linarith
      then have "k + 1 < (if f = 3 then 6 else 5)" by auto
      then show ?thesis using False m4 by (simp add: french_month_length_def)
    qed
    moreover have "q \<le> 11" if "k = 29" using that qk by linarith
    ultimately show ?thesis using qk unfolding date n by (cases "k = 29") (simp_all add: next_day_def french_month_length_def)
  next
    case False
    then have d: "doy = 364 \<and> f \<noteq> 3 \<or> doy = 365 \<and> f = 3" using b by presburger
    then have "jul_parts (s + 1 - 2375475) (if f = 3 then e + 1 else e) (if f = 3 then 0 else f + 1) 0" using g by (auto simp: jul_parts_def)
    then have "SdnToFrench (s + 1) = (4 * e + f + 1, 1, 1)" using SdnToFrench_parts(1) s by (fastforce split: if_splits)
    then show ?thesis using date d m4 by (auto simp: next_day_def french_month_length_def next_year_def)
  qed
next
  fix s :: int
  assume s: "2375840 \<le> s" "s \<le> 2380952"
  obtain e f doy where g: "jul_parts (s - 2375475) e f doy" by (rule jul_parts_ex)
  then have b: "0 \<le> f" "f \<le> 3" "0 \<le> doy" "doy \<le> 365" "s - 2375475 = 1461 * e + 365 * f + doy" by (auto simp: jul_parts_def)
  have "doy div 30 * 30 + doy mod 30 = doy" "0 \<le> doy div 30" "doy div 30 \<le> 12" "\<not> doy mod 30 < 0" "doy mod 30 \<le> 29" using b by simp_all
  then show "(case SdnToFrench s of (y, m, d) \<Rightarrow> FrenchToSdn y m d) = s"
    using SdnToFrench_parts[OF s g] quarter_year[OF b(1,2), of e] b(5) by (simp add: FrenchToSdn_def)
qed

section \<open>Days of the week and lengths of months\<close>

lemma c_rem_adjust:
  assumes "0 < n"
  shows "(if 0 \<le> c_rem a n then c_rem a n else c_rem a n + n) = a mod n"
proof (cases "0 \<le> a")
  case False
  define x where "x = - a mod n"
  have "0 \<le> x" using assms by (simp add: x_def)
  moreover have "a mod n = (if x = 0 then 0 else n - x)" using zmod_zminus1_eq_if[of "- a" n] by (simp add: x_def)
  moreover have "c_rem a n = - x" using False by (simp add: c_rem_def x_def)
  ultimately show ?thesis by simp
qed (use assms in \<open>simp add: c_rem_def\<close>)

lemma DayOfWeek_mod: "DayOfWeek sdn = (sdn + 1) mod 7"
  using c_rem_adjust[of 7 "sdn + 1"] by (simp add: DayOfWeek_def Let_def)

text \<open>The day number of the first of March in a count of years, without the offset.\<close>

definition greg_march :: "int \<Rightarrow> int" where
  "greg_march Y = Y div 100 * 146097 div 4 + Y mod 100 * 1461 div 4"

lemma greg_year_length:
  assumes "0 \<le> Y"
  shows "greg_march (Y + 1) - greg_march Y = (if gregorian_leap (shown_year (Y + 1)) then 366 else 365)"
proof -
  obtain a b e f where Y: "Y = 100 * (4 * a + b) + (4 * e + f)" and bd: "0 \<le> b" "b \<le> 3" "0 \<le> f" "f \<le> 3" "0 \<le> e" "e \<le> 24"
  proof (rule that)
    show "Y = 100 * (4 * (Y div 100 div 4) + Y div 100 mod 4) + (4 * (Y mod 100 div 4) + Y mod 100 mod 4)" by simp
    have "Y mod 100 < 100" by simp
    then show "Y mod 100 div 4 \<le> 24" by linarith
  qed simp_all
  have g: "greg_march (100 * (4 * a + b) + (4 * e + f)) = 146097 * a + 36524 * b + (1461 * e + 365 * f)"
    if "0 \<le> b" "b \<le> 3" "0 \<le> f" "f \<le> 3" "0 \<le> e" "e \<le> 24" for a b e f
  proof -
    have "(100 * (4 * a + b) + (4 * e + f)) div 100 = 4 * a + b" "(100 * (4 * a + b) + (4 * e + f)) mod 100 = 4 * e + f"
      using that by (auto intro!: int_div_pos_eq[of _ _ _ "4 * e + f"] int_mod_pos_eq[of _ _ "4 * a + b"])
    then show ?thesis unfolding greg_march_def using quarter_century[of b a] quarter_year[of f e] that by simp
  qed
  note l = greg_leap[OF bd, of a]
  consider "f < 3" | "f = 3" "e < 24" | "f = 3" "e = 24" "b < 3" | "f = 3" "e = 24" "b = 3" using bd by linarith
  then show ?thesis
  proof cases
    case 1
    then have "greg_march (Y + 1) = 146097 * a + 36524 * b + (1461 * e + 365 * (f + 1))" using g[of b "f + 1" e a] bd Y by (simp add: ac_simps)
    then show ?thesis using g[OF bd, of a] l 1 Y by simp
  next
    case 2
    then have "greg_march (Y + 1) = 146097 * a + 36524 * b + 1461 * (e + 1)" using g[of b 0 "e + 1" a] bd Y by (simp add: ac_simps)
    then show ?thesis using g[OF bd, of a] l 2 Y by simp
  next
    case 3
    then have "greg_march (Y + 1) = 146097 * a + 36524 * (b + 1)" using g[of "b + 1" 0 0 a] bd Y by (simp add: ac_simps)
    then show ?thesis using g[OF bd, of a] l 3 Y by simp
  next
    case 4
    then have "greg_march (Y + 1) = 146097 * (a + 1)" using g[of 0 0 0 "a + 1"] Y by (simp add: ac_simps)
    then show ?thesis using g[OF bd, of a] l 4 Y by simp
  qed
qed

lemma jul_year_length:
  "(Y + 1) * 1461 div 4 - Y * 1461 div 4 = (if julian_leap (shown_year (Y + 1)) then 366 else 365)"
proof -
  define e f where "e = Y div 4" and "f = Y mod 4"
  have Y: "Y = 4 * e + f" "0 \<le> f" "f \<le> 3" by (simp_all add: e_def f_def)
  have "(Y + 1) * 1461 div 4 = (if f = 3 then 1461 * (e + 1) else 1461 * e + 365 * (f + 1))"
    using quarter_year[of 0 "e + 1"] quarter_year[of "f + 1" e] Y by (cases "f = 3") (simp_all add: ac_simps)
  then show ?thesis using quarter_year[OF Y(2,3), of e] jul_leap[OF Y(2,3), of e] Y by (simp add: ac_simps)
qed

text \<open>The first days of months that start with March, and the differences between them.\<close>

definition first_of_month :: "(int \<Rightarrow> int) \<Rightarrow> int \<Rightarrow> int \<Rightarrow> int" where
  "first_of_month march y m =
     (if m > 2 then march (astro y + 4800) + ((m - 3) * 153 + 2) div 5 else march (astro y + 4799) + ((m + 9) * 153 + 2) div 5)"

lemma month_cases: "1 \<le> m \<Longrightarrow> m \<le> 12 \<Longrightarrow> m \<in> {1, 2, 3, 4, 5, 6, 7, 8, 9, 10, 11, 12 :: int}"
  by simp presburger

lemma first_of_month_diff:
  assumes "march (astro y + 4800) - march (astro y + 4799) = (if leap y then 366 else 365)" "y \<noteq> 0" "1 \<le> m" "m \<le> 12"
  shows "first_of_month march (if m = 12 then next_year y else y) (if m = 12 then 1 else m + 1) - first_of_month march y m
    = month_length leap y m"
proof -
  have "astro (next_year y) = astro y + 1" using assms(2) by (auto simp: astro_def next_year_def)
  then show ?thesis using month_cases[OF assms(3,4)] assms(1) by (elim insertE) (simp_all add: first_of_month_def month_length_def add.commute)
qed

lemma march_lower:
  fixes march :: "int \<Rightarrow> int"
  assumes "\<And>Y. 0 \<le> Y \<Longrightarrow> 365 \<le> march (Y + 1) - march Y" "88 \<le> Y"
  shows "march 88 \<le> march Y"
  using assms(2)
proof (induction Y rule: int_ge_induct)
  case (step Y)
  then show ?case using assms(1)[of Y] by simp
qed simp

lemma first_of_month_lower:
  fixes march :: "int \<Rightarrow> int"
  assumes "\<And>Y. 0 \<le> Y \<Longrightarrow> 365 \<le> march (Y + 1) - march Y" "- 4712 \<le> y" "1 \<le> m"
  shows "march 88 \<le> first_of_month march y m"
proof -
  have "march 88 \<le> march (astro y + 4800)" "march 88 \<le> march (astro y + 4799)"
    using assms(2) by (auto intro!: march_lower[of march] assms(1) simp: astro_def)
  moreover have "m > 2 \<longrightarrow> 0 \<le> ((m - 3) * 153 + 2) div 5" by (simp add: pos_imp_zdiv_nonneg_iff)
  moreover have "0 \<le> ((m + 9) * 153 + 2) div 5" using assms(3) by simp
  ultimately show ?thesis unfolding first_of_month_def by (cases "m > 2") (simp_all only: if_True if_False, simp_all)
qed

lemma march_year_first:
  assumes "- 4712 \<le> y" "y \<le> 2 ^ 31 - 4802"
  shows "march_year y m = (if m > 2 then (astro y + 4800, m - 3) else (astro y + 4799, m + 9))"
proof -
  have "c_int (y + 4800) = y + 4800" "c_int (y + 4801) = y + 4801" using assms by (auto intro!: c_int_id)
  then show ?thesis by (simp add: march_year_def astro_def Let_def)
qed

lemma GregorianToSdn_first:
  assumes "y \<noteq> 0" "- 4712 \<le> y" "y \<le> 2 ^ 31 - 4802" "1 \<le> m" "m \<le> 12"
  shows "GregorianToSdn y m 1 = first_of_month greg_march y m - 32044" "0 < GregorianToSdn y m 1"
proof -
  show g: "GregorianToSdn y m 1 = first_of_month greg_march y m - 32044"
    using assms march_year_first[OF assms(2,3), of m] by (simp add: GregorianToSdn_def first_of_month_def greg_march_def)
  have "greg_march 88 \<le> first_of_month greg_march y m" using assms by (intro first_of_month_lower) (auto simp: greg_year_length)
  then show "0 < GregorianToSdn y m 1" using g by (simp add: greg_march_def)
qed

lemma JulianToSdn_first:
  assumes "y \<noteq> 0" "- 4712 \<le> y" "y \<le> 2 ^ 31 - 4802" "1 \<le> m" "m \<le> 12"
  shows "JulianToSdn y m 1 = first_of_month (\<lambda>Y. Y * 1461 div 4) y m - 32082" "0 < JulianToSdn y m 1"
proof -
  show g: "JulianToSdn y m 1 = first_of_month (\<lambda>Y. Y * 1461 div 4) y m - 32082"
    using assms march_year_first[OF assms(2,3), of m] by (simp add: JulianToSdn_def first_of_month_def)
  have "88 * 1461 div 4 \<le> first_of_month (\<lambda>Y. Y * 1461 div 4) y m"
    using assms by (intro first_of_month_lower[where march = "\<lambda>Y. Y * 1461 div 4"]) (auto simp: jul_year_length)
  then show "0 < JulianToSdn y m 1" using g by simp
qed

lemma shown_astro: "y \<noteq> 0 \<Longrightarrow> shown_year (astro y + 4800) = y"
  by (auto simp: shown_year_def astro_def)

text \<open>The number of days by the rules of each calendar.\<close>

definition rule_days :: "cal_name_type_t \<Rightarrow> int \<Rightarrow> int \<Rightarrow> int" where
  "rule_days cal y m =
     (case cal of CAL_GREGORIAN \<Rightarrow> month_length gregorian_leap y m | CAL_JULIAN \<Rightarrow> month_length julian_leap y m
      | CAL_JEWISH \<Rightarrow> jewish_month_length y m | CAL_FRENCH \<Rightarrow> french_month_length y m)"

definition cal_valid :: "cal_name_type_t \<Rightarrow> int \<Rightarrow> int \<Rightarrow> bool" where
  "cal_valid cal y m =
     (case cal of CAL_FRENCH \<Rightarrow> 1 \<le> y \<and> y \<le> 14 \<and> 1 \<le> m \<and> m \<le> 13
      | CAL_JEWISH \<Rightarrow> 1 \<le> y \<and> y \<le> 887565 \<and> 1 \<le> m \<and> m \<le> 13
      | _ \<Rightarrow> y \<noteq> 0 \<and> - 4712 \<le> y \<and> y \<le> 2 ^ 31 - 4803 \<and> 1 \<le> m \<and> m \<le> 12)"

text \<open>The two branches of \<open>days_in_month\<close>: the first of the next month, or of the next year.\<close>

lemma cal_days_march:
  assumes "cal \<noteq> CAL_FRENCH" "to_jd (cal_conversion_table cal) = to" "to y 13 1 = 0"
    "\<And>y m. y \<noteq> 0 \<Longrightarrow> - 4712 \<le> y \<Longrightarrow> y \<le> 2 ^ 31 - 4802 \<Longrightarrow> 1 \<le> m \<Longrightarrow> m \<le> 12 \<Longrightarrow> to y m 1 = first_of_month march y m - off \<and> 0 < to y m 1"
    "march (astro y + 4800) - march (astro y + 4799) = (if leap y then 366 else 365)"
    "y \<noteq> 0" "- 4712 \<le> y" "y \<le> 2 ^ 31 - 4803" "1 \<le> m" "m \<le> 12"
  shows "days_in_month cal m y = Some (month_length leap y m)"
proof -
  let ?y = "if m = 12 then next_year y else y" and ?m = "if m = 12 then 1 else m + 1"
  have c: "c_int y = y" "c_int m = m" "c_int (1 + m) = 1 + m" "y \<noteq> - 1 \<Longrightarrow> c_int (y + 1) = y + 1"
    using assms(6-10) by (auto intro!: c_int_id)
  have first: "to y m 1 = first_of_month march y m - off" "0 < to y m 1" using assms(4)[of y m] assms(6-10) by auto
  have "?y \<noteq> 0" "- 4712 \<le> ?y" "?y \<le> 2 ^ 31 - 4802" "1 \<le> ?m" "?m \<le> 12" using assms(6-10) by (auto simp: next_year_def)
  then have "to ?y ?m 1 = first_of_month march ?y ?m - off" "0 < to ?y ?m 1" using assms(4)[of ?y ?m] by auto
  then have "to ?y ?m 1 - to y m 1 = month_length leap y m" "0 < to ?y ?m 1"
    using first first_of_month_diff[of march y leap m] assms(5,6,9,10) by auto
  then show ?thesis using first c assms(1-3) by (auto simp: days_in_month_def Let_def next_year_def add.commute split: if_splits)
qed

lemma cal_days_french:
  assumes "1 \<le> y" "y \<le> 14" "1 \<le> m" "m \<le> 13"
  shows "days_in_month CAL_FRENCH m y = Some (french_month_length y m)"
proof -
  have "list_all (\<lambda>y. list_all (\<lambda>m. days_in_month CAL_FRENCH m y = Some (french_month_length y m)) [1..13]) [1..14]" by code_simp
  then show ?thesis using assms by (simp add: list_all_iff)
qed

lemma cal_days_jewish:
  assumes "1 \<le> y" "y \<le> 887565" "1 \<le> m" "m \<le> 13"
  shows "days_in_month CAL_JEWISH m y = Some (jewish_month_length y m)"
proof -
  have c: "c_int y = y" "c_int m = m" "c_int (1 + m) = 1 + m" "c_int (y + 1) = y + 1" using assms by (auto intro!: c_int_id)
  have pos: "0 < jewish_number (y, n, 1) + JEWISH_SDN_OFFSET" if "1 \<le> n" for n
    using that assms new_year_mono[of 1 y] jewish_month_start_mono[of 1 n y]
    by (simp add: first_new_year jewish_number_def jewish_month_start_first JEWISH_SDN_OFFSET_def)
  have "JewishToSdn y n 1 \<noteq> 0" if "1 \<le> n" "n \<le> 13" for n
    using pos[of n] that assms by (simp add: JewishToSdn_eq)
  moreover have "JewishToSdn y 14 1 = 0" by (simp add: JewishToSdn_def split_beta)
  ultimately show ?thesis using c assms jewish_month_days[OF assms]
    by (cases "m = 13") (auto simp: days_in_month_def cal_conversion_table_def Let_def add.commute)
qed

lemma days_in_month_by_rule:
  assumes "cal_valid cal y m"
  shows "days_in_month cal m y = Some (rule_days cal y m)"
proof (cases cal)
  case CAL_GREGORIAN
  then have v: "y \<noteq> 0" "- 4712 \<le> y" "y \<le> 2 ^ 31 - 4803" "1 \<le> m" "m \<le> 12" using assms by (simp_all add: cal_valid_def)
  have "greg_march (astro y + 4799 + 1) - greg_march (astro y + 4799) = (if gregorian_leap y then 366 else 365)"
    using greg_year_length[of "astro y + 4799"] shown_astro[OF v(1)] v(2) by (simp add: astro_def add.commute)
  then have "days_in_month cal m y = Some (month_length gregorian_leap y m)"
    by (intro cal_days_march[where march = greg_march and off = 32044 and to = GregorianToSdn])
      (use CAL_GREGORIAN v GregorianToSdn_first in \<open>auto simp: cal_conversion_table_def GregorianToSdn_def add.commute\<close>)
  then show ?thesis using CAL_GREGORIAN by (simp add: rule_days_def)
next
  case CAL_JULIAN
  then have v: "y \<noteq> 0" "- 4712 \<le> y" "y \<le> 2 ^ 31 - 4803" "1 \<le> m" "m \<le> 12" using assms by (simp_all add: cal_valid_def)
  have "(astro y + 4799 + 1) * 1461 div 4 - (astro y + 4799) * 1461 div 4 = (if julian_leap y then 366 else 365)"
    using jul_year_length[of "astro y + 4799"] shown_astro[OF v(1)] by (simp add: add.commute)
  then have "days_in_month cal m y = Some (month_length julian_leap y m)"
    by (intro cal_days_march[where march = "\<lambda>Y. Y * 1461 div 4" and off = 32082 and to = JulianToSdn])
      (use CAL_JULIAN v JulianToSdn_first in \<open>auto simp: cal_conversion_table_def JulianToSdn_def add.commute\<close>)
  then show ?thesis using CAL_JULIAN by (simp add: rule_days_def)
next
  case CAL_FRENCH
  then show ?thesis using assms cal_days_french by (simp add: cal_valid_def rule_days_def)
next
  case CAL_JEWISH
  then show ?thesis using assms cal_days_jewish by (simp add: cal_valid_def rule_days_def)
qed

text \<open>C34: \<open>cal_days_in_month\<close> returns the length of the month by the rules of the calendar: the
  Gregorian and Julian leap years with no year 0, and the French months of thirty days with
  five or six extra days, up to the end of the French calendar, and
  the Jewish months, of which Adar I has no days in a common year and Heshvan and Kislev follow
  the length of the year.\<close>

theorem days_in_month_rule:
  assumes "cal_of_id cal = Some c" "cal_valid c y m"
  shows "cal_days_in_month cal m y = Some (rule_days c y m)"
  using assms days_in_month_by_rule by (simp add: cal_days_in_month_def)

theorem days_in_month_rule_witness:
  "cal_days_in_month 0 2 1900 = Some 28 \<and> cal_days_in_month 1 2 1900 = Some 29 \<and> cal_days_in_month 3 13 14 = Some 5"
  using days_in_month_rule[of 0 CAL_GREGORIAN 1900 2] days_in_month_rule[of 1 CAL_JULIAN 1900 2] days_in_month_rule[of 3 CAL_FRENCH 14 13]
  by (simp add: cal_of_id_def cal_valid_def rule_days_def month_length_def gregorian_leap_def julian_leap_def french_month_length_def astro_def)

text \<open>The range of day numbers of each calendar, and the next date by its rules.\<close>

definition cal_first :: "cal_name_type_t \<Rightarrow> int" where
  "cal_first cal = (if cal = CAL_FRENCH then 2375840 else if cal = CAL_JEWISH then 347998 else 1)"

definition cal_last :: "cal_name_type_t \<Rightarrow> int" where
  "cal_last cal = (if cal = CAL_FRENCH then 2380952 else if cal = CAL_JEWISH then 324528274 else 2 ^ 39)"

definition rule_next :: "cal_name_type_t \<Rightarrow> date \<Rightarrow> date" where
  "rule_next cal = (if cal = CAL_JEWISH then jewish_next else next_day (rule_days cal) (num_months (cal_conversion_table cal)))"

lemma rule_next_simps:
  "rule_next CAL_GREGORIAN = next_day (month_length gregorian_leap) 12"
  "rule_next CAL_JULIAN = next_day (month_length julian_leap) 12"
  "rule_next CAL_FRENCH = next_day french_month_length 13"
  "rule_next CAL_JEWISH = jewish_next"
  by (simp_all add: rule_next_def next_day_def rule_days_def cal_conversion_table_def fun_eq_iff)

text \<open>C33: in each calendar the date of a later day is reached by the rules of the calendar, day by
  day, and a date converts back to its day number. The fixed points are 1 January 1970 in the
  Gregorian calendar, which is 19 December 1969 in the Julian one, the first day of the
  French calendar, and the first day of the Jewish year 5730, 13 September 1969. The Jewish range
  ends with the year 887565. The Gregorian and Julian ranges end at day \<open>2 ^ 39\<close>, where years still fit an \<open>int\<close>.\<close>

theorem calendars_follow_rules:
  assumes "cal_first cal \<le> sdn" "sdn + int n \<le> cal_last cal"
  shows "from_jd (cal_conversion_table cal) (sdn + int n) = (rule_next cal ^^ n) (from_jd (cal_conversion_table cal) sdn)
    \<and> (case from_jd (cal_conversion_table cal) sdn of (y, m, d) \<Rightarrow> to_jd (cal_conversion_table cal) y m d) = sdn
    \<and> SdnToGregorian 2440588 = (1970, 1, 1) \<and> SdnToJulian 2440588 = (1969, 12, 19) \<and> SdnToFrench 2375840 = (1, 1, 1)
    \<and> SdnToJewish 2440478 = (5730, 1, 1) \<and> SdnToGregorian 2440478 = (1969, 9, 13)"
proof -
  have "SdnToGregorian 2440588 = (1970, 1, 1)" "SdnToJulian 2440588 = (1969, 12, 19)" "SdnToFrench 2375840 = (1, 1, 1)"
    "SdnToJewish 2440478 = (5730, 1, 1)" "SdnToGregorian 2440478 = (1969, 9, 13)" by code_simp+
  then show ?thesis
    using assms gregorian.advance_by[of sdn n] gregorian.recover[of sdn] julian.advance_by[of sdn n] julian.recover[of sdn]
      french.advance_by[of sdn n] french.recover[of sdn] jewish.advance_by[of sdn n] jewish.recover[of sdn]
    by (cases cal) (simp_all add: cal_first_def cal_last_def rule_next_simps, simp_all add: cal_conversion_table_def)
qed

theorem calendars_follow_rules_witness:
  "SdnToGregorian (2440588 + int 1) = (1970, 1, 2) \<and> GregorianToSdn 1970 1 1 = 2440588"
proof -
  have "from_jd (cal_conversion_table CAL_GREGORIAN) (2440588 + int 1) = (rule_next CAL_GREGORIAN ^^ 1) (SdnToGregorian 2440588)
      \<and> (case SdnToGregorian 2440588 of (y, m, d) \<Rightarrow> GregorianToSdn y m d) = 2440588 \<and> SdnToGregorian 2440588 = (1970, 1, 1)"
    using calendars_follow_rules[of CAL_GREGORIAN 2440588 1] by (auto simp: cal_first_def cal_last_def cal_conversion_table_def)
  then show ?thesis by (auto simp: rule_next_simps next_day_def month_length_def cal_conversion_table_def)
qed

end
