(* ===== verification/PhpEaster.thy ===== *)
theory PhpEaster
  imports PhpCalendar
begin

text \<open>
  Easter (ext/calendar/easter.c): the number of days after 21 March, by the Julian or the
  Gregorian reckoning, and the timestamp of \<open>easter_date\<close>. Years are far from the ends of
  \<open>zend_long\<close>, so sums are exact; divisions truncate as in C. The local time and \<open>mktime\<close> are
  parameters.
\<close>

section \<open>The code\<close>

definition c_quot :: "int \<Rightarrow> int \<Rightarrow> int" where
  "c_quot a b = (if 0 \<le> a then a div b else - (- a div b))"

definition CAL_EASTER_DEFAULT :: int where "CAL_EASTER_DEFAULT = 0"

definition CAL_EASTER_ROMAN :: int where "CAL_EASTER_ROMAN = 1"

definition CAL_EASTER_ALWAYS_GREGORIAN :: int where "CAL_EASTER_ALWAYS_GREGORIAN = 2"

definition CAL_EASTER_ALWAYS_JULIAN :: int where "CAL_EASTER_ALWAYS_JULIAN = 3"

lemmas easter_methods = CAL_EASTER_DEFAULT_def CAL_EASTER_ROMAN_def CAL_EASTER_ALWAYS_GREGORIAN_def CAL_EASTER_ALWAYS_JULIAN_def

definition easter_julian :: "int \<Rightarrow> int \<Rightarrow> bool" where
  "easter_julian year mth \<longleftrightarrow>
     (year \<le> 1582 \<and> mth \<noteq> CAL_EASTER_ALWAYS_GREGORIAN)
     \<or> (year \<ge> 1583 \<and> year \<le> 1752 \<and> mth \<noteq> CAL_EASTER_ROMAN \<and> mth \<noteq> CAL_EASTER_ALWAYS_GREGORIAN)
     \<or> mth = CAL_EASTER_ALWAYS_JULIAN"

text \<open>The remainder made non-negative, as the code does after each \<open>%\<close>.\<close>

definition positive_rem :: "int \<Rightarrow> int \<Rightarrow> int" where
  "positive_rem a b = (let r = c_rem a b in if r < 0 then r + b else r)"

text \<open>The dominical number and the corrected Paschal full moon, in days after 21 March.\<close>

definition easter_dom_pfm :: "int \<Rightarrow> int \<Rightarrow> int \<times> int" where
  "easter_dom_pfm year mth =
     (let golden = c_rem year 19 + 1;
          (dom, pfm) =
            (if easter_julian year mth then
               (positive_rem (year + c_quot year 4 + 5) 7, positive_rem (3 - 11 * golden - 7) 30)
             else
               let solar = c_quot (year - 1600) 100 - c_quot (year - 1600) 400;
                   lunar = c_quot (c_quot (year - 1400) 100 * 8) 25
               in (positive_rem (year + c_quot year 4 - c_quot year 100 + c_quot year 400) 7,
                   positive_rem (3 - 11 * golden + solar - lunar) 30));
          pfm = (if pfm = 29 \<or> pfm = 28 \<and> golden > 11 then pfm - 1 else pfm)
      in (dom, pfm))"

definition easter_number :: "int \<Rightarrow> int \<Rightarrow> int" where
  "easter_number year mth =
     (let (dom, pfm) = easter_dom_pfm year mth;
          tmp = positive_rem (4 - pfm - dom) 7
      in pfm + tmp + 1)"

text \<open>
  The fields of \<open>struct tm\<close> that \<open>mktime\<close> gets: \<open>tm_year\<close>, \<open>tm_mon\<close> and \<open>tm_mday\<close>, at midnight. The
  year that \<open>php_localtime_r\<close> reports is missing when that call fails.
\<close>

definition cal_easter :: "(int \<times> int \<times> int \<Rightarrow> int) \<Rightarrow> int option \<Rightarrow> bool \<Rightarrow> int option \<Rightarrow> int option \<Rightarrow> int option" where
  "cal_easter mktime local_tm_year gm year_arg method_arg =
     (let year = (case local_tm_year of None \<Rightarrow> 1900 | Some y \<Rightarrow> 1900 + y);
          year = (case year_arg of None \<Rightarrow> year | Some y \<Rightarrow> y);
          mth = (case method_arg of None \<Rightarrow> CAL_EASTER_DEFAULT | Some x \<Rightarrow> x)
      in if gm \<and> (year < 1970 \<or> year > 2037) then None
         else let easter = easter_number year mth
              in if gm then Some (mktime (year - 1900, if easter < 11 then (2, easter + 21) else (3, easter - 10)))
                 else Some easter)"

definition easter_date :: "(int \<times> int \<times> int \<Rightarrow> int) \<Rightarrow> int option \<Rightarrow> int option \<Rightarrow> int option \<Rightarrow> int option" where
  "easter_date mktime local_tm_year year_arg method_arg = cal_easter mktime local_tm_year True year_arg method_arg"

definition easter_days :: "(int \<times> int \<times> int \<Rightarrow> int) \<Rightarrow> int option \<Rightarrow> int option \<Rightarrow> int option \<Rightarrow> int option" where
  "easter_days mktime local_tm_year year_arg method_arg = cal_easter mktime local_tm_year False year_arg method_arg"

section \<open>The rule of Easter\<close>

text \<open>
  The Paschal full moon by the tables of the church: the age of the moon follows the 19-year
  cycle, in the Gregorian reckoning with a solar and a lunar correction per century.
\<close>

definition paschal_moon :: "bool \<Rightarrow> int \<Rightarrow> int" where
  "paschal_moon julian year =
     (let a = year mod 19; b = year div 100;
          h = (19 * a + 15 + (if julian then 0 else b - b div 4 - (8 * b + 13) div 25)) mod 30
      in if \<not> julian \<and> (h = 29 \<or> h = 28 \<and> a \<ge> 11) then h - 1 else h)"

definition easter_sdn :: "bool \<Rightarrow> int \<Rightarrow> int \<Rightarrow> int" where
  "easter_sdn julian year n = (if julian then JulianToSdn year 3 21 else GregorianToSdn year 3 21) + n"

lemma positive_rem_mod: "0 < b \<Longrightarrow> positive_rem a b = a mod b"
  using c_rem_adjust[of b a] by (cases "0 \<le> c_rem a b") (simp_all add: positive_rem_def Let_def not_less pos_mod_sign)

lemma div_shift: "x = z + n * k \<Longrightarrow> n \<noteq> 0 \<Longrightarrow> x div n = k + z div (n :: int)"
  by simp

lemma century_terms:
  assumes "1583 \<le> (y :: int)"
  shows "c_quot (y - 1600) 100 - c_quot (y - 1600) 400 = y div 100 - y div 100 div 4 - 12"
    and "c_quot (c_quot (y - 1400) 100 * 8) 25 = (8 * (y div 100) + 13) div 25 - 5"
proof -
  have q: "y div 400 = y div 100 div 4" using zdiv_zmult2_eq[of 4 y 100] by simp
  have "(y - 1600) div 100 = y div 100 - 16" "(y - 1600) div 400 = y div 400 - 4"
    using div_shift[of "y - 1600" y 100 "- 16"] div_shift[of "y - 1600" y 400 "- 4"] by simp_all
  moreover have "y div 100 = 15" "c_quot (y - 1600) 100 = 0" "c_quot (y - 1600) 400 = 0" if "y < 1600"
    using assms that by (auto simp: c_quot_def int_div_pos_eq[of _ _ 15 "y - 1500"])
  ultimately show "c_quot (y - 1600) 100 - c_quot (y - 1600) 400 = y div 100 - y div 100 div 4 - 12"
    unfolding q by (cases "y < 1600") (auto simp: c_quot_def)
  have b: "(y - 1400) div 100 = y div 100 - 14" "14 \<le> y div 100"
    using assms div_shift[of "y - 1400" y 100 "- 14"] zdiv_mono1[of 1400 y 100] by simp_all
  moreover have "(y div 100 * 8 - 112) div 25 = (8 * (y div 100) + 13) div 25 - 5"
    using div_shift[of "y div 100 * 8 - 112" "8 * (y div 100) + 13" 25 "- 5"] by simp
  ultimately show "c_quot (c_quot (y - 1400) 100 * 8) 25 = (8 * (y div 100) + 13) div 25 - 5"
    using assms by (simp add: c_quot_def left_diff_distrib)
qed

lemma mod30_shift: "x = z + 30 * k \<Longrightarrow> x mod 30 = z mod (30 :: int)"
  by simp

lemma julian_moon_uncorrected:
  assumes "0 \<le> a" "a < (19 :: int)"
  shows "(19 * a + 15) mod 30 \<noteq> 29" "(19 * a + 15) mod 30 = 28 \<Longrightarrow> a < 11"
  using metonic_cases[OF assms] by (elim disjE; simp)+

lemma easter_moon:
  assumes "0 < y" "easter_julian y mth \<or> 1583 \<le> y"
  shows "snd (easter_dom_pfm y mth) = paschal_moon (easter_julian y mth) y"
proof -
  define a where "a = y mod 19"
  have a: "0 \<le> a" "a < 19" "c_rem y 19 = a" using assms(1) by (simp_all add: a_def c_rem_def)
  show ?thesis
  proof (cases "easter_julian y mth")
    case True
    have "(3 - 11 * (a + 1) - 7) mod 30 = (19 * a + 15) mod 30" by (rule mod30_shift[where k = "- a - 1"]) simp
    then show ?thesis using True julian_moon_uncorrected[OF a(1,2)]
      by (auto simp: easter_dom_pfm_def paschal_moon_def a(3) positive_rem_mod Let_def simp flip: a_def)
  next
    case False
    define b h where "b = y div 100" and "h = (19 * a + 15 + (b - b div 4 - (8 * b + 13) div 25)) mod 30"
    have "(3 - 11 * (a + 1) + (b - b div 4 - 12) - ((8 * b + 13) div 25 - 5)) mod 30 = h"
      unfolding h_def by (rule mod30_shift[where k = "- a - 1"]) simp
    moreover have "1583 \<le> y" using False assms(2) by simp
    ultimately have p: "positive_rem (3 - 11 * (c_rem y 19 + 1) + (c_quot (y - 1600) 100 - c_quot (y - 1600) 400) - c_quot (c_quot (y - 1400) 100 * 8) 25) 30 = h"
      by (simp only: century_terms a(3) positive_rem_mod zero_less_numeral flip: b_def)
    have "paschal_moon False y = (if h = 29 \<or> h = 28 \<and> a \<ge> 11 then h - 1 else h)"
      unfolding paschal_moon_def Let_def a_def[symmetric] b_def[symmetric] by (simp add: h_def)
    then show ?thesis using False unfolding easter_dom_pfm_def Let_def p by (simp add: a(3))
  qed
qed

lemma march_days:
  "greg_march Y = 365 * Y + Y div 4 - Y div 100 + Y div 400" "Y * 1461 div 4 = 365 * Y + Y div 4"
proof -
  define c r where "c = Y div 100" and "r = Y mod 100"
  have Y: "Y = 100 * c + r" by (simp add: c_def r_def)
  have "Y div 400 = c div 4" using zdiv_zmult2_eq[of 4 Y 100] by (simp add: c_def)
  moreover have "Y div 4 = 25 * c + r div 4" using div_shift[of Y r 4 "25 * c"] Y by simp
  moreover have "c * 146097 div 4 = 36524 * c + c div 4" "r * 1461 div 4 = 365 * r + r div 4"
    using div_shift[of "c * 146097" c 4 "36524 * c"] div_shift[of "r * 1461" r 4 "365 * r"] by simp_all
  ultimately show "greg_march Y = 365 * Y + Y div 4 - Y div 100 + Y div 400"
    using Y unfolding greg_march_def c_def[symmetric] r_def[symmetric] by linarith
  show "Y * 1461 div 4 = 365 * Y + Y div 4" using div_shift[of "Y * 1461" Y 4 "365 * Y"] by simp
qed

lemma march_21:
  assumes "0 < y" "y \<le> 2 ^ 31 - 4802"
  shows "GregorianToSdn y 3 21 = 365 * y + y div 4 - y div 100 + y div 400 + 1721140"
    "JulianToSdn y 3 21 = 365 * y + y div 4 + 1721138"
proof -
  have my: "march_year y 3 = (y + 4800, 0)" using march_year_first[of y 3] assms by (simp add: astro_def)
  have d: "(y + 4800) div 4 = y div 4 + 1200" "(y + 4800) div 100 = y div 100 + 48" "(y + 4800) div 400 = y div 400 + 12"
    using div_shift[of "y + 4800" y 4 1200] div_shift[of "y + 4800" y 100 48] div_shift[of "y + 4800" y 400 12] by simp_all
  have "GregorianToSdn y 3 21 = greg_march (y + 4800) - 32024" "JulianToSdn y 3 21 = (y + 4800) * 1461 div 4 - 32062"
    unfolding GregorianToSdn_def JulianToSdn_def my greg_march_def using assms(1) by simp_all
  then show "GregorianToSdn y 3 21 = 365 * y + y div 4 - y div 100 + y div 400 + 1721140" "JulianToSdn y 3 21 = 365 * y + y div 4 + 1721138"
    unfolding march_days d by simp_all
qed

lemma easter_dom:
  assumes "0 < y"
  shows "fst (easter_dom_pfm y mth) = (if easter_julian y mth then (y + y div 4 + 5) mod 7 else (y + y div 4 - y div 100 + y div 400) mod 7)"
  unfolding easter_dom_pfm_def Let_def using assms by (simp add: positive_rem_mod c_quot_def)

lemma easter_number_eq:
  "easter_number y mth = snd (easter_dom_pfm y mth) + (4 - snd (easter_dom_pfm y mth) - fst (easter_dom_pfm y mth)) mod 7 + 1"
  unfolding easter_number_def Let_def by (simp add: split_beta positive_rem_mod)

lemma easter_sunday:
  assumes "0 < y" "y \<le> 2 ^ 31 - 4802"
  shows "DayOfWeek (easter_sdn (easter_julian y mth) y (easter_number y mth)) = 0"
proof -
  define p d where "p = snd (easter_dom_pfm y mth)" and "d = fst (easter_dom_pfm y mth)"
  define q where "q = (if easter_julian y mth then y + y div 4 + 5 else y + y div 4 - y div 100 + y div 400)"
  have d: "d mod 7 = q mod 7" using easter_dom[OF assms(1)] by (simp add: d_def q_def)
  have e: "easter_number y mth mod 7 = (5 - q) mod 7"
  proof -
    have "easter_number y mth = p + 1 + (4 - p - d) mod 7" unfolding easter_number_eq p_def[symmetric] d_def[symmetric] by simp
    then have "easter_number y mth mod 7 = (p + 1 + (4 - p - d)) mod 7" by (simp only: mod_add_right_eq)
    also have "\<dots> = (5 - d) mod 7" by simp
    also have "\<dots> = (5 - q) mod 7" using d by (rule mod_diff_cong[OF refl])
    finally show ?thesis .
  qed
  define s where "s = easter_sdn (easter_julian y mth) y 0"
  have "s + 1 = q - 5 + 7 * (52 * y + (if easter_julian y mth then 245877 else 245878))"
    using march_21[OF assms] by (simp add: s_def easter_sdn_def q_def)
  then have "(s + 1) mod 7 = (q - 5) mod 7" by (simp only: mod_mult_self2)
  then have "(s + 1 + easter_number y mth) mod 7 = (q - 5 + (5 - q)) mod 7" using e by (rule mod_add_cong)
  then show ?thesis by (simp add: DayOfWeek_mod easter_sdn_def s_def add.commute add.left_commute)
qed

text \<open>
  The reckoning that belongs to a method: Julian always for 3, Gregorian always for 2, and
  otherwise Gregorian from the year of the reform on: 1583 in Rome (method 1), 1753 in
  England (every other method).
\<close>

definition julian_reckoning :: "int \<Rightarrow> int \<Rightarrow> bool" where
  "julian_reckoning year mth =
     (if mth = 3 then True else if mth = 2 then False else if mth = 1 then year < 1583 else year < 1753)"

lemma easter_julian_reckoning: "easter_julian year mth = julian_reckoning year mth"
  by (auto simp: easter_julian_def julian_reckoning_def easter_methods)

lemma pfm_range: "0 \<le> snd (easter_dom_pfm y mth)" "snd (easter_dom_pfm y mth) \<le> 28"
proof -
  have r: "0 \<le> positive_rem a 30 \<and> positive_rem a 30 < 30" for a by (simp add: positive_rem_mod)
  have "snd (easter_dom_pfm y mth) \<in> {0..28}"
    using r[of "3 - 11 * (c_rem y 19 + 1) - 7"]
      r[of "3 - 11 * (c_rem y 19 + 1) + (c_quot (y - 1600) 100 - c_quot (y - 1600) 400) - c_quot (c_quot (y - 1400) 100 * 8) 25"]
    unfolding easter_dom_pfm_def Let_def by auto
  then show "0 \<le> snd (easter_dom_pfm y mth)" "snd (easter_dom_pfm y mth) \<le> 28" by auto
qed



text \<open>The wrong rounding shows in the year 1500.\<close>

lemma easter_gregorian_1500: "snd (easter_dom_pfm 1500 CAL_EASTER_ALWAYS_GREGORIAN) \<noteq> paschal_moon False 1500"
  by code_simp

end
