(* ===== verification/PhpCalFuncs.thy ===== *)
theory PhpCalFuncs
  imports PhpEaster
begin

text \<open>
  The functions of calendar.c that build strings and arrays, with the tables of names, the
  Hebrew numerals, and the two conversions of cal_unix.c. A table of names, and the table of
  the Jewish year lengths that selects one, is read through \<open>entry_at\<close>, which is \<open>None\<close>
  outside the table; the index of a year is computed with the truncating remainder of C.
\<close>

unbundle bit_operations_syntax

section \<open>The code\<close>

datatype cal_key = KStr string | KIdx int

datatype cal_zval = CFalse | CNull | CLong int | CString string | CArray "(cal_key \<times> cal_zval) list"

definition MonthNameShort :: "string list" where
  "MonthNameShort = ['''', ''Jan'', ''Feb'', ''Mar'', ''Apr'', ''May'', ''Jun'', ''Jul'', ''Aug'', ''Sep'', ''Oct'', ''Nov'', ''Dec'']"

definition MonthNameLong :: "string list" where
  "MonthNameLong = ['''', ''January'', ''February'', ''March'', ''April'', ''May'', ''June'', ''July'', ''August'', ''September'',
     ''October'', ''November'', ''December'']"

definition FrenchMonthName :: "string list" where
  "FrenchMonthName = ['''', ''Vendemiaire'', ''Brumaire'', ''Frimaire'', ''Nivose'', ''Pluviose'', ''Ventose'', ''Germinal'', ''Floreal'',
     ''Prairial'', ''Messidor'', ''Thermidor'', ''Fructidor'', ''Extra'']"

definition JewishMonthNameLeap :: "string list" where
  "JewishMonthNameLeap = ['''', ''Tishri'', ''Heshvan'', ''Kislev'', ''Tevet'', ''Shevat'', ''Adar I'', ''Adar II'', ''Nisan'', ''Iyyar'',
     ''Sivan'', ''Tammuz'', ''Av'', ''Elul'']"

definition JewishMonthName :: "string list" where
  "JewishMonthName = ['''', ''Tishri'', ''Heshvan'', ''Kislev'', ''Tevet'', ''Shevat'', '''', ''Adar'', ''Nisan'', ''Iyyar'',
     ''Sivan'', ''Tammuz'', ''Av'', ''Elul'']"

definition JewishMonthHebNameLeap :: "string list" where
  "JewishMonthHebNameLeap =
     ['''', [CHR 0xFA, CHR 0xF9, CHR 0xF8, CHR 0xE9], [CHR 0xE7, CHR 0xF9, CHR 0xE5, CHR 0xEF], [CHR 0xEB, CHR 0xF1, CHR 0xEC, CHR 0xE5],
      [CHR 0xE8, CHR 0xE1, CHR 0xFA], [CHR 0xF9, CHR 0xE1, CHR 0xE8], [CHR 0xE0, CHR 0xE3, CHR 0xF8, CHR 0x20, CHR 0xE0, CHR 0x27],
      [CHR 0xE0, CHR 0xE3, CHR 0xF8, CHR 0x20, CHR 0xE1, CHR 0x27], [CHR 0xF0, CHR 0xE9, CHR 0xF1, CHR 0xEF], [CHR 0xE0, CHR 0xE9, CHR 0xE9, CHR 0xF8],
      [CHR 0xF1, CHR 0xE9, CHR 0xE5, CHR 0xEF], [CHR 0xFA, CHR 0xEE, CHR 0xE5, CHR 0xE6], [CHR 0xE0, CHR 0xE1], [CHR 0xE0, CHR 0xEC, CHR 0xE5, CHR 0xEC]]"

definition JewishMonthHebName :: "string list" where
  "JewishMonthHebName =
     ['''', [CHR 0xFA, CHR 0xF9, CHR 0xF8, CHR 0xE9], [CHR 0xE7, CHR 0xF9, CHR 0xE5, CHR 0xEF], [CHR 0xEB, CHR 0xF1, CHR 0xEC, CHR 0xE5],
      [CHR 0xE8, CHR 0xE1, CHR 0xFA], [CHR 0xF9, CHR 0xE1, CHR 0xE8], '''',
      [CHR 0xE0, CHR 0xE3, CHR 0xF8], [CHR 0xF0, CHR 0xE9, CHR 0xF1, CHR 0xEF], [CHR 0xE0, CHR 0xE9, CHR 0xE9, CHR 0xF8],
      [CHR 0xF1, CHR 0xE9, CHR 0xE5, CHR 0xEF], [CHR 0xFA, CHR 0xEE, CHR 0xE5, CHR 0xE6], [CHR 0xE0, CHR 0xE1], [CHR 0xE0, CHR 0xEC, CHR 0xE5, CHR 0xEC]]"

definition DayNameShort :: "string list" where
  "DayNameShort = [''Sun'', ''Mon'', ''Tue'', ''Wed'', ''Thu'', ''Fri'', ''Sat'']"

definition DayNameLong :: "string list" where
  "DayNameLong = [''Sunday'', ''Monday'', ''Tuesday'', ''Wednesday'', ''Thursday'', ''Friday'', ''Saturday'']"

definition entry_at :: "'a list \<Rightarrow> int \<Rightarrow> 'a option" where
  "entry_at names i = (if 0 \<le> i \<and> i < int (length names) then Some (names ! nat i) else None)"

definition JEWISH_MONTH_NAME :: "int \<Rightarrow> string list option" where
  "JEWISH_MONTH_NAME year =
     map_option (\<lambda>m. if m = 13 then JewishMonthNameLeap else JewishMonthName) (entry_at monthsPerYear (c_rem (year - 1) 19))"

definition JEWISH_HEB_MONTH_NAME :: "int \<Rightarrow> string list option" where
  "JEWISH_HEB_MONTH_NAME year =
     map_option (\<lambda>m. if m = 13 then JewishMonthHebNameLeap else JewishMonthHebName) (entry_at monthsPerYear (c_rem (year - 1) 19))"

text \<open>The format \<open>%i\<close>.\<close>

fun fmt_nat :: "nat \<Rightarrow> string" where
  "fmt_nat n = (if n < 10 then [char_of (48 + n)] else fmt_nat (n div 10) @ [char_of (48 + n mod 10)])"

declare fmt_nat.simps [simp del]

definition fmt_i :: "int \<Rightarrow> string" where
  "fmt_i x = (if x < 0 then CHR ''-'' # fmt_nat (nat (- x)) else fmt_nat (nat x))"

definition date_string :: "date \<Rightarrow> string" where
  "date_string = (\<lambda>(year, month, day). fmt_i month @ ''/'' @ fmt_i day @ ''/'' @ fmt_i year)"

definition jdtogregorian :: "int \<Rightarrow> string" where
  "jdtogregorian julday = date_string (SdnToGregorian julday)"

definition gregoriantojd :: "int \<Rightarrow> int \<Rightarrow> int \<Rightarrow> int" where
  "gregoriantojd month day year = GregorianToSdn (c_int year) (c_int month) (c_int day)"

definition jdtojulian :: "int \<Rightarrow> string" where
  "jdtojulian julday = date_string (SdnToJulian julday)"

definition juliantojd :: "int \<Rightarrow> int \<Rightarrow> int \<Rightarrow> int" where
  "juliantojd month day year = JulianToSdn (c_int year) (c_int month) (c_int day)"

definition jdtofrench :: "int \<Rightarrow> string" where
  "jdtofrench julday = date_string (SdnToFrench julday)"

definition frenchtojd :: "int \<Rightarrow> int \<Rightarrow> int \<Rightarrow> int" where
  "frenchtojd month day year = FrenchToSdn (c_int year) (c_int month) (c_int day)"

definition jewishtojd :: "int \<Rightarrow> int \<Rightarrow> int \<Rightarrow> int" where
  "jewishtojd month day year = JewishToSdn (c_int year) (c_int month) (c_int day)"

text \<open>
  \<open>jddayofweek\<close> and \<open>jdmonthname\<close>; the modes are 0 for the number, 1 for the long and 2 for the
  short name of the day, and 0 to 5 for the month names, in the order of the enumerations.
\<close>

definition jddayofweek :: "int \<Rightarrow> int \<Rightarrow> cal_zval option" where
  "jddayofweek julday mode =
     (let day = DayOfWeek julday in
      case (entry_at DayNameLong day, entry_at DayNameShort day) of
        (Some daynamel, Some daynames) \<Rightarrow>
          Some (if mode = 1 then CString daynamel else if mode = 2 then CString daynames else CLong day)
      | _ \<Rightarrow> None)"

definition jdmonthname :: "int \<Rightarrow> int \<Rightarrow> string option" where
  "jdmonthname julday mode =
     (if mode = 1 then let (year, month, day) = SdnToGregorian julday in entry_at MonthNameLong month
      else if mode = 2 then let (year, month, day) = SdnToJulian julday in entry_at MonthNameShort month
      else if mode = 3 then let (year, month, day) = SdnToJulian julday in entry_at MonthNameLong month
      else if mode = 4 then
        let (year, month, day) = SdnToJewish julday in if year > 0 then Option.bind (JEWISH_MONTH_NAME year) (\<lambda>names. entry_at names month) else Some ''''
      else if mode = 5 then let (year, month, day) = SdnToFrench julday in entry_at FrenchMonthName month
      else let (year, month, day) = SdnToGregorian julday in entry_at MonthNameShort month)"

definition month_names :: "cal_name_type_t \<Rightarrow> string list \<times> string list" where
  "month_names cal =
     (case cal of CAL_GREGORIAN \<Rightarrow> (MonthNameShort, MonthNameLong) | CAL_JULIAN \<Rightarrow> (MonthNameShort, MonthNameLong)
      | CAL_JEWISH \<Rightarrow> (JewishMonthNameLeap, JewishMonthNameLeap) | CAL_FRENCH \<Rightarrow> (FrenchMonthName, FrenchMonthName))"

definition cal_name :: "cal_name_type_t \<Rightarrow> string \<times> string" where
  "cal_name cal =
     (case cal of CAL_GREGORIAN \<Rightarrow> (''Gregorian'', ''CAL_GREGORIAN'') | CAL_JULIAN \<Rightarrow> (''Julian'', ''CAL_JULIAN'')
      | CAL_JEWISH \<Rightarrow> (''Jewish'', ''CAL_JEWISH'') | CAL_FRENCH \<Rightarrow> (''French'', ''CAL_FRENCH''))"

fun all_some :: "('a \<times> 'b option) list \<Rightarrow> ('a \<times> 'b) list option" where
  "all_some [] = Some []"
| "all_some ((k, None) # xs) = None"
| "all_some ((k, Some v) # xs) = (case all_some xs of None \<Rightarrow> None | Some ys \<Rightarrow> Some ((k, v) # ys))"

definition name_array :: "string list \<Rightarrow> int \<Rightarrow> cal_zval option" where
  "name_array names n = map_option CArray (all_some (map (\<lambda>i. (KIdx i, map_option CString (entry_at names i))) [1..n]))"

definition php_cal_info :: "cal_name_type_t \<Rightarrow> cal_zval option" where
  "php_cal_info cal =
     (let calendar = cal_conversion_table cal; (shorts, longs) = month_names cal
      in map_option CArray (all_some
           [(KStr ''months'', name_array longs (num_months calendar)),
            (KStr ''abbrevmonths'', name_array shorts (num_months calendar)),
            (KStr ''maxdaysinmonth'', Some (CLong (max_days_in_month calendar))),
            (KStr ''calname'', Some (CString (fst (cal_name cal)))),
            (KStr ''calsymbol'', Some (CString (snd (cal_name cal))))]))"

definition cal_info :: "int \<Rightarrow> cal_zval option" where
  "cal_info cal =
     (if cal = - 1 then map_option CArray (all_some (map (\<lambda>i. (KIdx i, case cal_of_id i of Some c \<Rightarrow> php_cal_info c | None \<Rightarrow> None)) [0..3]))
      else case cal_of_id cal of None \<Rightarrow> Some CFalse | Some c \<Rightarrow> php_cal_info c)"

definition cal_from_jd :: "int \<Rightarrow> int \<Rightarrow> cal_zval option" where
  "cal_from_jd jd cal =
     (case cal_of_id cal of None \<Rightarrow> Some CFalse
      | Some c \<Rightarrow>
          let (year, month, day) = from_jd (cal_conversion_table c) jd;
              dow = DayOfWeek jd;
              day_entries = (if c \<noteq> CAL_JEWISH \<or> year > 0
                then [(KStr ''dow'', Some (CLong dow)), (KStr ''abbrevdayname'', map_option CString (entry_at DayNameShort dow)),
                      (KStr ''dayname'', map_option CString (entry_at DayNameLong dow))]
                else [(KStr ''dow'', Some CNull), (KStr ''abbrevdayname'', Some (CString '''')), (KStr ''dayname'', Some (CString ''''))]);
              (short, long) = (if c = CAL_JEWISH
                then (let nm = (if year > 0 then Option.bind (JEWISH_MONTH_NAME year) (\<lambda>names. entry_at names month) else Some '''') in (nm, nm))
                else (entry_at (fst (month_names c)) month, entry_at (snd (month_names c)) month))
          in map_option CArray (all_some
               ([(KStr ''date'', Some (CString (date_string (year, month, day)))), (KStr ''month'', Some (CLong month)),
                 (KStr ''day'', Some (CLong day)), (KStr ''year'', Some (CLong year))] @ day_entries
                @ [(KStr ''abbrevmonth'', map_option CString short), (KStr ''monthname'', map_option CString long)])))"

text \<open>Hebrew numerals: letters of ISO-8859-8; the first letter of the table is never used.\<close>

definition alef_bet :: string where
  "alef_bet = [CHR ''0'', CHR 0xE0, CHR 0xE1, CHR 0xE2, CHR 0xE3, CHR 0xE4, CHR 0xE5, CHR 0xE6, CHR 0xE7, CHR 0xE8, CHR 0xE9, CHR 0xEB,
     CHR 0xEC, CHR 0xEE, CHR 0xF0, CHR 0xF1, CHR 0xF2, CHR 0xF4, CHR 0xF6, CHR 0xF7, CHR 0xF8, CHR 0xF9, CHR 0xFA]"

definition CAL_JEWISH_ADD_ALAFIM_GERESH :: int where "CAL_JEWISH_ADD_ALAFIM_GERESH = 2"

definition CAL_JEWISH_ADD_ALAFIM :: int where "CAL_JEWISH_ADD_ALAFIM = 4"

definition CAL_JEWISH_ADD_GERESHAYIM :: int where "CAL_JEWISH_ADD_GERESHAYIM = 8"

function heb_tavs :: "int \<Rightarrow> string \<times> int" where
  "heb_tavs n = (if n \<ge> 400 then (let (s, m) = heb_tavs (n - 400) in (alef_bet ! 22 # s, m)) else ([], n))"
  by pat_completeness auto

termination by (relation "measure nat") auto

declare heb_tavs.simps [simp del]

definition heb_tens_ones :: "int \<Rightarrow> string" where
  "heb_tens_ones n =
     (if n = 15 \<or> n = 16 then [alef_bet ! 9, alef_bet ! nat (n - 9)]
      else let (tens, n) = (if n \<ge> 10 then ([alef_bet ! nat (9 + n div 10)], n mod 10) else ([], n))
           in tens @ (if n > 0 then [alef_bet ! nat n] else []))"

definition heb_gereshayim :: "string \<Rightarrow> string" where
  "heb_gereshayim s =
     (case length s of 0 \<Rightarrow> s | Suc 0 \<Rightarrow> s @ [CHR 0x27] | _ \<Rightarrow> butlast s @ [CHR 0x22, last s])"

definition heb_number_to_chars :: "int \<Rightarrow> int \<Rightarrow> string option" where
  "heb_number_to_chars n fl =
     (if n > 9999 \<or> n < 1 then None
      else
        let (alafim, n) =
              (if n div 1000 \<noteq> 0
               then ([alef_bet ! nat (n div 1000)] @ (if CAL_JEWISH_ADD_ALAFIM_GERESH AND fl \<noteq> 0 then [CHR 0x27] else [])
                       @ (if CAL_JEWISH_ADD_ALAFIM AND fl \<noteq> 0
                          then [CHR 0x20, CHR 0xE0, CHR 0xEC, CHR 0xF4, CHR 0xE9, CHR 0xED, CHR 0x20] else []),
                     n mod 1000)
               else ([], n));
            (tavs, n) = heb_tavs n;
            (meot, n) = (if n \<ge> 100 then ([alef_bet ! nat (18 + n div 100)], n mod 100) else ([], n));
            letters = tavs @ meot @ heb_tens_ones n
        in Some (alafim @ (if CAL_JEWISH_ADD_GERESHAYIM AND fl \<noteq> 0 then heb_gereshayim letters else letters)))"

text \<open>A null string prints as \<open>(null)\<close>.\<close>

definition fmt_s :: "string option \<Rightarrow> string" where
  "fmt_s s = (case s of None \<Rightarrow> ''(null)'' | Some x \<Rightarrow> x)"

definition jdtojewish :: "int \<Rightarrow> bool \<Rightarrow> int \<Rightarrow> cal_zval option" where
  "jdtojewish julday heb fl =
     (let (year, month, day) = SdnToJewish julday
      in if \<not> heb then Some (CString (date_string (year, month, day)))
         else if year \<le> 0 \<or> year > 9999 then Some CFalse
         else case Option.bind (JEWISH_HEB_MONTH_NAME year) (\<lambda>names. entry_at names month) of None \<Rightarrow> None
           | Some nm \<Rightarrow> Some (CString (fmt_s (heb_number_to_chars day (c_int fl)) @ '' '' @ nm @ '' ''
                                       @ fmt_s (heb_number_to_chars year (c_int fl)))))"

text \<open>cal_unix.c: the current time and the local date of a time (\<open>tm_year\<close>, \<open>tm_mon\<close>, \<open>tm_mday\<close>) are parameters.\<close>

definition SECS_PER_DAY :: int where "SECS_PER_DAY = 24 * 3600"

definition unixtojd :: "(int \<Rightarrow> (int \<times> int \<times> int) option) \<Rightarrow> int \<Rightarrow> int \<Rightarrow> int option" where
  "unixtojd localtime now stamp =
     (if stamp < 0 then None
      else let ts = (if stamp = 0 then now else stamp)
           in case localtime ts of None \<Rightarrow> None
              | Some (tm_year, tm_mon, tm_mday) \<Rightarrow> Some (GregorianToSdn (tm_year + 1900) (tm_mon + 1) tm_mday))"

definition jdtounix :: "int \<Rightarrow> int option" where
  "jdtounix jday =
     (let uday = jday - 2440588
      in if uday < 0 \<or> uday > ZLONG_MAX div SECS_PER_DAY then None else Some (uday * SECS_PER_DAY))"

section \<open>Months and days are inside the tables\<close>

lemma march_month_range:
  assumes "1 \<le> doy" "doy \<le> 366"
  shows "1 \<le> fst (snd (march_date y doy))" "fst (snd (march_date y doy)) \<le> 12"
proof -
  have "0 \<le> (doy * 5 - 3) div 153" "(doy * 5 - 3) div 153 \<le> 11"
    using assms zdiv_mono1[of "doy * 5 - 3" 1827 153] by (simp_all add: pos_imp_zdiv_nonneg_iff)
  then show "1 \<le> fst (snd (march_date y doy))" "fst (snd (march_date y doy)) \<le> 12"
    by (simp_all add: march_date_def Let_def split_beta)
qed

lemma day_of_year_range: "1 \<le> t mod 1461 div 4 + (1 :: int)" "t mod 1461 div 4 + 1 \<le> (366 :: int)"
proof -
  have "t mod 1461 < 1461" "0 \<le> t mod 1461" by simp_all
  then show "1 \<le> t mod 1461 div 4 + 1" "t mod 1461 div 4 + 1 \<le> 366"
    using zdiv_mono1[of "t mod 1461" 1460 4] by (simp_all add: pos_imp_zdiv_nonneg_iff)
qed

lemma month_in_range:
  "0 \<le> fst (snd (from_jd (cal_conversion_table cal) jd)) \<and> fst (snd (from_jd (cal_conversion_table cal) jd)) \<le> num_months (cal_conversion_table cal)"
proof (cases cal)
  case CAL_GREGORIAN
  then show ?thesis
    using march_month_range[OF day_of_year_range] by (auto simp: cal_conversion_table_def SdnToGregorian_def Let_def intro: order_trans[of 0 1])
next
  case CAL_JULIAN
  then show ?thesis
    using march_month_range[OF day_of_year_range] by (auto simp: cal_conversion_table_def SdnToJulian_def Let_def intro: order_trans[of 0 1])
next
  case CAL_FRENCH
  have "0 \<le> t mod 1461 div 4 div 30" "t mod 1461 div 4 div 30 \<le> (12 :: int)" for t
    using day_of_year_range[of t] zdiv_mono1[of "t mod 1461 div 4" 365 30] by (simp_all add: pos_imp_zdiv_nonneg_iff)
  then show ?thesis using CAL_FRENCH by (simp add: cal_conversion_table_def SdnToFrench_def Let_def)
next
  case CAL_JEWISH
  have "numbered (jd - JEWISH_SDN_OFFSET) (SdnToJewish jd) \<or> SdnToJewish jd = (0, 0, 0)"
    using SdnToJewish_numbered[of jd] by (cases "JEWISH_SDN_OFFSET < jd \<and> jd \<le> JEWISH_SDN_MAX") (auto simp: SdnToJewish_def)
  then show ?thesis using CAL_JEWISH by (auto simp: cal_conversion_table_def numbered_def jewish_valid_def split_beta)
qed

lemma name_tables_length:
  "length (fst (month_names cal)) = Suc (nat (num_months (cal_conversion_table cal)))"
  "length (snd (month_names cal)) = Suc (nat (num_months (cal_conversion_table cal)))"
  by (cases cal; simp add: month_names_def cal_conversion_table_def MonthNameShort_def MonthNameLong_def JewishMonthNameLeap_def
      FrenchMonthName_def)+

lemma jewish_tables_length:
  "length JewishMonthNameLeap = 14" "length JewishMonthName = 14" "length JewishMonthHebNameLeap = 14" "length JewishMonthHebName = 14"
  by (simp_all add: JewishMonthNameLeap_def JewishMonthName_def JewishMonthHebName_def JewishMonthHebNameLeap_def)

lemma months_per_year_defined:
  assumes "0 < year"
  shows "\<exists>m. entry_at monthsPerYear (c_rem (year - 1) 19) = Some m"
  using assms by (simp add: entry_at_def monthsPerYear_def c_rem_def)

lemma jewish_names_defined:
  assumes "0 < year" "0 \<le> m" "m \<le> 13"
  shows "\<exists>nm. Option.bind (JEWISH_MONTH_NAME year) (\<lambda>names. entry_at names m) = Some nm"
    "\<exists>nm. Option.bind (JEWISH_HEB_MONTH_NAME year) (\<lambda>names. entry_at names m) = Some nm"
  using months_per_year_defined[OF assms(1)] assms(2,3)
  by (auto simp: JEWISH_MONTH_NAME_def JEWISH_HEB_MONTH_NAME_def entry_at_def[where 'a = string] jewish_tables_length)

lemma day_names: "\<exists>nm. entry_at DayNameShort (DayOfWeek jd) = Some nm" "\<exists>nm. entry_at DayNameLong (DayOfWeek jd) = Some nm"
  by (simp_all add: entry_at_def DayOfWeek_mod DayNameShort_def DayNameLong_def)

lemma month_names_defined:
  assumes "from_jd (cal_conversion_table cal) jd = (y, m, d)"
  shows "\<exists>nm. entry_at (fst (month_names cal)) m = Some nm" "\<exists>nm. entry_at (snd (month_names cal)) m = Some nm"
    "cal = CAL_JEWISH \<Longrightarrow> 0 < y \<Longrightarrow> \<exists>nm. Option.bind (JEWISH_MONTH_NAME y) (\<lambda>names. entry_at names m) = Some nm"
    "cal = CAL_JEWISH \<Longrightarrow> 0 < y \<Longrightarrow> \<exists>nm. Option.bind (JEWISH_HEB_MONTH_NAME y) (\<lambda>names. entry_at names m) = Some nm"
proof -
  have m: "0 \<le> m" "m \<le> num_months (cal_conversion_table cal)" using month_in_range[of cal jd] assms by auto
  then show "\<exists>nm. entry_at (fst (month_names cal)) m = Some nm" "\<exists>nm. entry_at (snd (month_names cal)) m = Some nm"
    using name_tables_length by (auto simp: entry_at_def)
  show "\<exists>nm. Option.bind (JEWISH_MONTH_NAME y) (\<lambda>names. entry_at names m) = Some nm"
    "\<exists>nm. Option.bind (JEWISH_HEB_MONTH_NAME y) (\<lambda>names. entry_at names m) = Some nm" if "cal = CAL_JEWISH" "0 < y"
    using jewish_names_defined[of y m] m that by (simp_all add: cal_conversion_table_def)
qed

lemma all_some_defined: "list_all (\<lambda>(k, v). v \<noteq> None) xs \<Longrightarrow> \<exists>ys. all_some xs = Some ys"
  by (induction xs rule: all_some.induct) auto

lemma name_array_defined: "n < int (length names) \<Longrightarrow> \<exists>v. name_array names n = Some v"
  using all_some_defined[of "map (\<lambda>i. (KIdx i, map_option CString (entry_at names i))) [1..n]"]
  by (auto simp: name_array_def list_all_iff entry_at_def)

lemma php_cal_info_defined: "\<exists>v. php_cal_info cal = Some v"
proof -
  have "num_months (cal_conversion_table cal) < int (length (fst (month_names cal)))"
    "num_months (cal_conversion_table cal) < int (length (snd (month_names cal)))"
    by (cases cal; simp add: name_tables_length cal_conversion_table_def)+
  then obtain a b where "name_array (fst (month_names cal)) (num_months (cal_conversion_table cal)) = Some a"
      "name_array (snd (month_names cal)) (num_months (cal_conversion_table cal)) = Some b"
    using name_array_defined by blast
  then show ?thesis by (simp add: php_cal_info_def Let_def split_beta)
qed

lemma cal_from_jd_defined: "\<exists>v. cal_from_jd jd cal = Some v"
proof (cases "cal_of_id cal")
  case (Some c)
  obtain y m d where f: "from_jd (cal_conversion_table c) jd = (y, m, d)" by (metis prod_cases3)
  note n = month_names_defined[OF f] day_names[of jd]
  show ?thesis
  proof (cases "c = CAL_JEWISH")
    case True
    obtain s l where "entry_at DayNameShort (DayOfWeek jd) = Some s" "entry_at DayNameLong (DayOfWeek jd) = Some l" using n by blast
    then show ?thesis using True f n(3) by (cases "0 < y") (auto simp: cal_from_jd_def Some Let_def)
  next
    case False
    then obtain a b s l where "entry_at (fst (month_names c)) m = Some a" "entry_at (snd (month_names c)) m = Some b"
        "entry_at DayNameShort (DayOfWeek jd) = Some s" "entry_at DayNameLong (DayOfWeek jd) = Some l" using n by blast
    then show ?thesis using False by (simp add: cal_from_jd_def Some f Let_def)
  qed
qed (simp add: cal_from_jd_def)

lemma jdmonthname_defined: "\<exists>nm. jdmonthname jd mode = Some nm"
proof -
  have "\<exists>nm. (case SdnToGregorian jd of (y, m, d) \<Rightarrow> entry_at MonthNameLong m) = Some nm"
    "\<exists>nm. (case SdnToGregorian jd of (y, m, d) \<Rightarrow> entry_at MonthNameShort m) = Some nm"
    "\<exists>nm. (case SdnToJulian jd of (y, m, d) \<Rightarrow> entry_at MonthNameLong m) = Some nm"
    "\<exists>nm. (case SdnToJulian jd of (y, m, d) \<Rightarrow> entry_at MonthNameShort m) = Some nm"
    "\<exists>nm. (case SdnToFrench jd of (y, m, d) \<Rightarrow> entry_at FrenchMonthName m) = Some nm"
    using month_names_defined(1,2)[of CAL_GREGORIAN jd] month_names_defined(1,2)[of CAL_JULIAN jd] month_names_defined(1)[of CAL_FRENCH jd]
    by (auto simp: cal_conversion_table_def month_names_def split: prod.splits)
  moreover have "\<exists>nm. (case SdnToJewish jd of (y, m, d) \<Rightarrow> if y > 0 then Option.bind (JEWISH_MONTH_NAME y) (\<lambda>names. entry_at names m) else Some '''') = Some nm"
    using month_names_defined(3)[of CAL_JEWISH jd] by (auto simp: cal_conversion_table_def split: prod.splits)
  ultimately show ?thesis by (simp add: jdmonthname_def)
qed

lemma cal_info_defined: "\<exists>v. cal_info cal = Some v"
proof (cases "cal = - 1")
  case True
  have "list_all (\<lambda>i. cal_of_id i \<noteq> None) [0..3]" by code_simp
  then have "\<exists>c. cal_of_id i = Some c" if "i \<in> set [0..3]" for i using that by (auto simp: list_all_iff)
  then have "list_all (\<lambda>(k, v). v \<noteq> None) (map (\<lambda>i. (KIdx i, case cal_of_id i of Some c \<Rightarrow> php_cal_info c | None \<Rightarrow> None)) [0..3])"
    using php_cal_info_defined by (fastforce simp: list_all_iff)
  then show ?thesis using True all_some_defined by (fastforce simp: cal_info_def)
next
  case False
  then show ?thesis using php_cal_info_defined by (cases "cal_of_id cal") (simp_all add: cal_info_def)
qed

text \<open>C36: no day number and no mode or calendar number makes the functions that look up names read
  outside a table of names or outside the table of year lengths (whose index is negative for
  the year 0 of an invalid Jewish date, which the guards keep away): a name or an array is
  always returned, or \<open>FALSE\<close> for an unknown calendar or a year without a Hebrew numeral.\<close>

theorem names_in_bounds:
  "(\<exists>v. jddayofweek jd mode = Some v) \<and> (\<exists>nm. jdmonthname jd mode = Some nm) \<and> (\<exists>v. jdtojewish jd heb fl = Some v)
    \<and> (\<exists>v. cal_info cal = Some v) \<and> (\<exists>v. cal_from_jd jd cal = Some v)"
proof -
  have "\<exists>v. jddayofweek jd mode = Some v" using day_names[of jd] by (auto simp: jddayofweek_def)
  moreover have "\<exists>v. jdtojewish jd heb fl = Some v"
  proof -
    obtain y m d where f: "SdnToJewish jd = (y, m, d)" by (metis prod_cases3)
    have "\<exists>nm. Option.bind (JEWISH_HEB_MONTH_NAME y) (\<lambda>names. entry_at names m) = Some nm" if "0 < y"
      using month_names_defined(4)[of CAL_JEWISH jd y m d] f that by (simp add: cal_conversion_table_def)
    then show ?thesis using f by (cases "0 < y") (auto simp: jdtojewish_def)
  qed
  ultimately show ?thesis using jdmonthname_defined cal_from_jd_defined cal_info_defined by blast
qed

section \<open>Hebrew numerals\<close>

text \<open>The value of a letter by its place in the alphabet; other characters count nothing.\<close>

definition letter_value :: "int \<Rightarrow> int" where
  "letter_value i = (if i \<le> 9 then i else if i \<le> 18 then (i - 9) * 10 else (i - 18) * 100)"

definition heb_value :: "char \<Rightarrow> int" where
  "heb_value c = (case map_of (zip alef_bet [0..22]) c of None \<Rightarrow> 0 | Some i \<Rightarrow> letter_value i)"

definition gematria :: "string \<Rightarrow> int" where
  "gematria s = sum_list (map heb_value s)"

lemma gematria_simps: "gematria [] = 0" "gematria (c # s) = heb_value c + gematria s" "gematria (s @ t) = gematria s + gematria t"
  by (simp_all add: gematria_def)

lemma heb_value_table: "list_all (\<lambda>i. heb_value (alef_bet ! nat i) = letter_value i) [0..22]"
  by code_simp

lemma heb_value_letter: "0 \<le> i \<Longrightarrow> i \<le> 22 \<Longrightarrow> heb_value (alef_bet ! nat i) = letter_value i"
  using heb_value_table by (simp add: list_all_iff)

lemma heb_value_marks: "heb_value (CHR 0x27) = 0" "heb_value (CHR 0x22) = 0"
  by code_simp+

lemma heb_value_alafim: "heb_value (CHR 0x20) = 0" "heb_value (CHR 0xE0) = 1" "heb_value (CHR 0xEC) = 30" "heb_value (CHR 0xF4) = 80"
  "heb_value (CHR 0xE9) = 10" "heb_value (CHR 0xED) = 0"
  by code_simp+

lemma heb_tens_ones_table: "list_all (\<lambda>n. gematria (heb_tens_ones n) = n \<and> length (heb_tens_ones n) \<le> 2) [0..99]"
  by code_simp

lemma heb_tens_ones_value: "0 \<le> n \<Longrightarrow> n < 100 \<Longrightarrow> gematria (heb_tens_ones n) = n \<and> length (heb_tens_ones n) \<le> 2"
  using heb_tens_ones_table by (simp add: list_all_iff)

lemma heb_tavs_value:
  assumes "0 \<le> n" "n < 1000"
  shows "\<exists>s m. heb_tavs n = (s, m) \<and> gematria s + m = n \<and> 0 \<le> m \<and> m < 400 \<and> (length s = 0 \<or> length s = 1 \<or> length s = 2 \<and> m < 200)"
proof -
  have tav: "heb_value (alef_bet ! 22) = 400" using heb_value_letter[of 22] by (simp add: letter_value_def)
  consider "n < 400" | "400 \<le> n" "n < 800" | "800 \<le> n" by linarith
  then show ?thesis
    by cases (use assms in \<open>simp_all add: heb_tavs.simps[of n] heb_tavs.simps[of "n - 400"] heb_tavs.simps[of "n - 400 - 400"]
        heb_tavs.simps[of "n - 800"] gematria_simps tav\<close>)
qed

lemma gereshayim_value: "gematria (heb_gereshayim s) = gematria s" "length (heb_gereshayim s) \<le> Suc (length s)"
proof -
  have "gematria (butlast s) + heb_value (last s) = gematria s" if "s \<noteq> []"
    using gematria_simps(3)[of "butlast s" "[last s]"] that by (simp add: gematria_simps(1,2))
  moreover have "s \<noteq> []" if "length s = Suc (Suc n)" for n using that by auto
  ultimately show "gematria (heb_gereshayim s) = gematria s" "length (heb_gereshayim s) \<le> Suc (length s)"
    by (auto simp: heb_gereshayim_def gematria_simps heb_value_marks split: nat.splits)
qed

lemma heb_letters_value:
  assumes "0 \<le> n" "n < 1000"
  shows "\<exists>tavs n1 meot n2. heb_tavs n = (tavs, n1) \<and> (if n1 \<ge> 100 then ([alef_bet ! nat (18 + n1 div 100)], n1 mod 100) else ([], n1)) = (meot, n2)
    \<and> gematria (tavs @ meot @ heb_tens_ones n2) = n \<and> length (tavs @ meot @ heb_tens_ones n2) \<le> 5"
proof -
  obtain tavs n1 where t: "heb_tavs n = (tavs, n1)" "gematria tavs + n1 = n" "0 \<le> n1" "n1 < 400" "length tavs \<le> 2"
    using heb_tavs_value[OF assms] by force
  show ?thesis
  proof (cases "n1 \<ge> 100")
    case True
    then have h: "1 \<le> n1 div 100" "n1 div 100 \<le> 3"
      using t(4) zdiv_mono1[of 100 n1 100] zdiv_mono1[of n1 399 100] by simp_all
    then have "heb_value (alef_bet ! nat (18 + n1 div 100)) = n1 div 100 * 100"
      using heb_value_letter[of "18 + n1 div 100"] by (simp add: letter_value_def)
    moreover have "n1 = n1 div 100 * 100 + n1 mod 100" by simp
    ultimately show ?thesis using t True heb_tens_ones_value[of "n1 mod 100"] by (auto simp: gematria_simps)
  next
    case False
    then show ?thesis using t heb_tens_ones_value[of n1] by (auto simp: gematria_simps)
  qed
qed

lemma heb_numeral_spec:
  assumes "1 \<le> n" "n \<le> 9999"
  shows "\<exists>s. heb_number_to_chars n fl = Some s \<and> length s + 1 \<le> 18
    \<and> gematria s = n div 1000 + n mod 1000 + (if 1000 \<le> n \<and> CAL_JEWISH_ADD_ALAFIM AND fl \<noteq> 0 then 121 else 0)"
proof -
  define k where "k = n mod 1000"
  have th: "0 \<le> n div 1000" "n div 1000 \<le> 9" using assms zdiv_mono1[of n 9999 1000] by (simp_all add: pos_imp_zdiv_nonneg_iff)
  have k: "0 \<le> k" "k < 1000" "n div 1000 = 0 \<Longrightarrow> n = k" by (simp_all add: k_def)
  obtain tavs n1 meot n2 where l: "heb_tavs k = (tavs, n1)"
      "(if n1 \<ge> 100 then ([alef_bet ! nat (18 + n1 div 100)], n1 mod 100) else ([], n1)) = (meot, n2)"
      "gematria (tavs @ meot @ heb_tens_ones n2) = k" "length (tavs @ meot @ heb_tens_ones n2) \<le> 5"
    using heb_letters_value[OF k(1,2)] by blast
  define letters where "letters = tavs @ meot @ heb_tens_ones n2"
  define shown where "shown = (if CAL_JEWISH_ADD_GERESHAYIM AND fl \<noteq> 0 then heb_gereshayim letters else letters)"
  have sh: "gematria shown = k" "length shown \<le> 6"
    using l(3,4) gereshayim_value[of letters] by (auto simp: shown_def letters_def[symmetric])
  define alafim where "alafim = (if n div 1000 \<noteq> 0
      then [alef_bet ! nat (n div 1000)] @ (if CAL_JEWISH_ADD_ALAFIM_GERESH AND fl \<noteq> 0 then [CHR 0x27] else [])
        @ (if CAL_JEWISH_ADD_ALAFIM AND fl \<noteq> 0 then [CHR 0x20, CHR 0xE0, CHR 0xEC, CHR 0xF4, CHR 0xE9, CHR 0xED, CHR 0x20] else [])
      else [])"
  have big: "1000 \<le> n \<longleftrightarrow> n div 1000 \<noteq> 0" using th k(2) by (auto simp: k_def)
  have al: "gematria alafim = n div 1000 + (if 1000 \<le> n \<and> CAL_JEWISH_ADD_ALAFIM AND fl \<noteq> 0 then 121 else 0)" "length alafim \<le> 9"
    using heb_value_letter[of "n div 1000"] th unfolding big alafim_def
    by (auto simp: gematria_simps heb_value_marks heb_value_alafim letter_value_def)
  have "heb_number_to_chars n fl = Some (alafim @ shown)"
    using assms l k(3) unfolding heb_number_to_chars_def Let_def alafim_def shown_def letters_def k_def[symmetric] by (auto simp: k_def[symmetric])
  then show ?thesis using sh al by (simp add: gematria_simps k_def)
qed

text \<open>C37: the Hebrew numeral of a number n from 1 to 9999 with its closing zero byte fits the buffer
  of 18 bytes, whatever the flags. Its letters do not add up to n but to (n div 1000) + (n mod 1000),
  the thousands being written as ones, and to 121 more when the flag \<open>CAL_JEWISH_ADD_ALAFIM\<close>
  adds the word for thousands. So numerals of numbers below 1000 are distinct, and 5 and 5000
  have the same one, as the comment in the code warns.\<close>

theorem heb_numeral_value:
  assumes "1 \<le> n" "n \<le> 9999"
  shows "(\<exists>s. heb_number_to_chars n fl = Some s \<and> length s + 1 \<le> 18
      \<and> gematria s = n div 1000 + n mod 1000 + (if 1000 \<le> n \<and> CAL_JEWISH_ADD_ALAFIM AND fl \<noteq> 0 then 121 else 0))
    \<and> (n < 1000 \<and> m < 1000 \<and> heb_number_to_chars m fl = heb_number_to_chars n fl \<longrightarrow> m = n)
    \<and> heb_number_to_chars 5 0 = heb_number_to_chars 5000 0"
proof (intro conjI impI)
  obtain s where s: "heb_number_to_chars n fl = Some s" using heb_numeral_spec[OF assms] by blast
  assume a: "n < 1000 \<and> m < 1000 \<and> heb_number_to_chars m fl = heb_number_to_chars n fl"
  then have m: "1 \<le> m" "m \<le> 9999" using s by (auto simp: heb_number_to_chars_def split: if_splits)
  have "gematria s = m" using heb_numeral_spec[OF m, of fl] s a m(1) by auto
  moreover have "gematria s = n" using heb_numeral_spec[OF assms, of fl] s a assms(1) by auto
  ultimately show "m = n" by simp
next
  have "heb_number_to_chars 5 0 = Some [alef_bet ! 5]" "heb_number_to_chars 5000 0 = Some [alef_bet ! 5]"
    by (simp_all add: heb_number_to_chars_def heb_tens_ones_def heb_tavs.simps)
  then show "heb_number_to_chars 5 0 = heb_number_to_chars 5000 0" by simp
qed (use heb_numeral_spec[OF assms] in blast)

theorem heb_numeral_value_witness:
  "(\<exists>s. heb_number_to_chars 5784 8 = Some s \<and> length s + 1 \<le> 18 \<and> gematria s = 789)
   \<and> heb_number_to_chars 15 0 \<noteq> heb_number_to_chars 16 0"
proof -
  have "CAL_JEWISH_ADD_ALAFIM AND 8 = 0" by (simp add: CAL_JEWISH_ADD_ALAFIM_def)
  then show ?thesis using heb_numeral_value[of 5784 8] heb_numeral_value[of 16 0 15] by auto
qed

section \<open>Timestamps\<close>

lemma unix_roundtrip:
  assumes "\<And>ts. 0 < ts \<Longrightarrow> localtime ts = (case SdnToGregorian (2440588 + ts div SECS_PER_DAY) of (y, m, d) \<Rightarrow> Some (y - 1900, m - 1, d))"
    and "jdtounix jd = Some ts" "0 < ts" "jd \<le> 2 ^ 39"
  shows "unixtojd localtime now ts = Some jd"
proof -
  have ts: "ts = (jd - 2440588) * SECS_PER_DAY" "0 \<le> jd - 2440588" using assms(2) by (auto simp: jdtounix_def Let_def split: if_splits)
  then have "2440588 + ts div SECS_PER_DAY = jd" by (simp add: SECS_PER_DAY_def)
  then show ?thesis using assms(1)[OF assms(3)] assms(3,4) ts gregorian.recover[of jd] by (auto simp: unixtojd_def split: prod.splits)
qed

end
