(* ===== verification/PhpBytes.thy ===== *)
theory PhpBytes
  imports Prelude
begin

text \<open>
  Bytes as words of 8 bits, and the regrouping of three bytes into four digits of 6 bits that
  the codecs of ext/standard share.
\<close>

unbundle bit_operations_syntax

type_synonym byte = "8 word"

section \<open>Codecs\<close>

text \<open>What a codec promises, and that it therefore loses nothing.\<close>

locale codec =
  fixes encode :: "byte list \<Rightarrow> byte list" and decode :: "byte list \<Rightarrow> byte list option"
  assumes decode_encode: "decode (encode s) = Some s"
begin

lemma encode_inj: "inj encode"
  by (rule injI) (metis decode_encode option.inject)

lemma decode_surj: "\<exists>e. decode e = Some s"
  using decode_encode by blast

end

section \<open>Four digits are three bytes\<close>

lemma and_masks: "a AND 3 = take_bit 2 a" "a AND 15 = take_bit 4 a" "a AND 63 = take_bit 6 a" for a :: byte
  by (simp_all add: take_bit_eq_mask mask_eq_exp_minus_1)

lemma plus_or:
  fixes a b :: byte
  assumes "8 - l \<le> m" "l \<le> 8"
  shows "push_bit m (take_bit k a) + drop_bit l b = push_bit m (take_bit k a) OR drop_bit l b"
proof -
  have "push_bit m (take_bit k a) AND drop_bit l b = 0"
    using assms by (intro bit_word_eqI) (auto simp: bit_simps possible_bit_def dest: bit_imp_le_length)
  then show ?thesis by (simp add: disjunctive_add_eq_or)
qed

lemma Suc_Suc_diff_2: "2 \<le> n \<Longrightarrow> Suc (Suc (n - 2)) = n"
  by simp

lemmas byte_simps = bit_simps possible_bit_def Suc_Suc_diff_2

text \<open>The bytes that the decoder puts together from the digits of the encoder.\<close>

lemma first_byte:
  "push_bit 2 (drop_bit 2 a) OR drop_bit 4 (push_bit 4 (take_bit 2 a) OR drop_bit 4 b) = a"
  "push_bit 2 (drop_bit 2 a) OR drop_bit 4 (push_bit 4 (take_bit 2 a)) = a" for a b :: byte
proof -
  show "push_bit 2 (drop_bit 2 a) OR drop_bit 4 (push_bit 4 (take_bit 2 a) OR drop_bit 4 b) = a"
  proof (rule bit_word_eqI)
    fix n assume "n < LENGTH(8)"
    then show "bit (push_bit 2 (drop_bit 2 a) OR drop_bit 4 (push_bit 4 (take_bit 2 a) OR drop_bit 4 b)) n = bit a n"
      by (cases "n < 2") (auto simp: byte_simps dest: bit_imp_le_length)
  qed
  show "push_bit 2 (drop_bit 2 a) OR drop_bit 4 (push_bit 4 (take_bit 2 a)) = a"
  proof (rule bit_word_eqI)
    fix n assume "n < LENGTH(8)"
    then show "bit (push_bit 2 (drop_bit 2 a) OR drop_bit 4 (push_bit 4 (take_bit 2 a))) n = bit a n"
      by (cases "n < 2") (auto simp: byte_simps dest: bit_imp_le_length)
  qed
qed

lemma second_byte:
  "push_bit 4 (take_bit 4 (push_bit 4 (take_bit 2 a) OR drop_bit 4 b)) OR drop_bit 2 (push_bit 2 (take_bit 4 b) OR drop_bit 6 c) = b"
  "push_bit 4 (take_bit 4 (push_bit 4 (take_bit 2 a) OR drop_bit 4 b)) OR drop_bit 2 (push_bit 2 (take_bit 4 b)) = b" for a b c :: byte
  by (rule bit_word_eqI, auto simp: byte_simps dest: bit_imp_le_length)+

lemma third_byte: "push_bit 6 (take_bit 2 (push_bit 2 (take_bit 4 b) OR drop_bit 6 c)) OR take_bit 6 c = c" for b c :: byte
  by (rule bit_word_eqI) (auto simp: byte_simps dest: bit_imp_le_length)

lemma digit_bound: "take_bit 6 x = x \<Longrightarrow> x < 64" for x :: byte
proof -
  assume "take_bit 6 x = x"
  then have "unat x = take_bit 6 (unat x)" by (metis unsigned_take_bit_eq)
  then have "unat x < 2 ^ 6" by (metis take_bit_nat_less_exp)
  then show ?thesis by (simp add: word_less_nat_alt)
qed

lemma digits_bound:
  "drop_bit 2 a < 64" "push_bit 4 (take_bit 2 a) < 64" "push_bit 4 (take_bit 2 a) OR drop_bit 4 b < 64"
  "push_bit 2 (take_bit 4 b) < 64" "push_bit 2 (take_bit 4 b) OR drop_bit 6 c < 64" "take_bit 6 c < 64" for a b c :: byte
  by (rule digit_bound, rule bit_word_eqI, auto simp: byte_simps dest: bit_imp_le_length)+

end
