(* ===== verification/PhpBase64.thy ===== *)
theory PhpBase64
  imports PhpBytes
begin

text \<open>
  The base64 codec of ext/standard/base64.c: the portable encoder and decoder behind
  \<open>base64_encode\<close> and \<open>base64_decode\<close>. Bytes are words of 8 bits; every intermediate value of
  the code fits 8 bits.
\<close>

unbundle bit_operations_syntax

section \<open>The code\<close>

definition base64_table :: "byte list" where
  "base64_table = map (\<lambda>c. of_nat (of_char c))
     ''ABCDEFGHIJKLMNOPQRSTUVWXYZabcdefghijklmnopqrstuvwxyz0123456789+/''"

definition base64_pad :: byte where
  "base64_pad = 61"

definition base64_reverse_table :: "int list" where
  "base64_reverse_table =
    [-2, -2, -2, -2, -2, -2, -2, -2, -2, -1, -1, -2, -2, -1, -2, -2,
     -2, -2, -2, -2, -2, -2, -2, -2, -2, -2, -2, -2, -2, -2, -2, -2,
     -1, -2, -2, -2, -2, -2, -2, -2, -2, -2, -2, 62, -2, -2, -2, 63,
     52, 53, 54, 55, 56, 57, 58, 59, 60, 61, -2, -2, -2, -2, -2, -2,
     -2,  0,  1,  2,  3,  4,  5,  6,  7,  8,  9, 10, 11, 12, 13, 14,
     15, 16, 17, 18, 19, 20, 21, 22, 23, 24, 25, -2, -2, -2, -2, -2,
     -2, 26, 27, 28, 29, 30, 31, 32, 33, 34, 35, 36, 37, 38, 39, 40,
     41, 42, 43, 44, 45, 46, 47, 48, 49, 50, 51, -2, -2, -2, -2, -2] @ replicate 128 (-2)"

definition table_at :: "byte \<Rightarrow> byte" where
  "table_at i = base64_table ! unat i"

fun php_base64_encode_impl :: "byte list \<Rightarrow> byte list" where
  "php_base64_encode_impl (a # b # c # rest) =
     table_at (drop_bit 2 a)
     # table_at (push_bit 4 (a AND 3) + drop_bit 4 b)
     # table_at (push_bit 2 (b AND 15) + drop_bit 6 c)
     # table_at (c AND 63) # php_base64_encode_impl rest"
| "php_base64_encode_impl [] = []"
| "php_base64_encode_impl [a, b] =
     [table_at (drop_bit 2 a), table_at (push_bit 4 (a AND 3) + drop_bit 4 b), table_at (push_bit 2 (b AND 15)), base64_pad]"
| "php_base64_encode_impl [a] =
     [table_at (drop_bit 2 a), table_at (push_bit 4 (a AND 3)), base64_pad, base64_pad]"

text \<open>
  The state of the decoder: \<open>i\<close>, \<open>padding\<close>, the bytes \<open>out[0..j-1]\<close> that are complete and the
  byte \<open>out[j]\<close> in progress.
\<close>

record decode_state =
  d_i :: nat
  d_padding :: nat
  d_out :: "byte list"
  d_cur :: byte

definition decode_digit :: "byte \<Rightarrow> decode_state \<Rightarrow> decode_state" where
  "decode_digit ch s =
     (let s' =
       (if d_i s mod 4 = 0 then s\<lparr>d_cur := push_bit 2 ch\<rparr>
        else if d_i s mod 4 = 1 then s\<lparr>d_out := d_out s @ [d_cur s OR drop_bit 4 ch], d_cur := push_bit 4 (ch AND 15)\<rparr>
        else if d_i s mod 4 = 2 then s\<lparr>d_out := d_out s @ [d_cur s OR drop_bit 2 ch], d_cur := push_bit 6 (ch AND 3)\<rparr>
        else s\<lparr>d_out := d_out s @ [d_cur s OR ch]\<rparr>)
      in s'\<lparr>d_i := d_i s + 1\<rparr>)"

fun decode_loop :: "bool \<Rightarrow> byte list \<Rightarrow> decode_state \<Rightarrow> decode_state option" where
  "decode_loop strict [] s = Some s"
| "decode_loop strict (c # cs) s =
     (if c = base64_pad then decode_loop strict cs (s\<lparr>d_padding := d_padding s + 1\<rparr>)
      else let ch = base64_reverse_table ! unat c
           in if \<not> strict then (if ch < 0 then decode_loop strict cs s else decode_loop strict cs (decode_digit (of_int ch) s))
              else if ch = -1 then decode_loop strict cs s
              else if ch = -2 \<or> d_padding s \<noteq> 0 then None
              else decode_loop strict cs (decode_digit (of_int ch) s))"

definition php_base64_decode_impl :: "bool \<Rightarrow> byte list \<Rightarrow> byte list option" where
  "php_base64_decode_impl strict input =
     (case decode_loop strict input \<lparr>d_i = 0, d_padding = 0, d_out = [], d_cur = 0\<rparr> of
        None \<Rightarrow> None
      | Some s \<Rightarrow>
          if strict \<and> d_i s mod 4 = 1 then None
          else if strict \<and> d_padding s \<noteq> 0 \<and> (d_padding s > 2 \<or> (d_i s + d_padding s) mod 4 \<noteq> 0) then None
          else Some (d_out s))"

definition php_base64_encode :: "byte list \<Rightarrow> byte list" where
  "php_base64_encode str = php_base64_encode_impl str"

definition php_base64_decode_ex :: "byte list \<Rightarrow> bool \<Rightarrow> byte list option" where
  "php_base64_decode_ex str strict = php_base64_decode_impl strict str"

text \<open>The PHP functions; \<open>None\<close> is the result \<open>false\<close>.\<close>

definition base64_encode :: "byte list \<Rightarrow> byte list" where
  "base64_encode str = php_base64_encode str"

definition base64_decode :: "byte list \<Rightarrow> bool \<Rightarrow> byte list option" where
  "base64_decode str strict = (case php_base64_decode_ex str strict of Some result \<Rightarrow> Some result | None \<Rightarrow> None)"

section \<open>The tables\<close>

definition digit_ok :: "byte \<Rightarrow> bool" where
  "digit_ok i \<longleftrightarrow> table_at i \<noteq> base64_pad \<and> base64_reverse_table ! unat (table_at i) = int (unat i)"

lemma digits_table: "list_all (\<lambda>n. digit_ok (of_nat n)) [0..<64]"
  by code_simp

lemma digit_ok: "i < 64 \<Longrightarrow> digit_ok i"
proof -
  assume "i < 64"
  then have "unat i \<in> set [0..<64]" by (simp add: word_less_nat_alt)
  then have "digit_ok (of_nat (unat i))" using digits_table unfolding list_all_iff by blast
  then show ?thesis by simp
qed

text \<open>A digit of the table is decoded to its value in both modes.\<close>

lemma decode_table_at:
  assumes "i < 64" "d_padding s = 0"
  shows "decode_loop strict (table_at i # cs) s = decode_loop strict cs (decode_digit i s)"
proof -
  define k where "k = base64_reverse_table ! unat (table_at i)"
  then have "k = int (unat i)" "table_at i \<noteq> base64_pad" using digit_ok[OF assms(1)] by (simp_all add: digit_ok_def)
  then have k: "of_int k = i" "0 \<le> k" "table_at i \<noteq> base64_pad" by simp_all
  show ?thesis unfolding decode_loop.simps k_def[symmetric] Let_def using k assms(2) by simp
qed

section \<open>Round trip\<close>

definition fresh_state :: "byte list \<Rightarrow> nat \<Rightarrow> byte \<Rightarrow> decode_state" where
  "fresh_state out i cur = \<lparr>d_i = i, d_padding = 0, d_out = out, d_cur = cur\<rparr>"

lemma fresh_padding [simp]: "d_padding (fresh_state out i cur) = 0"
  by (simp add: fresh_state_def)

lemma decode_digit_fresh:
  "i mod 4 = 0 \<Longrightarrow> decode_digit ch (fresh_state out i cur) = fresh_state out (i + 1) (push_bit 2 ch)"
  "i mod 4 = 1 \<Longrightarrow> decode_digit ch (fresh_state out i cur) = fresh_state (out @ [cur OR drop_bit 4 ch]) (i + 1) (push_bit 4 (ch AND 15))"
  "i mod 4 = 2 \<Longrightarrow> decode_digit ch (fresh_state out i cur) = fresh_state (out @ [cur OR drop_bit 2 ch]) (i + 1) (push_bit 6 (ch AND 3))"
  "i mod 4 = 3 \<Longrightarrow> decode_digit ch (fresh_state out i cur) = fresh_state (out @ [cur OR ch]) (i + 1) cur"
  by (simp_all add: decode_digit_def fresh_state_def Let_def)

lemma decode_two:
  assumes "i mod 4 = 0" "x < 64" "y < 64"
  shows "decode_loop strict (table_at x # table_at y # cs) (fresh_state out i cur)
    = decode_loop strict cs (fresh_state (out @ [push_bit 2 x OR drop_bit 4 y]) (i + 2) (push_bit 4 (y AND 15)))"
proof -
  have "(i + 1) mod 4 = 1" "i + 1 + 1 = i + 2" using assms(1) by presburger+
  then show ?thesis using assms by (simp only: decode_table_at fresh_padding decode_digit_fresh)
qed

lemma decode_third:
  assumes "i mod 4 = 0" "x < 64" "y < 64" "z < 64"
  shows "decode_loop strict (table_at x # table_at y # table_at z # cs) (fresh_state out i cur)
    = decode_loop strict cs (fresh_state (out @ [push_bit 2 x OR drop_bit 4 y, push_bit 4 (y AND 15) OR drop_bit 2 z]) (i + 3) (push_bit 6 (z AND 3)))"
proof -
  have "(i + 2) mod 4 = 2" "i + 2 + 1 = i + 3" using assms(1) by presburger+
  then show ?thesis unfolding decode_two[OF assms(1-3)] using assms(4) by (simp only: decode_table_at fresh_padding decode_digit_fresh append_assoc append.simps)
qed

lemma decode_four:
  assumes "i mod 4 = 0" "x < 64" "y < 64" "z < 64" "w < 64"
  shows "decode_loop strict (table_at x # table_at y # table_at z # table_at w # cs) (fresh_state out i cur)
    = decode_loop strict cs (fresh_state (out @ [push_bit 2 x OR drop_bit 4 y, push_bit 4 (y AND 15) OR drop_bit 2 z, push_bit 6 (z AND 3) OR w])
        (i + 4) (push_bit 6 (z AND 3)))"
proof -
  have "(i + 3) mod 4 = 3" "i + 3 + 1 = i + 4" using assms(1) by presburger+
  then show ?thesis unfolding decode_third[OF assms(1-4)] using assms(5) by (simp only: decode_table_at fresh_padding decode_digit_fresh append_assoc append.simps)
qed

lemma decode_pads:
  "decode_loop strict [base64_pad] (fresh_state out i cur) = Some \<lparr>d_i = i, d_padding = 1, d_out = out, d_cur = cur\<rparr>"
  "decode_loop strict [base64_pad, base64_pad] (fresh_state out i cur) = Some \<lparr>d_i = i, d_padding = 2, d_out = out, d_cur = cur\<rparr>"
  by (simp_all add: fresh_state_def)

text \<open>The encoder's digits, with sums as disjunctions.\<close>

lemma encode_digits:
  "push_bit 4 (take_bit 2 a) + drop_bit 4 b = push_bit 4 (take_bit 2 a) OR drop_bit 4 b"
  "push_bit 2 (take_bit 4 b) + drop_bit 6 c = push_bit 2 (take_bit 4 b) OR drop_bit 6 c" for a b c :: byte
  by (rule plus_or; simp)+

lemma decode_encoded:
  assumes "i mod 4 = 0"
  shows "\<exists>j cur pad. decode_loop strict (php_base64_encode_impl xs) (fresh_state out i cur0)
    = Some \<lparr>d_i = j, d_padding = pad, d_out = out @ xs, d_cur = cur\<rparr> \<and> j mod 4 \<noteq> 1 \<and> pad \<le> 2 \<and> (pad \<noteq> 0 \<longrightarrow> (j + pad) mod 4 = 0)"
  using assms
proof (induction xs arbitrary: out i cur0 rule: php_base64_encode_impl.induct)
  case (1 a b c rest)
  let ?cur = "push_bit 6 (take_bit 2 (push_bit 2 (take_bit 4 b) OR drop_bit 6 c))"
  have "decode_loop strict (php_base64_encode_impl (a # b # c # rest)) (fresh_state out i cur0)
      = decode_loop strict (php_base64_encode_impl rest) (fresh_state (out @ [a, b, c]) (i + 4) ?cur)"
    unfolding php_base64_encode_impl.simps encode_digits decode_four[OF 1(2) digits_bound(1,3,5,6)] and_masks first_byte second_byte third_byte ..
  then show ?case using 1(1)[of "i + 4" "out @ [a, b, c]" ?cur] 1(2) by simp
next
  case 2
  then show ?case by (auto simp: fresh_state_def)
next
  case (3 a b)
  have "(i + 3) mod 4 \<noteq> 1" "(i + 3 + 1) mod 4 = 0" using 3 by presburger+
  then show ?case
    unfolding php_base64_encode_impl.simps encode_digits decode_third[OF 3 digits_bound(1,3,4)] and_masks first_byte second_byte decode_pads by auto
next
  case (4 a)
  have "(i + 2) mod 4 \<noteq> 1" "(i + 2 + 2) mod 4 = 0" using 4 by presburger+
  then show ?case
    unfolding php_base64_encode_impl.simps encode_digits decode_two[OF 4 digits_bound(1,2)] and_masks first_byte decode_pads by auto
qed

lemma base64_decode_encode: "php_base64_decode_ex (php_base64_encode str) strict = Some str"
  using decode_encoded[of 0 strict str "[]" 0]
  by (auto simp: php_base64_decode_ex_def php_base64_decode_impl_def php_base64_encode_def fresh_state_def)

interpretation b64: codec php_base64_encode "\<lambda>e. php_base64_decode_ex e strict" for strict
  by unfold_locales (rule base64_decode_encode)

text \<open>Entries of the reverse table are digits, -1 or -2.\<close>

lemma reverse_table_range: "unat c < 256 \<Longrightarrow> base64_reverse_table ! unat c \<in> {- 2, - 1} \<or> 0 \<le> base64_reverse_table ! unat c" for c :: byte
proof -
  have "list_all (\<lambda>v. v \<in> {- 2, - 1} \<or> 0 \<le> v) base64_reverse_table" "length base64_reverse_table = 256" by code_simp+
  then show "unat c < 256 \<Longrightarrow> ?thesis" by (auto simp: list_all_length)
qed

lemma strict_lenient_loop: "decode_loop True cs s = Some s' \<Longrightarrow> decode_loop False cs s = Some s'"
proof (induction cs arbitrary: s)
  case (Cons c cs)
  have "unat c < 256" using unsigned_less[of c] by simp
  then show ?case using Cons reverse_table_range[of c] by (auto simp: Let_def split: if_splits)
qed simp

lemma lenient_total: "\<exists>s'. decode_loop False cs s = Some s'"
  by (induction cs arbitrary: s) (auto simp: Let_def)

text \<open>C30: decoding an encoded byte string gives the string back, in strict and in lenient mode.
  Different strings have different encodings. The lenient mode decodes every input, and agrees with the strict mode wherever that
  does not fail.\<close>

theorem base64_roundtrip:
  "base64_decode (base64_encode str) strict = Some str
    \<and> inj base64_encode \<and> (\<exists>r. base64_decode input False = Some r) \<and> base64_decode input True \<in> {None, base64_decode input False}"
proof -
  let ?s = "\<lparr>d_i = 0, d_padding = 0, d_out = [], d_cur = 0\<rparr>"
  obtain s where s: "decode_loop False input ?s = Some s" using lenient_total by blast
  then have l: "base64_decode input False = Some (d_out s)"
    by (simp add: base64_decode_def php_base64_decode_ex_def php_base64_decode_impl_def)
  have "base64_decode input True \<in> {None, Some (d_out s)}"
    using strict_lenient_loop[of input ?s] s
    by (cases "decode_loop True input ?s") (auto simp: base64_decode_def php_base64_decode_ex_def php_base64_decode_impl_def)
  moreover have "inj base64_encode" using b64.encode_inj by (simp add: base64_encode_def[abs_def])
  ultimately show ?thesis using l b64.decode_encode[of str strict] by (simp add: base64_decode_def base64_encode_def)
qed

end
