(* ===== verification/PhpUrl.thy ===== *)
theory PhpUrl
  imports PhpBytes
begin

text \<open>
  URL encoding and decoding (ext/standard/url.c), in the form with + for spaces and in the raw
  form. The decoders work in place; they are functions from the old to the new content.
\<close>

unbundle bit_operations_syntax

section \<open>The code\<close>

definition hexchars :: "byte list" where
  "hexchars = map (\<lambda>c. of_nat (of_char c)) ''0123456789ABCDEF''"

definition isxdigit :: "byte \<Rightarrow> bool" where
  "isxdigit c \<longleftrightarrow> 48 \<le> c \<and> c \<le> 57 \<or> 65 \<le> c \<and> c \<le> 70 \<or> 97 \<le> c \<and> c \<le> 102"

definition hex_value :: "byte \<Rightarrow> byte" where
  "hex_value c = (let c = (if 65 \<le> c \<and> c \<le> 90 then c + 32 else c) in if 48 \<le> c \<and> c \<le> 57 then c - 48 else c - 97 + 10)"

definition php_htoi :: "byte \<Rightarrow> byte \<Rightarrow> byte" where
  "php_htoi h l = hex_value h * 16 + hex_value l"

definition percent :: "byte \<Rightarrow> byte list" where
  "percent c = [37, hexchars ! unat (drop_bit 4 c), hexchars ! unat (c AND 15)]"

definition url_encode_char :: "byte \<Rightarrow> byte list" where
  "url_encode_char c =
     (if c = 32 then [43]
      else if (c < 48 \<and> c \<noteq> 45 \<and> c \<noteq> 46) \<or> (c < 65 \<and> c > 57) \<or> (c > 90 \<and> c < 97 \<and> c \<noteq> 95) \<or> c > 122 then percent c
      else [c])"

definition php_url_encode :: "byte list \<Rightarrow> byte list" where
  "php_url_encode s = concat (map url_encode_char s)"

text \<open>The raw encoder compares signed characters.\<close>

definition raw_url_encode_char :: "byte \<Rightarrow> byte list" where
  "raw_url_encode_char c =
     (if (c <s 48 \<and> c \<noteq> 45 \<and> c \<noteq> 46) \<or> (c <s 65 \<and> 57 <s c) \<or> (90 <s c \<and> c <s 97 \<and> c \<noteq> 95) \<or> (122 <s c \<and> c \<noteq> 126)
      then percent c else [c])"

definition php_raw_url_encode :: "byte list \<Rightarrow> byte list" where
  "php_raw_url_encode s = concat (map raw_url_encode_char s)"

fun php_raw_url_decode :: "byte list \<Rightarrow> byte list" where
  "php_raw_url_decode (c # h # l # cs) =
     (if c = 37 \<and> isxdigit h \<and> isxdigit l then php_htoi h l # php_raw_url_decode cs
      else c # php_raw_url_decode (h # l # cs))"
| "php_raw_url_decode (c # cs) = c # php_raw_url_decode cs"
| "php_raw_url_decode [] = []"

fun php_url_decode :: "byte list \<Rightarrow> byte list" where
  "php_url_decode (c # h # l # cs) =
     (if c = 43 then 32 # php_url_decode (h # l # cs)
      else if c = 37 \<and> isxdigit h \<and> isxdigit l then php_htoi h l # php_url_decode cs
      else c # php_url_decode (h # l # cs))"
| "php_url_decode (c # cs) = (if c = 43 then 32 else c) # php_url_decode cs"
| "php_url_decode [] = []"

text \<open>The PHP functions.\<close>

definition urlencode :: "byte list \<Rightarrow> byte list" where
  "urlencode in_str = php_url_encode in_str"

definition urldecode :: "byte list \<Rightarrow> byte list" where
  "urldecode in_str = php_url_decode in_str"

definition rawurlencode :: "byte list \<Rightarrow> byte list" where
  "rawurlencode in_str = php_raw_url_encode in_str"

definition rawurldecode :: "byte list \<Rightarrow> byte list" where
  "rawurldecode in_str = php_raw_url_decode in_str"

section \<open>Round trips\<close>

text \<open>Bytes that need no escape in a URL: letters, digits, minus, dot and underscore.\<close>

definition unreserved :: "byte \<Rightarrow> bool" where
  "unreserved c \<longleftrightarrow> 48 \<le> c \<and> c \<le> 57 \<or> 65 \<le> c \<and> c \<le> 90 \<or> 97 \<le> c \<and> c \<le> 122 \<or> c = 45 \<or> c = 46 \<or> c = 95"

definition escape_ok :: "byte \<Rightarrow> byte list \<Rightarrow> bool" where
  "escape_ok c e = (case e of [x, h, l] \<Rightarrow> x = 37 \<and> isxdigit h \<and> isxdigit l \<and> php_htoi h l = c \<and> unreserved h \<and> unreserved l | _ \<Rightarrow> False)"

definition char_ok :: "byte \<Rightarrow> bool" where
  "char_ok c \<longleftrightarrow>
     (url_encode_char c = [c] \<and> unreserved c \<or> url_encode_char c = [43] \<and> c = 32 \<or> escape_ok c (url_encode_char c))
     \<and> (raw_url_encode_char c = [c] \<and> (unreserved c \<or> c = 126) \<or> escape_ok c (raw_url_encode_char c))"

definition hex_ok :: "byte \<Rightarrow> bool" where
  "hex_ok x = (let h = hexchars ! unat x in isxdigit h \<and> unreserved h \<and> hex_value h = x)"

lemma hex_table: "list_all (\<lambda>n. hex_ok (of_nat n)) [0..<16]"
  by code_simp

lemma hex_ok: "unat x < 16 \<Longrightarrow> hex_ok x"
proof -
  assume "unat x < 16"
  then have "unat x \<in> set [0..<16]" by simp
  then have "hex_ok (of_nat (unat x))" using hex_table unfolding list_all_iff by blast
  then show ?thesis by simp
qed

lemma nibbles: "drop_bit 4 c * 16 + (c AND 15) = c" "unat (drop_bit 4 c) < 16" "unat (c AND 15) < 16" for c :: byte
proof -
  have "push_bit 4 (drop_bit 4 c) + take_bit 4 c = c" by (rule bits_ident)
  then show "drop_bit 4 c * 16 + (c AND 15) = c" by (simp add: and_masks push_bit_eq_mult)
  have "unat c < 256" using unsigned_less[of c] by simp
  then show "unat (drop_bit 4 c) < 16" by (simp add: drop_bit_eq_div unat_div)
  show "unat (c AND 15) < 16" unfolding and_masks using take_bit_nat_less_exp[of 4 "unat c"] by (simp add: unsigned_take_bit_eq)
qed

lemma percent_ok: "escape_ok c (percent c)"
  using hex_ok[OF nibbles(2), of c] hex_ok[OF nibbles(3), of c] nibbles(1)[of c]
  by (simp add: escape_ok_def percent_def php_htoi_def hex_ok_def Let_def)

lemma uint_eq_sint: "0 \<le> sint c \<Longrightarrow> uint c = sint c" for c :: byte
proof -
  assume "0 \<le> sint c"
  then have b: "\<not> bit (uint c) 7" by (simp add: sint_uint)
  have "uint c < 2 ^ 8" "0 \<le> uint c" using uint_lt2p[of c] by simp_all
  then have "take_bit 8 (uint c) = uint c" by (intro take_bit_int_eq_self)
  then have "take_bit 7 (uint c) = uint c" using b take_bit_Suc_from_most[of 7 "uint c"] by simp
  then show ?thesis using b by (simp add: sint_uint signed_take_bit_eq_if_positive)
qed

lemma char_ok: "char_ok c"
proof -
  have "unreserved c" if "c \<noteq> 32" "\<not> ((c < 48 \<and> c \<noteq> 45 \<and> c \<noteq> 46) \<or> (c < 65 \<and> c > 57) \<or> (c > 90 \<and> c < 97 \<and> c \<noteq> 95) \<or> c > 122)"
    using that by (auto simp: unreserved_def not_less)
  moreover have "unreserved c \<or> c = 126"
    if n: "\<not> ((c <s 48 \<and> c \<noteq> 45 \<and> c \<noteq> 46) \<or> (c <s 65 \<and> 57 <s c) \<or> (90 <s c \<and> c <s 97 \<and> c \<noteq> 95) \<or> (122 <s c \<and> c \<noteq> 126))"
  proof (cases "c = 45 \<or> c = 46")
    case False
    then have "48 \<le> sint c" using n by (auto simp: word_sless_alt)
    then have u: "sint c = uint c" using uint_eq_sint by simp
    then show ?thesis using n by (auto simp: unreserved_def word_sless_alt word_le_def not_less)
  qed (auto simp: unreserved_def)
  ultimately show ?thesis using percent_ok[of c] unfolding char_ok_def url_encode_char_def raw_url_encode_char_def by auto
qed

lemma escape_cases: "escape_ok c e \<Longrightarrow> \<exists>h l. e = [37, h, l] \<and> isxdigit h \<and> isxdigit l \<and> php_htoi h l = c \<and> unreserved h \<and> unreserved l"
  by (auto simp: escape_ok_def split: list.splits)

lemma url_decode_plain: "c \<noteq> 43 \<Longrightarrow> c \<noteq> 37 \<Longrightarrow> php_url_decode (c # cs) = c # php_url_decode cs"
  by (cases "c # cs" rule: php_url_decode.cases) auto

lemma url_decode_plus: "php_url_decode (43 # cs) = 32 # php_url_decode cs"
  by (cases "(43 :: byte) # cs" rule: php_url_decode.cases) auto

lemma raw_url_decode_plain: "c \<noteq> 37 \<Longrightarrow> php_raw_url_decode (c # cs) = c # php_raw_url_decode cs"
  by (cases "c # cs" rule: php_raw_url_decode.cases) auto

lemma unreserved_plain: "unreserved c \<Longrightarrow> c \<noteq> 43 \<and> c \<noteq> 37"
  by (auto simp: unreserved_def)

lemma url_decode_char: "php_url_decode (url_encode_char c @ cs) = c # php_url_decode cs"
  using char_ok[of c] unreserved_plain[of c]
  by (auto simp: char_ok_def url_decode_plain url_decode_plus dest!: escape_cases)

lemma raw_url_decode_char: "php_raw_url_decode (raw_url_encode_char c @ cs) = c # php_raw_url_decode cs"
  using char_ok[of c] unreserved_plain[of c]
  by (auto simp: char_ok_def raw_url_decode_plain dest!: escape_cases)

lemma url_encode_set: "set (url_encode_char c) \<subseteq> {b. unreserved b \<or> b = 37 \<or> b = 43}"
  "set (raw_url_encode_char c) \<subseteq> {b. unreserved b \<or> b = 37 \<or> b = 126}"
  using char_ok[of c] by (auto simp: char_ok_def dest!: escape_cases)

lemma url_decode_encode: "php_url_decode (php_url_encode s) = s"
  by (induction s) (simp_all add: php_url_encode_def url_decode_char)

lemma raw_url_decode_encode: "php_raw_url_decode (php_raw_url_encode s) = s"
  by (induction s) (simp_all add: php_raw_url_encode_def raw_url_decode_char)

interpretation url: codec php_url_encode "\<lambda>e. Some (php_url_decode e)"
  by unfold_locales (simp add: url_decode_encode)

interpretation raw_url: codec php_raw_url_encode "\<lambda>e. Some (php_raw_url_decode e)"
  by unfold_locales (simp add: raw_url_decode_encode)

text \<open>C31: \<open>urldecode\<close> inverts \<open>urlencode\<close>, and \<open>rawurldecode\<close> inverts \<open>rawurlencode\<close>, so both encodings are injective. The encoders
  put out only letters, digits, minus, dot, underscore and the escape characters, and the
  decoders, which work in place, never put out more than they read.\<close>

theorem url_roundtrip:
  "urldecode (urlencode s) = s \<and> rawurldecode (rawurlencode s) = s
    \<and> inj urlencode \<and> inj rawurlencode
    \<and> set (urlencode s) \<subseteq> {b. unreserved b \<or> b = 37 \<or> b = 43} \<and> set (rawurlencode s) \<subseteq> {b. unreserved b \<or> b = 37 \<or> b = 126}
    \<and> length (urldecode s) \<le> length s \<and> length (rawurldecode s) \<le> length s"
proof -
  have "set (php_url_encode s) \<subseteq> {b. unreserved b \<or> b = 37 \<or> b = 43}" "set (php_raw_url_encode s) \<subseteq> {b. unreserved b \<or> b = 37 \<or> b = 126}"
    using url_encode_set by (fastforce simp: php_url_encode_def php_raw_url_encode_def)+
  moreover have "length (php_url_decode s) \<le> length s" by (induction s rule: php_url_decode.induct) auto
  moreover have "length (php_raw_url_decode s) \<le> length s" by (induction s rule: php_raw_url_decode.induct) auto
  moreover have "inj urlencode" "inj rawurlencode"
    using url.encode_inj raw_url.encode_inj by (simp_all add: urlencode_def[abs_def] rawurlencode_def[abs_def])
  ultimately show ?thesis using url_decode_encode[of s] raw_url_decode_encode[of s]
    by (simp add: urldecode_def urlencode_def rawurldecode_def rawurlencode_def)
qed

end
