(* ===== verification/PhpUuencode.thy ===== *)
theory PhpUuencode
  imports PhpBytes
begin

text \<open>
  uuencode (ext/standard/uuencode.c): lines of up to 45 bytes, each with its length in front,
  and a line of length 0 at the end.
\<close>

unbundle bit_operations_syntax

section \<open>The encoder\<close>

definition PHP_UU_ENC :: "byte \<Rightarrow> byte" where
  "PHP_UU_ENC c = (if c \<noteq> 0 then (c AND 63) + 32 else 96)"

definition PHP_UU_ENC_C2 :: "byte \<Rightarrow> byte \<Rightarrow> byte" where
  "PHP_UU_ENC_C2 a b = PHP_UU_ENC ((push_bit 4 a AND 48) OR (drop_bit 4 b AND 15))"

definition PHP_UU_ENC_C3 :: "byte \<Rightarrow> byte \<Rightarrow> byte" where
  "PHP_UU_ENC_C3 b c = PHP_UU_ENC ((push_bit 2 b AND 60) OR (drop_bit 6 c AND 3))"

text \<open>The inner loop over the whole groups of a line.\<close>

fun encode_groups :: "byte list \<Rightarrow> byte list" where
  "encode_groups (a # b # c # s) =
     [PHP_UU_ENC (drop_bit 2 a), PHP_UU_ENC_C2 a b, PHP_UU_ENC_C3 b c, PHP_UU_ENC (c AND 63)] @ encode_groups s"
| "encode_groups _ = []"

text \<open>
  The loop over the lines: the output, the bytes left and \<open>len\<close>. A line shorter than 45 bytes
  leaves fewer than three bytes, so the loop ends after it.
\<close>

function encode_lines :: "byte list \<Rightarrow> byte list \<times> byte list \<times> nat" where
  "encode_lines s =
     (if length s > 3 then
        (if length s < 45 then
           (let len = length s; n = (if len mod 3 \<noteq> 0 then len div 3 * 3 else len)
            in (PHP_UU_ENC (of_nat len) # encode_groups (take n s), drop n s, len))
         else (let (out, rest, len) = encode_lines (drop 45 s)
               in ([PHP_UU_ENC 45] @ encode_groups (take 45 s) @ [10] @ out, rest, len)))
      else ([], s, 45))"
  by auto
termination by (relation "measure length") auto

text \<open>The last one to three bytes; the bytes after the end read as the terminator.\<close>

definition byte_at :: "byte list \<Rightarrow> nat \<Rightarrow> byte" where
  "byte_at s i = (if i < length s then s ! i else 0)"

definition encode_tail :: "byte list \<Rightarrow> byte list" where
  "encode_tail s =
     [PHP_UU_ENC (drop_bit 2 (byte_at s 0)), PHP_UU_ENC_C2 (byte_at s 0) (byte_at s 1),
      (if length s > 1 then PHP_UU_ENC_C3 (byte_at s 1) (byte_at s 2) else PHP_UU_ENC 0),
      (if length s > 2 then PHP_UU_ENC (byte_at s 2 AND 63) else PHP_UU_ENC 0)]"

definition php_uuencode :: "byte list \<Rightarrow> byte list" where
  "php_uuencode src =
     (let (out, s, len) = encode_lines src;
          (head, len) = (if s \<noteq> [] \<and> len = 45 then ([PHP_UU_ENC (of_nat (length s))], 0) else ([], len));
          out = out @ head @ (if s \<noteq> [] then encode_tail s else [])
      in out @ (if len < 45 then [10] else []) @ [PHP_UU_ENC 0, 10])"

section \<open>The decoder\<close>

definition PHP_UU_DEC :: "byte \<Rightarrow> byte" where
  "PHP_UU_DEC c = (c - 32) AND 63"

definition decode_group :: "byte \<Rightarrow> byte \<Rightarrow> byte \<Rightarrow> byte \<Rightarrow> byte list" where
  "decode_group a b c d =
     [push_bit 2 (PHP_UU_DEC a) OR drop_bit 4 (PHP_UU_DEC b),
      push_bit 4 (PHP_UU_DEC b) OR drop_bit 2 (PHP_UU_DEC c),
      push_bit 6 (PHP_UU_DEC c) OR PHP_UU_DEC d]"

text \<open>The inner loop: \<open>n\<close> characters up to \<open>ee\<close>, in steps of four; \<open>None\<close> when the source ends.\<close>

fun decode_groups :: "nat \<Rightarrow> byte list \<Rightarrow> byte list \<Rightarrow> (byte list \<times> byte list) option" where
  "decode_groups n s p =
     (if n = 0 then Some (s, p)
      else case s of
          a # b # c # d # s' \<Rightarrow> decode_groups (n - 4) s' (p @ decode_group a b c d)
        | _ \<Rightarrow> None)"

declare decode_groups.simps [simp del]

lemma decode_groups_length: "decode_groups n s p = Some (s', p') \<Longrightarrow> length s' \<le> length s"
proof (induction n s p rule: decode_groups.induct)
  case (1 n s p)
  then show ?case by (fastforce simp: decode_groups.simps[of n s p] split: if_splits list.splits)
qed

text \<open>The number of characters of a line; \<open>floor(len * 1.33)\<close> for the lengths below 64 that occur.\<close>

definition line_chars :: "nat \<Rightarrow> nat" where
  "line_chars len = (if len = 45 then 60 else len * 133 div 100)"

text \<open>The loop over the lines: what is left of the source, the bytes written and \<open>total_len\<close>.\<close>

function decode_lines :: "nat \<Rightarrow> byte list \<Rightarrow> byte list \<Rightarrow> nat \<Rightarrow> (byte list \<times> byte list \<times> nat) option" where
  "decode_lines src_len s p total_len =
     (case s of [] \<Rightarrow> Some (s, p, total_len)
      | c # s \<Rightarrow>
          let len = unat (PHP_UU_DEC c)
          in if len = 0 then Some (s, p, total_len)
             else if len > src_len then None
             else if line_chars len > length s then None
             else case decode_groups (line_chars len) s p of
                 None \<Rightarrow> None
               | Some (s', p) \<Rightarrow>
                   if len < 45 then Some (s', p, total_len + len) else decode_lines src_len (drop 1 s') p (total_len + len))"
  by pat_completeness auto
termination by (relation "measure (\<lambda>(_, s, _). length s)") (auto dest: decode_groups_length)

definition php_uudecode :: "byte list \<Rightarrow> byte list option" where
  "php_uudecode src =
     (case decode_lines (length src) src [] 0 of
        None \<Rightarrow> None
      | Some (s, p, total_len) \<Rightarrow>
          let g = decode_group (byte_at s 0) (byte_at s 1) (byte_at s 2) (byte_at s 3);
              p = (if total_len > length p
                   then p @ take 1 g @ (if total_len > 1 then take 1 (drop 1 g) @ (if total_len > 2 then drop 2 g else []) else [])
                   else p)
          in Some (take total_len p))"

text \<open>The PHP functions; \<open>None\<close> is the result \<open>false\<close>.\<close>

definition convert_uuencode :: "byte list \<Rightarrow> byte list option" where
  "convert_uuencode src = (if length src < 1 then None else Some (php_uuencode src))"

definition convert_uudecode :: "byte list \<Rightarrow> byte list option" where
  "convert_uudecode src = (if length src < 1 then None else php_uudecode src)"

declare encode_lines.simps [simp del] and decode_lines.simps [simp del]

section \<open>Digits\<close>

definition uu_digit_ok :: "byte \<Rightarrow> bool" where
  "uu_digit_ok x \<longleftrightarrow> PHP_UU_DEC (PHP_UU_ENC x) = x"

lemma uu_digits_table: "list_all (\<lambda>n. uu_digit_ok (of_nat n)) [0..<64]"
  by code_simp

lemma DEC_ENC: "x < 64 \<Longrightarrow> PHP_UU_DEC (PHP_UU_ENC x) = x"
proof -
  assume "x < 64"
  then have "unat x \<in> set [0..<64]" by (simp add: word_less_nat_alt)
  then have "uu_digit_ok (of_nat (unat x))" using uu_digits_table unfolding list_all_iff by blast
  then show ?thesis by (simp add: uu_digit_ok_def)
qed

lemma take_drop: "take_bit 4 (drop_bit 4 b) = drop_bit 4 b" "take_bit 2 (drop_bit 6 b) = drop_bit 6 b" for b :: byte
  by (rule bit_word_eqI, auto simp: byte_simps dest: bit_imp_le_length)+

lemma uu_masks:
  "push_bit 4 a AND 48 = push_bit 4 (take_bit 2 a)" "push_bit 2 b AND 60 = push_bit 2 (take_bit 4 b)"
  "drop_bit 4 b AND 15 = drop_bit 4 b" "drop_bit 6 c AND 3 = drop_bit 6 c" for a b c :: byte
proof -
  have "push_bit 4 a AND push_bit 4 3 = push_bit 4 (a AND 3)" "push_bit 2 b AND push_bit 2 15 = push_bit 2 (b AND 15)"
    by (simp_all only: push_bit_and)
  then show "push_bit 4 a AND 48 = push_bit 4 (take_bit 2 a)" "push_bit 2 b AND 60 = push_bit 2 (take_bit 4 b)"
    by (simp_all add: and_masks)
  show "drop_bit 4 b AND 15 = drop_bit 4 b" "drop_bit 6 c AND 3 = drop_bit 6 c"
    unfolding and_masks by (rule take_drop)+
qed

lemma push_take: "push_bit 4 (take_bit 4 x) = push_bit 4 x" "push_bit 6 (take_bit 2 x) = push_bit 6 x" for x :: byte
  by (rule bit_word_eqI, auto simp: byte_simps)+

definition uu_group :: "byte \<Rightarrow> byte \<Rightarrow> byte \<Rightarrow> byte list" where
  "uu_group a b c = [PHP_UU_ENC (drop_bit 2 a), PHP_UU_ENC_C2 a b, PHP_UU_ENC_C3 b c, PHP_UU_ENC (c AND 63)]"

lemma decode_uu_group:
  "decode_group (PHP_UU_ENC (drop_bit 2 a)) (PHP_UU_ENC_C2 a b) (PHP_UU_ENC_C3 b c) (PHP_UU_ENC (c AND 63)) = [a, b, c]"
  unfolding decode_group_def PHP_UU_ENC_C2_def PHP_UU_ENC_C3_def uu_masks and_masks take_drop
    DEC_ENC[OF digits_bound(1)] DEC_ENC[OF digits_bound(3)] DEC_ENC[OF digits_bound(5)] DEC_ENC[OF digits_bound(6)]
  using first_byte(1)[of a b] second_byte(1)[of a b c] third_byte[of b c] by (simp only: push_take)

section \<open>Lines\<close>

text \<open>A line by its groups, the last one padded with zeros.\<close>

fun padded_groups :: "byte list \<Rightarrow> byte list" where
  "padded_groups [] = []"
| "padded_groups [a] = uu_group a 0 0"
| "padded_groups [a, b] = uu_group a b 0"
| "padded_groups (a # b # c # s) = uu_group a b c @ padded_groups s"

fun padding :: "byte list \<Rightarrow> byte list" where
  "padding [a] = [0, 0]"
| "padding [a, b] = [0]"
| "padding (a # b # c # s) = padding s"
| "padding [] = []"

lemma encode_tail_padded: "s \<noteq> [] \<Longrightarrow> length s \<le> 3 \<Longrightarrow> encode_tail s = padded_groups s"
  by (cases s rule: padded_groups.cases)
    (auto simp: encode_tail_def byte_at_def uu_group_def PHP_UU_ENC_C3_def PHP_UU_ENC_C2_def)

lemma encode_groups_padded: "length s mod 3 = 0 \<Longrightarrow> encode_groups s = padded_groups s"
  by (induction s rule: padded_groups.induct) (auto simp: uu_group_def)

lemma padded_append: "length s mod 3 = 0 \<Longrightarrow> padded_groups (s @ t) = padded_groups s @ padded_groups t"
  by (induction s rule: padded_groups.induct) auto

lemma padding_full: "length s mod 3 = 0 \<Longrightarrow> padding s = []"
  by (induction s rule: padding.induct) auto

lemma length_padded: "length (padded_groups s) = 4 * ((length s + 2) div 3)"
  by (induction s rule: padded_groups.induct) (simp_all add: uu_group_def, presburger)

text \<open>The whole encoding, line by line.\<close>

function uu_lines :: "byte list \<Rightarrow> byte list" where
  "uu_lines s =
     (if s = [] then [96, 10]
      else if length s < 45 then PHP_UU_ENC (of_nat (length s)) # padded_groups s @ [10, 96, 10]
      else PHP_UU_ENC 45 # padded_groups (take 45 s) @ [10] @ uu_lines (drop 45 s))"
  by auto
termination by (relation "measure length") auto

declare uu_lines.simps [simp del]

lemma encode_short_line:
  assumes "3 < length s" "length s < 45"
  shows "encode_groups (take (length s div 3 * 3) s) @ (if drop (length s div 3 * 3) s \<noteq> [] then encode_tail (drop (length s div 3 * 3) s) else [])
    = padded_groups s"
proof -
  let ?n = "length s div 3 * 3"
  have n: "?n \<le> length s" "length s - ?n < 3" by presburger+
  have "padded_groups s = padded_groups (take ?n s) @ padded_groups (drop ?n s)"
    using padded_append[of "take ?n s" "drop ?n s"] n by simp
  also have "padded_groups (take ?n s) = encode_groups (take ?n s)" using n by (simp add: encode_groups_padded)
  finally show ?thesis using n encode_tail_padded[of "drop ?n s"] by auto
qed

lemma php_uuencode_lines: "php_uuencode src = uu_lines src"
proof (induction src rule: uu_lines.induct)
  case (1 src)
  have E0: "PHP_UU_ENC 0 = 96" by (simp add: PHP_UU_ENC_def)
  show ?case
  proof (cases "length src > 3")
    case False
    then show ?thesis using encode_tail_padded[of src]
      by (simp add: php_uuencode_def encode_lines.simps[of src] uu_lines.simps[of src] E0)
  next
    case True
    show ?thesis
    proof (cases "length src < 45")
      case short: True
      have n: "(if length src mod 3 \<noteq> 0 then length src div 3 * 3 else length src) = length src div 3 * 3" by presburger
      show ?thesis using True short encode_short_line[OF True short]
        by (auto simp: php_uuencode_def encode_lines.simps[of src] uu_lines.simps[of src] E0 n Let_def split: if_splits)
    next
      case False
      then have "php_uuencode src = [PHP_UU_ENC 45] @ padded_groups (take 45 src) @ [10] @ php_uuencode (drop 45 src)"
        using encode_groups_padded[of "take 45 src"]
        by (simp add: php_uuencode_def encode_lines.simps[of src] Let_def split: prod.splits)
      then show ?thesis using 1 False by (auto simp: uu_lines.simps[of src])
    qed
  qed
qed

section \<open>Round trip\<close>

text \<open>The number of characters that the decoder expects covers the groups of the line.\<close>

lemma line_chars_table: "list_all (\<lambda>len. (line_chars len + 3) div 4 = (len + 2) div 3) [2..<46]"
  by (simp add: line_chars_def)

lemma line_chars_groups: "len \<le> 45 \<Longrightarrow> (line_chars len + 3) div 4 = (len + 2) div 3"
proof (cases "len < 2")
  case True
  then have "len = 0 \<or> len = 1" by auto
  then show ?thesis by (auto simp: line_chars_def)
next
  case False
  then have "len \<le> 45 \<Longrightarrow> len \<in> set [2..<46]" by (simp only: set_upt atLeastLessThan_iff) simp
  then show "len \<le> 45 \<Longrightarrow> ?thesis" using line_chars_table unfolding list_all_iff by blast
qed

lemma decode_uu_step:
  "0 < n \<Longrightarrow> decode_groups n (uu_group a b c @ rest) p = decode_groups (n - 4) rest (p @ [a, b, c])"
  using decode_uu_group[of a b c] by (simp add: decode_groups.simps[of n] uu_group_def)

lemma decode_groups_0: "decode_groups 0 s p = Some (s, p)"
  by (simp add: decode_groups.simps)

lemma decode_padded:
  assumes "(n + 3) div 4 = (length s + 2) div 3"
  shows "decode_groups n (padded_groups s @ rest) p = Some (rest, p @ s @ padding s)"
  using assms
proof (induction s arbitrary: n p rule: padded_groups.induct)
  case 1
  then have "n = 0" by simp
  then show ?case by (simp add: decode_groups_0)
next
  case (2 a)
  then have "0 < n" "n - 4 = 0" by simp_all
  then show ?case by (simp add: decode_uu_step decode_groups_0)
next
  case (3 a b)
  then have "0 < n" "n - 4 = 0" by simp_all
  then show ?case by (simp add: decode_uu_step decode_groups_0)
next
  case (4 a b c s)
  have n: "0 < n \<and> (n - 4 + 3) div 4 = q" if q: "(n + 3) div 4 = q + 1" for q
  proof (cases "n < 4")
    case True
    then have "n = 0 \<or> n = 1 \<or> n = 2 \<or> n = 3" by auto
    then show ?thesis using q by auto
  next
    case False
    then obtain m where "n = m + 4" by (metis add.commute le_Suc_ex not_less)
    then show ?thesis using q div_add_self2[of 4 "m + 3"] by (simp add: ac_simps)
  qed
  have "(n + 3) div 4 = (length s + 2) div 3 + 1" using 4(2) by simp
  note n = n[OF this]
  then show ?case using 4(1)[of "n - 4" "p @ [a, b, c]"] by (simp add: decode_uu_step)
qed

lemma line_chars_le: "length s \<le> 45 \<Longrightarrow> line_chars (length s) \<le> length (padded_groups s)"
proof -
  assume "length s \<le> 45"
  have "line_chars (length s) \<le> 4 * ((line_chars (length s) + 3) div 4)" by presburger
  then show ?thesis unfolding length_padded line_chars_groups[OF \<open>length s \<le> 45\<close>] .
qed

lemma DEC_length: "n \<le> 45 \<Longrightarrow> unat (PHP_UU_DEC (PHP_UU_ENC (of_nat n))) = n"
proof -
  assume n: "n \<le> 45"
  then have u: "unat (of_nat n :: byte) = n" by (simp add: unsigned_of_nat take_bit_nat_eq_self)
  then have "(of_nat n :: byte) < 64" using n by (simp add: word_less_nat_alt)
  then show ?thesis using u DEC_ENC by simp
qed

text \<open>One line of the encoding, decoded.\<close>

lemma decode_line:
  assumes "0 < length s" "length s \<le> 45" "length s \<le> src_len"
  shows "decode_lines src_len (PHP_UU_ENC (of_nat (length s)) # padded_groups s @ rest) p tot
    = (if length s < 45 then Some (rest, p @ s @ padding s, tot + length s)
       else decode_lines src_len (drop 1 rest) (p @ s @ padding s) (tot + length s))"
proof -
  have "\<not> line_chars (length s) > length (padded_groups s @ rest)" using line_chars_le[OF assms(2)] by simp
  then show ?thesis using assms DEC_length[OF assms(2)] decode_padded[OF line_chars_groups[OF assms(2)], of rest p]
    by (simp add: decode_lines.simps[of _ "_ # _"] Let_def)
qed

lemma length_uu_lines: "length s \<le> length (uu_lines s)"
proof (induction s rule: uu_lines.induct)
  case (1 s)
  have p: "length xs \<le> length (padded_groups xs)" for xs unfolding length_padded by presburger
  have "length s \<le> length (padded_groups s)" "length (take 45 s) \<le> length (padded_groups (take 45 s))" by (rule p)+
  then show ?case using 1 by (auto simp: uu_lines.simps[of s])
qed

lemma decode_uu_lines:
  assumes "length (uu_lines s) \<le> src_len"
  shows "\<exists>rest zs. decode_lines src_len (uu_lines s) p (length p) = Some (rest, p @ s @ zs, length p + length s)"
  using assms
proof (induction s arbitrary: p rule: uu_lines.induct)
  case (1 s)
  consider (empty) "s = []" | (short) "s \<noteq> []" "length s < 45" | (full) "45 \<le> length s" by fastforce
  then show ?case
  proof cases
    case empty
    have "unat (PHP_UU_DEC 96) = 0" by (simp add: PHP_UU_DEC_def)
    then show ?thesis using empty by (simp add: uu_lines.simps decode_lines.simps)
  next
    case short
    then have "length s \<le> src_len" using 1(2) length_uu_lines[of s] by simp
    then show ?thesis using short decode_line[of s src_len "[10, 96, 10]" p "length p"] by (simp add: uu_lines.simps[of s])
  next
    case full
    let ?t = "take 45 s" and ?d = "drop 45 s"
    have l: "uu_lines s = PHP_UU_ENC (of_nat (length ?t)) # padded_groups ?t @ 10 # uu_lines ?d" "length ?t = 45"
      using full by (auto simp: uu_lines.simps[of s])
    have src: "45 \<le> src_len" "length (uu_lines ?d) \<le> src_len" using 1(2) full length_uu_lines[of s] l(1) by auto
    obtain rest zs where "decode_lines src_len (uu_lines ?d) (p @ ?t) (length (p @ ?t)) = Some (rest, (p @ ?t) @ ?d @ zs, length (p @ ?t) + length ?d)"
      using 1(1)[of "p @ ?t"] full src(2) by (metis gr_implies_not0 length_0_conv not_less numeral_le_iff rel_simps(28) zero_less_numeral)
    moreover have "decode_lines src_len (uu_lines s) p (length p) = decode_lines src_len (uu_lines ?d) (p @ ?t) (length (p @ ?t))"
      unfolding l(1) using decode_line[of ?t src_len "10 # uu_lines ?d" p "length p"] l(2) src(1) padding_full[of ?t] full by (cases "s = []") simp_all
    moreover have "(p @ ?t) @ ?d @ zs = p @ s @ zs" "length (p @ ?t) + length ?d = length p + length s"
      using full append_take_drop_id[of 45 s] by (metis append.assoc, simp)
    ultimately show ?thesis by metis
  qed
qed

lemma uudecode_uuencode: "php_uudecode (php_uuencode src) = Some src"
proof -
  obtain rest zs where "decode_lines (length (uu_lines src)) (uu_lines src) [] 0 = Some (rest, src @ zs, length src)"
    using decode_uu_lines[of src "length (uu_lines src)" "[]"] by auto
  then show ?thesis by (simp add: php_uuencode_lines php_uudecode_def Let_def)
qed

interpretation uu: codec php_uuencode php_uudecode
  by unfold_locales (rule uudecode_uuencode)

text \<open>C32: decoding an uuencoded non-empty byte string gives the string back; the encoder and the
  decoder agree on the number of characters of every line length, and the branch of the
  decoder for missing bytes is not taken. The encoding is injective. The empty string is refused by the PHP function.\<close>

theorem uuencode_roundtrip:
  "php_uudecode (php_uuencode src) = Some src \<and> inj php_uuencode
    \<and> (case convert_uuencode src of None \<Rightarrow> src = [] | Some e \<Rightarrow> src \<noteq> [] \<and> convert_uudecode e = Some src)"
proof -
  have "uu_lines src \<noteq> []" by (simp add: uu_lines.simps[of src])
  then show ?thesis using uu.decode_encode[of src] uu.encode_inj
    by (auto simp: convert_uuencode_def convert_uudecode_def php_uuencode_lines Suc_le_eq)
qed

end
