(* ===== verification/BcNum.thy ===== *)
theory BcNum
  imports Prelude Complex_Main
begin

text \<open>
  Arbitrary precision decimal numbers (ext/bcmath, libbcmath/src): the number structure, its
  elementary tests, and the value of a number. \<open>n_value\<close> is the storage from the first digit
  on; it may be longer than the digits in use, when the scale was reduced. Reference counts are
  left out: no routine changes a number that is shared.
\<close>

section \<open>The code\<close>

datatype sign = PLUS | MINUS

record bc_num =
  n_sign :: sign
  n_len :: nat
  n_scale :: nat
  n_value :: "int list"

text \<open>
  The greatest number of digits: lengths and scales are C integers, and \<open>bc_new_num\<close> ends the request when it is
  asked for more. The properties are stated for operands whose results stay below it.
\<close>

definition INT_MAX :: nat where "INT_MAX = 2 ^ 31 - 1"

definition bc_new_num :: "nat \<Rightarrow> nat \<Rightarrow> bc_num" where
  "bc_new_num len scale = \<lparr>n_sign = PLUS, n_len = len, n_scale = scale, n_value = replicate (len + scale) 0\<rparr>"

definition BC_zero :: bc_num where "BC_zero = bc_new_num 1 0"

definition BC_one :: bc_num where "BC_one = (bc_new_num 1 0)\<lparr>n_value := [1]\<rparr>"

definition BC_two :: bc_num where "BC_two = (bc_new_num 1 0)\<lparr>n_value := [2]\<rparr>"

fun rm_zeros :: "nat \<Rightarrow> int list \<Rightarrow> nat \<times> int list" where
  "rm_zeros len (d # ds) = (if d = 0 \<and> len > 1 then rm_zeros (len - 1) ds else (len, d # ds))"
| "rm_zeros len [] = (len, [])"

definition bc_rm_leading_zeros :: "bc_num \<Rightarrow> bc_num" where
  "bc_rm_leading_zeros num = (let (len, ds) = rm_zeros (n_len num) (n_value num) in num\<lparr>n_len := len, n_value := ds\<rparr>)"

fun all_zero :: "nat \<Rightarrow> int list \<Rightarrow> bool" where
  "all_zero (Suc count) (d # ds) = (d = 0 \<and> all_zero count ds)"
| "all_zero 0 ds = True"
| "all_zero (Suc count) [] = False"

definition bc_is_zero_for_scale :: "bc_num \<Rightarrow> int \<Rightarrow> bool" where
  "bc_is_zero_for_scale num scale \<longleftrightarrow> 0 \<le> int (n_len num) + scale \<and> all_zero (nat (int (n_len num) + scale)) (n_value num)"

definition bc_is_zero :: "bc_num \<Rightarrow> bool" where
  "bc_is_zero num = bc_is_zero_for_scale num (int (n_scale num))"

definition bc_is_neg :: "bc_num \<Rightarrow> bool" where
  "bc_is_neg num \<longleftrightarrow> n_sign num = MINUS"

section \<open>Digits\<close>

text \<open>The value of a list of digits, least significant digit first.\<close>

fun le_val :: "int list \<Rightarrow> int" where
  "le_val [] = 0"
| "le_val (d # ds) = d + 10 * le_val ds"

definition digit_list :: "int list \<Rightarrow> bool" where
  "digit_list ds \<longleftrightarrow> list_all (\<lambda>d. 0 \<le> d \<and> d \<le> 9) ds"

lemma digit_list_simps [simp]:
  "digit_list []" "digit_list (d # ds) \<longleftrightarrow> 0 \<le> d \<and> d \<le> 9 \<and> digit_list ds"
  "digit_list (ds @ es) \<longleftrightarrow> digit_list ds \<and> digit_list es" "digit_list (rev ds) = digit_list ds"
  by (auto simp: digit_list_def)

lemma digit_list_take_drop [simp]: "digit_list ds \<Longrightarrow> digit_list (take n ds)" "digit_list ds \<Longrightarrow> digit_list (drop n ds)"
  by (auto simp: digit_list_def list_all_iff dest: in_set_takeD in_set_dropD)

lemma digit_list_replicate [simp]: "digit_list (replicate n 0)"
  by (simp add: digit_list_def list_all_iff)

lemma le_val_append: "le_val (ds @ es) = le_val ds + 10 ^ length ds * le_val es"
  by (induction ds) (simp_all add: algebra_simps)

lemma le_val_replicate [simp]: "le_val (replicate n 0) = 0"
  by (induction n) simp_all

lemma le_val_bounds: "digit_list ds \<Longrightarrow> 0 \<le> le_val ds \<and> le_val ds < 10 ^ length ds"
  by (induction ds) auto

lemma le_val_take_drop: "le_val ds = le_val (take n ds) + 10 ^ min n (length ds) * le_val (drop n ds)"
  using le_val_append[of "take n ds" "drop n ds"] by (simp add: min.commute)

text \<open>The same with the most significant digit first, as the numbers are stored.\<close>

definition be_val :: "int list \<Rightarrow> int" where
  "be_val ds = le_val (rev ds)"

lemma be_val_simps: "be_val [] = 0" "be_val (d # ds) = d * 10 ^ length ds + be_val ds"
  "be_val (ds @ es) = be_val ds * 10 ^ length es + be_val es"
  by (simp_all add: be_val_def le_val_append)

lemma be_val_replicate [simp]: "be_val (replicate n 0) = 0"
  by (simp add: be_val_def)

lemma be_val_bounds: "digit_list ds \<Longrightarrow> 0 \<le> be_val ds \<and> be_val ds < 10 ^ length ds"
  using le_val_bounds[of "rev ds"] by (simp add: be_val_def)

lemma be_val_zero: "digit_list ds \<Longrightarrow> be_val ds = 0 \<longleftrightarrow> ds = replicate (length ds) 0"
proof (induction ds)
  case (Cons d ds)
  then have b: "0 \<le> be_val ds" using be_val_bounds[of ds] by simp
  have "be_val (d # ds) = 0 \<longleftrightarrow> d = 0 \<and> be_val ds = 0"
    using b Cons.prems by (auto simp: be_val_simps add_nonneg_eq_0_iff)
  then show ?case using Cons by simp
qed (simp add: be_val_simps)

section \<open>Numbers\<close>

definition digits :: "bc_num \<Rightarrow> int list" where
  "digits n = take (n_len n + n_scale n) (n_value n)"

definition sign_val :: "sign \<Rightarrow> int" where
  "sign_val s = (if s = PLUS then 1 else - 1)"

definition magnitude :: "bc_num \<Rightarrow> int" where
  "magnitude n = be_val (digits n)"

definition bc_val :: "bc_num \<Rightarrow> rat" where
  "bc_val n = of_int (sign_val (n_sign n) * magnitude n) / 10 ^ n_scale n"

text \<open>Well-formed numbers, and normal ones: no leading zero and no negative zero.\<close>

definition bc_ok :: "bc_num \<Rightarrow> bool" where
  "bc_ok n \<longleftrightarrow> digit_list (n_value n) \<and> n_len n + n_scale n \<le> length (n_value n)"

definition no_leading :: "bc_num \<Rightarrow> bool" where
  "no_leading n \<longleftrightarrow> 0 < n_len n \<and> (n_len n = 1 \<or> hd (n_value n) \<noteq> 0)"

definition bc_normal :: "bc_num \<Rightarrow> bool" where
  "bc_normal n \<longleftrightarrow> bc_ok n \<and> no_leading n \<and> (n_sign n = MINUS \<longrightarrow> magnitude n \<noteq> 0)"

lemma bc_ok_digits: "bc_ok n \<Longrightarrow> digit_list (digits n) \<and> length (digits n) = n_len n + n_scale n"
  by (simp add: bc_ok_def digits_def)

lemma magnitude_bounds: "bc_ok n \<Longrightarrow> 0 \<le> magnitude n \<and> magnitude n < 10 ^ (n_len n + n_scale n)"
  using be_val_bounds[of "digits n"] bc_ok_digits[of n] by (simp add: magnitude_def)

lemma all_zero_iff: "all_zero c ds \<longleftrightarrow> c \<le> length ds \<and> take c ds = replicate c 0"
  by (induction c ds rule: all_zero.induct) auto

lemma bc_is_zero_for_nat: "bc_is_zero_for_scale num (int scale) = all_zero (n_len num + scale) (n_value num)"
  unfolding bc_is_zero_for_scale_def of_nat_add[symmetric] nat_int by simp

lemma bc_is_zero_iff: "bc_ok n \<Longrightarrow> bc_is_zero n \<longleftrightarrow> magnitude n = 0"
  using be_val_zero[of "digits n"] bc_ok_digits[of n]
  by (simp add: bc_is_zero_def bc_is_zero_for_nat all_zero_iff magnitude_def digits_def bc_ok_def)

text \<open>Removing leading zeros keeps the value.\<close>

lemma rm_zeros_props:
  assumes "rm_zeros len ds = (len', ds')" "len + k \<le> length ds" "0 < len" "digit_list ds"
  shows "digit_list ds' \<and> len' + k \<le> length ds' \<and> 0 < len' \<and> len' \<le> len
    \<and> be_val (take (len' + k) ds') = be_val (take (len + k) ds) \<and> (len' = 1 \<or> hd ds' \<noteq> 0)"
  using assms
proof (induction len ds rule: rm_zeros.induct)
  case (1 len d ds)
  show ?case
  proof (cases "d = 0 \<and> len > 1")
    case True
    then have "rm_zeros (len - 1) ds = (len', ds')" "len - 1 + k \<le> length ds" "0 < len - 1" "digit_list ds" using "1.prems" by auto
    moreover have "be_val (take (len - 1 + k) ds) = be_val (take (len + k) (d # ds))"
      using True by (cases len) (simp_all add: be_val_simps)
    ultimately show ?thesis using "1.IH"[OF True] by auto
  next
    case False
    then show ?thesis using "1.prems" by auto
  qed
qed simp

lemma bc_rm_leading_zeros:
  assumes "bc_ok n" "0 < n_len n"
  shows "bc_ok (bc_rm_leading_zeros n)" "no_leading (bc_rm_leading_zeros n)"
    "magnitude (bc_rm_leading_zeros n) = magnitude n" "n_scale (bc_rm_leading_zeros n) = n_scale n"
    "n_sign (bc_rm_leading_zeros n) = n_sign n" "n_len (bc_rm_leading_zeros n) \<le> n_len n"
proof -
  obtain len ds where r: "rm_zeros (n_len n) (n_value n) = (len, ds)" by fastforce
  note p = rm_zeros_props[OF r, of "n_scale n"]
  show "bc_ok (bc_rm_leading_zeros n)" "no_leading (bc_rm_leading_zeros n)" "magnitude (bc_rm_leading_zeros n) = magnitude n"
    "n_scale (bc_rm_leading_zeros n) = n_scale n" "n_sign (bc_rm_leading_zeros n) = n_sign n" "n_len (bc_rm_leading_zeros n) \<le> n_len n"
    using p assms by (simp_all add: bc_rm_leading_zeros_def r bc_ok_def no_leading_def magnitude_def digits_def)
qed

end
