(* ===== verification/BcAddSub.thy ===== *)
theory BcAddSub
  imports BcNum
begin

text \<open>
  Comparison, addition and subtraction (compare.c, doaddsub.c, add.c, sub.c). A pointer that
  runs from the last digit downwards is a walk over the reversed digits.
\<close>

section \<open>The code\<close>

fun cmp_prefix :: "nat \<Rightarrow> int list \<Rightarrow> int list \<Rightarrow> nat \<times> int list \<times> int list" where
  "cmp_prefix (Suc count) (x # xs) (y # ys) = (if x = y then cmp_prefix count xs ys else (Suc count, x # xs, y # ys))"
| "cmp_prefix count xs ys = (count, xs, ys)"

definition bc_do_compare :: "bc_num \<Rightarrow> bc_num \<Rightarrow> bool \<Rightarrow> bool \<Rightarrow> int" where
  "bc_do_compare n1 n2 use_sign ignore_last =
     (if use_sign \<and> n_sign n1 \<noteq> n_sign n2 then (if n_sign n1 = PLUS then 1 else - 1)
      else
        let greater = (if \<not> use_sign \<or> n_sign n1 = PLUS then 1 else - 1);
            less = (if \<not> use_sign \<or> n_sign n1 = PLUS then - 1 else 1)
        in if n_len n1 \<noteq> n_len n2 then (if n_len n1 > n_len n2 then greater else less)
           else
             let (count, n1ptr, n2ptr) = cmp_prefix (n_len n1 + min (n_scale n1) (n_scale n2)) (n_value n1) (n_value n2)
             in if ignore_last \<and> count = 1 \<and> n_scale n1 = n_scale n2 then 0
                else if count \<noteq> 0 then (if hd n1ptr > hd n2ptr then greater else less)
                else if n_scale n1 \<noteq> n_scale n2 then
                  (if n_scale n1 > n_scale n2 then (if all_zero (n_scale n1 - n_scale n2) n1ptr then 0 else greater)
                   else (if all_zero (n_scale n2 - n_scale n1) n2ptr then 0 else less))
                else 0)"

definition bc_compare :: "bc_num \<Rightarrow> bc_num \<Rightarrow> int" where
  "bc_compare n1 n2 = bc_do_compare n1 n2 True False"

text \<open>One digit of a sum or a difference, with the carry or borrow to the next.\<close>

definition add_digit :: "int \<Rightarrow> int \<times> int" where
  "add_digit v = (if v > 9 then (v - 10, 1) else (v, 0))"

definition sub_digit :: "int \<Rightarrow> int \<times> int" where
  "sub_digit v = (if v < 0 then (v + 10, 1) else (v, 0))"

fun add_loop :: "int list \<Rightarrow> int list \<Rightarrow> int \<Rightarrow> int list \<times> int \<times> int list" where
  "add_loop (x # xs) (y # ys) carry =
     (let (d, c) = add_digit (x + y + carry); (ds, c', rest) = add_loop xs ys c in (d # ds, c', rest))"
| "add_loop [] ys carry = ([], carry, ys)"
| "add_loop (x # xs) [] carry = ([], carry, x # xs)"

fun carry_loop :: "int list \<Rightarrow> int \<Rightarrow> int list \<times> int" where
  "carry_loop (x # xs) carry =
     (let (d, c) = add_digit (x + carry); (ds, c') = carry_loop xs c in (d # ds, c'))"
| "carry_loop [] carry = ([], carry)"

definition bc_do_add :: "bc_num \<Rightarrow> bc_num \<Rightarrow> nat \<Rightarrow> bc_num" where
  "bc_do_add n1 n2 scale_min =
     (let sum_scale = max (n_scale n1) (n_scale n2);
          sum_digits = max (n_len n1) (n_len n2) + 1;
          p1 = rev (digits n1); p2 = rev (digits n2);
          (low, p1, p2) =
            (if n_scale n1 > n_scale n2 then (take (n_scale n1 - n_scale n2) p1, drop (n_scale n1 - n_scale n2) p1, p2)
             else (take (n_scale n2 - n_scale n1) p2, p1, drop (n_scale n2 - n_scale n1) p2));
          (mid, carry, rest) = add_loop p1 p2 0;
          (high, carry) = carry_loop rest carry
      in bc_rm_leading_zeros
           \<lparr>n_sign = PLUS, n_len = sum_digits, n_scale = max sum_scale scale_min,
            n_value = rev (low @ mid @ high @ [carry]) @ replicate (scale_min - sum_scale) 0\<rparr>)"

fun neg_loop :: "int list \<Rightarrow> int \<Rightarrow> int list \<times> int" where
  "neg_loop (y # ys) borrow = (let (d, b) = sub_digit (- y - borrow); (ds, b') = neg_loop ys b in (d # ds, b'))"
| "neg_loop [] borrow = ([], borrow)"

fun sub_loop :: "nat \<Rightarrow> int list \<Rightarrow> int list \<Rightarrow> int \<Rightarrow> int list \<times> int \<times> int list" where
  "sub_loop (Suc n) (x # xs) (y # ys) borrow =
     (let (d, b) = sub_digit (x - y - borrow); (ds, b', rest) = sub_loop n xs ys b in (d # ds, b', rest))"
| "sub_loop n xs ys borrow = ([], borrow, xs)"

fun borrow_loop :: "nat \<Rightarrow> int list \<Rightarrow> int \<Rightarrow> int list \<times> int" where
  "borrow_loop (Suc n) (x # xs) borrow = (let (d, b) = sub_digit (x - borrow); (ds, b') = borrow_loop n xs b in (d # ds, b'))"
| "borrow_loop n xs borrow = ([], borrow)"

definition bc_do_sub :: "bc_num \<Rightarrow> bc_num \<Rightarrow> nat \<Rightarrow> bc_num" where
  "bc_do_sub n1 n2 scale_min =
     (let diff_len = max (n_len n1) (n_len n2); diff_scale = max (n_scale n1) (n_scale n2);
          min_len = min (n_len n1) (n_len n2); min_scale = min (n_scale n1) (n_scale n2);
          p1 = rev (digits n1); p2 = rev (digits n2);
          (low, borrow, p1, p2) =
            (if n_scale n1 \<noteq> min_scale then (take (n_scale n1 - min_scale) p1, 0, drop (n_scale n1 - min_scale) p1, p2)
             else let (low, b) = neg_loop (take (n_scale n2 - min_scale) p2) 0 in (low, b, p1, drop (n_scale n2 - min_scale) p2));
          (mid, borrow, p1) = sub_loop (min_len + min_scale) p1 p2 borrow;
          (high, borrow) = (if diff_len \<noteq> min_len then borrow_loop (diff_len - min_len) p1 borrow else ([], borrow))
      in bc_rm_leading_zeros
           \<lparr>n_sign = PLUS, n_len = diff_len, n_scale = max diff_scale scale_min,
            n_value = rev (low @ mid @ high) @ replicate (scale_min - diff_scale) 0\<rparr>)"

definition bc_add :: "bc_num \<Rightarrow> bc_num \<Rightarrow> nat \<Rightarrow> bc_num" where
  "bc_add n1 n2 scale_min =
     (if n_sign n1 = n_sign n2 then (bc_do_add n1 n2 scale_min)\<lparr>n_sign := n_sign n1\<rparr>
      else
        let cmp_res = bc_do_compare n1 n2 False False
        in if cmp_res = - 1 then (bc_do_sub n2 n1 scale_min)\<lparr>n_sign := n_sign n2\<rparr>
           else if cmp_res = 0 then bc_new_num 1 (max scale_min (max (n_scale n1) (n_scale n2)))
           else (bc_do_sub n1 n2 scale_min)\<lparr>n_sign := n_sign n1\<rparr>)"

definition bc_sub :: "bc_num \<Rightarrow> bc_num \<Rightarrow> nat \<Rightarrow> bc_num" where
  "bc_sub n1 n2 scale_min =
     (if n_sign n1 \<noteq> n_sign n2 then (bc_do_add n1 n2 scale_min)\<lparr>n_sign := n_sign n1\<rparr>
      else
        let cmp_res = bc_do_compare n1 n2 False False
        in if cmp_res = - 1 then (bc_do_sub n2 n1 scale_min)\<lparr>n_sign := (if n_sign n2 = PLUS then MINUS else PLUS)\<rparr>
           else if cmp_res = 0 then bc_new_num 1 (max scale_min (max (n_scale n1) (n_scale n2)))
           else (bc_do_sub n1 n2 scale_min)\<lparr>n_sign := n_sign n1\<rparr>)"

section \<open>Comparison\<close>

lemma cmp_prefix_props:
  assumes "cmp_prefix c xs ys = (c', p, q)" "c \<le> length xs" "c \<le> length ys"
  shows "c' \<le> c \<and> (\<exists>r. length r = c - c' \<and> xs = r @ p \<and> ys = r @ q \<and> (c' \<noteq> 0 \<longrightarrow> p \<noteq> [] \<and> q \<noteq> [] \<and> hd p \<noteq> hd q))"
  using assms
proof (induction c xs ys rule: cmp_prefix.induct)
  case (1 c x xs y ys)
  show ?case
  proof (cases "x = y")
    case True
    then obtain r where "c' \<le> c" "length r = c - c'" "xs = r @ p" "ys = r @ q" "c' \<noteq> 0 \<longrightarrow> p \<noteq> [] \<and> q \<noteq> [] \<and> hd p \<noteq> hd q"
      using 1 by auto
    then show ?thesis using True by (intro conjI exI[of _ "x # r"]) (auto simp: Suc_diff_le)
  qed (use 1 in auto)
qed auto

text \<open>The two magnitudes at the sum of the scales.\<close>

definition scaled :: "bc_num \<Rightarrow> bc_num \<Rightarrow> int" where
  "scaled n1 n2 = magnitude n1 * 10 ^ n_scale n2"

definition lead_ok :: "bc_num \<Rightarrow> bool" where
  "lead_ok n \<longleftrightarrow> no_leading n \<or> n_len n = 0 \<and> n_scale n = 0"

lemma hd_lower: "ds \<noteq> [] \<Longrightarrow> digit_list ds \<Longrightarrow> hd ds \<noteq> 0 \<Longrightarrow> 10 ^ (length ds - 1) \<le> be_val ds"
proof (cases ds)
  case (Cons d es)
  assume a: "digit_list ds" "hd ds \<noteq> 0"
  then have "1 * 10 ^ length es \<le> d * 10 ^ length es" "0 \<le> be_val es" using be_val_bounds[of es] Cons by (auto intro!: mult_right_mono)
  then have "10 ^ length es \<le> d * 10 ^ length es + be_val es" by linarith
  then show ?thesis using Cons by (simp add: be_val_simps)
qed simp

lemma longer_is_greater:
  assumes "bc_ok n1" "bc_ok n2" "no_leading n1" "n_len n1 > n_len n2" "0 < n_len n2"
  shows "scaled n2 n1 < scaled n1 n2"
proof -
  have d: "digit_list (digits n1)" "length (digits n1) = n_len n1 + n_scale n1" using bc_ok_digits[OF assms(1)] by auto
  have "hd (digits n1) = hd (n_value n1)" using assms(4) by (simp add: digits_def hd_take)
  then have "10 ^ (n_len n1 + n_scale n1 - 1) \<le> magnitude n1"
    using hd_lower[of "digits n1"] d assms(3-5) by (force simp: no_leading_def magnitude_def)
  then have "10 ^ (n_len n1 + n_scale n1 - 1) * 10 ^ n_scale n2 \<le> scaled n1 n2" unfolding scaled_def by (rule mult_right_mono) simp
  moreover have "scaled n2 n1 < 10 ^ (n_len n2 + n_scale n2) * 10 ^ n_scale n1"
    unfolding scaled_def using magnitude_bounds[OF assms(2)] by (intro mult_strict_right_mono) simp_all
  moreover have "(10 :: int) ^ (n_len n2 + n_scale n2) * 10 ^ n_scale n1 \<le> 10 ^ (n_len n1 + n_scale n1 - 1) * 10 ^ n_scale n2"
    unfolding power_add[symmetric] using assms(4) by (intro power_increasing) simp_all
  ultimately show ?thesis by linarith
qed

lemma digits_split:
  assumes "n_value n = r @ p" "length r \<le> n_len n + n_scale n"
  shows "digits n = r @ take (n_len n + n_scale n - length r) p"
  using assms by (simp add: digits_def)

lemma first_difference:
  assumes "digit_list p" "digit_list q" "length p + s2 = length q + s1" "x > (y :: int)"
  shows "be_val (r @ y # q) * 10 ^ s1 < be_val (r @ x # p) * 10 ^ s2"
proof -
  define e where "e = length q + s1"
  have e: "(10 :: int) ^ length q * 10 ^ s1 = 10 ^ e" "(10 :: int) ^ length p * 10 ^ s2 = 10 ^ e" "Suc (length q) + s1 = Suc e" "Suc (length p) + s2 = Suc e"
    using assms(3) by (simp_all add: e_def flip: power_add)
  have "be_val q * 10 ^ s1 < 10 ^ length q * 10 ^ s1" using be_val_bounds[OF assms(2)] by (intro mult_strict_right_mono) auto
  moreover have "0 \<le> be_val p * 10 ^ s2" using be_val_bounds[OF assms(1)] by simp
  moreover have "(y + 1) * 10 ^ e \<le> x * 10 ^ e" using assms(4) by (intro mult_right_mono) simp_all
  moreover have "be_val (r @ y # q) * 10 ^ s1 = be_val r * 10 ^ Suc e + y * (10 ^ length q * 10 ^ s1) + be_val q * 10 ^ s1"
    using e(3) by (simp add: be_val_simps algebra_simps flip: power_add)
  moreover have "be_val (r @ x # p) * 10 ^ s2 = be_val r * 10 ^ Suc e + x * (10 ^ length p * 10 ^ s2) + be_val p * 10 ^ s2"
    using e(4) by (simp add: be_val_simps algebra_simps flip: power_add)
  ultimately show ?thesis unfolding e by (simp add: distrib_right)
qed

lemma extra_digits:
  assumes "digit_list q" "q = take k p" "length q = k" "s1 = s2 + k"
  shows "be_val (r @ q) * 10 ^ s2 = be_val r * 10 ^ s1 + be_val q * 10 ^ s2" "all_zero k p \<longleftrightarrow> be_val q = 0"
  using assms be_val_zero[OF assms(1)] by (auto simp: be_val_simps power_add algebra_simps all_zero_iff)

lemma compare_same_length:
  assumes "bc_ok n1" "bc_ok n2" "n_len n1 = n_len n2"
  shows "bc_do_compare n1 n2 False False = sgn (scaled n1 n2 - scaled n2 n1)"
proof -
  define l where "l = n_len n1"
  obtain c p q where cp: "cmp_prefix (l + min (n_scale n1) (n_scale n2)) (n_value n1) (n_value n2) = (c, p, q)" by (metis prod_cases3)
  obtain r where r: "c \<le> l + min (n_scale n1) (n_scale n2)" "length r = l + min (n_scale n1) (n_scale n2) - c"
      "n_value n1 = r @ p" "n_value n2 = r @ q" "c \<noteq> 0 \<Longrightarrow> p \<noteq> [] \<and> q \<noteq> [] \<and> hd p \<noteq> hd q"
  proof -
    have "l + min (n_scale n1) (n_scale n2) \<le> length (n_value n1)" "l + min (n_scale n1) (n_scale n2) \<le> length (n_value n2)"
      using assms by (auto simp: bc_ok_def l_def)
    then show ?thesis using that cmp_prefix_props[OF cp] by blast
  qed
  have dl: "digit_list p" "digit_list q" using assms r(3,4) by (auto simp: bc_ok_def)
  define p' q' where "p' = take (l + n_scale n1 - length r) p" and "q' = take (l + n_scale n2 - length r) q"
  have d: "digits n1 = r @ p'" "digits n2 = r @ q'"
    using digits_split[OF r(3)] digits_split[OF r(4)] r(2) assms(3) by (auto simp: l_def p'_def q'_def)
  have len: "length p' = l + n_scale n1 - length r" "length q' = l + n_scale n2 - length r" "digit_list p'" "digit_list q'"
    using assms r(3,4) dl by (auto simp: bc_ok_def p'_def q'_def l_def)
  show ?thesis
  proof (cases "c = 0")
    case False
    define x y where "x = hd p" and "y = hd q"
    have ne: "0 < length p'" "0 < length q'" using False r(1,2) len(1,2) by simp_all
    then have "hd p' = x" "hd q' = y" by (simp_all add: x_def y_def p'_def q'_def hd_take)
    then obtain ps qs where pq: "p' = x # ps" "q' = y # qs" using ne by (metis length_greater_0_conv list.collapse)
    have xy: "x \<noteq> y" using r(5)[OF False] by (simp add: x_def y_def)
    have e: "length ps + n_scale n2 = length qs + n_scale n1" using len(1,2) pq r(1,2) False by auto
    have "x > y \<Longrightarrow> scaled n2 n1 < scaled n1 n2"
      using first_difference[of ps qs "n_scale n2" "n_scale n1" y x r] e len(3,4) pq d by (simp add: scaled_def magnitude_def)
    moreover have "y > x \<Longrightarrow> scaled n1 n2 < scaled n2 n1"
      using first_difference[of qs ps "n_scale n1" "n_scale n2" x y r] e len(3,4) pq d by (simp add: scaled_def magnitude_def)
    moreover have "bc_do_compare n1 n2 False False = (if x > y then 1 else - 1)"
      using False assms(3) cp by (simp add: bc_do_compare_def Let_def l_def x_def y_def)
    ultimately show ?thesis using xy by (cases "x > y") simp_all
  next
    case True
    show ?thesis
    proof (cases "n_scale n1 \<ge> n_scale n2")
      case ge: True
      have lr: "length r = l + n_scale n2" using r(2) True ge by simp
      have p: "p' = take (n_scale n1 - n_scale n2) p" "length p' = n_scale n1 - n_scale n2" "q' = []" using len(1,2) lr by (auto simp: p'_def)
      have x: "be_val (r @ p') * 10 ^ n_scale n2 = be_val r * 10 ^ n_scale n1 + be_val p' * 10 ^ n_scale n2"
          "all_zero (n_scale n1 - n_scale n2) p \<longleftrightarrow> be_val p' = 0"
        using extra_digits[OF len(3) p(1,2), where ?s1.0 = "n_scale n1" and ?s2.0 = "n_scale n2"] ge by simp_all
      have "scaled n1 n2 - scaled n2 n1 = be_val p' * 10 ^ n_scale n2" using x(1) ge d p(3) by (simp add: scaled_def magnitude_def)
      moreover have "0 \<le> be_val p'" using be_val_bounds[OF len(3)] by simp
      ultimately show ?thesis using True assms(3) cp ge x(2)
        by (auto simp: bc_do_compare_def Let_def l_def sgn_mult all_zero_iff)
    next
      case lt: False
      have lr: "length r = l + n_scale n1" using r(2) True lt by simp
      have q: "q' = take (n_scale n2 - n_scale n1) q" "length q' = n_scale n2 - n_scale n1" "p' = []" using len(1,2) lr by (auto simp: q'_def)
      have x: "be_val (r @ q') * 10 ^ n_scale n1 = be_val r * 10 ^ n_scale n2 + be_val q' * 10 ^ n_scale n1"
          "all_zero (n_scale n2 - n_scale n1) q \<longleftrightarrow> be_val q' = 0"
        using extra_digits[OF len(4) q(1,2), where ?s1.0 = "n_scale n2" and ?s2.0 = "n_scale n1"] lt by simp_all
      have "scaled n1 n2 - scaled n2 n1 = - (be_val q' * 10 ^ n_scale n1)" using x(1) lt d q(3) by (simp add: scaled_def magnitude_def)
      moreover have "0 \<le> be_val q'" using be_val_bounds[OF len(4)] by simp
      ultimately show ?thesis using True assms(3) cp lt x(2)
        by (auto simp: bc_do_compare_def Let_def l_def sgn_mult all_zero_iff)
    qed
  qed
qed

lemma compare_magnitudes:
  assumes "bc_ok n1" "bc_ok n2" "no_leading n1" "no_leading n2"
  shows "bc_do_compare n1 n2 False False = sgn (scaled n1 n2 - scaled n2 n1)"
proof (cases "n_len n1 = n_len n2")
  case True
  then show ?thesis using compare_same_length assms by simp
next
  case False
  then consider "n_len n1 > n_len n2" | "n_len n2 > n_len n1" by linarith
  then show ?thesis
    using longer_is_greater[of n1 n2] longer_is_greater[of n2 n1] assms False
    by cases (auto simp: bc_do_compare_def Let_def no_leading_def)
qed

section \<open>The digit loops\<close>

lemma add_digit_props: "0 \<le> v \<Longrightarrow> v \<le> 19 \<Longrightarrow> add_digit v = (d, c) \<Longrightarrow> v = d + 10 * c \<and> 0 \<le> d \<and> d \<le> 9 \<and> 0 \<le> c \<and> c \<le> 1"
  by (auto simp: add_digit_def split: if_splits)

lemma sub_digit_props: "- 10 \<le> v \<Longrightarrow> v \<le> 9 \<Longrightarrow> sub_digit v = (d, b) \<Longrightarrow> v = d - 10 * b \<and> 0 \<le> d \<and> d \<le> 9 \<and> 0 \<le> b \<and> b \<le> 1"
  by (auto simp: sub_digit_def split: if_splits)

lemma add_loop_props:
  "add_loop xs ys c = (ds, c', rest) \<Longrightarrow> digit_list xs \<Longrightarrow> digit_list ys \<Longrightarrow> 0 \<le> c \<Longrightarrow> c \<le> 1 \<Longrightarrow>
   digit_list ds \<and> digit_list rest \<and> 0 \<le> c' \<and> c' \<le> 1 \<and> length ds + length rest = max (length xs) (length ys)
     \<and> le_val ds + 10 ^ length ds * (c' + le_val rest) = le_val xs + le_val ys + c"
proof (induction xs ys c arbitrary: ds c' rest rule: add_loop.induct)
  case (1 x xs y ys c)
  obtain d b where a: "add_digit (x + y + c) = (d, b)" by fastforce
  obtain es where e: "add_loop xs ys b = (es, c', rest)" "ds = d # es" using "1.prems"(1) a by (auto simp: Let_def split: prod.splits)
  note p = add_digit_props[OF _ _ a]
  have "x + y + c = d + 10 * b \<and> 0 \<le> d \<and> d \<le> 9 \<and> 0 \<le> b \<and> b \<le> 1" using p "1.prems" by simp
  moreover from this have "digit_list es \<and> digit_list rest \<and> 0 \<le> c' \<and> c' \<le> 1 \<and> length es + length rest = max (length xs) (length ys)
     \<and> le_val es + 10 ^ length es * (c' + le_val rest) = le_val xs + le_val ys + b"
    using "1.IH"[OF a[symmetric] refl e(1)] "1.prems" by auto
  ultimately show ?case using e(2) by (auto simp: algebra_simps)
qed auto

lemma carry_loop_props:
  "carry_loop xs c = (ds, c') \<Longrightarrow> digit_list xs \<Longrightarrow> 0 \<le> c \<Longrightarrow> c \<le> 1 \<Longrightarrow>
   digit_list ds \<and> 0 \<le> c' \<and> c' \<le> 1 \<and> length ds = length xs \<and> le_val ds + 10 ^ length ds * c' = le_val xs + c"
proof (induction xs c arbitrary: ds c' rule: carry_loop.induct)
  case (1 x xs c)
  obtain d b where a: "add_digit (x + c) = (d, b)" by fastforce
  obtain es where e: "carry_loop xs b = (es, c')" "ds = d # es" using "1.prems"(1) a by (auto simp: Let_def split: prod.splits)
  have "x + c = d + 10 * b \<and> 0 \<le> d \<and> d \<le> 9 \<and> 0 \<le> b \<and> b \<le> 1" using add_digit_props[OF _ _ a] "1.prems" by simp
  moreover from this have "digit_list es \<and> 0 \<le> c' \<and> c' \<le> 1 \<and> length es = length xs \<and> le_val es + 10 ^ length es * c' = le_val xs + b"
    using "1.IH"[OF a[symmetric] refl e(1)] "1.prems" by auto
  ultimately show ?case using e(2) by (auto simp: algebra_simps)
qed auto

lemma neg_loop_props:
  "neg_loop ys b = (ds, b') \<Longrightarrow> digit_list ys \<Longrightarrow> 0 \<le> b \<Longrightarrow> b \<le> 1 \<Longrightarrow>
   digit_list ds \<and> 0 \<le> b' \<and> b' \<le> 1 \<and> length ds = length ys \<and> le_val ds - 10 ^ length ds * b' = - le_val ys - b"
proof (induction ys b arbitrary: ds b' rule: neg_loop.induct)
  case (1 y ys b)
  obtain d c where a: "sub_digit (- y - b) = (d, c)" by fastforce
  obtain es where e: "neg_loop ys c = (es, b')" "ds = d # es" using "1.prems"(1) a by (auto simp: Let_def split: prod.splits)
  have "- y - b = d - 10 * c \<and> 0 \<le> d \<and> d \<le> 9 \<and> 0 \<le> c \<and> c \<le> 1" using sub_digit_props[OF _ _ a] "1.prems" by simp
  moreover from this have "digit_list es \<and> 0 \<le> b' \<and> b' \<le> 1 \<and> length es = length ys \<and> le_val es - 10 ^ length es * b' = - le_val ys - c"
    using "1.IH"[OF a[symmetric] refl e(1)] "1.prems" by auto
  ultimately show ?case using e(2) by (auto simp: algebra_simps)
qed auto

lemma sub_loop_props:
  "sub_loop n xs ys b = (ds, b', rest) \<Longrightarrow> n = length ys \<Longrightarrow> n \<le> length xs \<Longrightarrow> digit_list xs \<Longrightarrow> digit_list ys \<Longrightarrow> 0 \<le> b \<Longrightarrow> b \<le> 1 \<Longrightarrow>
   digit_list ds \<and> digit_list rest \<and> 0 \<le> b' \<and> b' \<le> 1 \<and> length ds = n \<and> length rest = length xs - n
     \<and> le_val ds + 10 ^ length ds * (le_val rest - b') = le_val xs - le_val ys - b"
proof (induction n xs ys b arbitrary: ds b' rest rule: sub_loop.induct)
  case (1 n x xs y ys b)
  obtain d c where a: "sub_digit (x - y - b) = (d, c)" by fastforce
  obtain es where e: "sub_loop n xs ys c = (es, b', rest)" "ds = d # es" using "1.prems"(1) a by (auto simp: Let_def split: prod.splits)
  have "x - y - b = d - 10 * c \<and> 0 \<le> d \<and> d \<le> 9 \<and> 0 \<le> c \<and> c \<le> 1" using sub_digit_props[OF _ _ a] "1.prems" by simp
  moreover from this have "digit_list es \<and> digit_list rest \<and> 0 \<le> b' \<and> b' \<le> 1 \<and> length es = n \<and> length rest = length xs - n
     \<and> le_val es + 10 ^ length es * (le_val rest - b') = le_val xs - le_val ys - c"
    using "1.IH"[OF a[symmetric] refl e(1)] "1.prems" by auto
  ultimately show ?case using e(2) by (auto simp: algebra_simps)
qed auto

lemma borrow_loop_props:
  "borrow_loop n xs b = (ds, b') \<Longrightarrow> n = length xs \<Longrightarrow> digit_list xs \<Longrightarrow> 0 \<le> b \<Longrightarrow> b \<le> 1 \<Longrightarrow>
   digit_list ds \<and> 0 \<le> b' \<and> b' \<le> 1 \<and> length ds = n \<and> le_val ds - 10 ^ length ds * b' = le_val xs - b"
proof (induction n xs b arbitrary: ds b' rule: borrow_loop.induct)
  case (1 n x xs b)
  obtain d c where a: "sub_digit (x - b) = (d, c)" by fastforce
  obtain es where e: "borrow_loop n xs c = (es, b')" "ds = d # es" using "1.prems"(1) a by (auto simp: Let_def split: prod.splits)
  have "x - b = d - 10 * c \<and> 0 \<le> d \<and> d \<le> 9 \<and> 0 \<le> c \<and> c \<le> 1" using sub_digit_props[OF _ _ a] "1.prems" by simp
  moreover from this have "digit_list es \<and> 0 \<le> b' \<and> b' \<le> 1 \<and> length es = n \<and> le_val es - 10 ^ length es * b' = le_val xs - c"
    using "1.IH"[OF a[symmetric] refl e(1)] "1.prems" by auto
  ultimately show ?case using e(2) by (auto simp: algebra_simps)
qed auto

section \<open>Sums and differences of magnitudes\<close>

definition aligned :: "nat \<Rightarrow> bc_num \<Rightarrow> int" where
  "aligned s n = magnitude n * 10 ^ (s - n_scale n)"

lemma magnitude_le: "magnitude n = le_val (rev (digits n))"
  by (simp add: magnitude_def be_val_def)

lemma magnitude_split:
  assumes "bc_ok n"
  shows "k \<le> n_scale n \<Longrightarrow> magnitude n = le_val (take k (rev (digits n))) + 10 ^ k * le_val (drop k (rev (digits n)))"
    and "magnitude n = le_val (rev (digits n))"
  using le_val_take_drop[of "rev (digits n)" k] bc_ok_digits[OF assms] by (simp_all add: magnitude_le min_def)

text \<open>A number built from the digits of a loop, with zeros behind them.\<close>

lemma built_number:
  fixes smin :: nat
  assumes "digit_list ds" "length ds = len + sc" "0 < len"
  defines "n \<equiv> bc_rm_leading_zeros \<lparr>n_sign = PLUS, n_len = len, n_scale = max sc smin, n_value = rev ds @ replicate (smin - sc) 0\<rparr>"
  shows "bc_ok n" "no_leading n" "n_scale n = max sc smin" "n_sign n = PLUS" "magnitude n = le_val ds * 10 ^ (max sc smin - sc)" "n_len n \<le> len"
proof -
  let ?m = "\<lparr>n_sign = PLUS, n_len = len, n_scale = max sc smin, n_value = rev ds @ replicate (smin - sc) 0\<rparr>"
  have ok: "bc_ok ?m" using assms(1,2) by (auto simp: bc_ok_def max_def)
  have "digits ?m = rev ds @ replicate (smin - sc) 0" using assms(2) by (auto simp: digits_def max_def)
  then have "magnitude ?m = le_val ds * 10 ^ (max sc smin - sc)" by (auto simp: magnitude_def be_val_def le_val_append max_def)
  then show "bc_ok n" "no_leading n" "n_scale n = max sc smin" "n_sign n = PLUS" "magnitude n = le_val ds * 10 ^ (max sc smin - sc)" "n_len n \<le> len"
    using bc_rm_leading_zeros[OF ok] assms(3) by (simp_all add: n_def)
qed

lemma bc_do_add_props:
  fixes smin :: nat
  assumes "bc_ok n1" "bc_ok n2"
  defines "s \<equiv> max (max (n_scale n1) (n_scale n2)) smin"
  shows "bc_ok (bc_do_add n1 n2 smin)" "no_leading (bc_do_add n1 n2 smin)" "n_scale (bc_do_add n1 n2 smin) = s"
    "magnitude (bc_do_add n1 n2 smin) = aligned s n1 + aligned s n2" "n_len (bc_do_add n1 n2 smin) \<le> max (n_len n1) (n_len n2) + 1"
proof -
  define k1 k2 where "k1 = n_scale n1 - n_scale n2" and "k2 = n_scale n2 - n_scale n1"
  define r1 r2 where "r1 = rev (digits n1)" and "r2 = rev (digits n2)"
  have d: "digit_list r1" "digit_list r2" "length r1 = n_len n1 + n_scale n1" "length r2 = n_len n2 + n_scale n2"
    using bc_ok_digits[OF assms(1)] bc_ok_digits[OF assms(2)] by (simp_all add: r1_def r2_def)
  obtain low p1 p2 where lo: "(if n_scale n1 > n_scale n2 then (take k1 r1, drop k1 r1, r2) else (take k2 r2, r1, drop k2 r2)) = (low, p1, p2)"
    by (metis prod_cases3)
  obtain mid c rest where al: "add_loop p1 p2 0 = (mid, c, rest)" by (metis prod_cases3)
  obtain high c' where cl: "carry_loop rest c = (high, c')" by fastforce
  have dl: "digit_list low" "digit_list p1" "digit_list p2" using lo d by (auto split: if_splits)
  have ap: "digit_list mid" "digit_list rest" "0 \<le> c" "c \<le> 1" "length mid + length rest = max (length p1) (length p2)"
      "le_val mid + 10 ^ length mid * (c + le_val rest) = le_val p1 + le_val p2"
    using add_loop_props[OF al dl(2,3)] by auto
  have cp: "digit_list high" "0 \<le> c'" "c' \<le> 1" "length high = length rest" "le_val high + 10 ^ length high * c' = le_val rest + c"
    using carry_loop_props[OF cl ap(2-4)] by auto
  define ds where "ds = low @ mid @ high @ [c']"
  have "length low + max (length p1) (length p2) = max (n_len n1) (n_len n2) + max (n_scale n1) (n_scale n2)"
    using lo d(3,4) by (auto simp: k1_def k2_def split: if_splits)
  then have len: "length ds = max (n_len n1) (n_len n2) + 1 + max (n_scale n1) (n_scale n2)" using ap(5) cp(4) by (simp add: ds_def)
  have "le_val ds = le_val low + 10 ^ length low * (le_val p1 + le_val p2)"
    unfolding ds_def ap(6)[symmetric] add.commute[of c] cp(5)[symmetric] by (simp add: le_val_append algebra_simps)
  also have "\<dots> = magnitude n1 * 10 ^ k2 + magnitude n2 * 10 ^ k1"
  proof (cases "n_scale n1 > n_scale n2")
    case True
    then have "low = take k1 r1" "p1 = drop k1 r1" "p2 = r2" "length low = k1" "k2 = 0" using lo d(3) by (auto simp: k1_def k2_def)
    then show ?thesis using magnitude_split(1)[OF assms(1), of k1] magnitude_split(2)[OF assms(2)] True
      by (simp add: r1_def r2_def k1_def algebra_simps)
  next
    case False
    then have "low = take k2 r2" "p2 = drop k2 r2" "p1 = r1" "length low = k2" "k1 = 0" using lo d(4) by (auto simp: k1_def k2_def)
    then show ?thesis using magnitude_split(1)[OF assms(2), of k2] magnitude_split(2)[OF assms(1)] False
      by (simp add: r1_def r2_def k2_def algebra_simps)
  qed
  finally have val: "le_val ds = magnitude n1 * 10 ^ k2 + magnitude n2 * 10 ^ k1" .
  have eq: "bc_do_add n1 n2 smin = bc_rm_leading_zeros \<lparr>n_sign = PLUS, n_len = max (n_len n1) (n_len n2) + 1,
      n_scale = max (max (n_scale n1) (n_scale n2)) smin, n_value = rev ds @ replicate (smin - max (n_scale n1) (n_scale n2)) 0\<rparr>"
    unfolding bc_do_add_def Let_def r1_def[symmetric] r2_def[symmetric] k1_def[symmetric] k2_def[symmetric] lo
    by (simp add: al cl ds_def)
  note b = built_number[of ds "max (n_len n1) (n_len n2) + 1" "max (n_scale n1) (n_scale n2)" smin, folded eq]
  have dd: "digit_list ds" using dl ap cp by (simp add: ds_def)
  show "bc_ok (bc_do_add n1 n2 smin)" "no_leading (bc_do_add n1 n2 smin)" "n_scale (bc_do_add n1 n2 smin) = s" "n_len (bc_do_add n1 n2 smin) \<le> max (n_len n1) (n_len n2) + 1"
    using b[OF dd len] by (simp_all add: s_def)
  have "k2 + (s - max (n_scale n1) (n_scale n2)) = s - n_scale n1" "k1 + (s - max (n_scale n1) (n_scale n2)) = s - n_scale n2"
    by (auto simp: s_def k1_def k2_def)
  then show "magnitude (bc_do_add n1 n2 smin) = aligned s n1 + aligned s n2"
    using b(5)[OF dd len] val by (simp add: aligned_def s_def[symmetric] distrib_right mult.assoc flip: power_add)
qed

lemma bc_do_sub_props:
  fixes smin :: nat
  assumes "bc_ok n1" "bc_ok n2" "n_len n2 \<le> n_len n1" "0 < n_len n1" "scaled n2 n1 \<le> scaled n1 n2"
  defines "s \<equiv> max (max (n_scale n1) (n_scale n2)) smin"
  shows "bc_ok (bc_do_sub n1 n2 smin)" "no_leading (bc_do_sub n1 n2 smin)" "n_scale (bc_do_sub n1 n2 smin) = s"
    "magnitude (bc_do_sub n1 n2 smin) = aligned s n1 - aligned s n2" "n_len (bc_do_sub n1 n2 smin) \<le> n_len n1"
proof -
  define m where "m = min (n_scale n1) (n_scale n2)"
  define k1 k2 where "k1 = n_scale n1 - m" and "k2 = n_scale n2 - m"
  define r1 r2 where "r1 = rev (digits n1)" and "r2 = rev (digits n2)"
  have d: "digit_list r1" "digit_list r2" "length r1 = n_len n1 + n_scale n1" "length r2 = n_len n2 + n_scale n2"
    using bc_ok_digits[OF assms(1)] bc_ok_digits[OF assms(2)] by (simp_all add: r1_def r2_def)
  have k: "k1 = 0 \<or> k2 = 0" "n_scale n1 \<noteq> m \<longleftrightarrow> k1 \<noteq> 0" "n_scale n1 = m + k1" "n_scale n2 = m + k2" by (auto simp: k1_def k2_def m_def)
  obtain low b p1 p2 where lo: "(if n_scale n1 \<noteq> m then (take k1 r1, 0, drop k1 r1, r2)
      else let (low, b) = neg_loop (take k2 r2) 0 in (low, b, r1, drop k2 r2)) = (low, b, p1, p2)" by (metis prod_cases4)
  have low: "digit_list low \<and> 0 \<le> b \<and> b \<le> 1 \<and> length low = k1 + k2 \<and> p1 = drop k1 r1 \<and> p2 = drop k2 r2
    \<and> le_val low - 10 ^ length low * b = le_val (take k1 r1) - le_val (take k2 r2)"
  proof (cases "k1 = 0")
    case True
    then have "neg_loop (take k2 r2) 0 = (low, b)" "p1 = r1" "p2 = drop k2 r2" using lo k(2) by (auto simp: Let_def split: prod.splits)
    then show ?thesis using True neg_loop_props[of "take k2 r2" 0 low b] d(2,4) k(4) by auto
  next
    case False
    then show ?thesis using lo k d by auto
  qed
  have lp: "length p1 = n_len n1 + m" "length p2 = n_len n2 + m" using low d(3,4) k(3,4) by auto
  obtain mid b1 rest where sl: "sub_loop (n_len n2 + m) p1 p2 b = (mid, b1, rest)" by (metis prod_cases3)
  have sp: "digit_list mid" "digit_list rest" "0 \<le> b1" "b1 \<le> 1" "length mid = n_len n2 + m" "length rest = n_len n1 - n_len n2"
      "le_val mid + 10 ^ length mid * (le_val rest - b1) = le_val p1 - le_val p2 - b"
    using sub_loop_props[OF sl] lp low d assms(3) by auto
  obtain high b2 where bl: "(if n_len n1 \<noteq> n_len n2 then borrow_loop (n_len n1 - n_len n2) rest b1 else ([], b1)) = (high, b2)" by fastforce
  have "digit_list high \<and> 0 \<le> b2 \<and> b2 \<le> 1 \<and> length high = n_len n1 - n_len n2 \<and> le_val high - 10 ^ length high * b2 = le_val rest - b1"
  proof (cases "n_len n1 = n_len n2")
    case True
    then have "high = []" "b2 = b1" "rest = []" using bl sp(6) by simp_all
    then show ?thesis using sp(3,4) True by simp
  next
    case False
    then have "borrow_loop (n_len n1 - n_len n2) rest b1 = (high, b2)" using bl by simp
    then show ?thesis using sp(2-4) by (rule borrow_loop_props[OF _ sp(6)[symmetric]])
  qed
  then have bp: "digit_list high" "0 \<le> b2" "b2 \<le> 1" "length high = n_len n1 - n_len n2" "le_val high - 10 ^ length high * b2 = le_val rest - b1"
    by blast+
  define ds where "ds = low @ mid @ high"
  have len: "length ds = n_len n1 + max (n_scale n1) (n_scale n2)" using low sp(5) bp(4) assms(3) k by (auto simp: ds_def max_def)
  have dd: "digit_list ds" using low sp bp by (simp add: ds_def)
  have mag: "magnitude n1 * 10 ^ k2 = le_val (take k1 r1) + 10 ^ (k1 + k2) * le_val p1" "magnitude n2 * 10 ^ k1 = le_val (take k2 r2) + 10 ^ (k1 + k2) * le_val p2"
  proof -
    have "magnitude n1 = le_val (take k1 r1) + 10 ^ k1 * le_val p1" "magnitude n2 = le_val (take k2 r2) + 10 ^ k2 * le_val p2"
      using magnitude_split(1)[OF assms(1), of k1] magnitude_split(1)[OF assms(2), of k2] low k(3,4) by (simp_all add: r1_def r2_def)
    then have "magnitude n1 * 10 ^ k2 = le_val (take k1 r1) * 10 ^ k2 + 10 ^ (k1 + k2) * le_val p1"
        "magnitude n2 * 10 ^ k1 = le_val (take k2 r2) * 10 ^ k1 + 10 ^ (k1 + k2) * le_val p2"
      by (simp_all add: distrib_right power_add)
    moreover have "le_val (take k1 r1) * 10 ^ k2 = le_val (take k1 r1)" "le_val (take k2 r2) * 10 ^ k1 = le_val (take k2 r2)"
      using k(1) by (cases "k1 = 0"; simp)+
    ultimately show "magnitude n1 * 10 ^ k2 = le_val (take k1 r1) + 10 ^ (k1 + k2) * le_val p1"
        "magnitude n2 * 10 ^ k1 = le_val (take k2 r2) + 10 ^ (k1 + k2) * le_val p2"
      by simp_all
  qed
  have "le_val ds - 10 ^ length ds * b2 = le_val low + 10 ^ length low * (le_val mid + 10 ^ length mid * (le_val high - 10 ^ length high * b2))"
    by (simp add: ds_def le_val_append power_add algebra_simps)
  also have "\<dots> = le_val low - 10 ^ length low * b + 10 ^ length low * (le_val p1 - le_val p2)"
    unfolding bp(5) sp(7) by (simp add: algebra_simps)
  also have "\<dots> = magnitude n1 * 10 ^ k2 - magnitude n2 * 10 ^ k1"
    using low mag by (auto simp: algebra_simps)
  finally have v: "le_val ds - 10 ^ length ds * b2 = magnitude n1 * 10 ^ k2 - magnitude n2 * 10 ^ k1" .
  have "magnitude n2 * 10 ^ k1 * 10 ^ m \<le> magnitude n1 * 10 ^ k2 * 10 ^ m"
    using assms(5) k(3,4) by (simp add: scaled_def power_add mult_ac)
  then have "0 \<le> magnitude n1 * 10 ^ k2 - magnitude n2 * 10 ^ k1" by simp
  moreover have "le_val ds < 10 ^ length ds" using le_val_bounds[OF dd] by simp
  moreover have "b2 = 0 \<or> b2 = 1" using bp(2,3) by linarith
  ultimately have "b2 = 0" using v by auto
  then have val: "le_val ds = magnitude n1 * 10 ^ k2 - magnitude n2 * 10 ^ k1" using v by simp
  have mm: "max (n_len n1) (n_len n2) = n_len n1" "min (n_len n1) (n_len n2) = n_len n2" using assms(3) by simp_all
  have eq: "bc_do_sub n1 n2 smin = bc_rm_leading_zeros \<lparr>n_sign = PLUS, n_len = n_len n1,
      n_scale = max (max (n_scale n1) (n_scale n2)) smin, n_value = rev ds @ replicate (smin - max (n_scale n1) (n_scale n2)) 0\<rparr>"
    unfolding bc_do_sub_def Let_def m_def[symmetric] mm r1_def[symmetric] r2_def[symmetric] k1_def[symmetric] k2_def[symmetric]
      lo[unfolded Let_def] prod.case sl bl by (simp add: ds_def)
  note bn = built_number[of ds "n_len n1" "max (n_scale n1) (n_scale n2)" smin, folded eq, OF dd len assms(4)]
  show "bc_ok (bc_do_sub n1 n2 smin)" "no_leading (bc_do_sub n1 n2 smin)" "n_scale (bc_do_sub n1 n2 smin) = s" "n_len (bc_do_sub n1 n2 smin) \<le> n_len n1"
    using bn by (simp_all add: s_def)
  have "k2 + (s - max (n_scale n1) (n_scale n2)) = s - n_scale n1" "k1 + (s - max (n_scale n1) (n_scale n2)) = s - n_scale n2"
    by (auto simp: s_def k1_def k2_def m_def)
  then show "magnitude (bc_do_sub n1 n2 smin) = aligned s n1 - aligned s n2"
    using bn(5) val by (simp add: aligned_def s_def[symmetric] left_diff_distrib mult.assoc flip: power_add)
qed

section \<open>Values\<close>

lemma bc_val_aligned:
  assumes "n_scale n \<le> s"
  shows "bc_val n = of_int (sign_val (n_sign n) * aligned s n) / 10 ^ s"
proof -
  have "(10 :: rat) ^ s = 10 ^ n_scale n * 10 ^ (s - n_scale n)" using assms by (simp flip: power_add)
  then show ?thesis by (simp add: bc_val_def aligned_def)
qed

lemma scaled_aligned: "n_scale n1 \<le> s \<Longrightarrow> n_scale n2 \<le> s \<Longrightarrow> scaled n1 n2 \<le> scaled n2 n1 \<longleftrightarrow> aligned s n1 \<le> aligned s n2"
proof -
  assume a: "n_scale n1 \<le> s" "n_scale n2 \<le> s"
  have e: "aligned s n1 * 10 ^ (n_scale n1 + n_scale n2) = scaled n1 n2 * 10 ^ s" "aligned s n2 * 10 ^ (n_scale n1 + n_scale n2) = scaled n2 n1 * 10 ^ s"
    using a by (simp_all add: aligned_def scaled_def mult.assoc flip: power_add)
  have "scaled n1 n2 \<le> scaled n2 n1 \<longleftrightarrow> scaled n1 n2 * 10 ^ s \<le> scaled n2 n1 * 10 ^ s" by simp
  also have "\<dots> \<longleftrightarrow> aligned s n1 \<le> aligned s n2" unfolding e[symmetric] by simp
  finally show ?thesis .
qed

lemma sign_val_simps [simp]: "sign_val PLUS = 1" "sign_val MINUS = - 1" "sign_val s * sign_val s = 1" "(sign_val s = 0) = False"
  by (auto simp: sign_val_def)

lemma bc_val_zero_iff: "bc_val n = 0 \<longleftrightarrow> magnitude n = 0"
  by (simp add: bc_val_def)

lemma bc_normal_parts: "bc_normal n \<Longrightarrow> bc_ok n \<and> no_leading n \<and> 0 < n_len n"
  by (simp add: bc_normal_def no_leading_def)

lemma new_num_zero: "bc_normal (bc_new_num 1 s) \<and> bc_val (bc_new_num 1 s) = 0"
  by (simp add: bc_normal_def bc_ok_def bc_new_num_def no_leading_def bc_val_def magnitude_def digits_def be_val_simps flip: replicate_Suc)

text \<open>
  What the comparison of magnitudes tells, also for the empty integers that the multiplication
  compares: the number it calls greater is not less and not shorter.
\<close>

lemma compare_lead_ok:
  assumes "bc_ok n1" "bc_ok n2" "lead_ok n1" "lead_ok n2"
  shows "bc_do_compare n1 n2 False False = 0 \<Longrightarrow> scaled n1 n2 = scaled n2 n1"
    "bc_do_compare n1 n2 False False = 1 \<Longrightarrow> scaled n2 n1 \<le> scaled n1 n2 \<and> n_len n2 \<le> n_len n1 \<and> 0 < n_len n1"
    "bc_do_compare n1 n2 False False = - 1 \<Longrightarrow> scaled n1 n2 \<le> scaled n2 n1 \<and> n_len n1 \<le> n_len n2 \<and> 0 < n_len n2"
    "bc_do_compare n1 n2 False False \<in> {- 1, 0, 1}"
proof -
  have empty: "n_len n = 0 \<Longrightarrow> lead_ok n \<Longrightarrow> bc_ok n \<Longrightarrow> magnitude n = 0" for n
    by (auto simp: lead_ok_def no_leading_def magnitude_def digits_def be_val_simps)
  have "bc_do_compare n1 n2 False False \<in> {- 1, 0, 1}
      \<and> (bc_do_compare n1 n2 False False = 0 \<longrightarrow> scaled n1 n2 = scaled n2 n1)
      \<and> (bc_do_compare n1 n2 False False = 1 \<longrightarrow> scaled n2 n1 \<le> scaled n1 n2 \<and> n_len n2 \<le> n_len n1 \<and> 0 < n_len n1)
      \<and> (bc_do_compare n1 n2 False False = - 1 \<longrightarrow> scaled n1 n2 \<le> scaled n2 n1 \<and> n_len n1 \<le> n_len n2 \<and> 0 < n_len n2)"
  proof (cases "n_len n1 = n_len n2")
    case True
    then have "n_len n1 = 0 \<Longrightarrow> scaled n1 n2 = 0 \<and> scaled n2 n1 = 0" using empty assms by (simp add: scaled_def)
    then show ?thesis using compare_same_length[OF assms(1,2) True] True by (cases "n_len n2 = 0") (auto simp: sgn_if split: if_splits)
  next
    case False
    have c: "bc_do_compare n1 n2 False False = (if n_len n1 > n_len n2 then 1 else - 1)" using False by (simp add: bc_do_compare_def Let_def)
    have z: "0 \<le> scaled n1 n2" "0 \<le> scaled n2 n1" using magnitude_bounds[OF assms(1)] magnitude_bounds[OF assms(2)] by (simp_all add: scaled_def)
    have "n_len n1 > n_len n2 \<Longrightarrow> scaled n2 n1 \<le> scaled n1 n2"
      using longer_is_greater[OF assms(1,2)] empty[OF _ assms(4,2)] assms(3) z by (cases "n_len n2 = 0") (auto simp: lead_ok_def scaled_def)
    moreover have "n_len n2 > n_len n1 \<Longrightarrow> scaled n1 n2 \<le> scaled n2 n1"
      using longer_is_greater[OF assms(2,1)] empty[OF _ assms(3,1)] assms(4) z by (cases "n_len n1 = 0") (auto simp: lead_ok_def scaled_def)
    ultimately show ?thesis using c False by auto
  qed
  then show "bc_do_compare n1 n2 False False = 0 \<Longrightarrow> scaled n1 n2 = scaled n2 n1"
    "bc_do_compare n1 n2 False False = 1 \<Longrightarrow> scaled n2 n1 \<le> scaled n1 n2 \<and> n_len n2 \<le> n_len n1 \<and> 0 < n_len n1"
    "bc_do_compare n1 n2 False False = - 1 \<Longrightarrow> scaled n1 n2 \<le> scaled n2 n1 \<and> n_len n1 \<le> n_len n2 \<and> 0 < n_len n2"
    "bc_do_compare n1 n2 False False \<in> {- 1, 0, 1}" by blast+
qed

text \<open>A signed sum or difference, as an integer at the scale of the result.\<close>

definition signed :: "nat \<Rightarrow> bc_num \<Rightarrow> int" where
  "signed s n = sign_val (n_sign n) * aligned s n"

lemma signed_self: "signed (n_scale n) n = sign_val (n_sign n) * magnitude n"
  by (simp add: signed_def aligned_def)

lemma bc_val_signed: "n_scale n \<le> s \<Longrightarrow> bc_val n = of_int (signed s n) / 10 ^ s"
  by (simp add: bc_val_aligned signed_def)

lemma sign_neq: "a \<noteq> b \<longleftrightarrow> sign_val a = - sign_val b"
  by (cases a; cases b) simp_all

definition result_ok :: "bc_num \<Rightarrow> nat \<Rightarrow> int \<Rightarrow> bool" where
  "result_ok r s v \<longleftrightarrow> bc_ok r \<and> no_leading r \<and> n_scale r = s \<and> sign_val (n_sign r) * magnitude r = v"

lemma result_ok_sign:
  assumes "bc_ok r" "no_leading r" "n_scale r = s"
  shows "result_ok (r\<lparr>n_sign := g\<rparr>) s (sign_val g * magnitude r)"
  using assms by (simp add: result_ok_def bc_ok_def no_leading_def magnitude_def digits_def)

lemma result_ok_zero: "result_ok (bc_new_num 1 s) s 0"
  using new_num_zero[of s] by (simp add: result_ok_def bc_normal_def bc_new_num_def bc_val_def)

lemma bc_sub_result:
  fixes smin :: nat
  assumes "bc_ok n1" "bc_ok n2" "lead_ok n1" "lead_ok n2"
  defines "s \<equiv> max (max (n_scale n1) (n_scale n2)) smin"
  shows "result_ok (bc_sub n1 n2 smin) s (signed s n1 - signed s n2)"
proof (cases "n_sign n1 = n_sign n2")
  case False
  note a = bc_do_add_props[OF assms(1,2), of smin, folded s_def]
  have "sign_val (n_sign n1) * magnitude (bc_do_add n1 n2 smin) = signed s n1 - signed s n2"
    using False a(4) by (simp add: signed_def sign_neq distrib_left)
  then show ?thesis using False result_ok_sign[OF a(1-3), of "n_sign n1"] by (simp add: bc_sub_def)
next
  case True
  note c = compare_lead_ok[OF assms(1-4)]
  have sc: "n_scale n1 \<le> s" "n_scale n2 \<le> s" by (simp_all add: s_def)
  consider (less) "bc_do_compare n1 n2 False False = - 1" | (eq) "bc_do_compare n1 n2 False False = 0" | (greater) "bc_do_compare n1 n2 False False = 1"
    using c(4) by blast
  then show ?thesis
  proof cases
    case less
    have "max (max (n_scale n2) (n_scale n1)) smin = s" by (simp add: s_def max.commute)
    note d = bc_do_sub_props[OF assms(2,1), of smin, unfolded this]
    have v: "bc_ok (bc_do_sub n2 n1 smin)" "no_leading (bc_do_sub n2 n1 smin)" "n_scale (bc_do_sub n2 n1 smin) = s"
        "magnitude (bc_do_sub n2 n1 smin) = aligned s n2 - aligned s n1" using d c(3)[OF less] by auto
    define g where "g = (if n_sign n2 = PLUS then MINUS else PLUS)"
    have g: "sign_val g = - sign_val (n_sign n2)" by (simp add: g_def sign_val_def)
    have "sign_val g * magnitude (bc_do_sub n2 n1 smin) = signed s n1 - signed s n2"
      unfolding v(4) g signed_def True by (simp add: algebra_simps)
    then show ?thesis using True less result_ok_sign[OF v(1-3), of g] by (simp add: bc_sub_def g_def)
  next
    case eq
    then have "aligned s n1 = aligned s n2" using c(1) scaled_aligned[OF sc] scaled_aligned[OF sc(2,1)] by (metis order.antisym order.refl)
    then show ?thesis using True eq result_ok_zero[of s] by (simp add: bc_sub_def signed_def s_def max.commute)
  next
    case greater
    note d = bc_do_sub_props[OF assms(1,2), of smin, folded s_def]
    have v: "bc_ok (bc_do_sub n1 n2 smin)" "no_leading (bc_do_sub n1 n2 smin)" "n_scale (bc_do_sub n1 n2 smin) = s"
        "magnitude (bc_do_sub n1 n2 smin) = aligned s n1 - aligned s n2" using d c(2)[OF greater] by auto
    have "sign_val (n_sign n1) * magnitude (bc_do_sub n1 n2 smin) = signed s n1 - signed s n2"
      unfolding v(4) signed_def True by (simp add: algebra_simps)
    then show ?thesis using True greater result_ok_sign[OF v(1-3), of "n_sign n1"] by (simp add: bc_sub_def)
  qed
qed

text \<open>Addition is subtraction of the number with the other sign.\<close>

definition flip_sign :: "bc_num \<Rightarrow> bc_num" where
  "flip_sign n = n\<lparr>n_sign := (if n_sign n = PLUS then MINUS else PLUS)\<rparr>"

lemma flip_sign_props:
  "bc_ok (flip_sign n) = bc_ok n" "lead_ok (flip_sign n) = lead_ok n" "n_scale (flip_sign n) = n_scale n" "signed s (flip_sign n) = - signed s n"
  by (simp_all add: flip_sign_def bc_ok_def lead_ok_def no_leading_def signed_def aligned_def magnitude_def digits_def sign_val_def)

lemma bc_add_sub: "bc_add n1 n2 smin = bc_sub n1 (flip_sign n2) smin"
proof -
  have d: "digits (flip_sign n2) = digits n2" "n_len (flip_sign n2) = n_len n2" "n_scale (flip_sign n2) = n_scale n2" "n_value (flip_sign n2) = n_value n2"
    by (simp_all add: flip_sign_def digits_def)
  have "bc_do_add n1 (flip_sign n2) smin = bc_do_add n1 n2 smin" "bc_do_sub n1 (flip_sign n2) smin = bc_do_sub n1 n2 smin"
      "bc_do_sub (flip_sign n2) n1 smin = bc_do_sub n2 n1 smin"
    unfolding bc_do_add_def bc_do_sub_def d by simp_all
  moreover have "bc_do_compare n1 (flip_sign n2) False False = bc_do_compare n1 n2 False False"
    unfolding bc_do_compare_def d by simp
  moreover have "n_sign n1 \<noteq> n_sign (flip_sign n2) \<longleftrightarrow> n_sign n1 = n_sign n2" "(if n_sign (flip_sign n2) = PLUS then MINUS else PLUS) = n_sign n2"
    by (cases "n_sign n1"; cases "n_sign n2"; simp add: flip_sign_def)+
  ultimately show ?thesis unfolding bc_add_def bc_sub_def Let_def by (simp add: flip_sign_props)
qed

lemma bc_add_result:
  assumes "bc_ok n1" "bc_ok n2" "lead_ok n1" "lead_ok n2"
  shows "result_ok (bc_add n1 n2 smin) (max (max (n_scale n1) (n_scale n2)) smin)
    (signed (max (max (n_scale n1) (n_scale n2)) smin) n1 + signed (max (max (n_scale n1) (n_scale n2)) smin) n2)"
  using bc_sub_result[of n1 "flip_sign n2" smin] assms by (simp add: bc_add_sub flip_sign_props)

text \<open>Normal operands have normal results.\<close>

lemma signed_zero_sign: "bc_normal n \<Longrightarrow> n_sign n = MINUS \<Longrightarrow> signed s n < 0"
  using magnitude_bounds[of n] by (auto simp: bc_normal_def signed_def aligned_def)

lemma signed_nonneg: "bc_ok n \<Longrightarrow> n_sign n = PLUS \<Longrightarrow> 0 \<le> signed s n"
  using magnitude_bounds[of n] by (simp add: signed_def aligned_def)

lemma result_val: "result_ok r s v \<Longrightarrow> bc_val r = of_int v / 10 ^ s"
  by (auto simp: result_ok_def bc_val_def)

lemma no_leading_lead_ok: "no_leading n \<Longrightarrow> lead_ok n"
  by (simp add: lead_ok_def)

lemma bc_sub_normal:
  assumes "bc_normal n1" "bc_ok n2" "no_leading n2"
  shows "bc_normal (bc_sub n1 n2 smin)"
proof -
  define s where "s = max (max (n_scale n1) (n_scale n2)) smin"
  have ok: "bc_ok n1" "no_leading n1" "lead_ok n1" "lead_ok n2" using assms no_leading_lead_ok by (auto simp: bc_normal_def)
  note r = bc_sub_result[OF ok(1) assms(2) ok(3,4), of smin, folded s_def]
  have "signed s n1 - signed s n2 \<noteq> 0" if m: "n_sign (bc_sub n1 n2 smin) = MINUS"
  proof (cases "n_sign n1 = n_sign n2")
    case False
    then have "n_sign n1 = MINUS" "n_sign n2 = PLUS" using m by (cases "n_sign n2"; simp add: bc_sub_def)+
    then show ?thesis using signed_zero_sign[OF assms(1), of s] signed_nonneg[OF assms(2), of s] by simp
  next
    case True
    then have "bc_do_compare n1 n2 False False \<noteq> 0" using m by (auto simp: bc_sub_def bc_new_num_def)
    then have "scaled n1 n2 \<noteq> scaled n2 n1" using compare_magnitudes[OF ok(1) assms(2) ok(2) assms(3)] by auto
    moreover have "n_scale n1 \<le> s" "n_scale n2 \<le> s" by (simp_all add: s_def)
    ultimately have "aligned s n1 \<noteq> aligned s n2" using scaled_aligned[of n1 s n2] scaled_aligned[of n2 s n1] by auto
    then show ?thesis using True by (simp add: signed_def)
  qed
  then show ?thesis using r by (auto simp: bc_normal_def result_ok_def)
qed

lemma bc_sub_exact:
  assumes "bc_normal n1" "bc_normal n2"
  shows "bc_normal (bc_sub n1 n2 smin)" "bc_val (bc_sub n1 n2 smin) = bc_val n1 - bc_val n2" "n_scale (bc_sub n1 n2 smin) = max (max (n_scale n1) (n_scale n2)) smin"
proof -
  define s where "s = max (max (n_scale n1) (n_scale n2)) smin"
  have ok: "bc_ok n1" "bc_ok n2" "lead_ok n1" "lead_ok n2" "no_leading n2" using assms no_leading_lead_ok by (auto simp: bc_normal_def)
  have sc: "n_scale n1 \<le> s" "n_scale n2 \<le> s" by (simp_all add: s_def)
  have d: "result_ok (bc_sub n1 n2 smin) s (signed s n1 - signed s n2)" using bc_sub_result[OF ok(1-4)] by (simp add: s_def)
  show "bc_normal (bc_sub n1 n2 smin)" using bc_sub_normal[OF assms(1) ok(2,5)] .
  show "bc_val (bc_sub n1 n2 smin) = bc_val n1 - bc_val n2"
    unfolding result_val[OF d] bc_val_signed[OF sc(1)] bc_val_signed[OF sc(2)] by (simp add: diff_divide_distrib)
  show "n_scale (bc_sub n1 n2 smin) = max (max (n_scale n1) (n_scale n2)) smin" using d by (simp add: result_ok_def s_def)
qed

lemma bc_add_exact:
  assumes "bc_normal n1" "bc_normal n2"
  shows "bc_normal (bc_add n1 n2 smin)" "bc_val (bc_add n1 n2 smin) = bc_val n1 + bc_val n2" "n_scale (bc_add n1 n2 smin) = max (max (n_scale n1) (n_scale n2)) smin"
proof -
  define s where "s = max (max (n_scale n1) (n_scale n2)) smin"
  have ok: "bc_ok n1" "bc_ok n2" "lead_ok n1" "lead_ok n2" "no_leading n2" using assms no_leading_lead_ok by (auto simp: bc_normal_def)
  have sc: "n_scale n1 \<le> s" "n_scale n2 \<le> s" by (simp_all add: s_def)
  have a: "result_ok (bc_add n1 n2 smin) s (signed s n1 + signed s n2)" using bc_add_result[OF ok(1-4)] by (simp add: s_def)
  show "bc_normal (bc_add n1 n2 smin)" unfolding bc_add_sub
    using bc_sub_normal[OF assms(1), of "flip_sign n2"] ok by (simp add: flip_sign_props) (simp add: flip_sign_def no_leading_def)
  show "bc_val (bc_add n1 n2 smin) = bc_val n1 + bc_val n2"
    unfolding result_val[OF a] bc_val_signed[OF sc(1)] bc_val_signed[OF sc(2)] by (simp add: add_divide_distrib)
  show "n_scale (bc_add n1 n2 smin) = max (max (n_scale n1) (n_scale n2)) smin" using a by (simp add: result_ok_def s_def)
qed


definition sample_num :: "sign \<Rightarrow> int list \<Rightarrow> nat \<Rightarrow> bc_num" where
  "sample_num g ds sc = \<lparr>n_sign = g, n_len = length ds - sc, n_scale = sc, n_value = ds\<rparr>"


text \<open>\<open>bc_compare\<close> orders normal numbers by their value.\<close>

lemma bc_compare_sgn:
  assumes "bc_normal n1" "bc_normal n2"
  shows "of_int (bc_compare n1 n2) = sgn (bc_val n1 - bc_val n2)"
proof -
  define s where "s = n_scale n1 + n_scale n2"
  have sc: "n_scale n1 \<le> s" "n_scale n2 \<le> s" by (simp_all add: s_def)
  have ok: "bc_ok n1" "bc_ok n2" "no_leading n1" "no_leading n2" using assms by (simp_all add: bc_normal_def)
  have al: "aligned s n1 = scaled n1 n2" "aligned s n2 = scaled n2 n1" by (simp_all add: aligned_def scaled_def s_def)
  have "bc_val n1 - bc_val n2 = of_int (signed s n1 - signed s n2) / 10 ^ s"
    unfolding bc_val_signed[OF sc(1)] bc_val_signed[OF sc(2)] by (simp add: diff_divide_distrib)
  then have sg: "sgn (bc_val n1 - bc_val n2) = of_int (sgn (signed s n1 - signed s n2))" by (simp add: sgn_if zero_less_divide_iff)
  show ?thesis
  proof (cases "n_sign n1 = n_sign n2")
    case True
    have "bc_compare n1 n2 = sign_val (n_sign n1) * bc_do_compare n1 n2 False False"
      using True by (simp add: bc_compare_def bc_do_compare_def Let_def sign_val_def split_beta)
    also have "\<dots> = sgn (sign_val (n_sign n1) * (scaled n1 n2 - scaled n2 n1))"
      unfolding compare_magnitudes[OF ok] sgn_mult by (simp add: sign_val_def)
    also have "\<dots> = sgn (signed s n1 - signed s n2)" using True al by (simp add: signed_def algebra_simps)
    finally show ?thesis using sg by simp
  next
    case False
    then consider "n_sign n1 = PLUS" "n_sign n2 = MINUS" | "n_sign n1 = MINUS" "n_sign n2 = PLUS" by (cases "n_sign n1"; cases "n_sign n2") auto
    then show ?thesis
      using sg signed_zero_sign[OF assms(1), of s] signed_zero_sign[OF assms(2), of s] signed_nonneg[OF ok(1), of s] signed_nonneg[OF ok(2), of s]
      by cases (simp_all add: bc_compare_def bc_do_compare_def)
  qed
qed

end
