(* ===== verification/BcMul.thy ===== *)
theory BcMul
  imports BcAddSub
begin

text \<open>
  Multiplication (recmul.c): the schoolbook product by columns, and the divide and conquer
  product that adds shifted partial products into an accumulator. A step that would leave the
  accumulator is the result \<open>None\<close>.
\<close>

section \<open>The code\<close>

definition mul_base_digits :: nat where "mul_base_digits = 80"

definition MUL_SMALL_DIGITS :: nat where "MUL_SMALL_DIGITS = mul_base_digits div 4"

definition new_sub_num :: "nat \<Rightarrow> nat \<Rightarrow> int list \<Rightarrow> bc_num" where
  "new_sub_num len scale value = \<lparr>n_sign = PLUS, n_len = len, n_scale = scale, n_value = value\<rparr>"

text \<open>
  The sum of one column, with the lower digits first: \<open>i\<close> is the place in the first factor and
  the third argument one more than the place in the second.
\<close>

fun simp_inner :: "int list \<Rightarrow> int list \<Rightarrow> nat \<Rightarrow> nat \<Rightarrow> int \<Rightarrow> int" where
  "simp_inner a b i 0 tot = tot"
| "simp_inner a b i (Suc j) tot = (if i < length a then simp_inner a b (i + 1) j (tot + a ! i * b ! j) else tot)"

fun simp_columns :: "int list \<Rightarrow> int list \<Rightarrow> nat \<Rightarrow> nat \<Rightarrow> int \<Rightarrow> int list \<times> int" where
  "simp_columns a b indx 0 tot = ([], tot)"
| "simp_columns a b indx (Suc n) tot =
     (let tot = simp_inner a b (indx + 1 - length b) (min (indx + 1) (length b)) tot;
          (ds, last) = simp_columns a b (indx + 1) n (tot div 10)
      in (tot mod 10 # ds, last))"

definition bc_simp_mul :: "bc_num \<Rightarrow> nat \<Rightarrow> bc_num \<Rightarrow> nat \<Rightarrow> bc_num" where
  "bc_simp_mul n1 n1len n2 n2len =
     (let prodlen = n1len + n2len + 1;
          (ds, tot) = simp_columns (rev (take n1len (n_value n1))) (rev (take n2len (n_value n2))) 0 (prodlen - 1) 0
      in (bc_new_num prodlen 0)\<lparr>n_value := rev (ds @ [tot])\<rparr>)"

text \<open>Adding to or subtracting from the digits of the accumulator, lower digits first.\<close>

fun shift_loop :: "bool \<Rightarrow> int list \<Rightarrow> int list \<Rightarrow> int \<Rightarrow> int list option" where
  "shift_loop sub (x # xs) (y # ys) carry =
     (let (d, c) = (if sub then sub_digit (x - (y + carry)) else add_digit (x + (y + carry)))
      in map_option ((#) d) (shift_loop sub xs ys c))"
| "shift_loop sub [] (y # ys) carry = None"
| "shift_loop sub xs [] carry =
     (if carry = 0 then Some xs
      else case xs of [] \<Rightarrow> None
        | x # xs' \<Rightarrow>
            (let (d, c) = (if sub then sub_digit (x - carry) else add_digit (x + carry))
             in map_option ((#) d) (shift_loop sub xs' [] c)))"

definition bc_shift_addsub :: "bc_num \<Rightarrow> bc_num \<Rightarrow> nat \<Rightarrow> bool \<Rightarrow> bc_num option" where
  "bc_shift_addsub accum val shift sub =
     (let count = n_len val - (if hd (n_value val) = 0 then 1 else 0);
          acc = rev (take (n_len accum + n_scale accum) (n_value accum));
          vs = take count (rev (take (n_len val) (n_value val)))
      in if shift \<le> length acc then map_option (\<lambda>ds. accum\<lparr>n_value := rev (take shift acc @ ds)\<rparr>) (shift_loop sub (drop shift acc) vs 0)
         else None)"

text \<open>The two halves of a factor.\<close>

definition split_num :: "bc_num \<Rightarrow> nat \<Rightarrow> nat \<Rightarrow> bc_num \<times> bc_num" where
  "split_num u ulen n =
     (let (u1, u0) =
        (if ulen < n then (BC_zero, new_sub_num ulen 0 (n_value u))
         else (new_sub_num (ulen - n) 0 (n_value u), new_sub_num n 0 (drop (ulen - n) (n_value u))))
      in (bc_rm_leading_zeros u1, bc_rm_leading_zeros u0))"

text \<open>The end of the product: the partial products go into the accumulator.\<close>

definition combine :: "nat \<Rightarrow> nat \<Rightarrow> bc_num option \<Rightarrow> bc_num \<Rightarrow> bc_num \<Rightarrow> bool \<Rightarrow> bc_num option" where
  "combine prodlen n m1 m2 m3 sub =
     Option.bind
       (case m1 of None \<Rightarrow> Some (bc_new_num prodlen 0)
        | Some m \<Rightarrow> Option.bind (bc_shift_addsub (bc_new_num prodlen 0) m (2 * n) False) (\<lambda>p. bc_shift_addsub p m n False))
       (\<lambda>p. Option.bind (bc_shift_addsub p m3 n False)
       (\<lambda>p. Option.bind (bc_shift_addsub p m3 0 False)
       (\<lambda>p. bc_shift_addsub p m2 n sub)))"

lemma rm_zeros_len: "rm_zeros len ds = (len', ds') \<Longrightarrow> len' \<le> len"
  by (induction len ds rule: rm_zeros.induct) (force split: if_splits)+

lemma rm_leading_len: "n_len (bc_rm_leading_zeros n) \<le> n_len n"
  using rm_zeros_len[of "n_len n" "n_value n"] by (auto simp: bc_rm_leading_zeros_def split: prod.splits)

lemma rm_leading_sign [simp]: "n_sign (bc_rm_leading_zeros n) = n_sign n" "n_scale (bc_rm_leading_zeros n) = n_scale n"
  by (simp_all add: bc_rm_leading_zeros_def split: prod.splits)

lemma do_sub_len: "n_len (bc_do_sub n1 n2 s) \<le> max (n_len n1) (n_len n2)"
  unfolding bc_do_sub_def Let_def by (auto split: prod.splits intro!: order_trans[OF rm_leading_len])

lemma bc_sub_len: "n_sign n1 = n_sign n2 \<Longrightarrow> n_len (bc_sub n1 n2 s) \<le> max 1 (max (n_len n1) (n_len n2))"
  using do_sub_len[of n1 n2 s] do_sub_len[of n2 n1 s] by (auto simp: bc_sub_def Let_def bc_new_num_def)

lemma split_num_props:
  assumes "split_num u ulen n = (u1, u0)"
  shows "n_sign u1 = PLUS" "n_sign u0 = PLUS" "n_len u0 \<le> min n ulen" "n_len u1 \<le> (if ulen < n then 1 else ulen - n)"
proof -
  have "u1 = bc_rm_leading_zeros (if ulen < n then BC_zero else new_sub_num (ulen - n) 0 (n_value u))"
      "u0 = bc_rm_leading_zeros (if ulen < n then new_sub_num ulen 0 (n_value u) else new_sub_num n 0 (drop (ulen - n) (n_value u)))"
    using assms by (auto simp: split_num_def)
  then show "n_sign u1 = PLUS" "n_sign u0 = PLUS" "n_len u0 \<le> min n ulen" "n_len u1 \<le> (if ulen < n then 1 else ulen - n)"
    using rm_leading_len[of "if ulen < n then BC_zero else new_sub_num (ulen - n) 0 (n_value u)"]
      rm_leading_len[of "if ulen < n then new_sub_num ulen 0 (n_value u) else new_sub_num n 0 (drop (ulen - n) (n_value u))"]
    by (simp_all add: new_sub_num_def BC_zero_def bc_new_num_def split: if_splits)
qed

lemma rec_mul_sizes:
  assumes "\<not> (ulen + vlen < mul_base_digits \<or> ulen < MUL_SMALL_DIGITS \<or> vlen < MUL_SMALL_DIGITS)" "n = (max ulen vlen + 1) div 2"
    "split_num u ulen n = (u1, u0)" "split_num v vlen n = (v1, v0)"
  shows "n_len u1 + n_len v1 < ulen + vlen" "n_len u0 + n_len v0 < ulen + vlen" "n_len (bc_sub u1 u0 0) \<le> min n ulen" "n_len (bc_sub v0 v1 0) \<le> min n vlen"
    "n_len (bc_sub u1 u0 0) + n_len (bc_sub v0 v1 0) < ulen + vlen"
proof -
  have b: "20 \<le> ulen" "20 \<le> vlen" using assms(1) by (auto simp: MUL_SMALL_DIGITS_def mul_base_digits_def)
  have n: "max ulen vlen \<le> 2 * n" "2 * n \<le> max ulen vlen + 1" "ulen \<le> 2 * n" "vlen \<le> 2 * n" using assms(2) by auto
  note u = split_num_props[OF assms(3)] and v = split_num_props[OF assms(4)]
  have s: "n_len (bc_sub u1 u0 0) \<le> max 1 (max (n_len u1) (n_len u0))" "n_len (bc_sub v0 v1 0) \<le> max 1 (max (n_len v0) (n_len v1))"
    using bc_sub_len[of u1 u0 0] bc_sub_len[of v0 v1 0] u(1,2) v(1,2) by simp_all
  show "n_len u1 + n_len v1 < ulen + vlen" "n_len u0 + n_len v0 < ulen + vlen"
    using u(3,4) v(3,4) b n by (auto split: if_splits)
  show d: "n_len (bc_sub u1 u0 0) \<le> min n ulen" "n_len (bc_sub v0 v1 0) \<le> min n vlen"
    using s u(3,4) v(3,4) b n by (auto split: if_splits)
  show "n_len (bc_sub u1 u0 0) + n_len (bc_sub v0 v1 0) < ulen + vlen" using d b n by linarith
qed

function bc_rec_mul :: "bc_num \<Rightarrow> nat \<Rightarrow> bc_num \<Rightarrow> nat \<Rightarrow> bc_num option" where
  "bc_rec_mul u ulen v vlen =
     (if ulen + vlen < mul_base_digits \<or> ulen < MUL_SMALL_DIGITS \<or> vlen < MUL_SMALL_DIGITS
      then Some (bc_simp_mul u ulen v vlen)
      else
        let n = (max ulen vlen + 1) div 2
        in case (split_num u ulen n, split_num v vlen n) of ((u1, u0), (v1, v0)) \<Rightarrow>
          let m1zero = (bc_is_zero u1 \<or> bc_is_zero v1);
              d1 = bc_sub u1 u0 0; d2 = bc_sub v0 v1 0;
              m1 = (if m1zero then Some BC_zero else bc_rec_mul u1 (n_len u1) v1 (n_len v1));
              m2 = (if bc_is_zero d1 \<or> bc_is_zero d2 then Some BC_zero else bc_rec_mul d1 (n_len d1) d2 (n_len d2));
              m3 = (if bc_is_zero u0 \<or> bc_is_zero v0 then Some BC_zero else bc_rec_mul u0 (n_len u0) v0 (n_len v0))
          in case (m1, m2, m3) of
               (Some m1, Some m2, Some m3) \<Rightarrow>
                 combine (ulen + vlen + 1) n (if m1zero then None else Some m1) m2 m3 (n_sign d1 \<noteq> n_sign d2)
             | _ \<Rightarrow> None)"
  by pat_completeness auto

termination
proof (relation "measure (\<lambda>(u, ulen, v, vlen). ulen + vlen)", goal_cases)
  case 1
  then show ?case by simp
next
  case (2 u ulen v vlen)
  then show ?case using rec_mul_sizes[OF 2(1) refl, of u _ _ v] by (simp del: de_Morgan_disj) metis
next
  case (3 u ulen v vlen)
  then show ?case using rec_mul_sizes[OF 3(1) refl, of u _ _ v] by simp
next
  case (4 u ulen v vlen)
  then show ?case using rec_mul_sizes[OF 4(1) refl, of u _ _ v] by (simp del: de_Morgan_disj) metis
qed

declare bc_rec_mul.simps [simp del]

definition bc_multiply :: "bc_num \<Rightarrow> bc_num \<Rightarrow> nat \<Rightarrow> bc_num option" where
  "bc_multiply n1 n2 scale =
     (let len1 = n_len n1 + n_scale n1; len2 = n_len n2 + n_scale n2;
          full_scale = n_scale n1 + n_scale n2;
          prod_scale = min full_scale (max scale (max (n_scale n1) (n_scale n2)))
      in map_option (\<lambda>pval.
           let pval = bc_rm_leading_zeros (pval\<lparr>n_sign := (if n_sign n1 = n_sign n2 then PLUS else MINUS),
                 n_len := len2 + len1 + 1 - full_scale, n_scale := prod_scale\<rparr>)
           in if bc_is_zero pval then pval\<lparr>n_sign := PLUS\<rparr> else pval)
         (bc_rec_mul n1 len1 n2 len2))"

section \<open>The product by columns\<close>

text \<open>The digits of a factor as a sequence that goes on with zeros.\<close>

definition coeff :: "int list \<Rightarrow> nat \<Rightarrow> int" where
  "coeff a p = (if p < length a then a ! p else 0)"

definition column :: "int list \<Rightarrow> int list \<Rightarrow> nat \<Rightarrow> int" where
  "column a b k = (\<Sum>p\<le>k. coeff a p * coeff b (k - p))"

lemma coeff_Cons: "coeff (x # a) 0 = x" "coeff (x # a) (Suc p) = coeff a p"
  by (simp_all add: coeff_def)

lemma le_val_coeff: "le_val a = (\<Sum>p<length a. coeff a p * 10 ^ p)"
proof (induction a)
  case (Cons x a)
  have "(\<Sum>p<length (x # a). coeff (x # a) p * 10 ^ p) = x + (\<Sum>p<length a. coeff a p * 10 ^ Suc p)"
    unfolding list.size(4) add_Suc_right add_0_right sum.lessThan_Suc_shift by (simp add: coeff_Cons)
  also have "(\<Sum>p<length a. coeff a p * 10 ^ Suc p) = 10 * (\<Sum>p<length a. coeff a p * 10 ^ p)"
    by (simp add: sum_distrib_left algebra_simps)
  finally show ?case using Cons by simp
qed simp

lemma columns_product:
  assumes "length a + length b \<le> n"
  shows "(\<Sum>k<n. 10 ^ k * column a b k) = le_val a * le_val b"
proof -
  define g where "g i j = coeff a i * coeff b j * (10 ^ (i + j) :: int)" for i j
  have "(\<Sum>k<n. 10 ^ k * column a b k) = (\<Sum>k<n. \<Sum>i\<le>k. g i (k - i))"
    by (intro sum.cong refl) (simp add: column_def g_def sum_distrib_left algebra_simps)
  also have "\<dots> = (\<Sum>(i, j)\<in>{(i, j). i + j < n}. g i j)" by (rule sum.triangle_reindex[symmetric])
  also have "\<dots> = (\<Sum>(i, j)\<in>{..<length a} \<times> {..<length b}. g i j)"
  proof (rule sum.mono_neutral_right)
    have "{(i, j). i + j < n} \<subseteq> {..<n} \<times> {..<n}" by auto
    then show "finite {(i, j). i + j < n}" by (rule finite_subset) simp
  qed (use assms in \<open>auto simp: g_def coeff_def split: if_splits\<close>)
  also have "\<dots> = (\<Sum>i<length a. \<Sum>j<length b. g i j)" by (rule sum.cartesian_product[symmetric])
  also have "\<dots> = le_val a * le_val b"
    unfolding le_val_coeff sum_product by (intro sum.cong refl) (simp add: g_def power_add algebra_simps)
  finally show ?thesis .
qed

lemma simp_inner_sum: "j \<le> length b \<Longrightarrow> simp_inner a b i j tot = tot + (\<Sum>p\<in>{i..<i + j}. coeff a p * coeff b (i + j - 1 - p))"
proof (induction a b i j tot rule: simp_inner.induct)
  case (2 a b i j tot)
  show ?case
  proof (cases "i < length a")
    case True
    have "(\<Sum>p\<in>{i..<i + Suc j}. coeff a p * coeff b (i + Suc j - 1 - p))
        = coeff a i * coeff b j + (\<Sum>p\<in>{i + 1..<i + 1 + j}. coeff a p * coeff b (i + 1 + j - 1 - p))"
      by (simp add: sum.atLeast_Suc_lessThan)
    moreover have "coeff a i * coeff b j = a ! i * b ! j" using True "2.prems" by (simp add: coeff_def)
    ultimately show ?thesis using 2 True by simp
  next
    case False
    then have "(\<Sum>p\<in>{i..<i + Suc j}. coeff a p * coeff b (i + Suc j - 1 - p)) = 0" by (intro sum.neutral) (simp add: coeff_def)
    then show ?thesis using False by simp
  qed
qed simp

lemma simp_inner_column: "simp_inner a b (k + 1 - length b) (min (k + 1) (length b)) tot = tot + column a b k"
proof -
  have k: "k + 1 - length b + min (k + 1) (length b) = k + 1" by simp
  have "(\<Sum>p\<in>{k + 1 - length b..<k + 1}. coeff a p * coeff b (k + 1 - 1 - p)) = column a b k" unfolding column_def
    by (rule sum.mono_neutral_cong_left) (auto simp: coeff_def)
  then show ?thesis using simp_inner_sum[of "min (k + 1) (length b)" b a "k + 1 - length b" tot] unfolding k by simp
qed

lemma column_nonneg: "digit_list a \<Longrightarrow> digit_list b \<Longrightarrow> 0 \<le> column a b k"
  unfolding column_def by (intro sum_nonneg mult_nonneg_nonneg) (auto simp: coeff_def digit_list_def list_all_length)

lemma simp_columns_props:
  assumes "simp_columns a b k n tot = (ds, z)" "digit_list a" "digit_list b" "0 \<le> tot"
  shows "length ds = n \<and> digit_list ds \<and> 0 \<le> z \<and> le_val ds + 10 ^ n * z = tot + (\<Sum>t<n. 10 ^ t * column a b (k + t))"
  using assms(1,4)
proof (induction n arbitrary: k tot ds)
  case (Suc n)
  define s where "s = tot + column a b k"
  obtain es where e: "simp_columns a b (k + 1) n (s div 10) = (es, z)" "ds = s mod 10 # es"
    using Suc.prems(1) unfolding simp_columns.simps simp_inner_column by (auto simp: Let_def s_def split: prod.splits)
  have s: "0 \<le> s" using Suc.prems(2) column_nonneg[OF assms(2,3), of k] by (simp add: s_def)
  then have IH: "length es = n \<and> digit_list es \<and> 0 \<le> z \<and> le_val es + 10 ^ n * z = s div 10 + (\<Sum>t<n. 10 ^ t * column a b (k + 1 + t))"
    by (intro Suc.IH[OF e(1)]) simp
  have "le_val ds + 10 ^ Suc n * z = s mod 10 + 10 * (le_val es + 10 ^ n * z)" by (simp add: e(2) algebra_simps)
  also have "\<dots> = s + (\<Sum>t<n. 10 ^ Suc t * column a b (k + Suc t))" using IH by (simp add: distrib_left sum_distrib_left algebra_simps)
  also have "\<dots> = tot + (\<Sum>t<Suc n. 10 ^ t * column a b (k + t))"
    by (subst sum.lessThan_Suc_shift) (simp add: s_def)
  finally show ?case using IH e(2) s by simp
qed simp

text \<open>What every product promises: as many digits as the factors have, and one more that is zero.\<close>

definition mul_result :: "bc_num \<Rightarrow> nat \<Rightarrow> int \<Rightarrow> bool" where
  "mul_result p len v \<longleftrightarrow> n_sign p = PLUS \<and> n_len p = len + 1 \<and> n_scale p = 0 \<and> length (n_value p) = len + 1
     \<and> digit_list (n_value p) \<and> hd (n_value p) = 0 \<and> be_val (n_value p) = v"

lemma bc_simp_mul_props:
  assumes "digit_list (n_value u)" "digit_list (n_value v)" "ulen \<le> length (n_value u)" "vlen \<le> length (n_value v)"
  shows "mul_result (bc_simp_mul u ulen v vlen) (ulen + vlen) (be_val (take ulen (n_value u)) * be_val (take vlen (n_value v)))"
proof -
  define a where "a = rev (take ulen (n_value u))"
  define b where "b = rev (take vlen (n_value v))"
  obtain ds z where c: "simp_columns a b 0 (ulen + vlen) 0 = (ds, z)" by fastforce
  have ab: "digit_list a" "digit_list b" "length a = ulen" "length b = vlen" using assms by (simp_all add: a_def b_def)
  note p = simp_columns_props[OF c ab(1,2), simplified]
  have v: "le_val ds + 10 ^ (ulen + vlen) * z = le_val a * le_val b"
    using p columns_product[of a b "ulen + vlen"] ab by simp
  have "le_val a * le_val b < 10 ^ ulen * 10 ^ vlen"
    using le_val_bounds[OF ab(1)] le_val_bounds[OF ab(2)] ab by (intro mult_strict_mono) auto
  moreover have "10 ^ (ulen + vlen) * z \<le> le_val a * le_val b" using v le_val_bounds[of ds] p by linarith
  ultimately have "(10 :: int) ^ (ulen + vlen) * z < 10 ^ (ulen + vlen) * 1" unfolding power_add mult_1_right by linarith
  then have "z = 0" using p by simp
  moreover have "bc_simp_mul u ulen v vlen = (bc_new_num (ulen + vlen + 1) 0)\<lparr>n_value := rev (ds @ [z])\<rparr>"
    using c by (simp add: bc_simp_mul_def a_def b_def)
  ultimately show ?thesis using p v by (simp add: mul_result_def bc_new_num_def be_val_def a_def b_def le_val_append)
qed

section \<open>The accumulator\<close>

text \<open>Both loops at once: the sign \<open>g\<close> tells an addition from a subtraction.\<close>

definition accum_digit :: "bool \<Rightarrow> int \<Rightarrow> int \<Rightarrow> int \<times> int" where
  "accum_digit sub x w = (if sub then sub_digit (x - w) else add_digit (x + w))"

definition accum_sign :: "bool \<Rightarrow> int" where
  "accum_sign sub = (if sub then - 1 else 1)"

lemma accum_step:
  assumes "accum_digit sub x (y + k) = (d, c)" "0 \<le> x" "x \<le> 9" "0 \<le> y" "y \<le> 9" "0 \<le> k" "k \<le> 1"
  shows "x + accum_sign sub * (y + k) = d + accum_sign sub * (10 * c) \<and> 0 \<le> d \<and> d \<le> 9 \<and> 0 \<le> c \<and> c \<le> 1"
  using assms add_digit_props[of "x + (y + k)" d c] sub_digit_props[of "x - (y + k)" d c]
  by (cases sub) (simp_all add: accum_digit_def accum_sign_def)

lemma shift_loop_Cons:
  "shift_loop sub (x # xs) ys c =
     (if ys = [] \<and> c = 0 then Some (x # xs)
      else let (d, k) = accum_digit sub x ((if ys = [] then 0 else hd ys) + c)
           in map_option ((#) d) (shift_loop sub xs (drop 1 ys) k))"
  by (cases ys; cases sub) (simp_all add: accum_digit_def accum_sign_def)

lemma shift_loop_props:
  assumes "digit_list xs" "digit_list ys" "0 \<le> c" "c \<le> 1" "length ys \<le> length xs"
    "0 \<le> le_val xs + accum_sign sub * (le_val ys + c)" "le_val xs + accum_sign sub * (le_val ys + c) < 10 ^ length xs"
  shows "\<exists>ds. shift_loop sub xs ys c = Some ds \<and> digit_list ds \<and> length ds = length xs
    \<and> le_val ds = le_val xs + accum_sign sub * (le_val ys + c)"
  using assms
proof (induction xs arbitrary: ys c)
  case Nil
  then show ?case by (auto simp: accum_sign_def split: if_splits)
next
  case (Cons x xs)
  define y where "y = (if ys = [] then 0 else hd ys)"
  obtain d k where s: "accum_digit sub x (y + c) = (d, k)" by fastforce
  have y: "0 \<le> y" "y \<le> 9" "digit_list (drop 1 ys)" "le_val ys = y + 10 * le_val (drop 1 ys)" "length (drop 1 ys) \<le> length xs"
    using Cons.prems(2,5) by (cases ys; simp add: y_def)+
  have p: "x + accum_sign sub * (y + c) = d + accum_sign sub * (10 * k)" "0 \<le> d" "d \<le> 9" "0 \<le> k" "k \<le> 1"
    using accum_step[OF s _ _ y(1,2) Cons.prems(3,4)] Cons.prems(1) by auto
  define r where "r = le_val xs + accum_sign sub * (le_val (drop 1 ys) + k)"
  have v: "le_val (x # xs) + accum_sign sub * (le_val ys + c) = d + 10 * r"
    using p(1) unfolding y(4) r_def by (simp add: algebra_simps)
  have r: "0 \<le> r" "r < 10 ^ length xs" using Cons.prems(6,7) p(2,3) unfolding v by auto
  then obtain ds where ds: "shift_loop sub xs (drop 1 ys) k = Some ds" "digit_list ds" "length ds = length xs" "le_val ds = r"
    using Cons.IH[of "drop 1 ys" k] Cons.prems(1) y p unfolding r_def by auto
  show ?case
  proof (cases "ys = [] \<and> c = 0")
    case True
    then show ?thesis using Cons.prems(1) by simp
  next
    case False
    then have "shift_loop sub (x # xs) ys c = Some (d # ds)" using s ds(1) unfolding shift_loop_Cons by (auto simp: y_def[symmetric])
    then show ?thesis using ds p v by simp
  qed
qed

text \<open>A number with as many digits as its length says.\<close>

definition accum_ok :: "bc_num \<Rightarrow> nat \<Rightarrow> int \<Rightarrow> bool" where
  "accum_ok p len v \<longleftrightarrow> n_sign p = PLUS \<and> n_len p = len \<and> n_scale p = 0 \<and> length (n_value p) = len \<and> digit_list (n_value p) \<and> be_val (n_value p) = v"

lemma bc_shift_addsub_props:
  assumes "accum_ok p len x" "mul_result m mlen v" "shift + mlen \<le> len"
    "0 \<le> x + accum_sign sub * (10 ^ shift * v)" "x + accum_sign sub * (10 ^ shift * v) < 10 ^ len"
  shows "\<exists>p'. bc_shift_addsub p m shift sub = Some p' \<and> accum_ok p' len (x + accum_sign sub * (10 ^ shift * v))"
proof -
  define acc where "acc = rev (n_value p)"
  define vs where "vs = take mlen (rev (n_value m))"
  obtain ms where ms: "n_value m = 0 # ms" "length ms = mlen" "digit_list ms" "be_val ms = v"
    using assms(2) by (cases "n_value m") (auto simp: mul_result_def be_val_simps)
  have vs: "digit_list vs" "length vs = mlen" "le_val vs = v" using ms by (simp_all add: vs_def be_val_def)
  have acc: "length acc = len" "digit_list acc" "le_val acc = x" using assms(1) by (simp_all add: acc_def accum_ok_def be_val_def)
  define low where "low = le_val (take shift acc)"
  define high where "high = le_val (drop shift acc)"
  have x: "x = low + 10 ^ shift * high" using le_val_take_drop[of acc shift] acc assms(3) by (simp add: low_def high_def min_def)
  have low: "0 \<le> low" "low < 10 ^ shift" using le_val_bounds[of "take shift acc"] acc assms(3) by (simp_all add: low_def min_absorb2)
  define r where "r = high + accum_sign sub * (le_val vs + 0)"
  have v: "x + accum_sign sub * (10 ^ shift * v) = low + 10 ^ shift * r" unfolding x r_def vs(3) by (simp add: algebra_simps)
  have "- 1 < r"
  proof (rule ccontr)
    assume "\<not> - 1 < r"
    then have "10 ^ shift * r \<le> 10 ^ shift * - 1" by (intro mult_left_mono) auto
    then show False using assms(4) low unfolding v by simp
  qed
  moreover have "r < 10 ^ (len - shift)"
  proof -
    have "10 ^ shift * r < 10 ^ shift * 10 ^ (len - shift)" using assms(3,5) low(1) unfolding v by (simp flip: power_add)
    then show ?thesis by simp
  qed
  ultimately have "\<exists>ds. shift_loop sub (drop shift acc) vs 0 = Some ds \<and> digit_list ds \<and> length ds = length (drop shift acc) \<and> le_val ds = r"
    unfolding r_def high_def using acc vs assms(3) by (intro shift_loop_props) auto
  then obtain ds where ds: "shift_loop sub (drop shift acc) vs 0 = Some ds" "digit_list ds" "length ds = len - shift" "le_val ds = r" using acc by auto
  have "rev (take (n_len p + n_scale p) (n_value p)) = acc" using assms(1) by (simp add: accum_ok_def acc_def)
  moreover have "take (n_len m - (if hd (n_value m) = 0 then 1 else 0)) (rev (take (n_len m) (n_value m))) = vs"
    using assms(2) by (simp add: mul_result_def vs_def)
  ultimately have c: "bc_shift_addsub p m shift sub = Some (p\<lparr>n_value := rev (take shift acc @ ds)\<rparr>)"
    using assms(3) acc(1) ds(1) unfolding bc_shift_addsub_def Let_def by simp
  have "be_val (rev (take shift acc @ ds)) = low + 10 ^ shift * r"
    using ds(4) acc(1) assms(3) by (simp add: be_val_def le_val_append low_def min_def)
  then show ?thesis unfolding v using c assms(1,3) acc ds by (simp add: accum_ok_def)
qed

section \<open>Divide and conquer\<close>

text \<open>The partial sums stay within the accumulator.\<close>

lemma low_bound:
  fixes b d :: int
  assumes "0 \<le> b" "0 \<le> d" "b < 10 ^ ulen" "d < 10 ^ n" "2 * n \<le> vlen + 1"
  shows "(10 ^ n + 1) * (b * d) < 10 ^ (ulen + vlen + 1)"
proof -
  define B :: int where "B = 10 ^ n"
  have B: "1 \<le> B" by (simp add: B_def)
  have "(B + 1) * (b * d) \<le> (B + 1) * (b * (B - 1))" using assms B by (intro mult_left_mono) (auto simp: B_def)
  also have "\<dots> \<le> B * B * b" using assms(1) B by (simp add: algebra_simps)
  also have "\<dots> < B * B * 10 ^ ulen" using assms(3) B by simp
  also have "\<dots> = 10 ^ (ulen + 2 * n)" by (simp add: B_def power_add mult_2)
  also have "\<dots> \<le> 10 ^ (ulen + vlen + 1)" using assms(5) by (intro power_increasing) auto
  finally show ?thesis by (simp add: B_def)
qed

lemma accum_bound:
  fixes a b c d :: int
  assumes nn: "0 \<le> a" "0 \<le> b" "0 \<le> c" "0 \<le> d"
    and hi: "a < 10 ^ (ulen - n)" "c < 10 ^ (vlen - n)" and lo: "b < 10 ^ min n ulen" "d < 10 ^ min n vlen"
    and n: "n = (max ulen vlen + 1) div 2" and pos: "0 < ulen" "0 < vlen"
  shows "(10 ^ n + 1) * (10 ^ n * (a * c) + b * d) < 10 ^ (ulen + vlen + 1)"
proof (cases "n < ulen \<and> n < vlen")
  case True
  define B T :: int where "B = 10 ^ n" and "T = 10 ^ (ulen - n + (vlen - n))"
  have B: "1 \<le> B" "1 \<le> T" by (simp_all add: B_def T_def)
  have "n \<le> ulen - n + (vlen - n)" using True n by linarith
  then have BT: "B \<le> T" unfolding B_def T_def by (intro power_increasing) auto
  have "a * c \<le> T" unfolding T_def power_add using nn hi by (intro mult_mono) auto
  moreover have "b * d \<le> B * B" unfolding B_def using nn lo True by (intro mult_mono) (auto simp: min_def)
  moreover have "B * B \<le> B * T" using BT B by simp
  ultimately have s: "B * (a * c) + b * d \<le> 2 * (B * T)"
    using B mult_left_mono[of "a * c" T B] by linarith
  have "(B + 1) * (B * (a * c) + b * d) \<le> (2 * B) * (2 * (B * T))" using s B nn by (intro mult_mono) auto
  also have "\<dots> < 10 * (B * B * T)" using B by simp
  also have "B * B * T = 10 ^ (ulen + vlen)" using True unfolding B_def T_def by (simp flip: power_add)
  finally show ?thesis by (simp add: B_def)
next
  case False
  then have ac: "a * c = 0" using hi nn by (cases "n < ulen") (auto simp: not_less)
  have "(10 :: int) ^ min n ulen \<le> 10 ^ ulen" "(10 :: int) ^ min n ulen \<le> 10 ^ n" "(10 :: int) ^ min n vlen \<le> 10 ^ vlen" "(10 :: int) ^ min n vlen \<le> 10 ^ n"
    by (intro power_increasing; simp)+
  then have lt: "b < 10 ^ ulen" "b < 10 ^ n" "d < 10 ^ vlen" "d < 10 ^ n" using lo by linarith+
  show ?thesis
  proof (cases "ulen \<le> vlen")
    case True
    then have "2 * n \<le> vlen + 1" using n by simp
    then show ?thesis unfolding ac using low_bound[OF nn(2,4) lt(1,4)] by simp
  next
    case False
    then have "2 * n \<le> ulen + 1" using n by simp
    then show ?thesis unfolding ac using low_bound[OF nn(4,2) lt(3,2)] by (simp add: mult.commute[of b] add.commute)
  qed
qed

lemma accum_ok_new: "accum_ok (bc_new_num len 0) len 0"
  by (simp add: accum_ok_def bc_new_num_def)

lemma combine_props:
  fixes a b c d :: int
  assumes nn: "0 \<le> a" "0 \<le> b" "0 \<le> c" "0 \<le> d"
    and m1: "case m1 of None \<Rightarrow> a * c = 0 | Some m \<Rightarrow> mul_result m l1 (a * c) \<and> 2 * n + l1 \<le> len"
    and m2: "mul_result m2 l2 w" "n + l2 \<le> len" "accum_sign sub * w = (a - b) * (d - c)"
    and m3: "mul_result m3 l3 (b * d)" "n + l3 \<le> len"
    and bound: "(10 ^ n + 1) * (10 ^ n * (a * c) + b * d) < 10 ^ len" "(a * 10 ^ n + b) * (c * 10 ^ n + d) < 10 ^ len"
  shows "\<exists>p. combine len n m1 m2 m3 sub = Some p \<and> accum_ok p len ((a * 10 ^ n + b) * (c * 10 ^ n + d))"
proof -
  define B :: int where "B = 10 ^ n"
  have BB: "10 ^ (2 * n) = B * B" by (simp add: B_def mult_2 power_add)
  define x4 where "x4 = (B + 1) * (B * (a * c) + b * d)"
  have x4: "x4 = B * B * (a * c) + B * (a * c) + B * (b * d) + b * d" by (simp add: x4_def algebra_simps)
  have z: "0 \<le> a * c" "0 \<le> b * d" "1 \<le> B" "0 \<le> B * (a * c)" "0 \<le> B * (b * d)" "0 \<le> B * B * (a * c)" using nn by (simp_all add: B_def)
  have lt: "x4 < 10 ^ len" using bound(1) by (simp add: x4_def B_def)
  have pl: "accum_sign False = 1" by (simp add: accum_sign_def)
  have "\<exists>p. (case m1 of None \<Rightarrow> Some (bc_new_num len 0)
        | Some m \<Rightarrow> Option.bind (bc_shift_addsub (bc_new_num len 0) m (2 * n) False) (\<lambda>p. bc_shift_addsub p m n False)) = Some p
      \<and> accum_ok p len (B * B * (a * c) + B * (a * c))"
  proof (cases m1)
    case None
    then have "a * c = 0" using m1 by simp
    then have "B * B * (a * c) + B * (a * c) = 0" by (simp only: mult_zero_right add_0_right)
    then show ?thesis using None accum_ok_new by simp
  next
    case (Some m)
    then have m: "mul_result m l1 (a * c)" "2 * n + l1 \<le> len" using m1 by auto
    obtain p where p: "bc_shift_addsub (bc_new_num len 0) m (2 * n) False = Some p" "accum_ok p len (B * B * (a * c))"
      using bc_shift_addsub_props[OF accum_ok_new m, of False] z lt unfolding pl BB x4 by auto
    obtain q where "bc_shift_addsub p m n False = Some q" "accum_ok q len (B * B * (a * c) + B * (a * c))"
      using bc_shift_addsub_props[OF p(2) m(1), of n False] m(2) z lt unfolding pl B_def[symmetric] x4 by auto
    then show ?thesis using Some p by simp
  qed
  then obtain p where p: "(case m1 of None \<Rightarrow> Some (bc_new_num len 0)
        | Some m \<Rightarrow> Option.bind (bc_shift_addsub (bc_new_num len 0) m (2 * n) False) (\<lambda>p. bc_shift_addsub p m n False)) = Some p"
      "accum_ok p len (B * B * (a * c) + B * (a * c))" by blast
  obtain q where q: "bc_shift_addsub p m3 n False = Some q" "accum_ok q len (B * B * (a * c) + B * (a * c) + B * (b * d))"
    using bc_shift_addsub_props[OF p(2) m3, of False] z lt unfolding pl B_def[symmetric] x4 by auto
  obtain r where r: "bc_shift_addsub q m3 0 False = Some r" "accum_ok r len x4"
    using bc_shift_addsub_props[OF q(2) m3(1), of 0 False] m3(2) z lt unfolding pl x4 by auto
  have "x4 + accum_sign sub * (B * w) = x4 + B * ((a - b) * (d - c))" unfolding m2(3)[symmetric] by (simp add: mult.left_commute)
  also have "\<dots> = (a * B + b) * (c * B + d)" unfolding x4 by (simp add: algebra_simps)
  finally have e: "x4 + accum_sign sub * (10 ^ n * w) = (a * B + b) * (c * B + d)" by (simp add: B_def)
  have "0 \<le> (a * B + b) * (c * B + d)" using nn z(3) by simp
  then obtain t where "bc_shift_addsub r m2 n sub = Some t" "accum_ok t len ((a * B + b) * (c * B + d))"
    using bc_shift_addsub_props[OF r(2) m2(1,2), of sub] bound(2) unfolding e B_def by auto
  then show ?thesis unfolding combine_def p(1) using q(1) r(1) by (simp add: B_def)
qed

lemma accum_mul_result:
  assumes "accum_ok p (len + 1) v" "v < 10 ^ len"
  shows "mul_result p len v"
proof -
  obtain x xs where x: "n_value p = x # xs" "length xs = len" using assms(1) by (cases "n_value p") (auto simp: accum_ok_def)
  have d: "digit_list xs" "0 \<le> x" "x * 10 ^ len + be_val xs = v" using assms(1) x by (simp_all add: accum_ok_def be_val_simps)
  have "x * 10 ^ len < 1 * 10 ^ len" using d assms(2) be_val_bounds[OF d(1)] by linarith
  then have "x = 0" using d(2) by simp
  then show ?thesis using assms(1) x by (simp add: mul_result_def accum_ok_def)
qed

lemma mul_result_zero: "mul_result BC_zero 0 0"
  by (simp add: mul_result_def BC_zero_def bc_new_num_def be_val_simps)

text \<open>The halves of a factor.\<close>

lemma rm_leading_lead_ok:
  assumes "bc_ok m" "n_scale m = 0"
  shows "bc_ok (bc_rm_leading_zeros m) \<and> lead_ok (bc_rm_leading_zeros m) \<and> magnitude (bc_rm_leading_zeros m) = magnitude m"
proof (cases "0 < n_len m")
  case True
  then show ?thesis using bc_rm_leading_zeros[OF assms(1) True] by (simp add: lead_ok_def)
next
  case False
  then have "bc_rm_leading_zeros m = m" by (cases "n_value m") (simp_all add: bc_rm_leading_zeros_def)
  then show ?thesis using assms False by (simp add: lead_ok_def)
qed

definition int_num :: "bc_num \<Rightarrow> bool" where
  "int_num m \<longleftrightarrow> bc_ok m \<and> lead_ok m \<and> n_scale m = 0 \<and> n_sign m = PLUS"

lemma split_num_values:
  assumes s: "split_num u ulen n = (u1, u0)" and d: "digit_list (n_value u)" "ulen \<le> length (n_value u)"
  shows "int_num u1" "int_num u0" "be_val (take ulen (n_value u)) = magnitude u1 * 10 ^ n + magnitude u0"
    "magnitude u1 < 10 ^ (ulen - n)" "magnitude u0 < 10 ^ min n ulen"
proof -
  define w1 where "w1 = (if ulen < n then BC_zero else new_sub_num (ulen - n) 0 (n_value u))"
  define w0 where "w0 = (if ulen < n then new_sub_num ulen 0 (n_value u) else new_sub_num n 0 (drop (ulen - n) (n_value u)))"
  have u: "u1 = bc_rm_leading_zeros w1" "u0 = bc_rm_leading_zeros w0" using s by (auto simp: split_num_def w1_def w0_def)
  have ok: "bc_ok w1" "bc_ok w0" "n_scale w1 = 0" "n_scale w0 = 0" "n_sign w1 = PLUS" "n_sign w0 = PLUS" "n_len w0 = min n ulen"
    using d by (auto simp: w1_def w0_def bc_ok_def new_sub_num_def BC_zero_def bc_new_num_def)
  note r1 = rm_leading_lead_ok[OF ok(1,3)] and r0 = rm_leading_lead_ok[OF ok(2,4)]
  show "int_num u1" "int_num u0" using ok r1 r0 by (simp_all add: u int_num_def)
  have m: "magnitude u1 = magnitude w1" "magnitude u0 = magnitude w0" using r1 r0 by (simp_all add: u)
  show "magnitude u0 < 10 ^ min n ulen" unfolding m using magnitude_bounds[OF ok(2)] ok(4,7) by simp
  show "magnitude u1 < 10 ^ (ulen - n)" unfolding m using magnitude_bounds[OF ok(1)] ok(3)
    by (auto simp: w1_def magnitude_def digits_def BC_zero_def bc_new_num_def be_val_simps new_sub_num_def split: if_splits)
  show "be_val (take ulen (n_value u)) = magnitude u1 * 10 ^ n + magnitude u0"
  proof (cases "ulen < n")
    case True
    then show ?thesis unfolding m by (simp add: w1_def w0_def magnitude_def digits_def BC_zero_def bc_new_num_def be_val_simps new_sub_num_def)
  next
    case False
    have "take ulen (n_value u) = take (ulen - n) (n_value u) @ take n (drop (ulen - n) (n_value u))"
      using False take_add[of "ulen - n" n "n_value u"] by simp
    moreover have "length (take n (drop (ulen - n) (n_value u))) = n" using d(2) False by simp
    ultimately show ?thesis unfolding m using False
      by (simp add: w1_def w0_def magnitude_def digits_def new_sub_num_def be_val_simps(3))
  qed
qed

lemma int_num_sub:
  assumes "int_num m" "int_num k"
  shows "bc_ok (bc_sub m k 0)" "n_scale (bc_sub m k 0) = 0" "sign_val (n_sign (bc_sub m k 0)) * magnitude (bc_sub m k 0) = magnitude m - magnitude k"
  using bc_sub_result[of m k 0] assms by (simp_all add: result_ok_def int_num_def signed_def aligned_def)

lemma int_num_mul:
  assumes "bc_ok m" "bc_ok k" "n_scale m = 0" "n_scale k = 0"
    and IH: "\<not> (bc_is_zero m \<or> bc_is_zero k) \<Longrightarrow> digit_list (n_value m) \<and> digit_list (n_value k) \<and> n_len m \<le> length (n_value m) \<and> n_len k \<le> length (n_value k)
      \<Longrightarrow> \<exists>p. r = Some p \<and> mul_result p (n_len m + n_len k) (be_val (take (n_len m) (n_value m)) * be_val (take (n_len k) (n_value k)))"
  shows "\<exists>p l. (if bc_is_zero m \<or> bc_is_zero k then Some BC_zero else r) = Some p \<and> mul_result p l (magnitude m * magnitude k) \<and> l \<le> n_len m + n_len k"
proof (cases "bc_is_zero m \<or> bc_is_zero k")
  case True
  then have "magnitude m * magnitude k = 0" using bc_is_zero_iff assms(1,2) by auto
  then show ?thesis using True mul_result_zero by auto
next
  case False
  moreover have "digit_list (n_value m) \<and> digit_list (n_value k) \<and> n_len m \<le> length (n_value m) \<and> n_len k \<le> length (n_value k)"
    using assms(1-4) by (simp add: bc_ok_def)
  ultimately obtain p where "r = Some p" "mul_result p (n_len m + n_len k) (magnitude m * magnitude k)"
    using IH assms(3,4) by (auto simp: magnitude_def digits_def)
  then show ?thesis using False by auto
qed

lemma bc_rec_mul_props:
  assumes "digit_list (n_value u) \<and> digit_list (n_value v) \<and> ulen \<le> length (n_value u) \<and> vlen \<le> length (n_value v)"
  shows "\<exists>p. bc_rec_mul u ulen v vlen = Some p \<and> mul_result p (ulen + vlen) (be_val (take ulen (n_value u)) * be_val (take vlen (n_value v)))"
  using assms
proof (induction u ulen v vlen rule: bc_rec_mul.induct)
  case (1 u ulen v vlen)
  show ?case
  proof (cases "ulen + vlen < mul_base_digits \<or> ulen < MUL_SMALL_DIGITS \<or> vlen < MUL_SMALL_DIGITS")
    case True
    then show ?thesis using bc_simp_mul_props[of u v ulen vlen] 1(4) unfolding bc_rec_mul.simps[of u ulen v vlen] by simp
  next
    case big: False
    define n where "n = (max ulen vlen + 1) div 2"
    obtain u1 u0 v1 v0 where su: "split_num u ulen n = (u1, u0)" and sv: "split_num v vlen n = (v1, v0)" by fastforce
    have pos: "0 < ulen" "0 < vlen" using big by (auto simp: MUL_SMALL_DIGITS_def mul_base_digits_def)
    define d1 d2 where "d1 = bc_sub u1 u0 0" and "d2 = bc_sub v0 v1 0"
    note U = split_num_values[OF su] and V = split_num_values[OF sv]
    have u: "int_num u1" "int_num u0" and v: "int_num v1" "int_num v0" using U(1,2) V(1,2) 1(4) by auto
    note D = int_num_sub[OF u, folded d1_def] int_num_sub[OF v(2,1), folded d2_def]
    note sz = rec_mul_sizes[OF big n_def su sv, folded d1_def d2_def] and lu = split_num_props[OF su] and lv = split_num_props[OF sv]
    note ih = 1(1-3)[OF big n_def, unfolded su sv, OF refl refl refl refl d1_def d2_def]
    have i: "bc_ok u1" "bc_ok u0" "bc_ok v1" "bc_ok v0" "n_scale u1 = 0" "n_scale u0 = 0" "n_scale v1 = 0" "n_scale v0 = 0"
      using u v by (simp_all add: int_num_def)
    obtain m1 l1 where m1: "(if bc_is_zero u1 \<or> bc_is_zero v1 then Some BC_zero else bc_rec_mul u1 (n_len u1) v1 (n_len v1)) = Some m1"
        "mul_result m1 l1 (magnitude u1 * magnitude v1)" "l1 \<le> n_len u1 + n_len v1"
      using int_num_mul[OF i(1,3,5,7), of "bc_rec_mul u1 (n_len u1) v1 (n_len v1)"] ih(1) by blast
    obtain m2 l2 where m2: "(if bc_is_zero d1 \<or> bc_is_zero d2 then Some BC_zero else bc_rec_mul d1 (n_len d1) d2 (n_len d2)) = Some m2"
        "mul_result m2 l2 (magnitude d1 * magnitude d2)" "l2 \<le> n_len d1 + n_len d2"
      using int_num_mul[OF D(1,4,2,5), of "bc_rec_mul d1 (n_len d1) d2 (n_len d2)"] ih(2) by blast
    obtain m3 l3 where m3: "(if bc_is_zero u0 \<or> bc_is_zero v0 then Some BC_zero else bc_rec_mul u0 (n_len u0) v0 (n_len v0)) = Some m3"
        "mul_result m3 l3 (magnitude u0 * magnitude v0)" "l3 \<le> n_len u0 + n_len v0"
      using int_num_mul[OF i(2,4,6,8), of "bc_rec_mul u0 (n_len u0) v0 (n_len v0)"] ih(3) by blast
    define sub where "sub \<longleftrightarrow> n_sign d1 \<noteq> n_sign d2"
    have fits: "n + (min n ulen + min n vlen) \<le> ulen + vlen + 1" using n_def by linarith
    have "accum_sign sub * (magnitude d1 * magnitude d2) = (sign_val (n_sign d1) * magnitude d1) * (sign_val (n_sign d2) * magnitude d2)"
      by (cases "n_sign d1"; cases "n_sign d2") (simp_all add: sub_def accum_sign_def)
    then have sgn: "accum_sign sub * (magnitude d1 * magnitude d2) = (magnitude u1 - magnitude u0) * (magnitude v0 - magnitude v1)"
      unfolding D(3,6) .
    have nn: "0 \<le> magnitude u1" "0 \<le> magnitude u0" "0 \<le> magnitude v1" "0 \<le> magnitude v0" using i(1-4) magnitude_bounds by auto
    define m1o where "m1o = (if bc_is_zero u1 \<or> bc_is_zero v1 then None else Some m1)"
    have m1o: "case m1o of None \<Rightarrow> magnitude u1 * magnitude v1 = 0
        | Some m \<Rightarrow> mul_result m l1 (magnitude u1 * magnitude v1) \<and> 2 * n + l1 \<le> ulen + vlen + 1"
      using m1(2,3) lu(4) lv(4) U(4) V(4) bc_is_zero_iff[OF i(1)] bc_is_zero_iff[OF i(3)] nn 1(4) by (auto simp: m1o_def split: if_splits)
    have val: "be_val (take ulen (n_value u)) = magnitude u1 * 10 ^ n + magnitude u0"
        "be_val (take vlen (n_value v)) = magnitude v1 * 10 ^ n + magnitude v0" using U(3) V(3) 1(4) by auto
    have lt: "be_val (take ulen (n_value u)) * be_val (take vlen (n_value v)) < 10 ^ (ulen + vlen)"
      unfolding power_add using be_val_bounds[of "take ulen (n_value u)"] be_val_bounds[of "take vlen (n_value v)"] 1(4)
      by (intro mult_strict_mono) auto
    have "10 ^ (ulen + vlen) \<le> (10 :: int) ^ (ulen + vlen + 1)" by simp
    note bnd = order.strict_trans2[OF lt this, unfolded val]
    have hl: "magnitude u1 < 10 ^ (ulen - n)" "magnitude v1 < 10 ^ (vlen - n)" "magnitude u0 < 10 ^ min n ulen" "magnitude v0 < 10 ^ min n vlen"
      using U(4,5) V(4,5) 1(4) by auto
    have l: "n + l2 \<le> ulen + vlen + 1" "n + l3 \<le> ulen + vlen + 1" using fits m2(3) m3(3) sz(3,4) lu(3) lv(3) by linarith+
    obtain p where p: "combine (ulen + vlen + 1) n m1o m2 m3 sub = Some p"
        "accum_ok p (ulen + vlen + 1) (be_val (take ulen (n_value u)) * be_val (take vlen (n_value v)))"
      using combine_props[OF nn m1o m2(2) l(1) sgn m3(2) l(2) accum_bound[OF nn hl n_def pos] bnd] unfolding val by blast
    have "bc_rec_mul u ulen v vlen = combine (ulen + vlen + 1) n m1o m2 m3 sub"
      unfolding bc_rec_mul.simps[of u ulen v vlen] if_not_P[OF big] Let_def n_def[symmetric] su sv prod.case d1_def[symmetric] d2_def[symmetric]
        m1(1) m2(1) m3(1) option.case m1o_def sub_def ..
    then show ?thesis using p accum_mul_result[OF p(2) lt] by simp
  qed
qed

section \<open>The product of two numbers\<close>

lemma be_val_take:
  assumes "digit_list ds" "k \<le> length ds"
  shows "be_val (take k ds) = be_val ds div 10 ^ (length ds - k)"
proof -
  have "be_val ds = be_val (take k ds) * 10 ^ (length ds - k) + be_val (drop k ds)"
    using be_val_simps(3)[of "take k ds" "drop k ds"] by simp
  moreover have "be_val (drop k ds) div 10 ^ (length ds - k) = 0"
    using be_val_bounds[of "drop k ds"] assms by (simp add: div_pos_pos_trivial)
  ultimately show ?thesis by simp
qed

text \<open>A rational cut to a number of decimals, towards zero.\<close>

definition trunc_to :: "nat \<Rightarrow> rat \<Rightarrow> rat" where
  "trunc_to s q = of_int (if q < 0 then - \<lfloor>- q * 10 ^ s\<rfloor> else \<lfloor>q * 10 ^ s\<rfloor>) / 10 ^ s"

lemma trunc_to_quotient:
  assumes "0 \<le> m" "0 < k"
  shows "trunc_to s (of_int (sign_val g * m) / of_int k) = of_int (sign_val g * (m * 10 ^ s div k)) / 10 ^ s"
proof -
  have "of_int m / of_int k * 10 ^ s = (of_int (m * 10 ^ s) / of_int k :: rat)" by simp
  then have f: "\<lfloor>of_int m / of_int k * 10 ^ s :: rat\<rfloor> = m * 10 ^ s div k" by (simp only: floor_divide_of_int_eq)
  show ?thesis
  proof (cases "g = PLUS \<or> m = 0")
    case True
    then have "sign_val g * m = m" "\<not> (of_int m / of_int k :: rat) < 0" "sign_val g * (m * 10 ^ s div k) = m * 10 ^ s div k"
      using assms by (auto simp: not_less)
    then show ?thesis unfolding trunc_to_def by (simp only: f if_False)
  next
    case False
    then have "g = MINUS" "(of_int (sign_val g * m) / of_int k :: rat) < 0" using assms by (cases g; simp add: divide_neg_pos)+
    then show ?thesis using f by (simp add: trunc_to_def)
  qed
qed

lemma trunc_to_fraction:
  assumes "0 \<le> m" "s \<le> t"
  shows "trunc_to s (of_int (sign_val g * m) / 10 ^ t) = of_int (sign_val g * (m div 10 ^ (t - s))) / 10 ^ s"
proof -
  have "10 ^ t = (10 ^ (t - s) * 10 ^ s :: int)" using assms(2) by (simp flip: power_add)
  then have "m * 10 ^ s div 10 ^ t = m div 10 ^ (t - s)" by simp
  then show ?thesis using trunc_to_quotient[OF assms(1), of "10 ^ t" s g] by simp
qed

lemma bc_multiply_value:
  assumes "bc_ok n1" "bc_ok n2" "0 < n_len n1"
  defines "full \<equiv> n_scale n1 + n_scale n2"
  fixes scale :: nat
  defines "s \<equiv> min full (max scale (max (n_scale n1) (n_scale n2)))"
  shows "\<exists>r. bc_multiply n1 n2 scale = Some r \<and> bc_normal r \<and> n_scale r = s
    \<and> sign_val (n_sign r) * magnitude r = sign_val (n_sign n1) * sign_val (n_sign n2) * (magnitude n1 * magnitude n2 div 10 ^ (full - s))"
proof -
  define len1 len2 where "len1 = n_len n1 + n_scale n1" and "len2 = n_len n2 + n_scale n2"
  obtain p where p: "bc_rec_mul n1 len1 n2 len2 = Some p" "mul_result p (len1 + len2) (magnitude n1 * magnitude n2)"
    using bc_rec_mul_props[of n1 n2 len1 len2] assms(1,2) by (auto simp: bc_ok_def magnitude_def digits_def len1_def len2_def)
  define g where "g = (if n_sign n1 = n_sign n2 then PLUS else MINUS)"
  define q where "q = p\<lparr>n_sign := g, n_len := len2 + len1 + 1 - full, n_scale := s\<rparr>"
  have s: "s \<le> full" by (simp add: s_def)
  have len: "n_len q = n_len n1 + n_len n2 + 1" "n_scale q = s" "n_sign q = g" "length (n_value q) = n_len n1 + n_len n2 + 1 + full"
      "digit_list (n_value q)" "be_val (n_value q) = magnitude n1 * magnitude n2"
    using p(2) by (simp_all add: q_def len1_def len2_def full_def mul_result_def)
  have q: "bc_ok q" "0 < n_len q" using len s by (simp_all add: bc_ok_def)
  have m: "magnitude q = magnitude n1 * magnitude n2 div 10 ^ (full - s)"
    using be_val_take[OF len(5), of "n_len q + n_scale q"] len s unfolding magnitude_def digits_def by simp
  define r where "r = bc_rm_leading_zeros q"
  note R = bc_rm_leading_zeros[OF q, folded r_def]
  have e: "bc_multiply n1 n2 scale = Some (if bc_is_zero r then r\<lparr>n_sign := PLUS\<rparr> else r)"
    unfolding bc_multiply_def Let_def len1_def[symmetric] len2_def[symmetric] full_def[symmetric] s_def[symmetric] g_def[symmetric]
      p(1) option.map q_def[symmetric] r_def[symmetric] ..
  have "sign_val g = sign_val (n_sign n1) * sign_val (n_sign n2)" by (cases "n_sign n1"; cases "n_sign n2") (simp_all add: g_def)
  then have v: "sign_val (n_sign r) * magnitude r = sign_val (n_sign n1) * sign_val (n_sign n2) * (magnitude n1 * magnitude n2 div 10 ^ (full - s))"
    unfolding R(3,5) len(3) m by simp
  show ?thesis
  proof (cases "bc_is_zero r")
    case True
    then have "magnitude r = 0" using bc_is_zero_iff[OF R(1)] by simp
    then show ?thesis using e v True R len(2) by (simp add: bc_normal_def bc_ok_def no_leading_def magnitude_def digits_def)
  next
    case False
    then show ?thesis using e v R len(2) bc_is_zero_iff[OF R(1)] by (simp add: bc_normal_def)
  qed
qed

text \<open>A product that is not cut.\<close>

lemma bc_multiply_full:
  assumes "bc_normal n1" "bc_normal n2" "n_scale n1 + n_scale n2 \<le> max scale (max (n_scale n1) (n_scale n2))"
  shows "\<exists>r. bc_multiply n1 n2 scale = Some r \<and> bc_normal r \<and> n_scale r = n_scale n1 + n_scale n2 \<and> bc_val r = bc_val n1 * bc_val n2"
proof -
  have ok: "bc_ok n1" "bc_ok n2" "0 < n_len n1" using assms bc_normal_parts by auto
  have "min (n_scale n1 + n_scale n2) (max scale (max (n_scale n1) (n_scale n2))) = n_scale n1 + n_scale n2" using assms(3) by simp
  then obtain r where "bc_multiply n1 n2 scale = Some r" "bc_normal r" "n_scale r = n_scale n1 + n_scale n2"
      "sign_val (n_sign r) * magnitude r = sign_val (n_sign n1) * sign_val (n_sign n2) * (magnitude n1 * magnitude n2)"
    using bc_multiply_value[OF ok, of scale] by auto
  moreover have "bc_val n1 * bc_val n2 = of_int (sign_val (n_sign n1) * sign_val (n_sign n2) * (magnitude n1 * magnitude n2)) / 10 ^ (n_scale n1 + n_scale n2)"
    by (simp add: bc_val_def power_add)
  ultimately show ?thesis unfolding bc_val_def by metis
qed

lemma bc_multiply_trunc:
  assumes ok: "bc_ok n1" "bc_ok n2" "0 < n_len n1"
  shows "\<exists>r. bc_multiply n1 n2 scale = Some r \<and> bc_normal r
    \<and> n_scale r = min (n_scale n1 + n_scale n2) (max scale (max (n_scale n1) (n_scale n2)))
    \<and> bc_val r = trunc_to (n_scale r) (bc_val n1 * bc_val n2)"
proof -
  define full where "full = n_scale n1 + n_scale n2"
  obtain r where r: "bc_multiply n1 n2 scale = Some r" "bc_normal r" "n_scale r = min full (max scale (max (n_scale n1) (n_scale n2)))"
      "sign_val (n_sign r) * magnitude r = sign_val (n_sign n1) * sign_val (n_sign n2) * (magnitude n1 * magnitude n2 div 10 ^ (full - n_scale r))"
    using bc_multiply_value[OF ok, of scale] by (auto simp: full_def)
  define g where "g = (if n_sign n1 = n_sign n2 then PLUS else MINUS)"
  have g: "sign_val (n_sign n1) * sign_val (n_sign n2) = sign_val g" by (cases "n_sign n1"; cases "n_sign n2") (simp_all add: g_def)
  have "bc_val n1 * bc_val n2 = of_int ((sign_val (n_sign n1) * sign_val (n_sign n2)) * (magnitude n1 * magnitude n2)) / 10 ^ full"
    by (simp add: bc_val_def full_def power_add)
  moreover have "0 \<le> magnitude n1 * magnitude n2" "n_scale r \<le> full" using magnitude_bounds ok r(3) by simp_all
  note trunc_to_fraction[OF this, of g]
  ultimately have "trunc_to (n_scale r) (bc_val n1 * bc_val n2) = of_int (sign_val (n_sign r) * magnitude r) / 10 ^ n_scale r"
    unfolding g r(4) by (simp only:)
  then have "bc_val r = trunc_to (n_scale r) (bc_val n1 * bc_val n2)" by (simp only: bc_val_def)
  then show ?thesis using r by (auto simp: full_def)
qed

text \<open>C25: \<open>bc_multiply\<close> never leaves its accumulator, whichever way the factors are split, and gives
  the product cut to the scale \<open>MIN(n1 scale + n2 scale, MAX(scale, n1 scale, n2 scale))\<close>, as a
  normal number.\<close>

theorem bc_multiply_exact:
  assumes "bc_normal n1" "bc_normal n2" "n_len n1 + n_scale n1 + n_len n2 + n_scale n2 + scale + 3 \<le> INT_MAX"
  shows "\<exists>r. bc_multiply n1 n2 scale = Some r \<and> bc_normal r
    \<and> n_scale r = min (n_scale n1 + n_scale n2) (max scale (max (n_scale n1) (n_scale n2)))
    \<and> bc_val r = trunc_to (n_scale r) (bc_val n1 * bc_val n2)"
  using bc_multiply_trunc[of n1 n2 scale] assms(1,2) bc_normal_parts by auto

theorem bc_multiply_exact_witness:
  "\<exists>r. bc_multiply (sample_num PLUS [1, 5] 1) (sample_num MINUS [2, 7, 5] 2) 0 = Some r \<and> bc_normal r \<and> bc_val r = trunc_to 2 (- (33 / 8))"
proof -
  have n: "bc_normal (sample_num PLUS [1, 5] 1)" "bc_normal (sample_num MINUS [2, 7, 5] 2)"
    by (simp_all add: bc_normal_def bc_ok_def no_leading_def sample_num_def magnitude_def digits_def be_val_simps)
  have v: "bc_val (sample_num PLUS [1, 5] 1) = 3 / 2" "bc_val (sample_num MINUS [2, 7, 5] 2) = - (11 / 4)"
      "n_scale (sample_num PLUS [1, 5] 1) = 1" "n_scale (sample_num MINUS [2, 7, 5] 2) = 2"
    by (simp_all add: bc_val_def sample_num_def magnitude_def digits_def be_val_simps)
  have "n_len (sample_num PLUS [1, 5] 1) + 1 + n_len (sample_num MINUS [2, 7, 5] 2) + 2 + 0 + 3 \<le> INT_MAX"
    by (simp add: sample_num_def INT_MAX_def)
  then show ?thesis using bc_multiply_exact[OF n, of 0] unfolding v by (auto simp: numeral_2_eq_2)
qed

end
