(* ===== verification/BcDiv.thy ===== *)
theory BcDiv
  imports BcMul
begin

text \<open>
  Division (div.c, divmod.c): the quotient digits are guessed from the first digits of the divisor
  and of the rest, and corrected (Knuth, volume 2). \<open>num1\<close> holds the dividend and then the rest,
  most significant digit first; the divisor \<open>n2ptr\<close> has no leading zero. A write outside a buffer is the
  error \<open>Overrun\<close>. When the divisor is one the routine first stores a quotient that it
  replaces before it returns; this store is left out.
\<close>

section \<open>The code\<close>

datatype div_error = Div_zero | Overrun

fun one_mult_loop :: "int list \<Rightarrow> int \<Rightarrow> int \<Rightarrow> int list \<times> int" where
  "one_mult_loop [] digit carry = ([], carry)"
| "one_mult_loop (x # xs) digit carry =
     (let v = x * digit + carry; (ds, c) = one_mult_loop xs digit (v div 10) in (v mod 10 # ds, c))"

text \<open>The digit that goes before the result, and the result.\<close>

definition one_mult :: "int list \<Rightarrow> int \<Rightarrow> int \<times> int list" where
  "one_mult num digit =
     (if digit = 0 then (0, replicate (length num) 0)
      else if digit = 1 then (0, num)
      else let (ds, carry) = one_mult_loop (rev num) digit 0 in (carry, rev ds))"

definition guess_too_big :: "int list \<Rightarrow> int list \<Rightarrow> nat \<Rightarrow> int \<Rightarrow> bool" where
  "guess_too_big n2ptr num1 qdig qguess \<longleftrightarrow>
     (n2ptr @ [0]) ! 1 * qguess > (num1 ! qdig * 10 + num1 ! (qdig + 1) - n2ptr ! 0 * qguess) * 10 + num1 ! (qdig + 2)"

definition div_guess :: "int list \<Rightarrow> int list \<Rightarrow> nat \<Rightarrow> int" where
  "div_guess n2ptr num1 qdig =
     (let qguess = (if n2ptr ! 0 = num1 ! qdig then 9 else (num1 ! qdig * 10 + num1 ! (qdig + 1)) div n2ptr ! 0)
      in if guess_too_big n2ptr num1 qdig qguess
         then if guess_too_big n2ptr num1 qdig (qguess - 1) then qguess - 2 else qguess - 1
         else qguess)"

fun div_sub_loop :: "int list \<Rightarrow> int list \<Rightarrow> int \<Rightarrow> int list \<times> int" where
  "div_sub_loop (x # xs) (y # ys) borrow =
     (let (d, b) = sub_digit (x - y - borrow); (ds, b') = div_sub_loop xs ys b in (d # ds, b'))"
| "div_sub_loop xs ys borrow = ([], borrow)"

fun div_add_loop :: "int list \<Rightarrow> int list \<Rightarrow> int \<Rightarrow> int list \<times> int" where
  "div_add_loop (x # xs) (y # ys) carry =
     (let (d, c) = add_digit (x + y + carry); (ds, c') = div_add_loop xs ys c in (d # ds, c'))"
| "div_add_loop xs ys carry = ([], carry)"

text \<open>The multiply and subtract step, and the correction when the result is negative, on the
  digits of the rest that line up with the divisor.\<close>

definition div_subtract :: "int list \<Rightarrow> int list \<Rightarrow> int \<Rightarrow> int list \<times> int" where
  "div_subtract n2ptr w qguess =
     (if qguess \<noteq> 0 then
        let (c, mval) = one_mult n2ptr qguess; (ds, borrow) = div_sub_loop (rev w) (rev (c # mval)) 0 in (rev ds, borrow)
      else (w, 0))"

definition div_add_back :: "int list \<Rightarrow> int list \<Rightarrow> int list" where
  "div_add_back n2ptr w =
     (let (ds, carry) = div_add_loop (rev (drop 1 w)) (rev n2ptr) 0
      in (if carry = 1 then (w ! 0 + 1) mod 10 else w ! 0) # rev ds)"

definition div_step :: "int list \<Rightarrow> nat \<Rightarrow> int list \<Rightarrow> int \<times> int list" where
  "div_step n2ptr qdig num1 =
     (let len2 = length n2ptr;
          qguess = div_guess n2ptr num1 qdig;
          (w, borrow) = div_subtract n2ptr (take (len2 + 1) (drop qdig num1)) qguess;
          (qguess, w) = (if borrow = 1 then (qguess - 1, div_add_back n2ptr w) else (qguess, w))
      in (qguess, take qdig num1 @ w @ drop (qdig + len2 + 1) num1))"

fun div_loop :: "nat \<Rightarrow> int list \<Rightarrow> nat \<Rightarrow> int list \<Rightarrow> int list" where
  "div_loop 0 n2ptr qdig num1 = []"
| "div_loop (Suc n) n2ptr qdig num1 =
     (let (q, num1) = div_step n2ptr qdig num1 in q # div_loop n n2ptr (qdig + 1) num1)"

definition trailing_scale :: "bc_num \<Rightarrow> nat" where
  "trailing_scale n2 = length (dropWhile (\<lambda>d. d = 0) (rev (drop (n_len n2) (digits n2))))"

text \<open>Both operands are scaled so that the first digit of the divisor is at least five.\<close>

definition div_normalize :: "int list \<Rightarrow> int list \<Rightarrow> (int list \<times> int list) option" where
  "div_normalize num1 n2ptr =
     (let norm = 10 div (n2ptr ! 0 + 1)
      in if norm \<noteq> 1 then
           let (c1, ds1) = one_mult (take (length num1 - 1) num1) norm; (c2, ds2) = one_mult n2ptr norm
           in if c1 = 0 \<and> c2 = 0 then Some (ds1 @ drop (length num1 - 1) num1, ds2) else None
         else Some (num1, n2ptr))"

definition bc_divide :: "bc_num \<Rightarrow> bc_num \<Rightarrow> nat \<Rightarrow> div_error + bc_num" where
  "bc_divide n1 n2 scale =
     (if bc_is_zero n2 then Inl Div_zero
      else
        let scale2 = trailing_scale n2;
            len1 = n_len n1 + scale2;
            scale1 = int (n_scale n1) - int scale2;
            extra = (if scale1 < int scale then nat (int scale - scale1) else 0);
            num1 = 0 # take (n_len n1 + n_scale n1) (n_value n1) @ replicate (extra + 1) 0;
            n2ptr = dropWhile (\<lambda>d. d = 0) (take (n_len n2 + scale2) (n_value n2));
            len2 = length n2ptr;
            (qdigits, zero) =
              (if len2 > len1 + scale then (scale + 1, True)
               else (if len2 > len1 then scale + 1 else len1 - len2 + scale + 1, False));
            qvalue =
              (if zero then Inr (replicate qdigits 0)
               else case div_normalize num1 n2ptr of None \<Rightarrow> Inl Overrun
                 | Some (num1, n2ptr) \<Rightarrow>
                     Inr (replicate (len2 - len1) 0 @ div_loop (len1 + scale - len2 + 1) n2ptr 0 num1))
        in case qvalue of Inl e \<Rightarrow> Inl e
           | Inr ds \<Rightarrow>
               let qval = (bc_new_num (qdigits - scale) scale)
                     \<lparr>n_sign := (if n_sign n1 = n_sign n2 then PLUS else MINUS), n_value := ds\<rparr>;
                   qval = (if bc_is_zero qval then qval\<lparr>n_sign := PLUS\<rparr> else qval)
               in Inr (bc_rm_leading_zeros qval))"

section \<open>One digit of the quotient\<close>

lemma one_mult_loop_props:
  assumes "one_mult_loop xs digit carry = (ds, c)" "digit_list xs" "0 \<le> digit" "0 \<le> carry"
  shows "length ds = length xs \<and> digit_list ds \<and> 0 \<le> c \<and> le_val ds + 10 ^ length xs * c = digit * le_val xs + carry"
  using assms
proof (induction xs digit carry arbitrary: ds rule: one_mult_loop.induct)
  case (2 x xs digit carry)
  define v where "v = x * digit + carry"
  obtain es where e: "one_mult_loop xs digit (v div 10) = (es, c)" "ds = v mod 10 # es"
    using "2.prems"(1) by (auto simp: v_def Let_def split: prod.splits)
  have v: "0 \<le> v" using "2.prems" by (simp add: v_def)
  have IH: "length es = length xs \<and> digit_list es \<and> 0 \<le> c \<and> le_val es + 10 ^ length xs * c = digit * le_val xs + v div 10"
    using "2.IH"[OF v_def e(1)] "2.prems" v by simp
  have "le_val ds + 10 ^ length (x # xs) * c = v mod 10 + 10 * (le_val es + 10 ^ length xs * c)" by (simp add: e(2) algebra_simps)
  also have "\<dots> = digit * le_val (x # xs) + carry" using IH by (simp add: v_def algebra_simps)
  finally show ?case using IH e(2) v by simp
qed simp

lemma one_mult_props:
  assumes "one_mult num digit = (c, ds)" "digit_list num" "0 \<le> digit"
  shows "length ds = length num" "digit_list ds" "0 \<le> c" "be_val ds + 10 ^ length num * c = digit * be_val num"
  using assms one_mult_loop_props[of "rev num" digit 0 "rev ds" c]
  by (auto simp: one_mult_def be_val_def Let_def split: if_splits prod.splits)

lemma div_sub_loop_props:
  assumes "div_sub_loop xs ys borrow = (ds, b)" "length xs = length ys" "digit_list xs" "digit_list ys" "0 \<le> borrow" "borrow \<le> 1"
  shows "length ds = length xs \<and> digit_list ds \<and> 0 \<le> b \<and> b \<le> 1 \<and> le_val ds = le_val xs - le_val ys - borrow + 10 ^ length xs * b"
  using assms
proof (induction xs ys borrow arbitrary: ds rule: div_sub_loop.induct)
  case (1 x xs y ys borrow)
  obtain d c where d: "sub_digit (x - y - borrow) = (d, c)" by fastforce
  obtain es where e: "div_sub_loop xs ys c = (es, b)" "ds = d # es" using "1.prems"(1) d by (auto split: prod.splits)
  have p: "x - y - borrow = d - 10 * c \<and> 0 \<le> d \<and> d \<le> 9 \<and> 0 \<le> c \<and> c \<le> 1" using sub_digit_props[OF _ _ d] "1.prems" by simp
  have "length es = length xs \<and> digit_list es \<and> 0 \<le> b \<and> b \<le> 1 \<and> le_val es = le_val xs - le_val ys - c + 10 ^ length xs * b"
    using "1.IH"[OF d[symmetric] refl e(1)] "1.prems" p by simp
  then show ?case using p e(2) by (simp add: algebra_simps)
qed simp_all

lemma div_add_loop_props:
  assumes "div_add_loop xs ys carry = (ds, c)" "length xs = length ys" "digit_list xs" "digit_list ys" "0 \<le> carry" "carry \<le> 1"
  shows "length ds = length xs \<and> digit_list ds \<and> 0 \<le> c \<and> c \<le> 1 \<and> le_val ds + 10 ^ length xs * c = le_val xs + le_val ys + carry"
  using assms
proof (induction xs ys carry arbitrary: ds rule: div_add_loop.induct)
  case (1 x xs y ys carry)
  obtain d k where d: "add_digit (x + y + carry) = (d, k)" by fastforce
  obtain es where e: "div_add_loop xs ys k = (es, c)" "ds = d # es" using "1.prems"(1) d by (auto split: prod.splits)
  have p: "x + y + carry = d + 10 * k \<and> 0 \<le> d \<and> d \<le> 9 \<and> 0 \<le> k \<and> k \<le> 1" using add_digit_props[OF _ _ d] "1.prems" by simp
  have "length es = length xs \<and> digit_list es \<and> 0 \<le> c \<and> c \<le> 1 \<and> le_val es + 10 ^ length xs * c = le_val xs + le_val ys + k"
    using "1.IH"[OF d[symmetric] refl e(1)] "1.prems" p by simp
  then show ?case using p e(2) by (simp add: algebra_simps)
qed simp_all

text \<open>What the guess is worth: never too small, and at most one too big.\<close>

lemma guess_upper:
  fixes q :: int
  assumes "q * D \<le> V" "V < (u + 1) * B" "v * B \<le> D" "0 \<le> q" "0 < B"
  shows "q * v \<le> u"
proof -
  have "q * v * B \<le> q * D" using assms(3,4) by (simp add: mult.assoc mult_left_mono)
  then have "q * v * B < (u + 1) * B" using assms(1,2) by linarith
  then show ?thesis using assms(5) by (simp add: mult_less_cancel_right)
qed

lemma guess_lower:
  fixes q :: int
  assumes "(q - k) * (v + 1) \<le> u" "u * B \<le> V" "D \<le> (v + 1) * B" "0 < D" "0 < B" "0 \<le> V"
  shows "q - k \<le> V div D"
proof (cases "0 \<le> q - k")
  case True
  have "(q - k) * D \<le> (q - k) * ((v + 1) * B)" using True assms(3) by (intro mult_left_mono)
  also have "\<dots> \<le> u * B" using assms(1,5) by (simp add: mult.assoc[symmetric] mult_right_mono)
  finally have "(q - k) * D \<le> V" using assms(2) by simp
  then show ?thesis using zdiv_mono1[OF _ assms(4)] assms(4) by fastforce
next
  case False
  then show ?thesis using assms(4,6) pos_imp_zdiv_nonneg_iff[of D V] by linarith
qed

lemma int_div_mult_le: "0 < (b :: int) \<Longrightarrow> a div b * b \<le> a"
  by (metis minus_mod_eq_div_mult pos_mod_sign diff_left_mono diff_zero)

lemma int_div_less: "0 < (b :: int) \<Longrightarrow> a < k * b \<Longrightarrow> a div b < k"
  using int_div_mult_le[of b a] by (metis order.strict_trans1 mult_less_cancel_right_pos)

text \<open>The guess on the leading digits \<open>v0 v1\<close> of the divisor and \<open>u0 u1 u2\<close> of the rest.\<close>

definition guess3 :: "int \<Rightarrow> int \<Rightarrow> int \<Rightarrow> int \<Rightarrow> int \<Rightarrow> int" where
  "guess3 v0 v1 u0 u1 u2 =
     (let q = (if v0 = u0 then 9 else (u0 * 10 + u1) div v0); big = (\<lambda>q. v1 * q > (u0 * 10 + u1 - v0 * q) * 10 + u2)
      in if big q then if big (q - 1) then q - 2 else q - 1 else q)"

lemma guess3_bounds:
  fixes v0 v1 u0 u1 u2 :: int
  assumes v: "5 \<le> v0" "0 \<le> v1" and u: "0 \<le> u0" "u0 \<le> v0" "0 \<le> u1" "0 \<le> u2" "u1 \<le> 9" "v0 \<le> 9" "v1 \<le> 9" "u2 \<le> 9"
    and B: "0 < B" and D: "(10 * v0 + v1) * B \<le> D" "D < (10 * v0 + v1 + 1) * B"
    and V: "(100 * u0 + 10 * u1 + u2) * B \<le> V" "V < (100 * u0 + 10 * u1 + u2 + 1) * B" "V < 10 * D"
  shows "V div D \<le> guess3 v0 v1 u0 u1 u2" "guess3 v0 v1 u0 u1 u2 \<le> V div D + 1"
proof -
  define q where "q = V div D"
  define g where "g = (if v0 = u0 then 9 else (u0 * 10 + u1) div v0)"
  have "0 < (10 * v0 + v1) * B" using v B by simp
  then have D0: "0 < D" using D(1) by linarith
  have "0 \<le> (100 * u0 + 10 * u1 + u2) * B" using u B by simp
  then have V0: "0 \<le> V" using V(1) by linarith
  have q: "0 \<le> q" "q * D \<le> V" "q < 10" using D0 V0 V(3) by (simp_all add: q_def pos_imp_zdiv_nonneg_iff int_div_less int_div_mult_le)
  have up2: "q * (10 * v0 + v1) \<le> 100 * u0 + 10 * u1 + u2" using guess_upper[OF q(2) V(2) D(1) q(1) B] .
  have up1: "q * v0 \<le> 10 * u0 + u1"
  proof (rule guess_upper[OF q(2) _ _ q(1), of _ "10 * B"])
    have "(100 * u0 + 10 * u1 + u2 + 1) * B \<le> (100 * u0 + 10 * u1 + 10) * B" using u(8) B by (intro mult_right_mono) auto
    then show "V < (10 * u0 + u1 + 1) * (10 * B)" using V(2) by (simp add: algebra_simps)
    have "(10 * v0) * B \<le> (10 * v0 + v1) * B" using v B by (intro mult_right_mono) auto
    then show "v0 * (10 * B) \<le> D" using D(1) by (simp add: algebra_simps)
  qed (use B in simp)
  have g: "g * v0 \<le> 10 * u0 + u1" "g \<le> 9" "q \<le> g"
  proof -
    show "g * v0 \<le> 10 * u0 + u1" using u v int_div_mult_le[of v0 "u0 * 10 + u1"] by (auto simp: g_def)
    have "u0 \<noteq> v0 \<Longrightarrow> u0 * 10 + u1 < 10 * v0" using u by linarith
    then show "g \<le> 9" using v int_div_less[of v0 "u0 * 10 + u1" 10] by (auto simp: g_def)
    have "u0 \<noteq> v0 \<Longrightarrow> q \<le> (u0 * 10 + u1) div v0" using up1 v zdiv_mono1[of "q * v0" "u0 * 10 + u1" v0] by (simp add: mult.commute)
    then show "q \<le> g" using q by (simp add: g_def)
  qed
  have g2: "g - 2 \<le> q" unfolding q_def
  proof (rule guess_lower[OF _ _ _ D0 _ V0, of _ _ v0 "10 * u0 + u1" "10 * B"])
    show "(g - 2) * (v0 + 1) \<le> 10 * u0 + u1" using g(1,2) v by (simp add: algebra_simps)
    have "(100 * u0 + 10 * u1) * B \<le> (100 * u0 + 10 * u1 + u2) * B" using u B by (intro mult_right_mono) auto
    then show "(10 * u0 + u1) * (10 * B) \<le> V" using V(1) by (simp add: algebra_simps)
    have "(10 * v0 + v1 + 1) * B \<le> (10 * v0 + 10) * B" using u B by (intro mult_right_mono) auto
    then show "D \<le> (v0 + 1) * (10 * B)" using D(2) by (simp add: algebra_simps)
  qed (use B in simp)
  have fits: "r - 1 \<le> q" if "\<not> v1 * r > (u0 * 10 + u1 - v0 * r) * 10 + u2" "r \<le> 9" for r unfolding q_def
  proof (rule guess_lower[OF _ V(1) _ D0 B V0, of _ _ "10 * v0 + v1"])
    show "(r - 1) * (10 * v0 + v1 + 1) \<le> 100 * u0 + 10 * u1 + u2" using that v by (simp add: algebra_simps)
  qed (use D(2) in simp)
  have big: "q < r" if "v1 * r > (u0 * 10 + u1 - v0 * r) * 10 + u2" for r
  proof (rule ccontr)
    assume "\<not> q < r"
    then have "r * (10 * v0 + v1) \<le> q * (10 * v0 + v1)" using v by (intro mult_right_mono) auto
    then show False using that up2 by (simp add: algebra_simps)
  qed
  have "q \<le> guess3 v0 v1 u0 u1 u2 \<and> guess3 v0 v1 u0 u1 u2 \<le> q + 1"
    using g(2,3) g2 big[of g] big[of "g - 1"] fits[of g] fits[of "g - 1"] unfolding guess3_def Let_def g_def[symmetric] by auto
  then show "V div D \<le> guess3 v0 v1 u0 u1 u2" "guess3 v0 v1 u0 u1 u2 \<le> V div D + 1" by (simp_all add: q_def)
qed

lemma div_guess_guess3:
  "div_guess n2ptr num1 qdig = guess3 (n2ptr ! 0) ((n2ptr @ [0]) ! 1) (num1 ! qdig) (num1 ! (qdig + 1)) (num1 ! (qdig + 2))"
  unfolding div_guess_def guess3_def guess_too_big_def Let_def by simp

lemma digit_nth: "digit_list ds \<Longrightarrow> i < length ds \<Longrightarrow> 0 \<le> ds ! i \<and> ds ! i \<le> 9"
  by (simp add: digit_list_def list_all_length)

text \<open>A list of digits lies between its first two or three digits and the next number.\<close>

lemma be_val_leading:
  assumes "digit_list ds" "k \<le> length ds"
  shows "be_val (take k ds) * 10 ^ (length ds - k) \<le> be_val ds" "be_val ds < (be_val (take k ds) + 1) * 10 ^ (length ds - k)"
  using be_val_simps(3)[of "take k ds" "drop k ds"] be_val_bounds[of "drop k ds"] assms by (simp_all add: algebra_simps)

lemma div_guess_bounds:
  assumes d: "digit_list n2ptr" "digit_list num1" "n2ptr \<noteq> []" "5 \<le> n2ptr ! 0" and i: "qdig + length n2ptr + 1 < length num1"
    and w: "w = take (length n2ptr + 1) (drop qdig num1)" "be_val w < 10 * be_val n2ptr"
  shows "be_val w div be_val n2ptr \<le> div_guess n2ptr num1 qdig" "div_guess n2ptr num1 qdig \<le> be_val w div be_val n2ptr + 1"
proof -
  define u0 u1 u2 where "u0 = num1 ! qdig" and "u1 = num1 ! (qdig + 1)" and "u2 = num1 ! (qdig + 2)"
  define v0 v1 where "v0 = n2ptr ! 0" and "v1 = (n2ptr @ [0]) ! 1"
  have len: "1 \<le> length n2ptr" using d(3) by (cases n2ptr) auto
  then have u: "0 \<le> u0" "u0 \<le> 9" "0 \<le> u1" "u1 \<le> 9" "0 \<le> u2" "u2 \<le> 9" using digit_nth[OF d(2)] i by (auto simp: u0_def u1_def u2_def)
  have v: "0 \<le> v1" "v1 \<le> 9" "v0 \<le> 9" "5 \<le> v0" using digit_nth[of "n2ptr @ [0]" 1] digit_nth[of "n2ptr" 0] d len by (auto simp: v0_def v1_def)
  have wl: "length w = length n2ptr + 1" "digit_list w" using w i d by simp_all
  define D' where "D' = 10 * be_val n2ptr"
  define V' where "V' = 10 * be_val w + (if length n2ptr = 1 then u2 else 0)"
  define B :: int where "B = 10 ^ (length n2ptr - 1)"
  have B: "0 < B" by (simp add: B_def)
  have D0: "0 < be_val n2ptr"
  proof -
    have "10 * v0 * B \<le> D'" using be_val_leading(1)[OF d(1), of 1] len d(3) by (cases n2ptr) (simp_all add: v0_def D'_def B_def be_val_simps)
    moreover have "0 < 10 * v0 * B" using v(4) B by (intro mult_pos_pos) auto
    ultimately show ?thesis unfolding D'_def by linarith
  qed
  have D: "(10 * v0 + v1) * B \<le> D'" "D' < (10 * v0 + v1 + 1) * B"
  proof -
    have "be_val n2ptr * 10 = be_val (n2ptr @ [0])" by (simp add: be_val_simps)
    moreover have "be_val (take 2 (n2ptr @ [0])) = 10 * v0 + v1" using d(3) by (cases n2ptr; cases "tl n2ptr") (simp_all add: be_val_simps v0_def v1_def numeral_2_eq_2)
    ultimately show "(10 * v0 + v1) * B \<le> D'" "D' < (10 * v0 + v1 + 1) * B"
      using be_val_leading[of "n2ptr @ [0]" 2] d(1) len by (simp_all add: D'_def B_def)
  qed
  define x where "x = w @ [if length n2ptr = 1 then u2 else 0]"
  have x: "be_val x = V'" "digit_list x" "length x = length n2ptr + 2" using wl u by (simp_all add: x_def V'_def be_val_simps)
  have "take 3 x = [u0, u1, u2]"
  proof (rule nth_equalityI)
    show "length (take 3 x) = length [u0, u1, u2]" using x len by simp
    fix k assume "k < length (take 3 x)"
    then have "k = 0 \<or> k = 1 \<or> k = 2" using x(3) by auto
    then show "take 3 x ! k = [u0, u1, u2] ! k" using len i wl by (auto simp: x_def nth_append w u0_def u1_def u2_def)
  qed
  moreover have u3: "be_val [u0, u1, u2] = 100 * u0 + 10 * u1 + u2" by (simp add: be_val_simps)
  ultimately have V: "(100 * u0 + 10 * u1 + u2) * B \<le> V'" "V' < (100 * u0 + 10 * u1 + u2 + 1) * B"
    using be_val_leading[OF x(2), of 3] x len u3 by (simp_all add: B_def)
  have q: "V' div D' = be_val w div be_val n2ptr"
  proof -
    have "V' div 10 = be_val w" using u(5,6) by (simp add: V'_def)
    then show ?thesis unfolding D'_def using zdiv_zmult2_eq[of "be_val n2ptr" V' 10] D0 by simp
  qed
  have lt: "V' < 10 * D'" using w(2) u(6) by (simp add: V'_def D'_def)
  have "u0 \<le> v0"
  proof (rule ccontr)
    assume "\<not> u0 \<le> v0"
    then have "(100 * v0 + 100) * B \<le> (100 * u0 + 10 * u1 + u2) * B" using u B by (intro mult_right_mono) auto
    moreover have "(10 * v0 + v1 + 1) * B \<le> (10 * v0 + 10) * B" using v B by (intro mult_right_mono) auto
    ultimately show False using V(1) D(2) lt by (simp add: algebra_simps)
  qed
  from guess3_bounds[OF v(4,1) u(1) this u(3,5,4) v(3,2) u(6) B D V lt] q
  show "be_val w div be_val n2ptr \<le> div_guess n2ptr num1 qdig" "div_guess n2ptr num1 qdig \<le> be_val w div be_val n2ptr + 1"
    unfolding div_guess_guess3 by (simp_all add: u0_def u1_def u2_def v0_def v1_def)
qed

lemma div_add_back_props:
  assumes "digit_list n2ptr" "digit_list w" "length w = length n2ptr + 1"
  shows "length (div_add_back n2ptr w) = length w" "digit_list (div_add_back n2ptr w)"
    "\<exists>k. be_val (div_add_back n2ptr w) = be_val w + be_val n2ptr + k * 10 ^ length w"
proof -
  obtain t ws where w: "w = t # ws" "length ws = length n2ptr" using assms(3) by (cases w) auto
  obtain ds c where a: "div_add_loop (rev ws) (rev n2ptr) 0 = (ds, c)" by fastforce
  have t: "0 \<le> t" "t \<le> 9" "digit_list ws" using assms(2) w by auto
  have p: "length ds = length ws" "digit_list ds" "0 \<le> c" "c \<le> 1" "le_val ds + 10 ^ length ws * c = be_val ws + be_val n2ptr"
    using div_add_loop_props[OF a] t w assms by (simp_all add: be_val_def)
  define h where "h = (if c = 1 then (t + 1) mod 10 else t)"
  have e: "div_add_back n2ptr w = h # rev ds" using a by (simp add: div_add_back_def w h_def)
  have h: "0 \<le> h" "h \<le> 9" using t by (auto simp: h_def)
  show "length (div_add_back n2ptr w) = length w" "digit_list (div_add_back n2ptr w)" using e p w h by simp_all
  define m where "m = (t + c) div 10"
  have hm: "h = t + c - 10 * m" using p(3,4) t by (auto simp: h_def m_def minus_mult_div_eq_mod)
  have "h * 10 ^ length ws = t * 10 ^ length ws + c * 10 ^ length ws - m * (10 * 10 ^ length ws)" unfolding hm by (simp add: algebra_simps)
  moreover have "be_val (h # rev ds) = h * 10 ^ length ws + le_val ds" using p(1) by (simp add: be_val_def le_val_append)
  moreover have "be_val w = t * 10 ^ length ws + be_val ws" by (simp add: w be_val_simps)
  ultimately have "be_val (div_add_back n2ptr w) = be_val w + be_val n2ptr + (- m) * 10 ^ length w"
    using p(5) unfolding e by (simp add: w(1) mult.commute)
  then show "\<exists>k. be_val (div_add_back n2ptr w) = be_val w + be_val n2ptr + k * 10 ^ length w" ..
qed

lemma div_subtract_props:
  assumes "div_subtract n2ptr w q = (w', b)" "digit_list n2ptr" "digit_list w" "length w = length n2ptr + 1" "0 \<le> q" "q \<le> 10"
  shows "length w' = length w \<and> digit_list w' \<and> 0 \<le> b \<and> b \<le> 1 \<and> be_val w' = be_val w - q * be_val n2ptr + 10 ^ length w * b"
proof (cases "q = 0")
  case True
  then show ?thesis using assms by (simp add: div_subtract_def)
next
  case False
  obtain c m where m: "one_mult n2ptr q = (c, m)" by fastforce
  obtain ds b' where s: "div_sub_loop (rev w) (rev (c # m)) 0 = (ds, b')" by fastforce
  note p = one_mult_props[OF m assms(2,5)]
  have "10 ^ length n2ptr * c \<le> q * be_val n2ptr" using p(2,4) be_val_bounds[of m] by linarith
  also have "\<dots> \<le> 10 * be_val n2ptr" using assms(6) be_val_bounds[OF assms(2)] by (intro mult_right_mono) auto
  also have "\<dots> < 10 * 10 ^ length n2ptr" using be_val_bounds[OF assms(2)] by simp
  finally have "c < 10" by simp
  then have "digit_list (rev (c # m))" using p by simp
  moreover have "be_val (c # m) = q * be_val n2ptr" using p by (simp add: be_val_simps algebra_simps)
  moreover have "w' = rev ds" "b = b'" using assms(1) m s False by (auto simp: div_subtract_def)
  ultimately show ?thesis using div_sub_loop_props[OF s] assms p(1) by (simp add: be_val_def)
qed

text \<open>One round of the loop leaves the remainder and gives the digit.\<close>

lemma div_step_props:
  assumes d: "digit_list n2ptr" "digit_list num1" "n2ptr \<noteq> []" "5 \<le> n2ptr ! 0" and i: "qdig + length n2ptr + 1 < length num1"
    and lt: "be_val (take (qdig + length n2ptr) num1) < be_val n2ptr" and st: "div_step n2ptr qdig num1 = (q, num1')"
  defines "cur \<equiv> be_val (take (qdig + length n2ptr + 1) num1)"
  shows "q = cur div be_val n2ptr" "be_val (take (qdig + length n2ptr + 1) num1') = cur mod be_val n2ptr" "0 \<le> q" "q \<le> 9"
    "digit_list num1'" "length num1' = length num1" "drop (qdig + length n2ptr + 1) num1' = drop (qdig + length n2ptr + 1) num1"
proof -
  define l where "l = length n2ptr"
  define D where "D = be_val n2ptr"
  define w where "w = take (l + 1) (drop qdig num1)"
  have wl: "length w = l + 1" "digit_list w" using i d by (simp_all add: w_def l_def)
  have D: "D < 10 ^ l" "0 < D" using be_val_bounds[OF d(1)] lt be_val_bounds[of "take (qdig + length n2ptr) num1"] d(2) by (auto simp: D_def l_def)
  have "cur = be_val (take (qdig + l) num1) * 10 + num1 ! (qdig + l)"
    using i by (simp add: cur_def take_Suc_conv_app_nth be_val_simps l_def)
  then have c: "0 \<le> cur" "cur < 10 * D" using digit_nth[OF d(2), of "qdig + l"] i lt be_val_bounds[of "take (qdig + l) num1"] d(2)
    by (auto simp: D_def l_def)
  have "take (qdig + l + 1) num1 = take qdig num1 @ w" using take_add[of qdig "l + 1" num1] by (simp add: w_def)
  then have cw: "cur = be_val (take qdig num1) * 10 ^ (l + 1) + be_val w" using wl by (simp add: cur_def l_def be_val_simps)
  have "be_val (take qdig num1) * 10 ^ (l + 1) < 1 * 10 ^ (l + 1)" using c(2) D(1) cw be_val_bounds[OF wl(2)]
    unfolding mult_1_left power_add power_one_right by linarith
  then have z: "be_val (take qdig num1) = 0" using be_val_bounds[of "take qdig num1"] d(2) by simp
  then have V: "be_val w = cur" using cw by simp
  define g where "g = div_guess n2ptr num1 qdig"
  have g: "cur div D \<le> g" "g \<le> cur div D + 1"
    using div_guess_bounds[OF d i, of w] c V by (simp_all add: w_def l_def D_def g_def)
  have qb: "0 \<le> cur div D" "cur div D \<le> 9" "cur = cur div D * D + cur mod D" "0 \<le> cur mod D" "cur mod D < D"
    using c D int_div_less[of D cur 10] by (simp_all add: pos_imp_zdiv_nonneg_iff)
  obtain w1 b where s1: "div_subtract n2ptr w g = (w1, b)" by fastforce
  have p: "length w1 = l + 1" "digit_list w1" "0 \<le> b" "b \<le> 1" "be_val w1 = cur - g * D + 10 ^ (l + 1) * b"
    using div_subtract_props[OF s1 d(1) wl(2)] wl g qb V by (simp_all add: l_def D_def)
  have w1: "0 \<le> be_val w1" "be_val w1 < 10 ^ (l + 1)" using be_val_bounds[OF p(2)] p(1) by simp_all
  have m: "cur mod D < 10 ^ (l + 1)" using order.strict_trans[OF qb(5) D(1)] zero_less_power[of "10 :: int" l] unfolding power_add power_one_right by linarith
  have "\<exists>w2. q = cur div D \<and> num1' = take qdig num1 @ w2 @ drop (qdig + l + 1) num1 \<and> length w2 = l + 1 \<and> digit_list w2 \<and> be_val w2 = cur mod D"
  proof (cases "g = cur div D")
    case True
    have "be_val w1 = cur mod D + 10 ^ (l + 1) * b" using p(5) qb(3) unfolding True by linarith
    moreover have "b = 0" using calculation p(3,4) w1(2) qb(4) by (cases "b = 1") auto
    ultimately show ?thesis using st s1 True p unfolding div_step_def Let_def l_def[symmetric] w_def[symmetric] g_def[symmetric] by auto
  next
    case False
    then have gq: "g = cur div D + 1" using g by linarith
    have e: "be_val w1 = cur mod D - D + 10 ^ (l + 1) * b" using p(5) qb(3) unfolding gq distrib_right mult_1_left by linarith
    then have b: "b = 1" using p(3,4) w1(1) qb(5) by (cases "b = 0") auto
    note a = div_add_back_props[OF d(1) p(2), unfolded p(1), folded l_def D_def, OF refl]
    obtain k where "be_val (div_add_back n2ptr w1) = cur mod D + (1 + k) * 10 ^ (l + 1)" using a(3) e b by (auto simp: algebra_simps)
    moreover have "0 \<le> be_val (div_add_back n2ptr w1)" "be_val (div_add_back n2ptr w1) < 10 ^ (l + 1)" using be_val_bounds[OF a(2)] a(1) by simp_all
    ultimately have "be_val (div_add_back n2ptr w1) = cur mod D" using qb(4) m by (metis mod_mult_self1 mod_pos_pos_trivial)
    then show ?thesis using st s1 gq b a(1,2) unfolding div_step_def Let_def l_def[symmetric] w_def[symmetric] g_def[symmetric] by auto
  qed
  then obtain w2 where w2: "q = cur div D" "num1' = take qdig num1 @ w2 @ drop (qdig + l + 1) num1" "length w2 = l + 1" "digit_list w2" "be_val w2 = cur mod D" by blast
  have "take (qdig + l + 1) num1' = take qdig num1 @ w2" using w2(2,3) i by (simp add: l_def)
  then show "be_val (take (qdig + length n2ptr + 1) num1') = cur mod be_val n2ptr" using w2(5) z by (simp add: be_val_simps l_def D_def)
  show "q = cur div be_val n2ptr" "0 \<le> q" "q \<le> 9" using w2(1) qb by (simp_all add: D_def)
  show "digit_list num1'" "length num1' = length num1" using w2 d(2) i by (simp_all add: l_def)
  show "drop (qdig + length n2ptr + 1) num1' = drop (qdig + length n2ptr + 1) num1" using w2(2,3) i by (simp add: l_def)
qed

lemma div_loop_props:
  assumes "digit_list n2ptr" "digit_list num1" "n2ptr \<noteq> []" "5 \<le> n2ptr ! 0" "qdig + length n2ptr + n < length num1"
    "be_val (take (qdig + length n2ptr) num1) < be_val n2ptr"
  shows "length (div_loop n n2ptr qdig num1) = n \<and> digit_list (div_loop n n2ptr qdig num1)
    \<and> be_val (div_loop n n2ptr qdig num1) = be_val (take (qdig + length n2ptr + n) num1) div be_val n2ptr"
  using assms
proof (induction n arbitrary: qdig num1)
  case 0
  then show ?case using be_val_bounds[of "take (qdig + length n2ptr) num1"] by (simp add: be_val_simps div_pos_pos_trivial)
next
  case (Suc n)
  obtain q num1' where st: "div_step n2ptr qdig num1 = (q, num1')" by fastforce
  define l where "l = length n2ptr"
  define D where "D = be_val n2ptr"
  define cur where "cur = be_val (take (qdig + l + 1) num1)"
  have i: "qdig + length n2ptr + 1 < length num1" using Suc.prems(5) by simp
  note p = div_step_props[OF Suc.prems(1-4) i Suc.prems(6) st, folded l_def D_def, folded cur_def]
  have D0: "0 < D" using Suc.prems(6) be_val_bounds[of "take (qdig + length n2ptr) num1"] Suc.prems(2) by (simp add: D_def)
  have IH: "length (div_loop n n2ptr (qdig + 1) num1') = n \<and> digit_list (div_loop n n2ptr (qdig + 1) num1')
      \<and> be_val (div_loop n n2ptr (qdig + 1) num1') = be_val (take (qdig + 1 + l + n) num1') div D"
    using Suc.IH[of num1' "qdig + 1"] Suc.prems p D0 by (simp add: l_def D_def add.commute add.left_commute)
  define t where "t = take n (drop (qdig + l + 1) num1)"
  have tl: "length t = n" using Suc.prems(5) by (simp add: t_def l_def)
  have e: "take (qdig + l + 1 + n) xs = take (qdig + l + 1) xs @ take n (drop (qdig + l + 1) xs)" for xs :: "int list" by (rule take_add)
  have a: "be_val (take (qdig + l + 1 + n) num1) = cur * 10 ^ n + be_val t" unfolding e be_val_simps(3) t_def[symmetric] tl cur_def ..
  have b: "be_val (take (qdig + l + 1 + n) num1') = cur mod D * 10 ^ n + be_val t"
    unfolding e p(7) be_val_simps(3) t_def[symmetric] tl p(2) ..
  have "cur * 10 ^ n = (cur div D * D + cur mod D) * 10 ^ n" by simp
  also have "\<dots> = (cur div D * 10 ^ n) * D + cur mod D * 10 ^ n" unfolding distrib_right by (simp only: mult_ac)
  finally have "cur * 10 ^ n + be_val t = (cur div D * 10 ^ n) * D + (cur mod D * 10 ^ n + be_val t)" by (simp only: add.assoc)
  then have "(cur * 10 ^ n + be_val t) div D = cur div D * 10 ^ n + (cur mod D * 10 ^ n + be_val t) div D"
    using D0 div_mult_self3[of D "cur div D * 10 ^ n" "cur mod D * 10 ^ n + be_val t"] by (simp only:)
  moreover have "qdig + 1 + l + n = qdig + l + 1 + n" "qdig + length n2ptr + Suc n = qdig + l + 1 + n" by (simp_all add: l_def)
  ultimately have "be_val (q # div_loop n n2ptr (qdig + 1) num1') = be_val (take (qdig + length n2ptr + Suc n) num1) div be_val n2ptr"
    using IH a b p(1) by (simp only: be_val_simps(2) D_def)
  then show ?case using st IH p by simp
qed

section \<open>The quotient\<close>

text \<open>Dropping the zeros that end the divisor, and those it starts with.\<close>

lemma dropWhile_rev_zeros:
  fixes xs :: "int list"
  defines "k \<equiv> length (dropWhile (\<lambda>d. d = 0) (rev xs))"
  shows "xs = take k xs @ replicate (length xs - k) 0"
proof -
  have "rev xs = takeWhile (\<lambda>d. d = 0) (rev xs) @ dropWhile (\<lambda>d. d = 0) (rev xs)" by simp
  moreover have "takeWhile (\<lambda>d. d = 0) (rev xs) = replicate (length (takeWhile (\<lambda>d. d = 0) (rev xs))) 0"
    by (rule replicate_length_same[symmetric]) (metis set_takeWhileD)
  moreover have "length (takeWhile (\<lambda>d. d = 0) (rev xs)) = length xs - k"
    unfolding k_def by (metis add_diff_cancel_right' calculation(1) length_append length_rev)
  ultimately have "rev xs = replicate (length xs - k) 0 @ dropWhile (\<lambda>d. d = 0) (rev xs)" by metis
  then have x: "xs = rev (dropWhile (\<lambda>d. d = 0) (rev xs)) @ replicate (length xs - k) 0"
    by (metis rev_append rev_replicate rev_rev_ident)
  then have "take k xs = rev (dropWhile (\<lambda>d. d = 0) (rev xs))" unfolding k_def by (metis append_eq_conv_conj length_rev)
  then show ?thesis using x by simp
qed

lemma trailing_scale:
  assumes "bc_ok n"
  shows "trailing_scale n \<le> n_scale n"
    "magnitude n = be_val (take (n_len n + trailing_scale n) (n_value n)) * 10 ^ (n_scale n - trailing_scale n)"
proof -
  define fr where "fr = drop (n_len n) (digits n)"
  define k where "k = trailing_scale n"
  have l: "length fr = n_scale n" using bc_ok_digits[OF assms] by (simp add: fr_def)
  have "length (dropWhile (\<lambda>d. d = 0) (rev fr)) \<le> length fr" using length_dropWhile_le[of _ "rev fr"] by simp
  then show k: "trailing_scale n \<le> n_scale n" using l by (simp add: trailing_scale_def fr_def)
  have "digits n = take (n_len n) (digits n) @ fr" by (simp add: fr_def)
  also have "fr = take k fr @ replicate (n_scale n - k) 0" using dropWhile_rev_zeros[of fr] unfolding l k_def trailing_scale_def fr_def[symmetric] .
  also have "take (n_len n) (digits n) @ take k fr @ replicate (n_scale n - k) 0 = take (n_len n + k) (n_value n) @ replicate (n_scale n - k) 0"
    using k by (simp add: fr_def digits_def take_add drop_take min_def k_def)
  finally show "magnitude n = be_val (take (n_len n + trailing_scale n) (n_value n)) * 10 ^ (n_scale n - trailing_scale n)"
    unfolding magnitude_def by (metis add.right_neutral be_val_replicate be_val_simps(3) k_def length_replicate)
qed

lemma be_val_dropWhile: "be_val (dropWhile (\<lambda>d. d = 0) ds) = be_val ds"
  by (induction ds) (simp_all add: be_val_simps)

lemma digit_list_dropWhile: "digit_list ds \<Longrightarrow> digit_list (dropWhile P ds)"
  by (induction ds) simp_all

lemma one_mult_no_carry:
  assumes "one_mult num k = (c, ds)" "digit_list num" "0 \<le> k" "k * be_val num < 10 ^ length num"
  shows "c = 0" "length ds = length num" "digit_list ds" "be_val ds = k * be_val num"
proof -
  note p = one_mult_props[OF assms(1-3)]
  have "10 ^ length num * c < 10 ^ length num * 1" using p(2,4) assms(4) be_val_bounds[of ds] by linarith
  then show "c = 0" using p(3) by simp
  then show "length ds = length num" "digit_list ds" "be_val ds = k * be_val num" using p by simp_all
qed

lemma norm_cases:
  fixes d :: int
  assumes "0 < d" "d \<le> 9"
  shows "0 < 10 div (d + 1)" "10 div (d + 1) \<le> 5" "10 div (d + 1) * (d + 1) \<le> 10" "5 \<le> 10 div (d + 1) * d"
proof -
  have "d = 1 \<or> d = 2 \<or> d = 3 \<or> d = 4 \<or> d = 5 \<or> d = 6 \<or> d = 7 \<or> d = 8 \<or> d = 9" using assms by linarith
  then show "0 < 10 div (d + 1)" "10 div (d + 1) \<le> 5" "10 div (d + 1) * (d + 1) \<le> 10" "5 \<le> 10 div (d + 1) * d" by auto
qed

lemma div_normalize_props:
  assumes d: "digit_list num1" "digit_list n2ptr" "n2ptr \<noteq> []" "n2ptr ! 0 \<noteq> 0" and num: "num1 = 0 # ds @ [0]"
  shows "\<exists>norm ms ns. div_normalize num1 n2ptr = Some (ms, ns) \<and> 0 < norm \<and> norm \<le> 5 \<and> digit_list ms \<and> digit_list ns \<and> length ms = length num1
    \<and> length ns = length n2ptr \<and> be_val ms = norm * be_val num1 \<and> be_val ns = norm * be_val n2ptr \<and> 5 \<le> ns ! 0"
proof -
  define v where "v = n2ptr ! 0"
  define k where "k = 10 div (v + 1)"
  have v: "0 < v" "v \<le> 9" using digit_nth[OF d(2), of 0] d(3,4) by (auto simp: v_def)
  note n = norm_cases[OF v, folded k_def]
  have len: "1 \<le> length n2ptr" using d(3) by (cases n2ptr) auto
  define B :: int where "B = 10 ^ (length n2ptr - 1)"
  have BB: "10 ^ length n2ptr = 10 * B" using len by (cases n2ptr) (simp_all add: B_def)
  have B: "0 < B" by (simp add: B_def)
  have lead: "be_val (take 1 xs) = xs ! 0" if "xs \<noteq> []" for xs :: "int list" using that by (cases xs) (simp_all add: be_val_simps)
  have D: "v * B \<le> be_val n2ptr" "be_val n2ptr < (v + 1) * B" using be_val_leading[OF d(2) len] lead[OF d(3)] by (simp_all add: v_def B_def)
  have fit: "k * be_val n2ptr < 10 ^ length n2ptr"
  proof -
    have "k * be_val n2ptr < k * ((v + 1) * B)" using D(2) n(1) by simp
    also have "\<dots> = k * (v + 1) * B" by simp
    also have "\<dots> \<le> 10 * B" using n(3) B by (intro mult_right_mono) auto
    finally show ?thesis by (simp add: BB)
  qed
  have first: "5 \<le> ns ! 0" if ns: "digit_list ns" "length ns = length n2ptr" "be_val ns = k * be_val n2ptr" for ns
  proof -
    have "ns \<noteq> []" using ns(2) len by auto
    then have "be_val ns < (ns ! 0 + 1) * B" using be_val_leading(2)[OF ns(1), of 1] ns(2) len lead by (simp add: B_def)
    moreover have "k * v * B \<le> be_val ns" using D(1) n(1) unfolding ns(3) by (simp add: mult.assoc)
    ultimately have "k * v * B < (ns ! 0 + 1) * B" by linarith
    then show ?thesis using n(4) B by simp
  qed
  have ds: "digit_list ds" using d(1) num by simp
  show ?thesis
  proof (cases "k = 1")
    case True
    then have "div_normalize num1 n2ptr = Some (num1, n2ptr)" by (simp add: div_normalize_def k_def v_def Let_def)
    then show ?thesis using first[of n2ptr] d True by (intro exI[of _ "1 :: int"]) auto
  next
    case False
    obtain c1 e1 where e1: "one_mult (0 # ds) k = (c1, e1)" by fastforce
    obtain c2 e2 where e2: "one_mult n2ptr k = (c2, e2)" by fastforce
    have k0: "0 \<le> k" using n(1) by simp
    note p2 = one_mult_no_carry[OF e2 d(2) k0 fit]
    have "k * be_val ds < 10 * 10 ^ length ds" using be_val_bounds[OF ds] n(1,2) mult_mono[of k 5 "be_val ds" "10 ^ length ds"] zero_less_power[of "10 :: int" "length ds"] by auto
    then have "k * be_val (0 # ds) < 10 ^ length (0 # ds)" by (simp add: be_val_simps)
    note p1 = one_mult_no_carry[OF e1 _ k0 this]
    have t: "take (length num1 - 1) num1 = 0 # ds" "drop (length num1 - 1) num1 = [0]" by (simp_all add: num)
    have "div_normalize num1 n2ptr = Some (e1 @ [0], e2)"
      unfolding div_normalize_def Let_def t v_def[symmetric] k_def[symmetric] e1 e2 using False p1(1) p2(1) ds by simp
    moreover have "be_val (e1 @ [0]) = k * be_val num1" using p1(4) ds by (simp add: num be_val_simps)
    ultimately show ?thesis using first[OF p2(3,2,4)] p1 p2 n(1,2) ds by (intro exI[of _ k] exI[of _ "e1 @ [0]"] exI[of _ e2]) (simp add: num)
  qed
qed

text \<open>The digits of the quotient.\<close>

lemma first_nonzero:
  fixes ds :: "int list"
  assumes "be_val ds \<noteq> 0" "digit_list ds"
  defines "n2ptr \<equiv> dropWhile (\<lambda>d. d = 0) ds"
  shows "n2ptr \<noteq> []" "n2ptr ! 0 \<noteq> 0" "10 ^ (length n2ptr - 1) \<le> be_val n2ptr" "be_val n2ptr = be_val ds" "digit_list n2ptr"
proof -
  show e: "be_val n2ptr = be_val ds" and d: "digit_list n2ptr" using be_val_dropWhile digit_list_dropWhile assms(2) by (simp_all add: n2ptr_def)
  then show n: "n2ptr \<noteq> []" using assms(1) by (auto simp: be_val_simps)
  then have "hd n2ptr \<noteq> 0" unfolding n2ptr_def using hd_dropWhile[of "\<lambda>d. d = 0" ds] by simp
  then show "n2ptr ! 0 \<noteq> 0" "10 ^ (length n2ptr - 1) \<le> be_val n2ptr" using n hd_lower[OF n d] by (simp_all add: hd_conv_nth)
qed

lemma quotient_digits:
  assumes d: "digit_list ds" "digit_list n2ptr" "n2ptr \<noteq> []" "n2ptr ! 0 \<noteq> 0" "10 ^ (length n2ptr - 1) \<le> be_val n2ptr"
    and num: "num1 = 0 # ds @ [0]" and len: "length n2ptr \<le> m" "m \<le> length ds"
  shows "\<exists>ms ns. div_normalize num1 n2ptr = Some (ms, ns) \<and> length (div_loop (m + 1 - length n2ptr) ns 0 ms) = m + 1 - length n2ptr
    \<and> digit_list (div_loop (m + 1 - length n2ptr) ns 0 ms)
    \<and> be_val (div_loop (m + 1 - length n2ptr) ns 0 ms) = be_val ds div (10 ^ (length ds - m) * be_val n2ptr)"
proof -
  have dn: "digit_list num1" using d(1) num by simp
  obtain k ms ns where n: "div_normalize num1 n2ptr = Some (ms, ns)" "0 < k" "k \<le> 5" "digit_list ms" "digit_list ns" "length ms = length num1"
      "length ns = length n2ptr" "be_val ms = k * be_val num1" "be_val ns = k * be_val n2ptr" "5 \<le> ns ! 0"
    using div_normalize_props[OF dn d(2-4) num] by blast
  define l where "l = length n2ptr"
  define L where "L = length ds"
  have l: "1 \<le> l" using d(3) by (cases n2ptr) (simp_all add: l_def)
  have lm: "length ms = L + 2" "l \<le> m" "m \<le> L" using n(6) len by (simp_all add: num L_def l_def)
  have bm: "be_val ms = k * be_val ds * 10" using n(8) by (simp add: num be_val_simps)
  have tk: "be_val (take j ms) = k * be_val ds div 10 ^ (L + 1 - j)" if "j \<le> L + 1" for j
  proof -
    have "be_val (take j ms) = be_val ms div 10 ^ (L + 2 - j)" using be_val_take[OF n(4), of j] lm that by simp
    also have "10 ^ (L + 2 - j) = (10 :: int) * 10 ^ (L + 1 - j)" using that by (simp add: Suc_diff_le)
    finally show ?thesis unfolding bm by (simp add: zdiv_zmult2_eq)
  qed
  have "be_val (take (0 + length ns) ms) < be_val ns"
  proof -
    have "k * be_val ds < k * 10 ^ L" using be_val_bounds[OF d(1)] n(2) by (simp add: L_def)
    also have "\<dots> = k * 10 ^ (l - 1) * 10 ^ (L + 1 - l)" using l lm by (simp add: mult.assoc flip: power_add)
    finally have "be_val (take l ms) < k * 10 ^ (l - 1)" using tk[of l] lm int_div_less[of "10 ^ (L + 1 - l)"] by simp
    also have "\<dots> \<le> be_val ns" using d(5) n(2,9) by (simp add: l_def)
    finally show ?thesis using n(7) by (simp add: l_def)
  qed
  moreover have "ns \<noteq> []" using n(7) d(3) by auto
  ultimately have p: "length (div_loop (m + 1 - l) ns 0 ms) = m + 1 - l \<and> digit_list (div_loop (m + 1 - l) ns 0 ms)
      \<and> be_val (div_loop (m + 1 - l) ns 0 ms) = be_val (take (0 + length ns + (m + 1 - l)) ms) div be_val ns"
    using n(4,5,7,10) lm by (intro div_loop_props) (auto simp: l_def)
  have "be_val (take (0 + length ns + (m + 1 - l)) ms) div be_val ns = k * be_val ds div 10 ^ (L - m) div (k * be_val n2ptr)"
    using tk[of "m + 1"] lm n(7,9) by (simp add: l_def)
  also have "\<dots> = k * be_val ds div (k * (10 ^ (L - m) * be_val n2ptr))"
    by (subst zdiv_zmult2_eq[symmetric]) (use n(2) be_val_bounds[OF d(2)] in \<open>simp_all add: mult.left_commute\<close>)
  also have "\<dots> = be_val ds div (10 ^ (L - m) * be_val n2ptr)" using n(2) by simp
  finally show ?thesis using n(1) p by (simp add: l_def L_def)
qed

text \<open>The digits that \<open>bc_divide\<close> puts together, before the sign and the leading zeros.\<close>

definition qvalue :: "nat \<Rightarrow> nat \<Rightarrow> int list \<Rightarrow> int list \<Rightarrow> div_error + int list" where
  "qvalue len1 scale num1 n2ptr =
     (if length n2ptr > len1 + scale then Inr (replicate (scale + 1) 0)
      else case div_normalize num1 n2ptr of None \<Rightarrow> Inl Overrun
        | Some (num1, ns) \<Rightarrow> Inr (replicate (length n2ptr - len1) 0 @ div_loop (len1 + scale - length n2ptr + 1) ns 0 num1))"

lemma qvalue_props:
  assumes d: "digit_list ds" "digit_list n2ptr" "n2ptr \<noteq> []" "n2ptr ! 0 \<noteq> 0" "10 ^ (length n2ptr - 1) \<le> be_val n2ptr" and len: "len1 + scale \<le> length ds"
  shows "\<exists>qs. qvalue len1 scale (0 # ds @ [0]) n2ptr = Inr qs \<and> digit_list qs
    \<and> length qs = (if length n2ptr > len1 then scale + 1 else len1 - length n2ptr + scale + 1)
    \<and> be_val qs = be_val ds div (10 ^ (length ds - (len1 + scale)) * be_val n2ptr)"
proof (cases "length n2ptr > len1 + scale")
  case True
  have "be_val ds < 10 ^ (length ds - (len1 + scale)) * 10 ^ (len1 + scale)" using be_val_bounds[OF d(1)] len by (simp flip: power_add)
  also have "\<dots> \<le> 10 ^ (length ds - (len1 + scale)) * 10 ^ (length n2ptr - 1)" using True by (intro mult_left_mono power_increasing) auto
  also have "\<dots> \<le> 10 ^ (length ds - (len1 + scale)) * be_val n2ptr" using d(5) by simp
  finally have "be_val ds div (10 ^ (length ds - (len1 + scale)) * be_val n2ptr) = 0" using be_val_bounds[OF d(1)] by (simp add: div_pos_pos_trivial)
  then show ?thesis using True by (simp add: qvalue_def be_val_simps)
next
  case False
  have l: "1 \<le> length n2ptr" using d(3) by (cases n2ptr) simp_all
  obtain ms ns where q: "div_normalize (0 # ds @ [0]) n2ptr = Some (ms, ns)" "length (div_loop (len1 + scale + 1 - length n2ptr) ns 0 ms) = len1 + scale + 1 - length n2ptr"
      "digit_list (div_loop (len1 + scale + 1 - length n2ptr) ns 0 ms)"
      "be_val (div_loop (len1 + scale + 1 - length n2ptr) ns 0 ms) = be_val ds div (10 ^ (length ds - (len1 + scale)) * be_val n2ptr)"
    using quotient_digits[OF d refl, of "len1 + scale"] False len by auto
  have "len1 + scale - length n2ptr + 1 = len1 + scale + 1 - length n2ptr" using False by simp
  then show ?thesis using q False by (auto simp: qvalue_def be_val_simps)
qed

lemma bc_divide_unfold:
  fixes n1 n2 :: bc_num and scale :: nat
  assumes "\<not> bc_is_zero n2"
  defines "len1 \<equiv> n_len n1 + trailing_scale n2" and "n2ptr \<equiv> dropWhile (\<lambda>d. d = 0) (take (n_len n2 + trailing_scale n2) (n_value n2))"
  defines "extra \<equiv> scale + trailing_scale n2 - n_scale n1"
  defines "qdigits \<equiv> (if length n2ptr > len1 then scale + 1 else len1 - length n2ptr + scale + 1)"
  assumes "qvalue len1 scale (0 # (digits n1 @ replicate extra 0) @ [0]) n2ptr = Inr qs"
  defines "q \<equiv> \<lparr>n_sign = (if n_sign n1 = n_sign n2 then PLUS else MINUS), n_len = qdigits - scale, n_scale = scale, n_value = qs\<rparr>"
  shows "bc_divide n1 n2 scale = Inr (bc_rm_leading_zeros (if bc_is_zero q then q\<lparr>n_sign := PLUS\<rparr> else q))"
proof -
  have ex: "(if int (n_scale n1) - int (trailing_scale n2) < int scale then nat (int scale - (int (n_scale n1) - int (trailing_scale n2))) else 0) = extra"
    unfolding extra_def by (auto simp: nat_eq_iff)
  have num: "0 # take (n_len n1 + n_scale n1) (n_value n1) @ replicate (extra + 1) 0 = 0 # (digits n1 @ replicate extra 0) @ [0]"
    by (simp add: digits_def replicate_append_same)
  show ?thesis
  proof (cases "length n2ptr > len1 + scale")
    case True
    then show ?thesis using assms(1,6) unfolding bc_divide_def Let_def ex num len1_def[symmetric] n2ptr_def[symmetric] qvalue_def
      by (simp add: bc_new_num_def q_def qdigits_def)
  next
    case False
    then show ?thesis using assms(1,6) unfolding bc_divide_def Let_def ex num len1_def[symmetric] n2ptr_def[symmetric] qvalue_def
      by (auto simp: bc_new_num_def q_def qdigits_def split: option.splits)
  qed
qed

lemma bc_divide_value:
  assumes ok: "bc_ok n1" "bc_ok n2" and nz: "magnitude n2 \<noteq> 0"
  shows "\<exists>r. bc_divide n1 n2 scale = Inr r \<and> bc_normal r \<and> n_scale r = scale
    \<and> sign_val (n_sign r) * magnitude r
      = sign_val (n_sign n1) * sign_val (n_sign n2) * (magnitude n1 * 10 ^ (scale + n_scale n2) div (magnitude n2 * 10 ^ n_scale n1))"
proof -
  define t where "t = trailing_scale n2"
  define len1 where "len1 = n_len n1 + t"
  define n2ptr where "n2ptr = dropWhile (\<lambda>d. d = 0) (take (n_len n2 + t) (n_value n2))"
  define extra where "extra = scale + t - n_scale n1"
  define ds where "ds = digits n1 @ replicate extra 0"
  note ts = trailing_scale[OF ok(2), folded t_def]
  have d2: "digit_list (take (n_len n2 + t) (n_value n2))" using ok(2) by (simp add: bc_ok_def)
  have "be_val (take (n_len n2 + t) (n_value n2)) \<noteq> 0" using ts(2) nz by auto
  note f = first_nonzero[OF this d2, folded n2ptr_def]
  have ds: "digit_list ds" "length ds = n_len n1 + n_scale n1 + extra" "be_val ds = magnitude n1 * 10 ^ extra"
    using bc_ok_digits[OF ok(1)] by (simp_all add: ds_def be_val_simps magnitude_def)
  define k where "k = length ds - (len1 + scale)"
  have k: "len1 + scale \<le> length ds" "k + t + scale = n_scale n1 + extra" by (simp_all add: ds(2) len1_def extra_def k_def)
  obtain qs where qs: "qvalue len1 scale (0 # ds @ [0]) n2ptr = Inr qs" "digit_list qs"
      "length qs = (if length n2ptr > len1 then scale + 1 else len1 - length n2ptr + scale + 1)" "be_val qs = be_val ds div (10 ^ k * be_val n2ptr)"
    using qvalue_props[OF ds(1) f(5,1,2,3) k(1)] by (auto simp: k_def)
  have "be_val qs = (be_val ds * 10 ^ (n_scale n2 - t + n_scale n1)) div (10 ^ k * be_val n2ptr * 10 ^ (n_scale n2 - t + n_scale n1))"
    unfolding qs(4) by simp
  also have "be_val ds * 10 ^ (n_scale n2 - t + n_scale n1) = magnitude n1 * 10 ^ (scale + n_scale n2) * 10 ^ k"
  proof -
    have "extra + (n_scale n2 - t + n_scale n1) = scale + n_scale n2 + k" using k(2) ts(1) by linarith
    then show ?thesis unfolding ds(3) mult.assoc by (simp only: power_add[symmetric])
  qed
  also have "10 ^ k * be_val n2ptr * 10 ^ (n_scale n2 - t + n_scale n1) = magnitude n2 * 10 ^ n_scale n1 * 10 ^ k"
    unfolding ts(2) f(4) power_add by (simp only: mult_ac)
  finally have v: "be_val qs = magnitude n1 * 10 ^ (scale + n_scale n2) div (magnitude n2 * 10 ^ n_scale n1)" by simp
  define g where "g = (if n_sign n1 = n_sign n2 then PLUS else MINUS)"
  define q where "q = \<lparr>n_sign = g, n_len = length qs - scale, n_scale = scale, n_value = qs\<rparr>"
  have z: "\<not> bc_is_zero n2" using bc_is_zero_iff[OF ok(2)] nz by simp
  have e: "bc_divide n1 n2 scale = Inr (bc_rm_leading_zeros (if bc_is_zero q then q\<lparr>n_sign := PLUS\<rparr> else q))"
    using bc_divide_unfold[OF z, of n1 scale qs] qs(1,3)
    unfolding t_def[symmetric] len1_def[symmetric] n2ptr_def[symmetric] extra_def[symmetric] ds_def[symmetric] q_def g_def by simp
  have q: "bc_ok q" "0 < n_len q" "magnitude q = be_val qs" using qs(2,3) by (auto simp: q_def bc_ok_def magnitude_def digits_def)
  define q' where "q' = (if bc_is_zero q then q\<lparr>n_sign := PLUS\<rparr> else q)"
  have q': "bc_ok q'" "0 < n_len q'" "magnitude q' = be_val qs" "n_scale q' = scale" "n_sign q' = (if be_val qs = 0 then PLUS else g)"
    using q bc_is_zero_iff[OF q(1)] by (auto simp: q'_def bc_ok_def magnitude_def digits_def q_def)
  note R = bc_rm_leading_zeros[OF q'(1,2)]
  have "sign_val g = sign_val (n_sign n1) * sign_val (n_sign n2)" by (cases "n_sign n1"; cases "n_sign n2") (simp_all add: g_def)
  then have "sign_val (n_sign (bc_rm_leading_zeros q')) * magnitude (bc_rm_leading_zeros q') = sign_val (n_sign n1) * sign_val (n_sign n2) * be_val qs"
    using R q' by simp
  moreover have "bc_normal (bc_rm_leading_zeros q')" using R q' by (simp add: bc_normal_def split: if_splits)
  ultimately show ?thesis using e R(4) q'(4) unfolding v q'_def by blast
qed

lemma bc_divide_exact_aux:
  assumes "bc_normal n1" "bc_normal n2" "bc_val n2 \<noteq> 0"
  shows "\<exists>r. bc_divide n1 n2 scale = Inr r \<and> bc_normal r \<and> n_scale r = scale \<and> bc_val r = trunc_to scale (bc_val n1 / bc_val n2)"
proof -
  have ok: "bc_ok n1" "bc_ok n2" using assms by (simp_all add: bc_normal_def)
  have nz: "magnitude n2 \<noteq> 0" using assms(3) by (simp add: bc_val_zero_iff)
  obtain r where r: "bc_divide n1 n2 scale = Inr r" "bc_normal r" "n_scale r = scale"
      "sign_val (n_sign r) * magnitude r = sign_val (n_sign n1) * sign_val (n_sign n2) * (magnitude n1 * 10 ^ (scale + n_scale n2) div (magnitude n2 * 10 ^ n_scale n1))"
    using bc_divide_value[OF ok nz, of scale] by blast
  have "bc_val r = trunc_to scale (bc_val n1 / bc_val n2)"
  proof -
    define g where "g = (if n_sign n1 = n_sign n2 then PLUS else MINUS)"
    define k where "k = magnitude n2 * 10 ^ n_scale n1"
    have g: "sign_val (n_sign n1) * sign_val (n_sign n2) = sign_val g" by (cases "n_sign n1"; cases "n_sign n2") (simp_all add: g_def)
    have "bc_val n1 / bc_val n2 = of_int (sign_val (n_sign n1) * sign_val (n_sign n2) * (magnitude n1 * 10 ^ n_scale n2)) / of_int k"
      by (cases "n_sign n2") (simp_all add: bc_val_def k_def mult_ac)
    moreover have "0 \<le> magnitude n1 * 10 ^ n_scale n2" "0 < k" using magnitude_bounds[OF ok(1)] magnitude_bounds[OF ok(2)] nz by (auto simp: k_def)
    note trunc_to_quotient[OF this, of scale g]
    moreover have "magnitude n1 * 10 ^ n_scale n2 * 10 ^ scale = magnitude n1 * 10 ^ (scale + n_scale n2)" by (simp add: power_add)
    ultimately show ?thesis unfolding bc_val_def[of r] r(3,4) g k_def[symmetric] by (simp only:)
  qed
  then show ?thesis using r by blast
qed

lemma bc_divide_zero: "bc_normal n2 \<Longrightarrow> bc_val n2 = 0 \<Longrightarrow> bc_divide n1 n2 scale = Inl Div_zero"
  using bc_is_zero_iff[of n2] by (simp add: bc_divide_def bc_val_zero_iff bc_normal_def)



section \<open>Quotient and remainder\<close>

definition bc_divmod :: "bc_num \<Rightarrow> bc_num \<Rightarrow> nat \<Rightarrow> div_error + bc_num \<times> bc_num" where
  "bc_divmod num1 num2 scale =
     (if bc_is_zero num2 then Inl Div_zero
      else
        let rscale = max (n_scale num1) (n_scale num2 + scale)
        in case bc_divide num1 num2 0 of Inl e \<Rightarrow> Inl e
           | Inr qt \<Rightarrow>
               (case bc_multiply qt num2 rscale of None \<Rightarrow> Inl Overrun
                | Some temp \<Rightarrow> Inr (qt, bc_sub num1 temp rscale)))"

definition bc_modulo :: "bc_num \<Rightarrow> bc_num \<Rightarrow> nat \<Rightarrow> div_error + bc_num" where
  "bc_modulo num1 num2 scale = map_sum id snd (bc_divmod num1 num2 scale)"

lemma trunc_to_0: "\<bar>x - trunc_to 0 x\<bar> < 1" "0 \<le> (x - trunc_to 0 x) * x"
proof -
  have "\<bar>x - trunc_to 0 x\<bar> < 1 \<and> 0 \<le> (x - trunc_to 0 x) * x"
  proof (cases "x < 0")
    case True
    then have t: "x - trunc_to 0 x = - (- x - of_int \<lfloor>- x\<rfloor>)" by (simp add: trunc_to_def)
    have f: "0 \<le> - x - of_int \<lfloor>- x\<rfloor>" "- x - of_int \<lfloor>- x\<rfloor> < 1" by linarith+
    show ?thesis unfolding t by (intro conjI mult_nonpos_nonpos) (use f True in linarith)+
  next
    case False
    then have t: "x - trunc_to 0 x = x - of_int \<lfloor>x\<rfloor>" by (simp add: trunc_to_def)
    have f: "0 \<le> x - of_int \<lfloor>x\<rfloor>" "x - of_int \<lfloor>x\<rfloor> < 1" by linarith+
    show ?thesis unfolding t by (intro conjI mult_nonneg_nonneg) (use f False in linarith)+
  qed
  then show "\<bar>x - trunc_to 0 x\<bar> < 1" "0 \<le> (x - trunc_to 0 x) * x" by auto
qed

lemma bc_divmod_nonzero:
  assumes "bc_normal n1" "bc_normal n2" and nz: "bc_val n2 \<noteq> 0"
  shows "\<exists>q r. bc_divmod n1 n2 scale = Inr (q, r) \<and> bc_normal q \<and> bc_normal r \<and> n_scale r = max (n_scale n1) (n_scale n2 + scale)
      \<and> bc_val q = trunc_to 0 (bc_val n1 / bc_val n2) \<and> bc_val n1 = bc_val q * bc_val n2 + bc_val r
      \<and> \<bar>bc_val r\<bar> < \<bar>bc_val n2\<bar> \<and> 0 \<le> bc_val r * bc_val n1"
proof -
  define rscale where "rscale = max (n_scale n1) (n_scale n2 + scale)"
  have z: "\<not> bc_is_zero n2" using nz assms(2) bc_is_zero_iff[of n2] by (simp add: bc_val_zero_iff bc_normal_def)
  obtain q where q: "bc_divide n1 n2 0 = Inr q" "bc_normal q" "n_scale q = 0" "bc_val q = trunc_to 0 (bc_val n1 / bc_val n2)"
    using bc_divide_exact_aux[OF assms, of 0] by blast
  obtain p where p: "bc_multiply q n2 rscale = Some p" "bc_normal p" "n_scale p = n_scale n2" "bc_val p = bc_val q * bc_val n2"
    using bc_multiply_full[OF q(2) assms(2), of rscale] q(3) by auto
  define r where "r = bc_sub n1 p rscale"
  have ok: "bc_ok n1" "bc_ok p" "no_leading n1" "no_leading p" using assms(1) p(2) by (simp_all add: bc_normal_def)
  have r: "bc_normal r" "bc_val r = bc_val n1 - bc_val q * bc_val n2" "n_scale r = rscale"
    using bc_sub_exact[OF assms(1) p(2), of rscale] p(3,4) by (simp_all add: r_def rscale_def)
  define x where "x = bc_val n1 / bc_val n2"
  have n1x: "bc_val n1 = bc_val n2 * x" using nz by (simp add: x_def)
  then have x: "bc_val r = bc_val n2 * (x - trunc_to 0 x)" "bc_val n1 = bc_val n2 * x"
    using r(2) unfolding q(4) x_def[symmetric] right_diff_distrib by (simp_all add: mult.commute)
  have "\<bar>bc_val r\<bar> < \<bar>bc_val n2\<bar>" using trunc_to_0(1)[of x] nz unfolding x by (simp add: abs_mult)
  moreover have "bc_val r * bc_val n1 = bc_val n2 * bc_val n2 * ((x - trunc_to 0 x) * x)" unfolding x by (simp only: mult_ac)
  then have "0 \<le> bc_val r * bc_val n1" using trunc_to_0(2)[of x] by simp
  moreover have "bc_divmod n1 n2 scale = Inr (q, r)" using z q(1) p(1) by (simp add: bc_divmod_def rscale_def r_def)
  ultimately show ?thesis using nz q r by (auto simp: rscale_def)
qed

text \<open>\<open>bc_divmod\<close> splits the dividend exactly: the quotient is cut to an integer, the remainder is
  smaller than the divisor, has the sign of the dividend, and the scale the routine announces.\<close>

lemma bc_divmod_exact:
  assumes "bc_normal n1" "bc_normal n2"
  shows "if bc_val n2 = 0 then bc_divmod n1 n2 scale = Inl Div_zero
    else \<exists>q r. bc_divmod n1 n2 scale = Inr (q, r) \<and> bc_normal q \<and> bc_normal r \<and> n_scale r = max (n_scale n1) (n_scale n2 + scale)
      \<and> bc_val q = trunc_to 0 (bc_val n1 / bc_val n2) \<and> bc_val n1 = bc_val q * bc_val n2 + bc_val r
      \<and> \<bar>bc_val r\<bar> < \<bar>bc_val n2\<bar> \<and> 0 \<le> bc_val r * bc_val n1"
  using bc_divmod_nonzero[OF assms] assms(2) bc_is_zero_iff[of n2] by (auto simp: bc_divmod_def bc_val_zero_iff bc_normal_def)

end
