(* ===== verification/BcStr.thy ===== *)
theory BcStr
  imports BcDiv
begin

text \<open>
  Conversions (str2num.c, num2str.c, int2num.c, num2long.c). A C string is the list of its
  characters up to the closing zero.
\<close>

section \<open>The code\<close>

definition CH_VAL :: "char \<Rightarrow> int" where
  "CH_VAL c = int (of_char c) - 48"

definition BCD_CHAR :: "int \<Rightarrow> char" where
  "BCD_CHAR d = char_of (nat (d + 48))"

definition is_digit :: "char \<Rightarrow> bool" where
  "is_digit c \<longleftrightarrow> 48 \<le> (of_char c :: nat) \<and> (of_char c :: nat) \<le> 57"

definition skip_sign :: "string \<Rightarrow> string" where
  "skip_sign str = (case str of [] \<Rightarrow> [] | c # cs \<Rightarrow> if c = CHR ''+'' \<or> c = CHR ''-'' then cs else str)"

text \<open>The parts of a numeral: the digits before and after the point, and what follows them.\<close>

definition scan_num :: "string \<Rightarrow> string \<times> string \<times> string" where
  "scan_num str =
     (let p = dropWhile (\<lambda>c. c = CHR ''0'') (skip_sign str);
          ds = takeWhile is_digit p; p = dropWhile is_digit p;
          p = (case p of [] \<Rightarrow> [] | c # cs \<Rightarrow> if c = CHR ''.'' then cs else p)
      in (ds, takeWhile is_digit p, dropWhile is_digit p))"

definition bc_str2num :: "string \<Rightarrow> nat \<Rightarrow> bc_num \<times> bool" where
  "bc_str2num str scale =
     (let (ds, fs, rest) = scan_num str
      in if rest \<noteq> [] \<or> length ds + length fs = 0 then (BC_zero, rest = [])
         else
           let strscale = min (length fs) scale;
               num = \<lparr>n_sign = (case str of c # cs \<Rightarrow> if c = CHR ''-'' then MINUS else PLUS | [] \<Rightarrow> PLUS),
                      n_len = (if ds = [] then 1 else length ds), n_scale = strscale,
                      n_value = (if ds = [] then [0] else map CH_VAL ds) @ map CH_VAL (take strscale fs)\<rparr>
           in (if bc_is_zero num then num\<lparr>n_sign := PLUS\<rparr> else num, True))"

definition bc_num2str_ex :: "bc_num \<Rightarrow> int \<Rightarrow> string" where
  "bc_num2str_ex num scale =
     (let signch = (n_sign num \<noteq> PLUS \<and> \<not> bc_is_zero_for_scale num (min (int (n_scale num)) scale))
      in (if signch then [CHR ''-''] else [])
         @ map BCD_CHAR (take (n_len num) (n_value num))
         @ (if scale > 0 then
              [CHR ''.''] @ map BCD_CHAR (take (min (nat scale) (n_scale num)) (drop (n_len num) (n_value num)))
              @ replicate (nat scale - n_scale num) (BCD_CHAR 0)
            else []))"

text \<open>An integer is turned into digits from the lowest on.\<close>

function int_digits :: "nat \<Rightarrow> int list" where
  "int_digits v = (if v div 10 \<noteq> 0 then int (v mod 10) # int_digits (v div 10) else [int (v mod 10)])"
  by pat_completeness auto
termination by (relation "measure id") auto

declare int_digits.simps [simp del]

definition bc_int2num :: "int \<Rightarrow> bc_num" where
  "bc_int2num v =
     (let ds = int_digits (nat \<bar>v\<bar>)
      in (bc_new_num (length ds) 0)\<lparr>n_sign := (if v < 0 then MINUS else PLUS), n_value := rev ds\<rparr>)"

definition LONG_MAX :: int where "LONG_MAX = 2 ^ 63 - 1"

fun num2long_loop :: "int list \<Rightarrow> int \<Rightarrow> int option" where
  "num2long_loop [] v = Some v"
| "num2long_loop (n # ns) v =
     (if v > LONG_MAX div 10 then None
      else if v * 10 > LONG_MAX - n then None
      else num2long_loop ns (v * 10 + n))"

definition bc_num2long :: "bc_num \<Rightarrow> int" where
  "bc_num2long num =
     (case num2long_loop (take (n_len num) (n_value num)) 0 of None \<Rightarrow> 0
      | Some v \<Rightarrow> if n_sign num = PLUS then v else - v)"

section \<open>Digits and characters\<close>

lemma digit_char:
  assumes "0 \<le> d" "d \<le> 9"
  shows "CH_VAL (BCD_CHAR d) = d" "is_digit (BCD_CHAR d)" "BCD_CHAR d = CHR ''0'' \<longleftrightarrow> d = 0" "BCD_CHAR d \<noteq> CHR ''.''" "BCD_CHAR d \<noteq> CHR ''-''" "BCD_CHAR d \<noteq> CHR ''+''"
proof -
  have n: "nat (d + 48) = 48 + nat d" using assms by simp
  have o: "(of_char (BCD_CHAR d) :: nat) = 48 + nat d" unfolding BCD_CHAR_def n using assms by simp
  then show "CH_VAL (BCD_CHAR d) = d" "is_digit (BCD_CHAR d)" using assms by (simp_all add: CH_VAL_def is_digit_def)
  have c: "(of_char (CHR ''0'') :: nat) = 48" "(of_char (CHR ''.'') :: nat) = 46" "(of_char (CHR ''-'') :: nat) = 45" "(of_char (CHR ''+'') :: nat) = 43" by simp_all
  have e: "BCD_CHAR d = x \<longleftrightarrow> 48 + nat d = of_char x" for x using o of_char_eq_iff[of "BCD_CHAR d" x, where 'a = nat] by auto
  show "BCD_CHAR d = CHR ''0'' \<longleftrightarrow> d = 0" "BCD_CHAR d \<noteq> CHR ''.''" "BCD_CHAR d \<noteq> CHR ''-''" "BCD_CHAR d \<noteq> CHR ''+''"
    unfolding e c using assms by auto
qed

lemma CH_VAL_digit: "is_digit c \<Longrightarrow> 0 \<le> CH_VAL c \<and> CH_VAL c \<le> 9"
  by (auto simp: is_digit_def CH_VAL_def)

lemma CH_VAL_zero: "CH_VAL c = 0 \<longleftrightarrow> c = CHR ''0''"
proof -
  have "(of_char (CHR ''0'') :: nat) = 48" by simp
  then show ?thesis using of_char_eq_iff[of c "CHR ''0''", where 'a = nat] by (auto simp: CH_VAL_def)
qed

lemma CH_VAL_digits: "list_all is_digit cs \<Longrightarrow> digit_list (map CH_VAL cs)"
  by (induction cs) (simp_all add: CH_VAL_digit)

lemma scan_num_digits:
  assumes "scan_num str = (ds, fs, rest)"
  shows "list_all is_digit ds" "list_all is_digit fs" "ds \<noteq> [] \<Longrightarrow> hd ds \<noteq> CHR ''0''"
proof -
  show "list_all is_digit ds" "list_all is_digit fs" using assms by (auto simp: scan_num_def Let_def list_all_iff dest: set_takeWhileD)
  define p where "p = dropWhile (\<lambda>c. c = CHR ''0'') (skip_sign str)"
  have "ds = takeWhile is_digit p" using assms by (auto simp: scan_num_def Let_def p_def)
  then show "ds \<noteq> [] \<Longrightarrow> hd ds \<noteq> CHR ''0''" using hd_dropWhile[of "\<lambda>c. c = CHR ''0''" "skip_sign str", folded p_def]
    by (cases p) (auto split: if_splits)
qed

section \<open>Reading\<close>

definition str_sign :: "string \<Rightarrow> sign" where
  "str_sign str = (case str of c # cs \<Rightarrow> if c = CHR ''-'' then MINUS else PLUS | [] \<Rightarrow> PLUS)"

text \<open>The digits of an accepted numeral at a scale.\<close>

definition num_digits :: "string \<Rightarrow> string \<Rightarrow> nat \<Rightarrow> int list" where
  "num_digits ds fs k = (if ds = [] then [0] else map CH_VAL ds) @ map CH_VAL (take k fs)"

lemma bc_str2num_accepted:
  fixes scale :: nat
  assumes "scan_num str = (ds, fs, [])" "ds @ fs \<noteq> []"
  defines "k \<equiv> min (length fs) scale"
  defines "v \<equiv> be_val (num_digits ds fs k)"
  shows "bc_str2num str scale
    = (\<lparr>n_sign = (if v = 0 then PLUS else str_sign str), n_len = (if ds = [] then 1 else length ds), n_scale = k, n_value = num_digits ds fs k\<rparr>, True)"
proof -
  define num where "num = \<lparr>n_sign = str_sign str, n_len = (if ds = [] then 1 else length ds), n_scale = k, n_value = num_digits ds fs k\<rparr>"
  have "bc_ok num" using CH_VAL_digits scan_num_digits[OF assms(1)] by (auto simp: num_def bc_ok_def num_digits_def k_def simp flip: take_map)
  moreover have "magnitude num = v" by (simp add: num_def magnitude_def digits_def v_def num_digits_def k_def)
  ultimately have "bc_is_zero num \<longleftrightarrow> v = 0" using bc_is_zero_iff by simp
  moreover have "bc_str2num str scale = (if bc_is_zero num then num\<lparr>n_sign := PLUS\<rparr> else num, True)"
    using assms(1,2) unfolding bc_str2num_def Let_def num_def num_digits_def str_sign_def k_def by auto
  ultimately show ?thesis by (auto simp: num_def)
qed

lemma bc_str2num_rejected:
  assumes "scan_num str = (ds, fs, rest)" "rest \<noteq> [] \<or> ds @ fs = []"
  shows "bc_str2num str scale = (BC_zero, rest = [])"
  using assms by (auto simp: bc_str2num_def)

lemma str_cases:
  obtains (accepted) ds fs where "scan_num str = (ds, fs, [])" "ds @ fs \<noteq> []"
  | (rejected) ds fs rest where "scan_num str = (ds, fs, rest)" "rest \<noteq> [] \<or> ds @ fs = []"
  by (cases "scan_num str") auto

lemma BC_zero_normal: "bc_normal BC_zero" "bc_val BC_zero = 0" "n_scale BC_zero = 0"
  using new_num_zero[of 0] by (simp_all add: BC_zero_def bc_new_num_def)

lemma bc_str2num_normal: "bc_normal (fst (bc_str2num str scale)) \<and> n_scale (fst (bc_str2num str scale)) \<le> scale"
proof (cases str rule: str_cases)
  case (accepted ds fs)
  note p = scan_num_digits[OF accepted(1)]
  have h: "ds \<noteq> [] \<Longrightarrow> CH_VAL (hd ds) \<noteq> 0" using p(3) CH_VAL_zero by auto
  show ?thesis unfolding bc_str2num_accepted[OF accepted] using h p CH_VAL_digits
    by (auto simp: bc_normal_def bc_ok_def no_leading_def magnitude_def digits_def num_digits_def hd_append hd_map simp flip: take_map)
next
  case (rejected ds fs rest)
  then show ?thesis using bc_str2num_rejected[OF rejected] BC_zero_normal by simp
qed

text \<open>Cutting a number to a scale.\<close>

definition cut_mag :: "nat \<Rightarrow> nat \<Rightarrow> int \<Rightarrow> int" where
  "cut_mag s t m = (if s \<le> t then m div 10 ^ (t - s) else m * 10 ^ (s - t))"

lemma cut_mag_quotient: "m * 10 ^ s div 10 ^ t = cut_mag s t m"
proof (cases "s \<le> t")
  case True
  have "10 ^ t = (10 ^ (t - s) * 10 ^ s :: int)" using True by (simp flip: power_add)
  then show ?thesis using True by (simp add: cut_mag_def)
next
  case False
  have "10 ^ s = (10 ^ (s - t) * 10 ^ t :: int)" using False by (simp flip: power_add)
  then show ?thesis using False by (simp add: cut_mag_def mult.assoc[symmetric])
qed

lemma trunc_bc: "bc_ok n \<Longrightarrow> trunc_to s (bc_val n) = of_int (sign_val (n_sign n) * cut_mag s (n_scale n) (magnitude n)) / 10 ^ s"
  using trunc_to_quotient[of "magnitude n" "10 ^ n_scale n" s "n_sign n"] magnitude_bounds[of n]
  by (simp add: bc_val_def cut_mag_quotient)

lemma be_val_cut:
  assumes "digit_list ds" "length ds = l + t"
  shows "be_val (take (l + min s t) ds @ replicate (s - t) 0) = cut_mag s t (be_val ds)"
proof (cases "s \<le> t")
  case True
  then show ?thesis using be_val_take[OF assms(1), of "l + s"] assms(2) by (simp add: cut_mag_def be_val_simps min_absorb1)
next
  case False
  then show ?thesis using assms(2) by (simp add: cut_mag_def be_val_simps min_def)
qed

text \<open>The number a string stands for, and the same number read with a scale.\<close>

definition str_num :: "string \<Rightarrow> bc_num" where
  "str_num str = fst (bc_str2num str (length str))"

lemma scan_num_length:
  assumes "scan_num str = (ds, fs, rest)"
  shows "length fs \<le> length str"
proof -
  define p where "p = dropWhile is_digit (dropWhile (\<lambda>c. c = CHR ''0'') (skip_sign str))"
  have "fs = takeWhile is_digit (case p of [] \<Rightarrow> [] | c # cs \<Rightarrow> if c = CHR ''.'' then cs else p)" 
    using assms unfolding scan_num_def Let_def p_def prod.inject by blast
  then have "length fs \<le> length (case p of [] \<Rightarrow> [] | c # cs \<Rightarrow> if c = CHR ''.'' then cs else p)" by (simp add: length_takeWhile_le)
  also have "\<dots> \<le> length p" by (cases p) auto
  also have "\<dots> \<le> length (skip_sign str)" unfolding p_def by (intro order_trans[OF length_dropWhile_le] length_dropWhile_le)
  also have "\<dots> \<le> length str" by (cases str) (auto simp: skip_sign_def)
  finally show ?thesis .
qed

lemma num_digits_cut:
  assumes "scan_num str = (ds, fs, rest)"
  shows "digit_list (num_digits ds fs k)" "length (num_digits ds fs k) = (if ds = [] then 1 else length ds) + min (length fs) k"
    "be_val (num_digits ds fs (min (length fs) s)) = be_val (num_digits ds fs (length fs)) div 10 ^ (length fs - s)"
proof -
  have d: "digit_list (num_digits ds fs k)" for k using CH_VAL_digits scan_num_digits[OF assms] by (auto simp: num_digits_def simp flip: take_map)
  then show "digit_list (num_digits ds fs k)" .
  show "length (num_digits ds fs k) = (if ds = [] then 1 else length ds) + min (length fs) k" by (simp add: num_digits_def)
  define l where "l = (if ds = [] then 1 else length ds)"
  have t: "num_digits ds fs (min (length fs) s) = take (l + min (length fs) s) (num_digits ds fs (length fs))"
    by (simp add: num_digits_def l_def take_map)
  have "length (num_digits ds fs (length fs)) - (l + min (length fs) s) = length fs - s" by (simp add: num_digits_def l_def)
  then show "be_val (num_digits ds fs (min (length fs) s)) = be_val (num_digits ds fs (length fs)) div 10 ^ (length fs - s)"
    unfolding t using be_val_take[OF d, of "l + min (length fs) s" "length fs"] by (simp add: num_digits_def l_def)
qed

lemma bc_str2num_value:
  assumes "scan_num str = (ds, fs, [])" "ds @ fs \<noteq> []"
  shows "bc_val (fst (bc_str2num str scale)) = of_int (sign_val (str_sign str) * be_val (num_digits ds fs (min (length fs) scale))) / 10 ^ min (length fs) scale"
  unfolding bc_str2num_accepted[OF assms] using num_digits_cut[OF assms(1)] by (simp add: bc_val_def magnitude_def digits_def)

lemma bc_str2num_trunc: "bc_val (fst (bc_str2num str scale)) = trunc_to scale (bc_val (str_num str))"
proof (cases str rule: str_cases)
  case (accepted ds fs)
  define m where "m = be_val (num_digits ds fs (length fs))"
  have m: "0 \<le> m" using be_val_bounds num_digits_cut(1)[OF accepted(1)] by (simp add: m_def)
  have "bc_val (str_num str) = of_int (sign_val (str_sign str) * m) / of_int (10 ^ length fs)"
    unfolding str_num_def bc_str2num_value[OF accepted] using scan_num_length[OF accepted(1)] by (simp add: m_def min_absorb1)
  then have "trunc_to scale (bc_val (str_num str)) = of_int (sign_val (str_sign str) * cut_mag scale (length fs) m) / 10 ^ scale"
    using trunc_to_quotient[OF m, of "10 ^ length fs" scale "str_sign str"] by (simp add: cut_mag_quotient)
  also have "\<dots> = bc_val (fst (bc_str2num str scale))"
  proof (cases "scale \<le> length fs")
    case True
    then show ?thesis unfolding bc_str2num_value[OF accepted] using num_digits_cut(3)[OF accepted(1), of scale] by (simp add: cut_mag_def m_def min_absorb2)
  next
    case False
    then have "(10 :: rat) ^ scale = 10 ^ (scale - length fs) * 10 ^ length fs" by (simp flip: power_add)
    then show ?thesis unfolding bc_str2num_value[OF accepted] using False by (simp add: cut_mag_def m_def min_absorb1)
  qed
  finally show ?thesis ..
next
  case (rejected ds fs rest)
  then show ?thesis unfolding str_num_def using bc_str2num_rejected[OF rejected] BC_zero_normal by (simp add: trunc_to_def)
qed

section \<open>Printing\<close>

definition print_num :: "bool \<Rightarrow> int list \<Rightarrow> int list \<Rightarrow> string" where
  "print_num neg I F = (if neg then [CHR ''-''] else []) @ map BCD_CHAR I @ (if F = [] then [] else CHR ''.'' # map BCD_CHAR F)"

lemma takeWhile_digits:
  assumes "digit_list I" "rest = [] \<or> \<not> is_digit (hd rest)"
  shows "takeWhile is_digit (map BCD_CHAR I @ rest) = map BCD_CHAR I" "dropWhile is_digit (map BCD_CHAR I @ rest) = rest"
proof -
  have "takeWhile is_digit (map BCD_CHAR I @ rest) = map BCD_CHAR I \<and> dropWhile is_digit (map BCD_CHAR I @ rest) = rest"
    using assms(1)
  proof (induction I)
    case Nil
    then show ?case using assms(2) by (cases rest) auto
  next
    case (Cons d I)
    then show ?case using digit_char(2)[of d] by simp
  qed
  then show "takeWhile is_digit (map BCD_CHAR I @ rest) = map BCD_CHAR I" "dropWhile is_digit (map BCD_CHAR I @ rest) = rest" by auto
qed

lemma scan_print:
  assumes "digit_list I" "digit_list F" "I \<noteq> []" "I = [0] \<or> hd I \<noteq> 0"
  shows "scan_num (print_num neg I F) = (if I = [0] then [] else map BCD_CHAR I, map BCD_CHAR F, [])"
    "str_sign (print_num neg I F) = (if neg then MINUS else PLUS)"
proof -
  obtain d ds where I: "I = d # ds" using assms(3) by (cases I) auto
  then have d: "0 \<le> d" "d \<le> 9" "digit_list ds" using assms(1) by auto
  note c = digit_char[OF d(1,2)]
  define R where "R = (if F = [] then [] else CHR ''.'' # map BCD_CHAR F)"
  have dot: "\<not> is_digit (CHR ''.'')" by (simp add: is_digit_def)
  have R: "R = [] \<or> \<not> is_digit (hd R)" "R = [] \<or> hd R \<noteq> CHR ''0''" using dot by (auto simp: R_def)
  have sk: "skip_sign (print_num neg I F) = map BCD_CHAR I @ R" using c by (simp add: print_num_def skip_sign_def I R_def)
  define J where "J = (if I = [0] then [] else I)"
  have z: "dropWhile (\<lambda>c. c = CHR ''0'') (map BCD_CHAR I @ R) = map BCD_CHAR J @ R"
  proof (cases "I = [0]")
    case True
    then show ?thesis using digit_char(3)[of 0] R(2) by (cases R) (auto simp: J_def)
  next
    case False
    then have "d \<noteq> 0" using assms(4) by (auto simp: I)
    then show ?thesis using c(3) False by (simp add: J_def I)
  qed
  have J: "digit_list J" using assms(1) by (simp add: J_def)
  have "(case R of [] \<Rightarrow> [] | c # cs \<Rightarrow> if c = CHR ''.'' then cs else R) = map BCD_CHAR F @ []" by (simp add: R_def)
  then show "scan_num (print_num neg I F) = (if I = [0] then [] else map BCD_CHAR I, map BCD_CHAR F, [])"
    unfolding scan_num_def Let_def sk z takeWhile_digits[OF J R(1)]
    using takeWhile_digits[OF assms(2), of "[]"] by (simp add: J_def)
  show "str_sign (print_num neg I F) = (if neg then MINUS else PLUS)" using c by (simp add: print_num_def str_sign_def I)
qed

lemma map_CH_VAL_BCD: "digit_list ds \<Longrightarrow> map CH_VAL (map BCD_CHAR ds) = ds"
  by (induction ds) (simp_all add: digit_char)

lemma bc_str2num_print:
  assumes "digit_list I" "digit_list F" "I \<noteq> []" "I = [0] \<or> hd I \<noteq> 0" "neg \<Longrightarrow> be_val (I @ F) \<noteq> 0"
  shows "bc_str2num (print_num neg I F) (length F)
    = (\<lparr>n_sign = (if neg then MINUS else PLUS), n_len = length I, n_scale = length F, n_value = I @ F\<rparr>, True)"
proof (cases "I = [0] \<and> F = []")
  case True
  then have "\<not> neg" using assms(5) by (auto simp: be_val_simps)
  then show ?thesis using True bc_str2num_rejected[OF scan_print(1)[OF assms(1-4)]] by (simp add: BC_zero_def bc_new_num_def)
next
  case False
  note s = scan_print[OF assms(1-4), of neg]
  define ds where "ds = (if I = [0] then [] else map BCD_CHAR I)"
  have ne: "ds @ map BCD_CHAR F \<noteq> []" using False assms(3) by (simp add: ds_def)
  have n: "num_digits ds (map BCD_CHAR F) (length F) = I @ F" using map_CH_VAL_BCD[OF assms(1)] map_CH_VAL_BCD[OF assms(2)] assms(3)
    by (simp add: num_digits_def ds_def)
  have "(if ds = [] then 1 else length ds) = length I" using assms(3) by (simp add: ds_def)
  then show ?thesis using bc_str2num_accepted[OF s(1)[folded ds_def] ne, of "length F"] n assms(5) s(2) by auto
qed

definition int_part :: "bc_num \<Rightarrow> int list" where
  "int_part n = take (n_len n) (n_value n)"

definition frac_part :: "bc_num \<Rightarrow> nat \<Rightarrow> int list" where
  "frac_part n s = take (min s (n_scale n)) (drop (n_len n) (n_value n)) @ replicate (s - n_scale n) 0"

definition shows_sign :: "bc_num \<Rightarrow> nat \<Rightarrow> bool" where
  "shows_sign n s \<longleftrightarrow> n_sign n = MINUS \<and> cut_mag s (n_scale n) (magnitude n) \<noteq> 0"

lemma bc_num2str_print:
  assumes "bc_ok n" "no_leading n"
  shows "bc_num2str_ex n (int s) = print_num (shows_sign n s) (int_part n) (frac_part n s)" "digit_list (int_part n)" "digit_list (frac_part n s)"
    "int_part n \<noteq> []" "int_part n = [0] \<or> hd (int_part n) \<noteq> 0" "length (frac_part n s) = s" "length (int_part n) = n_len n"
    "be_val (int_part n @ frac_part n s) = cut_mag s (n_scale n) (magnitude n)"
proof -
  define I F where "I = int_part n" and "F = frac_part n s"
  note I_def = I_def[unfolded int_part_def] and F_def = F_def[unfolded frac_part_def]
  have l: "n_len n + n_scale n \<le> length (n_value n)" "digit_list (n_value n)" "0 < n_len n" using assms(1,2) by (simp_all add: bc_ok_def no_leading_def)
  have IF: "digit_list I" "digit_list F" "length F = s" "length I = n_len n" using l by (auto simp: I_def F_def)
  then have I0: "I \<noteq> []" using l(3) by auto
  have v: "n_value n \<noteq> []" using l by auto
  have "hd I = hd (n_value n)" using l(3) v by (simp add: I_def hd_take)
  then have I1: "I = [0] \<or> hd I \<noteq> 0" using assms(2) v l(3) by (cases "n_value n") (auto simp: I_def no_leading_def)
  have "I @ F = take (n_len n + min s (n_scale n)) (digits n) @ replicate (s - n_scale n) 0" by (simp add: I_def F_def digits_def take_add min_def)
  then have c: "be_val (I @ F) = cut_mag s (n_scale n) (magnitude n)"
    using be_val_cut[of "digits n" "n_len n" "n_scale n" s] bc_ok_digits[OF assms(1)] by (simp add: magnitude_def)
  have "all_zero (n_len n + min (n_scale n) s) (n_value n) \<longleftrightarrow> be_val (take (n_len n + min (n_scale n) s) (n_value n)) = 0"
    using be_val_zero[of "take (n_len n + min (n_scale n) s) (n_value n)"] l by (simp add: all_zero_iff min_def)
  also have "\<dots> \<longleftrightarrow> be_val (take (n_len n + min (n_scale n) s) (n_value n) @ replicate (s - n_scale n) 0) = 0" by (simp add: be_val_simps(3))
  also have "take (n_len n + min (n_scale n) s) (n_value n) @ replicate (s - n_scale n) 0 = I @ F" by (simp add: I_def F_def take_add min.commute)
  finally have z: "bc_is_zero_for_scale n (min (int (n_scale n)) (int s)) \<longleftrightarrow> cut_mag s (n_scale n) (magnitude n) = 0"
    unfolding c of_nat_min[symmetric] bc_is_zero_for_nat .
  have "F = [] \<longleftrightarrow> s = 0" using IF(3) by auto
  moreover have "n_sign n \<noteq> PLUS \<longleftrightarrow> n_sign n = MINUS" by (cases "n_sign n") auto
  ultimately have "bc_num2str_ex n (int s) = print_num (shows_sign n s) I F"
    unfolding bc_num2str_ex_def Let_def z by (simp add: print_num_def shows_sign_def I_def F_def min.commute)
  with IF I0 I1 c show "bc_num2str_ex n (int s) = print_num (shows_sign n s) (int_part n) (frac_part n s)" "digit_list (int_part n)" "digit_list (frac_part n s)"
    "int_part n \<noteq> []" "int_part n = [0] \<or> hd (int_part n) \<noteq> 0" "length (frac_part n s) = s" "length (int_part n) = n_len n"
    "be_val (int_part n @ frac_part n s) = cut_mag s (n_scale n) (magnitude n)"
    unfolding I_def[folded int_part_def] F_def[folded frac_part_def] by auto
qed

text \<open>A number printed with a scale reads back as the number cut to that scale.\<close>

lemma str_num_print:
  assumes "digit_list I" "digit_list F" "I \<noteq> []" "I = [0] \<or> hd I \<noteq> 0" "neg \<Longrightarrow> be_val (I @ F) \<noteq> 0"
  shows "str_num (print_num neg I F) = \<lparr>n_sign = (if neg then MINUS else PLUS), n_len = length I, n_scale = length F, n_value = I @ F\<rparr>"
    "snd (bc_str2num (print_num neg I F) k)"
proof -
  note s = scan_print(1)[OF assms(1-4), of neg]
  have l: "length F \<le> length (print_num neg I F)" using scan_num_length[OF s] by simp
  show "snd (bc_str2num (print_num neg I F) k)" unfolding bc_str2num_def s by (simp add: Let_def)
  have "fst (bc_str2num (print_num neg I F) (length (print_num neg I F))) = fst (bc_str2num (print_num neg I F) (length F))"
    unfolding bc_str2num_def s using l by (simp add: Let_def min_absorb1)
  then show "str_num (print_num neg I F) = \<lparr>n_sign = (if neg then MINUS else PLUS), n_len = length I, n_scale = length F, n_value = I @ F\<rparr>"
    unfolding str_num_def using bc_str2num_print[OF assms] by simp
qed

lemma num2str_value:
  assumes "bc_ok n" "no_leading n"
  shows "bc_val (str_num (bc_num2str_ex n (int s))) = trunc_to s (bc_val n)" "snd (bc_str2num (bc_num2str_ex n (int s)) k)"
    "n_scale (str_num (bc_num2str_ex n (int s))) = s"
proof -
  define m where "m = cut_mag s (n_scale n) (magnitude n)"
  note p = bc_num2str_print[OF assms]
  have m: "be_val (int_part n @ frac_part n s) = m" using p(8) by (simp add: m_def)
  have nz: "shows_sign n s \<Longrightarrow> be_val (int_part n @ frac_part n s) \<noteq> 0" unfolding m by (simp add: shows_sign_def m_def)
  note q = str_num_print[OF p(2) p(3)[of s] p(4,5), of "shows_sign n s", OF nz, folded p(1)]
  show "snd (bc_str2num (bc_num2str_ex n (int s)) k)" using q(2) by simp
  have r: "str_num (bc_num2str_ex n (int s)) = \<lparr>n_sign = (if shows_sign n s then MINUS else PLUS), n_len = n_len n, n_scale = s, n_value = int_part n @ frac_part n s\<rparr>"
    using q(1) p(6,7) by simp
  then show "n_scale (str_num (bc_num2str_ex n (int s))) = s" by simp
  have "magnitude (str_num (bc_num2str_ex n (int s))) = m" using p(6,7) m unfolding r by (simp add: magnitude_def digits_def)
  then have "bc_val (str_num (bc_num2str_ex n (int s))) = of_int (sign_val (n_sign n) * m) / 10 ^ s"
    unfolding bc_val_def r by (cases "n_sign n") (auto simp: shows_sign_def m_def)
  then show "bc_val (str_num (bc_num2str_ex n (int s))) = trunc_to s (bc_val n)" unfolding trunc_bc[OF assms(1)] m_def .
qed

text \<open>C27: a number printed with its own scale reads back as the same number, digit for digit; printed with
  any scale it reads back as the number cut to that scale, never as a negative zero; and every
  string reads as a normal number.\<close>

theorem num2str_roundtrip:
  assumes "bc_normal n" "n_len n + n_scale n + s + length str + 2 \<le> INT_MAX"
  shows "bc_str2num (bc_num2str_ex n (int (n_scale n))) (n_scale n) = (n\<lparr>n_value := digits n\<rparr>, True)
    \<and> bc_val (str_num (bc_num2str_ex n (int s))) = trunc_to s (bc_val n) \<and> bc_normal (fst (bc_str2num str s))"
proof -
  have n: "bc_ok n" "no_leading n" "n_sign n = MINUS \<Longrightarrow> magnitude n \<noteq> 0" using assms(1) by (auto simp: bc_normal_def)
  note p = bc_num2str_print[OF n(1,2)]
  have c: "cut_mag (n_scale n) (n_scale n) (magnitude n) = magnitude n" by (simp add: cut_mag_def)
  have neg: "(if shows_sign n (n_scale n) then MINUS else PLUS) = n_sign n" using n(3) c by (cases "n_sign n") (auto simp: shows_sign_def)
  have d: "int_part n @ frac_part n (n_scale n) = digits n" by (simp add: int_part_def frac_part_def digits_def take_add)
  have nz: "shows_sign n (n_scale n) \<Longrightarrow> be_val (int_part n @ frac_part n (n_scale n)) \<noteq> 0" using p(8)[of "n_scale n"] by (simp add: shows_sign_def)
  have "bc_str2num (bc_num2str_ex n (int (n_scale n))) (n_scale n) = (n\<lparr>n_value := digits n\<rparr>, True)"
    using bc_str2num_print[OF p(2) p(3)[of "n_scale n"] p(4,5), of "shows_sign n (n_scale n)", OF nz, folded p(1)] p(6)[of "n_scale n"] p(7) neg d by simp
  then show ?thesis using num2str_value(1)[OF n(1,2)] bc_str2num_normal by simp
qed

theorem num2str_roundtrip_witness:
  "bc_str2num (bc_num2str_ex (sample_num MINUS [2, 7, 5] 2) 2) 2 = (sample_num MINUS [2, 7, 5] 2, True) \<and> bc_num2str_ex (sample_num MINUS [2, 7, 5] 2) 2 = ''-2.75''"
proof -
  have n: "bc_normal (sample_num MINUS [2, 7, 5] 2)"
    by (simp add: bc_normal_def bc_ok_def no_leading_def sample_num_def magnitude_def digits_def be_val_simps)
  have "n_scale (sample_num MINUS [2, 7, 5] 2) = 2" "(sample_num MINUS [2, 7, 5] 2)\<lparr>n_value := digits (sample_num MINUS [2, 7, 5] 2)\<rparr> = sample_num MINUS [2, 7, 5] 2"
    by (simp_all add: sample_num_def digits_def)
  moreover have "bc_num2str_ex (sample_num MINUS [2, 7, 5] 2) 2 = ''-2.75''" by code_simp
  moreover have "n_len (sample_num MINUS [2, 7, 5] 2) + n_scale (sample_num MINUS [2, 7, 5] 2) + 0 + length [] + 2 \<le> INT_MAX"
    by (simp add: sample_num_def INT_MAX_def)
  ultimately show ?thesis using num2str_roundtrip[OF n, of 0 "[]"] by simp
qed

section \<open>Machine integers\<close>

lemma int_digits_props: "digit_list (int_digits v)" "le_val (int_digits v) = int v" "int_digits v \<noteq> []" "length (int_digits v) = 1 \<or> last (int_digits v) \<noteq> 0"
proof -
  have "digit_list (int_digits v) \<and> le_val (int_digits v) = int v \<and> int_digits v \<noteq> [] \<and> (length (int_digits v) = 1 \<or> last (int_digits v) \<noteq> 0) \<and> (0 < v \<longrightarrow> last (int_digits v) \<noteq> 0)"
  proof (induction v rule: int_digits.induct)
    case (1 v)
    show ?case
    proof (cases "v div 10 = 0")
      case True
      then show ?thesis by (subst (1 2 3 4 5 6) int_digits.simps) simp
    next
      case False
      then have e: "int_digits v = int (v mod 10) # int_digits (v div 10)" by (simp add: int_digits.simps[of v])
      have "int (v mod 10) + 10 * int (v div 10) = int v" by presburger
      then show ?thesis using 1 False unfolding e by (auto simp: not_le)
    qed
  qed
  then show "digit_list (int_digits v)" "le_val (int_digits v) = int v" "int_digits v \<noteq> []" "length (int_digits v) = 1 \<or> last (int_digits v) \<noteq> 0" by auto
qed

lemma bc_int2num_value: "bc_normal (bc_int2num v)" "bc_val (bc_int2num v) = of_int v" "n_scale (bc_int2num v) = 0"
proof -
  define ds where "ds = int_digits (nat \<bar>v\<bar>)"
  note p = int_digits_props[of "nat \<bar>v\<bar>", folded ds_def]
  have n: "bc_int2num v = \<lparr>n_sign = (if v < 0 then MINUS else PLUS), n_len = length ds, n_scale = 0, n_value = rev ds\<rparr>"
    unfolding bc_int2num_def Let_def ds_def[symmetric] by (simp add: bc_new_num_def)
  have m: "magnitude (bc_int2num v) = \<bar>v\<bar>" using p(2) by (simp add: n magnitude_def digits_def be_val_def)
  then show "bc_val (bc_int2num v) = of_int v" by (simp add: bc_val_def n)
  show "bc_normal (bc_int2num v)" using p m unfolding bc_normal_def by (auto simp: n bc_ok_def no_leading_def hd_rev)
  show "n_scale (bc_int2num v) = 0" by (simp add: n)
qed

lemma num2long_loop_props:
  assumes "digit_list ns" "0 \<le> v" "v \<le> LONG_MAX"
  shows "num2long_loop ns v = (if v * 10 ^ length ns + be_val ns \<le> LONG_MAX then Some (v * 10 ^ length ns + be_val ns) else None)"
  using assms
proof (induction ns arbitrary: v)
  case (Cons n ns)
  define w where "w = v * 10 + n"
  have e: "v * 10 ^ length (n # ns) + be_val (n # ns) = w * 10 ^ length ns + be_val ns" by (simp add: w_def be_val_simps algebra_simps)
  have n: "0 \<le> n" "n \<le> 9" "0 \<le> w" using Cons.prems by (auto simp: w_def)
  have small: "v > LONG_MAX div 10 \<or> v * 10 > LONG_MAX - n \<longleftrightarrow> w > LONG_MAX" using n by (auto simp: w_def LONG_MAX_def)
  show ?case
  proof (cases "w > LONG_MAX")
    case True
    have "w * 1 \<le> w * 10 ^ length ns" using n by (intro mult_left_mono) auto
    then have "LONG_MAX < w * 10 ^ length ns + be_val ns" using True be_val_bounds[of ns] Cons.prems(1) by auto
    then show ?thesis using True small unfolding e by auto
  next
    case False
    then show ?thesis using small Cons.IH[of w] Cons.prems n unfolding e by (auto simp: w_def)
  qed
qed (simp add: be_val_simps)

text \<open>The integer part, or zero when it does not fit.\<close>

lemma bc_num2long_value:
  assumes "bc_ok n"
  shows "bc_num2long n = (if magnitude n div 10 ^ n_scale n \<le> LONG_MAX then sign_val (n_sign n) * (magnitude n div 10 ^ n_scale n) else 0)"
proof -
  have d: "digit_list (take (n_len n) (n_value n))" "length (digits n) - n_len n = n_scale n" using assms bc_ok_digits[OF assms] by (simp_all add: bc_ok_def)
  have "take (n_len n) (n_value n) = take (n_len n) (digits n)" by (simp add: digits_def min_def)
  then have "be_val (take (n_len n) (n_value n)) = magnitude n div 10 ^ n_scale n"
    using be_val_take[of "digits n" "n_len n"] bc_ok_digits[OF assms] by (simp add: magnitude_def)
  then show ?thesis using num2long_loop_props[OF d(1), of 0] by (simp add: bc_num2long_def LONG_MAX_def sign_val_def)
qed

end
