(* ===== verification/BcPow.thy ===== *)
theory BcPow
  imports BcStr
begin

text \<open>
  Powers (raise.c, raisemod.c). A product that would leave its accumulator, and a loop that does not end, are the
  result \<open>None\<close>.
\<close>

section \<open>The code\<close>

datatype bc_warning =
  Nonzero_scale_base | Nonzero_scale_exponent | Nonzero_scale_modulus | Exponent_too_large

text \<open>The exponent is halved while it is even, and then to the end. The first loop runs for an
  exponent that is not zero.\<close>

function pow_start :: "bc_num \<Rightarrow> nat \<Rightarrow> nat \<Rightarrow> (bc_num \<times> nat \<times> nat) option" where
  "pow_start pwr pwrscale exponent =
     (if exponent \<noteq> 0 \<and> even exponent
      then Option.bind (bc_multiply pwr pwr (2 * pwrscale)) (\<lambda>pwr. pow_start pwr (2 * pwrscale) (exponent div 2))
      else Some (pwr, pwrscale, exponent))"
  by pat_completeness auto
termination by (relation "measure (\<lambda>(pwr, pwrscale, exponent). exponent)") auto

function pow_loop :: "bc_num \<Rightarrow> bc_num \<Rightarrow> nat \<Rightarrow> nat \<Rightarrow> nat \<Rightarrow> bc_num option" where
  "pow_loop pwr temp pwrscale calcscale exponent =
     (if exponent > 0 then
        Option.bind (bc_multiply pwr pwr (2 * pwrscale)) (\<lambda>pwr.
          if odd exponent then
            Option.bind (bc_multiply temp pwr (2 * pwrscale + calcscale)) (\<lambda>temp.
              pow_loop pwr temp (2 * pwrscale) (2 * pwrscale + calcscale) (exponent div 2))
          else pow_loop pwr temp (2 * pwrscale) calcscale (exponent div 2))
      else Some temp)"
  by pat_completeness auto
termination by (relation "measure (\<lambda>(pwr, temp, pwrscale, calcscale, exponent). exponent)") auto

declare pow_start.simps [simp del] pow_loop.simps [simp del]

definition bc_pow :: "bc_num \<Rightarrow> nat \<Rightarrow> bc_num option" where
  "bc_pow num1 e =
     Option.bind (pow_start num1 (n_scale num1) e) (\<lambda>(pwr, pwrscale, e).
       pow_loop pwr pwr pwrscale pwrscale (e div 2))"

definition bc_raise :: "bc_num \<Rightarrow> bc_num \<Rightarrow> bc_num \<Rightarrow> nat \<Rightarrow> (bc_num \<times> bc_warning list) option" where
  "bc_raise num1 num2 res scale =
     (let w1 = (if n_scale num2 \<noteq> 0 then [Nonzero_scale_exponent] else []);
          exponent = bc_num2long num2;
          w2 = (if exponent = 0 \<and> (n_len num2 > 1 \<or> n_value num2 ! 0 \<noteq> 0) then [Exponent_too_large] else []);
          rscale = (if exponent < 0 then scale else min (n_scale num1 * nat exponent) (max scale (n_scale num1)))
      in map_option (\<lambda>r. (r, w1 @ w2))
        (if exponent = 0 then Some BC_one
         else
           Option.bind (bc_pow num1 (nat \<bar>exponent\<bar>)) (\<lambda>temp.
             if exponent < 0 then
               (case bc_divide BC_one temp rscale of Inr r \<Rightarrow> Some r | Inl Div_zero \<Rightarrow> Some res | Inl Overrun \<Rightarrow> None)
             else Some (if n_scale temp > rscale then temp\<lparr>n_scale := rscale\<rparr> else temp))))"

definition bc_truncate :: "bc_num \<Rightarrow> bc_num" where
  "bc_truncate num = \<lparr>n_sign = n_sign num, n_len = n_len num, n_scale = 0, n_value = take (n_len num) (n_value num)\<rparr>"

text \<open>The return code of \<open>bc_modulo\<close> is not looked at: for a zero modulus the number stays as it is.\<close>

definition mod_or_keep :: "bc_num \<Rightarrow> bc_num \<Rightarrow> nat \<Rightarrow> bc_num option" where
  "mod_or_keep num modulus scale =
     (case bc_modulo num modulus scale of Inr r \<Rightarrow> Some r | Inl Div_zero \<Rightarrow> Some num | Inl Overrun \<Rightarrow> None)"

definition halve :: "bc_num \<Rightarrow> (bc_num \<times> bc_num) option" where
  "halve exponent = (case bc_divmod exponent BC_two 0 of Inr r \<Rightarrow> Some r | Inl e \<Rightarrow> None)"

definition mul_mod :: "bc_num \<Rightarrow> bc_num \<Rightarrow> bc_num \<Rightarrow> nat \<Rightarrow> nat \<Rightarrow> bc_num option" where
  "mul_mod a b modulus rscale scale = Option.bind (bc_multiply a b rscale) (\<lambda>p. mod_or_keep p modulus scale)"

partial_function (option) raisemod_loop :: "bc_num \<Rightarrow> bc_num \<Rightarrow> bc_num \<Rightarrow> bc_num \<Rightarrow> nat \<Rightarrow> nat \<Rightarrow> bc_num option" where
  "raisemod_loop exponent pwr temp modulus rscale scale =
     (if bc_is_zero exponent then Some temp
      else Option.bind (halve exponent) (\<lambda>r.
        Option.bind (if bc_is_zero (snd r) then Some temp else mul_mod temp pwr modulus rscale scale) (\<lambda>temp.
        Option.bind (mul_mod pwr pwr modulus rscale scale) (\<lambda>pwr.
          raisemod_loop (fst r) pwr temp modulus rscale scale))))"

declare raisemod_loop.simps [code]

text \<open>The outer option tells whether the routine ends, the inner one is empty for the return code -1.\<close>

definition bc_raisemod :: "bc_num \<Rightarrow> bc_num \<Rightarrow> bc_num \<Rightarrow> nat \<Rightarrow> (bc_num \<times> bc_warning list) option option" where
  "bc_raisemod base expo md scale =
     (if bc_is_zero md then Some None
      else if bc_is_neg expo then Some None
      else
        let (pwr, w1) = (if n_scale base \<noteq> 0 then (bc_truncate base, [Nonzero_scale_base]) else (base, []));
            (exponent, w2) = (if n_scale expo \<noteq> 0 then (bc_truncate expo, [Nonzero_scale_exponent]) else (expo, []));
            (modulus, w3) = (if n_scale md \<noteq> 0 then (bc_truncate md, [Nonzero_scale_modulus]) else (md, []));
            rscale = max scale (n_scale pwr)
        in map_option (\<lambda>r. Some (r, w1 @ w2 @ w3))
          (if bc_compare modulus BC_one = 0 then Some (bc_new_num 1 scale)
           else raisemod_loop exponent pwr BC_one modulus rscale scale))"

section \<open>Powers\<close>

lemma pow_start_props:
  assumes "bc_normal pwr" "n_scale pwr = pwrscale" "0 < exponent"
  shows "\<exists>p e. pow_start pwr pwrscale exponent = Some (p, n_scale p, e) \<and> odd e \<and> bc_normal p
    \<and> bc_val p ^ e = bc_val pwr ^ exponent \<and> n_scale p * e = n_scale pwr * exponent"
  using assms
proof (induction pwr pwrscale exponent rule: pow_start.induct)
  case (1 pwr pwrscale exponent)
  show ?case
  proof (cases "even exponent")
    case True
    obtain q where q: "bc_multiply pwr pwr (2 * pwrscale) = Some q" "bc_normal q" "n_scale q = 2 * pwrscale" "bc_val q = bc_val pwr * bc_val pwr"
      using bc_multiply_full[OF "1.prems"(1,1), of "2 * pwrscale"] "1.prems"(2) by (auto simp: mult_2)
    have h: "exponent = 2 * (exponent div 2)" "0 < exponent div 2" using True "1.prems"(3) by auto
    obtain p e where p: "pow_start q (2 * pwrscale) (exponent div 2) = Some (p, n_scale p, e)" "odd e" "bc_normal p"
        "bc_val p ^ e = bc_val q ^ (exponent div 2)" "n_scale p * e = n_scale q * (exponent div 2)"
      using "1.IH"[OF _ q(1-3) h(2)] True "1.prems"(3) by blast
    have "bc_val p ^ e = bc_val pwr ^ exponent" using p(4) h(1) unfolding q(4) by (metis power_even_eq power2_eq_square power_mult power_mult_distrib)
    moreover have "n_scale p * e = n_scale pwr * exponent" using p(5) q(3) h(1) "1.prems"(2) by (metis mult.assoc mult.commute)
    moreover have "pow_start pwr pwrscale exponent = Some (p, n_scale p, e)" using p(1) q(1) True "1.prems"(3) by (simp add: pow_start.simps[of pwr])
    ultimately show ?thesis using p by blast
  next
    case False
    then show ?thesis using "1.prems" by (simp add: pow_start.simps[of pwr])
  qed
qed

lemma pow_loop_props:
  assumes "bc_normal pwr" "bc_normal temp" "n_scale pwr = pwrscale" "n_scale temp = calcscale"
  shows "\<exists>t. pow_loop pwr temp pwrscale calcscale exponent = Some t \<and> bc_normal t
    \<and> bc_val t = bc_val temp * bc_val pwr ^ (2 * exponent) \<and> n_scale t = n_scale temp + n_scale pwr * (2 * exponent)"
  using assms
proof (induction pwr temp pwrscale calcscale exponent rule: pow_loop.induct)
  case (1 pwr temp pwrscale calcscale exponent)
  show ?case
  proof (cases "exponent = 0")
    case True
    then show ?thesis using "1.prems" by (simp add: pow_loop.simps[of pwr])
  next
    case False
    obtain q where q: "bc_multiply pwr pwr (2 * pwrscale) = Some q" "bc_normal q" "n_scale q = 2 * pwrscale" "bc_val q = bc_val pwr * bc_val pwr"
      using bc_multiply_full[OF "1.prems"(1,1), of "2 * pwrscale"] "1.prems"(3) by (auto simp: mult_2)
    have sq: "bc_val q ^ k = bc_val pwr ^ (2 * k)" for k unfolding q(4) by (simp add: power_mult power2_eq_square)
    show ?thesis
    proof (cases "odd exponent")
      case True
      then have h: "exponent = Suc (2 * (exponent div 2))" by simp
      obtain u where u: "bc_multiply temp q (2 * pwrscale + calcscale) = Some u" "bc_normal u" "n_scale u = 2 * pwrscale + calcscale" "bc_val u = bc_val temp * bc_val q"
        using bc_multiply_full[OF "1.prems"(2) q(2), of "2 * pwrscale + calcscale"] "1.prems"(4) q(3) by auto
      obtain t where t: "pow_loop q u (2 * pwrscale) (2 * pwrscale + calcscale) (exponent div 2) = Some t" "bc_normal t"
          "bc_val t = bc_val u * bc_val q ^ (2 * (exponent div 2))" "n_scale t = n_scale u + n_scale q * (2 * (exponent div 2))"
        using "1.IH"(1)[OF _ q(1) True u(1) q(2) u(2) q(3) u(3)] False by auto
      have "bc_val t = bc_val temp * bc_val q ^ exponent" unfolding t(3) u(4) by (metis h mult.assoc power_Suc)
      moreover have "n_scale t = n_scale temp + n_scale q * exponent" 
        using arg_cong[OF h, of "\<lambda>k. n_scale q * k"] unfolding t(4) u(3) by (simp add: q(3) "1.prems"(4))
      ultimately show ?thesis using q(1,3) u(1) t(1,2) True False sq "1.prems"(3) by (simp add: pow_loop.simps[of pwr])
    next
      case ev: False
      then have h: "exponent = 2 * (exponent div 2)" by simp
      obtain t where t: "pow_loop q temp (2 * pwrscale) calcscale (exponent div 2) = Some t" "bc_normal t"
          "bc_val t = bc_val temp * bc_val q ^ (2 * (exponent div 2))" "n_scale t = n_scale temp + n_scale q * (2 * (exponent div 2))"
        using "1.IH"(2)[OF _ q(1) ev q(2) "1.prems"(2) q(3) "1.prems"(4)] False by auto
      show ?thesis using q(1,3) t ev False sq "1.prems"(3) h[symmetric] by (simp add: pow_loop.simps[of pwr])
    qed
  qed
qed

lemma bc_pow_props:
  assumes "bc_normal n" "0 < e"
  shows "\<exists>t. bc_pow n e = Some t \<and> bc_normal t \<and> bc_val t = bc_val n ^ e \<and> n_scale t = n_scale n * e"
proof -
  obtain p k where p: "pow_start n (n_scale n) e = Some (p, n_scale p, k)" "odd k" "bc_normal p" "bc_val p ^ k = bc_val n ^ e" "n_scale p * k = n_scale n * e"
    using pow_start_props[OF assms(1) refl assms(2)] by blast
  obtain t where t: "pow_loop p p (n_scale p) (n_scale p) (k div 2) = Some t" "bc_normal t"
      "bc_val t = bc_val p * bc_val p ^ (2 * (k div 2))" "n_scale t = n_scale p + n_scale p * (2 * (k div 2))"
    using pow_loop_props[OF p(3,3) refl refl] by blast
  have k: "k = Suc (2 * (k div 2))" using p(2) by simp
  have "bc_val t = bc_val p ^ k" "n_scale t = n_scale p * k" unfolding t(3,4) by (subst (2) k, simp)+
  then show ?thesis using p t by (auto simp: bc_pow_def)
qed

text \<open>A number whose scale is lowered in place.\<close>

lemma lower_scale:
  assumes "bc_ok n" "no_leading n" "s \<le> n_scale n"
  shows "bc_ok (n\<lparr>n_scale := s\<rparr>)" "no_leading (n\<lparr>n_scale := s\<rparr>)" "bc_val (n\<lparr>n_scale := s\<rparr>) = trunc_to s (bc_val n)"
proof -
  show ok: "bc_ok (n\<lparr>n_scale := s\<rparr>)" "no_leading (n\<lparr>n_scale := s\<rparr>)" using assms by (auto simp: bc_ok_def no_leading_def)
  have "digits (n\<lparr>n_scale := s\<rparr>) = take (n_len n + s) (digits n)" using assms(3) by (simp add: digits_def min_def)
  then have "magnitude (n\<lparr>n_scale := s\<rparr>) = cut_mag s (n_scale n) (magnitude n)"
    using be_val_cut[of "digits n" "n_len n" "n_scale n" s] bc_ok_digits[OF assms(1)] assms(3) by (simp add: magnitude_def min_absorb1)
  then show "bc_val (n\<lparr>n_scale := s\<rparr>) = trunc_to s (bc_val n)" unfolding trunc_bc[OF assms(1)] by (simp add: bc_val_def)
qed

lemma BC_one_normal: "bc_normal BC_one" "bc_val BC_one = 1" "n_scale BC_one = 0"
  by (simp_all add: BC_one_def bc_new_num_def bc_normal_def bc_ok_def no_leading_def bc_val_def magnitude_def digits_def be_val_simps)

text \<open>The integer part of a number.\<close>

definition int_of :: "bc_num \<Rightarrow> int" where
  "int_of n = sign_val (n_sign n) * (magnitude n div 10 ^ n_scale n)"

text \<open>The exponent that \<open>bc_num2long\<close> reads: zero when it does not fit.\<close>

definition exponent_of :: "bc_num \<Rightarrow> int" where
  "exponent_of n = (if \<bar>int_of n\<bar> \<le> LONG_MAX then int_of n else 0)"

text \<open>C28: \<open>bc_raise\<close> computes the power by the integer part of the exponent exactly and cuts it to the
  scale of the result; a negative exponent gives the quotient of one and the power, and leaves the result alone for a
  zero base; an exponent that is zero or does not fit a \<open>long\<close> gives one.\<close>

theorem bc_raise_exact:
  assumes "bc_normal num1" "bc_normal num2"
    "(n_len num1 + n_scale num1) * (nat \<bar>exponent_of num2\<bar> + 1) + scale + 3 \<le> INT_MAX"
  shows "let e = exponent_of num2;
      s = (if e < 0 then scale else min (n_scale num1 * nat e) (max scale (n_scale num1)))
    in \<exists>r w. bc_raise num1 num2 res scale = Some (r, w)
      \<and> (if e < 0 \<and> bc_val num1 = 0 then r = res
         else bc_ok r \<and> no_leading r \<and> n_scale r = s \<and> bc_val r = trunc_to s (if e < 0 then 1 / bc_val num1 ^ nat (- e) else bc_val num1 ^ nat e))"
proof -
  define e where "e = exponent_of num2"
  have ok2: "bc_ok num2" using assms(2) by (simp add: bc_normal_def)
  have mg: "0 \<le> magnitude num2 div 10 ^ n_scale num2" using magnitude_bounds[OF ok2] by (simp add: pos_imp_zdiv_nonneg_iff)
  have e: "bc_num2long num2 = e" using bc_num2long_value[OF ok2] mg by (cases "n_sign num2") (auto simp: e_def exponent_of_def int_of_def)
  show ?thesis
  proof (cases "e = 0")
    case True
    then show ?thesis using BC_one_normal unfolding bc_raise_def Let_def e e_def[symmetric] by (auto simp: bc_normal_def trunc_to_def)
  next
    case False
    obtain t where t: "bc_pow num1 (nat \<bar>e\<bar>) = Some t" "bc_normal t" "bc_val t = bc_val num1 ^ nat \<bar>e\<bar>" "n_scale t = n_scale num1 * nat \<bar>e\<bar>"
      using bc_pow_props[OF assms(1), of "nat \<bar>e\<bar>"] False by auto
    show ?thesis
    proof (cases "e < 0")
      case True
      have "if bc_val t = 0 then bc_divide BC_one t scale = Inl Div_zero
          else \<exists>r. bc_divide BC_one t scale = Inr r \<and> bc_normal r \<and> n_scale r = scale \<and> bc_val r = trunc_to scale (1 / bc_val t)"
        using bc_divide_zero[OF t(2)] bc_divide_exact_aux[OF BC_one_normal(1) t(2), of scale] BC_one_normal(2) by auto
      moreover have "bc_val t = 0 \<longleftrightarrow> bc_val num1 = 0" using t(3) True by auto
      ultimately show ?thesis using True t(1,3) unfolding bc_raise_def Let_def e e_def[symmetric]
        by (cases "bc_val num1 = 0") (auto simp: bc_normal_def)
    next
      case pos: False
      define s where "s = min (n_scale num1 * nat e) (max scale (n_scale num1))"
      have t': "bc_ok t" "no_leading t" "s \<le> n_scale t" using t(2,4) pos by (simp_all add: bc_normal_def s_def)
      define r where "r = (if n_scale t > s then t\<lparr>n_scale := s\<rparr> else t)"
      have "r = t\<lparr>n_scale := s\<rparr>" using t'(3) by (auto simp: r_def)
      then have "bc_ok r" "no_leading r" "n_scale r = s" "bc_val r = trunc_to s (bc_val num1 ^ nat e)"
        using lower_scale[OF t'] t(3) pos by simp_all
      moreover have "\<exists>w. bc_raise num1 num2 res scale = Some (r, w)" using pos False t(1) unfolding bc_raise_def Let_def e by (simp add: r_def s_def)
      ultimately show ?thesis using pos unfolding Let_def e_def[symmetric] s_def by auto
    qed
  qed
qed

theorem bc_raise_exact_witness:
  "\<exists>r w. bc_raise (sample_num MINUS [1, 5] 1) (sample_num PLUS [3] 0) BC_zero 2 = Some (r, w) \<and> bc_val r = trunc_to 2 (- (27 / 8))"
proof -
  have n: "bc_normal (sample_num MINUS [1, 5] 1)" "bc_normal (sample_num PLUS [3] 0)"
    by (simp_all add: bc_normal_def bc_ok_def no_leading_def sample_num_def magnitude_def digits_def be_val_simps)
  have v: "bc_val (sample_num MINUS [1, 5] 1) = - (3 / 2)" "int_of (sample_num PLUS [3] 0) = 3" "n_scale (sample_num MINUS [1, 5] 1) = 1"
    by (simp_all add: bc_val_def int_of_def sample_num_def magnitude_def digits_def be_val_simps)
  have e: "exponent_of (sample_num PLUS [3] 0) = 3" unfolding exponent_of_def v(2) by (simp add: LONG_MAX_def)
  have "(n_len (sample_num MINUS [1, 5] 1) + 1) * (nat \<bar>3\<bar> + 1) + 2 + 3 \<le> INT_MAX" by (simp add: sample_num_def INT_MAX_def)
  then show ?thesis using bc_raise_exact[OF n, of 2 BC_zero] unfolding v e by (auto simp: power3_eq_cube numeral_2_eq_2)
qed

section \<open>Powers modulo a number\<close>

text \<open>The remainder with the sign of the dividend.\<close>

definition trem :: "int \<Rightarrow> int \<Rightarrow> int" where
  "trem x m = sgn x * (\<bar>x\<bar> mod \<bar>m\<bar>)"

lemma trem_abs: "\<bar>trem x m\<bar> = (if x = 0 then 0 else \<bar>x\<bar> mod \<bar>m\<bar>)" if "m \<noteq> 0"
  using that by (simp add: trem_def abs_mult abs_sgn_eq)

lemma trem_mult: "m \<noteq> 0 \<Longrightarrow> trem (trem a m * b) m = trem (a * b) m"
proof (cases "a = 0 \<or> \<bar>a\<bar> mod \<bar>m\<bar> = 0")
  case True
  assume "m \<noteq> 0"
  have "\<bar>a\<bar> mod \<bar>m\<bar> = 0 \<Longrightarrow> \<bar>a * b\<bar> mod \<bar>m\<bar> = 0" by (metis abs_mult mod_mult_left_eq mod_0 mult_zero_left)
  then show ?thesis using True by (auto simp: trem_def)
next
  case False
  assume m: "m \<noteq> 0"
  have "0 < \<bar>a\<bar> mod \<bar>m\<bar>" using False m by (simp add: order.not_eq_order_implies_strict)
  then have s: "sgn (trem a m) = sgn a" using False by (auto simp: trem_def sgn_mult)
  have "\<bar>trem a m * b\<bar> mod \<bar>m\<bar> = \<bar>a * b\<bar> mod \<bar>m\<bar>" using False trem_abs[OF m, of a] by (simp add: abs_mult mod_mult_left_eq)
  then show ?thesis using s by (simp add: trem_def sgn_mult)
qed

lemma trem_pow: "m \<noteq> 0 \<Longrightarrow> trem (a * trem b m ^ k) m = trem (a * b ^ k) m"
proof (induction k arbitrary: a)
  case (Suc k)
  have "trem (a * trem b m ^ Suc k) m = trem ((a * trem b m) * trem b m ^ k) m" by (simp add: mult.assoc)
  also have "\<dots> = trem ((a * trem b m) * b ^ k) m" using Suc by blast
  also have "\<dots> = trem (trem b m * (a * b ^ k)) m" by (simp only: mult_ac)
  also have "\<dots> = trem (a * b ^ Suc k) m" unfolding trem_mult[OF Suc.prems] by (simp add: mult_ac)
  finally show ?case .
qed simp

lemma trem_unique:
  fixes x r k m :: int
  assumes "x = k * m + r" "\<bar>r\<bar> < \<bar>m\<bar>" "0 \<le> r * x"
  shows "r = trem x m"
proof (cases "x = 0")
  case True
  then have "r = - k * m" using assms(1) by simp
  then have "\<bar>k\<bar> * \<bar>m\<bar> < 1 * \<bar>m\<bar>" using assms(2) by (simp add: abs_mult)
  then have "\<bar>k\<bar> < 1" using mult_less_cancel_right_pos[of "\<bar>m\<bar>" "\<bar>k\<bar>" 1] assms(2) by linarith
  then show ?thesis using True \<open>r = - k * m\<close> by (simp add: trem_def)
next
  case False
  have m: "0 < \<bar>m\<bar>" using assms(2) by simp
  have r: "sgn x * r = \<bar>r\<bar>" using assms(3) False by (cases "x > 0") (auto simp: zero_le_mult_iff)
  have "\<bar>x\<bar> = sgn x * x" by (simp add: mult.commute abs_sgn)
  also have "\<dots> = (sgn x * k * sgn m) * \<bar>m\<bar> + \<bar>r\<bar>" unfolding r[symmetric] by (subst assms(1)) (simp add: distrib_left mult.assoc sgn_mult_abs)
  finally have "\<bar>x\<bar> mod \<bar>m\<bar> = \<bar>r\<bar>" using assms(2) by simp
  moreover have "sgn x * (sgn x * r) = r" using False by (simp add: mult.assoc[symmetric])
  ultimately show ?thesis unfolding trem_def r[symmetric] by simp
qed

text \<open>The operations on integers.\<close>

lemma trunc_to_int: "trunc_to s (of_int k) = of_int k"
proof -
  have "of_int k * 10 ^ s = (of_int (k * 10 ^ s) :: rat)" "- of_int k * 10 ^ s = (of_int (- (k * 10 ^ s)) :: rat)" by simp_all
  then show ?thesis unfolding trunc_to_def by (simp only: floor_of_int) simp
qed

lemma trunc_to_0_int: "\<exists>k. trunc_to 0 x = of_int k"
  unfolding trunc_to_def by (metis div_by_1 power_0)

lemma mul_mod_value:
  assumes ok: "bc_ok a" "bc_ok b" "0 < n_len a" and m: "bc_normal m" "bc_val m = of_int k" "k \<noteq> 0"
    and v: "bc_val a = of_int x" "bc_val b = of_int y"
  shows "\<exists>r. mul_mod a b m rscale scale = Some r \<and> bc_normal r \<and> bc_val r = of_int (trem (x * y) k)"
proof -
  obtain p where p: "bc_multiply a b rscale = Some p" "bc_normal p" "bc_val p = trunc_to (n_scale p) (bc_val a * bc_val b)"
    using bc_multiply_trunc[OF ok, of rscale] by blast
  have pv: "bc_val p = of_int (x * y)" using p(3) trunc_to_int[of "n_scale p" "x * y"] by (simp add: v)
  have "bc_val m \<noteq> 0" using m by simp
  then obtain q r where d: "bc_divmod p m scale = Inr (q, r)" "bc_normal r" "bc_val q = trunc_to 0 (bc_val p / bc_val m)"
      "bc_val p = bc_val q * bc_val m + bc_val r" "\<bar>bc_val r\<bar> < \<bar>bc_val m\<bar>" "0 \<le> bc_val r * bc_val p"
    using bc_divmod_nonzero[OF p(2) m(1), of scale] by blast
  obtain j where j: "bc_val q = of_int j" using d(3) trunc_to_0_int by metis
  define z where "z = x * y - j * k"
  have z: "bc_val r = of_int z" using d(4) unfolding pv m(2) j z_def by simp
  have "\<bar>z\<bar> < \<bar>k\<bar>" using d(5) unfolding z m(2) of_int_abs[symmetric] of_int_less_iff .
  moreover have "0 \<le> z * (x * y)" using d(6) unfolding z pv of_int_mult[symmetric] of_int_0_le_iff .
  ultimately have "z = trem (x * y) k" by (intro trem_unique[of _ j]) (simp_all add: z_def)
  then show ?thesis using p(1) d(1,2) z by (simp add: mul_mod_def mod_or_keep_def bc_modulo_def)
qed

lemma BC_two_normal: "bc_normal BC_two" "bc_val BC_two = of_int 2"
  by (simp_all add: BC_two_def bc_new_num_def bc_normal_def bc_ok_def no_leading_def bc_val_def magnitude_def digits_def be_val_simps)

lemma halve_value:
  assumes "bc_normal n" "bc_val n = of_nat e"
  shows "\<exists>q r. halve n = Some (q, r) \<and> bc_normal q \<and> bc_normal r \<and> bc_val q = of_nat (e div 2) \<and> bc_val r = of_nat (e mod 2)"
proof -
  have "bc_val BC_two \<noteq> 0" unfolding BC_two_normal by simp
  then obtain q r where d: "bc_divmod n BC_two 0 = Inr (q, r)" "bc_normal q" "bc_normal r" "bc_val q = trunc_to 0 (bc_val n / bc_val BC_two)"
      "bc_val n = bc_val q * bc_val BC_two + bc_val r"
    using bc_divmod_nonzero[OF assms(1) BC_two_normal(1), of 0] by blast
  have dv: "bc_val n / bc_val BC_two = of_int (sign_val PLUS * int e) / of_int 2" unfolding assms(2) BC_two_normal by simp
  have q: "bc_val q = of_int (int e div 2)" unfolding d(4) dv using trunc_to_quotient[of "int e" 2 0 PLUS] by simp
  have "int e = int e div 2 * 2 + int e mod 2" by simp
  then have "(of_int (int e) :: rat) = of_int (int e div 2) * of_int 2 + of_int (int e mod 2)" by (metis of_int_add of_int_mult)
  then have "bc_val r = of_int (int e mod 2)" using d(5) unfolding q assms(2) BC_two_normal by simp
  moreover have "int e div 2 = int (e div 2)" "int e mod 2 = int (e mod 2)" by (simp_all add: zdiv_int zmod_int)
  ultimately have "bc_val q = of_nat (e div 2)" "bc_val r = of_nat (e mod 2)" using q by (simp_all only: of_int_of_nat_eq)
  then show ?thesis using d(1-3) by (simp add: halve_def)
qed

lemma raisemod_loop_value:
  assumes "bc_normal exponent" "bc_val exponent = of_nat e" "bc_ok pwr" "no_leading pwr" "bc_val pwr = of_int p"
    "bc_normal temp" "bc_val temp = of_int t" "bc_normal m" "bc_val m = of_int k" "k \<noteq> 0"
  shows "\<exists>r. raisemod_loop exponent pwr temp m rscale scale = Some r \<and> bc_normal r \<and> bc_val r = of_int (if e = 0 then t else trem (t * p ^ e) k)"
  using assms
proof (induction e arbitrary: exponent pwr temp t p rule: less_induct)
  case (less e)
  have z: "bc_is_zero exponent \<longleftrightarrow> e = 0" using less.prems(1,2) bc_is_zero_iff[of exponent] bc_val_zero_iff[of exponent] by (auto simp: bc_normal_def)
  show ?case
  proof (cases "e = 0")
    case True
    then show ?thesis using z less.prems by (subst raisemod_loop.simps) auto
  next
    case False
    obtain x r where x: "halve exponent = Some (x, r)" "bc_normal x" "bc_normal r" "bc_val x = of_nat (e div 2)" "bc_val r = of_nat (e mod 2)"
      using halve_value[OF less.prems(1,2)] by blast
    have zr: "bc_is_zero r \<longleftrightarrow> even e" using x(3,5) bc_is_zero_iff[of r] bc_val_zero_iff[of r] by (auto simp: bc_normal_def)
    have l: "0 < n_len temp" "bc_ok temp" "0 < n_len pwr" using less.prems(4,6) by (auto simp: bc_normal_def no_leading_def)
    define t' where "t' = (if even e then t else trem (t * p) k)"
    obtain u where u: "(if bc_is_zero r then Some temp else mul_mod temp pwr m rscale scale) = Some u" "bc_normal u" "bc_val u = of_int t'"
      using mul_mod_value[OF l(2) less.prems(3) l(1) less.prems(8-10,7,5), of rscale scale] less.prems(6,7) zr by (auto simp: t'_def)
    obtain y where y: "mul_mod pwr pwr m rscale scale = Some y" "bc_normal y" "bc_val y = of_int (trem (p * p) k)"
      using mul_mod_value[OF less.prems(3,3) l(3) less.prems(8-10,5,5), of rscale scale] by blast
    have y': "bc_ok y" "no_leading y" using y(2) by (auto simp: bc_normal_def)
    have "e div 2 < e" using False by simp
    from less.IH[OF this x(2,4) y' y(3) u(2,3) less.prems(8-10)]
    obtain w where w: "raisemod_loop x y u m rscale scale = Some w" "bc_normal w" "bc_val w = of_int (if e div 2 = 0 then t' else trem (t' * trem (p * p) k ^ (e div 2)) k)"
      by blast
    have "(if e div 2 = 0 then t' else trem (t' * trem (p * p) k ^ (e div 2)) k) = trem (t * p ^ e) k"
    proof (cases "e = 1")
      case True
      then show ?thesis by (simp add: t'_def)
    next
      case e1: False
      have pw: "(p * p) ^ (e div 2) = p ^ (2 * (e div 2))" by (simp add: power_mult power2_eq_square)
      have "trem (t' * trem (p * p) k ^ (e div 2)) k = trem (t' * p ^ (2 * (e div 2))) k" using trem_pow[OF less.prems(10)] pw by simp
      also have "\<dots> = trem (t * p ^ e) k"
      proof (cases "even e")
        case False
        then have "p * p ^ (2 * (e div 2)) = p ^ e" by (metis odd_two_times_div_two_succ power_Suc Suc_eq_plus1)
        then show ?thesis using False trem_mult[OF less.prems(10), of "t * p"] by (simp add: t'_def mult.assoc)
      qed (simp add: t'_def)
      finally show ?thesis using False e1 by (simp add: div_eq_0_iff)
    qed
    then show ?thesis using w z False x(1) u(1) y(1) by (subst raisemod_loop.simps) simp
  qed
qed

definition truncated :: "bc_num \<Rightarrow> bc_num" where
  "truncated n = (if n_scale n \<noteq> 0 then bc_truncate n else n)"

lemma truncated_value:
  assumes "bc_ok n" "no_leading n"
  shows "bc_ok (truncated n)" "no_leading (truncated n)" "n_scale (truncated n) = 0" "n_sign (truncated n) = n_sign n" "bc_val (truncated n) = of_int (int_of n)"
proof -
  show "bc_ok (truncated n)" "n_scale (truncated n) = 0" "n_sign (truncated n) = n_sign n" using assms(1) by (auto simp: truncated_def bc_truncate_def bc_ok_def)
  show "no_leading (truncated n)" using assms(2) by (auto simp: truncated_def bc_truncate_def no_leading_def hd_take)
  have "take (n_len n) (n_value n) = take (n_len n) (digits n)" by (simp add: digits_def min_def)
  then have v: "be_val (take (n_len n) (n_value n)) = magnitude n div 10 ^ n_scale n"
    using be_val_take[of "digits n" "n_len n"] bc_ok_digits[OF assms(1)] by (simp add: magnitude_def)
  show "bc_val (truncated n) = of_int (int_of n)"
  proof (cases "n_scale n = 0")
    case True
    then show ?thesis by (simp add: truncated_def bc_val_def int_of_def)
  next
    case False
    have "magnitude (bc_truncate n) = be_val (take (n_len n) (n_value n))" by (simp add: magnitude_def digits_def bc_truncate_def)
    then have "bc_val (bc_truncate n) = of_int (sign_val (n_sign n) * (magnitude n div 10 ^ n_scale n))" unfolding bc_val_def v by (simp add: bc_truncate_def)
    then show ?thesis using False by (simp only: truncated_def int_of_def if_True not_False_eq_True)
  qed
qed

lemma normal_int: "bc_ok n \<Longrightarrow> no_leading n \<Longrightarrow> n_sign n = PLUS \<or> bc_val n \<noteq> 0 \<Longrightarrow> bc_normal n"
  by (auto simp: bc_normal_def bc_val_zero_iff)

text \<open>C29: \<open>bc_raisemod\<close> refuses a zero modulus and a negative exponent; otherwise its loop ends and the result is
  the power of the integer parts, reduced with the sign of the power, whenever the integer part of the modulus is
  not zero and it is not the zeroth power modulo minus one.\<close>

theorem bc_raisemod_exact:
  assumes "bc_normal base" "bc_normal expo" "bc_normal md"
    "4 * (n_len base + n_scale base + n_len expo + n_scale expo + n_len md + n_scale md + scale + 4) \<le> INT_MAX"
  shows "if bc_val md = 0 \<or> n_sign expo = MINUS then bc_raisemod base expo md scale = Some None
    else int_of md \<noteq> 0 \<and> \<not> (int_of md = - 1 \<and> int_of expo = 0) \<longrightarrow>
      (\<exists>r w. bc_raisemod base expo md scale = Some (Some (r, w)) \<and> bc_normal r
        \<and> bc_val r = of_int (trem (int_of base ^ nat (int_of expo)) (int_of md)))"
proof (cases "bc_val md = 0 \<or> n_sign expo = MINUS")
  case True
  then show ?thesis using assms(3) bc_is_zero_iff[of md] by (auto simp: bc_raisemod_def bc_is_neg_def bc_val_zero_iff bc_normal_def)
next
  case False
  then have sg: "n_sign expo = PLUS" by (cases "n_sign expo") auto
  define w :: "bc_warning list" where "w = (if n_scale base \<noteq> 0 then [Nonzero_scale_base] else []) @ (if n_scale expo \<noteq> 0 then [Nonzero_scale_exponent] else [])
    @ (if n_scale md \<noteq> 0 then [Nonzero_scale_modulus] else [])"
  have ok: "bc_ok base" "no_leading base" "bc_ok expo" "no_leading expo" "bc_ok md" "no_leading md" using assms(1-3) by (auto simp: bc_normal_def)
  note b = truncated_value[OF ok(1,2)] and x = truncated_value[OF ok(3,4)] and m = truncated_value[OF ok(5,6)]
  have z: "\<not> bc_is_zero md" using False ok(5) bc_is_zero_iff[of md] by (simp add: bc_val_zero_iff)
  have e: "bc_raisemod base expo md scale = map_option (\<lambda>r. Some (r, w))
      (if bc_compare (truncated md) BC_one = 0 then Some (bc_new_num 1 scale) else raisemod_loop (truncated expo) (truncated base) BC_one (truncated md) (max scale (n_scale (truncated base))) scale)"
    using z sg unfolding bc_raisemod_def bc_is_neg_def w_def truncated_def Let_def by simp
  show ?thesis
  proof (cases "int_of md \<noteq> 0 \<and> \<not> (int_of md = - 1 \<and> int_of expo = 0)")
    case k: True
    have mn: "bc_normal (truncated md)" using normal_int[OF m(1,2)] m(5) k by simp
    have xn: "bc_normal (truncated expo)" using normal_int[OF x(1,2)] x(4) sg by simp
    have "0 \<le> int_of expo" using sg magnitude_bounds[OF ok(3)] by (simp add: int_of_def pos_imp_zdiv_nonneg_iff)
    then have xv: "bc_val (truncated expo) = of_nat (nat (int_of expo))" using x(5) by simp
    have cmp: "bc_compare (truncated md) BC_one = 0 \<longleftrightarrow> int_of md = 1"
      using bc_compare_sgn[OF mn BC_one_normal(1)] m(5) BC_one_normal(2) by (simp add: sgn_0_0) (metis of_int_eq_0_iff of_int_eq_1_iff right_minus_eq sgn_0_0)
    show ?thesis
    proof (cases "int_of md = 1")
      case True
      then show ?thesis using e cmp new_num_zero[of scale] False by (auto simp: trem_def)
    next
      case m1: False
      have one: "bc_val BC_one = of_int 1" using BC_one_normal by simp
      have k0: "int_of md \<noteq> 0" using k by simp
      from raisemod_loop_value[OF xn xv b(1,2,5) BC_one_normal(1) one mn m(5) k0, of "max scale (n_scale (truncated base))" scale]
      obtain r where r: "raisemod_loop (truncated expo) (truncated base) BC_one (truncated md) (max scale (n_scale (truncated base))) scale = Some r" "bc_normal r"
          "bc_val r = of_int (if nat (int_of expo) = 0 then 1 else trem (1 * int_of base ^ nat (int_of expo)) (int_of md))" by blast
      have "trem 1 (int_of md) = 1" if "int_of expo = 0"
      proof -
        have "1 < \<bar>int_of md\<bar>" using k m1 that by auto
        then show ?thesis by (simp add: trem_def)
      qed
      then have "bc_val r = of_int (trem (int_of base ^ nat (int_of expo)) (int_of md))" using r(3) \<open>0 \<le> int_of expo\<close> by auto
      then show ?thesis using e cmp m1 r False by auto
    qed
  qed (use False in auto)
qed

theorem bc_raisemod_exact_witness:
  "\<exists>r w. bc_raisemod (sample_num MINUS [2] 0) (sample_num PLUS [5] 0) (sample_num PLUS [7] 0) 0 = Some (Some (r, w)) \<and> bc_val r = - 4"
proof -
  have n: "bc_normal (sample_num MINUS [2] 0)" "bc_normal (sample_num PLUS [5] 0)" "bc_normal (sample_num PLUS [7] 0)"
    by (simp_all add: bc_normal_def bc_ok_def no_leading_def sample_num_def magnitude_def digits_def be_val_simps)
  have v: "int_of (sample_num MINUS [2] 0) = - 2" "int_of (sample_num PLUS [5] 0) = 5" "int_of (sample_num PLUS [7] 0) = 7" "bc_val (sample_num PLUS [7] 0) = 7"
      "n_sign (sample_num PLUS [5] 0) = PLUS"
    by (simp_all add: bc_val_def int_of_def sample_num_def magnitude_def digits_def be_val_simps)
  have "trem ((- 2) ^ nat 5) 7 = - 4" by code_simp
  moreover have "4 * (n_len (sample_num MINUS [2] 0) + n_scale (sample_num MINUS [2] 0) + n_len (sample_num PLUS [5] 0) + n_scale (sample_num PLUS [5] 0)
      + n_len (sample_num PLUS [7] 0) + n_scale (sample_num PLUS [7] 0) + 0 + 4) \<le> INT_MAX" by (simp add: sample_num_def INT_MAX_def)
  ultimately show ?thesis using bc_raisemod_exact[OF n, of 0] unfolding v by auto
qed

end
