(* ===== verification/Spec2Isabelle.thy ===== *)
theory Spec2Isabelle
  imports ZendQsort ZendStack ZendLlist ZendHashCmp DeepClientWrapper PhpLevenshtein PhpCalFuncs PhpBase64 PhpUrl PhpUuencode BcPow
begin

text \<open>
  A verification development for the PHP isolation provider. The program runs PHP code that a
  client sends (index.php) with an extension that lets this code call a Python client of the
  Deep database: \<open>PyPhpBridge.cpp\<close> converts values, \<open>deep_client_php_wrapper.cpp\<close> is the class the PHP
  code uses, \<open>deep_client_interface.py\<close> is the Python side, and the vendored PHP-CPP library
  (zend/value.cpp) and the sources of the PHP engine (zend_headers, ext_php_headers) are what the
  extension is compiled against and runs on. The development models the bridge and wrapper, the
  data structures of the engine on which every PHP value of the bridge lives, and pure library
  code of the engine's extensions that the received PHP code calls.

  \<^bold>\<open>Parts and theories.\<close>

  \<^item> \<open>Prelude\<close>: machine integers, words, index ranges, association lists (ordered maps).

  \<^item> PHP arrays, zend_hash.c with zend_hash.h, zend_types.h and zend_string.h. \<open>ZendHash\<close> has the data
    (buckets, hash cells, iterators, the destructor log), initialisation, growth, rehash, lookup,
    insertion and deletion; \<open>ZendHashOps\<close> the other operations (destruction, callbacks, copy,
    duplication, merge, positions, sorting, comparison, conversions). A table is a record with its
    bucket array as a list and its hash part as a list of cells, read through the negative index of
    the source; the walk along a collision chain has as fuel one more than the number of
    buckets, which \<open>ZendHashInv\<close> shows to be enough for every consistent table. \<open>ZendHashInv\<close> states the invariant
    \<open>ht_inv\<close> and the abstraction \<open>elems\<close> to an ordered association list; \<open>ZendHashAdd\<close>, \<open>ZendHashMap\<close> and
    \<open>ZendHashDel\<close> prove that insertion, growth, rehash and deletion keep the one and act on the other
    as on an ordered map; \<open>ZendArray\<close> states this as the locale \<open>ordered_array\<close>, interprets it on the
    table and derives the laws of reads after writes. \<open>ZendHashSeq\<close> and \<open>ZendArrayRun\<close> treat sequences
    of operations: up to \<open>2 ^ 27\<close> operations from a new array never reach the size limit (a table has
    at most \<open>2 ^ 29\<close> cells then) and simulate the ordered map, and reachable tables are consistent.
    \<open>ZendHashIter\<close> covers positions, callbacks that delete while walking, and destruction;
    \<open>ZendHashCopy\<close> and \<open>ZendHashDup\<close> copy, merge, duplication and the symbol-table conversions;
    \<open>ZendHashSort\<close> and \<open>ZendHashCmp\<close> sorting, comparison and extrema; \<open>ZendHashSize\<close> the size and hash
    arithmetic; \<open>ZendNumericKey\<close> the strings that are read as integer keys.

  \<^item> \<open>ZendSort\<close>: zend_sort.c, the comparison networks, the insertion sort and the quicksort on an
    array with a swap callback; for every total preorder the segment is sorted and permuted. The
    locale \<open>swaps_part\<close> carries this over to the three bucket swaps that exchange parts of a bucket.
    \<open>ZendQsort\<close> has the quicksort with an explicit stack of segments, which never overflows.

  \<^item> \<open>ZendStack\<close>: zend_stack.c, whose elements are bytes in one block addressed by the C integer
    size * n, and zend_ptr_stack.c, both interpretations of the locale \<open>lifo\<close> of a stack with a capacity, which is the
    number of elements up to which no C integer overflows.
    \<open>ZendLlist\<close>: zend_llist.c on an explicit heap of nodes, against lists.

  \<^item> The bridge: \<open>PyPhpBridge\<close> has the conversions in both directions, \<open>DeepClientWrapper\<close> the wrapper
    class with its methods, the Python module and their composition. The functions of the Python C API (attribute
    lookup, calls, printing of errors, conversions of strings and integers), the
    interpreter's state and the \<open>deepclient\<close> package are parameters; what the theorems assume of them
    are the predicates \<open>provides\<close>, \<open>provides_interface\<close> and \<open>print_clears\<close>. The conversions of replies carry the
    error indicator of the interpreter, since a failed conversion leaves an exception pending.

  \<^item> Library code: \<open>PhpBase64\<close>, \<open>PhpUrl\<close> and \<open>PhpUuencode\<close> (ext/standard; all interpretations of the
    locale \<open>codec\<close> of \<open>PhpBytes\<close>), \<open>PhpLevenshtein\<close> (ext/standard/levenshtein.c against edit scripts),
    and ext/calendar: \<open>PhpJewish\<close> and \<open>PhpCalendar\<close> have the Jewish, Gregorian, Julian and French
    calendars as interpretations of the locale \<open>calendar\<close> of \<open>PhpCalBase\<close>, which says that the next day
    number has the next date by the calendar's rules and that dates convert back; \<open>PhpEaster\<close> has
    Easter as the first Sunday after the full moon, \<open>PhpCalFuncs\<close> the PHP functions, the tables of
    names and the Hebrew numerals.

  \<^item> ext/bcmath, the decimal numbers of libbcmath, against rational numbers: \<open>BcNum\<close> has the number structure
    and its value, \<open>BcAddSub\<close> comparison, addition and subtraction, \<open>BcMul\<close> the products by columns and by
    divide and conquer, \<open>BcDiv\<close> Knuth's long division and the remainder, \<open>BcStr\<close> the conversions, \<open>BcPow\<close> powers and
    modular powers. Every result is the exact one cut to the scale that the routine announces. The
    loop of the modular power is a \<open>partial_function\<close> and is shown to end.

  \<^bold>\<open>How the code is translated.\<close> Structures are records with the fields of the source, enums are
  datatypes, pointers into a table are bucket indices, errors are values of a sum or option type,
  loops are recursive functions, and the integers keep their width (words of 32 and 64 bits) where
  the code depends on it; in the calendars, integers are unbounded with the narrowing to \<open>int\<close> written
  out, and the theorems hold up to day \<open>2 ^ 39\<close>, before years leave the range (for the Jewish
  calendar to the end of year 887565, after which the code overflows); the stacks check every
  integer result for overflow; in bcmath lengths are natural numbers, and the properties have as
  hypothesis that they stay below \<open>INT_MAX\<close>, where the code ends the request. The build is the 64-bit
  release build without debug checks, and memory allocation is taken to succeed.

  \<^bold>\<open>Not modelled.\<close> index.php evaluates the received code and is left out with the rest of the HTTP
  front end; the compiler and executor of the engine, its memory manager and reference counts (a
  parameter where they change a value), persistent memory and the resource manager; the vector
  variants of base64; square root, output and the PHP functions of bcmath; the other extensions. They are vendored code of hundreds of thousands of lines, or glue around
  input and output.
\<close>

end
